(* ===== verification/Prelude.thy ===== *)
theory Prelude
  imports Main "HOL-Library.Word"
begin

text \<open>
  Shared vocabulary of the development: the machine integers of the C++ sources, the
  exceptions a yacl function can throw, the result type of a function that may throw, and
  the generic facts on lists and words the component theories use.

  \<^item> \<open>u8\<close>, \<open>u32\<close>, \<open>u64\<close>, \<open>u128\<close> are
    \<open>uint8_t\<close>, \<open>uint32_t\<close>, \<open>uint64_t\<close>/\<open>size_t\<close> and \<open>uint128_t\<close>; arithmetic on them wraps.
  \<^item> \<open>'a result\<close> is \<open>error + 'a\<close>: \<open>Inl e\<close> is a thrown
    exception and \<open>Inr x\<close> a normal return.
  \<^item> \<open>Undefined\<close> marks an access outside an object (C++ undefined behaviour);
    a theorem that a function returns \<open>Inr\<close> therefore also shows memory safety of
    the accesses the function makes.
\<close>

unbundle bit_operations_syntax

subsection \<open>Machine integers and bytes\<close>

type_synonym u8 = "8 word"
type_synonym u32 = "32 word"
type_synonym u64 = "64 word"
type_synonym u128 = "128 word"
type_synonym bytes = "u8 list"

subsection \<open>Exceptions and results\<close>

datatype error =
    EnforceNotMet
  | RuntimeError
  | LogicError
  | IoError
  | LinkAborted
  | NetworkError
  | LinkError u32 u32
  | OutOfRange
  | Undefined

type_synonym 'a result = "error + 'a"

definition rbind :: "'a result \<Rightarrow> ('a \<Rightarrow> 'b result) \<Rightarrow> 'b result" where
  "rbind m f = (case m of Inl e \<Rightarrow> Inl e | Inr x \<Rightarrow> f x)"

definition enforce :: "bool \<Rightarrow> unit result" where
  "enforce b = (if b then Inr () else Inl EnforceNotMet)"

text \<open>A read through an index: the C++ subscript operator does no check, so an index out
  of range is undefined behaviour.\<close>

definition at_idx :: "'a list \<Rightarrow> nat \<Rightarrow> 'a result" where
  "at_idx xs i = (if i < length xs then Inr (xs ! i) else Inl Undefined)"

definition set_idx :: "'a list \<Rightarrow> nat \<Rightarrow> 'a \<Rightarrow> 'a list result" where
  "set_idx xs i v = (if i < length xs then Inr (xs[i := v]) else Inl Undefined)"

named_theorems result_simps \<open>evaluation of the result monad\<close>

lemma rbind_Inr [simp, result_simps]: "rbind (Inr x) f = f x"
  by (simp add: rbind_def)

lemma rbind_Inl [simp, result_simps]: "rbind (Inl e) f = Inl e"
  by (simp add: rbind_def)

lemma rbind_eq_Inr [simp]: "rbind m f = Inr y \<longleftrightarrow> (\<exists>x. m = Inr x \<and> f x = Inr y)"
  by (cases m) auto

lemma rbind_eq_Inl: "rbind m f = Inl e \<longleftrightarrow> m = Inl e \<or> (\<exists>x. m = Inr x \<and> f x = Inl e)"
  by (cases m) auto

lemma rbind_assoc: "rbind (rbind m f) g = rbind m (\<lambda>x. rbind (f x) g)"
  by (cases m) auto

lemma rbind_cong [fundef_cong]:
  "m = m' \<Longrightarrow> (\<And>x. m' = Inr x \<Longrightarrow> f x = g x) \<Longrightarrow> rbind m f = rbind m' g"
  by (cases m') auto

lemma enforce_Inr [simp]: "enforce b = Inr u \<longleftrightarrow> b"
  by (simp add: enforce_def)

lemma enforce_Inl [simp]: "enforce b = Inl e \<longleftrightarrow> \<not> b \<and> e = EnforceNotMet"
  by (auto simp: enforce_def)

lemma enforce_True [simp, result_simps]: "enforce True = Inr ()"
  by (simp add: enforce_def)

lemma enforce_False [simp, result_simps]: "enforce False = Inl EnforceNotMet"
  by (simp add: enforce_def)

lemma at_idx_Inr [simp]: "at_idx xs i = Inr x \<longleftrightarrow> i < length xs \<and> x = xs ! i"
  by (auto simp: at_idx_def)

lemma at_idx_in [result_simps]: "i < length xs \<Longrightarrow> at_idx xs i = Inr (xs ! i)"
  by (simp add: at_idx_def)

lemma set_idx_Inr [simp]: "set_idx xs i v = Inr ys \<longleftrightarrow> i < length xs \<and> ys = xs[i := v]"
  by (auto simp: set_idx_def)

lemma set_idx_in [result_simps]: "i < length xs \<Longrightarrow> set_idx xs i v = Inr (xs[i := v])"
  by (simp add: set_idx_def)

subsection \<open>Words\<close>

lemma xor_cancel_left [simp]: "(x :: 'a :: len word) XOR (x XOR y) = y"
  by (simp add: xor.assoc [symmetric])

lemma xor_eq_zero [simp]: "(x :: 'a :: len word) XOR y = 0 \<longleftrightarrow> x = y"
proof
  assume "x XOR y = 0"
  then have "x XOR (x XOR y) = x XOR 0" by simp
  then show "x = y" by simp
qed simp

lemmas xor_ac = xor.assoc xor.commute xor.left_commute

lemma one_le_word [simp]: "1 \<le> (w :: 'a :: len word) \<longleftrightarrow> w \<noteq> 0"
proof -
  have "1 \<le> w \<longleftrightarrow> 0 < unat w" by (simp add: word_le_nat_alt Suc_le_eq)
  also have "\<dots> \<longleftrightarrow> w \<noteq> 0" by (simp add: unat_gt_0)
  finally show ?thesis .
qed

lemma unat_of_nat_small:
  "n < 2 ^ LENGTH('a) \<Longrightarrow> unat (of_nat n :: 'a :: len word) = n"
  by (simp add: unsigned_of_nat take_bit_nat_eq_self)

lemma card_word_ivl: "card {1..n} = unat (n :: 'a :: len word)"
proof -
  have "unat ` {1..n} = {1..unat n}"
  proof (intro equalityI subsetI)
    fix k assume "k \<in> {1..unat n}"
    then have k: "unat (of_nat k :: 'a word) = k" "1 \<le> k" "k \<le> unat n"
      by (auto intro!: unat_of_nat_small le_less_trans [OF _ unsigned_less [of n]])
    then have "(of_nat k :: 'a word) \<in> {1..n}"
      by (simp add: word_le_nat_alt)
    with k(1) show "k \<in> unat ` {1..n}" by (metis image_eqI)
  qed (auto simp: word_le_nat_alt)
  then have "card (unat ` {1..n}) = unat n" by simp
  moreover have "inj_on unat {1..n}" by (simp add: inj_on_def word_unat_eq_iff)
  ultimately show ?thesis by (simp add: card_image)
qed

subsection \<open>Loops and checked subscripts\<close>

text \<open>An \<open>assert\<close>, and any other precondition whose violation leaves the behaviour of the
  C++ program undefined.\<close>

definition assert_that :: "bool \<Rightarrow> unit result" where
  "assert_that b = (if b then Inr () else Inl Undefined)"

text \<open>A \<open>for\<close> loop over the listed indices, with a body that may throw.\<close>

fun rfold :: "('i \<Rightarrow> 's \<Rightarrow> 's result) \<Rightarrow> 'i list \<Rightarrow> 's \<Rightarrow> 's result" where
  "rfold f [] s = Inr s"
| "rfold f (i # is) s = rbind (f i s) (rfold f is)"

text \<open>\<open>xs[i] = f(xs[i])\<close> through the unchecked subscript operator.\<close>

definition upd_idx :: "'a list \<Rightarrow> nat \<Rightarrow> ('a \<Rightarrow> 'a) \<Rightarrow> 'a list result" where
  "upd_idx xs i f = (if i < length xs then Inr (xs[i := f (xs ! i)]) else Inl Undefined)"

text \<open>\<open>std::vector::resize(n, v)\<close>.\<close>

definition vec_resize :: "nat \<Rightarrow> 'a \<Rightarrow> 'a list \<Rightarrow> 'a list" where
  "vec_resize n v xs = take n xs @ replicate (n - length xs) v"

lemma assert_that_Inr [simp]: "assert_that b = Inr u \<longleftrightarrow> b"
  by (simp add: assert_that_def)

lemma assert_that_True [simp, result_simps]: "assert_that True = Inr ()"
  by (simp add: assert_that_def)

lemma assert_that_False [simp, result_simps]: "assert_that False = Inl Undefined"
  by (simp add: assert_that_def)

lemma upd_idx_Inr [simp]: "upd_idx xs i f = Inr ys \<longleftrightarrow> i < length xs \<and> ys = xs[i := f (xs ! i)]"
  by (auto simp: upd_idx_def)

lemma upd_idx_in [result_simps]: "i < length xs \<Longrightarrow> upd_idx xs i f = Inr (xs[i := f (xs ! i)])"
  by (simp add: upd_idx_def)

lemma length_vec_resize [simp]: "length (vec_resize n v xs) = n"
  by (simp add: vec_resize_def)

lemma nth_vec_resize: "i < n \<Longrightarrow> vec_resize n v xs ! i = (if i < length xs then xs ! i else v)"
  by (simp add: vec_resize_def nth_append)

lemma rfold_append: "rfold f (is @ js) s = rbind (rfold f is s) (rfold f js)"
  by (induction "is" arbitrary: s) (simp_all add: rbind_assoc cong: rbind_cong)

text \<open>The loop rule: an invariant indexed by the number of iterations done.\<close>

lemma rfold_rule:
  assumes "I 0 s"
    and "\<And>k s. k < length is \<Longrightarrow> I k s \<Longrightarrow> \<exists>s'. f (is ! k) s = Inr s' \<and> I (Suc k) s'"
  obtains s' where "rfold f is s = Inr s'" "I (length is) s'"
proof -
  have "\<exists>s'. rfold f (drop k is) s = Inr s' \<and> I (length is) s'" if "k \<le> length is" "I k s" for k s
    using that
  proof (induction "length is - k" arbitrary: k s)
    case (Suc n)
    then have k: "k < length is" by simp
    with assms(2) Suc.prems obtain s1 where "f (is ! k) s = Inr s1" "I (Suc k) s1" by blast
    with Suc k show ?case by (simp add: Cons_nth_drop_Suc [symmetric])
  qed auto
  from this [of 0 s] assms(1) that show ?thesis by auto
qed

lemma rfold_cong:
  "(\<And>i s. i \<in> set is \<Longrightarrow> f i s = g i s) \<Longrightarrow> rfold f is s = rfold g is s"
  by (induction "is" arbitrary: s) (auto simp: rbind_def split: sum.splits)

text \<open>\<open>returns m P\<close>: the call returns normally and its result satisfies \<open>P\<close>.\<close>

definition returns :: "'a result \<Rightarrow> ('a \<Rightarrow> bool) \<Rightarrow> bool" where
  "returns m P \<longleftrightarrow> (\<exists>x. m = Inr x \<and> P x)"

lemma returns_Inr [simp]: "returns (Inr x) P \<longleftrightarrow> P x"
  by (simp add: returns_def)

lemma returns_Inl [simp]: "\<not> returns (Inl e) P"
  by (simp add: returns_def)

lemma returns_bind:
  "returns m P \<Longrightarrow> (\<And>x. P x \<Longrightarrow> returns (f x) Q) \<Longrightarrow> returns (rbind m f) Q"
  by (auto simp: returns_def)

lemma returns_mono: "returns m P \<Longrightarrow> (\<And>x. P x \<Longrightarrow> Q x) \<Longrightarrow> returns m Q"
  by (auto simp: returns_def)

lemma returns_assert [simp]: "returns (rbind (assert_that b) f) Q \<longleftrightarrow> b \<and> returns (f ()) Q"
  by (cases b) auto

lemma returns_rfold:
  assumes "I 0 s"
    and "\<And>k s. k < length is \<Longrightarrow> I k s \<Longrightarrow> returns (f (is ! k) s) (I (Suc k))"
  shows "returns (rfold f is s) (I (length is))"
proof -
  from assms(2) have "\<exists>s'. f (is ! k) s = Inr s' \<and> I (Suc k) s'" if "k < length is" "I k s" for k s
    using that by (simp add: returns_def)
  with assms(1) obtain s' where "rfold f is s = Inr s'" "I (length is) s'"
    by (rule rfold_rule [where I = I]) blast+
  then show ?thesis by (simp add: returns_def)
qed

subsection \<open>Procedures: state that survives an exception\<close>

text \<open>A method of an object with mutable fields: the fields it has written keep their values
  when it throws.\<close>

type_synonym ('s, 'a) proc = "'s \<Rightarrow> 'a result \<times> 's"

definition preturn :: "'a \<Rightarrow> ('s, 'a) proc" where
  "preturn x s = (Inr x, s)"

definition praise :: "error \<Rightarrow> ('s, 'a) proc" where
  "praise e s = (Inl e, s)"

definition pbind :: "('s, 'a) proc \<Rightarrow> ('a \<Rightarrow> ('s, 'b) proc) \<Rightarrow> ('s, 'b) proc" where
  "pbind m f s = (case m s of (Inl e, s') \<Rightarrow> (Inl e, s') | (Inr x, s') \<Rightarrow> f x s')"

definition pthen :: "('s, 'a) proc \<Rightarrow> ('s, 'b) proc \<Rightarrow> ('s, 'b) proc" where
  "pthen m n = pbind m (\<lambda>_. n)"

definition pget :: "('s \<Rightarrow> 'a) \<Rightarrow> ('s, 'a) proc" where
  "pget f s = (Inr (f s), s)"

definition pmodify :: "('s \<Rightarrow> 's) \<Rightarrow> ('s, unit) proc" where
  "pmodify f s = (Inr (), f s)"

definition plift :: "'a result \<Rightarrow> ('s, 'a) proc" where
  "plift r s = (r, s)"

definition pcheck :: "('s \<Rightarrow> bool) \<Rightarrow> error \<Rightarrow> ('s, unit) proc" where
  "pcheck ok e s = (if ok s then (Inr (), s) else (Inl e, s))"

fun pmap_list :: "('a \<Rightarrow> ('s, unit) proc) \<Rightarrow> 'a list \<Rightarrow> ('s, unit) proc" where
  "pmap_list f [] = preturn ()"
| "pmap_list f (x # xs) = pthen (f x) (pmap_list f xs)"

named_theorems proc_simps \<open>evaluation of procedures\<close>

lemma pbind_apply [proc_simps]:
  "pbind m f s = (case m s of (Inl e, s') \<Rightarrow> (Inl e, s') | (Inr x, s') \<Rightarrow> f x s')"
  by (simp add: pbind_def)

lemmas [proc_simps] = preturn_def praise_def pthen_def pget_def pmodify_def plift_def pcheck_def

lemma pthen_ok [simp]: "m s = (Inr x, s') \<Longrightarrow> pthen m n s = n s'"
  by (simp add: proc_simps)

lemma pbind_ok [simp]: "m s = (Inr x, s') \<Longrightarrow> pbind m f s = f x s'"
  by (simp add: proc_simps)

subsection \<open>Waiting on a condition variable\<close>

text \<open>
  A thread that holds the lock tests \<open>busy\<close>; while it is true it checks \<open>pre\<close>, waits, and checks
  \<open>post\<close>. Each wake-up carries whether the wait timed out and what the other threads did to the
  state while the lock was released. \<open>None\<close> is a thread that is still waiting when the list of
  wake-ups ends.
\<close>

type_synonym 's wakeup = "bool \<times> ('s \<Rightarrow> 's)"

fun wait_loop :: "('s \<Rightarrow> bool) \<Rightarrow> ('s \<Rightarrow> error option) \<Rightarrow> (bool \<Rightarrow> 's \<Rightarrow> error option) \<Rightarrow>
    's wakeup list \<Rightarrow> 's \<Rightarrow> unit result option \<times> 's" where
  "wait_loop busy pre post [] s =
     (if busy s then (map_option Inl (pre s), s) else (Some (Inr ()), s))"
| "wait_loop busy pre post ((timeout, f) # ws) s =
     (if busy s then
        case pre s of
          Some e \<Rightarrow> (Some (Inl e), s)
        | None \<Rightarrow> (case post timeout (f s) of
                     Some e \<Rightarrow> (Some (Inl e), f s)
                   | None \<Rightarrow> wait_loop busy pre post ws (f s))
      else (Some (Inr ()), s))"

lemma wait_loop_returns_not_busy:
  "wait_loop busy pre post ws s = (Some (Inr u), s') \<Longrightarrow> \<not> busy s'"
  by (induction busy pre post ws s rule: wait_loop.induct)
    (auto split: if_splits option.splits)

text \<open>The state after the first \<open>k\<close> wake-ups.\<close>

definition after_wakeups :: "'s wakeup list \<Rightarrow> nat \<Rightarrow> 's \<Rightarrow> 's" where
  "after_wakeups ws k s = fold snd (take k ws) s"

lemma after_wakeups_simps [simp]:
  "after_wakeups ws 0 s = s"
  "after_wakeups (w # ws) (Suc k) s = after_wakeups ws k (snd w s)"
  by (simp_all add: after_wakeups_def)

lemma wait_loop_exit:
  assumes "k \<le> length ws" "\<not> busy (after_wakeups ws k s)"
    and "\<And>j. j < k \<Longrightarrow> pre (after_wakeups ws j s) = None"
    and "\<And>j. j < k \<Longrightarrow> post (fst (ws ! j)) (after_wakeups ws (Suc j) s) = None"
  shows "\<exists>j \<le> k. wait_loop busy pre post ws s = (Some (Inr ()), after_wakeups ws j s) \<and>
    \<not> busy (after_wakeups ws j s)"
  using assms
proof (induction ws arbitrary: s k)
  case Nil
  then show ?case by (simp add: after_wakeups_def)
next
  case (Cons w ws)
  show ?case
  proof (cases "busy s")
    case False
    then show ?thesis by (intro exI [of _ 0]) (cases w; simp)
  next
    case True
    with Cons.prems(2) obtain k' where k: "k = Suc k'" by (cases k) auto
    have pre: "pre s = None" and post: "post (fst w) (snd w s) = None"
      using Cons.prems(3) [of 0] Cons.prems(4) [of 0] k by auto
    have "\<exists>j \<le> k'. wait_loop busy pre post ws (snd w s) = (Some (Inr ()), after_wakeups ws j (snd w s)) \<and>
        \<not> busy (after_wakeups ws j (snd w s))"
      using Cons.prems k Cons.prems(3) [of "Suc _"] Cons.prems(4) [of "Suc _"]
      by (intro Cons.IH) auto
    then obtain j where "j \<le> k'"
      "wait_loop busy pre post ws (snd w s) = (Some (Inr ()), after_wakeups ws j (snd w s))"
      "\<not> busy (after_wakeups ws j (snd w s))" by blast
    with True pre post k show ?thesis
      by (intro exI [of _ "Suc j"]) (cases w; simp)
  qed
qed

end
