(* ===== verification/Segment_Tree.thy ===== *)
theory Segment_Tree
  imports Prelude
begin

text \<open>
  \<open>src/yacl/utils/segment_tree.h\<close>: the set of message ids a channel has seen, kept as a
  \<open>std::map\<close> from segment start to (exclusive) segment end. The map is modelled as the list of
  its entries in key order; \<open>upper_bound\<close> splits that list, and an iterator into the map is the
  entry it points at together with the entries before and after it.

  The locale \<open>id_set\<close> is what the channel relies on; it is interpreted on the tree below.
\<close>

subsection \<open>The code\<close>

record segment_tree =
  segments :: "(u64 \<times> u64) list"
  seg_count :: u64

definition seg_empty :: segment_tree where
  "seg_empty = \<lparr>segments = [], seg_count = 0\<rparr>"

text \<open>The entries with key \<open>\<le> item\<close>, i.e. those before \<open>upper_bound(item)\<close>, and the rest.\<close>

definition seg_before :: "u64 \<Rightarrow> (u64 \<times> u64) list \<Rightarrow> (u64 \<times> u64) list" where
  "seg_before item xs = takeWhile (\<lambda>p. fst p \<le> item) xs"

definition seg_after :: "u64 \<Rightarrow> (u64 \<times> u64) list \<Rightarrow> (u64 \<times> u64) list" where
  "seg_after item xs = dropWhile (\<lambda>p. fst p \<le> item) xs"

text \<open>An iterator: entries before, the entry pointed at, entries after.\<close>

type_synonym seg_iter = "(u64 \<times> u64) list \<times> (u64 \<times> u64) \<times> (u64 \<times> u64) list"

definition merge_prev :: "seg_iter \<Rightarrow> seg_iter" where
  "merge_prev = (\<lambda>(before, cur, after).
     if before \<noteq> [] \<and> snd (last before) = fst cur
     then (butlast before, (fst (last before), snd cur), after)
     else (before, cur, after))"

definition merge_next :: "seg_iter \<Rightarrow> seg_iter" where
  "merge_next = (\<lambda>(before, cur, after).
     if after \<noteq> [] \<and> fst (hd after) = snd cur
     then (before, (fst cur, snd (hd after)), tl after)
     else (before, cur, after))"

definition iter_list :: "seg_iter \<Rightarrow> (u64 \<times> u64) list" where
  "iter_list = (\<lambda>(before, cur, after). before @ cur # after)"

text \<open>\<open>std::map::insert\<close> leaves an entry whose key is already present alone.\<close>

definition seg_emplace :: "u64 \<Rightarrow> (u64 \<times> u64) list \<Rightarrow> (u64 \<times> u64) list \<Rightarrow> seg_iter" where
  "seg_emplace item before after =
     (if before \<noteq> [] \<and> fst (last before) = item then (butlast before, last before, after)
      else (before, (item, item + 1), after))"

definition seg_insert :: "u64 \<Rightarrow> segment_tree \<Rightarrow> bool \<times> segment_tree" where
  "seg_insert item t =
     (if segments t = [] then
        (True, t\<lparr>segments := [(item, item + 1)], seg_count := seg_count t + 1\<rparr>)
      else
        let before = seg_before item (segments t);
            after = seg_after item (segments t)
        in if before = [] \<or> item > snd (last before) then
             (True, t\<lparr>segments := iter_list (merge_next (merge_prev (seg_emplace item before after))),
                      seg_count := seg_count t + 1\<rparr>)
           else if item = snd (last before) then
             (True, t\<lparr>segments := iter_list (merge_next (merge_prev
                                    (butlast before, (fst (last before), item + 1), after))),
                      seg_count := seg_count t + 1\<rparr>)
           else (False, t))"

definition seg_contains :: "u64 \<Rightarrow> segment_tree \<Rightarrow> bool" where
  "seg_contains item t =
     (if segments t = [] then False
      else let before = seg_before item (segments t)
           in if before = [] \<or> item \<ge> snd (last before) then False else True)"

definition segments_count :: "segment_tree \<Rightarrow> nat" where
  "segments_count t = length (segments t)"

definition get_segments :: "segment_tree \<Rightarrow> (u64 \<times> u64) list" where
  "get_segments t = segments t"

subsection \<open>Invariant and abstraction\<close>

definition seg_set :: "(u64 \<times> u64) list \<Rightarrow> u64 set" where
  "seg_set xs = (\<Union>p\<in>set xs. {fst p..<snd p})"

definition seg_wf :: "(u64 \<times> u64) list \<Rightarrow> bool" where
  "seg_wf xs \<longleftrightarrow> sorted_wrt (\<lambda>p q. snd p < fst q) xs \<and> (\<forall>p\<in>set xs. fst p < snd p)"

definition seg_inv :: "segment_tree \<Rightarrow> bool" where
  "seg_inv t \<longleftrightarrow> seg_wf (segments t) \<and> unat (seg_count t) = card (seg_set (segments t))"

definition seg_abs :: "segment_tree \<Rightarrow> u64 set" where
  "seg_abs t = seg_set (segments t)"

lemma seg_set_simps [simp]:
  "seg_set [] = {}"
  "seg_set (p # xs) = {fst p..<snd p} \<union> seg_set xs"
  "seg_set (xs @ ys) = seg_set xs \<union> seg_set ys"
  by (auto simp: seg_set_def)

lemma seg_wf_Nil [simp]: "seg_wf []"
  by (simp add: seg_wf_def)

lemma seg_wf_Cons:
  "seg_wf (p # xs) \<longleftrightarrow> fst p < snd p \<and> (\<forall>q\<in>set xs. snd p < fst q) \<and> seg_wf xs"
  by (auto simp: seg_wf_def)

lemma seg_wf_append:
  "seg_wf (xs @ ys) \<longleftrightarrow> seg_wf xs \<and> seg_wf ys \<and> (\<forall>p\<in>set xs. \<forall>q\<in>set ys. snd p < fst q)"
  by (auto simp: seg_wf_def sorted_wrt_append)

lemma seg_split: "xs = seg_before x xs @ seg_after x xs"
  by (simp add: seg_before_def seg_after_def)

lemma seg_before_le: "p \<in> set (seg_before x xs) \<Longrightarrow> fst p \<le> x"
  by (auto simp: seg_before_def dest: set_takeWhileD)

lemma seg_after_gt:
  assumes "seg_wf xs" "p \<in> set (seg_after x xs)"
  shows "x < fst p"
  using assms
proof (induction xs)
  case (Cons q xs)
  show ?case
  proof (cases "fst q \<le> x")
    case True
    with Cons show ?thesis by (auto simp: seg_after_def seg_wf_Cons)
  next
    case False
    then have "seg_after x (q # xs) = q # xs" by (simp add: seg_after_def)
    with Cons.prems have "p = q \<or> (p \<in> set xs \<and> fst q < snd q \<and> snd q < fst p)"
      by (auto simp: seg_wf_Cons)
    with False show ?thesis by auto
  qed
qed (simp add: seg_after_def)

lemma word_less_plus_one:
  fixes x y :: "'a :: len word"
  assumes "y \<noteq> - 1"
  shows "x < y + 1 \<longleftrightarrow> x \<le> y"
proof -
  have "unat (y + 1) = unat y + 1"
    using assms by (metis add.commute add_eq_0_iff2 Suc_eq_plus1 unatSuc)
  then show ?thesis
    by (auto simp: word_less_nat_alt word_le_nat_alt)
qed


subsection \<open>Merging keeps the set of ids\<close>

definition iter_ok :: "seg_iter \<Rightarrow> bool" where
  "iter_ok = (\<lambda>(before, cur, after). seg_wf before \<and> seg_wf after \<and> fst cur < snd cur \<and>
     (\<forall>p\<in>set before. snd p \<le> fst cur) \<and> (\<forall>q\<in>set after. snd cur \<le> fst q))"

lemma seg_wf_snocD:
  assumes "seg_wf (xs @ [p])"
  shows "seg_wf xs" "fst p < snd p" "\<And>q. q \<in> set xs \<Longrightarrow> snd q < fst p"
  using assms by (auto simp: seg_wf_append seg_wf_Cons)

lemma seg_set_glue:
  fixes a b c :: u64
  assumes "a \<le> b" "b \<le> c"
  shows "{a..<b} \<union> {b..<c} = {a..<c}"
  using assms by (rule ivl_disj_un_two(3))

lemma merge_prev_props:
  assumes "iter_ok (before, cur, after)"
  obtains b c where "merge_prev (before, cur, after) = (b, c, after)" "iter_ok (b, c, after)"
    "seg_set (b @ [c]) = seg_set (before @ [cur])" "\<forall>p\<in>set b. snd p < fst c"
proof -
  have ok: "seg_wf before" "seg_wf after" "fst cur < snd cur"
    "\<And>p. p \<in> set before \<Longrightarrow> snd p \<le> fst cur" "\<And>q. q \<in> set after \<Longrightarrow> snd cur \<le> fst q"
    using assms by (simp_all add: iter_ok_def)
  show ?thesis
  proof (cases before rule: rev_cases)
    case Nil
    then show ?thesis using that [of "[]" cur] assms by (simp add: merge_prev_def)
  next
    case (snoc b p)
    have wf: "seg_wf (b @ [p])" using ok(1) snoc by simp
    note pw = seg_wf_snocD [OF wf]
    show ?thesis
    proof (cases "snd p = fst cur")
      case True
      have pc: "fst p < fst cur" using pw(2) unfolding True .
      have lt: "fst p < snd cur" using pc ok(3) by (rule order.strict_trans)
      have "{fst p..<snd cur} = {fst p..<snd p} \<union> {fst cur..<snd cur}"
        unfolding True using seg_set_glue pc ok(3) by (metis less_imp_le)
      then have "seg_set (b @ [(fst p, snd cur)]) = seg_set (before @ [cur])"
        unfolding snoc by (simp add: Un_assoc)
      moreover have "iter_ok (b, (fst p, snd cur), after)"
        using pw(1) lt ok(2,5) pw(3) by (simp add: iter_ok_def less_imp_le)
      ultimately show ?thesis
        using that [of b "(fst p, snd cur)"] True snoc pw(3) by (simp add: merge_prev_def)
    next
      case False
      then have p: "snd p < fst cur" using ok(4) [of p] snoc by simp
      have "snd q < fst cur" if "q \<in> set before" for q
      proof (cases "q = p")
        case False
        with that snoc have "q \<in> set b" by simp
        then have "snd q < fst p" by (rule pw(3))
        with pw(2) p show ?thesis by order
      qed (simp add: p)
      then show ?thesis
        using that [of before cur] assms False snoc by (simp add: merge_prev_def)
    qed
  qed
qed

lemma seg_wf_mid:
  assumes "seg_wf b" "seg_wf a" "fst c < snd c"
    and "\<And>p. p \<in> set b \<Longrightarrow> snd p < fst c" and "\<And>q. q \<in> set a \<Longrightarrow> snd c < fst q"
  shows "seg_wf (b @ c # a)"
proof -
  have "snd p < fst q" if "p \<in> set b" "q \<in> set a" for p q
    using assms(3) assms(4) [OF that(1)] assms(5) [OF that(2)] by order
  with assms show ?thesis by (simp add: seg_wf_append seg_wf_Cons)
qed

lemma merge_next_props:
  assumes ok: "iter_ok (before, cur, after)" and lt: "\<And>p. p \<in> set before \<Longrightarrow> snd p < fst cur"
  shows "seg_wf (iter_list (merge_next (before, cur, after)))"
    and "seg_set (iter_list (merge_next (before, cur, after))) = seg_set (iter_list (before, cur, after))"
proof -
  have wf: "seg_wf before" "seg_wf after" "fst cur < snd cur" "\<And>q. q \<in> set after \<Longrightarrow> snd cur \<le> fst q"
    using ok by (auto simp: iter_ok_def)
  have "seg_wf (iter_list (merge_next (before, cur, after))) \<and>
    seg_set (iter_list (merge_next (before, cur, after))) = seg_set (iter_list (before, cur, after))"
  proof (cases after)
    case Nil
    with wf lt show ?thesis
      using seg_wf_mid [of before "[]" cur] by (simp add: merge_next_def iter_list_def)
  next
    case (Cons q qs)
    with wf have q: "seg_wf qs" "fst q < snd q" "\<And>r. r \<in> set qs \<Longrightarrow> snd q < fst r" "snd cur \<le> fst q"
      by (auto simp: seg_wf_Cons)
    show ?thesis
    proof (cases "fst q = snd cur")
      case True
      have "fst cur < snd q" using True q(2) wf(3) by simp
      then have "seg_wf (before @ (fst cur, snd q) # qs)"
        using wf(1) q lt by (intro seg_wf_mid) auto
      moreover have "{fst cur..<snd q} = {fst cur..<snd cur} \<union> {fst q..<snd q}"
        using True q(2) wf(3) by auto
      ultimately show ?thesis
        using True Cons by (auto simp: merge_next_def iter_list_def)
    next
      case False
      with q(4) have c: "snd cur < fst q" by simp
      have "snd cur < fst r" if "r \<in> set qs" for r
        using c q(2) q(3) [OF that] by order
      with c have "snd cur < fst r" if "r \<in> set (q # qs)" for r
        using that by (metis set_ConsD)
      then have "seg_wf (before @ cur # q # qs)"
        using wf lt Cons by (intro seg_wf_mid) auto
      with False Cons show ?thesis
        by (simp add: merge_next_def iter_list_def)
    qed
  qed
  then show "seg_wf (iter_list (merge_next (before, cur, after)))"
    and "seg_set (iter_list (merge_next (before, cur, after))) = seg_set (iter_list (before, cur, after))"
    by auto
qed

lemma merge_both:
  assumes "iter_ok (before, cur, after)"
  shows "seg_wf (iter_list (merge_next (merge_prev (before, cur, after))))"
    and "seg_set (iter_list (merge_next (merge_prev (before, cur, after)))) =
         seg_set before \<union> {fst cur..<snd cur} \<union> seg_set after"
proof -
  obtain b c where mp: "merge_prev (before, cur, after) = (b, c, after)" "iter_ok (b, c, after)"
    "seg_set (b @ [c]) = seg_set (before @ [cur])" "\<forall>p\<in>set b. snd p < fst c"
    using assms by (rule merge_prev_props)
  show "seg_wf (iter_list (merge_next (merge_prev (before, cur, after))))"
    unfolding mp(1) using mp(2,4) by (simp add: merge_next_props(1))
  have "seg_set (iter_list (merge_next (b, c, after))) = seg_set (b @ [c]) \<union> seg_set after"
    using merge_next_props(2) [OF mp(2)] mp(4) by (simp add: iter_list_def Un_assoc)
  then show "seg_set (iter_list (merge_next (merge_prev (before, cur, after)))) =
         seg_set before \<union> {fst cur..<snd cur} \<union> seg_set after"
    unfolding mp(1) mp(3) by simp
qed

subsection \<open>Membership\<close>

lemma max_not_in_seg_set: "- 1 \<notin> seg_set xs"
  by (auto simp: seg_set_def)

lemma seg_set_after_gt:
  assumes "seg_wf xs" "x \<in> seg_set (seg_after y xs)"
  shows "y < x"
  using assms by (fastforce simp: seg_set_def dest: seg_after_gt)

lemma seg_before_last:
  assumes wf: "seg_wf xs" and ne: "seg_before x xs \<noteq> []"
  obtains b p where "seg_before x xs = b @ [p]" "fst p \<le> x" "fst p < snd p"
    "\<And>y. y \<in> seg_set b \<Longrightarrow> y < fst p" "seg_wf b" "\<And>q. q \<in> set b \<Longrightarrow> snd q < fst p"
    "\<And>q. q \<in> set (seg_after x xs) \<Longrightarrow> snd p < fst q"
proof -
  obtain b p where b: "seg_before x xs = b @ [p]"
    using ne by (metis rev_exhaust)
  have "seg_wf ((b @ [p]) @ seg_after x xs)"
    using wf seg_split [of xs x] b by simp
  then have w: "seg_wf (b @ [p])" "\<And>q. q \<in> set (seg_after x xs) \<Longrightarrow> snd p < fst q"
    by (auto simp: seg_wf_append seg_wf_Cons)
  note pw = seg_wf_snocD [OF w(1)]
  have "y < fst p" if "y \<in> seg_set b" for y
    using that pw(3) by (fastforce simp: seg_set_def)
  moreover have "fst p \<le> x"
    using b seg_before_le [of p x xs] by simp
  ultimately show ?thesis using b pw w(2) by (rule_tac that) auto
qed

lemma in_seg_set_iff:
  assumes "seg_wf xs"
  shows "x \<in> seg_set xs \<longleftrightarrow> seg_before x xs \<noteq> [] \<and> x < snd (last (seg_before x xs))"
proof (cases "seg_before x xs = []")
  case True
  then have "seg_after x xs = xs" using seg_split [of xs x] by simp
  then show ?thesis using True seg_set_after_gt [OF assms, of x x] by auto
next
  case False
  obtain b p where b: "seg_before x xs = b @ [p]" "fst p \<le> x" "fst p < snd p"
    "\<And>y. y \<in> seg_set b \<Longrightarrow> y < fst p"
    using seg_before_last [OF assms False] by metis
  have "seg_set xs = seg_set b \<union> {fst p..<snd p} \<union> seg_set (seg_after x xs)"
    using seg_split [of xs x] b(1) by (metis seg_set_simps(1,2,3) Un_empty_right)
  moreover have "x \<notin> seg_set b" "x \<notin> seg_set (seg_after x xs)"
    using b(2) b(4) [of x] seg_set_after_gt [OF assms, of x x] by auto
  ultimately have "x \<in> seg_set xs \<longleftrightarrow> x < snd p"
    using b(2) by simp
  then show ?thesis
    using b(1) by simp
qed

lemma seg_contains_iff:
  assumes "seg_wf (segments t)"
  shows "seg_contains x t \<longleftrightarrow> x \<in> seg_abs t"
  using in_seg_set_iff [OF assms, of x]
  by (auto simp: seg_contains_def seg_abs_def seg_before_def Let_def)

subsection \<open>Insertion\<close>

lemma seg_count_incr:
  fixes x :: u64
  assumes "unat c = card S" "x \<notin> S" "- 1 \<notin> S" "x \<noteq> - 1"
  shows "unat (c + 1 :: u64) = card (insert x S)"
proof -
  have "card S \<le> card (UNIV - {x, - 1 :: u64})"
    using assms by (intro card_mono) auto
  also have "\<dots> = 2 ^ 64 - 2"
    using assms(4) by (simp add: card_Diff_subset card_word)
  finally have "unat c + 1 < 2 ^ 64" using assms(1) by simp
  then have "unat (c + 1) = unat c + 1"
    by (simp add: unat_word_ariths)
  then show ?thesis using assms by simp
qed

lemma singleton_segment:
  fixes x :: u64
  assumes "x \<noteq> - 1"
  shows "{x..<x + 1} = {x}" "x < x + 1"
proof -
  have "y \<in> {x..<x + 1} \<longleftrightarrow> y = x" for y
    using word_less_plus_one [OF assms, of y] by (simp add: eq_iff conj_commute)
  then show "{x..<x + 1} = {x}" by blast
  show "x < x + 1" using word_less_plus_one [OF assms, of x] by simp
qed

lemma insert_new_props:
  assumes wf: "seg_wf xs" and x: "x \<noteq> - 1"
    and far: "seg_before x xs = [] \<or> x > snd (last (seg_before x xs))"
  defines "it \<equiv> seg_emplace x (seg_before x xs) (seg_after x xs)"
  shows "seg_wf (iter_list (merge_next (merge_prev it)))"
    and "seg_set (iter_list (merge_next (merge_prev it))) = insert x (seg_set xs)"
proof -
  have bef: "snd p \<le> x" if "p \<in> set (seg_before x xs)" for p
  proof -
    have "seg_before x xs \<noteq> []" using that by auto
    then obtain b q where b: "seg_before x xs = b @ [q]" "fst q < snd q" "\<And>r. r \<in> set b \<Longrightarrow> snd r < fst q"
      using seg_before_last [OF wf] by metis
    show ?thesis
    proof (cases "p = q")
      case True
      then show ?thesis using far b(1) by simp
    next
      case False
      with that b(1) have "snd p < fst q" by (intro b(3)) auto
      moreover have "snd q < x" using far b(1) by simp
      ultimately show ?thesis using b(2) by order
    qed
  qed
  have neq: "fst (last (seg_before x xs)) \<noteq> x" if "seg_before x xs \<noteq> []"
    using that far seg_before_last [OF wf that] by (metis last_snoc order.asym)
  then have it: "it = (seg_before x xs, (x, x + 1), seg_after x xs)"
    unfolding it_def seg_emplace_def by auto
  have aft: "x + 1 \<le> fst q" if "q \<in> set (seg_after x xs)" for q
    using seg_after_gt [OF wf that] word_less_plus_one [OF x, of "fst q"] by (meson not_less)
  have parts: "seg_wf (seg_before x xs)" "seg_wf (seg_after x xs)"
    using wf seg_split [of xs x] by (metis seg_wf_append)+
  have ok: "iter_ok (seg_before x xs, (x, x + 1), seg_after x xs)"
    using parts singleton_segment(2) [OF x] bef aft by (simp add: iter_ok_def)
  show "seg_wf (iter_list (merge_next (merge_prev it)))"
    unfolding it using merge_both(1) [OF ok] .
  have "seg_set xs = seg_set (seg_before x xs) \<union> seg_set (seg_after x xs)"
    using seg_split [of xs x] by (metis seg_set_simps(3))
  then show "seg_set (iter_list (merge_next (merge_prev it))) = insert x (seg_set xs)"
    unfolding it merge_both(2) [OF ok] by (simp add: singleton_segment(1) [OF x])
qed

lemma insert_adjacent_props:
  assumes wf: "seg_wf xs" and x: "x \<noteq> - 1"
    and ne: "seg_before x xs \<noteq> []" and adj: "x = snd (last (seg_before x xs))"
  defines "it \<equiv> (butlast (seg_before x xs), (fst (last (seg_before x xs)), x + 1), seg_after x xs)"
  shows "seg_wf (iter_list (merge_next (merge_prev it)))"
    and "seg_set (iter_list (merge_next (merge_prev it))) = insert x (seg_set xs)"
proof -
  obtain b p where b: "seg_before x xs = b @ [p]" "fst p < snd p" "seg_wf b"
      "\<And>q. q \<in> set b \<Longrightarrow> snd q < fst p"
    using seg_before_last [OF wf ne] by metis
  have px: "snd p = x" using adj b(1) by simp
  have it: "it = (b, (fst p, x + 1), seg_after x xs)"
    unfolding it_def b(1) by simp
  have aft: "x + 1 \<le> fst q" if "q \<in> set (seg_after x xs)" for q
    using seg_after_gt [OF wf that] word_less_plus_one [OF x, of "fst q"] by (meson not_less)
  have lt: "fst p < x + 1" using singleton_segment(2) [OF x] b(2) px by order
  have "seg_wf (seg_after x xs)"
    using wf seg_split [of xs x] by (metis seg_wf_append)
  then have ok: "iter_ok (b, (fst p, x + 1), seg_after x xs)"
    using b(3,4) lt aft by (simp add: iter_ok_def less_imp_le)
  show "seg_wf (iter_list (merge_next (merge_prev it)))"
    unfolding it using merge_both(1) [OF ok] .
  have "seg_set xs = seg_set (b @ [p]) \<union> seg_set (seg_after x xs)"
    using seg_split [of xs x] b(1) by (metis seg_set_simps(3))
  moreover have "{fst p..<x + 1} = insert x {fst p..<snd p}"
    using seg_set_glue [of "fst p" x "x + 1"] b(2) px singleton_segment [OF x] by auto
  ultimately show "seg_set (iter_list (merge_next (merge_prev it))) = insert x (seg_set xs)"
    unfolding it merge_both(2) [OF ok] by auto
qed

lemma seg_insert_cases:
  assumes wf: "seg_wf (segments t)" and x: "x \<noteq> - 1"
  shows "seg_wf (segments (snd (seg_insert x t)))"
    and "seg_abs (snd (seg_insert x t)) = insert x (seg_abs t)"
    and "fst (seg_insert x t) \<longleftrightarrow> x \<notin> seg_abs t"
    and "seg_count (snd (seg_insert x t)) = (if x \<in> seg_abs t then seg_count t else seg_count t + 1)"
proof -
  let ?b = "seg_before x (segments t)"
  note mem = in_seg_set_iff [OF wf, of x]
  have "seg_wf (segments (snd (seg_insert x t))) \<and> seg_abs (snd (seg_insert x t)) = insert x (seg_abs t)
    \<and> (fst (seg_insert x t) \<longleftrightarrow> x \<notin> seg_abs t)
    \<and> seg_count (snd (seg_insert x t)) = (if x \<in> seg_abs t then seg_count t else seg_count t + 1)"
  proof (cases "segments t = []")
    case True
    with x show ?thesis
      by (simp add: seg_insert_def seg_abs_def seg_wf_Cons singleton_segment)
  next
    case ne: False
    consider (new) "?b = [] \<or> x > snd (last ?b)" | (adj) "?b \<noteq> []" "x = snd (last ?b)"
      | (old) "?b \<noteq> []" "x < snd (last ?b)"
      by fastforce
    then show ?thesis
    proof cases
      case new
      then have "x \<notin> seg_set (segments t)" using mem by auto
      with new ne show ?thesis
        using insert_new_props [OF wf x new] by (simp add: seg_insert_def seg_abs_def Let_def)
    next
      case adj
      then have "x \<notin> seg_set (segments t)" using mem by auto
      with adj ne show ?thesis
        using insert_adjacent_props [OF wf x adj] by (simp add: seg_insert_def seg_abs_def Let_def)
    next
      case old
      then have "x \<in> seg_set (segments t)" using mem by auto
      moreover have "\<not> snd (last ?b) < x" "x \<noteq> snd (last ?b)" using old by order+
      ultimately show ?thesis
        using ne old wf by (simp add: seg_insert_def seg_abs_def insert_absorb Let_def)
    qed
  qed
  then show "seg_wf (segments (snd (seg_insert x t)))"
    and "seg_abs (snd (seg_insert x t)) = insert x (seg_abs t)"
    and "fst (seg_insert x t) \<longleftrightarrow> x \<notin> seg_abs t"
    and "seg_count (snd (seg_insert x t)) = (if x \<in> seg_abs t then seg_count t else seg_count t + 1)"
    by blast+
qed

lemma seg_inv_wf: "seg_inv t \<Longrightarrow> seg_wf (segments t)"
  by (simp add: seg_inv_def)

lemma seg_inv_card: "seg_inv t \<Longrightarrow> unat (seg_count t) = card (seg_abs t)"
  by (simp add: seg_inv_def seg_abs_def)

lemma seg_insert_inv:
  assumes "seg_inv t" "x \<noteq> - 1"
  shows "seg_inv (snd (seg_insert x t))"
proof -
  have wf: "seg_wf (segments t)" using assms(1) by (simp add: seg_inv_def)
  note c = seg_insert_cases [OF wf assms(2)]
  have "unat (seg_count (snd (seg_insert x t))) = card (insert x (seg_abs t))"
    using assms c(4) seg_count_incr [of "seg_count t" "seg_abs t" x] max_not_in_seg_set [of "segments t"]
    by (auto simp: seg_inv_def seg_abs_def insert_absorb)
  with c(1,2) show ?thesis by (simp add: seg_inv_def seg_abs_def)
qed

subsection \<open>Contiguity: what a channel reads off one segment\<close>

lemma seg_one_segment:
  assumes wf: "seg_wf (segments t)" and one: "segments_count t \<le> 1"
    and a: "a \<in> seg_abs t" and b: "b \<in> seg_abs t"
  shows "{a..b} \<subseteq> seg_abs t"
proof -
  have "segments t \<noteq> []" using a by (auto simp: seg_abs_def)
  then obtain p where p: "segments t = [p]"
    using one by (cases "segments t") (auto simp: segments_count_def)
  have "y \<in> {fst p..<snd p}" if "y \<in> {a..b}" for y
  proof -
    have "fst p \<le> a" "b < snd p" "a \<le> y" "y \<le> b"
      using a b p that by (auto simp: seg_abs_def)
    then have "fst p \<le> y" "y < snd p" by order+
    then show ?thesis by simp
  qed
  then show ?thesis by (auto simp: seg_abs_def p)
qed

lemma seg_wf_empty_iff: "seg_wf xs \<Longrightarrow> seg_set xs = {} \<longleftrightarrow> xs = []"
  by (cases xs) (auto simp: seg_wf_Cons)

subsection \<open>The interface the channel relies on\<close>

text \<open>
  A set of ids: what \<open>Insert\<close>, \<open>Contains\<close>, \<open>Count\<close> and \<open>SegmentsCount\<close> promise. Ids are 64-bit
  and the largest one is excluded (its exclusive end would wrap to 0).
\<close>

fun accept_all :: "('k \<Rightarrow> 't \<Rightarrow> bool \<times> 't) \<Rightarrow> 'k list \<Rightarrow> 't \<Rightarrow> 'k list \<times> 't" where
  "accept_all ins [] t = ([], t)"
| "accept_all ins (x # xs) t =
     (let (fresh, t') = ins x t; (ys, t'') = accept_all ins xs t'
      in (if fresh then x # ys else ys, t''))"

locale id_set =
  fixes empty_ids :: "'t"
    and ins :: "u64 \<Rightarrow> 't \<Rightarrow> bool \<times> 't"
    and mem :: "u64 \<Rightarrow> 't \<Rightarrow> bool"
    and count_ids :: "'t \<Rightarrow> u64"
    and nsegs :: "'t \<Rightarrow> nat"
    and abs :: "'t \<Rightarrow> u64 set"
    and inv :: "'t \<Rightarrow> bool"
  assumes inv_empty: "inv empty_ids" and abs_empty: "abs empty_ids = {}"
    and inv_ins: "inv t \<Longrightarrow> x \<noteq> - 1 \<Longrightarrow> inv (snd (ins x t))"
    and abs_ins: "inv t \<Longrightarrow> x \<noteq> - 1 \<Longrightarrow> abs (snd (ins x t)) = insert x (abs t)"
    and fresh_ins: "inv t \<Longrightarrow> x \<noteq> - 1 \<Longrightarrow> fst (ins x t) \<longleftrightarrow> x \<notin> abs t"
    and mem_abs: "inv t \<Longrightarrow> mem x t \<longleftrightarrow> x \<in> abs t"
    and count_abs: "inv t \<Longrightarrow> unat (count_ids t) = card (abs t)"
    and interval: "inv t \<Longrightarrow> nsegs t \<le> 1 \<Longrightarrow> a \<in> abs t \<Longrightarrow> b \<in> abs t \<Longrightarrow> {a..b} \<subseteq> abs t"
begin

lemma accept_all_spec:
  assumes "inv t" "\<forall>x\<in>set xs. x \<noteq> - 1" "accept_all ins xs t = (ys, t')"
  shows "inv t'" "abs t' = abs t \<union> set xs" "distinct ys" "set ys = set xs - abs t"
proof -
  have "inv t' \<and> abs t' = abs t \<union> set xs \<and> distinct ys \<and> set ys = set xs - abs t"
    using assms
  proof (induction xs arbitrary: t ys)
    case (Cons x xs)
    define u where "u = snd (ins x t)"
    define zs where "zs = fst (accept_all ins xs u)"
    have u: "inv u" "abs u = insert x (abs t)" "fst (ins x t) \<longleftrightarrow> x \<notin> abs t"
      using Cons.prems by (auto simp: u_def inv_ins abs_ins fresh_ins)
    have rec: "accept_all ins xs u = (zs, t')" and ys: "ys = (if x \<notin> abs t then x # zs else zs)"
      using Cons.prems(3) u(3) by (auto simp: u_def zs_def split: prod.splits if_splits)
    have "inv t' \<and> abs t' = abs u \<union> set xs \<and> distinct zs \<and> set zs = set xs - abs u"
      using Cons.IH [OF u(1) _ rec] Cons.prems(2) by simp
    with u(2) ys show ?case by auto
  qed auto
  then show "inv t'" "abs t' = abs t \<union> set xs" "distinct ys" "set ys = set xs - abs t" by auto
qed

lemma all_received:
  assumes "inv t" "nsegs t \<le> 1" "mem 1 t" "mem n t"
  shows "{1..n} \<subseteq> abs t"
  using assms interval [of t 1 n] by (simp add: mem_abs)

lemma all_received_exact:
  assumes "inv t" "nsegs t \<le> 1" "mem 1 t" "mem n t" "abs t \<subseteq> {1..n}"
  shows "abs t = {1..n}" "count_ids t = n"
proof -
  show eq: "abs t = {1..n}" using all_received assms by auto
  then show "count_ids t = n"
    using count_abs [OF assms(1)] by (simp add: card_word_ivl word_unat_eq_iff)
qed

end

interpretation st: id_set seg_empty seg_insert seg_contains seg_count segments_count seg_abs seg_inv
proof unfold_locales
  show "seg_inv seg_empty" by (simp add: seg_inv_def seg_empty_def)
  show "seg_abs seg_empty = {}" by (simp add: seg_abs_def seg_empty_def)
qed (simp_all add: seg_insert_inv seg_insert_cases seg_contains_iff seg_inv_wf seg_inv_card
        seg_one_segment)

text \<open>C9: the segment tree is a set of ids. After inserting any sequence of ids (none of them the
  largest 64-bit value) into an empty tree, \<open>Insert\<close> has returned true exactly once per distinct id,
  \<open>Contains\<close> answers membership, \<open>Count\<close> is the number of distinct ids, and the segments are sorted,
  non-empty and neither overlap nor touch.\<close>

theorem segment_tree_is_set:
  assumes "- 1 \<notin> set xs" "accept_all seg_insert xs seg_empty = (ys, t)"
  shows "distinct ys \<and> set ys = set xs \<and> (\<forall>x. seg_contains x t = (x \<in> set xs)) \<and>
    unat (seg_count t) = card (set xs) \<and> seg_wf (get_segments t)"
proof -
  have "\<forall>x\<in>set xs. x \<noteq> - 1" using assms(1) by auto
  note spec = st.accept_all_spec [OF st.inv_empty this assms(2)]
  show ?thesis
    using spec st.mem_abs [OF spec(1)] st.count_abs [OF spec(1)] seg_inv_wf [OF spec(1)]
    by (simp add: st.abs_empty get_segments_def)
qed

theorem segment_tree_is_set_witness:
  "accept_all seg_insert [3, 1, 2, 3] seg_empty = ([3, 1, 2], \<lparr>segments = [(1, 4)], seg_count = 3\<rparr>) \<and>
   seg_contains 2 \<lparr>segments = [(1, 4)], seg_count = 3\<rparr>"
proof -
  have run: "accept_all seg_insert [3, 1, 2, 3] seg_empty = ([3, 1, 2], \<lparr>segments = [(1, 4)], seg_count = 3\<rparr>)"
    by code_simp
  from segment_tree_is_set [OF _ run] have "seg_contains 2 \<lparr>segments = [(1, 4)], seg_count = 3\<rparr>" by simp
  with run show ?thesis by simp
qed

end
