(* ===== verification/Channel_Keys.thy ===== *)
theory Channel_Keys
  imports Prelude
begin

text \<open>
  \<open>src/yacl/link/transport/channel.cc\<close>, lines 31--71: the reserved message keys and the way a
  channel packs a message key and a sequence id into one transport key.

  \<open>std::to_string\<close> is modelled by \<open>to_string\<close>; \<open>absl::SimpleAtoi\<close> is library code outside the
  repository, so the functions that parse take it as the parameter \<open>atoi\<close>, with the law
  \<open>atoi_ok\<close>: it reads back every number printed by \<open>std::to_string\<close>.
\<close>

subsection \<open>Strings\<close>

fun to_string :: "nat \<Rightarrow> string" where
  "to_string n = (if n < 10 then [char_of (48 + n)] else to_string (n div 10) @ [char_of (48 + n mod 10)])"

declare to_string.simps [simp del]

fun str_find :: "string \<Rightarrow> string \<Rightarrow> nat option" where
  "str_find pat [] = (if pat = [] then Some 0 else None)"
| "str_find pat (c # cs) =
     (if take (length pat) (c # cs) = pat then Some 0 else map_option Suc (str_find pat cs))"

definition str_bytes :: "string \<Rightarrow> bytes" where
  "str_bytes s = map (\<lambda>c. of_nat (of_char c)) s"

definition bytes_str :: "bytes \<Rightarrow> string" where
  "bytes_str bs = map (\<lambda>b. char_of (unat b)) bs"

subsection \<open>Reserved keys\<close>

definition kSeqKey :: string where
  "kSeqKey = [CHR 0x01, CHR 0x02]"

definition kAckKey :: string where
  "kAckKey = ''ACK'' @ [CHR 0x01, CHR 0x02]"

definition kFinKey :: string where
  "kFinKey = ''FIN'' @ [CHR 0x01, CHR 0x02]"

definition normal_message_key_enforce :: "string \<Rightarrow> unit result" where
  "normal_message_key_enforce k =
     rbind (enforce (k \<noteq> []))
       (\<lambda>_. enforce (str_find kSeqKey k = None))"

definition view_to_size_t :: "(string \<Rightarrow> u64 option) \<Rightarrow> string \<Rightarrow> u64 result" where
  "view_to_size_t atoi v = (case atoi v of Some n \<Rightarrow> Inr n | None \<Rightarrow> Inl EnforceNotMet)"

definition build_channel_key :: "string \<Rightarrow> u64 \<Rightarrow> string" where
  "build_channel_key msg_key seq_id = msg_key @ kSeqKey @ to_string (unat seq_id)"

definition split_channel_key :: "(string \<Rightarrow> u64 option) \<Rightarrow> string \<Rightarrow> (string \<times> u64) result" where
  "split_channel_key atoi key =
     (case str_find kSeqKey key of
        None \<Rightarrow> Inr (key, 0)
      | Some pos \<Rightarrow> rbind (view_to_size_t atoi (drop (pos + length kSeqKey) key))
                      (\<lambda>n. Inr (take pos key, n)))"

subsection \<open>The library function that parses a number\<close>

definition atoi_ok :: "(string \<Rightarrow> u64 option) \<Rightarrow> bool" where
  "atoi_ok atoi \<longleftrightarrow> (\<forall>n. atoi (to_string (unat n)) = Some n)"

text \<open>A decimal parser with an overflow check, which satisfies the law.\<close>

fun dec_value :: "string \<Rightarrow> nat \<Rightarrow> nat option" where
  "dec_value [] acc = Some acc"
| "dec_value (c # cs) acc =
     (if 48 \<le> (of_char c :: nat) \<and> (of_char c :: nat) \<le> 57
      then dec_value cs (10 * acc + (of_char c - 48)) else None)"

definition dec_atoi :: "string \<Rightarrow> u64 option" where
  "dec_atoi s =
     (if s = [] then None
      else case dec_value s 0 of None \<Rightarrow> None | Some n \<Rightarrow> if int n < 2 ^ 64 then Some (of_nat n) else None)"

subsection \<open>Decimal strings\<close>

lemma digit_char [simp]: "d < 10 \<Longrightarrow> (of_char (char_of (48 + d) :: char) :: nat) = 48 + d"
  by (simp add: take_bit_nat_eq_self)

lemma to_string_not_Nil [simp]: "to_string n \<noteq> []"
  by (subst to_string.simps) simp

lemma to_string_digits: "c \<in> set (to_string n) \<Longrightarrow> 48 \<le> (of_char c :: nat) \<and> (of_char c :: nat) \<le> 57"
proof (induction n rule: to_string.induct)
  case (1 n)
  show ?case
  proof (cases "n < 10")
    case True
    with 1 show ?thesis by (simp add: to_string.simps [of n])
  next
    case False
    then have "c \<in> set (to_string (n div 10)) \<or> c = char_of (48 + n mod 10)"
      using 1 by (auto simp: to_string.simps [of n])
    then show ?thesis using False 1 digit_char [of "n mod 10"] by fastforce
  qed
qed

lemma dec_value_append:
  "dec_value (xs @ ys) acc = Option.bind (dec_value xs acc) (dec_value ys)"
  by (induction xs acc rule: dec_value.induct) auto

lemma dec_value_to_string: "dec_value (to_string n) 0 = Some n"
proof (induction n rule: to_string.induct)
  case (1 n)
  show ?case
  proof (cases "n < 10")
    case True
    then show ?thesis by (simp add: to_string.simps [of n])
  next
    case False
    then show ?thesis
      using 1 by (subst to_string.simps) (simp add: dec_value_append)
  qed
qed

lemma dec_atoi_ok: "atoi_ok dec_atoi"
  unfolding atoi_ok_def dec_atoi_def
proof (intro allI)
  fix n :: u64
  have "int (unat n) < 2 ^ 64" using uint_lt2p [of n] by simp
  then show "(if to_string (unat n) = [] then None
      else case dec_value (to_string (unat n)) 0 of None \<Rightarrow> None
        | Some n \<Rightarrow> if int n < 2 ^ 64 then Some (word_of_nat n) else None) = Some n"
    by (simp add: dec_value_to_string)
qed

lemma to_string_inj: "to_string m = to_string n \<longleftrightarrow> m = n"
  by (metis dec_value_to_string option.inject)

lemma to_string_length:
  "n < 10 ^ Suc k \<Longrightarrow> length (to_string n) \<le> Suc k"
proof (induction k arbitrary: n)
  case 0
  then show ?case by (simp add: to_string.simps [of n])
next
  case (Suc k)
  then have "n div 10 < 10 ^ Suc k" by auto
  from Suc.IH [OF this] show ?case by (subst to_string.simps) simp
qed

lemma to_string_u64_length: "length (to_string (unat (n :: u64))) \<le> 20"
proof -
  have "unat n < 2 ^ 64" using unsigned_less [of n] by simp
  also have "(2 :: nat) ^ 64 < 10 ^ Suc 19" by simp
  finally show ?thesis using to_string_length [of "unat n" 19] by simp
qed

lemma bytes_str_inverse [simp]: "bytes_str (str_bytes s) = s"
proof -
  have "char_of (unat (of_nat (of_char c) :: u8)) = c" for c :: char
    by (simp add: unsigned_of_nat take_bit_nat_eq_self)
  then show ?thesis by (simp add: bytes_str_def str_bytes_def comp_def)
qed

lemma length_str_bytes [simp]: "length (str_bytes s) = length s"
  by (simp add: str_bytes_def)

subsection \<open>Packing a key and an id is invertible\<close>

lemma kSeqKey_length [simp]: "length kSeqKey = 2"
  by (simp add: kSeqKey_def)

lemma str_find_build:
  assumes "str_find kSeqKey k = None"
  shows "str_find kSeqKey (k @ kSeqKey @ d) = Some (length k)"
  using assms
proof (induction k)
  case Nil
  show ?case by (simp add: kSeqKey_def)
next
  case (Cons c cs)
  then have "take 2 (c # cs) \<noteq> kSeqKey" "str_find kSeqKey cs = None"
    by (auto split: if_splits)
  moreover from this have "take 2 (c # cs @ kSeqKey @ d) \<noteq> kSeqKey"
    by (cases cs) (auto simp: kSeqKey_def)
  ultimately show ?case using Cons.IH by simp
qed

lemma split_build_channel_key:
  assumes "atoi_ok atoi" "str_find kSeqKey k = None"
  shows "split_channel_key atoi (build_channel_key k n) = Inr (k, n)"
  using assms(1) str_find_build [OF assms(2)]
  by (simp add: split_channel_key_def build_channel_key_def view_to_size_t_def atoi_ok_def)

lemma normal_key_iff:
  "normal_message_key_enforce k = Inr () \<longleftrightarrow> k \<noteq> [] \<and> str_find kSeqKey k = None"
  by (simp add: normal_message_key_enforce_def)

lemma build_channel_key_inj:
  assumes "str_find kSeqKey k = None" "str_find kSeqKey k' = None"
  shows "build_channel_key k n = build_channel_key k' n' \<longleftrightarrow> k = k' \<and> n = n'"
  using split_build_channel_key [OF dec_atoi_ok] assms by (metis Inr_inject prod.inject)

lemma str_find_reserved: "str_find kSeqKey kAckKey = Some 3" "str_find kSeqKey kFinKey = Some 3"
  by code_simp+

lemma build_not_reserved:
  assumes "str_find kSeqKey k = None"
  shows "build_channel_key k n \<noteq> kAckKey" "build_channel_key k n \<noteq> kFinKey"
proof -
  have "drop (Suc (Suc (length k))) (build_channel_key k n) \<noteq> []"
    by (simp add: build_channel_key_def kSeqKey_def)
  moreover have "str_find kSeqKey (build_channel_key k n) = Some (length k)"
    using str_find_build [OF assms] by (simp add: build_channel_key_def)
  ultimately show "build_channel_key k n \<noteq> kAckKey" "build_channel_key k n \<noteq> kFinKey"
    using str_find_reserved by (auto simp: kAckKey_def kFinKey_def)
qed

lemma ack_not_fin [simp]: "kAckKey \<noteq> kFinKey" "kFinKey \<noteq> kAckKey"
  by (simp_all add: kAckKey_def kFinKey_def)

text \<open>C31: transport keys. A key accepted by \<open>NormalMessageKeyEnforce\<close> packed with any sequence id is
  split back into the same key and id, and the packed key is never one of the reserved keys of
  acknowledgements and FIN messages.\<close>

theorem channel_key_roundtrip:
  assumes "atoi_ok atoi" "normal_message_key_enforce k = Inr ()"
  shows "split_channel_key atoi (build_channel_key k i) = Inr (k, i) \<and>
    build_channel_key k i \<noteq> kAckKey \<and> build_channel_key k i \<noteq> kFinKey"
  using assms split_build_channel_key build_not_reserved by (simp add: normal_key_iff)

theorem channel_key_roundtrip_witness:
  "split_channel_key dec_atoi (build_channel_key ''root:P2P'' 42) = Inr (''root:P2P'', 42)"
proof -
  have "normal_message_key_enforce ''root:P2P'' = Inr ()" by code_simp
  from channel_key_roundtrip [OF dec_atoi_ok this] show ?thesis by simp
qed

end
