(* ===== verification/Retry.thy ===== *)
theory Retry
  imports Prelude
begin

text \<open>
  \<open>src/yacl/link/retry_options.h\<close> and \<open>Channel::SendRequestWithRetry\<close>
  (\<open>src/yacl/link/transport/channel.cc\<close>, lines 321--370).

  The transport (\<open>link_->SendRequest\<close>) and the abort flag, which another thread may set at any
  time, are the environment of the loop: \<open>env k\<close> gives, for the \<open>k\<close>-th attempt, the value of
  \<open>aborting_\<close> when it is read and what \<open>SendRequest\<close> does. The loop returns its outcome and the
  list of the intervals it slept. The \<open>std::unordered_set\<close>s are lists used through membership only.
\<close>

subsection \<open>Options\<close>

record retry_options =
  max_retry :: u32
  retry_interval_ms :: u32
  retry_interval_incr_ms :: u32
  max_retry_interval_ms :: u32
  error_codes :: "u32 list"
  http_codes :: "u32 list"
  aggressive_retry :: bool

record retry_options_proto =
  pb_max_retry :: u32
  pb_retry_interval_ms :: u32
  pb_retry_interval_incr_ms :: u32
  pb_max_retry_interval_ms :: u32
  pb_error_codes :: "u32 list"
  pb_http_codes :: "u32 list"
  pb_aggressive_retry :: bool

definition kDefaultMaxRetryCount :: u32 where "kDefaultMaxRetryCount = 3"
definition kDefaultRetryInterval :: u32 where "kDefaultRetryInterval = 1000"
definition kDefaultRetryIncrement :: u32 where "kDefaultRetryIncrement = 2000"
definition kDefaultMaxRetryInterval :: u32 where "kDefaultMaxRetryInterval = 10000"

definition default_retry_options :: retry_options where
  "default_retry_options =
     \<lparr>max_retry = kDefaultMaxRetryCount, retry_interval_ms = kDefaultRetryInterval,
      retry_interval_incr_ms = kDefaultRetryIncrement,
      max_retry_interval_ms = kDefaultMaxRetryInterval,
      error_codes = [], http_codes = [], aggressive_retry = True\<rparr>"

definition retry_options_of_proto :: "retry_options_proto \<Rightarrow> retry_options" where
  "retry_options_of_proto pb =
     \<lparr>max_retry = (if pb_max_retry pb \<noteq> 0 then pb_max_retry pb else kDefaultMaxRetryCount),
      retry_interval_ms =
        (if pb_retry_interval_ms pb \<noteq> 0 then pb_retry_interval_ms pb else kDefaultRetryInterval),
      retry_interval_incr_ms =
        (if pb_retry_interval_incr_ms pb \<noteq> 0 then pb_retry_interval_ms pb else kDefaultRetryIncrement),
      max_retry_interval_ms =
        (if pb_max_retry_interval_ms pb \<noteq> 0 then pb_max_retry_interval_ms pb
         else kDefaultMaxRetryInterval),
      error_codes = remdups (pb_error_codes pb),
      http_codes = remdups (pb_http_codes pb),
      aggressive_retry = pb_aggressive_retry pb\<rparr>"

subsection \<open>The retry loop\<close>

definition should_retry :: "retry_options \<Rightarrow> u32 \<Rightarrow> u32 \<Rightarrow> bool" where
  "should_retry opts code http_code =
     (if aggressive_retry opts then True
      else if error_codes opts = [] \<or> code \<in> set (error_codes opts) then True
      else if http_code \<noteq> 0 \<and> (http_codes opts = [] \<or> http_code \<in> set (http_codes opts)) then True
      else False)"

definition retry_interval :: "retry_options \<Rightarrow> u32 \<Rightarrow> u32" where
  "retry_interval opts retry_count =
     min (retry_interval_ms opts + retry_count * retry_interval_incr_ms opts)
         (max_retry_interval_ms opts)"

type_synonym send_env = "nat \<Rightarrow> bool \<times> unit result"

function retry_loop :: "retry_options \<Rightarrow> send_env \<Rightarrow> u32 \<Rightarrow> unit result \<times> u32 list" where
  "retry_loop opts env retry_count =
     (if fst (env (unat retry_count)) then (Inl LinkAborted, [])
      else case snd (env (unat retry_count)) of
             Inr _ \<Rightarrow> (Inr (), [])
           | Inl (LinkError code http_code) \<Rightarrow>
               if \<not> should_retry opts code http_code then (Inl (LinkError code http_code), [])
               else if retry_count \<ge> max_retry opts then (Inl (LinkError code http_code), [])
               else let interval_ms = retry_interval opts retry_count;
                        (r, slept) = retry_loop opts env (retry_count + 1)
                    in (r, interval_ms # slept)
           | Inl e \<Rightarrow> (Inl e, []))"
  by pat_completeness auto

lemma retry_count_Suc:
  assumes "\<not> max_retry opts \<le> retry_count"
  shows "unat (retry_count + 1) = Suc (unat retry_count)" "unat retry_count < unat (max_retry opts)"
proof -
  show lt: "unat retry_count < unat (max_retry opts)"
    using assms by (simp add: word_le_nat_alt)
  then have "retry_count \<noteq> - 1"
    using assms by auto
  then show "unat (retry_count + 1) = Suc (unat retry_count)"
    by (metis add.commute add_eq_0_iff2 unatSuc)
qed

termination retry_loop
  by (relation "measure (\<lambda>(opts, env, rc). unat (max_retry opts) - unat rc)")
    (auto simp: retry_count_Suc intro!: diff_less_mono2)

declare retry_loop.simps [simp del]

definition send_request_with_retry :: "retry_options \<Rightarrow> send_env \<Rightarrow> unit result \<times> u32 list" where
  "send_request_with_retry opts env = retry_loop opts env 0"

subsection \<open>What the loop does\<close>

text \<open>An attempt that fails with an error the options ask to retry, while the channel is not
  aborting.\<close>

definition retryable :: "retry_options \<Rightarrow> bool \<times> unit result \<Rightarrow> bool" where
  "retryable opts a =
     (case a of (False, Inl (LinkError c h)) \<Rightarrow> should_retry opts c h | _ \<Rightarrow> False)"

definition attempt_result :: "bool \<times> unit result \<Rightarrow> unit result" where
  "attempt_result a = (if fst a then Inl LinkAborted else snd a)"

lemma retryableE:
  assumes "retryable opts (env k)"
  obtains c h where "env k = (False, Inl (LinkError c h))" "should_retry opts c h"
  using assms by (auto simp: retryable_def split: prod.splits bool.splits sum.splits error.splits)

lemma retry_loop_step:
  "retry_loop opts env rc =
     (if retryable opts (env (unat rc)) \<and> rc < max_retry opts
      then (fst (retry_loop opts env (rc + 1)), retry_interval opts rc # snd (retry_loop opts env (rc + 1)))
      else (attempt_result (env (unat rc)), []))"
  by (subst retry_loop.simps)
    (auto simp: retryable_def attempt_result_def split: prod.splits bool.splits sum.splits error.splits)

lemma retry_loop_spec:
  assumes "unat rc \<le> k" "k \<le> unat (max_retry opts)"
    and "\<And>j. unat rc \<le> j \<Longrightarrow> j < k \<Longrightarrow> retryable opts (env j)"
    and "retryable opts (env k) \<Longrightarrow> k = unat (max_retry opts)"
  shows "retry_loop opts env rc =
    (attempt_result (env k), map (\<lambda>j. retry_interval opts (of_nat j)) [unat rc..<k])"
  using assms
proof (induction "k - unat rc" arbitrary: rc)
  case 0
  then have k: "k = unat rc" by simp
  then have "\<not> (retryable opts (env (unat rc)) \<and> rc < max_retry opts)"
    using 0 by (auto simp: word_less_nat_alt)
  with k show ?case by (simp add: retry_loop_step [of opts env rc])
next
  case (Suc n)
  then have lt: "unat rc < k" by simp
  with Suc.prems have rc: "rc < max_retry opts" and r: "retryable opts (env (unat rc))"
    by (auto simp: word_less_nat_alt)
  then have s: "unat (rc + 1) = Suc (unat rc)"
    by (intro retry_count_Suc(1) [of opts]) simp
  have "retry_loop opts env (rc + 1) =
    (attempt_result (env k), map (\<lambda>j. retry_interval opts (of_nat j)) [Suc (unat rc)..<k])"
    using Suc.hyps(1) [of "rc + 1"] Suc.hyps(2) Suc.prems lt s by simp
  moreover have "[unat rc..<k] = unat rc # [Suc (unat rc)..<k]"
    using lt by (simp add: upt_conv_Cons)
  ultimately show ?case
    using rc r by (simp add: retry_loop_step [of opts env rc])
qed

text \<open>The number of leading attempts that are retried.\<close>

definition retries :: "retry_options \<Rightarrow> send_env \<Rightarrow> nat" where
  "retries opts env = length (takeWhile (\<lambda>j. retryable opts (env j)) [0..<unat (max_retry opts)])"

lemma retries_props:
  shows "retries opts env \<le> unat (max_retry opts)"
    and "j < retries opts env \<Longrightarrow> retryable opts (env j)"
    and "retryable opts (env (retries opts env)) \<Longrightarrow> retries opts env = unat (max_retry opts)"
proof -
  let ?n = "unat (max_retry opts)" and ?P = "\<lambda>j. retryable opts (env j)"
  show le: "retries opts env \<le> ?n"
    using length_takeWhile_le [of ?P "[0..<?n]"] by (simp add: retries_def)
  show "retryable opts (env j)" if "j < retries opts env" for j
    using that le nth_mem [of j "takeWhile ?P [0..<?n]"] takeWhile_nth [of j ?P "[0..<?n]"]
    by (auto simp: retries_def dest: set_takeWhileD)
  show "retries opts env = ?n" if r: "retryable opts (env (retries opts env))"
  proof (rule ccontr)
    assume "retries opts env \<noteq> ?n"
    with le have "retries opts env < length [0..<?n]" by simp
    then show False
      using nth_length_takeWhile [of ?P "[0..<?n]"] r by (simp add: retries_def)
  qed
qed

lemma send_request_with_retry_eq:
  "send_request_with_retry opts env =
     (attempt_result (env (retries opts env)),
      map (\<lambda>j. retry_interval opts (of_nat j)) [0..<retries opts env])"
  using retry_loop_spec [of 0 "retries opts env" opts env] retries_props
  by (simp add: send_request_with_retry_def)

lemma send_ok_iff:
  "fst (send_request_with_retry opts env) = Inr () \<longleftrightarrow>
     (\<exists>k \<le> unat (max_retry opts). env k = (False, Inr ()) \<and> (\<forall>j<k. retryable opts (env j)))"
proof
  assume "fst (send_request_with_retry opts env) = Inr ()"
  then have "env (retries opts env) = (False, Inr ())"
    by (auto simp: send_request_with_retry_eq attempt_result_def prod_eq_iff split: if_splits)
  then show "\<exists>k \<le> unat (max_retry opts). env k = (False, Inr ()) \<and> (\<forall>j<k. retryable opts (env j))"
    using retries_props(1,2) by blast
next
  assume "\<exists>k \<le> unat (max_retry opts). env k = (False, Inr ()) \<and> (\<forall>j<k. retryable opts (env j))"
  then obtain k where k: "k \<le> unat (max_retry opts)" "env k = (False, Inr ())"
    "\<And>j. j < k \<Longrightarrow> retryable opts (env j)" by blast
  then have "retry_loop opts env 0 =
      (attempt_result (env k), map (\<lambda>j. retry_interval opts (of_nat j)) [0..<k])"
    using retry_loop_spec [of 0 k opts env] by (simp add: retryable_def)
  with k(2) show "fst (send_request_with_retry opts env) = Inr ()"
    by (simp add: send_request_with_retry_def attempt_result_def)
qed

text \<open>C21: \<open>SendRequestWithRetry\<close> always returns: after the attempts that fail with a retryable
  error while fewer than \<open>max_retry\<close> retries have been made, its outcome is that of the next
  attempt; it reports success exactly when some attempt within \<open>max_retry\<close> retries succeeds after
  only retryable failures; it sleeps at most \<open>max_retry\<close> times, never longer than
  \<open>max_retry_interval_ms\<close>.\<close>

theorem send_request_with_retry_correct:
  "fst (send_request_with_retry opts env) = attempt_result (env (retries opts env)) \<and>
   (fst (send_request_with_retry opts env) = Inr () \<longleftrightarrow>
     (\<exists>k. k \<le> unat (max_retry opts) \<and> env k = (False, Inr ()) \<and>
          list_all (\<lambda>j. retryable opts (env j)) [0..<k])) \<and>
   length (snd (send_request_with_retry opts env)) \<le> unat (max_retry opts) \<and>
   list_all (\<lambda>ms. ms \<le> max_retry_interval_ms opts) (snd (send_request_with_retry opts env))"
proof (intro conjI)
  show "fst (send_request_with_retry opts env) = attempt_result (env (retries opts env))"
    by (simp add: send_request_with_retry_eq)
  show "fst (send_request_with_retry opts env) = Inr () \<longleftrightarrow>
     (\<exists>k. k \<le> unat (max_retry opts) \<and> env k = (False, Inr ()) \<and>
          list_all (\<lambda>j. retryable opts (env j)) [0..<k])"
    unfolding send_ok_iff by (auto simp: list_all_iff)
  show "length (snd (send_request_with_retry opts env)) \<le> unat (max_retry opts)"
    using retries_props(1) by (simp add: send_request_with_retry_eq)
  show "list_all (\<lambda>ms. ms \<le> max_retry_interval_ms opts) (snd (send_request_with_retry opts env))"
    by (auto simp: send_request_with_retry_eq list_all_iff retry_interval_def)
qed

end
