(* ===== verification/Transport_Link.thy ===== *)
theory Transport_Link
  imports Prelude
begin

text \<open>
  The transport under a channel. \<open>link_ops\<close> is the part of the abstract class \<open>TransportLink\<close>
  (\<open>src/yacl/link/transport/channel.h\<close>, lines 100--138) that packs and unpacks requests;
  \<open>interconnection_link\<close> is its implementation in
  \<open>src/yacl/link/transport/interconnection_link.cc\<close>. The protobuf message \<open>PushRequest\<close> is the
  record of the fields that class sets; the wire format is protobuf's.

  The locale \<open>transport_link\<close> is the contract a channel relies on: unpacking gives back what was
  packed, and the two kinds of request are told apart.
\<close>

subsection \<open>The interface\<close>

record 'rq link_ops =
  max_bytes_per_chunk :: u64
  pack_mono_request :: "string \<Rightarrow> bytes \<Rightarrow> 'rq"
  pack_chunked_request :: "string \<Rightarrow> bytes \<Rightarrow> u64 \<Rightarrow> u64 \<Rightarrow> 'rq"
  unpack_mono_request :: "'rq \<Rightarrow> string \<times> bytes"
  unpack_chunck_request :: "'rq \<Rightarrow> string \<times> bytes \<times> u64 \<times> u64"
  is_chunked_request :: "'rq \<Rightarrow> bool"
  is_mono_request :: "'rq \<Rightarrow> bool"

subsection \<open>\<open>InterconnectionLink\<close>\<close>

datatype trans_type = MONO | CHUNKED | OtherTransType

record push_request =
  sender_rank :: u64
  rq_key :: string
  rq_value :: bytes
  rq_trans_type :: trans_type
  chunk_offset :: u64
  message_length :: u64

datatype error_code = OK | INVALID_REQUEST

record push_response =
  rs_error_code :: error_code

definition ic_pack_mono_request :: "u64 \<Rightarrow> string \<Rightarrow> bytes \<Rightarrow> push_request" where
  "ic_pack_mono_request self_rank key value =
     \<lparr>sender_rank = self_rank, rq_key = key, rq_value = value, rq_trans_type = MONO,
      chunk_offset = 0, message_length = 0\<rparr>"

definition ic_pack_chunked_request ::
    "u64 \<Rightarrow> string \<Rightarrow> bytes \<Rightarrow> u64 \<Rightarrow> u64 \<Rightarrow> push_request" where
  "ic_pack_chunked_request self_rank key value offset total_length =
     \<lparr>sender_rank = self_rank, rq_key = key, rq_value = value, rq_trans_type = CHUNKED,
      chunk_offset = offset, message_length = total_length\<rparr>"

definition ic_unpack_mono_request :: "push_request \<Rightarrow> string \<times> bytes" where
  "ic_unpack_mono_request request = (rq_key request, rq_value request)"

definition ic_unpack_chunck_request :: "push_request \<Rightarrow> string \<times> bytes \<times> u64 \<times> u64" where
  "ic_unpack_chunck_request request =
     (rq_key request, rq_value request, chunk_offset request, message_length request)"

definition ic_fill_response_ok :: "push_request \<Rightarrow> push_response \<Rightarrow> push_response" where
  "ic_fill_response_ok request response = response\<lparr>rs_error_code := OK\<rparr>"

definition ic_fill_response_error :: "push_request \<Rightarrow> push_response \<Rightarrow> push_response" where
  "ic_fill_response_error request response = response\<lparr>rs_error_code := INVALID_REQUEST\<rparr>"

definition ic_is_chunked_request :: "push_request \<Rightarrow> bool" where
  "ic_is_chunked_request request \<longleftrightarrow> rq_trans_type request = CHUNKED"

definition ic_is_mono_request :: "push_request \<Rightarrow> bool" where
  "ic_is_mono_request request \<longleftrightarrow> rq_trans_type request = MONO"

definition interconnection_link :: "u64 \<Rightarrow> u64 \<Rightarrow> push_request link_ops" where
  "interconnection_link self_rank http_max_payload_bytes =
     \<lparr>max_bytes_per_chunk = http_max_payload_bytes,
      pack_mono_request = ic_pack_mono_request self_rank,
      pack_chunked_request = ic_pack_chunked_request self_rank,
      unpack_mono_request = ic_unpack_mono_request,
      unpack_chunck_request = ic_unpack_chunck_request,
      is_chunked_request = ic_is_chunked_request,
      is_mono_request = ic_is_mono_request\<rparr>"

subsection \<open>Options\<close>

record ic_options =
  http_timeout_ms :: u32
  http_max_payload_bytes :: u32
  channel_protocol :: string
  channel_connection_type :: string

text \<open>\<open>MakeOptions\<close>; besides the options it returns the new value of the brpc flag
  \<open>h2_client_stream_window_size\<close>, if it sets it.\<close>

definition starts_with :: "string \<Rightarrow> string \<Rightarrow> bool" where
  "starts_with s p \<longleftrightarrow> take (length p) s = p"

definition make_options ::
    "ic_options \<Rightarrow> u32 \<Rightarrow> u32 \<Rightarrow> string \<Rightarrow> string \<Rightarrow> (ic_options \<times> u32 option) result" where
  "make_options default_opt timeout_ms max_payload protocol connection_type =
     (let opts = default_opt;
          opts = (if timeout_ms \<noteq> 0 then opts\<lparr>http_timeout_ms := timeout_ms\<rparr> else opts);
          opts = (if max_payload \<noteq> 0 then opts\<lparr>http_max_payload_bytes := max_payload\<rparr> else opts);
          opts = (if protocol \<noteq> [] then opts\<lparr>channel_protocol := protocol\<rparr> else opts)
      in rbind
           (if starts_with (channel_protocol opts) ''h2'' then
              rbind (enforce (http_max_payload_bytes opts > 4096)) (\<lambda>_.
              rbind (enforce (http_max_payload_bytes opts < 0x7FFFFFFF)) (\<lambda>_.
                Inr (opts\<lparr>http_max_payload_bytes := http_max_payload_bytes opts - 4096\<rparr>,
                     Some (http_max_payload_bytes opts))))
            else Inr (opts, None))
           (\<lambda>(opts, flag).
              Inr (if connection_type \<noteq> [] then opts\<lparr>channel_connection_type := connection_type\<rparr>
                   else opts, flag)))"

subsection \<open>The contract\<close>

locale transport_link =
  fixes L :: "'rq link_ops"
  assumes unpack_pack_mono: "unpack_mono_request L (pack_mono_request L k v) = (k, v)"
    and unpack_pack_chunked:
      "unpack_chunck_request L (pack_chunked_request L k v off len) = (k, v, off, len)"
    and is_mono_pack_mono: "is_mono_request L (pack_mono_request L k v)"
    and not_mono_pack_chunked: "\<not> is_mono_request L (pack_chunked_request L k v off len)"
    and is_chunked_pack_chunked: "is_chunked_request L (pack_chunked_request L k v off len)"
begin

lemma pack_mono_inj: "pack_mono_request L k v = pack_mono_request L k' v' \<longleftrightarrow> k = k' \<and> v = v'"
  using unpack_pack_mono by (metis prod.inject)

lemma pack_distinct: "pack_mono_request L k v \<noteq> pack_chunked_request L k' v' off len"
  using is_mono_pack_mono not_mono_pack_chunked by metis

end

lemmas ic_link_defs = interconnection_link_def ic_pack_mono_request_def ic_pack_chunked_request_def
  ic_unpack_mono_request_def ic_unpack_chunck_request_def ic_is_chunked_request_def
  ic_is_mono_request_def

interpretation ic: transport_link "interconnection_link self_rank http_max_payload_bytes"
  for self_rank http_max_payload_bytes
  by unfold_locales (simp_all add: ic_link_defs)

lemma interconnection_link_max [simp]:
  "max_bytes_per_chunk (interconnection_link r b) = b"
  by (simp add: interconnection_link_def)

lemma make_options_payload:
  assumes "make_options d t m p c = Inr (opts, flag)" "starts_with (channel_protocol opts) ''h2''"
  shows "\<exists>w. flag = Some w \<and> http_max_payload_bytes opts + 4096 = w \<and> 0 < http_max_payload_bytes opts"
  using assms by (auto simp: make_options_def Let_def word_less_nat_alt unat_sub_if_size split: if_splits)

end
