(* ===== verification/Chunking.thy ===== *)
theory Chunking
  imports Transport_Link
begin

text \<open>
  Messages larger than one request: \<open>Channel::SendChunked\<close> splits them,
  \<open>ChunkedMessage\<close> reassembles them, \<open>SendChunkedWindow\<close> bounds the requests in flight
  (\<open>src/yacl/link/transport/channel.cc\<close>, lines 180--312 and 476--505).

  The bytes of a fresh buffer are modelled as zeros; \<open>reassembled\<close> shows that a message handed on
  after all chunks of an honest sender have arrived does not contain any of them.
\<close>

subsection \<open>Splitting\<close>

definition chunk_bytes :: "nat \<Rightarrow> nat \<Rightarrow> bytes \<Rightarrow> bytes" where
  "chunk_bytes offset n value = take n (drop offset value)"

text \<open>The requests \<open>SendChunked\<close> makes, in order; the sizes are \<open>size_t\<close>. A chunk size of zero
  divides by zero.\<close>

definition chunk_request :: "'rq link_ops \<Rightarrow> string \<Rightarrow> bytes \<Rightarrow> nat \<Rightarrow> 'rq" where
  "chunk_request L key value chunk_idx =
     (let bytes_per_chunk = max_bytes_per_chunk L;
          num_bytes = (of_nat (length value) :: u64);
          offset = of_nat chunk_idx * bytes_per_chunk;
          n = min bytes_per_chunk (num_bytes - offset)
      in pack_chunked_request L key (chunk_bytes (unat offset) (unat n) value) offset num_bytes)"

definition num_chunks :: "u64 \<Rightarrow> u64 \<Rightarrow> u64" where
  "num_chunks bytes_per_chunk num_bytes = (num_bytes + bytes_per_chunk - 1) div bytes_per_chunk"

definition chunk_requests :: "'rq link_ops \<Rightarrow> string \<Rightarrow> bytes \<Rightarrow> 'rq list result" where
  "chunk_requests L key value =
     (if max_bytes_per_chunk L = 0 then Inl Undefined
      else Inr (map (chunk_request L key value)
                  [0..<unat (num_chunks (max_bytes_per_chunk L) (of_nat (length value)))]))"

subsection \<open>Reassembly\<close>

record chunked_message =
  cm_received :: "u64 list"
  cm_bytes_written :: u64
  cm_message :: bytes

definition new_chunked_message :: "u64 \<Rightarrow> chunked_message result" where
  "new_chunked_message len =
     rbind (enforce (sint len \<ge> 0)) (\<lambda>_.
       Inr \<lparr>cm_received = [], cm_bytes_written = 0, cm_message = replicate (unat len) 0\<rparr>)"

text \<open>\<open>std::memcpy\<close> of \<open>data\<close> to \<open>dst + offset\<close>.\<close>

definition mem_copy :: "bytes \<Rightarrow> nat \<Rightarrow> bytes \<Rightarrow> bytes result" where
  "mem_copy dst offset data =
     (if offset + length data \<le> length dst
      then Inr (take offset dst @ data @ drop (offset + length data) dst)
      else Inl Undefined)"

definition add_chunk :: "u64 \<Rightarrow> bytes \<Rightarrow> chunked_message \<Rightarrow> chunked_message result" where
  "add_chunk offset data cm =
     (if offset \<notin> set (cm_received cm) then
        rbind (mem_copy (cm_message cm) (unat offset) data) (\<lambda>msg.
          Inr (cm\<lparr>cm_received := offset # cm_received cm, cm_message := msg,
                  cm_bytes_written := cm_bytes_written cm + of_nat (length data)\<rparr>))
      else Inr cm)"

definition is_fully_filled :: "chunked_message \<Rightarrow> bool" where
  "is_fully_filled cm \<longleftrightarrow> cm_bytes_written cm = of_nat (length (cm_message cm))"

definition reassemble :: "chunked_message \<Rightarrow> bytes" where
  "reassemble cm = cm_message cm"

subsection \<open>The sending window\<close>

record chunk_window =
  parallel_limit :: int
  running_push :: int
  async_exception :: "error option"

definition new_window :: "int \<Rightarrow> chunk_window result" where
  "new_window limit = rbind (enforce (limit > 0))
     (\<lambda>_. Inr \<lparr>parallel_limit = limit, running_push = 0, async_exception = None\<rparr>)"

definition on_push_done :: "error option \<Rightarrow> chunk_window \<Rightarrow> chunk_window" where
  "on_push_done e w =
     (let w' = w\<lparr>running_push := running_push w - 1\<rparr>
      in case e of Some x \<Rightarrow> w'\<lparr>async_exception := Some x\<rparr> | None \<Rightarrow> w')"

definition window_finished ::
    "chunk_window wakeup list \<Rightarrow> chunk_window \<Rightarrow> unit result option \<times> chunk_window" where
  "window_finished ws w =
     wait_loop (\<lambda>w. running_push w \<noteq> 0) (\<lambda>_. None) (\<lambda>_ w. async_exception w) ws w"

definition get_token ::
    "chunk_window wakeup list \<Rightarrow> chunk_window \<Rightarrow> unit result option \<times> chunk_window" where
  "get_token ws w =
     wait_loop (\<lambda>w. running_push w > parallel_limit w) (\<lambda>_. None) (\<lambda>_ w. async_exception w) ws
       (w\<lparr>running_push := running_push w + 1\<rparr>)"

subsection \<open>Sizes and offsets without wrap-around\<close>

text \<open>The chunks of an honest message over the naturals.\<close>

definition chunk_count :: "nat \<Rightarrow> nat \<Rightarrow> nat" where
  "chunk_count b n = (n + b - 1) div b"

lemma chunk_count_iff:
  assumes "0 < b"
  shows "i < chunk_count b n \<longleftrightarrow> i * b < n"
proof -
  have "i < chunk_count b n \<longleftrightarrow> Suc i * b \<le> n + b - 1"
    unfolding chunk_count_def using assms
    by (metis less_eq_div_iff_mult_less_eq Suc_le_eq)
  also have "\<dots> \<longleftrightarrow> i * b < n" using assms by auto
  finally show ?thesis .
qed

lemma sum_chunk_sizes:
  "(\<Sum>i<k. min b (n - i * b)) = min n (k * b :: nat)"
  by (induction k) (auto simp: min_def)

lemma sum_all_chunks:
  assumes "0 < b"
  shows "(\<Sum>i<chunk_count b n. min b (n - i * b)) = n"
proof -
  have "\<not> chunk_count b n * b < n"
    using chunk_count_iff [OF assms, of "chunk_count b n" n] by simp
  then show ?thesis by (simp add: sum_chunk_sizes)
qed

lemma num_chunks_nat:
  assumes "0 < b" "n < 2 ^ 63" "unat b \<le> n"
  shows "unat (num_chunks b (of_nat n)) = chunk_count (unat b) n"
proof -
  have n: "unat (of_nat n :: u64) = n" using assms(2) by (intro unat_of_nat_small) simp
  have b: "0 < unat b" using assms(1) by (simp add: word_less_nat_alt)
  have s: "unat (of_nat n + b) = n + unat b"
    using assms n by (simp add: unat_word_ariths)
  then have "1 \<le> of_nat n + b" using b by (simp add: word_le_nat_alt)
  then have "unat (of_nat n + b - 1) = n + unat b - 1"
    using s by (simp add: unat_sub)
  then show ?thesis by (simp add: num_chunks_def chunk_count_def unat_div)
qed

subsection \<open>Reassembly of an honest message\<close>

text \<open>\<open>chunk_inv b m I cm\<close>: the chunks with index in \<open>I\<close> of the message \<open>m\<close>, cut at multiples of
  \<open>b\<close>, have been added to \<open>cm\<close>, and nothing else.\<close>

definition chunk_inv :: "nat \<Rightarrow> bytes \<Rightarrow> nat set \<Rightarrow> chunked_message \<Rightarrow> bool" where
  "chunk_inv b m I cm \<longleftrightarrow>
     I \<subseteq> {..<chunk_count b (length m)} \<and>
     set (cm_received cm) = (\<lambda>i. of_nat (i * b)) ` I \<and>
     length (cm_message cm) = length m \<and>
     (\<forall>i\<in>I. \<forall>j<length m. i * b \<le> j \<and> j < i * b + b \<longrightarrow> cm_message cm ! j = m ! j) \<and>
     cm_bytes_written cm = of_nat (\<Sum>i\<in>I. min b (length m - i * b))"

lemma chunk_inv_new:
  assumes "length m < 2 ^ 63"
  shows "\<exists>cm. new_chunked_message (of_nat (length m)) = Inr cm \<and> chunk_inv b m {} cm"
proof -
  have "unat (of_nat (length m) :: u64) = length m"
    using assms by (intro unat_of_nat_small) simp
  moreover have "sint (of_nat (length m) :: u64) \<ge> 0"
    using assms by (simp add: signed_of_nat signed_take_bit_int_eq_self)
  ultimately show ?thesis
    by (simp add: new_chunked_message_def chunk_inv_def)
qed

lemma offset_inj:
  assumes "0 < b" "i * b < n" "i' * b < n" "n < 2 ^ 63"
  shows "(of_nat (i * b) :: u64) = of_nat (i' * b) \<longleftrightarrow> i = i'"
proof
  assume "(of_nat (i * b) :: u64) = of_nat (i' * b)"
  then have "unat (of_nat (i * b) :: u64) = unat (of_nat (i' * b) :: u64)" by simp
  moreover have "unat (of_nat (i * b) :: u64) = i * b" "unat (of_nat (i' * b) :: u64) = i' * b"
    using assms by (auto intro!: unat_of_nat_small simp del: of_nat_mult)
  ultimately show "i = i'" using assms(1) by simp
qed simp

lemma mem_copy_ok:
  assumes "off + length d \<le> length dst"
  shows "\<exists>msg. mem_copy dst off d = Inr msg \<and> length msg = length dst \<and>
    (\<forall>j<length dst. msg ! j = (if off \<le> j \<and> j < off + length d then d ! (j - off) else dst ! j))"
  using assms by (auto simp: mem_copy_def nth_append)

lemma add_chunk_inv:
  assumes inv: "chunk_inv b m I cm" and b: "0 < b" and i: "i < chunk_count b (length m)"
    and len: "length m < 2 ^ 63"
  shows "\<exists>cm'. add_chunk (of_nat (i * b)) (chunk_bytes (i * b) (min b (length m - i * b)) m) cm = Inr cm' \<and>
    chunk_inv b m (insert i I) cm'"
proof (cases "i \<in> I")
  case True
  with inv have "of_nat (i * b) \<in> set (cm_received cm)" by (auto simp: chunk_inv_def)
  with True inv show ?thesis by (simp add: add_chunk_def insert_absorb)
next
  case False
  let ?n = "length m" and ?d = "chunk_bytes (i * b) (min b (length m - i * b)) m"
  have ib: "i * b < ?n" using chunk_count_iff [OF b] i by simp
  have I: "I \<subseteq> {..<chunk_count b ?n}" using inv by (simp add: chunk_inv_def)
  then have fin: "finite I" by (rule finite_subset) simp
  have new: "of_nat (i * b) \<notin> set (cm_received cm)"
  proof
    assume "of_nat (i * b) \<in> set (cm_received cm)"
    then obtain i' where "i' \<in> I" "(of_nat (i * b) :: u64) = of_nat (i' * b)"
      using inv by (auto simp: chunk_inv_def)
    moreover from this I have "i' * b < ?n" using chunk_count_iff [OF b] by auto
    ultimately show False using offset_inj [OF b ib _ len] False by auto
  qed
  have off: "unat (of_nat (i * b) :: u64) = i * b"
    using ib len by (intro unat_of_nat_small) simp
  have dlen: "length ?d = min b (?n - i * b)" by (simp add: chunk_bytes_def)
  have mlen: "length (cm_message cm) = ?n" using inv by (simp add: chunk_inv_def)
  obtain msg where msg: "mem_copy (cm_message cm) (i * b) ?d = Inr msg" "length msg = ?n"
    "\<And>j. j < ?n \<Longrightarrow> msg ! j = (if i * b \<le> j \<and> j < i * b + length ?d then ?d ! (j - i * b) else cm_message cm ! j)"
  proof -
    have "i * b + length ?d \<le> length (cm_message cm)" using ib mlen dlen by simp
    from mem_copy_ok [OF this] show ?thesis using that unfolding mlen by blast
  qed
  have dnth: "?d ! (j - i * b) = m ! j" if "i * b \<le> j" "j < i * b + length ?d" for j
  proof -
    have "j - i * b < min b (?n - i * b)" using that dlen by linarith
    then show ?thesis using that by (simp add: chunk_bytes_def)
  qed
  have cell: "msg ! j = m ! j" if "k \<in> insert i I" "j < ?n" "k * b \<le> j" "j < k * b + b" for k j
  proof (cases "i * b \<le> j \<and> j < i * b + length ?d")
    case True
    then show ?thesis using msg(3) [OF that(2)] dnth by simp
  next
    case no: False
    with that dlen have "k \<noteq> i" by auto
    then have "cm_message cm ! j = m ! j" using that inv by (auto simp: chunk_inv_def)
    then show ?thesis using msg(3) [OF that(2)] no by simp
  qed
  have sum: "(\<Sum>k\<in>insert i I. min b (?n - k * b)) = min b (?n - i * b) + (\<Sum>k\<in>I. min b (?n - k * b))"
    using fin False by simp
  have add: "add_chunk (of_nat (i * b)) ?d cm = Inr (cm\<lparr>cm_received := of_nat (i * b) # cm_received cm,
      cm_message := msg, cm_bytes_written := cm_bytes_written cm + of_nat (length ?d)\<rparr>)"
    using new msg(1) unfolding add_chunk_def off by simp
  have cells: "\<forall>k\<in>insert i I. \<forall>j<?n. k * b \<le> j \<and> j < k * b + b \<longrightarrow> msg ! j = m ! j"
    using cell by blast
  show ?thesis
    unfolding add using inv i msg(2) cells I
    by (simp add: chunk_inv_def sum dlen del: of_nat_mult of_nat_sum)
qed

lemma chunk_inv_bytes:
  assumes "chunk_inv b m I cm" "0 < b" "length m < 2 ^ 63"
  shows "is_fully_filled cm \<longleftrightarrow> I = {..<chunk_count b (length m)}"
proof -
  let ?n = "length m" and ?f = "\<lambda>i. min b (length m - i * b)"
  have I: "I \<subseteq> {..<chunk_count b ?n}" and len: "length (cm_message cm) = ?n"
    using assms(1) by (auto simp: chunk_inv_def)
  have le: "sum ?f I \<le> ?n"
    using sum_mono2 [OF _ I, of ?f] sum_all_chunks [OF assms(2), of ?n] by simp
  have "is_fully_filled cm \<longleftrightarrow> (of_nat (sum ?f I) :: u64) = of_nat ?n"
    using assms(1) len by (simp add: is_fully_filled_def chunk_inv_def)
  also have "\<dots> \<longleftrightarrow> sum ?f I = ?n"
  proof
    assume "(of_nat (sum ?f I) :: u64) = of_nat ?n"
    then have "unat (of_nat (sum ?f I) :: u64) = unat (of_nat ?n :: u64)" by simp
    moreover have "unat (of_nat (sum ?f I) :: u64) = sum ?f I" "unat (of_nat ?n :: u64) = ?n"
      using le assms(3) by (auto intro!: unat_of_nat_small simp del: of_nat_sum)
    ultimately show "sum ?f I = ?n" by simp
  qed simp
  also have "\<dots> \<longleftrightarrow> I = {..<chunk_count b ?n}"
  proof
    assume eq: "sum ?f I = ?n"
    show "I = {..<chunk_count b ?n}"
    proof (rule ccontr)
      assume "I \<noteq> {..<chunk_count b ?n}"
      with I obtain k where k: "k < chunk_count b ?n" "k \<notin> I" by auto
      have fin: "finite I" using I by (rule finite_subset) simp
      have "sum ?f (insert k I) \<le> ?n"
        using sum_mono2 [of "{..<chunk_count b ?n}" "insert k I" ?f] k I
          sum_all_chunks [OF assms(2), of ?n] by simp
      moreover have "0 < ?f k" using k(1) chunk_count_iff [OF assms(2)] assms(2) by simp
      ultimately show False using eq k(2) fin by simp
    qed
  qed (simp add: sum_all_chunks [OF assms(2)])
  finally show ?thesis .
qed

lemma reassembled:
  assumes "chunk_inv b m {..<chunk_count b (length m)} cm" "0 < b"
  shows "reassemble cm = m"
proof (rule nth_equalityI)
  show "length (reassemble cm) = length m"
    using assms(1) by (simp add: reassemble_def chunk_inv_def)
  fix j assume "j < length (reassemble cm)"
  then have j: "j < length m" using assms(1) by (simp add: reassemble_def chunk_inv_def)
  have "j div b * b \<le> j" "j < j div b * b + b"
    using assms(2) by (auto simp: dividend_less_div_times add.commute)
  moreover have "j div b < chunk_count b (length m)"
    unfolding chunk_count_iff [OF assms(2)] using le_less_trans [OF div_times_less_eq_dividend j] .
  ultimately show "reassemble cm ! j = m ! j"
    using assms(1) j by (auto simp: reassemble_def chunk_inv_def)
qed

subsection \<open>From requests back to the message\<close>

lemma chunk_request_eq:
  assumes b: "0 < unat (max_bytes_per_chunk L)" and len: "length m < 2 ^ 63"
    and i: "i * unat (max_bytes_per_chunk L) < length m"
  shows "chunk_request L key m i =
    pack_chunked_request L key
      (chunk_bytes (i * unat (max_bytes_per_chunk L))
         (min (unat (max_bytes_per_chunk L)) (length m - i * unat (max_bytes_per_chunk L))) m)
      (of_nat (i * unat (max_bytes_per_chunk L))) (of_nat (length m))"
proof -
  let ?b = "max_bytes_per_chunk L" and ?n = "of_nat (length m) :: u64"
  have off: "of_nat i * ?b = of_nat (i * unat ?b)" by simp
  have uo: "unat (of_nat (i * unat ?b) :: u64) = i * unat ?b" and un: "unat ?n = length m"
    using i len by (auto intro!: unat_of_nat_small simp del: of_nat_mult)
  then have "(of_nat (i * unat ?b) :: u64) \<le> ?n"
    using i by (simp add: word_le_nat_alt del: of_nat_mult)
  then have "unat (?n - of_nat (i * unat ?b)) = length m - i * unat ?b"
    using uo un by (simp add: unat_sub del: of_nat_mult)
  then have "unat (min ?b (?n - of_nat (i * unat ?b))) = min (unat ?b) (length m - i * unat ?b)"
    by (simp add: min_def word_le_nat_alt del: of_nat_mult)
  with uo show ?thesis
    unfolding chunk_request_def Let_def off by (simp del: of_nat_mult)
qed

fun add_all :: "(u64 \<times> bytes) list \<Rightarrow> chunked_message \<Rightarrow> chunked_message result" where
  "add_all [] cm = Inr cm"
| "add_all ((offset, data) # cs) cm = rbind (add_chunk offset data cm) (add_all cs)"

definition chunk_payload :: "'rq link_ops \<Rightarrow> 'rq \<Rightarrow> u64 \<times> bytes" where
  "chunk_payload L rq = (case unpack_chunck_request L rq of (key, value, offset, len) \<Rightarrow> (offset, value))"

context transport_link
begin

lemma add_all_chunks:
  assumes "0 < unat (max_bytes_per_chunk L)" "length m < 2 ^ 63"
    and "set is \<subseteq> {..<chunk_count (unat (max_bytes_per_chunk L)) (length m)}"
    and "chunk_inv (unat (max_bytes_per_chunk L)) m I cm"
  shows "\<exists>cm'. add_all (map (\<lambda>i. chunk_payload L (chunk_request L key m i)) is) cm = Inr cm' \<and>
    chunk_inv (unat (max_bytes_per_chunk L)) m (I \<union> set is) cm'"
  using assms(3,4)
proof (induction "is" arbitrary: I cm)
  case (Cons i js)
  let ?b = "unat (max_bytes_per_chunk L)"
  have i: "i * ?b < length m"
    using Cons.prems(1) chunk_count_iff [OF assms(1)] by simp
  obtain cm1 where cm1: "add_chunk (of_nat (i * ?b)) (chunk_bytes (i * ?b) (min ?b (length m - i * ?b)) m) cm = Inr cm1"
      "chunk_inv ?b m (insert i I) cm1"
    using add_chunk_inv [OF Cons.prems(2) assms(1) _ assms(2), of i] Cons.prems(1) by auto
  obtain cm2 where "add_all (map (\<lambda>i. chunk_payload L (chunk_request L key m i)) js) cm1 = Inr cm2"
      "chunk_inv ?b m (insert i I \<union> set js) cm2"
    using Cons.IH [OF _ cm1(2)] Cons.prems(1) by auto
  moreover have "chunk_payload L (chunk_request L key m i) =
      (of_nat (i * ?b), chunk_bytes (i * ?b) (min ?b (length m - i * ?b)) m)"
    by (simp add: chunk_request_eq [OF assms(1,2) i] chunk_payload_def unpack_pack_chunked del: of_nat_mult)
  ultimately show ?case using cm1(1) by (simp del: of_nat_mult)
qed simp

end

text \<open>C10: reassembly of a chunked message is correct for every delivery schedule: the requests made
  by \<open>SendChunked\<close> may be delivered in any order and any number of times; no chunk is rejected or
  written outside the buffer, the buffer is full exactly when every chunk has arrived at least
  once, and then it holds the message that was sent.\<close>

theorem chunk_reassembly:
  fixes b self_rank :: u64
  defines "L \<equiv> interconnection_link self_rank b"
  assumes "0 < b" "unat b < length m" "length m < 2 ^ 63"
    and "new_chunked_message (of_nat (length m)) = Inr fresh"
    and "set is \<subseteq> {..<unat (num_chunks b (of_nat (length m)))}"
  shows "\<exists>cm. add_all (map (\<lambda>i. chunk_payload L (chunk_request L key m i)) is) fresh = Inr cm \<and>
    (is_fully_filled cm \<longleftrightarrow> set is = {..<unat (num_chunks b (of_nat (length m)))}) \<and>
    (is_fully_filled cm \<longrightarrow> reassemble cm = m)"
proof -
  have b: "0 < unat b" using assms(2) by (simp add: word_less_nat_alt)
  have n: "unat (num_chunks b (of_nat (length m))) = chunk_count (unat b) (length m)"
    using num_chunks_nat assms by simp
  have "chunk_inv (unat b) m {} fresh"
    using chunk_inv_new [OF assms(4), of "unat b"] assms(5) by auto
  then obtain cm where cm: "add_all (map (\<lambda>i. chunk_payload L (chunk_request L key m i)) is) fresh = Inr cm"
      "chunk_inv (unat b) m (set is) cm"
    using ic.add_all_chunks [of self_rank b m "is" "{}" fresh key] b assms(4,6) n
    unfolding L_def by auto
  have full: "is_fully_filled cm \<longleftrightarrow> set is = {..<chunk_count (unat b) (length m)}"
    using chunk_inv_bytes [OF cm(2) b assms(4)] .
  moreover have "reassemble cm = m" if "is_fully_filled cm"
    using reassembled [of "unat b" m cm] cm(2) b that full by simp
  ultimately show ?thesis using cm(1) n by auto
qed

theorem chunk_reassembly_witness:
  "\<exists>cm. add_all (map (\<lambda>i. chunk_payload (interconnection_link 0 2) (chunk_request (interconnection_link 0 2) ''k'' [7, 8, 9] i))
        [1, 0, 1]) \<lparr>cm_received = [], cm_bytes_written = 0, cm_message = [0, 0, 0]\<rparr> = Inr cm \<and>
      reassemble cm = [7, 8, 9]"
proof -
  have new: "new_chunked_message (of_nat (length [7 :: u8, 8, 9])) =
      Inr \<lparr>cm_received = [], cm_bytes_written = 0, cm_message = [0, 0, 0]\<rparr>"
    by code_simp
  have n: "unat (num_chunks 2 (of_nat (length [7 :: u8, 8, 9]))) = 2"
    by (simp add: num_chunks_def)
  have "{1, 0 :: nat} = {..<2}" by auto
  with chunk_reassembly [of 2 "[7, 8, 9]" _ "[1, 0, 1]" 0 "''k''"] new n show ?thesis
    by auto
qed

subsection \<open>The window\<close>

text \<open>C39: the failure of the last outstanding chunk is lost when it is reported before the sender
  waits: \<open>Finished\<close> then returns normally although \<open>async_exception_\<close> is set, so \<open>SendChunked\<close>
  reports success for a message that was not delivered.\<close>

theorem window_loses_error:
  assumes "running_push w = 1"
  shows "window_finished ws (on_push_done (Some e) w) = (Some (Inr ()), on_push_done (Some e) w) \<and>
    async_exception (on_push_done (Some e) w) = Some e"
proof -
  have "running_push (on_push_done (Some e) w) = 0"
    using assms by (simp add: on_push_done_def)
  then show ?thesis
    by (cases ws) (auto simp: window_finished_def on_push_done_def)
qed

theorem window_loses_error_witness:
  "fst (window_finished [] (on_push_done (Some IoError)
      \<lparr>parallel_limit = 8, running_push = 1, async_exception = None\<rparr>)) = Some (Inr ())"
  using window_loses_error [of "\<lparr>parallel_limit = 8, running_push = 1, async_exception = None\<rparr>" "[]" IoError]
  by simp

end
