(* ===== verification/Ordered_Map.thy ===== *)
theory Ordered_Map
  imports Prelude "HOL-Library.Char_ord" "HOL-Library.List_Lexorder"
begin

text \<open>
  \<open>std::map\<close> as the list of its entries in key order (\<open>std::string\<close> keys compare
  lexicographically by unsigned character, which is the order of \<open>List_Lexorder\<close> on \<open>string\<close>).
  The locale \<open>std_map\<close> is the interface its clients use.
\<close>

type_synonym ('k, 'v) omap = "('k \<times> 'v) list"

definition om_emplace :: "'k :: linorder \<Rightarrow> 'v \<Rightarrow> ('k, 'v) omap \<Rightarrow> bool \<times> ('k, 'v) omap" where
  "om_emplace k v m =
     (case map_of m k of Some _ \<Rightarrow> (False, m) | None \<Rightarrow> (True, insort_key fst (k, v) m))"

definition om_erase :: "'k \<Rightarrow> ('k, 'v) omap \<Rightarrow> ('k, 'v) omap" where
  "om_erase k m = filter (\<lambda>p. fst p \<noteq> k) m"

text \<open>Assignment to the value behind an iterator.\<close>

definition om_update :: "'k \<Rightarrow> 'v \<Rightarrow> ('k, 'v) omap \<Rightarrow> ('k, 'v) omap" where
  "om_update k v m = map (\<lambda>p. if fst p = k then (k, v) else p) m"

definition om_wf :: "('k :: linorder, 'v) omap \<Rightarrow> bool" where
  "om_wf m \<longleftrightarrow> sorted (map fst m) \<and> distinct (map fst m)"

lemma om_wf_Nil [simp]: "om_wf []"
  by (simp add: om_wf_def)

lemma map_of_insort:
  "k \<notin> fst ` set m \<Longrightarrow> map_of (insort_key fst (k, v) m) = (map_of m)(k \<mapsto> v)"
  by (induction m) (auto simp: fun_eq_iff)

lemma om_emplace_lookup [simp]:
  "map_of (snd (om_emplace k v m)) = (if map_of m k = None then (map_of m)(k \<mapsto> v) else map_of m)"
  "fst (om_emplace k v m) \<longleftrightarrow> map_of m k = None"
  by (cases "map_of m k"; simp add: om_emplace_def map_of_insort map_of_eq_None_iff [symmetric])+

lemma om_erase_lookup [simp]: "map_of (om_erase k m) = (map_of m)(k := None)"
  by (induction m) (auto simp: om_erase_def fun_eq_iff)

lemma om_update_lookup [simp]:
  "map_of (om_update k v m) = (if map_of m k = None then map_of m else (map_of m)(k \<mapsto> v))"
  by (induction m) (auto simp: om_update_def fun_eq_iff)

lemma map_fst_insort: "map fst (insort_key fst (k, v) m) = insort k (map fst m)"
  by (induction m) auto

lemma om_wf_emplace [simp]: "om_wf m \<Longrightarrow> om_wf (snd (om_emplace k v m))"
  by (auto simp: om_emplace_def om_wf_def map_fst_insort sorted_insort map_of_eq_None_iff
      distinct_insort split: option.splits)

lemma om_wf_erase [simp]: "om_wf m \<Longrightarrow> om_wf (om_erase k m)"
  by (auto simp: om_erase_def om_wf_def sorted_filter distinct_map_filter)

lemma om_wf_update [simp]: "om_wf m \<Longrightarrow> om_wf (om_update k v m)"
proof -
  have "map fst (om_update k v m) = map fst m" by (auto simp: om_update_def)
  then show "om_wf m \<Longrightarrow> om_wf (om_update k v m)" by (simp add: om_wf_def)
qed

lemma om_wf_in_iff: "om_wf m \<Longrightarrow> (k, v) \<in> set m \<longleftrightarrow> map_of m k = Some v"
  by (auto simp: om_wf_def map_of_eq_Some_iff)

subsection \<open>The interface\<close>

locale std_map =
  fixes emp :: "'m" and find :: "'m \<Rightarrow> 'k \<Rightarrow> 'v option"
    and emplace :: "'k \<Rightarrow> 'v \<Rightarrow> 'm \<Rightarrow> bool \<times> 'm" and erase :: "'k \<Rightarrow> 'm \<Rightarrow> 'm"
  assumes find_emp: "find emp k = None"
    and find_emplace: "find (snd (emplace k v m)) = (if find m k = None then (find m)(k \<mapsto> v) else find m)"
    and emplace_fresh: "fst (emplace k v m) \<longleftrightarrow> find m k = None"
    and find_erase: "find (erase k m) = (find m)(k := None)"
begin

text \<open>What is stored under a key stays there, unchanged, until it is erased.\<close>

lemma emplace_keeps: "find m k = Some v \<Longrightarrow> find (snd (emplace k' v' m)) k = Some v"
  by (auto simp: find_emplace)

lemma emplace_erase: "find m k = None \<Longrightarrow> find (erase k (snd (emplace k v m))) = find m"
  by (simp add: find_erase find_emplace fun_eq_iff)

end

interpretation om: std_map "[]" map_of om_emplace om_erase
  by unfold_locales (auto simp: fun_eq_iff)

end
