(* ===== verification/Channel.thy ===== *)
theory Channel
  imports Segment_Tree Channel_Keys Retry Chunking Ordered_Map
begin

text \<open>
  \<open>src/yacl/link/transport/channel.h\<close> and \<open>channel.cc\<close>: one endpoint of a point-to-point channel.

  The record \<open>channel\<close> holds the fields of \<open>Channel\<close>, its message queue and its send
  synchroniser. A method is a procedure on that record (\<open>proc\<close>): each body runs under the mutex
  the code takes. A method that blocks is given the wake-ups it gets (\<open>wakeup\<close>) and returns \<open>None\<close>
  while it is still blocked. Two fields stand for the outside: \<open>send_tasks\<close> are the messages handed
  to bthread whose task has not ended, and \<open>bthread_starts\<close> is whether \<open>bthread_start_background\<close>
  accepts a task.
\<close>

subsection \<open>State\<close>

record message =
  seq_id :: u64
  msg_key :: string
  msg_value :: bytes

record send_task_synchronizer =
  running_tasks :: u64
  finished_ids :: segment_tree
  task_aborting :: bool

record message_queue =
  msg_queue :: "message list"
  stopped :: bool

record channel =
  recv_timeout_ms :: u64
  send_msgs :: message_queue
  send_thread_stopped :: bool
  send_sync :: send_task_synchronizer
  chunked_values :: "(string, chunked_message) omap"
  chunk_parallel_send_size :: u32
  recv_msgs :: "(string, bytes \<times> u64) omap"
  throttle_window_size :: u64
  waiting_finish :: bool
  aborting :: bool
  msg_seq_id :: u64
  received_msg_ids :: segment_tree
  received_ack_ids :: segment_tree
  received_fin :: bool
  peer_sent_msg_count :: u64
  exit_if_async_error :: bool
  ch_retry_options :: retry_options
  disable_msg_seq_id :: bool
  send_tasks :: "message list"
  bthread_starts :: bool

definition new_channel :: "u64 \<Rightarrow> bool \<Rightarrow> retry_options \<Rightarrow> channel" where
  "new_channel timeout_ms exit_on_error opts =
     \<lparr>recv_timeout_ms = timeout_ms, send_msgs = \<lparr>msg_queue = [], stopped = False\<rparr>,
      send_thread_stopped = False,
      send_sync = \<lparr>running_tasks = 0, finished_ids = seg_empty, task_aborting = False\<rparr>,
      chunked_values = [], chunk_parallel_send_size = 8, recv_msgs = [], throttle_window_size = 0,
      waiting_finish = False, aborting = False, msg_seq_id = 0, received_msg_ids = seg_empty,
      received_ack_ids = seg_empty, received_fin = False, peer_sent_msg_count = 0,
      exit_if_async_error = exit_on_error, ch_retry_options = opts, disable_msg_seq_id = False,
      send_tasks = [], bthread_starts = True\<rparr>"

subsection \<open>Send tasks\<close>

definition send_task_start_notify :: "send_task_synchronizer \<Rightarrow> send_task_synchronizer" where
  "send_task_start_notify s = s\<lparr>running_tasks := running_tasks s + 1\<rparr>"

definition send_task_finished_notify :: "u64 \<Rightarrow> send_task_synchronizer \<Rightarrow> send_task_synchronizer" where
  "send_task_finished_notify i s =
     (let s = s\<lparr>running_tasks := running_tasks s - 1\<rparr>
      in if i \<noteq> 0 then s\<lparr>finished_ids := snd (seg_insert i (finished_ids s))\<rparr> else s)"

definition sync_abort :: "send_task_synchronizer \<Rightarrow> send_task_synchronizer" where
  "sync_abort s = s\<lparr>task_aborting := True\<rparr>"

text \<open>\<open>SubmitSendTask\<close>: the constructor of \<open>SendTask\<close> notifies the start; if bthread refuses the
  task, its destructor notifies the end and the call throws.\<close>

definition submit_send_task :: "message \<Rightarrow> (channel, unit) proc" where
  "submit_send_task msg c =
     (let c = c\<lparr>send_sync := send_task_start_notify (send_sync c)\<rparr>
      in if bthread_starts c then (Inr (), c\<lparr>send_tasks := send_tasks c @ [msg]\<rparr>)
         else (Inl RuntimeError,
               c\<lparr>send_sync := send_task_finished_notify (seq_id msg) (send_sync c)\<rparr>))"

text \<open>The destructor of \<open>SendTask\<close> notifies the end of the task.\<close>

definition end_send_task :: "message \<Rightarrow> channel \<Rightarrow> channel" where
  "end_send_task msg c =
     c\<lparr>send_tasks := remove1 msg (send_tasks c),
       send_sync := send_task_finished_notify (seq_id msg) (send_sync c)\<rparr>"

text \<open>\<open>SendTask::Proc\<close>: \<open>r\<close> is how \<open>SendImpl\<close> ended; \<open>None\<close> is the exit of the process.\<close>

definition send_task_proc :: "unit result \<Rightarrow> message \<Rightarrow> channel \<Rightarrow> channel option" where
  "send_task_proc r msg c =
     (case r of Inl _ \<Rightarrow> if exit_if_async_error c then None else Some (end_send_task msg c)
      | Inr _ \<Rightarrow> Some (end_send_task msg c))"

text \<open>\<open>SendImpl\<close>: the requests that carry a message, each sent by \<open>send_request_with_retry\<close>. A
  chunked message needs a window with room for at least one request.\<close>

definition send_chunked_requests ::
    "'rq link_ops \<Rightarrow> u32 \<Rightarrow> string \<Rightarrow> bytes \<Rightarrow> 'rq list result" where
  "send_chunked_requests L parallel_size key value =
     rbind (chunk_requests L key value) (\<lambda>rqs.
     rbind (new_window (uint parallel_size)) (\<lambda>_. Inr rqs))"

definition send_impl_requests ::
    "'rq link_ops \<Rightarrow> u32 \<Rightarrow> string \<Rightarrow> bytes \<Rightarrow> 'rq list result" where
  "send_impl_requests L parallel_size key value =
     (if of_nat (length value) > max_bytes_per_chunk L
      then send_chunked_requests L parallel_size key value
      else Inr [pack_mono_request L key value])"

subsection \<open>The message queue\<close>

definition mq_push :: "message \<Rightarrow> message_queue \<Rightarrow> message_queue" where
  "mq_push msg q = q\<lparr>msg_queue := msg_queue q @ [msg]\<rparr>"

definition mq_empty_notify :: "message_queue \<Rightarrow> message_queue" where
  "mq_empty_notify q = q\<lparr>stopped := True\<rparr>"

text \<open>\<open>Pop\<close> waits at most once; \<open>others\<close> is what happens to the queue during that wait.\<close>

definition mq_pop :: "bool \<Rightarrow> (message_queue \<Rightarrow> message_queue) \<Rightarrow> message_queue \<Rightarrow>
    message option \<times> message_queue" where
  "mq_pop block others q =
     (let q = (if block \<and> msg_queue q = [] \<and> \<not> stopped q then others q else q)
      in case msg_queue q of
           msg # rest \<Rightarrow> (Some msg, q\<lparr>msg_queue := rest\<rparr>)
         | [] \<Rightarrow> (None, q))"

subsection \<open>Waiting for acknowledgements\<close>

definition timeout_error :: "bool \<Rightarrow> channel \<Rightarrow> error option" where
  "timeout_error timeout c = (if timeout then Some IoError else None)"

definition abort_error :: "channel \<Rightarrow> error option" where
  "abort_error c = (if aborting c then Some LinkAborted else None)"

definition throttled :: "u64 \<Rightarrow> channel \<Rightarrow> bool" where
  "throttled wait_count c \<longleftrightarrow>
     throttle_window_size c \<noteq> 0 \<and>
     seg_count (received_ack_ids c) + throttle_window_size c \<le> wait_count"

definition throttle_window_wait ::
    "u64 \<Rightarrow> channel wakeup list \<Rightarrow> channel \<Rightarrow> unit result option \<times> channel" where
  "throttle_window_wait wait_count ws c =
     (if throttle_window_size c = 0 then (Some (Inr ()), c)
      else wait_loop (throttled wait_count) abort_error timeout_error ws c)"

definition wait_seq_id_send_finished ::
    "u64 \<Rightarrow> channel wakeup list \<Rightarrow> channel \<Rightarrow> unit result option \<times> channel" where
  "wait_seq_id_send_finished i ws c =
     wait_loop (\<lambda>c. \<not> seg_contains i (finished_ids (send_sync c)))
       (\<lambda>c. if task_aborting (send_sync c) then Some LinkAborted else None) (\<lambda>_ _. None) ws c"

definition wait_all_send_finished ::
    "channel wakeup list \<Rightarrow> channel \<Rightarrow> unit result option \<times> channel" where
  "wait_all_send_finished ws c =
     wait_loop (\<lambda>c. running_tasks (send_sync c) > 0) (\<lambda>_. None) (\<lambda>_ _. None) ws c"

subsection \<open>Sending\<close>

definition send_guard :: "(channel, unit) proc" where
  "send_guard = pthen (pcheck (\<lambda>c. \<not> aborting c) LinkAborted)
                      (pcheck (\<lambda>c. \<not> waiting_finish c) EnforceNotMet)"

definition next_seq_id :: "(channel, u64) proc" where
  "next_seq_id c = (Inr (msg_seq_id c + 1), c\<lparr>msg_seq_id := msg_seq_id c + 1\<rparr>)"

definition push_msg :: "message \<Rightarrow> (channel, unit) proc" where
  "push_msg msg = pmodify (\<lambda>c. c\<lparr>send_msgs := mq_push msg (send_msgs c)\<rparr>)"

definition send_async :: "string \<Rightarrow> bytes \<Rightarrow> (channel, unit) proc" where
  "send_async k value =
     pthen send_guard
    (pthen (plift (normal_message_key_enforce k))
    (pbind (pget disable_msg_seq_id) (\<lambda>disabled.
       if disabled then push_msg \<lparr>seq_id = 0, msg_key = k, msg_value = value\<rparr>
       else pbind next_seq_id (\<lambda>i.
              push_msg \<lparr>seq_id = i, msg_key = build_channel_key k i, msg_value = value\<rparr>))))"

text \<open>The part of \<open>Send\<close> and \<open>SendAsyncThrottled\<close> before they wait.\<close>

definition send_enqueue :: "string \<Rightarrow> bytes \<Rightarrow> (channel, u64) proc" where
  "send_enqueue k value =
     pthen (pcheck (\<lambda>c. \<not> waiting_finish c) EnforceNotMet)
    (pthen (plift (normal_message_key_enforce k))
    (pbind next_seq_id (\<lambda>i.
       pthen (push_msg \<lparr>seq_id = i, msg_key = build_channel_key k i, msg_value = value\<rparr>)
             (preturn i))))"

definition send_sync_msg ::
    "string \<Rightarrow> bytes \<Rightarrow> channel wakeup list \<Rightarrow> channel \<Rightarrow> unit result option \<times> channel" where
  "send_sync_msg k value ws c =
     (if aborting c then (Some (Inl LinkAborted), c)
      else if disable_msg_seq_id c then (Some (Inl RuntimeError), c)
      else case send_enqueue k value c of
             (Inl e, c') \<Rightarrow> (Some (Inl e), c')
           | (Inr i, c') \<Rightarrow> wait_seq_id_send_finished i ws c')"

definition send_async_throttled ::
    "string \<Rightarrow> bytes \<Rightarrow> channel wakeup list \<Rightarrow> channel \<Rightarrow> unit result option \<times> channel" where
  "send_async_throttled k value ws c =
     (if aborting c then (Some (Inl LinkAborted), c)
      else if disable_msg_seq_id c then
        (case send_async k value c of (r, c') \<Rightarrow> (Some r, c'))
      else case send_enqueue k value c of
             (Inl e, c') \<Rightarrow> (Some (Inl e), c')
           | (Inr i, c') \<Rightarrow> throttle_window_wait i ws c')"

definition connect_key :: "u64 \<Rightarrow> string" where
  "connect_key rank = ''connect_'' @ to_string (unat rank)"

text \<open>\<open>TestSend\<close>: the requests it sends; the loop around the transport is
  \<open>send_request_with_retry\<close>.\<close>

definition test_send :: "'rq link_ops \<Rightarrow> u64 \<Rightarrow> (channel, 'rq list) proc" where
  "test_send L local_rank =
     pthen send_guard
    (pbind (pget chunk_parallel_send_size) (\<lambda>par.
       plift (send_impl_requests L par (build_channel_key (connect_key local_rank) 0) [])))"

subsection \<open>Receiving\<close>

definition send_ack :: "u64 \<Rightarrow> (channel, unit) proc" where
  "send_ack i =
     (if i > 0 then
        submit_send_task \<lparr>seq_id = 0, msg_key = kAckKey, msg_value = str_bytes (to_string (unat i))\<rparr>
      else preturn ())"

text \<open>\<open>stop_waiting\<close> of \<open>Recv\<close>: take the message out of the database.\<close>

definition take_msg :: "string \<Rightarrow> channel \<Rightarrow> (bytes \<times> u64) option \<times> channel" where
  "take_msg k c =
     (case map_of (recv_msgs c) k of
        None \<Rightarrow> (None, c)
      | Some vi \<Rightarrow> (Some vi, c\<lparr>recv_msgs := om_erase k (recv_msgs c)\<rparr>))"

definition recv_msg ::
    "string \<Rightarrow> channel wakeup list \<Rightarrow> channel \<Rightarrow> bytes result option \<times> channel" where
  "recv_msg k ws c =
     (if aborting c then (Some (Inl LinkAborted), c)
      else case normal_message_key_enforce k of
             Inl e \<Rightarrow> (Some (Inl e), c)
           | Inr _ \<Rightarrow>
               (case wait_loop (\<lambda>c. map_of (recv_msgs c) k = None) abort_error timeout_error ws c of
                  (None, c') \<Rightarrow> (None, c')
                | (Some (Inl e), c') \<Rightarrow> (Some (Inl e), c')
                | (Some (Inr _), c') \<Rightarrow>
                    (case take_msg k c' of
                       (None, c'') \<Rightarrow> (None, c'')
                     | (Some (v, i), c'') \<Rightarrow>
                         (case send_ack i c'' of
                            (Inl e, d) \<Rightarrow> (Some (Inl e), d)
                          | (Inr _, d) \<Rightarrow> (Some (Inr v), d)))))"

definition test_recv ::
    "u64 \<Rightarrow> channel wakeup list \<Rightarrow> channel \<Rightarrow> bytes result option \<times> channel" where
  "test_recv remote_rank ws c = recv_msg (connect_key remote_rank) ws c"

text \<open>\<open>OnNormalMessage\<close>, after and including the split of the key.\<close>

definition store_message :: "string \<Rightarrow> u64 \<Rightarrow> bytes \<Rightarrow> (channel, unit) proc" where
  "store_message k i v c =
     (let (fresh, ids) = (if i > 0 then seg_insert i (received_msg_ids c)
                          else (True, received_msg_ids c));
          c = c\<lparr>received_msg_ids := ids\<rparr>
      in if i > 0 \<and> \<not> fresh then (Inr (), c)
         else if \<not> waiting_finish c then
           (let (inserted, m) = om_emplace k (v, i) (recv_msgs c);
                c = c\<lparr>recv_msgs := m\<rparr>
            in if i > 0 \<and> \<not> inserted then (Inl RuntimeError, c) else (Inr (), c))
         else send_ack i c)"

definition on_normal_message ::
    "(string \<Rightarrow> u64 option) \<Rightarrow> string \<Rightarrow> bytes \<Rightarrow> (channel, unit) proc" where
  "on_normal_message atoi key v =
     pbind (plift (split_channel_key atoi key)) (\<lambda>(k, i). store_message k i v)"

definition on_message ::
    "(string \<Rightarrow> u64 option) \<Rightarrow> string \<Rightarrow> bytes \<Rightarrow> (channel, unit) proc" where
  "on_message atoi key value =
     (if key = kAckKey then
        pbind (plift (view_to_size_t atoi (bytes_str value))) (\<lambda>i.
          pmodify (\<lambda>c. c\<lparr>received_ack_ids := snd (seg_insert i (received_ack_ids c))\<rparr>))
      else if key = kFinKey then
        pbind (pget received_fin) (\<lambda>got.
          if got then preturn ()
          else pthen (pmodify (\<lambda>c. c\<lparr>received_fin := True\<rparr>))
                     (pbind (plift (view_to_size_t atoi (bytes_str value))) (\<lambda>n.
                        pmodify (\<lambda>c. c\<lparr>peer_sent_msg_count := n\<rparr>))))
      else on_normal_message atoi key value)"

definition on_chunked_message ::
    "(string \<Rightarrow> u64 option) \<Rightarrow> string \<Rightarrow> bytes \<Rightarrow> u64 \<Rightarrow> u64 \<Rightarrow> (channel, unit) proc" where
  "on_chunked_message atoi key value offset total_length c =
     (if offset + of_nat (length value) > total_length then (Inl LogicError, c)
      else
        case (case map_of (chunked_values c) key of
                Some cm \<Rightarrow> Inr (cm, c)
              | None \<Rightarrow>
                  rbind (new_chunked_message total_length) (\<lambda>cm.
                    Inr (cm, c\<lparr>chunked_values := snd (om_emplace key cm (chunked_values c))\<rparr>))) of
          Inl e \<Rightarrow> (Inl e, c)
        | Inr (cm, c') \<Rightarrow>
            (case add_chunk offset value cm of
               Inl e \<Rightarrow> (Inl e, c')
             | Inr cm' \<Rightarrow>
                 if is_fully_filled cm' then
                   on_message atoi key (reassemble cm')
                     (c'\<lparr>chunked_values := om_erase key (chunked_values c')\<rparr>)
                 else (Inr (), c'\<lparr>chunked_values := om_update key cm' (chunked_values c')\<rparr>)))"

text \<open>\<open>OnRequest\<close>; the result says whether the response carries an error code.\<close>

definition on_request ::
    "'rq link_ops \<Rightarrow> (string \<Rightarrow> u64 option) \<Rightarrow> 'rq \<Rightarrow> (channel, bool) proc" where
  "on_request L atoi rq =
     pthen (pcheck (\<lambda>c. \<not> aborting c) LinkAborted)
       (if is_mono_request L rq then
          (case unpack_mono_request L rq of (key, value) \<Rightarrow>
             pthen (on_message atoi key value) (preturn False))
        else if is_chunked_request L rq then
          (case unpack_chunck_request L rq of (key, value, offset, total_length) \<Rightarrow>
             pthen (on_chunked_message atoi key value offset total_length) (preturn False))
        else preturn True)"

subsection \<open>The send thread\<close>

text \<open>One round of the loop of \<open>SendThread\<close>: \<open>others\<close> acts on the queue while \<open>Pop\<close> waits, \<open>ws\<close> are
  the wake-ups of the throttle wait.\<close>

definition send_thread_round :: "(message_queue \<Rightarrow> message_queue) \<Rightarrow> channel wakeup list \<Rightarrow>
    channel \<Rightarrow> unit result option \<times> channel" where
  "send_thread_round others ws c =
     (case mq_pop True others (send_msgs c) of
        (None, q) \<Rightarrow> (Some (Inr ()), c\<lparr>send_msgs := q\<rparr>)
      | (Some msg, q) \<Rightarrow>
          (case submit_send_task msg (c\<lparr>send_msgs := q\<rparr>) of
             (Inl e, c') \<Rightarrow> (Some (Inl e), c')
           | (Inr _, c') \<Rightarrow> throttle_window_wait (seq_id msg) ws c'))"

text \<open>The second loop: submit everything that is still queued.\<close>

function send_thread_drain :: "(channel, unit) proc" where
  "send_thread_drain c =
     (case mq_pop False id (send_msgs c) of
        (None, q) \<Rightarrow> (Inr (), c\<lparr>send_msgs := q\<rparr>)
      | (Some msg, q) \<Rightarrow>
          (case submit_send_task msg (c\<lparr>send_msgs := q\<rparr>) of
             (Inl e, c') \<Rightarrow> (Inl e, c')
           | (Inr _, c') \<Rightarrow> send_thread_drain c'))"
  by pat_completeness auto

termination send_thread_drain
  by (relation "measure (\<lambda>c. length (msg_queue (send_msgs c)))")
    (auto simp: mq_pop_def submit_send_task_def Let_def split: list.splits if_splits)

declare send_thread_drain.simps [simp del]

definition send_thread_exit :: "(channel, unit) proc" where
  "send_thread_exit c = (if aborting c then (Inr (), c) else send_thread_drain c)"

subsection \<open>Closing\<close>

definition stop_receiving_and_ack_unread_msgs :: "(channel, unit) proc" where
  "stop_receiving_and_ack_unread_msgs =
     pthen (pmodify (\<lambda>c. c\<lparr>waiting_finish := True\<rparr>))
    (pbind (pget recv_msgs) (\<lambda>msgs.
     pthen (pmap_list (\<lambda>(k, v, i). send_ack i) msgs)
           (pmodify (\<lambda>c. c\<lparr>recv_msgs := []\<rparr>))))"

definition send_fin :: "(channel, unit) proc" where
  "send_fin =
     pbind (pget msg_seq_id) (\<lambda>n.
       submit_send_task \<lparr>seq_id = 0, msg_key = kFinKey, msg_value = str_bytes (to_string (unat n))\<rparr>)"

definition ids_incomplete :: "segment_tree \<Rightarrow> u64 \<Rightarrow> bool" where
  "ids_incomplete ids n \<longleftrightarrow> segments_count ids > 1 \<or> \<not> seg_contains 1 ids \<or> \<not> seg_contains n ids"

definition fin_missing :: "channel \<Rightarrow> bool" where
  "fin_missing c \<longleftrightarrow> \<not> received_fin c"

definition msgs_flying :: "channel \<Rightarrow> bool" where
  "msgs_flying c \<longleftrightarrow> ids_incomplete (received_msg_ids c) (peer_sent_msg_count c)"

definition wait_for_fin_and_flying_msg ::
    "channel wakeup list \<Rightarrow> channel wakeup list \<Rightarrow> channel \<Rightarrow> unit result option \<times> channel" where
  "wait_for_fin_and_flying_msg ws_fin ws_msg c =
     (case send_fin c of
        (Inl e, c') \<Rightarrow> (Some (Inl e), c')
      | (Inr _, c') \<Rightarrow>
          (case wait_loop fin_missing (\<lambda>_. None) (\<lambda>_ _. None) ws_fin c' of
             (Some (Inr _), c'') \<Rightarrow>
               if peer_sent_msg_count c'' = 0 then (Some (Inr ()), c'')
               else wait_loop msgs_flying (\<lambda>_. None) (\<lambda>_ _. None) ws_msg c''
           | blocked \<Rightarrow> blocked))"

definition wait_for_flying_ack ::
    "channel wakeup list \<Rightarrow> channel \<Rightarrow> unit result option \<times> channel" where
  "wait_for_flying_ack ws c =
     (let sent_msg_count = msg_seq_id c
      in if sent_msg_count = 0 then (Some (Inr ()), c)
         else wait_loop (\<lambda>c. ids_incomplete (received_ack_ids c) sent_msg_count)
                (\<lambda>_. None) (\<lambda>_ _. None) ws c)"

text \<open>\<open>WaitAsyncSendToFinish\<close>; \<open>joined\<close> is what happens until the send thread has ended.\<close>

definition stop_send_thread :: "channel \<Rightarrow> channel" where
  "stop_send_thread c =
     c\<lparr>send_thread_stopped := True, send_msgs := mq_empty_notify (send_msgs c)\<rparr>"

definition wait_async_send_to_finish ::
    "(channel \<Rightarrow> channel) \<Rightarrow> channel wakeup list \<Rightarrow> channel \<Rightarrow> unit result option \<times> channel" where
  "wait_async_send_to_finish joined ws c = wait_all_send_finished ws (joined (stop_send_thread c))"

definition wait_link_task_finish ::
    "channel wakeup list \<Rightarrow> channel wakeup list \<Rightarrow> (channel \<Rightarrow> channel) \<Rightarrow> channel wakeup list \<Rightarrow>
     channel wakeup list \<Rightarrow> channel \<Rightarrow> unit result option \<times> channel" where
  "wait_link_task_finish ws_fin ws_msg joined ws_send ws_ack c =
     (if aborting c then (Some (Inr ()), c)
      else case stop_receiving_and_ack_unread_msgs c of
        (Inl e, c1) \<Rightarrow> (Some (Inl e), c1)
      | (Inr _, c1) \<Rightarrow>
          (case wait_for_fin_and_flying_msg ws_fin ws_msg c1 of
             (Some (Inr _), c2) \<Rightarrow>
               (case wait_async_send_to_finish joined ws_send c2 of
                  (Some (Inr _), c3) \<Rightarrow> wait_for_flying_ack ws_ack c3
                | other \<Rightarrow> other)
           | other \<Rightarrow> other))"

definition abort_channel :: "(channel \<Rightarrow> channel) \<Rightarrow> channel \<Rightarrow> channel" where
  "abort_channel joined c =
     joined (stop_send_thread (c\<lparr>aborting := True, send_sync := sync_abort (send_sync c)\<rparr>))"

subsection \<open>What the operations leave alone\<close>

text \<open>Submitting tasks changes the set of running tasks and the synchroniser only.\<close>

definition only_tasks :: "channel \<Rightarrow> channel \<Rightarrow> bool" where
  "only_tasks c d \<longleftrightarrow>
     (\<exists>ts sy. d = c\<lparr>send_tasks := ts, send_sync := sy\<rparr>)"

lemma only_tasks_refl [simp]: "only_tasks c c"
  unfolding only_tasks_def by (intro exI [of _ "send_tasks c"] exI [of _ "send_sync c"]) simp

lemma only_tasks_trans:
  assumes "only_tasks c d" "only_tasks d e"
  shows "only_tasks c e"
proof -
  obtain ts sy ts' sy' where "d = c\<lparr>send_tasks := ts, send_sync := sy\<rparr>"
    "e = d\<lparr>send_tasks := ts', send_sync := sy'\<rparr>"
    using assms by (auto simp: only_tasks_def)
  then have "e = c\<lparr>send_tasks := ts', send_sync := sy'\<rparr>" by simp
  then show ?thesis unfolding only_tasks_def by blast
qed

lemma only_tasks_fields:
  assumes "only_tasks c d"
  shows "recv_msgs d = recv_msgs c" "chunked_values d = chunked_values c"
    "waiting_finish d = waiting_finish c" "aborting d = aborting c" "msg_seq_id d = msg_seq_id c"
    "received_msg_ids d = received_msg_ids c" "received_ack_ids d = received_ack_ids c"
    "received_fin d = received_fin c" "peer_sent_msg_count d = peer_sent_msg_count c"
    "disable_msg_seq_id d = disable_msg_seq_id c" "send_msgs d = send_msgs c"
    "chunk_parallel_send_size d = chunk_parallel_send_size c"
  using assms by (auto simp: only_tasks_def)

lemma submit_only_tasks: "only_tasks c (snd (submit_send_task msg c))"
proof (cases "bthread_starts c")
  case True
  then show ?thesis
    unfolding only_tasks_def submit_send_task_def Let_def
    by (intro exI [of _ "send_tasks c @ [msg]"] exI [of _ "send_task_start_notify (send_sync c)"]) simp
next
  case False
  then show ?thesis
    unfolding only_tasks_def submit_send_task_def Let_def
    by (intro exI [of _ "send_tasks c"]
        exI [of _ "send_task_finished_notify (seq_id msg) (send_task_start_notify (send_sync c))"]) simp
qed

lemma submit_tasks: "set (send_tasks (snd (submit_send_task msg c))) \<subseteq> insert msg (set (send_tasks c))"
  by (auto simp: submit_send_task_def Let_def)

text \<open>The acknowledgement of a sequence id.\<close>

definition ack_msg :: "u64 \<Rightarrow> message" where
  "ack_msg i = \<lparr>seq_id = 0, msg_key = kAckKey, msg_value = str_bytes (to_string (unat i))\<rparr>"

definition fin_msg :: "u64 \<Rightarrow> message" where
  "fin_msg n = \<lparr>seq_id = 0, msg_key = kFinKey, msg_value = str_bytes (to_string (unat n))\<rparr>"

lemma send_ack_only_tasks: "only_tasks c (snd (send_ack i c))"
  by (simp add: send_ack_def submit_only_tasks preturn_def)

lemma send_ack_tasks:
  "set (send_tasks (snd (send_ack i c))) \<subseteq> set (send_tasks c) \<union> {m. i \<noteq> 0 \<and> m = ack_msg i}"
  using submit_tasks [of "ack_msg i" c]
  by (auto simp: send_ack_def ack_msg_def preturn_def word_neq_0_conv)

lemma ack_list_only_tasks:
  "only_tasks c (snd (pmap_list (\<lambda>(k, v, i). send_ack i) msgs c))"
proof (induction msgs arbitrary: c)
  case (Cons m msgs)
  obtain k v i where m: "m = (k, v, i)" by (cases m) auto
  obtain r d where d: "send_ack i c = (r, d)" by (cases "send_ack i c") auto
  then have "only_tasks c d" using send_ack_only_tasks [of c i] by simp
  then show ?case
    using Cons.IH [of d] d m by (cases r) (auto simp: proc_simps intro: only_tasks_trans)
qed (simp add: preturn_def)

lemma ack_list_tasks:
  "set (send_tasks (snd (pmap_list (\<lambda>(k, v, i). send_ack i) msgs c))) \<subseteq>
     set (send_tasks c) \<union> {m. \<exists>k v i. (k, v, i) \<in> set msgs \<and> i \<noteq> 0 \<and> m = ack_msg i}"
proof (induction msgs arbitrary: c)
  case (Cons m msgs)
  obtain k v i where m: "m = (k, v, i)" by (cases m) auto
  obtain r d where d: "send_ack i c = (r, d)" by (cases "send_ack i c") auto
  let ?acks = "\<lambda>ms. {m. \<exists>k v i. (k, v, i) \<in> set ms \<and> i \<noteq> 0 \<and> m = ack_msg i}"
  have sub: "{m. i \<noteq> 0 \<and> m = ack_msg i} \<union> ?acks msgs \<subseteq> ?acks (m # msgs)"
    using m by auto
  have first: "set (send_tasks d) \<subseteq> set (send_tasks c) \<union> {m. i \<noteq> 0 \<and> m = ack_msg i}"
    using send_ack_tasks [of i c] d by simp
  show ?case
  proof (cases r)
    case (Inl e)
    then have "pmap_list (\<lambda>(k, v, i). send_ack i) (m # msgs) c = (Inl e, d)"
      using d m by (simp add: proc_simps)
    then show ?thesis using first sub by auto
  next
    case (Inr u)
    then have "pmap_list (\<lambda>(k, v, i). send_ack i) (m # msgs) c =
        pmap_list (\<lambda>(k, v, i). send_ack i) msgs d"
      using d m by (simp add: proc_simps)
    then have "set (send_tasks (snd (pmap_list (\<lambda>(k, v, i). send_ack i) (m # msgs) c))) \<subseteq>
        set (send_tasks d) \<union> ?acks msgs"
      using Cons.IH [of d] by (simp only:)
    also have "\<dots> \<subseteq> set (send_tasks c) \<union> ?acks (m # msgs)"
      using first sub by blast
    finally show ?thesis .
  qed
qed (simp add: preturn_def)

subsection \<open>Honest messages at the receiver\<close>

lemma on_message_ack:
  assumes "atoi_ok atoi"
  shows "on_message atoi kAckKey (str_bytes (to_string (unat i))) c =
    (Inr (), c\<lparr>received_ack_ids := snd (seg_insert i (received_ack_ids c))\<rparr>)"
  using assms by (simp add: on_message_def proc_simps view_to_size_t_def atoi_ok_def)

lemma on_message_fin:
  assumes "atoi_ok atoi"
  shows "on_message atoi kFinKey (str_bytes (to_string (unat n))) c =
    (Inr (), if received_fin c then c else c\<lparr>received_fin := True, peer_sent_msg_count := n\<rparr>)"
  using assms by (simp add: on_message_def proc_simps view_to_size_t_def atoi_ok_def)

lemma on_message_normal:
  assumes "atoi_ok atoi" "str_find kSeqKey k = None"
  shows "on_message atoi (build_channel_key k i) v c = store_message k i v c"
  using assms build_not_reserved [OF assms(2)]
  by (simp add: on_message_def on_normal_message_def proc_simps split_build_channel_key)

text \<open>Storing a message: the branches of \<open>OnNormalMessage\<close>.\<close>

lemma store_duplicate:
  assumes "seg_inv (received_msg_ids c)" "i \<noteq> 0" "i \<noteq> - 1" "i \<in> seg_abs (received_msg_ids c)"
  shows "fst (store_message k i v c) = Inr ()"
    "\<exists>ids. snd (store_message k i v c) = c\<lparr>received_msg_ids := ids\<rparr> \<and> seg_inv ids \<and>
       seg_abs ids = seg_abs (received_msg_ids c)"
proof -
  have "\<not> fst (seg_insert i (received_msg_ids c))" "i > 0"
    using assms by (simp_all add: st.fresh_ins word_neq_0_conv)
  then have s: "store_message k i v c =
      (Inr (), c\<lparr>received_msg_ids := snd (seg_insert i (received_msg_ids c))\<rparr>)"
    by (simp add: store_message_def Let_def case_prod_beta)
  then show "fst (store_message k i v c) = Inr ()" by simp
  show "\<exists>ids. snd (store_message k i v c) = c\<lparr>received_msg_ids := ids\<rparr> \<and> seg_inv ids \<and>
       seg_abs ids = seg_abs (received_msg_ids c)"
    using assms st.inv_ins [of "received_msg_ids c" i] st.abs_ins [of "received_msg_ids c" i]
    by (simp add: s insert_absorb) blast
qed

lemma store_fresh:
  assumes "seg_inv (received_msg_ids c)" "i \<noteq> 0" "i \<noteq> - 1" "i \<notin> seg_abs (received_msg_ids c)"
  obtains ids where "seg_inv ids" "seg_abs ids = insert i (seg_abs (received_msg_ids c))"
    "store_message k i v c =
       (if waiting_finish c then send_ack i (c\<lparr>received_msg_ids := ids\<rparr>)
        else if map_of (recv_msgs c) k = None
        then (Inr (), c\<lparr>received_msg_ids := ids, recv_msgs := snd (om_emplace k (v, i) (recv_msgs c))\<rparr>)
        else (Inl RuntimeError, c\<lparr>received_msg_ids := ids\<rparr>))"
proof -
  let ?ids = "snd (seg_insert i (received_msg_ids c))"
  have f: "fst (seg_insert i (received_msg_ids c))" "i > 0"
    using assms by (simp_all add: st.fresh_ins word_neq_0_conv)
  have same: "snd (om_emplace k (v, i) (recv_msgs c)) = recv_msgs c" if "map_of (recv_msgs c) k \<noteq> None"
    using that by (auto simp: om_emplace_def)
  show ?thesis
  proof (rule that [of ?ids])
    show "seg_inv ?ids" "seg_abs ?ids = insert i (seg_abs (received_msg_ids c))"
      using assms by (simp_all add: st.inv_ins st.abs_ins)
    show "store_message k i v c =
       (if waiting_finish c then send_ack i (c\<lparr>received_msg_ids := ?ids\<rparr>)
        else if map_of (recv_msgs c) k = None
        then (Inr (), c\<lparr>received_msg_ids := ?ids, recv_msgs := snd (om_emplace k (v, i) (recv_msgs c))\<rparr>)
        else (Inl RuntimeError, c\<lparr>received_msg_ids := ?ids\<rparr>))"
      using f same by (simp add: store_message_def Let_def case_prod_beta)
  qed
qed

lemma store_test:
  "store_message k 0 v c =
     (Inr (), if waiting_finish c then c else c\<lparr>recv_msgs := snd (om_emplace k (v, 0) (recv_msgs c))\<rparr>)"
  by (simp add: store_message_def send_ack_def preturn_def Let_def case_prod_beta)

end
