(* ===== verification/Channel_System.thy ===== *)
theory Channel_System
  imports Channel
begin

text \<open>
  Two channel endpoints joined by a transport, as a step relation. A step is one critical section
  of the code: a call of the client, a round of the send thread, a transmission of a request, the
  end of a send task, the handling of a request at the peer. The transport keeps every request it
  was ever given: it may deliver it late, out of order, several times (retries) or never. A call of
  \<open>Recv\<close> is two steps: it starts, after its checks, and takes its message later, or throws.

  Besides the two endpoints the state has what the sides have sent and received
  (\<open>sent_log\<close>, \<open>got_log\<close>; they are only observed, no step depends on them) and how far each side is in
  \<open>WaitLinkTaskFinish\<close>. Calls of one client are sequential: \<open>SendAsync\<close> does not overlap
  \<open>WaitLinkTaskFinish\<close> of the same side.

  The bounds of the steps: fewer than \<open>2\<^sup>6\<^sup>4 - 2\<close> messages per side (\<open>msg_seq_id\<close> does not wrap) and
  messages shorter than \<open>2\<^sup>6\<^sup>3\<close> bytes.

  The invariant is shown for links that carry at least 20 bytes in one request (\<open>bpc \<ge> 20\<close>), the length of the
  largest 64-bit number in decimal. Then the values of acknowledgements and of the final message are
  never split. With a smaller limit they are, all acknowledgements under the one key \<open>kAckKey\<close>: the
  last section shows that the chunks of two of them are then put together to the acknowledgement of a third id.
\<close>

subsection \<open>The system\<close>

datatype phase = Open | Stopped | Closing | Flown | Draining | Joined | Done | Failed

record sys =
  ep :: "bool \<Rightarrow> channel"
  net :: "bool \<Rightarrow> push_request set"
  sent_log :: "bool \<Rightarrow> u64 \<Rightarrow> (string \<times> bytes) option"
  got_log :: "bool \<Rightarrow> (u64 \<times> string \<times> bytes) list"
  phase :: "bool \<Rightarrow> phase"
  recv_calls :: "bool \<Rightarrow> string list"

definition rank_of :: "bool \<Rightarrow> u64" where
  "rank_of b = (if b then 1 else 0)"

definition lnk :: "u64 \<Rightarrow> bool \<Rightarrow> push_request link_ops" where
  "lnk bpc b = interconnection_link (rank_of b) bpc"

definition set_ep :: "bool \<Rightarrow> channel \<Rightarrow> sys \<Rightarrow> sys" where
  "set_ep b c s = s\<lparr>ep := (ep s)(b := c)\<rparr>"

definition set_phase :: "bool \<Rightarrow> phase \<Rightarrow> sys \<Rightarrow> sys" where
  "set_phase b p s = s\<lparr>phase := (phase s)(b := p)\<rparr>"

definition log_sent :: "bool \<Rightarrow> u64 \<Rightarrow> string \<times> bytes \<Rightarrow> sys \<Rightarrow> sys" where
  "log_sent b i x s = s\<lparr>sent_log := (sent_log s)(b := (sent_log s b)(i \<mapsto> x))\<rparr>"

definition log_got :: "bool \<Rightarrow> u64 \<times> string \<times> bytes \<Rightarrow> sys \<Rightarrow> sys" where
  "log_got b x s = s\<lparr>got_log := (got_log s)(b := got_log s b @ [x])\<rparr>"

definition transmit :: "bool \<Rightarrow> push_request \<Rightarrow> sys \<Rightarrow> sys" where
  "transmit b rq s = s\<lparr>net := (net s)(b := insert rq (net s b))\<rparr>"

definition set_recv_calls :: "bool \<Rightarrow> string list \<Rightarrow> sys \<Rightarrow> sys" where
  "set_recv_calls b ks s = s\<lparr>recv_calls := (recv_calls s)(b := ks)\<rparr>"

definition sys_init :: "u64 \<Rightarrow> retry_options \<Rightarrow> sys" where
  "sys_init timeout_ms opts =
     \<lparr>ep = (\<lambda>_. new_channel timeout_ms False opts), net = (\<lambda>_. {}), sent_log = (\<lambda>_ _. None),
      got_log = (\<lambda>_. []), phase = (\<lambda>_. Open), recv_calls = (\<lambda>_. [])\<rparr>"

inductive sys_step :: "(string \<Rightarrow> u64 option) \<Rightarrow> u64 \<Rightarrow> sys \<Rightarrow> sys \<Rightarrow> bool" for atoi bpc where
  client_send:
    "send_async k v (ep s b) = (Inr (), c) \<Longrightarrow> msg_seq_id (ep s b) < - 2 \<Longrightarrow> length v < 2 ^ 63 \<Longrightarrow>
     sys_step atoi bpc s (log_sent b (msg_seq_id c) (k, v) (set_ep b c s))"
| recv_call:
    "\<not> aborting (ep s b) \<Longrightarrow> normal_message_key_enforce k = Inr () \<Longrightarrow>
     sys_step atoi bpc s (set_recv_calls b (k # recv_calls s b) s)"
| recv_throws:
    "k \<in> set (recv_calls s b) \<Longrightarrow>
     sys_step atoi bpc s (set_recv_calls b (remove1 k (recv_calls s b)) s)"
| client_recv:
    "k \<in> set (recv_calls s b) \<Longrightarrow>
     take_msg k (ep s b) = (Some (v, i), c) \<Longrightarrow> send_ack i c = (r, d) \<Longrightarrow>
     sys_step atoi bpc s (set_recv_calls b (remove1 k (recv_calls s b))
       (if r = Inr () \<and> i \<noteq> 0 then log_got b (i, k, v) (set_ep b d s) else set_ep b d s))"
| test_send:
    "test_send (lnk bpc b) (rank_of b) (ep s b) = (Inr rqs, c) \<Longrightarrow> rq \<in> set rqs \<Longrightarrow>
     sys_step atoi bpc s (transmit b rq s)"
| send_round:
    "mq_pop False id (send_msgs (ep s b)) = (Some m, q) \<Longrightarrow>
     submit_send_task m ((ep s b)\<lparr>send_msgs := q\<rparr>) = (r, c) \<Longrightarrow>
     sys_step atoi bpc s (set_ep b c s)"
| task_transmit:
    "m \<in> set (send_tasks (ep s b)) \<Longrightarrow> \<not> aborting (ep s b) \<Longrightarrow>
     send_impl_requests (lnk bpc b) (chunk_parallel_send_size (ep s b)) (msg_key m) (msg_value m) = Inr rqs \<Longrightarrow>
     rq \<in> set rqs \<Longrightarrow>
     sys_step atoi bpc s (transmit b rq s)"
| task_end:
    "m \<in> set (send_tasks (ep s b)) \<Longrightarrow>
     sys_step atoi bpc s (set_ep b (end_send_task m (ep s b)) s)"
| deliver:
    "rq \<in> net s (\<not> b) \<Longrightarrow> on_request (lnk bpc b) atoi rq (ep s b) = (r, c) \<Longrightarrow>
     sys_step atoi bpc s (set_ep b c s)"
| set_window:
    "sys_step atoi bpc s (set_ep b ((ep s b)\<lparr>throttle_window_size := n\<rparr>) s)"
| set_parallel:
    "sys_step atoi bpc s (set_ep b ((ep s b)\<lparr>chunk_parallel_send_size := m\<rparr>) s)"
| bthread_changes:
    "sys_step atoi bpc s (set_ep b ((ep s b)\<lparr>bthread_starts := x\<rparr>) s)"
| abort:
    "sys_step atoi bpc s (set_ep b (abort_channel id (ep s b)) s)"
| stop_receiving:
    "phase s b = Open \<Longrightarrow> \<not> aborting (ep s b) \<Longrightarrow>
     stop_receiving_and_ack_unread_msgs (ep s b) = (r, c) \<Longrightarrow>
     sys_step atoi bpc s (set_phase b (if r = Inr () then Stopped else Failed) (set_ep b c s))"
| close_fin:
    "phase s b = Stopped \<Longrightarrow> send_fin (ep s b) = (r, c) \<Longrightarrow>
     sys_step atoi bpc s (set_phase b (if r = Inr () then Closing else Failed) (set_ep b c s))"
| fin_and_msgs_arrived:
    "phase s b = Closing \<Longrightarrow> \<not> fin_missing (ep s b) \<Longrightarrow>
     peer_sent_msg_count (ep s b) = 0 \<or> \<not> msgs_flying (ep s b) \<Longrightarrow>
     sys_step atoi bpc s (set_phase b Flown s)"
| stop_sending:
    "phase s b = Flown \<Longrightarrow>
     sys_step atoi bpc s (set_phase b Draining (set_ep b (stop_send_thread (ep s b)) s))"
| sends_finished:
    "phase s b = Draining \<Longrightarrow> msg_queue (send_msgs (ep s b)) = [] \<or> aborting (ep s b) \<Longrightarrow>
     \<not> running_tasks (send_sync (ep s b)) > 0 \<Longrightarrow>
     sys_step atoi bpc s (set_phase b Joined s)"
| acks_arrived:
    "phase s b = Joined \<Longrightarrow>
     msg_seq_id (ep s b) = 0 \<or> \<not> ids_incomplete (received_ack_ids (ep s b)) (msg_seq_id (ep s b)) \<Longrightarrow>
     sys_step atoi bpc s (set_phase b Done s)"

inductive reachable :: "(string \<Rightarrow> u64 option) \<Rightarrow> u64 \<Rightarrow> sys \<Rightarrow> bool" for atoi bpc where
  init: "reachable atoi bpc (sys_init timeout_ms opts)"
| step: "reachable atoi bpc s \<Longrightarrow> sys_step atoi bpc s s' \<Longrightarrow> reachable atoi bpc s'"

subsection \<open>Invariant\<close>

definition unread_ids :: "channel \<Rightarrow> u64 set" where
  "unread_ids c = {i. \<exists>k v. map_of (recv_msgs c) k = Some (v, i)}"

type_synonym slog = "u64 \<Rightarrow> (string \<times> bytes) option"
type_synonym glog = "(u64 \<times> string \<times> bytes) list"

text \<open>\<open>consumed c g i\<close>: message \<open>i\<close> of the peer has arrived, and the client has received it (\<open>g\<close> is what it has
  received) or does not receive any more.\<close>

definition consumed :: "channel \<Rightarrow> glog \<Rightarrow> u64 \<Rightarrow> bool" where
  "consumed c g i \<longleftrightarrow> i \<noteq> 0 \<and> i \<noteq> - 1 \<and> i \<in> seg_abs (received_msg_ids c) \<and>
     (i \<in> fst ` set g \<or> waiting_finish c)"

definition normal_msg :: "string \<Rightarrow> bytes \<Rightarrow> u64 \<Rightarrow> message" where
  "normal_msg k v i = \<lparr>seq_id = i, msg_key = build_channel_key k i, msg_value = v\<rparr>"

text \<open>The messages and requests a side may have produced: \<open>c\<close> is its endpoint, \<open>g\<close> what its client has received
  and \<open>sl\<close> what it has sent.\<close>

definition msg_ok :: "channel \<Rightarrow> glog \<Rightarrow> slog \<Rightarrow> message \<Rightarrow> bool" where
  "msg_ok c g sl m \<longleftrightarrow>
     (\<exists>i k v. sl i = Some (k, v) \<and> m = normal_msg k v i) \<or>
     (\<exists>i. consumed c g i \<and> m = ack_msg i) \<or>
     (waiting_finish c \<and> m = fin_msg (msg_seq_id c))"

definition rq_ok :: "u64 \<Rightarrow> bool \<Rightarrow> channel \<Rightarrow> glog \<Rightarrow> slog \<Rightarrow> push_request \<Rightarrow> bool" where
  "rq_ok bpc b c g sl rq \<longleftrightarrow>
     (\<exists>m par rqs. msg_ok c g sl m \<and>
        send_impl_requests (lnk bpc b) par (msg_key m) (msg_value m) = Inr rqs \<and> rq \<in> set rqs) \<or>
     rq = pack_mono_request (lnk bpc b) (build_channel_key (connect_key (rank_of b)) 0) []"

definition producible :: "channel \<Rightarrow> glog \<Rightarrow> slog \<Rightarrow> channel \<Rightarrow> bool" where
  "producible c g sl d \<longleftrightarrow> (\<forall>m \<in> set (msg_queue (send_msgs d)) \<union> set (send_tasks d). msg_ok c g sl m)"

definition log_inv :: "channel \<Rightarrow> slog \<Rightarrow> bool" where
  "log_inv c sl \<longleftrightarrow>
     \<not> disable_msg_seq_id c \<and> msg_seq_id c \<noteq> - 1 \<and>
     (\<forall>i. sl i \<noteq> None \<longleftrightarrow> i \<in> {1..msg_seq_id c}) \<and>
     (\<forall>i k v. sl i = Some (k, v) \<longrightarrow> str_find kSeqKey k = None \<and> length v < 2 ^ 63)"

definition snd_inv :: "u64 \<Rightarrow> bool \<Rightarrow> channel \<Rightarrow> glog \<Rightarrow> slog \<Rightarrow> push_request set \<Rightarrow> bool" where
  "snd_inv bpc b c g sl nt \<longleftrightarrow>
     log_inv c sl \<and> producible c g sl c \<and> (\<forall>rq \<in> nt. rq_ok bpc b c g sl rq)"

text \<open>The receiving part of an endpoint \<open>c\<close>, against the endpoint \<open>d\<close> of the peer, what the peer's client
  has received (\<open>g\<close>) and what the peer has sent (\<open>sl\<close>).\<close>

definition chunks_ok :: "u64 \<Rightarrow> channel \<Rightarrow> slog \<Rightarrow> bool" where
  "chunks_ok bpc c sl \<longleftrightarrow>
     (\<forall>key cm. map_of (chunked_values c) key = Some cm \<longrightarrow>
        (\<exists>i k v I. sl i = Some (k, v) \<and> key = build_channel_key k i \<and>
           unat bpc < length v \<and> chunk_inv (unat bpc) v I cm))"

definition db_inv :: "channel \<Rightarrow> slog \<Rightarrow> bool" where
  "db_inv c sl \<longleftrightarrow>
     seg_inv (received_msg_ids c) \<and> seg_abs (received_msg_ids c) \<subseteq> dom sl \<and> om_wf (recv_msgs c) \<and>
     (\<forall>k v i. map_of (recv_msgs c) k = Some (v, i) \<longrightarrow> i \<noteq> 0 \<longrightarrow>
        sl i = Some (k, v) \<and> i \<in> seg_abs (received_msg_ids c))"

definition got_inv :: "channel \<Rightarrow> slog \<Rightarrow> glog \<Rightarrow> bool" where
  "got_inv c sl got \<longleftrightarrow>
     distinct (map fst got) \<and>
     (\<forall>i k v. (i, k, v) \<in> set got \<longrightarrow>
        i \<noteq> 0 \<and> i \<in> seg_abs (received_msg_ids c) \<and> i \<notin> unread_ids c \<and> sl i = Some (k, v))"

definition ack_inv :: "channel \<Rightarrow> channel \<Rightarrow> glog \<Rightarrow> bool" where
  "ack_inv c d g \<longleftrightarrow>
     seg_inv (received_ack_ids c) \<and> (\<forall>i \<in> seg_abs (received_ack_ids c). consumed d g i) \<and>
     (received_fin c \<longrightarrow> waiting_finish d \<and> peer_sent_msg_count c = msg_seq_id d)"

definition rcv_inv :: "u64 \<Rightarrow> channel \<Rightarrow> channel \<Rightarrow> glog \<Rightarrow> slog \<Rightarrow> glog \<Rightarrow> bool" where
  "rcv_inv bpc c d g sl got \<longleftrightarrow> db_inv c sl \<and> got_inv c sl got \<and> ack_inv c d g \<and> chunks_ok bpc c sl"

definition ph_inv :: "channel \<Rightarrow> channel \<Rightarrow> phase \<Rightarrow> bool" where
  "ph_inv c d p \<longleftrightarrow>
     (p \<noteq> Open \<longrightarrow> waiting_finish c) \<and> (p \<notin> {Open, Failed} \<longrightarrow> recv_msgs c = []) \<and>
     (p \<in> {Flown, Draining, Joined, Done} \<longrightarrow>
        waiting_finish d \<and> {1..msg_seq_id d} \<subseteq> seg_abs (received_msg_ids c)) \<and>
     (p = Done \<longrightarrow> {1..msg_seq_id c} \<subseteq> seg_abs (received_ack_ids c))"

definition side_inv :: "u64 \<Rightarrow> sys \<Rightarrow> bool \<Rightarrow> bool" where
  "side_inv bpc s b \<longleftrightarrow>
     snd_inv bpc b (ep s b) (got_log s b) (sent_log s b) (net s b) \<and>
     rcv_inv bpc (ep s b) (ep s (\<not> b)) (got_log s (\<not> b)) (sent_log s (\<not> b)) (got_log s b) \<and>
     ph_inv (ep s b) (ep s (\<not> b)) (phase s b)"

definition sys_inv :: "u64 \<Rightarrow> sys \<Rightarrow> bool" where
  "sys_inv bpc s \<longleftrightarrow> (\<forall>b. side_inv bpc s b)"

subsection \<open>Monotonicity\<close>

text \<open>What never shrinks along a run, for one side.\<close>

definition ext :: "channel \<Rightarrow> glog \<Rightarrow> slog \<Rightarrow> channel \<Rightarrow> glog \<Rightarrow> slog \<Rightarrow> bool" where
  "ext c g sl c' g' sl' \<longleftrightarrow>
     sl \<subseteq>\<^sub>m sl' \<and> (\<forall>i. consumed c g i \<longrightarrow> consumed c' g' i) \<and>
     (waiting_finish c \<longrightarrow> waiting_finish c' \<and> msg_seq_id c' = msg_seq_id c)"

lemma map_le_Some: "sl \<subseteq>\<^sub>m sl' \<Longrightarrow> sl i = Some x \<Longrightarrow> sl' i = Some x"
  by (force simp: map_le_def)

lemma extD:
  assumes "ext c g sl c' g' sl'"
  shows "sl i = Some x \<Longrightarrow> sl' i = Some x" "consumed c g i \<Longrightarrow> consumed c' g' i"
    "waiting_finish c \<Longrightarrow> waiting_finish c' \<and> msg_seq_id c' = msg_seq_id c" "dom sl \<subseteq> dom sl'"
  using assms by (auto simp: ext_def dest: map_le_Some map_le_implies_dom_le)

lemma msg_ok_mono: "ext c g sl c' g' sl' \<Longrightarrow> msg_ok c g sl m \<Longrightarrow> msg_ok c' g' sl' m"
  unfolding msg_ok_def by (auto dest: extD)

lemma rq_ok_mono: "ext c g sl c' g' sl' \<Longrightarrow> rq_ok bpc b c g sl rq \<Longrightarrow> rq_ok bpc b c' g' sl' rq"
  unfolding rq_ok_def by (meson msg_ok_mono)

lemma producible_mono: "ext c g sl c' g' sl' \<Longrightarrow> producible c g sl d \<Longrightarrow> producible c' g' sl' d"
  by (auto simp: producible_def intro: msg_ok_mono)

lemma producible_cong:
  "send_msgs d' = send_msgs d \<Longrightarrow> send_tasks d' = send_tasks d \<Longrightarrow> producible c g sl d' = producible c g sl d"
  by (simp add: producible_def)

lemma chunks_ok_mono:
  assumes "\<And>i x. sl i = Some x \<Longrightarrow> sl' i = Some x" "chunks_ok bpc c sl"
  shows "chunks_ok bpc c sl'"
  unfolding chunks_ok_def
proof (intro allI impI)
  fix key cm
  assume "map_of (chunked_values c) key = Some cm"
  then obtain i k v I where "sl i = Some (k, v)" "key = build_channel_key k i"
    "unat bpc < length v" "chunk_inv (unat bpc) v I cm"
    using assms(2) unfolding chunks_ok_def by blast
  then show "\<exists>i k v I. sl' i = Some (k, v) \<and> key = build_channel_key k i \<and>
      unat bpc < length v \<and> chunk_inv (unat bpc) v I cm"
    using assms(1) by blast
qed

lemma rcv_inv_mono:
  assumes e: "ext d g sl d' g' sl'" and inv: "rcv_inv bpc c d g sl got"
  shows "rcv_inv bpc c d' g' sl' got"
proof -
  have "db_inv c sl'" using inv extD [OF e] unfolding rcv_inv_def db_inv_def by blast
  moreover have "got_inv c sl' got" using inv extD [OF e] unfolding rcv_inv_def got_inv_def by blast
  moreover have "ack_inv c d' g'" using inv extD [OF e] by (simp add: rcv_inv_def ack_inv_def)
  moreover have "chunks_ok bpc c sl'"
  proof (rule chunks_ok_mono)
    show "chunks_ok bpc c sl" using inv by (simp add: rcv_inv_def)
  qed (rule extD(1) [OF e])
  ultimately show ?thesis by (simp add: rcv_inv_def)
qed

lemma ph_inv_mono: "ext d g sl d' g' sl' \<Longrightarrow> ph_inv c d p \<Longrightarrow> ph_inv c d' p"
  using extD(3) [of d g sl d' g' sl'] by (simp add: ph_inv_def)

text \<open>A step that changes one side only.\<close>

definition same_side :: "bool \<Rightarrow> sys \<Rightarrow> sys \<Rightarrow> bool" where
  "same_side b s s' \<longleftrightarrow>
     ep s' b = ep s b \<and> net s' b = net s b \<and> sent_log s' b = sent_log s b \<and>
     got_log s' b = got_log s b \<and> phase s' b = phase s b"

lemma sys_inv_local:
  assumes inv: "sys_inv bpc s" and same: "same_side (\<not> b) s s'"
    and e: "ext (ep s b) (got_log s b) (sent_log s b) (ep s' b) (got_log s' b) (sent_log s' b)"
    and snd: "snd_inv bpc b (ep s' b) (got_log s' b) (sent_log s' b) (net s' b)"
    and rcv: "rcv_inv bpc (ep s' b) (ep s (\<not> b)) (got_log s (\<not> b)) (sent_log s (\<not> b)) (got_log s' b)"
    and ph: "ph_inv (ep s' b) (ep s (\<not> b)) (phase s' b)"
  shows "sys_inv bpc s'"
proof -
  have o: "side_inv bpc s (\<not> b)" using inv by (simp add: sys_inv_def)
  have b: "side_inv bpc s' b"
    using same snd rcv ph by (simp add: side_inv_def same_side_def)
  have nb: "side_inv bpc s' (\<not> b)"
    using o same rcv_inv_mono [OF e] ph_inv_mono [OF e] by (simp add: side_inv_def same_side_def)
  show ?thesis unfolding sys_inv_def
  proof
    fix d show "side_inv bpc s' d"
      using b nb by (cases "d = b") (auto split: if_splits simp: not_iff)
  qed
qed

lemma sys_invD:
  assumes "sys_inv bpc s"
  shows "snd_inv bpc b (ep s b) (got_log s b) (sent_log s b) (net s b)"
    "rcv_inv bpc (ep s b) (ep s (\<not> b)) (got_log s (\<not> b)) (sent_log s (\<not> b)) (got_log s b)"
    "ph_inv (ep s b) (ep s (\<not> b)) (phase s b)"
  using assms by (simp_all add: sys_inv_def side_inv_def)

subsection \<open>Updates of the state\<close>

lemma sys_update_simps [simp]:
  "ep (set_ep b c s) = (ep s)(b := c)" "net (set_ep b c s) = net s"
  "sent_log (set_ep b c s) = sent_log s" "got_log (set_ep b c s) = got_log s"
  "phase (set_ep b c s) = phase s"
  "ep (set_phase b p s) = ep s" "net (set_phase b p s) = net s"
  "sent_log (set_phase b p s) = sent_log s" "got_log (set_phase b p s) = got_log s"
  "phase (set_phase b p s) = (phase s)(b := p)"
  "ep (log_sent b i x s) = ep s" "net (log_sent b i x s) = net s"
  "sent_log (log_sent b i x s) = (sent_log s)(b := (sent_log s b)(i \<mapsto> x))"
  "got_log (log_sent b i x s) = got_log s" "phase (log_sent b i x s) = phase s"
  "ep (log_got b y s) = ep s" "net (log_got b y s) = net s"
  "sent_log (log_got b y s) = sent_log s"
  "got_log (log_got b y s) = (got_log s)(b := got_log s b @ [y])" "phase (log_got b y s) = phase s"
  "ep (transmit b rq s) = ep s" "net (transmit b rq s) = (net s)(b := insert rq (net s b))"
  "sent_log (transmit b rq s) = sent_log s" "got_log (transmit b rq s) = got_log s"
  "phase (transmit b rq s) = phase s"
  "ep (set_recv_calls b ks s) = ep s" "net (set_recv_calls b ks s) = net s"
  "sent_log (set_recv_calls b ks s) = sent_log s" "got_log (set_recv_calls b ks s) = got_log s"
  "phase (set_recv_calls b ks s) = phase s"
  by (simp_all add: set_recv_calls_def set_ep_def set_phase_def log_sent_def log_got_def transmit_def)

lemma not_self [simp]: "((\<not> b) = b) = False" "(b = (\<not> b)) = False" for b :: bool
  by auto

lemma set_ep_twice [simp]: "set_ep b c (set_ep b d s) = set_ep b c s"
  by (simp add: set_ep_def)

lemma ext_refl [simp]: "ext c g sl c g sl"
  by (simp add: ext_def)

text \<open>A change of an endpoint the invariant does not see.\<close>

definition same_view :: "channel \<Rightarrow> channel \<Rightarrow> bool" where
  "same_view c d \<longleftrightarrow>
     disable_msg_seq_id d = disable_msg_seq_id c \<and> msg_seq_id d = msg_seq_id c \<and>
     received_msg_ids d = received_msg_ids c \<and> received_ack_ids d = received_ack_ids c \<and>
     recv_msgs d = recv_msgs c \<and> chunked_values d = chunked_values c \<and>
     received_fin d = received_fin c \<and> peer_sent_msg_count d = peer_sent_msg_count c \<and>
     waiting_finish d = waiting_finish c"

lemma same_view_consumed: "same_view c d \<Longrightarrow> consumed d = consumed c"
  by (simp add: fun_eq_iff same_view_def consumed_def unread_ids_def)

lemma same_view_invs:
  assumes "same_view c c'"
  shows "log_inv c' sl = log_inv c sl" "msg_ok c' g sl = msg_ok c g sl" "rq_ok bpc b c' g sl = rq_ok bpc b c g sl"
    "producible c' g sl = producible c g sl" "db_inv c' sl = db_inv c sl" "got_inv c' sl got = got_inv c sl got"
    "ack_inv c' d g = ack_inv c d g" "chunks_ok bpc c' sl = chunks_ok bpc c sl" "ph_inv c' d p = ph_inv c d p"
proof -
  note v = assms [unfolded same_view_def]
  show "log_inv c' sl = log_inv c sl" using v by (simp add: log_inv_def)
  show m: "msg_ok c' g sl = msg_ok c g sl"
    using v same_view_consumed [OF assms] by (simp add: fun_eq_iff msg_ok_def)
  show "rq_ok bpc b c' g sl = rq_ok bpc b c g sl" "producible c' g sl = producible c g sl"
    by (simp_all add: fun_eq_iff rq_ok_def producible_def m)
  show "db_inv c' sl = db_inv c sl" "got_inv c' sl got = got_inv c sl got"
      "ack_inv c' d g = ack_inv c d g" "chunks_ok bpc c' sl = chunks_ok bpc c sl" "ph_inv c' d p = ph_inv c d p"
    using v by (simp_all add: db_inv_def got_inv_def unread_ids_def ack_inv_def chunks_ok_def ph_inv_def)
qed

lemma neutral_step:
  assumes inv: "sys_inv bpc s" and view: "same_view (ep s b) c"
    and new: "producible (ep s b) (got_log s b) (sent_log s b) c"
  shows "sys_inv bpc (set_ep b c s)"
proof (rule sys_inv_local [OF inv, of b])
  note D = sys_invD [OF inv, of b]
  show "ext (ep s b) (got_log s b) (sent_log s b) (ep (set_ep b c s) b) (got_log (set_ep b c s) b) (sent_log (set_ep b c s) b)"
    using view same_view_consumed [OF view] by (simp add: ext_def) (simp add: same_view_def)
  show "snd_inv bpc b (ep (set_ep b c s) b) (got_log (set_ep b c s) b) (sent_log (set_ep b c s) b) (net (set_ep b c s) b)"
    using D(1) new by (simp add: snd_inv_def same_view_invs [OF view])
  show "rcv_inv bpc (ep (set_ep b c s) b) (ep s (\<not> b)) (got_log s (\<not> b)) (sent_log s (\<not> b)) (got_log (set_ep b c s) b)"
    using D(2) by (simp add: rcv_inv_def same_view_invs [OF view])
  show "ph_inv (ep (set_ep b c s) b) (ep s (\<not> b)) (phase (set_ep b c s) b)"
    using D(3) by (simp add: same_view_invs [OF view])
qed (simp add: same_side_def)

lemma phase_step:
  assumes "sys_inv bpc s" "ph_inv (ep s b) (ep s (\<not> b)) p"
  shows "sys_inv bpc (set_phase b p s)"
  using sys_invD [OF assms(1), of b] assms(2)
  by (intro sys_inv_local [OF assms(1), of b]) (simp_all add: same_side_def)

lemma transmit_step:
  assumes "sys_inv bpc s" "rq_ok bpc b (ep s b) (got_log s b) (sent_log s b) rq"
  shows "sys_inv bpc (transmit b rq s)"
  using sys_invD [OF assms(1), of b] assms(2)
  by (intro sys_inv_local [OF assms(1), of b]) (simp_all add: same_side_def snd_inv_def)

lemma only_tasks_view: "only_tasks c d \<Longrightarrow> same_view c d"
  by (simp add: same_view_def only_tasks_fields)

lemma same_view_trans: "same_view c d \<Longrightarrow> same_view d e \<Longrightarrow> same_view c e"
  by (simp add: same_view_def)

subsection \<open>Client calls\<close>

lemma send_async_ok:
  assumes "send_async k v c = (Inr (), c')" "\<not> disable_msg_seq_id c"
  shows "c' = c\<lparr>msg_seq_id := msg_seq_id c + 1,
                 send_msgs := mq_push (normal_msg k v (msg_seq_id c + 1)) (send_msgs c)\<rparr>"
    "\<not> waiting_finish c" "\<not> aborting c" "str_find kSeqKey k = None" "k \<noteq> []"
  using assms
  by (auto simp: send_async_def send_guard_def proc_simps next_seq_id_def push_msg_def
      normal_msg_def normal_key_iff split: if_splits sum.splits)

lemma word_ivl_Suc: "n \<noteq> - 1 \<Longrightarrow> {1..n + 1} = insert (n + 1) {1..n :: u64}"
proof -
  assume n: "n \<noteq> - 1"
  have le: "x \<le> n + 1 \<longleftrightarrow> x = n + 1 \<or> x \<le> n" for x
    unfolding order_le_less [of x "n + 1"] word_less_plus_one [OF n, of x] by blast
  have "n + 1 \<noteq> 0"
    using n by (simp add: add_eq_0_iff2)
  then have "x \<in> {1..n + 1} \<longleftrightarrow> x \<in> insert (n + 1) {1..n}" for x
    using le [of x] by auto
  then show ?thesis by blast
qed

lemma client_send_step:
  assumes inv: "sys_inv bpc s" and send: "send_async k v (ep s b) = (Inr (), c)"
    and small: "msg_seq_id (ep s b) < - 2" and len: "length v < 2 ^ 63"
  shows "sys_inv bpc (log_sent b (msg_seq_id c) (k, v) (set_ep b c s))" (is "sys_inv bpc ?s")
proof (rule sys_inv_local [OF inv, of b])
  let ?c = "ep s b" and ?g = "got_log s b" and ?sl = "sent_log s b" and ?i = "msg_seq_id (ep s b) + 1"
  note D = sys_invD [OF inv, of b]
  have log: "log_inv ?c ?sl" and prod: "producible ?c ?g ?sl ?c"
    and nets: "\<And>rq. rq \<in> net s b \<Longrightarrow> rq_ok bpc b ?c ?g ?sl rq"
    using D(1) by (auto simp: snd_inv_def)
  have en: "\<not> disable_msg_seq_id ?c" using log by (simp add: log_inv_def)
  note ok = send_async_ok [OF send en]
  have m1: "msg_seq_id ?c \<noteq> - 1" using log by (simp add: log_inv_def)
  have i1: "?i \<noteq> - 1"
  proof
    assume "?i = - 1"
    then have "2 + msg_seq_id ?c = 0" by simp
    then have "msg_seq_id ?c = - 2" by (metis add.inverse_unique)
    with small show False by simp
  qed
  have ci: "msg_seq_id c = ?i" by (simp add: ok(1))
  have fresh: "?sl ?i = None"
  proof -
    have "?i \<notin> {1..msg_seq_id ?c}"
      using word_less_plus_one [OF m1, of "?i"] by auto
    then show ?thesis using log unfolding log_inv_def by blast
  qed
  have cons: "consumed c = consumed ?c"
    by (simp add: fun_eq_iff consumed_def unread_ids_def ok(1))
  show e: "ext (ep s b) (got_log s b) (sent_log s b) (ep ?s b) (got_log ?s b) (sent_log ?s b)"
    using ok(2) fresh cons by (simp add: ext_def map_le_def ci) auto
  have log': "log_inv c (?sl(?i \<mapsto> (k, v)))"
    using log ok(4) i1 len word_ivl_Suc [OF m1] by (auto simp: log_inv_def ok(1))
  have "msg_ok c ?g (?sl(?i \<mapsto> (k, v))) (normal_msg k v ?i)"
    by (auto simp: msg_ok_def)
  then have prod': "producible c ?g (?sl(?i \<mapsto> (k, v))) c"
    using producible_mono [OF e prod] by (auto simp: producible_def ok(1) mq_push_def)
  show "snd_inv bpc b (ep ?s b) (got_log ?s b) (sent_log ?s b) (net ?s b)"
    using log' prod' nets rq_ok_mono [OF e] by (simp add: snd_inv_def) (simp add: ok(1))
  show "rcv_inv bpc (ep ?s b) (ep s (\<not> b)) (got_log s (\<not> b)) (sent_log s (\<not> b)) (got_log ?s b)"
    using D(2) by (simp add: ok(1) rcv_inv_def db_inv_def got_inv_def unread_ids_def ack_inv_def chunks_ok_def)
  have "phase s b = Open" using D(3) ok(2) by (auto simp: ph_inv_def)
  then show "ph_inv (ep ?s b) (ep s (\<not> b)) (phase ?s b)"
    by (simp add: ph_inv_def)
qed (simp add: same_side_def)

lemma take_msg_ok:
  assumes "take_msg k c = (Some (v, i), c')"
  shows "map_of (recv_msgs c) k = Some (v, i)" "c' = c\<lparr>recv_msgs := om_erase k (recv_msgs c)\<rparr>"
  using assms by (auto simp: take_msg_def split: option.splits)

lemma unread_erase: "unread_ids (c\<lparr>recv_msgs := om_erase k (recv_msgs c)\<rparr>) \<subseteq> unread_ids c"
  by (auto simp: unread_ids_def split: if_splits)

lemma not_unread_erase:
  assumes "db_inv c sl" "map_of (recv_msgs c) k = Some (v, i)" "i \<noteq> 0"
  shows "i \<notin> unread_ids (c\<lparr>recv_msgs := om_erase k (recv_msgs c)\<rparr>)"
proof
  assume "i \<in> unread_ids (c\<lparr>recv_msgs := om_erase k (recv_msgs c)\<rparr>)"
  then obtain k' v' where k': "k' \<noteq> k" "map_of (recv_msgs c) k' = Some (v', i)"
    by (auto simp: unread_ids_def split: if_splits)
  then have "sl i = Some (k', v')" "sl i = Some (k, v)"
    using assms unfolding db_inv_def by blast+
  with k'(1) show False by simp
qed

text \<open>A change of the message database: \<open>ids\<close> are the ids received now, \<open>m\<close> the unread messages.\<close>

lemma db_step:
  fixes ids m b s
  defines "d \<equiv> (ep s b)\<lparr>received_msg_ids := ids, recv_msgs := m\<rparr>"
  assumes inv: "sys_inv bpc s" and db: "db_inv d (sent_log s (\<not> b))"
    and grow: "seg_abs (received_msg_ids (ep s b)) \<subseteq> seg_abs ids"
    and old: "\<And>i. i \<in> seg_abs (received_msg_ids (ep s b)) \<Longrightarrow> i \<noteq> 0 \<Longrightarrow> i \<in> unread_ids d \<Longrightarrow>
      i \<in> unread_ids (ep s b)"
    and closed: "phase s b \<notin> {Open, Failed} \<Longrightarrow> m = []"
  shows "sys_inv bpc (set_ep b d s)"
proof (rule sys_inv_local [OF inv, of b])
  let ?c = "ep s b" and ?g = "got_log s b" and ?sl = "sent_log s b"
  note D = sys_invD [OF inv, of b]
  have "consumed ?c ?g j \<Longrightarrow> consumed d ?g j" for j
    using grow by (auto simp: consumed_def d_def)
  then have e: "ext ?c ?g ?sl d ?g ?sl" by (simp add: ext_def d_def)
  then show "ext ?c ?g ?sl (ep (set_ep b d s) b) (got_log (set_ep b d s) b) (sent_log (set_ep b d s) b)" by simp
  have "log_inv d ?sl" "producible d ?g ?sl d" "\<forall>rq\<in>net s b. rq_ok bpc b d ?g ?sl rq"
    using D(1) producible_mono [OF e] rq_ok_mono [OF e] producible_cong [of d ?c]
    by (simp_all add: snd_inv_def log_inv_def d_def)
  then show "snd_inv bpc b (ep (set_ep b d s) b) (got_log (set_ep b d s) b) (sent_log (set_ep b d s) b) (net (set_ep b d s) b)"
    by (simp add: snd_inv_def)
  have "got_inv d (sent_log s (\<not> b)) (got_log s b)"
    using D(2) old grow unfolding rcv_inv_def got_inv_def by (fastforce simp: d_def)
  then show "rcv_inv bpc (ep (set_ep b d s) b) (ep s (\<not> b)) (got_log s (\<not> b)) (sent_log s (\<not> b)) (got_log (set_ep b d s) b)"
    using D(2) db by (simp add: rcv_inv_def ack_inv_def chunks_ok_def d_def)
  show "ph_inv (ep (set_ep b d s) b) (ep s (\<not> b)) (phase (set_ep b d s) b)"
    using D(3) grow closed by (auto simp: ph_inv_def d_def)
qed (simp add: same_side_def)

lemma erase_step:
  assumes inv: "sys_inv bpc s"
  shows "sys_inv bpc (set_ep b ((ep s b)\<lparr>recv_msgs := om_erase k (recv_msgs (ep s b))\<rparr>) s)"
proof -
  let ?c = "ep s b"
  have d: "?c\<lparr>recv_msgs := om_erase k (recv_msgs ?c)\<rparr> =
      ?c\<lparr>received_msg_ids := received_msg_ids ?c, recv_msgs := om_erase k (recv_msgs ?c)\<rparr>" by simp
  show ?thesis
    unfolding d
  proof (rule db_step [OF inv])
    show "db_inv (?c\<lparr>received_msg_ids := received_msg_ids ?c, recv_msgs := om_erase k (recv_msgs ?c)\<rparr>)
        (sent_log s (\<not> b))"
      using sys_invD(2) [OF inv, of b] by (simp add: rcv_inv_def db_inv_def)
    show "om_erase k (recv_msgs ?c) = []" if "phase s b \<notin> {Open, Failed}"
      using sys_invD(3) [OF inv, of b] that by (simp add: ph_inv_def om_erase_def)
  qed (use unread_erase [of k ?c] in auto)
qed

lemma got_step:
  assumes inv: "sys_inv bpc s" and "i \<noteq> 0" "i \<in> seg_abs (received_msg_ids (ep s b))"
    "i \<notin> unread_ids (ep s b)" "sent_log s (\<not> b) i = Some (k, v)" "i \<notin> fst ` set (got_log s b)"
  shows "sys_inv bpc (log_got b (i, k, v) s)"
proof (rule sys_inv_local [OF inv, of b])
  note D = sys_invD [OF inv, of b]
  have e: "ext (ep s b) (got_log s b) (sent_log s b) (ep s b) (got_log s b @ [(i, k, v)]) (sent_log s b)"
    by (auto simp: ext_def consumed_def)
  then show "ext (ep s b) (got_log s b) (sent_log s b) (ep (log_got b (i, k, v) s) b)
      (got_log (log_got b (i, k, v) s) b) (sent_log (log_got b (i, k, v) s) b)" by simp
  have "got_inv (ep s b) (sent_log s (\<not> b)) (got_log s b @ [(i, k, v)])"
    using D(2) assms by (auto simp: rcv_inv_def got_inv_def)
  then show "rcv_inv bpc (ep (log_got b (i, k, v) s) b) (ep s (\<not> b)) (got_log s (\<not> b)) (sent_log s (\<not> b))
      (got_log (log_got b (i, k, v) s) b)"
    using D(2) by (simp add: rcv_inv_def)
  show "snd_inv bpc b (ep (log_got b (i, k, v) s) b) (got_log (log_got b (i, k, v) s) b) (sent_log (log_got b (i, k, v) s) b)
      (net (log_got b (i, k, v) s) b)"
    using D(1) producible_mono [OF e] rq_ok_mono [OF e] by (simp add: snd_inv_def)
  show "ph_inv (ep (log_got b (i, k, v) s) b) (ep s (\<not> b)) (phase (log_got b (i, k, v) s) b)"
    using D(3) by simp
qed (simp_all add: same_side_def)

lemma send_ack_fails: "send_ack i c = (Inl e, d) \<Longrightarrow> send_tasks d = send_tasks c"
  by (auto simp: send_ack_def submit_send_task_def preturn_def Let_def split: if_splits)

lemma ack_step:
  assumes inv: "sys_inv bpc s" and ack: "send_ack i (ep s b) = (r, d)"
    and "r = Inr () \<Longrightarrow> i \<noteq> 0 \<Longrightarrow> consumed (ep s b) (got_log s b) i"
  shows "sys_inv bpc (set_ep b d s)"
proof (rule neutral_step [OF inv])
  have o: "only_tasks (ep s b) d" using send_ack_only_tasks [of "ep s b" i] ack by simp
  then show "same_view (ep s b) d" by (rule only_tasks_view)
  have "set (send_tasks d) \<subseteq> set (send_tasks (ep s b)) \<union> {m. r = Inr () \<and> i \<noteq> 0 \<and> m = ack_msg i}"
    using send_ack_tasks [of i "ep s b"] send_ack_fails [of i "ep s b"] ack by (cases r) auto
  moreover have "msg_ok (ep s b) (got_log s b) (sent_log s b) (ack_msg i)" if "r = Inr ()" "i \<noteq> 0"
    using assms(3) [OF that] by (auto simp: msg_ok_def)
  ultimately show "producible (ep s b) (got_log s b) (sent_log s b) d"
    using sys_invD(1) [OF inv, of b] only_tasks_fields(11) [OF o]
    by (auto simp: snd_inv_def producible_def)
qed

lemma log_got_commute: "log_got b x (set_ep b d s) = set_ep b d (log_got b x s)"
  by (simp add: log_got_def set_ep_def)

lemma client_recv_step:
  assumes inv: "sys_inv bpc s" and take: "take_msg k (ep s b) = (Some (v, i), c)"
    and ack: "send_ack i c = (r, d)"
  shows "sys_inv bpc (if r = Inr () \<and> i \<noteq> 0 then log_got b (i, k, v) (set_ep b d s) else set_ep b d s)"
proof -
  note t = take_msg_ok [OF take]
  note D = sys_invD(2) [OF inv, of b]
  have db: "db_inv (ep s b) (sent_log s (\<not> b))" using D by (simp add: rcv_inv_def)
  let ?t = "set_ep b c s"
  have one: "sys_inv bpc ?t" using erase_step [OF inv, of b k] t(2) by simp
  have read: "i \<in> seg_abs (received_msg_ids c)" "sent_log s (\<not> b) i = Some (k, v)"
    "i \<notin> unread_ids c" if "i \<noteq> 0"
    using db t(1) not_unread_erase [OF db t(1)] that by (simp_all add: db_inv_def t(2))
  show ?thesis
  proof (cases "r = Inr () \<and> i \<noteq> 0")
    case False
    then show ?thesis using ack_step [OF one, of i b r d] ack by auto
  next
    case True
    have two: "sys_inv bpc (log_got b (i, k, v) ?t)"
    proof (rule got_step [OF one])
      have "i \<in> unread_ids (ep s b)" using t(1) by (auto simp: unread_ids_def)
      then show "i \<notin> fst ` set (got_log ?t b)"
        using D unfolding rcv_inv_def got_inv_def by auto
    qed (use True read in simp_all)
    have "i \<noteq> - 1" using read(1) True max_not_in_seg_set by (auto simp: seg_abs_def)
    then have "sys_inv bpc (set_ep b d (log_got b (i, k, v) ?t))"
      using ack_step [OF two, of i b r d] ack True read(1) by (simp add: consumed_def)
    with True show ?thesis by (simp add: log_got_commute)
  qed
qed

subsection \<open>Requests at the receiver\<close>

lemma ack_arrives:
  assumes inv: "sys_inv bpc s" and i: "consumed (ep s (\<not> b)) (got_log s (\<not> b)) i"
  shows "sys_inv bpc (set_ep b ((ep s b)\<lparr>received_ack_ids := snd (seg_insert i (received_ack_ids (ep s b)))\<rparr>) s)"
    (is "sys_inv bpc (set_ep b ?d s)")
proof (rule sys_inv_local [OF inv, of b])
  let ?c = "ep s b" and ?g = "got_log s b" and ?sl = "sent_log s b"
  note D = sys_invD [OF inv, of b]
  have i1: "i \<noteq> - 1" using i by (simp add: consumed_def)
  have ids: "seg_inv (received_ack_ids ?d)"
      "seg_abs (received_ack_ids ?d) = insert i (seg_abs (received_ack_ids ?c))"
    using D(2) i1 by (simp_all add: rcv_inv_def ack_inv_def st.inv_ins st.abs_ins)
  have cons: "consumed ?d = consumed ?c" by (simp add: fun_eq_iff consumed_def unread_ids_def)
  then show e: "ext ?c ?g ?sl (ep (set_ep b ?d s) b) (got_log (set_ep b ?d s) b) (sent_log (set_ep b ?d s) b)" by (simp add: ext_def)
  show "snd_inv bpc b (ep (set_ep b ?d s) b) (got_log (set_ep b ?d s) b) (sent_log (set_ep b ?d s) b) (net (set_ep b ?d s) b)"
    using D(1) producible_mono [OF e] rq_ok_mono [OF e] producible_cong [of ?d ?c]
    by (simp add: snd_inv_def log_inv_def)
  have "db_inv ?d (sent_log s (\<not> b))" "got_inv ?d (sent_log s (\<not> b)) (got_log s b)" "chunks_ok bpc ?d (sent_log s (\<not> b))"
    using D(2) by (simp_all add: rcv_inv_def db_inv_def got_inv_def chunks_ok_def unread_ids_def)
  moreover have "ack_inv ?d (ep s (\<not> b)) (got_log s (\<not> b))"
    using D(2) ids i by (simp add: rcv_inv_def ack_inv_def)
  ultimately show "rcv_inv bpc (ep (set_ep b ?d s) b) (ep s (\<not> b)) (got_log s (\<not> b)) (sent_log s (\<not> b)) (got_log (set_ep b ?d s) b)"
    by (simp add: rcv_inv_def)
  show "ph_inv (ep (set_ep b ?d s) b) (ep s (\<not> b)) (phase (set_ep b ?d s) b)"
    using D(3) ids(2) by (auto simp: ph_inv_def)
qed (simp add: same_side_def)

lemma fin_arrives_first:
  assumes inv: "sys_inv bpc s" and n: "waiting_finish (ep s (\<not> b))" "n = msg_seq_id (ep s (\<not> b))"
  shows "sys_inv bpc (set_ep b ((ep s b)\<lparr>received_fin := True, peer_sent_msg_count := n\<rparr>) s)"
    (is "sys_inv bpc (set_ep b ?d s)")
proof (rule sys_inv_local [OF inv, of b])
  let ?c = "ep s b" and ?g = "got_log s b" and ?sl = "sent_log s b"
  note D = sys_invD [OF inv, of b]
  have cons: "consumed ?d = consumed ?c" by (simp add: fun_eq_iff consumed_def unread_ids_def)
  then show e: "ext ?c ?g ?sl (ep (set_ep b ?d s) b) (got_log (set_ep b ?d s) b) (sent_log (set_ep b ?d s) b)" by (simp add: ext_def)
  show "snd_inv bpc b (ep (set_ep b ?d s) b) (got_log (set_ep b ?d s) b) (sent_log (set_ep b ?d s) b) (net (set_ep b ?d s) b)"
    using D(1) producible_mono [OF e] rq_ok_mono [OF e] producible_cong [of ?d ?c]
    by (simp add: snd_inv_def log_inv_def)
  have "db_inv ?d (sent_log s (\<not> b))" "got_inv ?d (sent_log s (\<not> b)) (got_log s b)" "chunks_ok bpc ?d (sent_log s (\<not> b))"
    using D(2) by (simp_all add: rcv_inv_def db_inv_def got_inv_def chunks_ok_def unread_ids_def)
  moreover have "ack_inv ?d (ep s (\<not> b)) (got_log s (\<not> b))"
    using D(2) n by (simp add: rcv_inv_def ack_inv_def)
  ultimately show "rcv_inv bpc (ep (set_ep b ?d s) b) (ep s (\<not> b)) (got_log s (\<not> b)) (sent_log s (\<not> b)) (got_log (set_ep b ?d s) b)"
    by (simp add: rcv_inv_def)
  show "ph_inv (ep (set_ep b ?d s) b) (ep s (\<not> b)) (phase (set_ep b ?d s) b)"
    using D(3) by (simp add: ph_inv_def)
qed (simp add: same_side_def)

lemma set_ep_same [simp]: "set_ep b (ep s b) s = s"
  by (simp add: set_ep_def)

lemma fin_arrives:
  assumes "sys_inv bpc s" "waiting_finish (ep s (\<not> b))" "n = msg_seq_id (ep s (\<not> b))"
  shows "sys_inv bpc (set_ep b (if received_fin (ep s b) then ep s b
    else (ep s b)\<lparr>received_fin := True, peer_sent_msg_count := n\<rparr>) s)"
  using fin_arrives_first [OF assms] assms(1) by simp

lemma chunks_step:
  assumes inv: "sys_inv bpc s" and ok: "chunks_ok bpc ((ep s b)\<lparr>chunked_values := cv\<rparr>) (sent_log s (\<not> b))"
  shows "sys_inv bpc (set_ep b ((ep s b)\<lparr>chunked_values := cv\<rparr>) s)" (is "sys_inv bpc (set_ep b ?d s)")
proof (rule sys_inv_local [OF inv, of b])
  let ?c = "ep s b" and ?g = "got_log s b" and ?sl = "sent_log s b"
  note D = sys_invD [OF inv, of b]
  have cons: "consumed ?d = consumed ?c" by (simp add: fun_eq_iff consumed_def unread_ids_def)
  then show e: "ext ?c ?g ?sl (ep (set_ep b ?d s) b) (got_log (set_ep b ?d s) b) (sent_log (set_ep b ?d s) b)" by (simp add: ext_def)
  show "snd_inv bpc b (ep (set_ep b ?d s) b) (got_log (set_ep b ?d s) b) (sent_log (set_ep b ?d s) b) (net (set_ep b ?d s) b)"
    using D(1) producible_mono [OF e] rq_ok_mono [OF e] producible_cong [of ?d ?c]
    by (simp add: snd_inv_def log_inv_def)
  show "rcv_inv bpc (ep (set_ep b ?d s) b) (ep s (\<not> b)) (got_log s (\<not> b)) (sent_log s (\<not> b)) (got_log (set_ep b ?d s) b)"
    using D(2) ok by (simp add: rcv_inv_def db_inv_def got_inv_def unread_ids_def ack_inv_def)
  show "ph_inv (ep (set_ep b ?d s) b) (ep s (\<not> b)) (phase (set_ep b ?d s) b)"
    using D(3) by (simp add: ph_inv_def)
qed (simp add: same_side_def)

lemma log_inv_id:
  assumes "log_inv c sl" "sl i = Some (k, v)"
  shows "i \<noteq> 0" "i \<noteq> - 1"
proof -
  have max: "msg_seq_id c \<noteq> - 1" and "i \<in> {1..msg_seq_id c}"
    using assms unfolding log_inv_def by blast+
  then show "i \<noteq> 0" "i \<noteq> - 1"
    by (simp, metis atLeastAtMost_iff word_order.extremum_unique)
qed

lemma closed_db:
  assumes "sys_inv bpc s"
  shows "phase s b \<notin> {Open, Failed} \<Longrightarrow> recv_msgs (ep s b) = []" "\<not> waiting_finish (ep s b) \<Longrightarrow> phase s b = Open"
  using sys_invD(3) [OF assms, of b] by (auto simp: ph_inv_def)

lemma store_step:
  assumes inv: "sys_inv bpc s" and sent: "sent_log s (\<not> b) i = Some (k, v)"
  shows "sys_inv bpc (set_ep b (snd (store_message k i v (ep s b))) s)"
proof -
  let ?c = "ep s b" and ?sp = "sent_log s (\<not> b)"
  note D = sys_invD(2) [OF inv, of b]
  have db: "db_inv ?c ?sp" and seg: "seg_inv (received_msg_ids ?c)"
    using D by (simp_all add: rcv_inv_def db_inv_def)
  have "log_inv (ep s (\<not> b)) ?sp" using sys_invD(1) [OF inv, of "\<not> b"] by (simp add: snd_inv_def)
  note i = log_inv_id [OF this sent]
  show ?thesis
  proof (cases "i \<in> seg_abs (received_msg_ids ?c)")
    case True
    obtain ids where ids: "snd (store_message k i v ?c) = ?c\<lparr>received_msg_ids := ids\<rparr>" "seg_inv ids"
        "seg_abs ids = seg_abs (received_msg_ids ?c)"
      using store_duplicate(2) [OF seg i True] by blast
    have "sys_inv bpc (set_ep b (?c\<lparr>received_msg_ids := ids, recv_msgs := recv_msgs ?c\<rparr>) s)"
      by (rule db_step [OF inv]) (use db ids closed_db(1) [OF inv] in \<open>simp_all add: db_inv_def unread_ids_def\<close>)
    then show ?thesis using ids(1) by simp
  next
    case False
    obtain ids where ids: "seg_inv ids" "seg_abs ids = insert i (seg_abs (received_msg_ids ?c))"
      and st: "store_message k i v ?c =
       (if waiting_finish ?c then send_ack i (?c\<lparr>received_msg_ids := ids\<rparr>)
        else if map_of (recv_msgs ?c) k = None
        then (Inr (), ?c\<lparr>received_msg_ids := ids, recv_msgs := snd (om_emplace k (v, i) (recv_msgs ?c))\<rparr>)
        else (Inl RuntimeError, ?c\<lparr>received_msg_ids := ids\<rparr>))"
      by (rule store_fresh [OF seg i False])
    have "sys_inv bpc (set_ep b (?c\<lparr>received_msg_ids := ids, recv_msgs := recv_msgs ?c\<rparr>) s)"
      by (rule db_step [OF inv]) (use db ids sent closed_db(1) [OF inv] in \<open>auto simp: db_inv_def unread_ids_def\<close>)
    then have plain: "sys_inv bpc (set_ep b (?c\<lparr>received_msg_ids := ids\<rparr>) s)" by simp
    have stored: "sys_inv bpc (set_ep b (?c\<lparr>received_msg_ids := ids,
        recv_msgs := snd (om_emplace k (v, i) (recv_msgs ?c))\<rparr>) s)" if "\<not> waiting_finish ?c" "map_of (recv_msgs ?c) k = None"
      by (rule db_step [OF inv])
        (use db ids sent that False closed_db(2) [OF inv that(1)] in \<open>auto simp: db_inv_def unread_ids_def split: if_splits\<close>)
    obtain r e where ack: "send_ack i (?c\<lparr>received_msg_ids := ids\<rparr>) = (r, e)" by force
    have "sys_inv bpc (set_ep b e s)" if "waiting_finish ?c"
      using ack_step [OF plain, of i b r e] ack ids i that by (simp add: consumed_def)
    with plain stored ack show ?thesis by (simp add: st)
  qed
qed

lemma test_arrives:
  assumes inv: "sys_inv bpc s"
  shows "sys_inv bpc (set_ep b (snd (store_message k 0 v (ep s b))) s)"
proof -
  let ?c = "ep s b"
  have db: "db_inv ?c (sent_log s (\<not> b))" using sys_invD(2) [OF inv, of b] by (simp add: rcv_inv_def)
  have "sys_inv bpc (set_ep b (?c\<lparr>received_msg_ids := received_msg_ids ?c,
      recv_msgs := snd (om_emplace k (v, 0) (recv_msgs ?c))\<rparr>) s)" if "\<not> waiting_finish ?c"
    by (rule db_step [OF inv]) (use db closed_db(2) [OF inv that] in \<open>auto simp: db_inv_def unread_ids_def split: if_splits\<close>)
  with inv show ?thesis by (simp add: store_test)
qed

lemma peer_log:
  assumes inv: "sys_inv bpc s" and "sent_log s b i = Some (k, v)"
  shows "str_find kSeqKey k = None" "length v < 2 ^ 63"
proof -
  have "log_inv (ep s b) (sent_log s b)" using sys_invD(1) [OF inv, of b] by (simp add: snd_inv_def)
  with assms(2) show "str_find kSeqKey k = None" "length v < 2 ^ 63"
    unfolding log_inv_def by blast+
qed

lemma message_arrives:
  assumes inv: "sys_inv bpc s" and atoi: "atoi_ok atoi"
    and m: "msg_ok (ep s (\<not> b)) (got_log s (\<not> b)) (sent_log s (\<not> b)) m"
  shows "sys_inv bpc (set_ep b (snd (on_message atoi (msg_key m) (msg_value m) (ep s b))) s)"
proof -
  consider (normal) i k v where "sent_log s (\<not> b) i = Some (k, v)" "m = normal_msg k v i"
    | (ack) i where "consumed (ep s (\<not> b)) (got_log s (\<not> b)) i" "m = ack_msg i"
    | (fin) "waiting_finish (ep s (\<not> b))" "m = fin_msg (msg_seq_id (ep s (\<not> b)))"
    using m unfolding msg_ok_def by blast
  then show ?thesis
  proof cases
    case normal
    then show ?thesis
      using store_step [OF inv normal(1)] on_message_normal [OF atoi peer_log(1) [OF inv normal(1)]]
      by (simp add: normal_msg_def)
  next
    case ack
    then show ?thesis
      using ack_arrives [OF inv ack(1)] by (simp add: ack_msg_def on_message_ack [OF atoi])
  next
    case fin
    then show ?thesis
      using fin_arrives [OF inv fin(1) refl] by (simp add: fin_msg_def on_message_fin [OF atoi])
  qed
qed

lemma chunks_ok_update:
  assumes ok: "chunks_ok bpc c sl" and sent: "sl i = Some (k, v)" "unat bpc < length v"
    and cm: "chunk_inv (unat bpc) v I cm"
    and cv: "\<And>key. map_of cv key \<in> {map_of (chunked_values c) key, None} \<or>
                  (key = build_channel_key k i \<and> map_of cv key = Some cm)"
  shows "chunks_ok bpc (c\<lparr>chunked_values := cv\<rparr>) sl"
  unfolding chunks_ok_def
proof (intro allI impI)
  fix key cm'
  assume "map_of (chunked_values (c\<lparr>chunked_values := cv\<rparr>)) key = Some cm'"
  then have "map_of (chunked_values c) key = Some cm' \<or> (key = build_channel_key k i \<and> cm' = cm)"
    using cv [of key] by auto
  then show "\<exists>i k v I. sl i = Some (k, v) \<and> key = build_channel_key k i \<and>
      unat bpc < length v \<and> chunk_inv (unat bpc) v I cm'"
  proof
    assume "map_of (chunked_values c) key = Some cm'"
    then show ?thesis using ok unfolding chunks_ok_def by blast
  next
    assume "key = build_channel_key k i \<and> cm' = cm"
    then show ?thesis using sent cm by blast
  qed
qed

lemma chunk_entry:
  assumes inv: "sys_inv bpc s" and sent: "sent_log s (\<not> b) i = Some (k, v)"
    and cm: "map_of (chunked_values (ep s b)) (build_channel_key k i) = Some cm"
  shows "\<exists>I. chunk_inv (unat bpc) v I cm"
proof -
  have "chunks_ok bpc (ep s b) (sent_log s (\<not> b))"
    using sys_invD(2) [OF inv, of b] by (simp add: rcv_inv_def)
  then obtain i' k' v' I where o: "sent_log s (\<not> b) i' = Some (k', v')"
      "build_channel_key k i = build_channel_key k' i'" "chunk_inv (unat bpc) v' I cm"
    using cm unfolding chunks_ok_def by blast
  then have "k = k'" "i = i'"
    using build_channel_key_inj peer_log(1) [OF inv sent] peer_log(1) [OF inv o(1)] by blast+
  with o sent show ?thesis by auto
qed

lemma chunk_arrives:
  fixes j b s bpc
  defines "off \<equiv> of_nat (j * unat bpc) :: u64"
  assumes inv: "sys_inv bpc s" and atoi: "atoi_ok atoi" and bpc: "0 < unat bpc"
    and sent: "sent_log s (\<not> b) i = Some (k, v)" and big: "unat bpc < length v"
    and j: "j < chunk_count (unat bpc) (length v)"
  shows "sys_inv bpc (set_ep b (snd (on_chunked_message atoi (build_channel_key k i)
    (chunk_bytes (j * unat bpc) (min (unat bpc) (length v - j * unat bpc)) v) off
    (of_nat (length v)) (ep s b))) s)"
proof -
  let ?c = "ep s b" and ?key = "build_channel_key k i" and ?n = "of_nat (length v) :: u64"
    and ?d = "chunk_bytes (j * unat bpc) (min (unat bpc) (length v - j * unat bpc)) v"
  have len: "length v < 2 ^ 63" and key: "str_find kSeqKey k = None"
    using peer_log [OF inv sent] by auto
  have jb: "j * unat bpc < length v" using chunk_count_iff [OF bpc] j by simp
  have dlen: "length ?d = min (unat bpc) (length v - j * unat bpc)" by (simp add: chunk_bytes_def)
  have "off + of_nat (length ?d) = of_nat (j * unat bpc + length ?d)" by (simp add: off_def)
  moreover have "(of_nat (j * unat bpc + length ?d) :: u64) \<le> ?n"
    using jb dlen len unat_of_nat_small [of "j * unat bpc + length ?d", where 'a = 64]
      unat_of_nat_small [of "length v", where 'a = 64]
    by (simp add: word_le_nat_alt del: of_nat_add of_nat_mult)
  ultimately have fits: "\<not> off + of_nat (length ?d) > ?n" by simp
  have ok: "chunks_ok bpc ?c (sent_log s (\<not> b))"
    using sys_invD(2) [OF inv, of b] by (simp add: rcv_inv_def)
  define start where "start = (case map_of (chunked_values ?c) ?key of
                Some cm \<Rightarrow> Inr (cm, ?c)
              | None \<Rightarrow> rbind (new_chunked_message ?n) (\<lambda>cm.
                    Inr (cm, ?c\<lparr>chunked_values := snd (om_emplace ?key cm (chunked_values ?c))\<rparr>)))"
  obtain cm cv I where start: "start = Inr (cm, ?c\<lparr>chunked_values := cv\<rparr>)" "chunk_inv (unat bpc) v I cm"
      "\<And>key. key \<noteq> ?key \<Longrightarrow> map_of cv key = map_of (chunked_values ?c) key" "map_of cv ?key = Some cm"
  proof (cases "map_of (chunked_values ?c) ?key")
    case (Some cm)
    then show ?thesis
      using chunk_entry [OF inv sent Some] that [of cm "chunked_values ?c"] by (auto simp: start_def)
  next
    case None
    then show ?thesis
      using chunk_inv_new [OF len, of "unat bpc"] that by (auto simp: start_def)
  qed
  obtain cm' where add: "add_chunk off ?d cm = Inr cm'" "chunk_inv (unat bpc) v (insert j I) cm'"
    using add_chunk_inv [OF start(2) bpc j len] by (auto simp: off_def)
  have eq: "on_chunked_message atoi ?key ?d off ?n ?c =
      (if is_fully_filled cm' then on_message atoi ?key (reassemble cm') (?c\<lparr>chunked_values := om_erase ?key cv\<rparr>)
       else (Inr (), ?c\<lparr>chunked_values := om_update ?key cm' cv\<rparr>))"
    using fits start(1) add(1) unfolding on_chunked_message_def start_def [symmetric] by simp
  show ?thesis
  proof (cases "is_fully_filled cm'")
    case False
    have "chunks_ok bpc (?c\<lparr>chunked_values := om_update ?key cm' cv\<rparr>) (sent_log s (\<not> b))"
      using start(3,4) by (intro chunks_ok_update [OF ok sent big add(2)]) auto
    from chunks_step [OF inv this] False show ?thesis by (simp add: eq)
  next
    case True
    have "reassemble cm' = v"
      using chunk_inv_bytes [OF add(2) bpc len] True add(2) reassembled bpc by metis
    moreover have "chunks_ok bpc (?c\<lparr>chunked_values := om_erase ?key cv\<rparr>) (sent_log s (\<not> b))"
      using start(3,4) by (intro chunks_ok_update [OF ok sent big add(2)]) auto
    note one = chunks_step [OF inv this]
    have "msg_ok (ep s (\<not> b)) (got_log s (\<not> b)) (sent_log s (\<not> b)) (normal_msg k v i)"
      using sent by (auto simp: msg_ok_def)
    then have "sys_inv bpc (set_ep b (snd (on_message atoi ?key v (?c\<lparr>chunked_values := om_erase ?key cv\<rparr>))) s)"
      using message_arrives [OF one atoi, of b "normal_msg k v i"] by (simp add: normal_msg_def)
    ultimately show ?thesis using True by (simp add: eq)
  qed
qed

lemma no_seq_key: "CHR 0x01 \<notin> set k \<Longrightarrow> str_find kSeqKey k = None"
proof (induction k)
  case (Cons c cs)
  then have "take 2 (c # cs) \<noteq> kSeqKey" by (auto simp: kSeqKey_def)
  with Cons show ?case by simp
qed (simp add: kSeqKey_def)

lemma connect_key_normal: "str_find kSeqKey (connect_key r) = None"
proof (rule no_seq_key)
  have "CHR 0x01 \<notin> set (to_string n)" for n
    using to_string_digits [of "CHR 0x01" n] by auto
  then show "CHR 0x01 \<notin> set (connect_key r)" by (auto simp: connect_key_def)
qed

lemma on_request_mono:
  "snd (on_request (lnk bpc b) atoi (pack_mono_request (lnk bpc d) k v) c) =
     (if aborting c then c else snd (on_message atoi k v c))"
  by (simp add: on_request_def lnk_def ic_link_defs proc_simps split: prod.splits sum.splits)

lemma on_request_chunked:
  "snd (on_request (lnk bpc b) atoi (pack_chunked_request (lnk bpc d) k v off n) c) =
     (if aborting c then c else snd (on_chunked_message atoi k v off n c))"
  by (simp add: on_request_def lnk_def ic_link_defs proc_simps split: prod.splits sum.splits)

lemma small_is_mono:
  assumes "bpc \<ge> 20" "length v \<le> 20"
  shows "send_impl_requests (lnk bpc b) par k v = Inr [pack_mono_request (lnk bpc b) k v]"
proof -
  have "unat (of_nat (length v) :: u64) = length v" using assms by (intro unat_of_nat_small) simp
  then have "\<not> of_nat (length v) > bpc" using assms by (simp add: word_less_nat_alt word_le_nat_alt)
  then show ?thesis by (simp add: send_impl_requests_def lnk_def)
qed

lemma send_impl_cases:
  assumes "send_impl_requests (lnk bpc b) par k v = Inr rqs" "rq \<in> set rqs" "length v < 2 ^ 63"
  obtains (mono) "rq = pack_mono_request (lnk bpc b) k v"
  | (chunk) j where "0 < unat bpc" "unat bpc < length v" "j < chunk_count (unat bpc) (length v)"
      "rq = pack_chunked_request (lnk bpc b) k
         (chunk_bytes (j * unat bpc) (min (unat bpc) (length v - j * unat bpc)) v)
         (of_nat (j * unat bpc)) (of_nat (length v))"
proof (cases "of_nat (length v) > bpc")
  case False
  with assms that(1) show ?thesis by (auto simp: send_impl_requests_def lnk_def)
next
  case True
  have n: "unat (of_nat (length v) :: u64) = length v"
    using assms(3) by (intro unat_of_nat_small) simp
  then have big: "unat bpc < length v" using True by (simp add: word_less_nat_alt)
  have nz: "bpc \<noteq> 0" and rqs: "rqs = map (chunk_request (lnk bpc b) k v)
      [0..<unat (num_chunks bpc (of_nat (length v)))]"
    using assms(1) True
    by (auto simp: send_impl_requests_def send_chunked_requests_def chunk_requests_def lnk_def split: if_splits)
  have bpc: "0 < unat bpc" using nz by (simp add: unat_gt_0)
  have cnt: "unat (num_chunks bpc (of_nat (length v))) = chunk_count (unat bpc) (length v)"
    using num_chunks_nat [of bpc "length v"] nz big assms(3) by (simp add: word_neq_0_conv)
  obtain j where j: "j < chunk_count (unat bpc) (length v)" "rq = chunk_request (lnk bpc b) k v j"
    using assms(2) rqs cnt by auto
  have "j * unat bpc < length v" using chunk_count_iff [OF bpc] j(1) by simp
  then have "rq = pack_chunked_request (lnk bpc b) k
         (chunk_bytes (j * unat bpc) (min (unat bpc) (length v - j * unat bpc)) v)
         (of_nat (j * unat bpc)) (of_nat (length v))"
    using chunk_request_eq [of "lnk bpc b" v j k] bpc assms(3) j(2) by (simp add: lnk_def)
  then show ?thesis using that(2) bpc big j(1) by blast
qed

lemma deliver_step:
  assumes inv: "sys_inv bpc s" and atoi: "atoi_ok atoi" and bpc: "bpc \<ge> 20"
    and rq: "rq \<in> net s (\<not> b)"
  shows "sys_inv bpc (set_ep b (snd (on_request (lnk bpc b) atoi rq (ep s b))) s)"
proof -
  let ?d = "ep s (\<not> b)" and ?g = "got_log s (\<not> b)" and ?sl = "sent_log s (\<not> b)"
  have "rq_ok bpc (\<not> b) ?d ?g ?sl rq"
    using sys_invD(1) [OF inv, of "\<not> b"] rq by (simp add: snd_inv_def)
  then consider (msg) m par rqs where "msg_ok ?d ?g ?sl m"
      "send_impl_requests (lnk bpc (\<not> b)) par (msg_key m) (msg_value m) = Inr rqs" "rq \<in> set rqs"
    | (test) "rq = pack_mono_request (lnk bpc (\<not> b)) (build_channel_key (connect_key (rank_of (\<not> b))) 0) []"
    unfolding rq_ok_def by blast
  then show ?thesis
  proof cases
    case test
    then show ?thesis
      using test_arrives [OF inv] on_message_normal [OF atoi connect_key_normal] inv
      by (simp add: on_request_mono)
  next
    case msg
    note mono = message_arrives [OF inv atoi msg(1)]
    show ?thesis
    proof (cases "\<exists>i k v. ?sl i = Some (k, v) \<and> m = normal_msg k v i")
      case False
      then have "length (msg_value m) \<le> 20"
        using msg(1) to_string_u64_length by (auto simp: msg_ok_def ack_msg_def fin_msg_def)
      then have "rq = pack_mono_request (lnk bpc (\<not> b)) (msg_key m) (msg_value m)"
        using small_is_mono [OF bpc] msg(2,3) by auto
      then show ?thesis using mono inv by (simp add: on_request_mono)
    next
      case True
      then obtain i k v where m: "?sl i = Some (k, v)" "m = normal_msg k v i" by blast
      have len: "length (msg_value m) < 2 ^ 63"
        using peer_log(2) [OF inv m(1)] m(2) by (simp add: normal_msg_def)
      show ?thesis
        using msg(2,3) len
      proof (cases rule: send_impl_cases)
        case mono: mono
        then show ?thesis
          using message_arrives [OF inv atoi msg(1)] inv by (simp add: on_request_mono)
      next
        case (chunk j)
        then show ?thesis
          using chunk_arrives [OF inv atoi chunk(1) m(1), of j] m(2) inv
          by (simp add: on_request_chunked normal_msg_def)
      qed
    qed
  qed
qed

subsection \<open>Sending and closing\<close>

lemma submit_step:
  assumes inv: "sys_inv bpc s" and view: "same_view (ep s b) c" and prod: "producible (ep s b) (got_log s b) (sent_log s b) c"
    and m: "msg_ok (ep s b) (got_log s b) (sent_log s b) m" and sub: "submit_send_task m c = (r, d)"
  shows "sys_inv bpc (set_ep b d s)"
proof (rule neutral_step [OF inv])
  have o: "only_tasks c d" using submit_only_tasks [of c m] sub by simp
  show "same_view (ep s b) d" using same_view_trans [OF view only_tasks_view [OF o]] .
  show "producible (ep s b) (got_log s b) (sent_log s b) d"
    using prod m submit_tasks [of m c] sub only_tasks_fields(11) [OF o]
    by (auto simp: producible_def)
qed

lemma send_round_step:
  assumes inv: "sys_inv bpc s" and pop: "mq_pop False id (send_msgs (ep s b)) = (Some m, q)"
    and sub: "submit_send_task m ((ep s b)\<lparr>send_msgs := q\<rparr>) = (r, c)"
  shows "sys_inv bpc (set_ep b c s)"
proof -
  have q: "msg_queue (send_msgs (ep s b)) = m # msg_queue q"
    using pop by (auto simp: mq_pop_def Let_def split: list.splits)
  have prod: "producible (ep s b) (got_log s b) (sent_log s b) (ep s b)"
    using sys_invD(1) [OF inv, of b] by (simp add: snd_inv_def)
  show ?thesis
  proof (rule submit_step [OF inv _ _ _ sub])
    show "same_view (ep s b) ((ep s b)\<lparr>send_msgs := q\<rparr>)" by (simp add: same_view_def)
    show "producible (ep s b) (got_log s b) (sent_log s b) ((ep s b)\<lparr>send_msgs := q\<rparr>)"
      "msg_ok (ep s b) (got_log s b) (sent_log s b) m"
      using prod q by (auto simp: producible_def)
  qed
qed

lemma task_end_step:
  assumes inv: "sys_inv bpc s"
  shows "sys_inv bpc (set_ep b (end_send_task m (ep s b)) s)"
proof (rule neutral_step [OF inv])
  show "same_view (ep s b) (end_send_task m (ep s b))"
    by (simp add: same_view_def end_send_task_def)
  have "set (remove1 m (send_tasks (ep s b))) \<subseteq> set (send_tasks (ep s b))" by (rule set_remove1_subset)
  then show "producible (ep s b) (got_log s b) (sent_log s b) (end_send_task m (ep s b))"
    using sys_invD(1) [OF inv, of b] by (auto simp: snd_inv_def producible_def end_send_task_def)
qed

lemma transmit_task_step:
  assumes inv: "sys_inv bpc s" and m: "m \<in> set (send_tasks (ep s b))"
    and rqs: "send_impl_requests (lnk bpc b) par (msg_key m) (msg_value m) = Inr rqs" "rq \<in> set rqs"
  shows "sys_inv bpc (transmit b rq s)"
proof -
  have "msg_ok (ep s b) (got_log s b) (sent_log s b) m"
    using sys_invD(1) [OF inv, of b] m by (simp add: snd_inv_def producible_def)
  then have "rq_ok bpc b (ep s b) (got_log s b) (sent_log s b) rq" using rqs unfolding rq_ok_def by blast
  then show ?thesis by (rule transmit_step [OF inv])
qed

lemma test_send_step:
  assumes inv: "sys_inv bpc s" and send: "test_send (lnk bpc b) (rank_of b) (ep s b) = (Inr rqs, c)"
    and rq: "rq \<in> set rqs"
  shows "sys_inv bpc (transmit b rq s)"
proof -
  have "rqs = [pack_mono_request (lnk bpc b) (build_channel_key (connect_key (rank_of b)) 0) []]"
    using send
    by (auto simp: test_send_def send_guard_def proc_simps send_impl_requests_def split: if_splits)
  then have "rq_ok bpc b (ep s b) (got_log s b) (sent_log s b) rq" using rq by (auto simp: rq_ok_def)
  then show ?thesis by (rule transmit_step [OF inv])
qed

lemma closing_step:
  assumes inv: "sys_inv bpc s"
  shows "sys_inv bpc (set_ep b ((ep s b)\<lparr>waiting_finish := True\<rparr>) s)" (is "sys_inv bpc (set_ep b ?d s)")
proof (rule sys_inv_local [OF inv, of b])
  let ?c = "ep s b" and ?g = "got_log s b" and ?sl = "sent_log s b"
  note D = sys_invD [OF inv, of b]
  have "consumed ?c ?g j \<Longrightarrow> consumed ?d ?g j" for j by (auto simp: consumed_def unread_ids_def)
  then show e: "ext ?c ?g ?sl (ep (set_ep b ?d s) b) (got_log (set_ep b ?d s) b) (sent_log (set_ep b ?d s) b)" by (simp add: ext_def)
  show "snd_inv bpc b (ep (set_ep b ?d s) b) (got_log (set_ep b ?d s) b) (sent_log (set_ep b ?d s) b) (net (set_ep b ?d s) b)"
    using D(1) producible_mono [OF e] rq_ok_mono [OF e] producible_cong [of ?d ?c]
    by (simp add: snd_inv_def log_inv_def)
  have "db_inv ?d (sent_log s (\<not> b))" "got_inv ?d (sent_log s (\<not> b)) (got_log s b)" "chunks_ok bpc ?d (sent_log s (\<not> b))"
    "ack_inv ?d (ep s (\<not> b)) (got_log s (\<not> b))"
    using D(2) by (simp_all add: rcv_inv_def db_inv_def got_inv_def chunks_ok_def unread_ids_def ack_inv_def)
  then show "rcv_inv bpc (ep (set_ep b ?d s) b) (ep s (\<not> b)) (got_log s (\<not> b)) (sent_log s (\<not> b)) (got_log (set_ep b ?d s) b)"
    by (simp add: rcv_inv_def)
  show "ph_inv (ep (set_ep b ?d s) b) (ep s (\<not> b)) (phase (set_ep b ?d s) b)"
    using D(3) by (simp add: ph_inv_def)
qed (simp add: same_side_def)

lemma ack_unread_step:
  assumes inv: "sys_inv bpc s" and fin: "waiting_finish (ep s b)"
    and msgs: "set msgs \<subseteq> set (recv_msgs (ep s b))"
  shows "sys_inv bpc (set_ep b (snd (pmap_list (\<lambda>(k, v, i). send_ack i) msgs (ep s b))) s)"
    (is "sys_inv bpc (set_ep b ?d s)")
proof (rule neutral_step [OF inv])
  let ?c = "ep s b"
  have o: "only_tasks ?c ?d" by (rule ack_list_only_tasks)
  then show "same_view ?c ?d" by (rule only_tasks_view)
  have db: "db_inv ?c (sent_log s (\<not> b))" using sys_invD(2) [OF inv, of b] by (simp add: rcv_inv_def)
  then have wf: "om_wf (recv_msgs ?c)" by (simp add: db_inv_def)
  have "msg_ok ?c (got_log s b) (sent_log s b) (ack_msg i)" if "(k, v, i) \<in> set msgs" "i \<noteq> 0" for k v i
  proof -
    have "map_of (recv_msgs ?c) k = Some (v, i)" using that(1) msgs om_wf_in_iff [OF wf] by blast
    then have "i \<in> seg_abs (received_msg_ids ?c)" using db that(2) by (simp add: db_inv_def)
    moreover from this have "i \<noteq> - 1" using max_not_in_seg_set by (auto simp: seg_abs_def)
    ultimately have "consumed ?c (got_log s b) i" using that(2) fin by (simp add: consumed_def)
    then show ?thesis by (auto simp: msg_ok_def)
  qed
  moreover have "producible ?c (got_log s b) (sent_log s b) ?c"
    using sys_invD(1) [OF inv, of b] by (simp add: snd_inv_def)
  ultimately show "producible ?c (got_log s b) (sent_log s b) ?d"
    using ack_list_tasks [of msgs ?c] only_tasks_fields(11) [OF o]
    by (auto simp: producible_def)
qed

lemma clear_step:
  assumes inv: "sys_inv bpc s"
  shows "sys_inv bpc (set_ep b ((ep s b)\<lparr>recv_msgs := []\<rparr>) s)"
proof -
  let ?c = "ep s b"
  have db: "db_inv ?c (sent_log s (\<not> b))" using sys_invD(2) [OF inv, of b] by (simp add: rcv_inv_def)
  have "sys_inv bpc (set_ep b (?c\<lparr>received_msg_ids := received_msg_ids ?c, recv_msgs := []\<rparr>) s)"
    by (rule db_step [OF inv]) (use db in \<open>auto simp: db_inv_def unread_ids_def\<close>)
  then show ?thesis by simp
qed

lemma stop_receiving_step:
  assumes inv: "sys_inv bpc s" and stop: "stop_receiving_and_ack_unread_msgs (ep s b) = (r, c)"
  shows "sys_inv bpc (set_ep b c s) \<and> waiting_finish c \<and> (r = Inr () \<longrightarrow> recv_msgs c = [])"
proof -
  let ?c1 = "(ep s b)\<lparr>waiting_finish := True\<rparr>"
  obtain q c2 where acks: "pmap_list (\<lambda>(k, v, i). send_ack i) (recv_msgs (ep s b)) ?c1 = (q, c2)" by force
  then have c: "c = (case q of Inl e \<Rightarrow> c2 | Inr _ \<Rightarrow> c2\<lparr>recv_msgs := []\<rparr>)" "r = Inr () \<Longrightarrow> q = Inr ()"
    using stop
    by (auto simp: stop_receiving_and_ack_unread_msgs_def proc_simps split: sum.splits)
  have one: "sys_inv bpc (set_ep b ?c1 s)" by (rule closing_step [OF inv])
  have two: "sys_inv bpc (set_ep b c2 s)"
    using ack_unread_step [OF one, of b "recv_msgs (ep s b)"] acks by simp
  then have three: "sys_inv bpc (set_ep b (c2\<lparr>recv_msgs := []\<rparr>) s)"
    using clear_step [OF two, of b] by simp
  have "waiting_finish c2"
    using only_tasks_fields(3) [OF ack_list_only_tasks [of ?c1 "recv_msgs (ep s b)"]] acks by simp
  with two three c show ?thesis by (simp split: sum.splits)
qed

lemma fin_msg_step:
  assumes inv: "sys_inv bpc s" and ph: "phase s b = Stopped" and fin: "send_fin (ep s b) = (r, c)"
  shows "sys_inv bpc (set_ep b c s) \<and> waiting_finish c \<and> recv_msgs c = []"
proof -
  have wf: "waiting_finish (ep s b)" using sys_invD(3) [OF inv, of b] ph by (simp add: ph_inv_def)
  have sub: "submit_send_task (fin_msg (msg_seq_id (ep s b))) (ep s b) = (r, c)"
    using fin by (simp add: send_fin_def fin_msg_def proc_simps)
  have "sys_inv bpc (set_ep b c s)"
    by (rule submit_step [OF inv _ _ _ sub])
      (use sys_invD(1) [OF inv, of b] wf in \<open>auto simp: same_view_def snd_inv_def msg_ok_def\<close>)
  moreover have "waiting_finish c" "recv_msgs c = []"
    using only_tasks_fields(1,3) [OF submit_only_tasks [of "ep s b" "fin_msg (msg_seq_id (ep s b))"]] sub wf
      closed_db(1) [OF inv, of b] ph by simp_all
  ultimately show ?thesis by simp
qed

lemma seg_complete:
  assumes "seg_inv ids" "\<not> ids_incomplete ids n"
  shows "{1..n} \<subseteq> seg_abs ids"
  using assms st.all_received [of ids n] by (simp add: ids_incomplete_def)

lemma flown_step:
  assumes inv: "sys_inv bpc s" and ph: "phase s b = Closing" and fin: "\<not> fin_missing (ep s b)"
    and fly: "peer_sent_msg_count (ep s b) = 0 \<or> \<not> msgs_flying (ep s b)"
  shows "sys_inv bpc (set_phase b Flown s)"
proof (rule phase_step [OF inv])
  note D = sys_invD [OF inv, of b]
  have peer: "waiting_finish (ep s (\<not> b))" "peer_sent_msg_count (ep s b) = msg_seq_id (ep s (\<not> b))"
    using D(2) fin by (auto simp: rcv_inv_def ack_inv_def fin_missing_def)
  have "{1..msg_seq_id (ep s (\<not> b))} \<subseteq> seg_abs (received_msg_ids (ep s b))"
    using fly
  proof
    assume "peer_sent_msg_count (ep s b) = 0"
    then show ?thesis using peer(2) by auto
  next
    assume "\<not> msgs_flying (ep s b)"
    then show ?thesis
      using D(2) seg_complete peer(2) by (simp add: msgs_flying_def rcv_inv_def db_inv_def)
  qed
  then show "ph_inv (ep s b) (ep s (\<not> b)) Flown"
    using D(3) ph peer(1) by (simp add: ph_inv_def)
qed

lemma done_step:
  assumes inv: "sys_inv bpc s" and ph: "phase s b = Joined"
    and acks: "msg_seq_id (ep s b) = 0 \<or> \<not> ids_incomplete (received_ack_ids (ep s b)) (msg_seq_id (ep s b))"
  shows "sys_inv bpc (set_phase b Done s)"
proof (rule phase_step [OF inv])
  note D = sys_invD [OF inv, of b]
  have "{1..msg_seq_id (ep s b)} \<subseteq> seg_abs (received_ack_ids (ep s b))"
    using acks D(2) seg_complete by (auto simp: rcv_inv_def ack_inv_def)
  then show "ph_inv (ep s b) (ep s (\<not> b)) Done"
    using D(3) ph by (simp add: ph_inv_def)
qed

lemma neutral_field:
  assumes inv: "sys_inv bpc s" and "same_view (ep s b) c"
    and "msg_queue (send_msgs c) = msg_queue (send_msgs (ep s b))" "send_tasks c = send_tasks (ep s b)"
  shows "sys_inv bpc (set_ep b c s)"
  using assms(2-4) sys_invD(1) [OF inv, of b]
  by (intro neutral_step [OF inv]) (auto simp: snd_inv_def producible_def)

lemma recv_calls_inv: "sys_inv bpc (set_recv_calls b ks s) = sys_inv bpc s"
  by (simp add: sys_inv_def side_inv_def)

lemma sys_step_inv:
  assumes "sys_step atoi bpc s s'" "sys_inv bpc s" "atoi_ok atoi" "bpc \<ge> 20"
  shows "sys_inv bpc s'"
  using assms(1,2)
proof (cases rule: sys_step.cases)
  case (client_send k v b c)
  then show ?thesis using client_send_step [OF assms(2) client_send(2-4)] by simp
next
  case (client_recv k b v i c r d)
  then show ?thesis using client_recv_step [OF assms(2) client_recv(3,4)] recv_calls_inv by simp
next
  case (test_send b rqs c rq)
  then show ?thesis using test_send_step [OF assms(2) test_send(2,3)] by simp
next
  case (send_round b m q r c)
  then show ?thesis using send_round_step [OF assms(2) send_round(2,3)] by simp
next
  case (task_transmit m b rqs rq)
  then show ?thesis using transmit_task_step [OF assms(2) task_transmit(2,4,5)] by simp
next
  case (task_end m b)
  then show ?thesis using task_end_step [OF assms(2)] by simp
next
  case (deliver rq b r c)
  then show ?thesis using deliver_step [OF assms(2-4) deliver(2)] by simp
next
  case (stop_receiving b r c)
  have one: "sys_inv bpc (set_ep b c s)" "waiting_finish c" "r = Inr () \<Longrightarrow> recv_msgs c = []"
    using stop_receiving_step [OF assms(2) stop_receiving(4)] by auto
  show ?thesis
    unfolding stop_receiving(1)
    using phase_step [OF one(1), of b] one(2,3) by (simp add: ph_inv_def)
next
  case (close_fin b r c)
  have one: "sys_inv bpc (set_ep b c s)" "waiting_finish c" "recv_msgs c = []"
    using fin_msg_step [OF assms(2) close_fin(2,3)] by auto
  show ?thesis
    unfolding close_fin(1)
    using phase_step [OF one(1), of b] one(2,3) by (simp add: ph_inv_def)
next
  case (fin_and_msgs_arrived b)
  then show ?thesis using flown_step [OF assms(2) fin_and_msgs_arrived(2-4)] by simp
next
  case (stop_sending b)
  have one: "sys_inv bpc (set_ep b (stop_send_thread (ep s b)) s)"
    by (rule neutral_field [OF assms(2)])
      (simp_all add: same_view_def stop_send_thread_def mq_empty_notify_def)
  show ?thesis
    unfolding stop_sending(1)
    using phase_step [OF one, of b Draining] sys_invD(3) [OF one, of b] stop_sending(2)
    by (simp add: ph_inv_def)
next
  case (sends_finished b)
  then show ?thesis
    using phase_step [OF assms(2), of b Joined] sys_invD(3) [OF assms(2), of b]
    by (simp add: ph_inv_def)
next
  case (acks_arrived b)
  then show ?thesis using done_step [OF assms(2) acks_arrived(2,3)] by simp
qed (simp_all add: recv_calls_inv neutral_field same_view_def abort_channel_def stop_send_thread_def mq_empty_notify_def)

lemma sys_init_inv: "sys_inv bpc (sys_init timeout_ms opts)"
  unfolding sys_inv_def side_inv_def sys_init_def new_channel_def
  by (auto simp: snd_inv_def log_inv_def producible_def rcv_inv_def db_inv_def got_inv_def ack_inv_def
      chunks_ok_def ph_inv_def st.inv_empty st.abs_empty)

lemma reachable_inv:
  assumes "reachable atoi bpc s" "atoi_ok atoi" "bpc \<ge> 20"
  shows "sys_inv bpc s"
  using assms(1)
  by induction (use assms(2,3) in \<open>auto simp: sys_init_inv intro: sys_step_inv\<close>)

subsection \<open>The fate of acknowledged messages\<close>

lemma send_ack_waiting: "waiting_finish (snd (send_ack i c)) = waiting_finish c"
  by (rule only_tasks_fields(3) [OF send_ack_only_tasks])

lemma store_waiting: "waiting_finish (snd (store_message k i v c)) = waiting_finish c"
  by (simp add: store_message_def Let_def case_prod_beta send_ack_waiting)

lemma on_message_waiting: "waiting_finish (snd (on_message atoi key v c)) = waiting_finish c"
  using store_waiting
  by (auto simp: on_message_def on_normal_message_def proc_simps split: sum.splits prod.splits)

lemma on_chunked_waiting: "waiting_finish (snd (on_chunked_message atoi key v off n c)) = waiting_finish c"
  by (auto simp: on_chunked_message_def on_message_waiting rbind_def split: option.splits sum.splits)

lemma on_request_waiting: "waiting_finish (snd (on_request L atoi rq c)) = waiting_finish c"
proof -
  have "waiting_finish d = waiting_finish c" if "on_message atoi key v c = (r, d)" for key v r d
    using on_message_waiting [of atoi key v c] that by simp
  moreover have "waiting_finish d = waiting_finish c" if "on_chunked_message atoi key v off n c = (r, d)" for key v off n r d
    using on_chunked_waiting [of atoi key v off n c] that by simp
  ultimately show ?thesis
    by (auto simp: on_request_def proc_simps split: sum.splits prod.splits)
qed

lemma closing_phase:
  assumes "reachable atoi bpc s"
  shows "waiting_finish (ep s b) \<Longrightarrow> phase s b \<noteq> Open"
  using assms
proof (induction arbitrary: b)
  case (init timeout_ms opts)
  then show ?case by (simp add: sys_init_def new_channel_def)
next
  case (step s s')
  from step.hyps(2) show ?case
  proof (cases rule: sys_step.cases)
    case (client_send k v d c)
    then show ?thesis
      using step.IH step.prems 
      by (auto simp: send_async_def send_guard_def proc_simps next_seq_id_def push_msg_def split: if_splits sum.splits)
  next
    case (client_recv k d v i c r e)
    have "waiting_finish e = waiting_finish (ep s d)"
      using client_recv(3,4) send_ack_waiting [of i c] by (auto simp: take_msg_def split: option.splits)
    then show ?thesis using step.IH step.prems client_recv(1) by (auto split: if_splits)
  next
    case (send_round d m q r c)
    then show ?thesis
      using step.IH step.prems only_tasks_fields(3) [OF submit_only_tasks [of "(ep s d)\<lparr>send_msgs := q\<rparr>" m]] by (auto split: if_splits)
  next
    case (deliver rq d r c)
    then show ?thesis
      using step.IH step.prems on_request_waiting [of "lnk bpc d" atoi rq "ep s d"] by (auto split: if_splits)
  next
    case (close_fin d r c)
    then show ?thesis using step.IH step.prems by (auto split: if_splits)
  qed (use step.IH step.prems in \<open>auto simp: end_send_task_def abort_channel_def stop_send_thread_def split: if_splits\<close>)
qed

lemma acked_fate:
  assumes r: "reachable atoi bpc s" "atoi_ok atoi" "bpc \<ge> 20" and i: "i \<in> seg_abs (received_ack_ids (ep s b))"
  obtains k v where "sent_log s b i = Some (k, v)" "i \<in> seg_abs (received_msg_ids (ep s (\<not> b)))"
    "(i, k, v) \<in> set (got_log s (\<not> b)) \<or> waiting_finish (ep s (\<not> b))"
    "i \<notin> unread_ids (ep s (\<not> b)) \<or> phase s (\<not> b) = Failed"
proof -
  note inv = reachable_inv [OF r]
  note D = sys_invD(2) [OF inv, of "\<not> b", simplified]
  have c: "consumed (ep s (\<not> b)) (got_log s (\<not> b)) i"
    using sys_invD(2) [OF inv, of b] i by (simp add: rcv_inv_def ack_inv_def)
  then have rcvd: "i \<in> seg_abs (received_msg_ids (ep s (\<not> b)))" by (simp add: consumed_def)
  then obtain k v where sent: "sent_log s b i = Some (k, v)"
    using D by (auto simp: rcv_inv_def db_inv_def)
  have got: "(i, k, v) \<in> set (got_log s (\<not> b)) \<and> i \<notin> unread_ids (ep s (\<not> b))" if "i \<in> fst ` set (got_log s (\<not> b))"
    using that D sent unfolding rcv_inv_def got_inv_def by fastforce
  have closed: "i \<notin> unread_ids (ep s (\<not> b)) \<or> phase s (\<not> b) = Failed" if "waiting_finish (ep s (\<not> b))"
    using closed_db(1) [OF inv, of "\<not> b"] closing_phase [OF r(1) that] by (auto simp: unread_ids_def)
  show thesis
    using that [OF sent rcvd] c got closed by (auto simp: consumed_def)
qed

subsection \<open>Links that carry less than an acknowledgement\<close>

lemma ack_requests:
  assumes "0 < unat bpc" "unat bpc < length (to_string (unat i))" "length (to_string (unat i)) \<le> 2 * unat bpc"
  shows "send_impl_requests (lnk bpc b) par kAckKey (msg_value (ack_msg i)) = Inr rqs \<Longrightarrow>
    rqs = [pack_chunked_request (lnk bpc b) kAckKey (take (unat bpc) (msg_value (ack_msg i))) 0 (of_nat (length (to_string (unat i)))),
           pack_chunked_request (lnk bpc b) kAckKey (drop (unat bpc) (msg_value (ack_msg i))) bpc (of_nat (length (to_string (unat i))))]"
proof -
  assume send: "send_impl_requests (lnk bpc b) par kAckKey (msg_value (ack_msg i)) = Inr rqs"
  let ?v = "msg_value (ack_msg i)" and ?n = "unat bpc"
  have lv: "length ?v = length (to_string (unat i))" by (simp add: ack_msg_def)
  have small: "length ?v \<le> 20" using to_string_u64_length lv by simp
  then have n: "unat (of_nat (length ?v) :: u64) = length ?v" by (intro unat_of_nat_small) simp
  have big: "of_nat (length ?v) > bpc" using assms(2) n lv by (simp add: word_less_nat_alt)
  have cnt: "unat (num_chunks bpc (of_nat (length ?v))) = 2"
  proof -
    have "unat (num_chunks bpc (of_nat (length ?v))) = chunk_count ?n (length ?v)"
      using assms small lv by (intro num_chunks_nat) (simp_all add: word_less_nat_alt)
    also have "\<dots> = 2"
    proof -
      have "length ?v + ?n - 1 = 2 * ?n + (length ?v - ?n - 1)" "length ?v - ?n - 1 < ?n" using assms lv by auto
      then show ?thesis using assms(1) unfolding chunk_count_def by (metis add_cancel_right_right div_less div_mult_self3 less_not_refl2)
    qed
    finally show ?thesis .
  qed
  have "chunk_request (lnk bpc b) kAckKey ?v 0 = pack_chunked_request (lnk bpc b) kAckKey (take ?n ?v) 0 (of_nat (length ?v))"
    using chunk_request_eq [of "lnk bpc b" ?v 0 kAckKey] assms lv small by (simp add: lnk_def chunk_bytes_def)
  moreover have "chunk_request (lnk bpc b) kAckKey ?v 1 = pack_chunked_request (lnk bpc b) kAckKey (drop ?n ?v) bpc (of_nat (length ?v))"
    using chunk_request_eq [of "lnk bpc b" ?v 1 kAckKey] assms lv small by (simp add: lnk_def chunk_bytes_def)
  ultimately show "rqs = [pack_chunked_request (lnk bpc b) kAckKey (take ?n ?v) 0 (of_nat (length (to_string (unat i)))),
           pack_chunked_request (lnk bpc b) kAckKey (drop ?n ?v) bpc (of_nat (length (to_string (unat i))))]"
    using send big cnt lv
    by (auto simp: send_impl_requests_def send_chunked_requests_def chunk_requests_def lnk_def upt_rec split: if_splits)
qed

text \<open>The first chunk of the acknowledgement of \<open>i\<close> and the second chunk of that of \<open>j\<close>, delivered one after the other,
  acknowledge the id \<open>x\<close> whose digits they are, although nobody has acknowledged \<open>x\<close>.\<close>

theorem ack_chunks_mix:
  fixes b :: bool
  defines "v \<equiv> \<lambda>i. to_string (unat (i :: u64))"
  assumes atoi: "atoi_ok atoi" and len: "length (v j) = length (v i)" "unat bpc < length (v i)" "length (v i) \<le> 2 * unat bpc"
    and mix: "v x = take (unat bpc) (v i) @ drop (unat bpc) (v j)"
    and c: "map_of (chunked_values c) kAckKey = None" "\<not> aborting c"
    and i: "send_impl_requests (lnk bpc (\<not> b)) par kAckKey (msg_value (ack_msg i)) = Inr rqs"
    and j: "send_impl_requests (lnk bpc (\<not> b)) par kAckKey (msg_value (ack_msg j)) = Inr rqs'"
  shows "received_ack_ids (snd (on_request (lnk bpc b) atoi (rqs' ! 1) (snd (on_request (lnk bpc b) atoi (rqs ! 0) c)))) =
    snd (seg_insert x (received_ack_ids c))"
proof -
  let ?n = "unat bpc" and ?L = "of_nat (length (v i)) :: u64"
  have n: "0 < ?n" using len by linarith
  have small: "length (v i) \<le> 20" using to_string_u64_length by (simp add: v_def)
  have uL: "unat ?L = length (v i)" using small by (intro unat_of_nat_small) simp
  have un: "(of_nat ?n :: u64) = bpc" by simp
  note rqs = ack_requests [OF n _ _ i] ack_requests [OF n _ _ j]
  let ?p = "take ?n (str_bytes (v i))" and ?q = "drop ?n (str_bytes (v j))"
  let ?cm = "\<lparr>cm_received = [0], cm_bytes_written = bpc, cm_message = ?p @ replicate (length (v i) - ?n) 0\<rparr>"
  let ?cm' = "\<lparr>cm_received = [bpc, 0], cm_bytes_written = ?L, cm_message = ?p @ ?q\<rparr>"
  have lens: "length ?p = ?n" "length ?q = length (v i) - ?n" using len by simp_all
  have fits: "\<not> 0 + of_nat (length ?p) > ?L" "\<not> bpc + of_nat (length ?q) > ?L"
  proof -
    have "bpc + of_nat (length ?q) = ?L" using len lens un by (metis le_add_diff_inverse less_imp_le_nat of_nat_add)
    then show "\<not> bpc + of_nat (length ?q) > ?L" by simp
    show "\<not> 0 + of_nat (length ?p) > ?L" using len lens(1) uL by (simp add: word_less_nat_alt)
  qed
  have "new_chunked_message ?L = Inr \<lparr>cm_received = [], cm_bytes_written = 0, cm_message = replicate (length (v i)) 0\<rparr>"
    using chunk_inv_new [of "str_bytes (v i)" 1] small uL by (auto simp: new_chunked_message_def enforce_def)
  moreover have "add_chunk 0 ?p \<lparr>cm_received = [], cm_bytes_written = 0, cm_message = replicate (length (v i)) 0\<rparr> = Inr ?cm"
    using len lens un by (simp add: add_chunk_def mem_copy_def)
  moreover have "\<not> is_fully_filled ?cm"
    using len un uL by (auto simp: is_fully_filled_def word_unat_eq_iff)
  ultimately have first: "on_chunked_message atoi kAckKey ?p 0 ?L c =
      (Inr (), c\<lparr>chunked_values := om_update kAckKey ?cm (snd (om_emplace kAckKey \<lparr>cm_received = [], cm_bytes_written = 0, cm_message = replicate (length (v i)) 0\<rparr> (chunked_values c)))\<rparr>)"
    using fits(1) c(1) by (simp add: on_chunked_message_def)
  let ?m = "\<lparr>cm_received = [], cm_bytes_written = 0, cm_message = replicate (length (v i)) (0 :: u8)\<rparr>"
  define c1 where "c1 = c\<lparr>chunked_values := om_update kAckKey ?cm (snd (om_emplace kAckKey ?m (chunked_values c)))\<rparr>"
  have c1: "map_of (chunked_values c1) kAckKey = Some ?cm" "received_ack_ids c1 = received_ack_ids c" "\<not> aborting c1"
    using c by (simp_all add: c1_def)
  have sum: "bpc + of_nat (length ?q) = ?L" using len lens un by (metis le_add_diff_inverse less_imp_le_nat of_nat_add)
  have "bpc \<noteq> 0" using n by (simp add: unat_gt_0)
  then have "add_chunk bpc ?q ?cm = Inr ?cm'"
    using lens sum len by (simp add: add_chunk_def mem_copy_def)
  moreover have "is_fully_filled ?cm'" using lens len by (simp add: is_fully_filled_def)
  moreover have "reassemble ?cm' = str_bytes (v x)" by (simp add: reassemble_def mix str_bytes_def take_map drop_map)
  ultimately have "on_chunked_message atoi kAckKey ?q bpc ?L c1 =
      on_message atoi kAckKey (str_bytes (v x)) (c1\<lparr>chunked_values := om_erase kAckKey (chunked_values c1)\<rparr>)"
    using fits(2) c1(1) by (simp add: on_chunked_message_def)
  then have second: "received_ack_ids (snd (on_chunked_message atoi kAckKey ?q bpc ?L c1)) = snd (seg_insert x (received_ack_ids c))"
    using on_message_ack [OF atoi, of x] c1(2) by (simp add: v_def)
  have "rqs ! 0 = pack_chunked_request (lnk bpc (\<not> b)) kAckKey ?p 0 ?L" "rqs' ! 1 = pack_chunked_request (lnk bpc (\<not> b)) kAckKey ?q bpc ?L"
    using rqs len by (simp_all add: v_def ack_msg_def)
  then show ?thesis
    using first second c(2) c1(3) by (simp add: on_request_chunked flip: c1_def)
qed

end
