(* ===== verification/Channel_Properties.thy ===== *)
theory Channel_Properties
  imports Channel_System
begin

text \<open>
  What two connected channels guarantee their clients: exactly-once delivery of unaltered messages,
  the meaning of an acknowledgement and of a completed \<open>WaitLinkTaskFinish\<close>, the throttle window, and
  the behaviour of a blocking \<open>Recv\<close>. The first part is a complete run of the system, at which the
  theorems are then applied.

  The theorems on two connected channels are for links that carry at least 20 bytes in one request; see
  \<open>ack_chunks_mix\<close> in theory \<open>Channel_System\<close> for what happens below.
\<close>

subsection \<open>A run\<close>

definition demo_state where
  "demo_state a b na nb sa gb pa pb rc =
     \<lparr>ep = (\<lambda>x. if x then b else a), net = (\<lambda>x. if x then nb else na),
      sent_log = (\<lambda>x. if x then (\<lambda>_. None) else sa), got_log = (\<lambda>x. if x then gb else []),
      phase = (\<lambda>x. if x then pb else pa), recv_calls = (\<lambda>x. if x then rc else [])\<rparr>"

lemma demo_simps [simp]:
  "ep (demo_state a b na nb sa gb pa pb rc) x = (if x then b else a)"
  "net (demo_state a b na nb sa gb pa pb rc) x = (if x then nb else na)"
  "phase (demo_state a b na nb sa gb pa pb rc) x = (if x then pb else pa)"
  "sent_log (demo_state a b na nb sa gb pa pb rc) False = sa"
  "sent_log (demo_state a b na nb sa gb pa pb rc) True = (\<lambda>_. None)"
  "got_log (demo_state a b na nb sa gb pa pb rc) True = gb"
  "set_ep False c (demo_state a b na nb sa gb pa pb rc) = demo_state c b na nb sa gb pa pb rc"
  "set_ep True c (demo_state a b na nb sa gb pa pb rc) = demo_state a c na nb sa gb pa pb rc"
  "set_phase False p (demo_state a b na nb sa gb pa pb rc) = demo_state a b na nb sa gb p pb rc"
  "set_phase True p (demo_state a b na nb sa gb pa pb rc) = demo_state a b na nb sa gb pa p rc"
  "transmit False rq (demo_state a b na nb sa gb pa pb rc) = demo_state a b (insert rq na) nb sa gb pa pb rc"
  "transmit True rq (demo_state a b na nb sa gb pa pb rc) = demo_state a b na (insert rq nb) sa gb pa pb rc"
  "log_sent False i y (demo_state a b na nb sa gb pa pb rc) = demo_state a b na nb (sa(i \<mapsto> y)) gb pa pb rc"
  "log_got True z (demo_state a b na nb sa gb pa pb rc) = demo_state a b na nb sa (gb @ [z]) pa pb rc"
  "recv_calls (demo_state a b na nb sa gb pa pb rc) True = rc"
  "set_recv_calls True ks (demo_state a b na nb sa gb pa pb rc) = demo_state a b na nb sa gb pa pb ks"
  by (simp_all add: demo_state_def set_recv_calls_def set_ep_def set_phase_def transmit_def log_sent_def log_got_def fun_eq_iff)

definition "demo_c0 = new_channel 1000 False default_retry_options"
definition "demo_m = \<lparr>seq_id = 1, msg_key = build_channel_key ''k'' 1, msg_value = [7]\<rparr>"
definition "demo_rq = pack_mono_request (lnk 20 False) (msg_key demo_m) (msg_value demo_m)"
definition "demo_ack = pack_mono_request (lnk 20 True) (msg_key (ack_msg 1)) (msg_value (ack_msg 1))"
definition "demo_fin_a = pack_mono_request (lnk 20 False) (msg_key (fin_msg 1)) (msg_value (fin_msg 1))"
definition "demo_fin_b = pack_mono_request (lnk 20 True) (msg_key (fin_msg 0)) (msg_value (fin_msg 0))"
definition "demo_a1 = snd (send_async ''k'' [7] demo_c0)"
definition "demo_a2 = snd (submit_send_task demo_m (demo_a1\<lparr>send_msgs := \<lparr>msg_queue = [], stopped = False\<rparr>\<rparr>))"
definition "demo_b1 = snd (on_request (lnk 20 True) dec_atoi demo_rq demo_c0)"
definition "demo_b2 = snd (take_msg ''k'' demo_b1)"
definition "demo_b3 = snd (send_ack 1 demo_b2)"
definition "demo_a3 = snd (on_request (lnk 20 False) dec_atoi demo_ack demo_a2)"
definition "demo_a4 = end_send_task demo_m demo_a3"
definition "demo_a5 = snd (stop_receiving_and_ack_unread_msgs demo_a4)"
definition "demo_a6 = snd (send_fin demo_a5)"
definition "demo_b4 = snd (stop_receiving_and_ack_unread_msgs demo_b3)"
definition "demo_b5 = snd (send_fin demo_b4)"
definition "demo_a7 = snd (on_request (lnk 20 False) dec_atoi demo_fin_b demo_a6)"
definition "demo_a8 = end_send_task (fin_msg 1) demo_a7"
definition "demo_a9 = stop_send_thread demo_a8"

lemma demo_seq: "msg_seq_id demo_a9 = 1"
  by code_simp

lemma demo_evals:
  "send_async ''k'' [7] demo_c0 = (Inr (), demo_a1)" "msg_seq_id demo_a1 = 1" "msg_seq_id demo_c0 < - 2"
  "mq_pop False id (send_msgs demo_a1) = (Some demo_m, \<lparr>msg_queue = [], stopped = False\<rparr>)"
  "fst (submit_send_task demo_m (demo_a1\<lparr>send_msgs := \<lparr>msg_queue = [], stopped = False\<rparr>\<rparr>)) = Inr ()"
  "demo_m \<in> set (send_tasks demo_a2)" "\<not> aborting demo_a2"
  "send_impl_requests (lnk 20 False) (chunk_parallel_send_size demo_a2) (msg_key demo_m) (msg_value demo_m) = Inr [demo_rq]"
  "\<not> aborting demo_b1" "normal_message_key_enforce ''k'' = Inr ()"
  "take_msg ''k'' demo_b1 = (Some ([7], 1), demo_b2)" "send_ack 1 demo_b2 = (Inr (), demo_b3)"
  "ack_msg 1 \<in> set (send_tasks demo_b3)" "\<not> aborting demo_b3"
  "send_impl_requests (lnk 20 True) (chunk_parallel_send_size demo_b3) (msg_key (ack_msg 1)) (msg_value (ack_msg 1)) = Inr [demo_ack]"
  "demo_m \<in> set (send_tasks demo_a3)"
  "\<not> aborting demo_a4" "fst (stop_receiving_and_ack_unread_msgs demo_a4) = Inr ()"
  "fst (send_fin demo_a5) = Inr ()"
  "fst (stop_receiving_and_ack_unread_msgs demo_b3) = Inr ()" "fst (send_fin demo_b4) = Inr ()"
  "fin_msg 0 \<in> set (send_tasks demo_b5)" "\<not> aborting demo_b5"
  "send_impl_requests (lnk 20 True) (chunk_parallel_send_size demo_b5) (msg_key (fin_msg 0)) (msg_value (fin_msg 0)) = Inr [demo_fin_b]"
  "fin_msg 1 \<in> set (send_tasks demo_a7)" "\<not> fin_missing demo_a8" "peer_sent_msg_count demo_a8 = 0"
  "msg_queue (send_msgs demo_a9) = []" "\<not> running_tasks (send_sync demo_a9) > 0"
  "\<not> ids_incomplete (received_ack_ids demo_a9) (msg_seq_id demo_a9)"
  by code_simp+


text \<open>The run: side \<open>False\<close> sends one message, it is read, both sides close.\<close>

lemma demo_delivered:
  "reachable dec_atoi 20 (demo_state demo_a2 demo_b3 {demo_rq} {} [1 \<mapsto> (''k'', [7])] [(1, ''k'', [7])] Open Open [])"
proof -
  let ?S = "demo_state" and ?sl = "[1 \<mapsto> (''k'', [7])] :: slog"
  have "sys_init 1000 default_retry_options = ?S demo_c0 demo_c0 {} {} (\<lambda>_. None) [] Open Open []"
    by (simp add: demo_state_def sys_init_def demo_c0_def fun_eq_iff)
  then have r0: "reachable dec_atoi 20 (?S demo_c0 demo_c0 {} {} (\<lambda>_. None) [] Open Open [])"
    by (metis reachable.init)
  have r1: "reachable dec_atoi 20 (?S demo_a1 demo_c0 {} {} ?sl [] Open Open [])"
    using reachable.step [OF r0 sys_step.client_send [of "''k''" "[7]" _ False demo_a1]] demo_evals(1-3) by simp
  have "submit_send_task demo_m (demo_a1\<lparr>send_msgs := \<lparr>msg_queue = [], stopped = False\<rparr>\<rparr>) = (Inr (), demo_a2)"
    using demo_evals(5) by (simp add: demo_a2_def prod_eq_iff)
  then have r2: "reachable dec_atoi 20 (?S demo_a2 demo_c0 {} {} ?sl [] Open Open [])"
    using reachable.step [OF r1 sys_step.send_round [of _ False]] demo_evals(4) by fastforce
  have r3: "reachable dec_atoi 20 (?S demo_a2 demo_c0 {demo_rq} {} ?sl [] Open Open [])"
    using reachable.step [OF r2 sys_step.task_transmit [of demo_m _ False _ "[demo_rq]" demo_rq]] demo_evals(6-8)
    by simp
  have r4: "reachable dec_atoi 20 (?S demo_a2 demo_b1 {demo_rq} {} ?sl [] Open Open [])"
    using reachable.step [OF r3 sys_step.deliver [of demo_rq _ True]] by (simp add: demo_b1_def prod_eq_iff)
  have r5: "reachable dec_atoi 20 (?S demo_a2 demo_b1 {demo_rq} {} ?sl [] Open Open [''k''])"
    using reachable.step [OF r4 sys_step.recv_call [of _ True "''k''"]] demo_evals(9,10) by simp
  show ?thesis
    using reachable.step [OF r5 sys_step.client_recv [of "''k''" _ True "[7]" 1 demo_b2 "Inr ()" demo_b3]]
      demo_evals(11,12) by simp
qed

lemma demo_closed:
  "reachable dec_atoi 20 (demo_state demo_a9 demo_b5 {demo_rq} {demo_fin_b, demo_ack}
     [1 \<mapsto> (''k'', [7])] [(1, ''k'', [7])] Done Closing [])"
proof -
  let ?S = "\<lambda>a b nb p q. demo_state a b {demo_rq} nb [1 \<mapsto> (''k'', [7])] [(1, ''k'', [7])] p q []"
  let ?R = "reachable dec_atoi 20"
  have r1: "?R (?S demo_a2 demo_b3 {demo_ack} Open Open)"
    using reachable.step [OF demo_delivered sys_step.task_transmit [of "ack_msg 1" _ True _ "[demo_ack]" demo_ack]]
      demo_evals(13-15) by simp
  have r2: "?R (?S demo_a3 demo_b3 {demo_ack} Open Open)"
    using reachable.step [OF r1 sys_step.deliver [of demo_ack _ False]] by (simp add: demo_a3_def prod_eq_iff)
  have r3: "?R (?S demo_a4 demo_b3 {demo_ack} Open Open)"
    using reachable.step [OF r2 sys_step.task_end [of demo_m _ False]] demo_evals(16) by (simp add: demo_a4_def)
  have r4: "?R (?S demo_a5 demo_b3 {demo_ack} Stopped Open)"
    using reachable.step [OF r3 sys_step.stop_receiving [of _ False "Inr ()" demo_a5]] demo_evals(17,18)
    by (simp add: demo_a5_def prod_eq_iff)
  have r5: "?R (?S demo_a6 demo_b3 {demo_ack} Closing Open)"
    using reachable.step [OF r4 sys_step.close_fin [of _ False "Inr ()" demo_a6]] demo_evals(19)
    by (simp add: demo_a6_def prod_eq_iff)
  have r6: "?R (?S demo_a6 demo_b4 {demo_ack} Closing Stopped)"
    using reachable.step [OF r5 sys_step.stop_receiving [of _ True "Inr ()" demo_b4]] demo_evals(14,20)
    by (simp add: demo_b4_def prod_eq_iff)
  have r7: "?R (?S demo_a6 demo_b5 {demo_ack} Closing Closing)"
    using reachable.step [OF r6 sys_step.close_fin [of _ True "Inr ()" demo_b5]] demo_evals(21)
    by (simp add: demo_b5_def prod_eq_iff)
  have r8: "?R (?S demo_a6 demo_b5 {demo_fin_b, demo_ack} Closing Closing)"
    using reachable.step [OF r7 sys_step.task_transmit [of "fin_msg 0" _ True _ "[demo_fin_b]" demo_fin_b]]
      demo_evals(22-24) by simp
  have r9: "?R (?S demo_a7 demo_b5 {demo_fin_b, demo_ack} Closing Closing)"
    using reachable.step [OF r8 sys_step.deliver [of demo_fin_b _ False]] by (simp add: demo_a7_def prod_eq_iff)
  have r10: "?R (?S demo_a8 demo_b5 {demo_fin_b, demo_ack} Closing Closing)"
    using reachable.step [OF r9 sys_step.task_end [of "fin_msg 1" _ False]] demo_evals(25) by (simp add: demo_a8_def)
  have r11: "?R (?S demo_a8 demo_b5 {demo_fin_b, demo_ack} Flown Closing)"
    using reachable.step [OF r10 sys_step.fin_and_msgs_arrived [of _ False]] demo_evals(26,27) by simp
  have r12: "?R (?S demo_a9 demo_b5 {demo_fin_b, demo_ack} Draining Closing)"
    using reachable.step [OF r11 sys_step.stop_sending [of _ False]] by (simp add: demo_a9_def)
  have r13: "?R (?S demo_a9 demo_b5 {demo_fin_b, demo_ack} Joined Closing)"
    using reachable.step [OF r12 sys_step.sends_finished [of _ False]] demo_evals(28,29) by simp
  show ?thesis
    using reachable.step [OF r13 sys_step.acks_arrived [of _ False]] demo_evals(30) by simp
qed

definition demo_mid :: sys where
  "demo_mid = demo_state demo_a2 demo_b3 {demo_rq} {} [1 \<mapsto> (''k'', [7])] [(1, ''k'', [7])] Open Open []"

definition demo_end :: sys where
  "demo_end = demo_state demo_a9 demo_b5 {demo_rq} {demo_fin_b, demo_ack} [1 \<mapsto> (''k'', [7])] [(1, ''k'', [7])] Done Closing []"

lemma demo_reached: "reachable dec_atoi 20 demo_mid" "reachable dec_atoi 20 demo_end"
  using demo_delivered demo_closed by (simp_all add: demo_mid_def demo_end_def)

subsection \<open>Guarantees\<close>

text \<open>C1: exactly-once, unaltered delivery. Whatever the transport does (delay, reordering,
  duplication by retries, loss, chunking) and however the calls of the two sides interleave, every
  message a client receives under a key was sent by the peer under that key with that value, and no
  message is received twice. A request carries at least 20 bytes.\<close>

theorem exactly_once_delivery:
  assumes "reachable atoi bpc s" "atoi_ok atoi" "bpc \<ge> 20"
  shows "distinct (map fst (got_log s b)) \<and>
    (\<forall>i k v. (i, k, v) \<in> set (got_log s b) \<longrightarrow> sent_log s (\<not> b) i = Some (k, v))"
  using sys_invD(2) [OF reachable_inv [OF assms], of b] by (simp add: rcv_inv_def got_inv_def)

theorem exactly_once_delivery_witness:
  "reachable dec_atoi 20 demo_mid \<and> got_log demo_mid True = [(1, ''k'', [7])] \<and>
   sent_log demo_mid False 1 = Some (''k'', [7])"
  using exactly_once_delivery [OF demo_reached(1) dec_atoi_ok, of True] demo_reached(1)
  by (simp add: demo_mid_def)

text \<open>C3: the FIN handshake is sound. Once a side has passed \<open>WaitForFinAndFlyingMsg\<close>, the peer will
  not send any more, and the side has received every message the peer ever sent and nothing else:
  the received ids are exactly \<open>1, \<dots>, n\<close> with \<open>n\<close> the peer's message counter. A request carries at least
  20 bytes.\<close>

theorem close_received_everything:
  assumes "reachable atoi bpc s" "atoi_ok atoi" "bpc \<ge> 20" "phase s b \<in> {Flown, Draining, Joined, Done}"
  shows "waiting_finish (ep s (\<not> b)) \<and>
    seg_abs (received_msg_ids (ep s b)) = {1..msg_seq_id (ep s (\<not> b))} \<and>
    seg_abs (received_msg_ids (ep s b)) = dom (sent_log s (\<not> b))"
proof -
  note inv = reachable_inv [OF assms(1-3)]
  have "{1..msg_seq_id (ep s (\<not> b))} \<subseteq> seg_abs (received_msg_ids (ep s b))"
    and wf: "waiting_finish (ep s (\<not> b))"
    using sys_invD(3) [OF inv, of b] assms(4) by (auto simp: ph_inv_def)
  moreover have "seg_abs (received_msg_ids (ep s b)) \<subseteq> dom (sent_log s (\<not> b))"
    using sys_invD(2) [OF inv, of b] by (simp add: rcv_inv_def db_inv_def)
  moreover have "dom (sent_log s (\<not> b)) = {1..msg_seq_id (ep s (\<not> b))}"
    using sys_invD(1) [OF inv, of "\<not> b"] unfolding snd_inv_def log_inv_def dom_def by blast
  ultimately show ?thesis by simp
qed

theorem close_received_everything_witness:
  "reachable dec_atoi 20 demo_end \<and> phase demo_end False = Done \<and>
   seg_abs (received_msg_ids (ep demo_end False)) = dom (sent_log demo_end True)"
  using close_received_everything [OF demo_reached(2) dec_atoi_ok, of False] demo_reached(2)
  by (simp add: demo_end_def) auto

text \<open>C4: a completed \<open>WaitLinkTaskFinish\<close> settles every message the side ever sent, on links that carry at
  least 20 bytes in a request: it is acknowledged, it has arrived at the peer, and the peer's client has received it
  or it was thrown away. It is not waiting in the peer's database any more, unless the peer's own
  \<open>WaitLinkTaskFinish\<close> ended in an exception before the database was cleared.\<close>

theorem finished_means_consumed:
  assumes "reachable atoi bpc s" "atoi_ok atoi" "bpc \<ge> 20" "phase s b = Done" "sent_log s b i = Some (k, v)"
  shows "i \<in> seg_abs (received_ack_ids (ep s b)) \<and> i \<in> seg_abs (received_msg_ids (ep s (\<not> b))) \<and>
    ((i, k, v) \<in> set (got_log s (\<not> b)) \<or> waiting_finish (ep s (\<not> b))) \<and>
    (i \<notin> unread_ids (ep s (\<not> b)) \<or> phase s (\<not> b) = Failed)"
proof -
  note inv = reachable_inv [OF assms(1-3)]
  have "i \<in> {1..msg_seq_id (ep s b)}"
    using sys_invD(1) [OF inv, of b] assms(5) unfolding snd_inv_def log_inv_def by blast
  moreover have "{1..msg_seq_id (ep s b)} \<subseteq> seg_abs (received_ack_ids (ep s b))"
    using sys_invD(3) [OF inv, of b] assms(4) by (simp add: ph_inv_def)
  ultimately have i: "i \<in> seg_abs (received_ack_ids (ep s b))" by blast
  from acked_fate [OF assms(1-3) i] assms(5) i show ?thesis by auto
qed

lemma demo_unread: "recv_msgs demo_b5 = []"
  by code_simp

theorem finished_means_consumed_witness:
  "reachable dec_atoi 20 demo_end \<and> phase demo_end False = Done \<and>
   sent_log demo_end False 1 = Some (''k'', [7]) \<and> 1 \<in> seg_abs (received_ack_ids (ep demo_end False)) \<and>
   1 \<in> seg_abs (received_msg_ids (ep demo_end True)) \<and> 1 \<notin> unread_ids (ep demo_end True)"
  using finished_means_consumed [OF demo_reached(2) dec_atoi_ok, of False 1 "''k''" "[7]"] demo_reached(2) demo_unread
  by (simp add: demo_end_def unread_ids_def)

text \<open>C19: an acknowledgement is never premature, on links that carry at least 20 bytes in a request: when an id is
  acknowledged, its message was sent and has arrived at the peer, and the peer's client has received it, with its
  key and value, unless the peer has begun to close. The message is not waiting to be read any more, unless the peer's
  \<open>WaitLinkTaskFinish\<close> ended in an exception before the unread messages were cleared.\<close>

theorem ack_not_premature:
  assumes "reachable atoi bpc s" "atoi_ok atoi" "bpc \<ge> 20" "i \<in> seg_abs (received_ack_ids (ep s b))"
  shows "\<exists>k v. sent_log s b i = Some (k, v) \<and> i \<in> seg_abs (received_msg_ids (ep s (\<not> b))) \<and>
    ((i, k, v) \<in> set (got_log s (\<not> b)) \<or> waiting_finish (ep s (\<not> b))) \<and>
    (i \<notin> unread_ids (ep s (\<not> b)) \<or> phase s (\<not> b) = Failed)"
  by (rule acked_fate [OF assms]) blast

lemma demo_acked: "1 \<in> seg_abs (received_ack_ids (ep demo_end False))"
proof -
  have "seg_inv (received_ack_ids demo_a9)"
    using sys_invD(2) [OF reachable_inv [OF demo_reached(2) dec_atoi_ok], of False]
    by (simp add: rcv_inv_def ack_inv_def demo_end_def)
  from seg_complete [OF this demo_evals(30)] show ?thesis by (auto simp: demo_seq demo_end_def)
qed

theorem ack_not_premature_witness:
  "reachable dec_atoi 20 demo_end \<and> 1 \<in> seg_abs (received_ack_ids (ep demo_end False)) \<and>
   (\<exists>k v. sent_log demo_end False 1 = Some (k, v) \<and> (k, v) = (''k'', [7]) \<and>
     1 \<in> seg_abs (received_msg_ids (ep demo_end True)) \<and> 1 \<notin> unread_ids (ep demo_end True))"
  using ack_not_premature [OF demo_reached(2) dec_atoi_ok _ demo_acked] demo_reached(2) demo_acked demo_unread
  by (simp add: demo_end_def unread_ids_def)

text \<open>C35: the throttle window. A sender that returns from \<open>ThrottleWindowWait\<close> for message \<open>n\<close> with
  throttling on has \<open>n\<close> strictly below the number of acknowledged messages plus the window.\<close>

theorem throttle_window_respected:
  assumes "throttle_window_wait n ws c = (Some (Inr ()), c')" "throttle_window_size c \<noteq> 0"
  shows "throttle_window_size c' = 0 \<or> n < seg_count (received_ack_ids c') + throttle_window_size c'"
proof -
  have "wait_loop (throttled n) abort_error timeout_error ws c = (Some (Inr ()), c')"
    using assms by (simp add: throttle_window_wait_def)
  then have "\<not> throttled n c'" by (rule wait_loop_returns_not_busy)
  then show ?thesis by (auto simp: throttled_def)
qed

theorem throttle_window_respected_witness:
  "fst (throttle_window_wait 2 [(False, \<lambda>c. c\<lparr>received_ack_ids := snd (seg_insert 1 (received_ack_ids c))\<rparr>)]
      (demo_c0\<lparr>throttle_window_size := 2\<rparr>)) = Some (Inr ()) \<and>
   (let c' = snd (throttle_window_wait 2 [(False, \<lambda>c. c\<lparr>received_ack_ids := snd (seg_insert 1 (received_ack_ids c))\<rparr>)]
      (demo_c0\<lparr>throttle_window_size := 2\<rparr>))
    in throttle_window_size c' = 0 \<or> 2 < seg_count (received_ack_ids c') + throttle_window_size c')"
proof -
  let ?ws = "[(False, \<lambda>c. c\<lparr>received_ack_ids := snd (seg_insert 1 (received_ack_ids c))\<rparr>)] :: channel wakeup list"
  let ?c = "demo_c0\<lparr>throttle_window_size := 2\<rparr>"
  have ok: "fst (throttle_window_wait 2 ?ws ?c) = Some (Inr ())" by code_simp
  then have "throttle_window_wait 2 ?ws ?c = (Some (Inr ()), snd (throttle_window_wait 2 ?ws ?c))"
    by (simp add: prod_eq_iff)
  from throttle_window_respected [OF this] ok show ?thesis by (simp add: Let_def)
qed

text \<open>C26: \<open>Recv\<close> is live: if the message is in the database after some number of wake-ups, with no
  timeout and no abort before, and send tasks can be started, then \<open>Recv\<close> returns a message that was
  stored under its key and takes it out of the database.\<close>

theorem recv_returns:
  assumes "normal_message_key_enforce k = Inr ()" "n \<le> length ws"
    and "map_of (recv_msgs (after_wakeups ws n c)) k \<noteq> None"
    and "\<And>j. j \<le> n \<Longrightarrow> \<not> aborting (after_wakeups ws j c)"
    and "\<And>j. j < n \<Longrightarrow> \<not> fst (ws ! j)"
    and "\<And>j. j \<le> n \<Longrightarrow> bthread_starts (after_wakeups ws j c)"
  shows "\<exists>j v i d. j \<le> n \<and> map_of (recv_msgs (after_wakeups ws j c)) k = Some (v, i) \<and>
    recv_msg k ws c = (Some (Inr v), d) \<and> map_of (recv_msgs d) k = None"
proof -
  have "\<exists>j \<le> n. wait_loop (\<lambda>c. map_of (recv_msgs c) k = None) abort_error timeout_error ws c =
      (Some (Inr ()), after_wakeups ws j c) \<and> \<not> map_of (recv_msgs (after_wakeups ws j c)) k = None"
    using assms by (intro wait_loop_exit) (auto simp: abort_error_def timeout_error_def)
  then obtain j v i where j: "j \<le> n" "map_of (recv_msgs (after_wakeups ws j c)) k = Some (v, i)"
      "wait_loop (\<lambda>c. map_of (recv_msgs c) k = None) abort_error timeout_error ws c =
        (Some (Inr ()), after_wakeups ws j c)"
    by auto
  let ?e = "(after_wakeups ws j c)\<lparr>recv_msgs := om_erase k (recv_msgs (after_wakeups ws j c))\<rparr>"
  obtain d where d: "send_ack i ?e = (Inr (), d)" "only_tasks ?e d"
    using assms(6) [OF j(1)] send_ack_only_tasks [of ?e i]
    by (auto simp: send_ack_def submit_send_task_def preturn_def Let_def split: if_splits)
  have "\<not> aborting c" using assms(4) [of 0] by simp
  then have "recv_msg k ws c = (Some (Inr v), d)"
    using assms(1) j d(1) by (simp add: recv_msg_def take_msg_def)
  moreover have "map_of (recv_msgs d) k = None" using only_tasks_fields(1) [OF d(2)] by simp
  ultimately show ?thesis using j by blast
qed

theorem recv_returns_witness:
  "\<exists>v i d. recv_msg ''k'' [(False, \<lambda>c. c\<lparr>recv_msgs := [(''k'', [9], 1)]\<rparr>)] demo_c0 = (Some (Inr v), d) \<and>
     map_of (recv_msgs d) ''k'' = None \<and> (v, i) = ([9], 1 :: u64)"
proof -
  let ?ws = "[(False, \<lambda>c. c\<lparr>recv_msgs := [(''k'', [9], 1)]\<rparr>)] :: channel wakeup list"
  have n: "j \<le> 1 \<Longrightarrow> j = 0 \<or> j = Suc 0" for j :: nat by auto
  have a: "after_wakeups ?ws (Suc 0) demo_c0 = demo_c0\<lparr>recv_msgs := [(''k'', [9], 1)]\<rparr>"
    by (simp add: after_wakeups_def)
  have base: "\<not> aborting demo_c0" "bthread_starts demo_c0" "recv_msgs demo_c0 = []"
    by (simp_all add: demo_c0_def new_channel_def)
  have "\<exists>j v i d. j \<le> 1 \<and> map_of (recv_msgs (after_wakeups ?ws j demo_c0)) ''k'' = Some (v, i) \<and>
      recv_msg ''k'' ?ws demo_c0 = (Some (Inr v), d) \<and> map_of (recv_msgs d) ''k'' = None"
  proof (rule recv_returns)
    fix j :: nat
    assume "j \<le> 1"
    then have "after_wakeups ?ws j demo_c0 = demo_c0 \<or>
        after_wakeups ?ws j demo_c0 = demo_c0\<lparr>recv_msgs := [(''k'', [9], 1)]\<rparr>"
      using n [of j] a by auto
    then show "\<not> aborting (after_wakeups ?ws j demo_c0)" "bthread_starts (after_wakeups ?ws j demo_c0)"
      using base by auto
  qed (use demo_evals(10) a in auto)
  then obtain j v i d where d: "j \<le> 1" "map_of (recv_msgs (after_wakeups ?ws j demo_c0)) ''k'' = Some (v, i)"
      "recv_msg ''k'' ?ws demo_c0 = (Some (Inr v), d)" "map_of (recv_msgs d) ''k'' = None" by blast
  then have "v = [9] \<and> i = 1" using n [OF d(1)] a base(3) by auto
  with d show ?thesis by auto
qed

text \<open>C38: the bound check of \<open>OnChunkedMessage\<close> trusts the length in the request at hand, not that of
  the buffer: a second chunk of the same key whose request claims a longer message passes the check
  and is written outside the buffer.\<close>

theorem chunk_write_out_of_bounds:
  assumes "map_of (chunked_values c) key = Some cm" "offset \<notin> set (cm_received cm)"
    and "\<not> offset + of_nat (length value) > total_length"
    and "unat offset + length value > length (cm_message cm)"
  shows "on_chunked_message atoi key value offset total_length c = (Inl Undefined, c)"
  using assms by (simp add: on_chunked_message_def add_chunk_def mem_copy_def)

theorem chunk_write_out_of_bounds_witness:
  "on_chunked_message dec_atoi ''x'' [1, 2] 4 8
     (snd (on_chunked_message dec_atoi ''x'' [1] 0 2 demo_c0)) =
   (Inl Undefined, snd (on_chunked_message dec_atoi ''x'' [1] 0 2 demo_c0))"
proof (rule chunk_write_out_of_bounds)
  show "map_of (chunked_values (snd (on_chunked_message dec_atoi ''x'' [1] 0 2 demo_c0))) ''x'' =
      Some \<lparr>cm_received = [0], cm_bytes_written = 1, cm_message = [1, 0]\<rparr>"
    by code_simp
qed simp_all

end
