(* ===== verification/Dynamic_Bitset.thy ===== *)
theory Dynamic_Bitset
  imports Prelude
begin

text \<open>
  The bit container of \<open>base/dynamic_bitset.h\<close>: bits packed into a vector of unsigned blocks.

  The block type is the type variable \<open>'a word\<close>, so \<open>LENGTH('a)\<close> is \<open>bits_per_block\<close>; the code uses it
  with \<open>uint128_t\<close> and \<open>uint8_t\<close>. Numbers of bits and positions (\<open>size_type\<close>) are natural numbers;
  \<open>npos\<close> is the largest \<open>size_t\<close>. Every subscript of \<open>m_blocks\<close> and every \<open>assert\<close> is a branch to
  \<^const>\<open>Undefined\<close>. This theory holds the data and the operations in the order of the source;
  theory \<open>Dynamic_Bitset_Refinement\<close> relates them to lists of booleans.
\<close>

record 'b dynamic_bitset =
  m_blocks :: "'b list"
  m_bits_number :: nat

type_synonym 'a bitset = "'a word dynamic_bitset"

subsection \<open>Constants and block arithmetic\<close>

definition npos :: nat where
  "npos = 2 ^ 64 - 1"

definition zero_block :: "'a :: len word" where
  "zero_block = 0"

definition one_block :: "'a :: len word" where
  "one_block = NOT zero_block"

definition blocks_required :: "nat \<Rightarrow> nat \<Rightarrow> nat" where
  "blocks_required w nbits = nbits div w + (if nbits mod w > 0 then 1 else 0)"

definition block_index :: "nat \<Rightarrow> nat \<Rightarrow> nat" where
  "block_index w pos = pos div w"

definition bit_index :: "nat \<Rightarrow> nat \<Rightarrow> nat" where
  "bit_index w pos = pos mod w"

definition bit_mask :: "nat \<Rightarrow> 'a :: len word" where
  "bit_mask pos = push_bit (bit_index LENGTH('a) pos) 1"

definition bit_mask_range :: "nat \<Rightarrow> nat \<Rightarrow> 'a :: len word" where
  "bit_mask_range first_bit last_bit =
     (let first_bit = bit_index LENGTH('a) first_bit; last_bit = bit_index LENGTH('a) last_bit in
      if last_bit = LENGTH('a) - 1 then push_bit first_bit one_block
      else (push_bit (last_bit + 1) 1 - 1) XOR (push_bit first_bit 1 - 1))"

definition set_block_bits :: "'a :: len word \<Rightarrow> nat \<Rightarrow> nat \<Rightarrow> bool \<Rightarrow> 'a word" where
  "set_block_bits block first_bit last_bit val =
     (if val then block OR bit_mask_range first_bit last_bit
      else block AND NOT (bit_mask_range first_bit last_bit))"

definition flip_block_bits :: "'a :: len word \<Rightarrow> nat \<Rightarrow> nat \<Rightarrow> 'a word" where
  "flip_block_bits block first_bit last_bit = block XOR bit_mask_range first_bit last_bit"

text \<open>The portable loops with a moving mask, and what the builtins compute on \<open>uint128_t\<close>.\<close>

fun count_loop :: "nat \<Rightarrow> 'a :: len word \<Rightarrow> 'a word \<Rightarrow> nat \<Rightarrow> nat" where
  "count_loop 0 block msk count = count"
| "count_loop (Suc k) block msk count =
     count_loop k block (push_bit 1 msk) (count + (if block AND msk \<noteq> zero_block then 1 else 0))"

definition block_count :: "'a :: len word \<Rightarrow> nat" where
  "block_count block =
     (if block = zero_block then 0 else count_loop LENGTH('a) block 1 0)"

definition block_count_n :: "'a :: len word \<Rightarrow> nat \<Rightarrow> nat result" where
  "block_count_n block nbits =
     rbind (assert_that (0 < nbits \<and> nbits \<le> LENGTH('a))) (\<lambda>_.
     let shifted_block = push_bit (LENGTH('a) - nbits) block in
     Inr (if shifted_block = zero_block then 0 else count_loop nbits block 1 0))"

fun ctz_loop :: "nat \<Rightarrow> nat \<Rightarrow> 'a :: len word \<Rightarrow> 'a word \<Rightarrow> nat" where
  "ctz_loop 0 i block msk = npos"
| "ctz_loop (Suc k) i block msk =
     (if block AND msk \<noteq> zero_block then i else ctz_loop k (Suc i) block (push_bit 1 msk))"

definition count_block_trailing_zero :: "'a :: len word \<Rightarrow> nat result" where
  "count_block_trailing_zero block =
     rbind (assert_that (block \<noteq> zero_block)) (\<lambda>_. Inr (ctz_loop LENGTH('a) 0 block 1))"

text \<open>\<open>__builtin_popcountll\<close> and \<open>__builtin_ctzll\<close>; the latter is undefined on zero.\<close>

definition builtin_popcountll :: "u64 \<Rightarrow> nat" where
  "builtin_popcountll x = length (filter (bit x) [0..<64])"

definition builtin_ctzll :: "u64 \<Rightarrow> nat result" where
  "builtin_ctzll x = (case filter (bit x) [0..<64] of [] \<Rightarrow> Inl Undefined | i # _ \<Rightarrow> Inr i)"

definition uint128_high64 :: "u128 \<Rightarrow> u64" where
  "uint128_high64 x = ucast (drop_bit 64 x)"

definition uint128_low64 :: "u128 \<Rightarrow> u64" where
  "uint128_low64 x = ucast x"

definition block_count_u128 :: "u128 \<Rightarrow> nat" where
  "block_count_u128 block =
     (if block = zero_block then 0
      else builtin_popcountll (uint128_high64 block) + builtin_popcountll (uint128_low64 block))"

definition block_count_n_u128 :: "u128 \<Rightarrow> nat \<Rightarrow> nat result" where
  "block_count_n_u128 block nbits =
     rbind (assert_that (0 < nbits \<and> nbits \<le> 128)) (\<lambda>_.
     let shifted_block = push_bit (128 - nbits) block in
     Inr (if shifted_block = zero_block then 0
          else builtin_popcountll (uint128_high64 block) + builtin_popcountll (uint128_low64 block)))"

definition count_block_trailing_zero_u128 :: "u128 \<Rightarrow> nat result" where
  "count_block_trailing_zero_u128 block =
     rbind (assert_that (block \<noteq> zero_block)) (\<lambda>_.
     if uint128_low64 block = 0
     then rbind (builtin_ctzll (uint128_high64 block)) (\<lambda>n. Inr (n + 64))
     else builtin_ctzll (uint128_low64 block))"

subsection \<open>Sizes, blocks and the consistency checks\<close>

definition size_bits :: "'a :: len bitset \<Rightarrow> nat" where
  "size_bits bs = m_bits_number bs"

definition num_blocks :: "'a :: len bitset \<Rightarrow> nat" where
  "num_blocks bs = length (m_blocks bs)"

definition empty_bits :: "'a :: len bitset \<Rightarrow> bool" where
  "empty_bits bs \<longleftrightarrow> size_bits bs = 0"

definition get_block :: "'a :: len bitset \<Rightarrow> nat \<Rightarrow> 'a word result" where
  "get_block bs pos = at_idx (m_blocks bs) (block_index LENGTH('a) pos)"

definition last_block :: "'a :: len bitset \<Rightarrow> 'a word result" where
  "last_block bs = at_idx (m_blocks bs) (length (m_blocks bs) - 1)"

definition upd_block :: "'a :: len bitset \<Rightarrow> nat \<Rightarrow> ('a word \<Rightarrow> 'a word) \<Rightarrow> 'a bitset result" where
  "upd_block bs i f = rbind (upd_idx (m_blocks bs) i f) (\<lambda>bl. Inr (bs\<lparr>m_blocks := bl\<rparr>))"

definition extra_bits_number :: "'a :: len bitset \<Rightarrow> nat" where
  "extra_bits_number bs = bit_index LENGTH('a) (m_bits_number bs)"

definition unused_bits_number :: "'a :: len bitset \<Rightarrow> nat" where
  "unused_bits_number bs = LENGTH('a) - extra_bits_number bs"

definition sanitize :: "'a :: len bitset \<Rightarrow> 'a bitset result" where
  "sanitize bs =
     (let shift = m_bits_number bs mod LENGTH('a) in
      if shift > 0
      then upd_block bs (length (m_blocks bs) - 1) (\<lambda>b. b AND NOT (push_bit shift one_block))
      else Inr bs)"

definition check_unused_bits :: "'a :: len bitset \<Rightarrow> bool result" where
  "check_unused_bits bs =
     (let extra_bits = extra_bits_number bs in
      if extra_bits > 0
      then rbind (last_block bs) (\<lambda>b. Inr (b AND push_bit extra_bits one_block = zero_block))
      else Inr True)"

definition check_size :: "'a :: len bitset \<Rightarrow> bool" where
  "check_size bs \<longleftrightarrow> blocks_required LENGTH('a) (size_bits bs) = length (m_blocks bs)"

definition check_consistency :: "'a :: len bitset \<Rightarrow> bool result" where
  "check_consistency bs = rbind (check_unused_bits bs) (\<lambda>u. Inr (u \<and> check_size bs))"

definition assert_consistent :: "'a :: len bitset \<Rightarrow> 'a bitset result" where
  "assert_consistent bs = rbind (check_consistency bs) (\<lambda>c. rbind (assert_that c) (\<lambda>_. Inr bs))"

subsection \<open>Constructors and size changes\<close>

definition bitset_default :: "'a :: len bitset" where
  "bitset_default = \<lparr>m_blocks = [], m_bits_number = 0\<rparr>"

definition bitset_init :: "nat \<Rightarrow> u128 \<Rightarrow> 'a :: len bitset result" where
  "bitset_init nbits init_val =
     (let bs = \<lparr>m_blocks = replicate (blocks_required LENGTH('a) nbits) zero_block,
                m_bits_number = nbits\<rparr>;
          init_val_required_blocks = 128 div LENGTH('a) in
      if nbits = 0 \<or> init_val = 0 then Inr bs
      else rbind
        (if init_val_required_blocks = 1 then upd_block bs 0 (\<lambda>_. ucast init_val)
         else
           let block_mask = ucast (one_block :: 'a word) :: u128;
               blocks_to_init = min (length (m_blocks bs)) init_val_required_blocks in
           rfold (\<lambda>i bs. upd_block bs i
               (\<lambda>_. ucast (drop_bit (i * LENGTH('a)) init_val AND block_mask)))
             [0..<blocks_to_init] bs)
        sanitize)"

definition resize :: "'a :: len bitset \<Rightarrow> nat \<Rightarrow> bool \<Rightarrow> 'a bitset result" where
  "resize bs nbits value =
     (if nbits = m_bits_number bs then Inr bs
      else
        let old_num_blocks = num_blocks bs;
            new_num_blocks = blocks_required LENGTH('a) nbits;
            init_value = (if value then one_block else zero_block);
            bs1 = (if new_num_blocks \<noteq> old_num_blocks
                   then bs\<lparr>m_blocks := vec_resize new_num_blocks init_value (m_blocks bs)\<rparr>
                   else bs) in
        rbind
          (if value \<and> nbits > m_bits_number bs1 \<and> old_num_blocks > 0 then
             let extra_bits = extra_bits_number bs1 in
             if extra_bits > 0
             then upd_block bs1 (old_num_blocks - 1) (\<lambda>b. b OR push_bit extra_bits init_value)
             else Inr bs1
           else Inr bs1) (\<lambda>bs2.
        rbind (sanitize (bs2\<lparr>m_bits_number := nbits\<rparr>)) assert_consistent))"

definition clear :: "'a :: len bitset \<Rightarrow> 'a bitset" where
  "clear bs = bs\<lparr>m_blocks := [], m_bits_number := 0\<rparr>"

subsection \<open>Single bits and ranges of bits\<close>

definition set_bit_at :: "'a :: len bitset \<Rightarrow> nat \<Rightarrow> bool \<Rightarrow> 'a bitset result" where
  "set_bit_at bs pos value =
     rbind (assert_that (pos < size_bits bs)) (\<lambda>_.
     if value then upd_block bs (block_index LENGTH('a) pos) (\<lambda>b. b OR bit_mask pos)
     else upd_block bs (block_index LENGTH('a) pos) (\<lambda>b. b AND NOT (bit_mask pos)))"

definition set_range :: "'a :: len bitset \<Rightarrow> nat \<Rightarrow> nat \<Rightarrow> bool \<Rightarrow> 'a bitset result" where
  "set_range bs pos len value =
     rbind (assert_that (pos < size_bits bs)) (\<lambda>_.
     if len = 0 then Inr bs
     else
       rbind (assert_that (pos + len - 1 < size_bits bs)) (\<lambda>_.
       let first_block = block_index LENGTH('a) pos;
           last_block = block_index LENGTH('a) (pos + len - 1);
           first_bit_index = bit_index LENGTH('a) pos;
           last_bit_index = bit_index LENGTH('a) (pos + len - 1) in
       if first_block = last_block then
         upd_block bs first_block (\<lambda>b. set_block_bits b first_bit_index last_bit_index value)
       else
         let first_full_block = (if first_bit_index \<noteq> 0 then first_block + 1 else first_block);
             last_full_block = (if last_bit_index \<noteq> LENGTH('a) - 1 then last_block - 1 else last_block) in
         rbind (if first_bit_index \<noteq> 0
                then upd_block bs first_block
                       (\<lambda>b. set_block_bits b first_bit_index (LENGTH('a) - 1) value)
                else Inr bs) (\<lambda>bs1.
         rbind (if last_bit_index \<noteq> LENGTH('a) - 1
                then upd_block bs1 last_block (\<lambda>b. set_block_bits b 0 last_bit_index value)
                else Inr bs1) (\<lambda>bs2.
         let full_block = (if value then one_block else zero_block) in
         rfold (\<lambda>i bs. upd_block bs i (\<lambda>_. full_block))
           [first_full_block..<last_full_block + 1] bs2))))"

definition set_all :: "'a :: len bitset \<Rightarrow> 'a bitset result" where
  "set_all bs = sanitize (bs\<lparr>m_blocks := map (\<lambda>_. one_block) (m_blocks bs)\<rparr>)"

definition reset_range :: "'a :: len bitset \<Rightarrow> nat \<Rightarrow> nat \<Rightarrow> 'a bitset result" where
  "reset_range bs pos len = set_range bs pos len False"

definition reset_at :: "'a :: len bitset \<Rightarrow> nat \<Rightarrow> 'a bitset result" where
  "reset_at bs pos = set_bit_at bs pos False"

definition reset_all :: "'a :: len bitset \<Rightarrow> 'a bitset" where
  "reset_all bs = bs\<lparr>m_blocks := map (\<lambda>_. zero_block) (m_blocks bs)\<rparr>"

definition flip_range :: "'a :: len bitset \<Rightarrow> nat \<Rightarrow> nat \<Rightarrow> 'a bitset result" where
  "flip_range bs pos len =
     rbind (assert_that (pos < size_bits bs)) (\<lambda>_.
     if len = 0 then Inr bs
     else
       rbind (assert_that (pos + len - 1 < size_bits bs)) (\<lambda>_.
       let first_block = block_index LENGTH('a) pos;
           last_block = block_index LENGTH('a) (pos + len - 1);
           first_bit_index = bit_index LENGTH('a) pos;
           last_bit_index = bit_index LENGTH('a) (pos + len - 1) in
       if first_block = last_block then
         upd_block bs first_block (\<lambda>b. flip_block_bits b first_bit_index last_bit_index)
       else
         let first_full_block = (if first_bit_index \<noteq> 0 then first_block + 1 else first_block);
             last_full_block = (if last_bit_index \<noteq> LENGTH('a) - 1 then last_block - 1 else last_block) in
         rbind (if first_bit_index \<noteq> 0
                then upd_block bs first_block
                       (\<lambda>b. flip_block_bits b first_bit_index (LENGTH('a) - 1))
                else Inr bs) (\<lambda>bs1.
         rbind (if last_bit_index \<noteq> LENGTH('a) - 1
                then upd_block bs1 last_block (\<lambda>b. flip_block_bits b 0 last_bit_index)
                else Inr bs1) (\<lambda>bs2.
         rfold (\<lambda>i bs. upd_block bs i NOT) [first_full_block..<last_full_block + 1] bs2))))"

definition flip_at :: "'a :: len bitset \<Rightarrow> nat \<Rightarrow> 'a bitset result" where
  "flip_at bs pos =
     rbind (assert_that (pos < size_bits bs)) (\<lambda>_.
     upd_block bs (block_index LENGTH('a) pos) (\<lambda>b. b XOR bit_mask pos))"

definition flip_all :: "'a :: len bitset \<Rightarrow> 'a bitset result" where
  "flip_all bs = sanitize (bs\<lparr>m_blocks := map NOT (m_blocks bs)\<rparr>)"

definition op_not :: "'a :: len bitset \<Rightarrow> 'a bitset result" where
  "op_not bs = flip_all bs"

definition test_bit_at :: "'a :: len bitset \<Rightarrow> nat \<Rightarrow> bool result" where
  "test_bit_at bs pos =
     rbind (assert_that (pos < size_bits bs)) (\<lambda>_.
     rbind (at_idx (m_blocks bs) (block_index LENGTH('a) pos)) (\<lambda>b.
     Inr (b AND bit_mask pos \<noteq> zero_block)))"

definition test_set :: "'a :: len bitset \<Rightarrow> nat \<Rightarrow> bool \<Rightarrow> (bool \<times> 'a bitset) result" where
  "test_set bs pos value =
     rbind (test_bit_at bs pos) (\<lambda>result.
     if result \<noteq> value then rbind (set_bit_at bs pos value) (\<lambda>bs'. Inr (result, bs'))
     else Inr (result, bs))"

definition push_back :: "'a :: len bitset \<Rightarrow> bool \<Rightarrow> 'a bitset result" where
  "push_back bs value =
     (let new_last_bit = m_bits_number bs;
          bs = bs\<lparr>m_bits_number := m_bits_number bs + 1\<rparr> in
      rbind
        (if m_bits_number bs \<le> length (m_blocks bs) * LENGTH('a) then
           (if value then set_bit_at bs new_last_bit value else Inr bs)
         else Inr (bs\<lparr>m_blocks := m_blocks bs @ [of_bool value]\<rparr>)) (\<lambda>bs.
      rbind (test_bit_at bs new_last_bit) (\<lambda>b.
      rbind (assert_that (b = value)) (\<lambda>_. assert_consistent bs))))"

definition pop_back :: "'a :: len bitset \<Rightarrow> 'a bitset result" where
  "pop_back bs =
     (if empty_bits bs then Inr bs
      else
        let bs = bs\<lparr>m_bits_number := m_bits_number bs - 1\<rparr> in
        rbind
          (if length (m_blocks bs) > blocks_required LENGTH('a) (m_bits_number bs) then
             let bs = bs\<lparr>m_blocks := butlast (m_blocks bs)\<rparr> in
             rbind (assert_that (extra_bits_number bs = 0)) (\<lambda>_. Inr bs)
           else sanitize bs)
          assert_consistent)"

subsection \<open>Appending blocks and bitsets\<close>

definition append_block :: "'a :: len bitset \<Rightarrow> 'a word \<Rightarrow> 'a bitset result" where
  "append_block bs block =
     (let extra_bits = extra_bits_number bs in
      rbind
        (if extra_bits = 0 then Inr (bs\<lparr>m_blocks := m_blocks bs @ [block]\<rparr>)
         else
           rbind (upd_block bs (length (m_blocks bs) - 1) (\<lambda>b. b OR push_bit extra_bits block)) (\<lambda>bs.
           Inr (bs\<lparr>m_blocks := m_blocks bs @ [drop_bit (LENGTH('a) - extra_bits) block]\<rparr>)))
        (\<lambda>bs. assert_consistent (bs\<lparr>m_bits_number := m_bits_number bs + LENGTH('a)\<rparr>)))"

fun append_loop :: "nat \<Rightarrow> nat \<Rightarrow> 'a :: len word \<Rightarrow> 'a word list \<Rightarrow> 'a bitset \<Rightarrow> 'a bitset" where
  "append_loop extra_bits unused_bits block [] bs =
     bs\<lparr>m_blocks := m_blocks bs @ [block], m_bits_number := m_bits_number bs + LENGTH('a)\<rparr>"
| "append_loop extra_bits unused_bits block (x # xs) bs =
     append_loop extra_bits unused_bits (drop_bit unused_bits x) xs
       (bs\<lparr>m_blocks := m_blocks bs @ [block OR push_bit extra_bits x],
           m_bits_number := m_bits_number bs + LENGTH('a)\<rparr>)"

definition append_range :: "'a :: len bitset \<Rightarrow> 'a word list \<Rightarrow> 'a bitset result" where
  "append_range bs blocks =
     (case blocks of
        [] \<Rightarrow> Inr bs
      | x # xs \<Rightarrow>
          let extra_bits = extra_bits_number bs; unused_bits = unused_bits_number bs in
          rbind
            (if extra_bits = 0 then
               Inr (bs\<lparr>m_blocks := m_blocks bs @ blocks,
                       m_bits_number := m_bits_number bs + length blocks * LENGTH('a)\<rparr>)
             else
               rbind (upd_block bs (length (m_blocks bs) - 1) (\<lambda>b. b OR push_bit extra_bits x)) (\<lambda>bs.
               Inr (append_loop extra_bits unused_bits (drop_bit unused_bits x) xs bs)))
            assert_consistent)"

definition bitset_of_blocks :: "'a :: len word list \<Rightarrow> 'a bitset result" where
  "bitset_of_blocks init_vals = append_range bitset_default init_vals"

text \<open>Appending another object, and appending an object to itself.\<close>

definition append_bitset :: "'a :: len bitset \<Rightarrow> 'a bitset \<Rightarrow> 'a bitset result" where
  "append_bitset bs other =
     (let final_size = size_bits bs + size_bits other in
      rbind (append_range bs (take (num_blocks other) (m_blocks other))) (\<lambda>bs.
      resize bs final_size False))"

definition append_self :: "'a :: len bitset \<Rightarrow> 'a bitset result" where
  "append_self bs =
     (let final_size = size_bits bs + size_bits bs; block_num = num_blocks bs in
      rbind (rfold (\<lambda>i bs. rbind (at_idx (m_blocks bs) i) (append_block bs)) [0..<block_num] bs) (\<lambda>bs.
      resize bs final_size False))"

subsection \<open>Logical operators\<close>

definition assign_loop ::
  "('a :: len word \<Rightarrow> 'a word \<Rightarrow> 'a word) \<Rightarrow> 'a bitset \<Rightarrow> 'a bitset \<Rightarrow> 'a bitset result" where
  "assign_loop f bs rhs =
     rbind (assert_that (size_bits bs = size_bits rhs)) (\<lambda>_.
     rfold (\<lambda>i bs. rbind (at_idx (m_blocks rhs) i) (\<lambda>r. upd_block bs i (\<lambda>b. f b r)))
       [0..<length (m_blocks bs)] bs)"

definition op_and_assign :: "'a :: len bitset \<Rightarrow> 'a bitset \<Rightarrow> 'a bitset result" where
  "op_and_assign bs rhs = assign_loop (\<lambda>b r. b AND r) bs rhs"

definition op_or_assign :: "'a :: len bitset \<Rightarrow> 'a bitset \<Rightarrow> 'a bitset result" where
  "op_or_assign bs rhs = assign_loop (\<lambda>b r. b OR r) bs rhs"

definition op_xor_assign :: "'a :: len bitset \<Rightarrow> 'a bitset \<Rightarrow> 'a bitset result" where
  "op_xor_assign bs rhs = assign_loop (\<lambda>b r. b XOR r) bs rhs"

definition op_minus_assign :: "'a :: len bitset \<Rightarrow> 'a bitset \<Rightarrow> 'a bitset result" where
  "op_minus_assign bs rhs = assign_loop (\<lambda>b r. b AND NOT r) bs rhs"

definition op_and :: "'a :: len bitset \<Rightarrow> 'a bitset \<Rightarrow> 'a bitset result" where
  "op_and lhs rhs = op_and_assign lhs rhs"

definition op_or :: "'a :: len bitset \<Rightarrow> 'a bitset \<Rightarrow> 'a bitset result" where
  "op_or lhs rhs = op_or_assign lhs rhs"

definition op_xor :: "'a :: len bitset \<Rightarrow> 'a bitset \<Rightarrow> 'a bitset result" where
  "op_xor lhs rhs = op_xor_assign lhs rhs"

definition op_minus :: "'a :: len bitset \<Rightarrow> 'a bitset \<Rightarrow> 'a bitset result" where
  "op_minus lhs rhs = op_minus_assign lhs rhs"

subsection \<open>Shifts\<close>

text \<open>\<open>capacity()\<close> is at least \<open>m_blocks.size() * bits_per_block\<close>, the bound used for the assertion.\<close>

definition apply_left_shift :: "'a :: len bitset \<Rightarrow> nat \<Rightarrow> 'a bitset result" where
  "apply_left_shift bs shift =
     rbind (assert_that (shift > 0 \<and> shift < length (m_blocks bs) * LENGTH('a))) (\<lambda>_.
     let blocks_shift = shift div LENGTH('a);
         bits_offset = shift mod LENGTH('a);
         n = length (m_blocks bs) in
     rbind
       (if bits_offset = 0 then
          rfold (\<lambda>i bs. rbind (at_idx (m_blocks bs) (i - blocks_shift)) (\<lambda>b. upd_block bs i (\<lambda>_. b)))
            (rev [blocks_shift..<n]) bs
        else
          let reverse_bits_offset = LENGTH('a) - bits_offset in
          rbind
            (rfold (\<lambda>i bs. rbind (at_idx (m_blocks bs) (i - blocks_shift)) (\<lambda>hi.
                           rbind (at_idx (m_blocks bs) (i - blocks_shift - 1)) (\<lambda>lo.
                           upd_block bs i (\<lambda>_. push_bit bits_offset hi OR drop_bit reverse_bits_offset lo))))
              (rev [blocks_shift + 1..<n]) bs) (\<lambda>bs.
          rbind (at_idx (m_blocks bs) 0) (\<lambda>b.
          upd_block bs blocks_shift (\<lambda>_. push_bit bits_offset b)))) (\<lambda>bs.
     rfold (\<lambda>i bs. upd_block bs i (\<lambda>_. zero_block)) [0..<blocks_shift] bs))"

definition apply_right_shift :: "'a :: len bitset \<Rightarrow> nat \<Rightarrow> 'a bitset result" where
  "apply_right_shift bs shift =
     rbind (assert_that (shift > 0 \<and> shift < length (m_blocks bs) * LENGTH('a))) (\<lambda>_.
     let blocks_shift = shift div LENGTH('a);
         bits_offset = shift mod LENGTH('a);
         n = length (m_blocks bs);
         last_block_to_shift = n - blocks_shift - 1 in
     rbind
       (if bits_offset = 0 then
          rfold (\<lambda>i bs. rbind (at_idx (m_blocks bs) (i + blocks_shift)) (\<lambda>b. upd_block bs i (\<lambda>_. b)))
            [0..<last_block_to_shift + 1] bs
        else
          let reverse_bits_offset = LENGTH('a) - bits_offset in
          rbind
            (rfold (\<lambda>i bs. rbind (at_idx (m_blocks bs) (i + blocks_shift)) (\<lambda>lo.
                           rbind (at_idx (m_blocks bs) (i + blocks_shift + 1)) (\<lambda>hi.
                           upd_block bs i (\<lambda>_. drop_bit bits_offset lo OR push_bit reverse_bits_offset hi))))
              [0..<last_block_to_shift] bs) (\<lambda>bs.
          rbind (last_block bs) (\<lambda>b.
          upd_block bs last_block_to_shift (\<lambda>_. drop_bit bits_offset b)))) (\<lambda>bs.
     rfold (\<lambda>i bs. upd_block bs i (\<lambda>_. zero_block)) [last_block_to_shift + 1..<n] bs))"

definition op_shl_assign :: "'a :: len bitset \<Rightarrow> nat \<Rightarrow> 'a bitset result" where
  "op_shl_assign bs shift =
     (if shift \<noteq> 0 then
        if shift \<ge> m_bits_number bs then Inr (reset_all bs)
        else rbind (apply_left_shift bs shift) sanitize
      else Inr bs)"

definition op_shr_assign :: "'a :: len bitset \<Rightarrow> nat \<Rightarrow> 'a bitset result" where
  "op_shr_assign bs shift =
     (if shift \<noteq> 0 then
        if shift \<ge> m_bits_number bs then Inr (reset_all bs)
        else apply_right_shift bs shift
      else Inr bs)"

definition op_shl :: "'a :: len bitset \<Rightarrow> nat \<Rightarrow> 'a bitset result" where
  "op_shl bs shift = op_shl_assign bs shift"

definition op_shr :: "'a :: len bitset \<Rightarrow> nat \<Rightarrow> 'a bitset result" where
  "op_shr bs shift = op_shr_assign bs shift"

subsection \<open>Queries\<close>

definition all_bits :: "'a :: len bitset \<Rightarrow> bool result" where
  "all_bits bs =
     (if empty_bits bs then Inr True
      else
        let full_block = one_block in
        if extra_bits_number bs = 0 then Inr (list_all (\<lambda>block. block = full_block) (m_blocks bs))
        else if \<not> list_all (\<lambda>block. block = full_block) (take (length (m_blocks bs) - 1) (m_blocks bs))
        then Inr False
        else rbind (last_block bs) (\<lambda>b. Inr (b = drop_bit (unused_bits_number bs) full_block)))"

definition any_bits :: "'a :: len bitset \<Rightarrow> bool" where
  "any_bits bs = list_ex (\<lambda>block. block \<noteq> zero_block) (m_blocks bs)"

definition none_bits :: "'a :: len bitset \<Rightarrow> bool" where
  "none_bits bs \<longleftrightarrow> \<not> any_bits bs"

definition count_bits :: "'a :: len bitset \<Rightarrow> nat result" where
  "count_bits bs =
     (if empty_bits bs then Inr 0
      else
        let count = sum_list (map block_count (take (length (m_blocks bs) - 1) (m_blocks bs)));
            extra_bits = extra_bits_number bs in
        rbind (last_block bs) (\<lambda>block.
        if extra_bits = 0 then Inr (count + block_count block)
        else rbind (block_count_n block extra_bits) (\<lambda>k. Inr (count + k))))"

fun subset_loop :: "'a :: len word list \<Rightarrow> 'a word list \<Rightarrow> bool result" where
  "subset_loop [] other = Inr True"
| "subset_loop (x # xs) [] = Inl Undefined"
| "subset_loop (x # xs) (y # ys) =
     (if x AND NOT y \<noteq> zero_block then Inr False else subset_loop xs ys)"

definition is_subset_of :: "'a :: len bitset \<Rightarrow> 'a bitset \<Rightarrow> bool result" where
  "is_subset_of bs other =
     rbind (assert_that (size_bits bs = size_bits other)) (\<lambda>_.
     subset_loop (m_blocks bs) (m_blocks other))"

fun proper_subset_loop :: "bool \<Rightarrow> 'a :: len word list \<Rightarrow> 'a word list \<Rightarrow> bool result" where
  "proper_subset_loop is_proper [] other = Inr is_proper"
| "proper_subset_loop is_proper (x # xs) [] = Inl Undefined"
| "proper_subset_loop is_proper (x # xs) (y # ys) =
     (if x AND NOT y \<noteq> zero_block then Inr False
      else proper_subset_loop (if NOT x AND y \<noteq> zero_block then True else is_proper) xs ys)"

definition is_proper_subset_of :: "'a :: len bitset \<Rightarrow> 'a bitset \<Rightarrow> bool result" where
  "is_proper_subset_of bs other =
     rbind (assert_that (size_bits bs = size_bits other)) (\<lambda>_.
     proper_subset_loop False (m_blocks bs) (m_blocks other))"

fun intersects_loop :: "'a :: len word list \<Rightarrow> 'a word list \<Rightarrow> bool" where
  "intersects_loop (x # xs) (y # ys) = (if x AND y \<noteq> zero_block then True else intersects_loop xs ys)"
| "intersects_loop _ _ = False"

definition intersects :: "'a :: len bitset \<Rightarrow> 'a bitset \<Rightarrow> bool" where
  "intersects bs other = intersects_loop (m_blocks bs) (m_blocks other)"

fun find_block_loop :: "nat \<Rightarrow> 'a :: len word list \<Rightarrow> nat result" where
  "find_block_loop i [] = Inr npos"
| "find_block_loop i (b # bl) =
     (if b \<noteq> zero_block
      then rbind (count_block_trailing_zero b) (\<lambda>k. Inr (i * LENGTH('a) + k))
      else find_block_loop (Suc i) bl)"

definition find_first :: "'a :: len bitset \<Rightarrow> nat result" where
  "find_first bs = find_block_loop 0 (m_blocks bs)"

definition find_next :: "'a :: len bitset \<Rightarrow> nat \<Rightarrow> nat result" where
  "find_next bs prev =
     (if empty_bits bs \<or> prev \<ge> size_bits bs - 1 then Inr npos
      else
        let first_bit = prev + 1;
            first_block = block_index LENGTH('a) first_bit;
            first_bit_index = bit_index LENGTH('a) first_bit in
        rbind (at_idx (m_blocks bs) first_block) (\<lambda>b.
        let first_block_shifted = drop_bit first_bit_index b in
        if first_block_shifted \<noteq> zero_block
        then rbind (count_block_trailing_zero first_block_shifted) (\<lambda>k. Inr (first_bit + k))
        else find_block_loop (first_block + 1) (drop (first_block + 1) (m_blocks bs))))"

definition swap_bitsets :: "'a :: len bitset \<times> 'a bitset \<Rightarrow> 'a bitset \<times> 'a bitset" where
  "swap_bitsets p = (snd p, fst p)"

text \<open>The loop of \<open>iterate_bits_on\<close>; the visitor updates a state of its own and says whether to
  go on (a visitor without result always does). It ends because \<open>find_next\<close> moves forward.\<close>

lemma find_block_loop_ge:
  "find_block_loop i (bl :: 'a :: len word list) = Inr j \<Longrightarrow> j = npos \<or> i * LENGTH('a) \<le> j"
  by (induction i bl rule: find_block_loop.induct) (auto split: if_splits)

lemma find_next_gt:
  assumes "find_next (bs :: 'a :: len bitset) i = Inr j" "j \<noteq> npos"
  shows "i < j \<and> i < length (m_blocks bs) * LENGTH('a)"
proof -
  let ?w = "LENGTH('a)"
  have w: "0 < ?w" by simp
  have blk: "Suc i div ?w < length (m_blocks bs)"
    using assms by (auto simp: find_next_def block_index_def Let_def split: if_splits)
  then have "Suc i < length (m_blocks bs) * ?w"
    using w by (simp add: less_mult_imp_div_less div_less_iff_less_mult)
  moreover have "i < j"
  proof -
    have "Suc i < (Suc i div ?w + 1) * ?w"
      using w by (metis Suc_eq_plus1 add.commute dividend_less_div_times mult.commute mult_Suc_right)
    with assms show ?thesis
      by (auto simp: find_next_def block_index_def Let_def split: if_splits
          dest!: find_block_loop_ge)
  qed
  ultimately show ?thesis by simp
qed

function iterate_from ::
  "'a :: len bitset \<Rightarrow> (nat \<Rightarrow> 's \<Rightarrow> bool \<times> 's) \<Rightarrow> nat \<Rightarrow> 's \<Rightarrow> 's result" where
  "iterate_from bs visit i_bit s =
     (if i_bit = npos then Inr s
      else
        let (go_on, s') = visit i_bit s in
        if \<not> go_on then Inr s'
        else rbind (find_next bs i_bit) (\<lambda>i_bit'. iterate_from bs visit i_bit' s'))"
  by pat_completeness auto

termination
  by (relation "measure (\<lambda>(bs :: 'a bitset, visit, i, s). if i = npos then 0
      else Suc (length (m_blocks bs) * LENGTH('a) - i))") (auto dest!: find_next_gt)

declare iterate_from.simps [simp del]

definition iterate_bits_on :: "'a :: len bitset \<Rightarrow> (nat \<Rightarrow> 's \<Rightarrow> bool \<times> 's) \<Rightarrow> 's \<Rightarrow> 's result" where
  "iterate_bits_on bs visit s = rbind (find_first bs) (\<lambda>i_bit. iterate_from bs visit i_bit s)"

subsection \<open>Comparison\<close>

definition op_eq :: "'a :: len bitset \<Rightarrow> 'a bitset \<Rightarrow> bool" where
  "op_eq lhs rhs \<longleftrightarrow> m_bits_number lhs = m_bits_number rhs \<and> m_blocks lhs = m_blocks rhs"

text \<open>\<open>for (i = start; i > 0; --i)\<close> with an early return, then block 0.\<close>

fun less_loop :: "nat \<Rightarrow> 'a :: len word list \<Rightarrow> 'a word list \<Rightarrow> bool option result" where
  "less_loop 0 l r = Inr None"
| "less_loop (Suc i) l r =
     rbind (at_idx l (Suc i)) (\<lambda>x. rbind (at_idx r (Suc i)) (\<lambda>y.
     if x \<noteq> y then Inr (Some (x < y)) else less_loop i l r))"

text \<open>\<open>for (i = longest - 1; i >= shortest; --i)\<close>: is a block above the shorter bitset set?\<close>

fun any_above :: "nat \<Rightarrow> nat \<Rightarrow> 'a :: len word list \<Rightarrow> bool result" where
  "any_above shortest 0 l = Inr False"
| "any_above shortest (Suc i) l =
     (if i \<ge> shortest
      then rbind (at_idx l i) (\<lambda>x. if x \<noteq> 0 then Inr True else any_above shortest i l)
      else Inr False)"

definition op_less :: "'a :: len bitset \<Rightarrow> 'a bitset \<Rightarrow> bool result" where
  "op_less lhs rhs =
     (let lhs_size = size_bits lhs; rhs_size = size_bits rhs;
          lhs_blocks_size = length (m_blocks lhs); rhs_blocks_size = length (m_blocks rhs) in
      if lhs_size = rhs_size then
        if lhs_size = 0 then Inr False
        else
          rbind (less_loop (lhs_blocks_size - 1) (m_blocks lhs) (m_blocks rhs)) (\<lambda>found.
          case found of
            Some b \<Rightarrow> Inr b
          | None \<Rightarrow> rbind (at_idx (m_blocks lhs) 0) (\<lambda>x. rbind (at_idx (m_blocks rhs) 0) (\<lambda>y. Inr (x < y))))
      else if lhs_size = 0 then Inr True
      else if rhs_size = 0 then Inr False
      else
        let rhs_longer = (rhs_size > lhs_size);
            longest_bitset = (if rhs_longer then rhs else lhs);
            longest_blocks_size = max lhs_blocks_size rhs_blocks_size;
            shortest_blocks_size = min lhs_blocks_size rhs_blocks_size in
        rbind (any_above shortest_blocks_size longest_blocks_size (m_blocks longest_bitset)) (\<lambda>above.
        if above then Inr rhs_longer
        else
          rbind (less_loop (shortest_blocks_size - 1) (m_blocks lhs) (m_blocks rhs)) (\<lambda>found.
          case found of
            Some b \<Rightarrow> Inr b
          | None \<Rightarrow>
              rbind (at_idx (m_blocks lhs) 0) (\<lambda>x. rbind (at_idx (m_blocks rhs) 0) (\<lambda>y.
              if x \<noteq> y then Inr (x < y) else Inr (lhs_size < rhs_size))))))"

definition op_ne :: "'a :: len bitset \<Rightarrow> 'a bitset \<Rightarrow> bool" where
  "op_ne lhs rhs \<longleftrightarrow> \<not> op_eq lhs rhs"

definition op_le :: "'a :: len bitset \<Rightarrow> 'a bitset \<Rightarrow> bool result" where
  "op_le lhs rhs = rbind (op_less rhs lhs) (\<lambda>b. Inr (\<not> b))"

definition op_gt :: "'a :: len bitset \<Rightarrow> 'a bitset \<Rightarrow> bool result" where
  "op_gt lhs rhs = op_less rhs lhs"

definition op_ge :: "'a :: len bitset \<Rightarrow> 'a bitset \<Rightarrow> bool result" where
  "op_ge lhs rhs = rbind (op_less lhs rhs) (\<lambda>b. Inr (\<not> b))"

subsection \<open>Strings and streams\<close>

text \<open>The inner loop of \<open>to_string\<close> over the bits of block \<open>i_block\<close>, with its moving mask.\<close>

definition to_string_block ::
  "nat \<Rightarrow> 'c \<Rightarrow> nat \<Rightarrow> 'a :: len word \<Rightarrow> 'c list \<Rightarrow> 'c list result" where
  "to_string_block len one i_block block str =
     (let limit = (if i_block * LENGTH('a) < len then len - i_block * LENGTH('a) else LENGTH('a)) in
      rbind
        (rfold (\<lambda>i_bit (msk, str).
           rbind
             (if block AND msk \<noteq> zero_block
              then rbind (assert_that (i_block * LENGTH('a) + i_bit + 1 \<le> len)) (\<lambda>_.
                   set_idx str (len - (i_block * LENGTH('a) + i_bit + 1)) one)
              else Inr str) (\<lambda>str.
           Inr (push_bit 1 msk, str)))
         [0..<limit] (1, str))
        (\<lambda>(msk, str). Inr str))"

definition bits_to_string :: "'a :: len bitset \<Rightarrow> 'c \<Rightarrow> 'c \<Rightarrow> 'c list result" where
  "bits_to_string bs zero one =
     (let len = size_bits bs in
      rfold (\<lambda>i_block str.
          rbind (at_idx (m_blocks bs) i_block) (\<lambda>block.
          if block = zero_block then Inr str else to_string_block len one i_block block str))
        [0..<length (m_blocks bs)] (replicate len zero))"

definition init_from_string :: "'c list \<Rightarrow> nat \<Rightarrow> nat \<Rightarrow> 'c \<Rightarrow> 'c \<Rightarrow> 'a :: len bitset result" where
  "init_from_string str pos n zero one =
     rbind (assert_that (pos < length str)) (\<lambda>_.
     let size = min n (length str - pos) in
     rfold (\<lambda>i bs.
         rbind (at_idx str ((pos + size - 1) - i)) (\<lambda>c.
         rbind (assert_that (c = zero \<or> c = one)) (\<lambda>_.
         if c = one then set_bit_at bs i True else Inr bs)))
       [0..<size]
       \<lparr>m_blocks = replicate (blocks_required LENGTH('a) size) zero_block, m_bits_number = size\<rparr>)"

definition bitset_of_string_view :: "'c list \<Rightarrow> nat \<Rightarrow> nat \<Rightarrow> 'c \<Rightarrow> 'c \<Rightarrow> 'a :: len bitset result" where
  "bitset_of_string_view str pos n zero one =
     rbind (assert_that (pos < length str)) (\<lambda>_. init_from_string str pos n zero one)"

definition op_insert :: "string \<Rightarrow> 'a :: len bitset \<Rightarrow> string result" where
  "op_insert os bs = rbind (bits_to_string bs CHR ''0'' CHR ''1'') (\<lambda>str. Inr (os @ str))"

text \<open>Extraction: the sentry skips white space and fails at the end of the stream; the loop then
  pushes bits until the stream ends or another character is put back. The result holds the
  bitset and what is left of the stream.\<close>

definition is_space :: "char \<Rightarrow> bool" where
  "is_space c \<longleftrightarrow> c \<in> {CHR '' '', CHR 0x09, CHR 0x0A, CHR 0x0B, CHR 0x0C, CHR 0x0D}"

fun extract_loop :: "string \<Rightarrow> 'a :: len bitset \<Rightarrow> ('a bitset \<times> string) result" where
  "extract_loop [] rbs = Inr (rbs, [])"
| "extract_loop (c # cs) rbs =
     (if c = CHR ''1'' then rbind (push_back rbs True) (extract_loop cs)
      else if c = CHR ''0'' then rbind (push_back rbs False) (extract_loop cs)
      else Inr (rbs, c # cs))"

definition op_extract :: "string \<Rightarrow> 'a :: len bitset \<Rightarrow> ('a bitset \<times> string) result" where
  "op_extract is bs =
     (case dropWhile is_space is of
        [] \<Rightarrow> Inr (bs, [])
      | cs \<Rightarrow>
          rbind (extract_loop cs bitset_default) (\<lambda>(rbs :: 'a bitset, rest).
          rbind
            (if empty_bits rbs then Inr (clear bs)
             else
               rbind (rfold (\<lambda>i bs. rbind (test_bit_at rbs i) (push_back bs))
                        (rev [1..<size_bits rbs]) (clear bs)) (\<lambda>bs.
               rbind (test_bit_at rbs 0) (push_back bs)))
            (\<lambda>bs. Inr (bs, rest))))"

subsection \<open>References to a bit\<close>

text \<open>The proxy of \<open>operator[]\<close>: the block it refers to, by its index, and the mask of the bit.\<close>

record 'b reference =
  ref_block :: nat
  ref_mask :: 'b

definition reference_ctor :: "'a :: len bitset \<Rightarrow> nat \<Rightarrow> 'a word reference result" where
  "reference_ctor bs bit_pos =
     rbind (get_block bs bit_pos) (\<lambda>_.
     Inr \<lparr>ref_block = block_index LENGTH('a) bit_pos, ref_mask = bit_mask bit_pos\<rparr>)"

definition op_index :: "'a :: len bitset \<Rightarrow> nat \<Rightarrow> 'a word reference result" where
  "op_index bs pos = rbind (assert_that (pos < size_bits bs)) (\<lambda>_. reference_ctor bs pos)"

definition op_index_const :: "'a :: len bitset \<Rightarrow> nat \<Rightarrow> bool result" where
  "op_index_const bs pos = test_bit_at bs pos"

definition ref_bool :: "'a :: len bitset \<Rightarrow> 'a word reference \<Rightarrow> bool result" where
  "ref_bool bs r = rbind (at_idx (m_blocks bs) (ref_block r)) (\<lambda>b. Inr (b AND ref_mask r \<noteq> zero_block))"

definition ref_not :: "'a :: len bitset \<Rightarrow> 'a word reference \<Rightarrow> bool result" where
  "ref_not bs r = rbind (at_idx (m_blocks bs) (ref_block r)) (\<lambda>b. Inr (b AND ref_mask r = zero_block))"

definition ref_set :: "'a :: len bitset \<Rightarrow> 'a word reference \<Rightarrow> 'a bitset result" where
  "ref_set bs r = upd_block bs (ref_block r) (\<lambda>b. b OR ref_mask r)"

definition ref_reset :: "'a :: len bitset \<Rightarrow> 'a word reference \<Rightarrow> 'a bitset result" where
  "ref_reset bs r = upd_block bs (ref_block r) (\<lambda>b. b AND NOT (ref_mask r))"

definition ref_flip :: "'a :: len bitset \<Rightarrow> 'a word reference \<Rightarrow> 'a bitset result" where
  "ref_flip bs r = upd_block bs (ref_block r) (\<lambda>b. b XOR ref_mask r)"

definition ref_assign :: "'a :: len bitset \<Rightarrow> 'a word reference \<Rightarrow> bool \<Rightarrow> 'a bitset result" where
  "ref_assign bs r v = (if v then ref_set bs r else ref_reset bs r)"

definition ref_op_assign :: "'a :: len bitset \<Rightarrow> 'a word reference \<Rightarrow> bool \<Rightarrow> 'a bitset result" where
  "ref_op_assign bs r v = ref_assign bs r v"

definition ref_op_assign_ref ::
  "'a :: len bitset \<Rightarrow> 'a word reference \<Rightarrow> 'a bitset \<Rightarrow> 'a word reference \<Rightarrow> 'a bitset result" where
  "ref_op_assign_ref bs r rhs_bs rhs = rbind (ref_bool rhs_bs rhs) (ref_assign bs r)"

definition ref_op_and :: "'a :: len bitset \<Rightarrow> 'a word reference \<Rightarrow> bool \<Rightarrow> 'a bitset result" where
  "ref_op_and bs r v = (if \<not> v then ref_reset bs r else Inr bs)"

definition ref_op_or :: "'a :: len bitset \<Rightarrow> 'a word reference \<Rightarrow> bool \<Rightarrow> 'a bitset result" where
  "ref_op_or bs r v = (if v then ref_set bs r else Inr bs)"

definition ref_op_xor :: "'a :: len bitset \<Rightarrow> 'a word reference \<Rightarrow> bool \<Rightarrow> 'a bitset result" where
  "ref_op_xor bs r v = (if v then ref_flip bs r else Inr bs)"

definition ref_op_minus :: "'a :: len bitset \<Rightarrow> 'a word reference \<Rightarrow> bool \<Rightarrow> 'a bitset result" where
  "ref_op_minus bs r v = (if v then ref_reset bs r else Inr bs)"

end
