(* ===== verification/Dynamic_Bitset_Refinement.thy ===== *)
theory Dynamic_Bitset_Refinement
  imports Dynamic_Bitset
begin

text \<open>
  A consistent \<open>dynamic_bitset\<close> represents the list of its bits. \<open>nth_bit\<close> reads a bit of a vector
  of blocks by its position, \<open>bits\<close> is the represented list, and \<open>valid\<close> is the class's own
  \<open>check_consistency()\<close>. Each operation is related to the operation it performs on the list;
  that the model returns \<open>Inr\<close> also shows that no subscript leaves \<open>m_blocks\<close> and that no \<open>assert\<close>
  fails.
\<close>

subsection \<open>Bits of a block vector\<close>

definition nth_bit :: "'a :: len word list \<Rightarrow> nat \<Rightarrow> bool" where
  "nth_bit bl i \<longleftrightarrow> i div LENGTH('a) < length bl \<and> bit (bl ! (i div LENGTH('a))) (i mod LENGTH('a))"

definition bits :: "'a :: len bitset \<Rightarrow> bool list" where
  "bits bs = map (nth_bit (m_blocks bs)) [0..<m_bits_number bs]"

definition valid :: "'a :: len bitset \<Rightarrow> bool" where
  "valid bs \<longleftrightarrow> check_consistency bs = Inr True"

lemma length_bits [simp]: "length (bits bs) = m_bits_number bs"
  by (simp add: bits_def)

lemma nth_bits [simp]: "i < m_bits_number bs \<Longrightarrow> bits bs ! i = nth_bit (m_blocks bs) i"
  by (simp add: bits_def)

lemma mod_less_len [simp]: "i mod LENGTH('a :: len) < LENGTH('a)"
  by simp

lemma div_less_iff: "i div LENGTH('a :: len) < k \<longleftrightarrow> i < k * LENGTH('a)"
  by (simp add: div_less_iff_less_mult)

lemma block_of_unique:
  "i div LENGTH('a) \<noteq> k \<Longrightarrow> k * LENGTH('a :: len) \<le> i \<Longrightarrow> i < Suc k * LENGTH('a) \<Longrightarrow> False"
  by (simp only: div_less_iff [symmetric] less_eq_div_iff_mult_less_eq [symmetric] len_gt_0)

lemma nth_bit_update:
  "k < length bl \<Longrightarrow> nth_bit (bl[k := b :: 'a :: len word]) i =
    (if i div LENGTH('a) = k then bit b (i mod LENGTH('a)) else nth_bit bl i)"
  by (auto simp: nth_bit_def)

lemma nth_bit_ge: "length (bl :: 'a :: len word list) * LENGTH('a) \<le> i \<Longrightarrow> \<not> nth_bit bl i"
  by (simp add: nth_bit_def div_less_iff)

lemma nth_bit_append:
  "nth_bit (xs @ ys :: 'a :: len word list) i =
    (if i < length xs * LENGTH('a) then nth_bit xs i else nth_bit ys (i - length xs * LENGTH('a)))"
proof (cases "i < length xs * LENGTH('a)")
  case True
  then have "i div LENGTH('a) < length xs" by (simp add: div_less_iff)
  with True show ?thesis by (auto simp: nth_bit_def nth_append)
next
  case False
  then obtain j where j: "i = j + length xs * LENGTH('a)" by (metis add.commute le_Suc_ex not_less)
  then have "i div LENGTH('a) = j div LENGTH('a) + length xs" "i mod LENGTH('a) = j mod LENGTH('a)"
    by simp_all
  with False j show ?thesis by (auto simp: nth_bit_def nth_append)
qed

lemma nth_bit_Nil [simp]: "\<not> nth_bit [] i"
  by (simp add: nth_bit_def)

lemma nth_bit_Cons:
  "nth_bit (b # bl :: 'a :: len word list) i =
    (if i < LENGTH('a) then bit b i else nth_bit bl (i - LENGTH('a)))"
  using nth_bit_append [of "[b]" bl i] by (simp add: nth_bit_def)

lemma nth_bit_map:
  "nth_bit (map f bl :: 'a :: len word list) i \<longleftrightarrow>
    i < length bl * LENGTH('a) \<and> bit (f (bl ! (i div LENGTH('a)))) (i mod LENGTH('a))"
  by (auto simp: nth_bit_def div_less_iff)

lemma nth_bit_replicate:
  "nth_bit (replicate n b :: 'a :: len word list) i \<longleftrightarrow> i < n * LENGTH('a) \<and> bit b (i mod LENGTH('a))"
  by (auto simp: nth_bit_def div_less_iff)

lemma nth_bit_block:
  "k < length bl \<Longrightarrow> j < LENGTH('a) \<Longrightarrow> nth_bit bl (k * LENGTH('a) + j) = bit (bl ! k :: 'a :: len word) j"
  by (simp add: nth_bit_def div_less_iff)

lemma blocks_eqI:
  assumes "length xs = length ys" "\<And>i. i < length xs * LENGTH('a) \<Longrightarrow> nth_bit xs i = nth_bit ys i"
  shows "xs = (ys :: 'a :: len word list)"
proof (rule nth_equalityI [OF assms(1)])
  fix k assume k: "k < length xs"
  show "xs ! k = ys ! k"
  proof (rule bit_word_eqI)
    fix j assume j: "j < LENGTH('a)"
    from k j have "k * LENGTH('a) + j < length xs * LENGTH('a)"
      using div_less_iff [of "k * LENGTH('a) + j" "length xs", where 'a = 'a] by simp
    then show "bit (xs ! k) j = bit (ys ! k) j"
      using assms nth_bit_block [of k xs j] nth_bit_block [of k ys j] k j by simp
  qed
qed

subsection \<open>Masks\<close>

lemma zero_block_0 [simp]: "zero_block = 0"
  by (simp add: zero_block_def)

lemma bit_one_block [simp]: "bit (one_block :: 'a :: len word) i \<longleftrightarrow> i < LENGTH('a)"
  by (simp add: one_block_def bit_simps)

lemma bit_push_one_block [simp]:
  "bit (push_bit k (one_block :: 'a :: len word)) i \<longleftrightarrow> k \<le> i \<and> i < LENGTH('a)"
  by (auto simp: bit_push_bit_iff)

lemma bit_bit_mask [simp]: "bit (bit_mask pos :: 'a :: len word) i \<longleftrightarrow> i = pos mod LENGTH('a)"
  by (auto simp: bit_mask_def bit_index_def bit_simps)

lemma word_eq_0_iff: "x = 0 \<longleftrightarrow> (\<forall>i < LENGTH('a). \<not> bit (x :: 'a :: len word) i)"
  by (auto simp: bit_eq_iff dest: bit_imp_le_length)

lemma and_bit_mask [simp]: "b AND bit_mask pos = 0 \<longleftrightarrow> \<not> bit (b :: 'a :: len word) (pos mod LENGTH('a))"
  by (auto simp: word_eq_0_iff bit_simps dest: spec [of _ "pos mod LENGTH('a)"])

lemma push_bit_minus_1: "push_bit k 1 - 1 = (mask k :: 'a :: len word)"
  by (simp add: mask_eq_exp_minus_1)

lemma bit_bit_mask_range:
  assumes "f \<le> l" "l < LENGTH('a)"
  shows "bit (bit_mask_range f l :: 'a :: len word) i \<longleftrightarrow> f \<le> i \<and> i \<le> l"
proof (cases "l = LENGTH('a) - 1")
  case True
  with assms show ?thesis
    by (auto simp: bit_mask_range_def bit_index_def Let_def bit_push_bit_iff)
next
  case False
  then have "bit_mask_range f l = (mask (l + 1) XOR mask f :: 'a word)"
    using assms by (simp only: bit_mask_range_def bit_index_def Let_def push_bit_minus_1 mod_less
        order.strict_trans1 if_False)
  with assms show ?thesis by (auto simp: bit_xor_iff bit_mask_iff)
qed

subsection \<open>Consistency\<close>

lemma blocks_required_mult:
  "blocks_required LENGTH('a) n * LENGTH('a :: len) =
    (if n mod LENGTH('a) = 0 then n else n + (LENGTH('a) - n mod LENGTH('a)))"
proof -
  have n: "n div LENGTH('a) * LENGTH('a) + n mod LENGTH('a) = n" by simp
  have lt: "n mod LENGTH('a) < LENGTH('a)" by simp
  show ?thesis
  proof (cases "n mod LENGTH('a) = 0")
    case True
    with n show ?thesis by (simp add: blocks_required_def)
  next
    case False
    then have "blocks_required LENGTH('a) n * LENGTH('a) = n div LENGTH('a) * LENGTH('a) + LENGTH('a)"
      by (simp add: blocks_required_def)
    with n lt have "blocks_required LENGTH('a) n * LENGTH('a) = n + (LENGTH('a) - n mod LENGTH('a))"
      by linarith
    with False show ?thesis by simp
  qed
qed

lemma blocks_required_ge: "n \<le> blocks_required LENGTH('a :: len) n * LENGTH('a)"
  by (simp add: blocks_required_mult del: add_diff_assoc)

lemma blocks_required_less: "blocks_required LENGTH('a :: len) n * LENGTH('a) < n + LENGTH('a)"
  by (simp add: blocks_required_mult)

lemma blocks_required_extra:
  "n mod LENGTH('a :: len) \<noteq> 0 \<Longrightarrow> n < blocks_required LENGTH('a) n * LENGTH('a)"
proof -
  assume "n mod LENGTH('a) \<noteq> 0"
  moreover have "n mod LENGTH('a) < LENGTH('a)" by simp
  ultimately show ?thesis unfolding blocks_required_mult by (simp only: if_False)
qed

lemma blocks_required_le:
  assumes "n \<le> k * LENGTH('a :: len)"
  shows "blocks_required LENGTH('a) n \<le> k"
proof -
  have "blocks_required LENGTH('a) n * LENGTH('a) < Suc k * LENGTH('a)"
    using blocks_required_less [of n, where 'a = 'a] assms by simp
  then show ?thesis by (simp only: mult_less_cancel2 less_Suc_eq_le)
qed

lemma blocks_required_0 [simp]: "blocks_required w n = 0 \<longleftrightarrow> n = 0" if "0 < w"
  using that by (auto simp: blocks_required_def) (metis div_eq_0_iff mod_less neq0_conv)

lemma blocks_required_pos [simp]: "0 < w \<Longrightarrow> 0 < blocks_required w n \<longleftrightarrow> 0 < n"
  by (metis blocks_required_0 neq0_conv)

lemma blocks_required_unique:
  assumes "n \<le> k * LENGTH('a :: len)" "k * LENGTH('a) < n + LENGTH('a)"
  shows "blocks_required LENGTH('a) n = k"
proof -
  let ?r = "blocks_required LENGTH('a) n"
  have "?r * LENGTH('a) < n + LENGTH('a)" "n \<le> ?r * LENGTH('a)"
    by (simp_all add: blocks_required_ge) (simp add: blocks_required_mult)
  with assms have "?r * LENGTH('a) < Suc k * LENGTH('a)" "k * LENGTH('a) < Suc ?r * LENGTH('a)"
    by simp_all
  then have "?r < Suc k" "k < Suc ?r" by (simp_all only: mult_less_cancel2)
  then show ?thesis by simp
qed

text \<open>The last block of a bitset with extra bits covers the positions from there on.\<close>

lemma last_block_div:
  assumes "length bl = blocks_required LENGTH('a) n" "n mod LENGTH('a :: len) > 0"
  shows "length bl - 1 = n div LENGTH('a)" "n div LENGTH('a) < length bl"
  using assms by (simp_all add: blocks_required_def)

lemma valid_iff:
  "valid (bs :: 'a :: len bitset) \<longleftrightarrow>
    length (m_blocks bs) = blocks_required LENGTH('a) (m_bits_number bs) \<and>
    (\<forall>i \<ge> m_bits_number bs. \<not> nth_bit (m_blocks bs) i)"
proof (cases "length (m_blocks bs) = blocks_required LENGTH('a) (m_bits_number bs)")
  case False
  then show ?thesis by (auto simp: valid_def check_consistency_def check_size_def size_bits_def)
next
  case len: True
  let ?n = "m_bits_number bs" and ?bl = "m_blocks bs" and ?w = "LENGTH('a)"
  show ?thesis
  proof (cases "?n mod ?w = 0")
    case True
    then have "\<forall>i \<ge> ?n. \<not> nth_bit ?bl i"
      using len by (simp add: nth_bit_ge blocks_required_mult)
    with True len show ?thesis
      by (simp add: valid_def check_consistency_def check_size_def size_bits_def check_unused_bits_def
          extra_bits_number_def bit_index_def)
  next
    case False
    note lb = last_block_div [OF len] 
    have r: "?n mod ?w < ?w" by simp
    have pos: "?n div ?w * ?w + ?n mod ?w = ?n" by simp
    have "valid bs \<longleftrightarrow> (\<forall>j < ?w. \<not> (?n mod ?w \<le> j \<and> bit (?bl ! (?n div ?w)) j))"
      using False len lb
      by (auto simp: valid_def check_consistency_def check_size_def size_bits_def check_unused_bits_def
          extra_bits_number_def bit_index_def last_block_def word_eq_0_iff bit_simps Let_def)
    also have "\<dots> \<longleftrightarrow> (\<forall>i \<ge> ?n. \<not> nth_bit ?bl i)"
    proof (intro iffI allI impI)
      fix i assume *: "\<forall>j < ?w. \<not> (?n mod ?w \<le> j \<and> bit (?bl ! (?n div ?w)) j)" and i: "?n \<le> i"
      show "\<not> nth_bit ?bl i"
      proof
        assume b: "nth_bit ?bl i"
        then have "i div ?w < length ?bl" by (simp add: nth_bit_def)
        with lb False have "i div ?w \<le> ?n div ?w" by simp
        moreover from i have "?n div ?w \<le> i div ?w" by (rule div_le_mono)
        ultimately have d: "i div ?w = ?n div ?w" by simp
        have "i div ?w * ?w + i mod ?w = i" by simp
        then have "?n div ?w * ?w + i mod ?w = i" by (simp only: d)
        with pos i have "?n mod ?w \<le> i mod ?w" by linarith
        with * b d show False by (simp add: nth_bit_def)
      qed
    next
      fix j assume *: "\<forall>i \<ge> ?n. \<not> nth_bit ?bl i" and j: "j < ?w"
      show "\<not> (?n mod ?w \<le> j \<and> bit (?bl ! (?n div ?w)) j)"
        using * [rule_format, of "?n div ?w * ?w + j"] nth_bit_block [of "?n div ?w" ?bl j] lb False j pos
        by linarith
    qed
    finally show ?thesis using len by simp
  qed
qed

text \<open>\<open>repr bs l\<close>: the object is consistent and holds the bits \<open>l\<close>.\<close>

definition repr :: "'a :: len bitset \<Rightarrow> bool list \<Rightarrow> bool" where
  "repr bs l \<longleftrightarrow> valid bs \<and> bits bs = l"

lemma repr_iff:
  "repr (bs :: 'a :: len bitset) l \<longleftrightarrow>
    m_bits_number bs = length l \<and>
    length (m_blocks bs) = blocks_required LENGTH('a) (length l) \<and>
    (\<forall>i. nth_bit (m_blocks bs) i \<longleftrightarrow> i < length l \<and> l ! i)"
proof -
  have *: "(\<forall>i. nth_bit (m_blocks bs) i \<longleftrightarrow> i < length l \<and> l ! i) \<longleftrightarrow>
      (\<forall>i \<ge> length l. \<not> nth_bit (m_blocks bs) i) \<and> (\<forall>i < length l. nth_bit (m_blocks bs) i = l ! i)"
    by (meson not_le)
  show ?thesis unfolding * by (auto simp: repr_def valid_iff list_eq_iff_nth_eq)
qed

lemma valid_repr: "valid bs \<Longrightarrow> repr bs (bits bs)"
  by (simp add: repr_def)

lemma reprI:
  assumes "length (m_blocks bs) = blocks_required LENGTH('a) (length l)" "m_bits_number bs = length l"
    "\<And>i. i < length (m_blocks bs) * LENGTH('a) \<Longrightarrow> nth_bit (m_blocks bs) i \<longleftrightarrow> i < length l \<and> l ! i"
  shows "repr (bs :: 'a :: len bitset) l"
proof -
  have "nth_bit (m_blocks bs) i \<longleftrightarrow> i < length l \<and> l ! i" for i
  proof (cases "i < length (m_blocks bs) * LENGTH('a)")
    case False
    moreover from this have "\<not> i < length l" using assms(1) blocks_required_ge [of "length l", where 'a = 'a] by simp
    ultimately show ?thesis by (simp add: nth_bit_ge)
  qed (rule assms(3))
  with assms show ?thesis by (simp add: repr_iff)
qed

lemma repr_unique:
  assumes "repr bs l" "repr bs' l"
  shows "bs = (bs' :: 'a :: len bitset)"
proof -
  from assms have "m_blocks bs = m_blocks bs'" by (intro blocks_eqI) (simp_all add: repr_iff)
  with assms show ?thesis by (simp add: repr_iff)
qed

lemma repr_bit: "repr bs l \<Longrightarrow> nth_bit (m_blocks bs) i \<longleftrightarrow> i < length l \<and> l ! i"
  by (simp add: repr_iff)

lemma repr_block_in: "repr (bs :: 'a :: len bitset) l \<Longrightarrow> i < length l \<Longrightarrow> i div LENGTH('a) < length (m_blocks bs)"
  using blocks_required_ge [of "length l", where 'a = 'a] by (simp add: repr_iff div_less_iff)

lemma assert_consistent_returns: "returns (assert_consistent bs) P \<longleftrightarrow> valid bs \<and> P bs"
  by (auto simp: assert_consistent_def valid_def returns_def)

lemma upd_block_returns:
  "returns (upd_block bs k f) P \<longleftrightarrow>
    k < length (m_blocks bs) \<and> P (bs\<lparr>m_blocks := (m_blocks bs)[k := f (m_blocks bs ! k)]\<rparr>)"
  by (auto simp: upd_block_def returns_def)

lemma upd_block_in [result_simps]:
  "k < length (m_blocks bs) \<Longrightarrow> upd_block bs k f = Inr (bs\<lparr>m_blocks := (m_blocks bs)[k := f (m_blocks bs ! k)]\<rparr>)"
  by (simp add: upd_block_def result_simps)

lemma div_mod_eq_iff: "(i :: nat) div w = j div w \<and> i mod w = j mod w \<longleftrightarrow> i = j"
  by (metis div_mult_mod_eq)

text \<open>\<open>sanitize\<close> clears what lies beyond the size and nothing else.\<close>

lemma sanitize_returns:
  assumes "length (m_blocks bs) = blocks_required LENGTH('a) (m_bits_number bs)"
  shows "returns (sanitize (bs :: 'a :: len bitset)) (\<lambda>bs'. repr bs' (bits bs))"
proof (cases "m_bits_number bs mod LENGTH('a) = 0")
  case True
  moreover have "valid bs"
    unfolding valid_iff using True assms by (simp add: nth_bit_ge blocks_required_mult)
  ultimately show ?thesis by (simp add: sanitize_def repr_def)
next
  case False
  let ?w = "LENGTH('a)" and ?n = "m_bits_number bs" and ?bl = "m_blocks bs"
  note lb = last_block_div [OF assms]
  have n: "?n div ?w * ?w + ?n mod ?w = ?n" by simp
  have "nth_bit (?bl[?n div ?w := ?bl ! (?n div ?w) AND NOT (push_bit (?n mod ?w) one_block)]) i
      \<longleftrightarrow> i < ?n \<and> nth_bit ?bl i" if "i < length ?bl * ?w" for i
  proof -
    from that have "i div ?w < length ?bl" by (simp add: div_less_iff)
    with lb False have le: "i div ?w \<le> ?n div ?w" by simp
    have i: "i div ?w * ?w + i mod ?w = i" by simp
    show ?thesis
    proof (cases "i div ?w = ?n div ?w")
      case True
      with i n have "i < ?n \<longleftrightarrow> i mod ?w < ?n mod ?w" by (metis nat_add_left_cancel_less)
      with True lb False show ?thesis
        by (auto simp: nth_bit_update nth_bit_def bit_and_iff bit_not_iff)
    next
      case neq: False
      with le have "i < ?n" by (metis div_le_mono linorder_not_le nat_less_le)
      with neq lb False show ?thesis by (simp add: nth_bit_update)
    qed
  qed
  then have "repr (bs\<lparr>m_blocks := ?bl[?n div ?w := ?bl ! (?n div ?w) AND NOT (push_bit (?n mod ?w) one_block)]\<rparr>)
      (bits bs)"
    using assms by (intro reprI) auto
  with False lb show ?thesis by (simp add: sanitize_def upd_block_returns)
qed

subsection \<open>Positions changed by an operation\<close>

text \<open>\<open>maps_on g S bs bs'\<close>: the bits at the positions in \<open>S\<close> went through \<open>g\<close>, the others are kept.\<close>

definition maps_on :: "(bool \<Rightarrow> bool) \<Rightarrow> nat set \<Rightarrow> 'a :: len bitset \<Rightarrow> 'a bitset \<Rightarrow> bool" where
  "maps_on g S bs bs' \<longleftrightarrow>
     m_bits_number bs' = m_bits_number bs \<and> length (m_blocks bs') = length (m_blocks bs) \<and>
     (\<forall>i < length (m_blocks bs) * LENGTH('a).
        nth_bit (m_blocks bs') i = (if i \<in> S then g (nth_bit (m_blocks bs) i) else nth_bit (m_blocks bs) i))"

lemma maps_on_empty [simp]: "maps_on g {} bs bs"
  by (simp add: maps_on_def)

lemma maps_on_trans:
  "maps_on g S bs bs1 \<Longrightarrow> maps_on g T bs1 bs2 \<Longrightarrow> S \<inter> T = {} \<Longrightarrow> maps_on g (S \<union> T) bs bs2"
  by (auto simp: maps_on_def)

lemma maps_on_step:
  "maps_on g S bs bs1 \<Longrightarrow> returns m (maps_on g T bs1) \<Longrightarrow> S \<inter> T = {} \<Longrightarrow> U = S \<union> T \<Longrightarrow>
    returns m (maps_on g U bs)"
  by (auto simp: returns_def intro: maps_on_trans)

lemma maps_on_repr:
  assumes "repr (bs :: 'a :: len bitset) l" "maps_on g S bs bs'" "S \<subseteq> {..<length l}"
  shows "repr bs' (map (\<lambda>i. if i \<in> S then g (l ! i) else l ! i) [0..<length l])"
  using assms by (intro reprI) (auto simp: maps_on_def repr_iff)

lemma maps_on_length: "maps_on g S bs bs' \<Longrightarrow> length (m_blocks bs') = length (m_blocks bs)"
  by (simp add: maps_on_def)

lemma upd_block_maps_on:
  assumes "k < length (m_blocks bs)"
    and "\<And>j. j < LENGTH('a) \<Longrightarrow>
      bit (f (m_blocks bs ! k)) j = (if k * LENGTH('a) + j \<in> S then g (bit (m_blocks bs ! k) j) else bit (m_blocks bs ! k) j)"
    and "S \<subseteq> {k * LENGTH('a)..<(k + 1) * LENGTH('a)}"
  shows "returns (upd_block (bs :: 'a :: len bitset) k f) (maps_on g S bs)"
proof -
  have "nth_bit ((m_blocks bs)[k := f (m_blocks bs ! k)]) i =
      (if i \<in> S then g (nth_bit (m_blocks bs) i) else nth_bit (m_blocks bs) i)" for i
  proof (cases "i div LENGTH('a) = k")
    case True
    then have "k * LENGTH('a) + i mod LENGTH('a) = i" by auto
    with True assms(1) assms(2) [of "i mod LENGTH('a)"] show ?thesis
      by (simp add: nth_bit_update) (simp add: nth_bit_def)
  next
    case False
    have "i \<notin> S"
    proof
      assume "i \<in> S"
      with assms(3) have "k * LENGTH('a) \<le> i" "i < Suc k * LENGTH('a)" by auto
      with False show False by (rule block_of_unique)
    qed
    with False assms(1) show ?thesis by (simp add: nth_bit_update)
  qed
  with assms(1) show ?thesis by (simp add: upd_block_returns maps_on_def)
qed

text \<open>The common shape of the range operations \<open>set(pos, len, value)\<close> and \<open>flip(pos, len)\<close>.\<close>

definition range_op ::
  "('a :: len word \<Rightarrow> nat \<Rightarrow> nat \<Rightarrow> 'a word) \<Rightarrow> ('a word \<Rightarrow> 'a word) \<Rightarrow> 'a bitset \<Rightarrow> nat \<Rightarrow> nat \<Rightarrow> 'a bitset result" where
  "range_op part full bs pos len =
     (let first_block = pos div LENGTH('a);
          last_block = (pos + len - 1) div LENGTH('a);
          first_bit_index = pos mod LENGTH('a);
          last_bit_index = (pos + len - 1) mod LENGTH('a) in
       if first_block = last_block then
         upd_block bs first_block (\<lambda>b. part b first_bit_index last_bit_index)
       else
         let first_full_block = (if first_bit_index \<noteq> 0 then first_block + 1 else first_block);
             last_full_block = (if last_bit_index \<noteq> LENGTH('a) - 1 then last_block - 1 else last_block) in
         rbind (if first_bit_index \<noteq> 0
                then upd_block bs first_block (\<lambda>b. part b first_bit_index (LENGTH('a) - 1))
                else Inr bs) (\<lambda>bs1.
         rbind (if last_bit_index \<noteq> LENGTH('a) - 1
                then upd_block bs1 last_block (\<lambda>b. part b 0 last_bit_index)
                else Inr bs1) (\<lambda>bs2.
         rfold (\<lambda>i bs. upd_block bs i full) [first_full_block..<last_full_block + 1] bs2)))"

lemma set_range_alt:
  "set_range bs pos len value =
     rbind (assert_that (pos < size_bits bs)) (\<lambda>_.
     if len = 0 then Inr bs
     else rbind (assert_that (pos + len - 1 < size_bits bs)) (\<lambda>_.
       range_op (\<lambda>b f l. set_block_bits b f l value) (\<lambda>_. if value then one_block else zero_block) bs pos len))"
  by (simp add: set_range_def range_op_def block_index_def bit_index_def Let_def)

lemma flip_range_alt:
  "flip_range bs pos len =
     rbind (assert_that (pos < size_bits bs)) (\<lambda>_.
     if len = 0 then Inr bs
     else rbind (assert_that (pos + len - 1 < size_bits bs)) (\<lambda>_. range_op flip_block_bits NOT bs pos len))"
  by (simp add: flip_range_def range_op_def block_index_def bit_index_def Let_def)

lemma full_loop_maps_on:
  assumes "\<And>b j. j < LENGTH('a) \<Longrightarrow> bit (full b) j = g (bit b j)"
    and "b \<le> length (m_blocks bs)"
  shows "returns (rfold (\<lambda>i bs. upd_block bs i full) [a..<b] (bs :: 'a :: len bitset))
    (maps_on g {a * LENGTH('a)..<b * LENGTH('a)} bs)"
proof (cases "a \<le> b")
  case False
  then have "{a * LENGTH('a)..<b * LENGTH('a)} = {}" by simp
  with False show ?thesis by simp
next
  case True
  have "returns (rfold (\<lambda>i bs. upd_block bs i full) [a..<b] bs)
    (maps_on g {a * LENGTH('a)..<(a + length [a..<b]) * LENGTH('a)} bs)"
  proof (rule returns_rfold [where I = "\<lambda>k. maps_on g {a * LENGTH('a)..<(a + k) * LENGTH('a)} bs"])
    fix k s assume k: "k < length [a..<b]" and s: "maps_on g {a * LENGTH('a)..<(a + k) * LENGTH('a)} bs s"
    have ak: "a + k < length (m_blocks s)" using k assms(2) maps_on_length [OF s] by simp
    have "returns (upd_block s (a + k) full) (maps_on g {(a + k) * LENGTH('a)..<(a + k + 1) * LENGTH('a)} s)"
      by (rule upd_block_maps_on) (use ak assms(1) in auto)
    then show "returns (upd_block s ([a..<b] ! k) full) (maps_on g {a * LENGTH('a)..<(a + Suc k) * LENGTH('a)} bs)"
    proof (intro maps_on_step [OF s])
      show "{a * LENGTH('a)..<(a + Suc k) * LENGTH('a)} =
          {a * LENGTH('a)..<(a + k) * LENGTH('a)} \<union> {(a + k) * LENGTH('a)..<(a + k + 1) * LENGTH('a)}"
        by (subst ivl_disj_un_two(3)) simp_all
    qed (use k in auto)
  qed simp
  with True show ?thesis by simp
qed

lemma part_maps_on:
  assumes "\<And>b f l j. f \<le> l \<Longrightarrow> l < LENGTH('a) \<Longrightarrow> j < LENGTH('a) \<Longrightarrow>
      bit (part b f l) j = (if f \<le> j \<and> j \<le> l then g (bit b j) else bit b j)"
    and "k < length (m_blocks bs)" "f \<le> l" "l < LENGTH('a)"
  shows "returns (upd_block (bs :: 'a :: len bitset) k (\<lambda>b. part b f l))
    (maps_on g {k * LENGTH('a) + f..k * LENGTH('a) + l} bs)"
proof (rule upd_block_maps_on [OF assms(2)])
  fix j assume "j < LENGTH('a)"
  from assms(1) [OF assms(3,4) this, of "m_blocks bs ! k"]
  show "bit (part (m_blocks bs ! k) f l) j = (if k * LENGTH('a) + j \<in> {k * LENGTH('a) + f..k * LENGTH('a) + l}
      then g (bit (m_blocks bs ! k) j) else bit (m_blocks bs ! k) j)"
    by simp
qed (use assms(4) in auto)

lemma range_op_maps_on:
  assumes part: "\<And>b f l j. f \<le> l \<Longrightarrow> l < LENGTH('a) \<Longrightarrow> j < LENGTH('a) \<Longrightarrow>
      bit (part b f l) j = (if f \<le> j \<and> j \<le> l then g (bit b j) else bit b j)"
    and full: "\<And>b j. j < LENGTH('a) \<Longrightarrow> bit (full b) j = g (bit b j)"
    and len: "0 < len" "pos + len \<le> length (m_blocks bs) * LENGTH('a)"
  shows "returns (range_op part full (bs :: 'a :: len bitset) pos len) (maps_on g {pos..<pos + len} bs)"
proof -
  define w where "w = LENGTH('a)"
  define e where "e = pos + len - 1"
  define fb fi lb li where "fb = pos div w" "fi = pos mod w" "lb = e div w" "li = e mod w"
  note idx = this
  have w: "0 < w" "fi < w" "li < w" by (simp_all add: idx w_def)
  have pos: "fb * w + fi = pos" and e: "lb * w + li = e" by (simp_all add: idx)
  have S: "{pos..<pos + len} = {pos..e}" using len by (auto simp: e_def)
  have lb: "lb < length (m_blocks bs)" using len by (simp add: idx w_def div_less_iff e_def)
  have le: "fb \<le> lb" using len by (auto simp: idx e_def intro!: div_le_mono)
  have part': "returns (upd_block s k (\<lambda>b. part b f l)) (maps_on g {k * w + f..k * w + l} s)"
    if "k < length (m_blocks s)" "f \<le> l" "l < w" for k s f l
    unfolding w_def by (rule part_maps_on [OF part]) (use that in \<open>simp_all add: w_def\<close>)
  show ?thesis
  proof (cases "fb = lb")
    case True
    with pos e len have "fi \<le> li" by (simp add: e_def)
    with part' [of lb bs fi li] lb w have "returns (upd_block bs lb (\<lambda>b. part b fi li)) (maps_on g {pos..e} bs)"
      using True by (simp only: pos [symmetric] e [symmetric])
    moreover have "range_op part full bs pos len = upd_block bs lb (\<lambda>b. part b fi li)"
      using True by (simp add: range_op_def Let_def idx e_def w_def)
    ultimately show ?thesis by (simp only: S)
  next
    case False
    with le have lt: "fb + 1 \<le> lb" by simp
    define ff lf where "ff = (if fi \<noteq> 0 then fb + 1 else fb)" "lf = (if li \<noteq> w - 1 then lb - 1 else lb)"
    note full_idx = this
    define S1 where "S1 = (if fi \<noteq> 0 then {fb * w + fi..fb * w + (w - 1)} else {})"
    define S2 where "S2 = (if li \<noteq> w - 1 then {lb * w + 0..lb * w + li} else {})"
    have mono: "(fb + 1) * w \<le> lb * w" using lt by (rule mult_le_mono1)
    then have mono': "fb * w + w \<le> lb * w" by simp
    have s1: "returns (if fi \<noteq> 0 then upd_block bs fb (\<lambda>b. part b fi (w - 1)) else Inr bs) (maps_on g S1 bs)"
      using part' [of fb bs fi "w - 1"] lb lt w by (simp add: S1_def)
    have s2: "returns (if li \<noteq> w - 1 then upd_block bs1 lb (\<lambda>b. part b 0 li) else Inr bs1)
        (maps_on g (S1 \<union> S2) bs)" if "maps_on g S1 bs bs1" for bs1
    proof (rule maps_on_step [OF that])
      show "returns (if li \<noteq> w - 1 then upd_block bs1 lb (\<lambda>b. part b 0 li) else Inr bs1) (maps_on g S2 bs1)"
        using part' [of lb bs1 0 li] lb w maps_on_length [OF that] by (simp add: S2_def)
      show "S1 \<inter> S2 = {}" using mono' w by (auto simp: S1_def S2_def)
    qed simp
    have ff: "ff * w = (if fi \<noteq> 0 then fb * w + w else fb * w)" by (simp add: full_idx)
    have lf: "(lf + 1) * w = (if li \<noteq> w - 1 then lb * w else lb * w + w)"
      using lt by (cases lb) (auto simp: full_idx)
    have s3: "returns (rfold (\<lambda>i bs. upd_block bs i full) [ff..<lf + 1] bs2) (maps_on g {pos..<pos + len} bs)"
      if "maps_on g (S1 \<union> S2) bs bs2" for bs2
    proof (rule maps_on_step [OF that])
      show "returns (rfold (\<lambda>i bs. upd_block bs i full) [ff..<lf + 1] bs2) (maps_on g {ff * w..<(lf + 1) * w} bs2)"
        unfolding w_def by (rule full_loop_maps_on [OF full])
          (use lb maps_on_length [OF that] in \<open>auto simp: full_idx\<close>)
      show "(S1 \<union> S2) \<inter> {ff * w..<(lf + 1) * w} = {}"
        using mono' w unfolding ff lf S1_def S2_def by auto
      show "{pos..<pos + len} = S1 \<union> S2 \<union> {ff * w..<(lf + 1) * w}"
        using mono' w pos e unfolding S ff lf S1_def S2_def by auto
    qed
    have "range_op part full bs pos len =
      rbind (if fi \<noteq> 0 then upd_block bs fb (\<lambda>b. part b fi (w - 1)) else Inr bs) (\<lambda>bs1.
      rbind (if li \<noteq> w - 1 then upd_block bs1 lb (\<lambda>b. part b 0 li) else Inr bs1) (\<lambda>bs2.
      rfold (\<lambda>i bs. upd_block bs i full) [ff..<lf + 1] bs2))"
      using False by (simp add: range_op_def Let_def idx e_def w_def full_idx)
    also have "returns \<dots> (maps_on g {pos..<pos + len} bs)"
      by (rule returns_bind [OF s1], erule returns_bind [OF s2], erule s3)
    finally show ?thesis .
  qed
qed

lemma set_block_bits_bit:
  "f \<le> l \<Longrightarrow> l < LENGTH('a) \<Longrightarrow> j < LENGTH('a) \<Longrightarrow>
    bit (set_block_bits (b :: 'a :: len word) f l v) j = (if f \<le> j \<and> j \<le> l then v else bit b j)"
  by (auto simp: set_block_bits_def bit_or_iff bit_and_iff bit_not_iff bit_bit_mask_range)

lemma flip_block_bits_bit:
  "f \<le> l \<Longrightarrow> l < LENGTH('a) \<Longrightarrow> j < LENGTH('a) \<Longrightarrow>
    bit (flip_block_bits (b :: 'a :: len word) f l) j = (if f \<le> j \<and> j \<le> l then \<not> bit b j else bit b j)"
  by (auto simp: flip_block_bits_def bit_xor_iff bit_bit_mask_range)

subsection \<open>Bits and ranges\<close>

definition list_range :: "(bool \<Rightarrow> bool) \<Rightarrow> nat \<Rightarrow> nat \<Rightarrow> bool list \<Rightarrow> bool list" where
  "list_range g pos len l = take pos l @ map g (take len (drop pos l)) @ drop (pos + len) l"

lemma list_range_alt:
  assumes "pos + len \<le> length l"
  shows "list_range g pos len l = map (\<lambda>i. if i \<in> {pos..<pos + len} then g (l ! i) else l ! i) [0..<length l]"
proof (rule nth_equalityI)
  show "length (list_range g pos len l) =
      length (map (\<lambda>i. if i \<in> {pos..<pos + len} then g (l ! i) else l ! i) [0..<length l])"
    using assms by (simp add: list_range_def)
  fix i assume "i < length (list_range g pos len l)"
  then show "list_range g pos len l ! i =
      map (\<lambda>i. if i \<in> {pos..<pos + len} then g (l ! i) else l ! i) [0..<length l] ! i"
    using assms by (auto simp: list_range_def nth_append)
qed

lemma repr_size: "repr bs l \<Longrightarrow> m_bits_number bs = length l"
  by (simp add: repr_iff)

lemma repr_blocks: "repr (bs :: 'a :: len bitset) l \<Longrightarrow> length (m_blocks bs) = blocks_required LENGTH('a) (length l)"
  by (simp add: repr_iff)

lemma repr_size_blocks: "repr (bs :: 'a :: len bitset) l \<Longrightarrow> length l \<le> length (m_blocks bs) * LENGTH('a)"
  using blocks_required_ge [of "length l", where 'a = 'a] by (simp add: repr_iff)

lemma range_op_repr:
  assumes "repr (bs :: 'a :: len bitset) l" "0 < len" "pos + len \<le> length l"
    and "\<And>b f l j. f \<le> l \<Longrightarrow> l < LENGTH('a) \<Longrightarrow> j < LENGTH('a) \<Longrightarrow>
      bit (part b f l) j = (if f \<le> j \<and> j \<le> l then g (bit b j) else bit b j)"
    and "\<And>b j. j < LENGTH('a) \<Longrightarrow> bit (full b) j = g (bit b j)"
  shows "returns (range_op part full bs pos len) (\<lambda>bs'. repr bs' (list_range g pos len l))"
proof -
  from assms(3) repr_size_blocks [OF assms(1)] have "pos + len \<le> length (m_blocks bs) * LENGTH('a)"
    by simp
  from range_op_maps_on [OF assms(4,5,2) this]
  have "returns (range_op part full bs pos len) (maps_on g {pos..<pos + len} bs)" by blast
  then show ?thesis
    unfolding list_range_alt [OF assms(3)]
    by (rule returns_mono) (rule maps_on_repr [OF assms(1)], use assms(3) in auto)
qed

lemma set_range_returns:
  assumes "repr bs l" "pos < length l" "pos + len \<le> length l"
  shows "returns (set_range bs pos len v) (\<lambda>bs'. repr bs' (list_range (\<lambda>_. v) pos len l))"
  using assms repr_size [OF assms(1)]
  by (cases "len = 0")
    (auto simp: set_range_alt size_bits_def list_range_def [of _ _ 0] set_block_bits_bit intro!: range_op_repr)

lemma flip_range_returns:
  assumes "repr bs l" "pos < length l" "pos + len \<le> length l"
  shows "returns (flip_range bs pos len) (\<lambda>bs'. repr bs' (list_range Not pos len l))"
  using assms repr_size [OF assms(1)]
  by (cases "len = 0")
    (auto simp: flip_range_alt size_bits_def list_range_def [of _ _ 0] flip_block_bits_bit bit_not_iff
      intro!: range_op_repr)

lemma upd_bit_returns:
  assumes "repr (bs :: 'a :: len bitset) l" "pos < length l"
    and "\<And>j. j < LENGTH('a) \<Longrightarrow> bit (f (m_blocks bs ! (pos div LENGTH('a)))) j =
      (if j = pos mod LENGTH('a) then v else bit (m_blocks bs ! (pos div LENGTH('a))) j)"
  shows "returns (upd_block bs (pos div LENGTH('a)) f) (\<lambda>bs'. repr bs' (l[pos := v]))"
proof -
  let ?w = "LENGTH('a)"
  have pos: "pos div ?w * ?w + pos mod ?w = pos" by simp
  have "returns (upd_block bs (pos div ?w) f) (maps_on (\<lambda>_. v) {pos} bs)"
  proof (rule upd_block_maps_on [OF repr_block_in [OF assms(1,2)]])
    fix j assume "j < ?w"
    moreover have "pos div ?w * ?w + j \<in> {pos} \<longleftrightarrow> j = pos mod ?w"
      using pos by (metis add_left_cancel singleton_iff)
    ultimately show "bit (f (m_blocks bs ! (pos div ?w))) j = (if pos div ?w * ?w + j \<in> {pos}
        then v else bit (m_blocks bs ! (pos div ?w)) j)"
      using assms(3) [of j] by simp
  next
    show "{pos} \<subseteq> {pos div ?w * ?w..<(pos div ?w + 1) * ?w}"
      using block_of_unique [of pos "pos div ?w"] div_less_iff [of pos "pos div ?w + 1", where 'a = 'a]
      by simp
  qed
  then show ?thesis
  proof (rule returns_mono)
    fix bs' assume "maps_on (\<lambda>_. v) {pos} bs bs'"
    from maps_on_repr [OF assms(1) this] assms(2)
    have "repr bs' (map (\<lambda>i. if i \<in> {pos} then v else l ! i) [0..<length l])" by simp
    also have "map (\<lambda>i. if i \<in> {pos} then v else l ! i) [0..<length l] = l[pos := v]"
      by (rule nth_equalityI) auto
    finally show "repr bs' (l[pos := v])" .
  qed
qed

lemma set_bit_at_returns:
  "repr bs l \<Longrightarrow> pos < length l \<Longrightarrow> returns (set_bit_at bs pos v) (\<lambda>bs'. repr bs' (l[pos := v]))"
  by (cases v) (auto simp: set_bit_at_def size_bits_def repr_size block_index_def bit_or_iff bit_and_iff
      bit_not_iff intro!: upd_bit_returns split: if_splits)

lemma repr_block_bit:
  "repr (bs :: 'a :: len bitset) l \<Longrightarrow> i < length l \<Longrightarrow> bit (m_blocks bs ! (i div LENGTH('a))) (i mod LENGTH('a)) = l ! i"
  using repr_bit [of bs l i] repr_block_in [of bs l i] by (simp add: nth_bit_def)

lemma flip_at_returns:
  "repr bs l \<Longrightarrow> pos < length l \<Longrightarrow> returns (flip_at bs pos) (\<lambda>bs'. repr bs' (l[pos := \<not> l ! pos]))"
  by (auto simp: flip_at_def size_bits_def repr_size block_index_def bit_xor_iff repr_block_bit
      intro!: upd_bit_returns)

lemma test_bit_at_eq: "repr bs l \<Longrightarrow> pos < length l \<Longrightarrow> test_bit_at bs pos = Inr (l ! pos)"
  by (simp add: test_bit_at_def size_bits_def repr_size block_index_def result_simps repr_block_in repr_block_bit)

lemma test_set_returns:
  assumes "repr bs l" "pos < length l"
  shows "returns (test_set bs pos v) (\<lambda>(old, bs'). old = l ! pos \<and> repr bs' (l[pos := v]))"
proof (cases "l ! pos = v")
  case True
  then have "l[pos := v] = l" using list_update_id [of l pos] by simp
  with True assms show ?thesis by (simp add: test_set_def test_bit_at_eq)
next
  case False
  with assms set_bit_at_returns [OF assms, of v] show ?thesis
    by (auto simp: test_set_def test_bit_at_eq returns_def)
qed

subsection \<open>Whole-bitset updates and size changes\<close>

lemma sanitize_repr:
  assumes "length (m_blocks bs) = blocks_required LENGTH('a) (length l)" "m_bits_number bs = length l"
    and "\<And>i. i < length l \<Longrightarrow> nth_bit (m_blocks bs) i = l ! i"
  shows "returns (sanitize (bs :: 'a :: len bitset)) (\<lambda>bs'. repr bs' l)"
proof -
  from assms have "bits bs = l" by (intro nth_equalityI) auto
  with sanitize_returns [of bs] assms show ?thesis by simp
qed

lemma set_all_returns: "repr bs l \<Longrightarrow> returns (set_all bs) (\<lambda>bs'. repr bs' (replicate (length l) True))"
  using repr_size_blocks [of bs l]
  by (auto simp: set_all_def repr_size repr_blocks nth_bit_map intro!: sanitize_repr)

lemma reset_all_repr: "repr bs l \<Longrightarrow> repr (reset_all bs) (replicate (length l) False)"
  by (auto simp: reset_all_def repr_size repr_blocks nth_bit_map intro!: reprI)

lemma flip_all_returns: "repr bs l \<Longrightarrow> returns (flip_all bs) (\<lambda>bs'. repr bs' (map Not l))"
  using repr_size_blocks [of bs l]
  by (auto simp: flip_all_def repr_size repr_blocks nth_bit_map bit_not_iff repr_block_bit intro!: sanitize_repr)

lemma clear_repr [simp]: "repr (clear bs) []"
  by (simp add: clear_def repr_iff blocks_required_def)

lemma bitset_default_repr [simp]: "repr bitset_default []"
  by (simp add: bitset_default_def repr_iff blocks_required_def)

lemma blocks_required_Suc:
  "blocks_required LENGTH('a :: len) (Suc n) =
    (if n mod LENGTH('a) = 0 then Suc (blocks_required LENGTH('a) n) else blocks_required LENGTH('a) n)"
proof (cases "n mod LENGTH('a) = 0")
  case True
  then have "blocks_required LENGTH('a) n * LENGTH('a) = n" by (simp add: blocks_required_mult)
  moreover have "Suc 0 \<le> LENGTH('a)" by (simp add: Suc_le_eq)
  ultimately have "blocks_required LENGTH('a) (Suc n) = Suc (blocks_required LENGTH('a) n)"
    by (intro blocks_required_unique) simp_all
  with True show ?thesis by simp
next
  case False
  with blocks_required_extra [OF False] blocks_required_less [of n, where 'a = 'a]
  have "blocks_required LENGTH('a) (Suc n) = blocks_required LENGTH('a) n"
    by (intro blocks_required_unique) simp_all
  with False show ?thesis by simp
qed

lemma repr_push_False:
  assumes "repr (bs :: 'a :: len bitset) l" "length l mod LENGTH('a) \<noteq> 0"
  shows "repr (bs\<lparr>m_bits_number := m_bits_number bs + 1\<rparr>) (l @ [False])"
  using assms by (intro reprI)
    (auto simp: repr_size repr_blocks repr_bit [OF assms(1)] blocks_required_Suc nth_append)

lemma push_back_returns:
  assumes "repr (bs :: 'a :: len bitset) l"
  shows "returns (push_back bs v) (\<lambda>bs'. repr bs' (l @ [v]))"
proof -
  let ?bs = "bs\<lparr>m_bits_number := m_bits_number bs + 1\<rparr>"
  have n: "m_bits_number bs = length l" and len: "length (m_blocks bs) = blocks_required LENGTH('a) (length l)"
    using assms by (simp_all add: repr_iff)
  have fits: "Suc (length l) \<le> length (m_blocks bs) * LENGTH('a) \<longleftrightarrow> length l mod LENGTH('a) \<noteq> 0"
    using blocks_required_mult [of "length l", where 'a = 'a] blocks_required_extra [of "length l", where 'a = 'a]
    by (cases "length l mod LENGTH('a) = 0") (simp_all add: len Suc_le_eq)
  have upd: "(l @ [False])[length l := v] = l @ [v]" by simp
  have "returns
        (if m_bits_number ?bs \<le> length (m_blocks ?bs) * LENGTH('a) then
           (if v then set_bit_at ?bs (m_bits_number bs) v else Inr ?bs)
         else Inr (?bs\<lparr>m_blocks := m_blocks ?bs @ [of_bool v]\<rparr>)) (\<lambda>bs'. repr bs' (l @ [v]))"
  proof (cases "length l mod LENGTH('a) = 0")
    case False
    note F = repr_push_False [OF assms False]
    from set_bit_at_returns [OF F, of "length l" v] F False fits show ?thesis by (cases v) (auto simp: n)
  next
    case True
    have "repr (?bs\<lparr>m_blocks := m_blocks ?bs @ [of_bool v]\<rparr>) (l @ [v])"
    proof (rule reprI)
      fix i
      have "length (m_blocks bs) * LENGTH('a) = length l"
        using True by (simp add: len blocks_required_mult)
      then show "nth_bit (m_blocks (?bs\<lparr>m_blocks := m_blocks ?bs @ [of_bool v]\<rparr>)) i \<longleftrightarrow>
          i < length (l @ [v]) \<and> (l @ [v]) ! i"
        using repr_bit [OF assms, of i]
        by (cases "i < length l")
          (auto simp: nth_bit_append nth_append nth_bit_Cons bit_of_bool_iff)
    qed (use True in \<open>simp_all add: n len blocks_required_Suc\<close>)
    with True fits show ?thesis by (simp add: n)
  qed
  then show ?thesis
    unfolding push_back_def Let_def
    by (rule returns_bind) (auto simp: test_bit_at_eq [where l = "l @ [v]"] n assert_consistent_returns repr_def)
qed

lemma repr_take:
  assumes "repr (bs :: 'a :: len bitset) l" "n \<le> length l"
  shows "returns (sanitize (bs\<lparr>m_blocks := take (blocks_required LENGTH('a) n) (m_blocks bs), m_bits_number := n\<rparr>))
    (\<lambda>bs'. repr bs' (take n l))"
proof (rule sanitize_repr)
  have mono: "blocks_required LENGTH('a) n \<le> length (m_blocks bs)"
    using repr_size_blocks [OF assms(1)] assms(2) by (intro blocks_required_le) simp
  then show "length (m_blocks (bs\<lparr>m_blocks := take (blocks_required LENGTH('a) n) (m_blocks bs), m_bits_number := n\<rparr>)) =
      blocks_required LENGTH('a) (length (take n l))" using assms(2) by simp
  fix i assume "i < length (take n l)"
  with assms(2) have i: "i < n" "i < length l" by simp_all
  with blocks_required_ge [of n, where 'a = 'a] have "i div LENGTH('a) < blocks_required LENGTH('a) n"
    by (simp add: div_less_iff)
  with i mono repr_bit [OF assms(1), of i]
  show "nth_bit (m_blocks (bs\<lparr>m_blocks := take (blocks_required LENGTH('a) n) (m_blocks bs), m_bits_number := n\<rparr>)) i = take n l ! i"
    by (simp add: nth_bit_def)
qed (use assms(2) in simp)

lemma bitset_update_commute:
  "bs\<lparr>m_bits_number := n, m_blocks := bl\<rparr> = bs\<lparr>m_blocks := bl, m_bits_number := n\<rparr>"
  by (cases bs) simp

lemma sanitize_aligned: "m_bits_number (bs :: 'a :: len bitset) mod LENGTH('a) = 0 \<Longrightarrow> sanitize bs = Inr bs"
  by (simp add: sanitize_def)

lemma pop_back_returns:
  assumes "repr (bs :: 'a :: len bitset) l"
  shows "returns (pop_back bs) (\<lambda>bs'. repr bs' (butlast l))"
proof (cases l rule: rev_cases)
  case Nil
  with assms show ?thesis by (simp add: pop_back_def empty_bits_def size_bits_def repr_size)
next
  case (snoc m v)
  define n where "n = length m"
  have bl: "length (m_blocks bs) = (if n mod LENGTH('a) = 0 then Suc (blocks_required LENGTH('a) n)
      else blocks_required LENGTH('a) n)" and sz: "m_bits_number bs = Suc n"
    using repr_blocks [OF assms] repr_size [OF assms] snoc by (simp_all add: n_def blocks_required_Suc)
  have take: "returns (sanitize (bs\<lparr>m_blocks := take (blocks_required LENGTH('a) n) (m_blocks bs), m_bits_number := n\<rparr>))
      (\<lambda>bs'. repr bs' m)"
    using repr_take [OF assms, of n] snoc by (simp add: n_def)
  have fin: "returns (rbind M assert_consistent) (\<lambda>bs'. repr bs' m)" if "returns M (\<lambda>bs'. repr bs' m)" for M
    using that by (auto simp: returns_def repr_def assert_consistent_def valid_def)
  show ?thesis
  proof (cases "n mod LENGTH('a) = 0")
    case True
    then have "take (blocks_required LENGTH('a) n) (m_blocks bs) = butlast (m_blocks bs)"
      using bl by (simp add: butlast_conv_take)
    with take True have "repr (bs\<lparr>m_blocks := butlast (m_blocks bs), m_bits_number := n\<rparr>) m"
      by (simp add: sanitize_aligned)
    then show ?thesis
      using True bl sz snoc
      by (simp add: pop_back_def empty_bits_def size_bits_def Let_def extra_bits_number_def bit_index_def
          assert_consistent_returns repr_def bitset_update_commute)
  next
    case False
    then have "take (blocks_required LENGTH('a) n) (m_blocks bs) = m_blocks bs" using bl by simp
    with take have "returns (sanitize (bs\<lparr>m_bits_number := n\<rparr>)) (\<lambda>bs'. repr bs' m)" by simp
    from fin [OF this] show ?thesis
      using False bl sz snoc by (simp add: pop_back_def empty_bits_def size_bits_def Let_def)
  qed
qed

lemma nth_bit_vec_resize:
  "i < k * LENGTH('a) \<Longrightarrow> nth_bit (vec_resize k v bl) i =
    (if i < length bl * LENGTH('a) then nth_bit bl i else bit (v :: 'a :: len word) (i mod LENGTH('a)))"
  by (auto simp: nth_bit_def nth_vec_resize div_less_iff)

text \<open>The state of \<open>resize\<close> before \<open>sanitize\<close>.\<close>

lemma resize_shrink:
  assumes "repr (bs :: 'a :: len bitset) l" "n \<le> length l"
  shows "returns (resize bs n v) (\<lambda>bs'. repr bs' (take n l))"
proof (cases "n = length l")
  case True
  with assms show ?thesis by (simp add: resize_def repr_size)
next
  case False
  have le: "blocks_required LENGTH('a) n \<le> length (m_blocks bs)"
    using repr_size_blocks [OF assms(1)] assms(2) by (intro blocks_required_le) simp
  then have "(if blocks_required LENGTH('a) n \<noteq> length (m_blocks bs)
      then bs\<lparr>m_blocks := vec_resize (blocks_required LENGTH('a) n) b (m_blocks bs)\<rparr> else bs)
      = bs\<lparr>m_blocks := take (blocks_required LENGTH('a) n) (m_blocks bs)\<rparr>" for b
    by (auto simp: vec_resize_def)
  with False assms have "resize bs n v = rbind (sanitize
      (bs\<lparr>m_blocks := take (blocks_required LENGTH('a) n) (m_blocks bs), m_bits_number := n\<rparr>)) assert_consistent"
    by (simp add: resize_def Let_def num_blocks_def repr_size)
  also have "returns \<dots> (\<lambda>bs'. repr bs' (take n l))"
    by (rule returns_bind [OF repr_take [OF assms]]) (simp add: assert_consistent_returns repr_def)
  finally show ?thesis .
qed

lemma resize_grow:
  assumes "repr (bs :: 'a :: len bitset) l" "length l < n"
  shows "returns (resize bs n v) (\<lambda>bs'. repr bs' (l @ replicate (n - length l) v))"
proof -
  let ?w = "LENGTH('a)" and ?bl = "m_blocks bs" and ?l = "l @ replicate (n - length l) v"
  define b :: "'a word" where "b = (if v then one_block else zero_block)"
  define bl where "bl = vec_resize (blocks_required ?w n) b ?bl"
  define extra where "extra = length l mod ?w"
  have bs1: "(if blocks_required ?w n \<noteq> length ?bl then bs\<lparr>m_blocks := vec_resize (blocks_required ?w n) b ?bl\<rparr> else bs)
      = bs\<lparr>m_blocks := bl\<rparr>"
    by (auto simp: bl_def vec_resize_def)
  have n: "n \<le> blocks_required ?w n * ?w" by (rule blocks_required_ge)
  have bl_bit: "nth_bit bl i = (if i < length ?bl * ?w then i < length l \<and> l ! i else v)" if "i < n" for i
    using that n repr_bit [OF assms(1)] by (auto simp: bl_def nth_bit_vec_resize b_def)
  have le: "length ?bl \<le> length bl"
    unfolding bl_def repr_blocks [OF assms(1)] length_vec_resize
    using assms(2) n by (intro blocks_required_le) simp
  define bl2 where "bl2 = (if v \<and> extra > 0 then bl[length ?bl - 1 := bl ! (length ?bl - 1) OR push_bit extra b] else bl)"
  have step: "(if v \<and> n > m_bits_number (bs\<lparr>m_blocks := bl\<rparr>) \<and> length ?bl > 0 then
       if extra_bits_number (bs\<lparr>m_blocks := bl\<rparr>) > 0
       then upd_block (bs\<lparr>m_blocks := bl\<rparr>) (length ?bl - 1) (\<lambda>x. x OR push_bit (extra_bits_number (bs\<lparr>m_blocks := bl\<rparr>)) b)
       else Inr (bs\<lparr>m_blocks := bl\<rparr>)
     else Inr (bs\<lparr>m_blocks := bl\<rparr>)) = Inr (bs\<lparr>m_blocks := bl2\<rparr>)"
  proof -
    have ex: "extra_bits_number (bs\<lparr>m_blocks := bl\<rparr>) = extra"
      using repr_size [OF assms(1)] by (simp add: extra_bits_number_def bit_index_def extra_def)
    have "length ?bl > 0" if "extra > 0"
      using last_block_div(2) [OF repr_blocks [OF assms(1)]] that by (auto simp: extra_def)
    then have "length ?bl > 0 \<and> length ?bl - 1 < length bl" if "extra > 0" using that le by (cases ?bl) auto
    then show ?thesis
      using assms(2) repr_size [OF assms(1)] by (auto simp: ex bl2_def upd_block_def result_simps)
  qed
  have "returns (sanitize (bs\<lparr>m_blocks := bl2, m_bits_number := n\<rparr>)) (\<lambda>bs'. repr bs' ?l)"
  proof (rule sanitize_repr)
    fix i assume "i < length ?l"
    then have i: "i < n" using assms(2) by simp
    show "nth_bit (m_blocks (bs\<lparr>m_blocks := bl2, m_bits_number := n\<rparr>)) i = ?l ! i"
    proof (cases "v \<and> extra > 0")
      case False
      then have "\<not> v \<or> length ?bl * ?w = length l"
        by (auto simp: repr_blocks [OF assms(1)] blocks_required_mult extra_def)
      with False i bl_bit [OF i] repr_size_blocks [OF assms(1)] show ?thesis
        by (auto simp: bl2_def nth_append)
    next
      case True
      have last: "length ?bl - 1 = length l div ?w" "length l div ?w < length ?bl"
        using last_block_div [OF repr_blocks [OF assms(1)]] True by (simp_all add: extra_def)
      have pos: "length l div ?w * ?w + extra = length l" by (simp add: extra_def)
      show ?thesis
      proof (cases "i div ?w = length l div ?w")
        case div: True
        then have ii: "length l div ?w * ?w + i mod ?w = i" by (metis div_mult_mod_eq)
        with pos have "extra \<le> i mod ?w \<longleftrightarrow> length l \<le> i" by linarith
        moreover have "bit (bl ! (length l div ?w)) (i mod ?w) \<longleftrightarrow> i < length l \<and> l ! i"
          using bl_bit [OF i] div last le by (simp add: nth_bit_def div_less_iff [symmetric])
        ultimately show ?thesis
          using True div last le i by (auto simp: bl2_def nth_bit_update bit_or_iff b_def nth_append)
      next
        case div: False
        have "i < length l \<or> length ?bl * ?w \<le> i"
        proof (rule ccontr)
          assume "\<not> ?thesis"
          then have "length l div ?w \<le> i div ?w" "i div ?w < length ?bl"
            by (simp_all add: div_le_mono div_less_iff)
          with last div show False by linarith
        qed
        with True div last le bl_bit [OF i] repr_size_blocks [OF assms(1)] i show ?thesis
          by (auto simp: bl2_def nth_bit_update nth_append)
      qed
    qed
  qed (use assms(2) in \<open>simp_all add: bl2_def bl_def\<close>)
  then have "returns (rbind (sanitize (bs\<lparr>m_blocks := bl2, m_bits_number := n\<rparr>)) assert_consistent) (\<lambda>bs'. repr bs' ?l)"
    by (rule returns_bind) (simp add: assert_consistent_returns repr_def)
  moreover have "resize bs n v = rbind (sanitize (bs\<lparr>m_blocks := bl2, m_bits_number := n\<rparr>)) assert_consistent"
    using assms(2) step unfolding resize_def Let_def num_blocks_def b_def [symmetric] bs1
    by (simp add: repr_size [OF assms(1)])
  ultimately show ?thesis by simp
qed

subsection \<open>Appending\<close>

definition word_bits :: "'a :: len word \<Rightarrow> bool list" where
  "word_bits b = map (bit b) [0..<LENGTH('a)]"

lemma length_word_bits [simp]: "length (word_bits (b :: 'a :: len word)) = LENGTH('a)"
  by (simp add: word_bits_def)

lemma nth_word_bits [simp]: "j < LENGTH('a) \<Longrightarrow> word_bits (b :: 'a :: len word) ! j = bit b j"
  by (simp add: word_bits_def)

lemma concat_word_bits:
  "concat (map word_bits bl) = map (nth_bit (bl :: 'a :: len word list)) [0..<length bl * LENGTH('a)]"
proof (induction bl)
  case (Cons b bl)
  show ?case
    by (rule nth_equalityI) (auto simp: Cons nth_append nth_bit_Cons)
qed simp

lemma blocks_required_add: "blocks_required LENGTH('a :: len) (n + LENGTH('a)) = Suc (blocks_required LENGTH('a) n)"
  by (rule blocks_required_unique) (use blocks_required_ge [of n, where 'a = 'a] blocks_required_less [of n, where 'a = 'a] in auto)

lemma append_aligned_repr:
  assumes "repr (bs :: 'a :: len bitset) l" "length l mod LENGTH('a) = 0"
  shows "repr (bs\<lparr>m_blocks := m_blocks bs @ [x], m_bits_number := m_bits_number bs + LENGTH('a)\<rparr>) (l @ word_bits x)"
proof (rule reprI)
  have "length (m_blocks bs) * LENGTH('a) = length l"
    using assms by (simp add: repr_blocks blocks_required_mult)
  then show "nth_bit (m_blocks (bs\<lparr>m_blocks := m_blocks bs @ [x], m_bits_number := m_bits_number bs + LENGTH('a)\<rparr>)) i
      \<longleftrightarrow> i < length (l @ word_bits x) \<and> (l @ word_bits x) ! i" for i
    using repr_bit [OF assms(1), of i] by (auto simp: nth_bit_append nth_append nth_bit_Cons)
qed (use assms in \<open>simp_all add: repr_blocks repr_size blocks_required_add\<close>)

lemma append_extra_repr:
  assumes "repr (bs :: 'a :: len bitset) l" "length l mod LENGTH('a) = extra" "0 < extra"
  shows "repr (bs\<lparr>m_blocks := (m_blocks bs)[length (m_blocks bs) - 1 :=
        m_blocks bs ! (length (m_blocks bs) - 1) OR push_bit extra x] @ [drop_bit (LENGTH('a) - extra) x],
      m_bits_number := m_bits_number bs + LENGTH('a)\<rparr>) (l @ word_bits x)"
proof (rule reprI)
  let ?w = "LENGTH('a)" and ?bl = "m_blocks bs" and ?d = "length l div LENGTH('a)"
  let ?upd = "?bl[length ?bl - 1 := ?bl ! (length ?bl - 1) OR push_bit extra x]"
  have last: "length ?bl - 1 = ?d" "?d < length ?bl"
    using last_block_div [OF repr_blocks [OF assms(1)]] assms by simp_all
  have pos: "?d * ?w + extra = length l" and ex: "extra < ?w" using assms(2) by auto
  have tot: "length ?bl * ?w = length l + (?w - extra)"
    using assms by (simp add: repr_blocks blocks_required_mult)
  fix i
  have "nth_bit (?upd @ [drop_bit (?w - extra) x]) i \<longleftrightarrow> i < length l + ?w \<and> (l @ word_bits x) ! i"
  proof (cases "i < length ?bl * ?w")
    case True
    then have id: "i div ?w < length ?bl" by (simp add: div_less_iff)
    show ?thesis
    proof (cases "i div ?w = ?d")
      case div: True
      then have ii: "?d * ?w + i mod ?w = i" by (metis div_mult_mod_eq)
      have "bit (?bl ! ?d) (i mod ?w) \<longleftrightarrow> i < length l \<and> l ! i"
        using repr_bit [OF assms(1), of i] div last by (simp add: nth_bit_def)
      moreover have "extra \<le> i mod ?w \<longleftrightarrow> length l \<le> i" and "i mod ?w - extra = i - length l"
        and "i - length l < ?w" and "i < length l + ?w"
        using ii pos ex True tot by linarith+
      ultimately show ?thesis
        using True div last by (auto simp: nth_bit_append nth_bit_update bit_or_iff bit_push_bit_iff nth_append)
    next
      case div: False
      with id last have "i div ?w < ?d" by linarith
      then have "i < ?d * ?w" by (simp add: div_less_iff)
      with pos have "i < length l" by linarith
      with True div last repr_bit [OF assms(1), of i] show ?thesis
        by (auto simp: nth_bit_append nth_bit_update nth_append)
    qed
  next
    case False
    with tot ex have "i \<ge> length l" "i - length ?bl * ?w + (?w - extra) = i - length l" by linarith+
    with False tot ex bit_imp_le_length [of x "i - length l"] show ?thesis
      by (cases "i < length l + ?w")
        (auto simp: nth_bit_append nth_append nth_bit_Cons bit_drop_bit_eq less_diff_conv2)
  qed
  then show "nth_bit (m_blocks (bs\<lparr>m_blocks := ?upd @ [drop_bit (?w - extra) x], m_bits_number := m_bits_number bs + ?w\<rparr>)) i
      \<longleftrightarrow> i < length (l @ word_bits x) \<and> (l @ word_bits x) ! i" by simp
qed (use assms in \<open>simp_all add: repr_blocks repr_size blocks_required_add\<close>)

lemma repr_extra: "repr (bs :: 'a :: len bitset) l \<Longrightarrow> extra_bits_number bs = length l mod LENGTH('a)"
  by (simp add: extra_bits_number_def bit_index_def repr_size)

lemma repr_last_in: "repr (bs :: 'a :: len bitset) l \<Longrightarrow> 0 < length l mod LENGTH('a) \<Longrightarrow> length (m_blocks bs) - 1 < length (m_blocks bs)"
  using last_block_div(2) [OF repr_blocks, of bs l] by simp

lemma append_block_returns:
  assumes "repr (bs :: 'a :: len bitset) l"
  shows "returns (append_block bs x) (\<lambda>bs'. repr bs' (l @ word_bits x))"
proof (cases "length l mod LENGTH('a) = 0")
  case True
  with append_aligned_repr [OF assms True, of x] show ?thesis
    by (simp add: append_block_def repr_extra [OF assms] assert_consistent_returns) (simp add: repr_def)
next
  case False
  with append_extra_repr [OF assms refl, of x] repr_last_in [OF assms] show ?thesis
    by (simp add: append_block_def repr_extra [OF assms] upd_block_def result_simps assert_consistent_returns
        Let_def repr_def)
qed

lemma append_loop_repr:
  assumes "repr (bs\<lparr>m_blocks := m_blocks bs @ [block], m_bits_number := m_bits_number bs + LENGTH('a)\<rparr>) l"
    and "length l mod LENGTH('a :: len) = extra" "0 < extra"
  shows "repr (append_loop extra (LENGTH('a) - extra) (block :: 'a word) xs bs) (l @ concat (map word_bits xs))"
  using assms
proof (induction xs arbitrary: block bs l)
  case (Cons x xs)
  have "repr (append_loop extra (LENGTH('a) - extra) (drop_bit (LENGTH('a) - extra) x) xs
      (bs\<lparr>m_blocks := m_blocks bs @ [block OR push_bit extra x], m_bits_number := m_bits_number bs + LENGTH('a)\<rparr>))
      ((l @ word_bits x) @ concat (map word_bits xs))"
    by (rule Cons.IH) (use append_extra_repr [OF Cons.prems, of x] Cons.prems in \<open>simp_all add: ac_simps\<close>)
  then show ?case by simp
qed simp

lemma append_range_returns:
  assumes "repr (bs :: 'a :: len bitset) l"
  shows "returns (append_range bs xs) (\<lambda>bs'. repr bs' (l @ concat (map word_bits xs)))"
proof (cases xs)
  case Nil
  with assms show ?thesis by (simp add: append_range_def)
next
  case (Cons x ys)
  show ?thesis
  proof (cases "length l mod LENGTH('a) = 0")
    case True
    have app: "repr (bs\<lparr>m_blocks := m_blocks bs @ xs, m_bits_number := m_bits_number bs + length xs * LENGTH('a)\<rparr>)
        (l @ concat (map word_bits xs))" for xs
    proof (induction xs rule: rev_induct)
      case Nil
      then show ?case using assms by simp
    next
      case (snoc x xs)
      from append_aligned_repr [OF snoc, of x] True show ?case
        by (simp add: concat_word_bits ac_simps mod_add_left_eq [symmetric])
    qed
    from app [of xs] True Cons show ?thesis
      by (simp add: append_range_def repr_extra [OF assms] assert_consistent_returns repr_def)
  next
    case False
    let ?e = "length l mod LENGTH('a)"
    let ?bs = "bs\<lparr>m_blocks := (m_blocks bs)[length (m_blocks bs) - 1 :=
        m_blocks bs ! (length (m_blocks bs) - 1) OR push_bit ?e x]\<rparr>"
    have "repr (append_loop ?e (LENGTH('a) - ?e) (drop_bit (LENGTH('a) - ?e) x) ys ?bs)
        ((l @ word_bits x) @ concat (map word_bits ys))"
      by (rule append_loop_repr) (use append_extra_repr [OF assms refl, of x] False in simp_all)
    with False Cons repr_last_in [OF assms] show ?thesis
      by (simp add: append_range_def repr_extra [OF assms] unused_bits_number_def upd_block_def result_simps
          assert_consistent_returns Let_def repr_def)
  qed
qed

lemma append_bitset_returns:
  assumes "repr (bs :: 'a :: len bitset) l" "repr other m"
  shows "returns (append_bitset bs other) (\<lambda>bs'. repr bs' (l @ m))"
proof -
  let ?c = "concat (map word_bits (m_blocks other))"
  have m: "take (length m) ?c = m"
    using repr_bit [OF assms(2)] repr_size_blocks [OF assms(2)]
    by (intro nth_equalityI) (auto simp: concat_word_bits)
  have "length m \<le> length ?c" using repr_size_blocks [OF assms(2)] by (simp add: concat_word_bits)
  then have len: "length l + length m \<le> length (l @ ?c)" by simp
  have tk: "take (length l + length m) (l @ ?c) = l @ m" by (simp add: m)
  show ?thesis
    unfolding append_bitset_def Let_def num_blocks_def size_bits_def repr_size [OF assms(1)] repr_size [OF assms(2)]
    by (rule returns_bind) (simp, rule append_range_returns [OF assms(1)],
        use resize_shrink [OF _ len, where v = False] tk in simp)
qed

lemma append_self_returns:
  assumes "repr (bs :: 'a :: len bitset) l"
  shows "returns (append_self bs) (\<lambda>bs'. repr bs' (l @ l))"
proof -
  let ?w = "LENGTH('a)"
  define N where "N = length (m_blocks bs)"
  let ?f = "\<lambda>i bs :: 'a bitset. rbind (at_idx (m_blocks bs) i) (append_block bs)"
  define I where "I k s \<longleftrightarrow> (\<exists>c. repr s (l @ c) \<and> length c = k * ?w \<and> (\<forall>i < k * ?w. i < length l \<longrightarrow> c ! i = l ! i))"
    for k and s :: "'a bitset"
  have "returns (rfold ?f [0..<N] bs) (I (length [0..<N]))"
  proof (rule returns_rfold)
    show "I 0 bs" using assms by (simp add: I_def)
  next
    fix k s assume k: "k < length [0..<N]" and "I k s"
    then obtain c where c: "repr s (l @ c)" "length c = k * ?w" "\<forall>i < k * ?w. i < length l \<longrightarrow> c ! i = l ! i"
      by (auto simp: I_def)
    have "N * ?w < length l + ?w"
      unfolding N_def repr_blocks [OF assms] by (rule blocks_required_less)
    moreover have "Suc k * ?w \<le> N * ?w" using k by (intro mult_le_mono1) simp
    ultimately have kl: "k * ?w < length l" by simp
    then have in_range: "k < length (m_blocks s)"
      using repr_size_blocks [OF c(1)] by (simp add: c(2) div_less_iff [symmetric])
        (metis less_le_trans mult_less_cancel2 trans_less_add1)
    let ?b = "m_blocks s ! k"
    have new: "bit ?b j = l ! (k * ?w + j)" if "j < ?w" "k * ?w + j < length l" for j
      using nth_bit_block [OF in_range that(1)] repr_bit [OF c(1), of "k * ?w + j"] that by (simp add: nth_append)
    have "returns (append_block s ?b) (I (Suc k))"
    proof (rule returns_mono [OF append_block_returns [OF c(1)]])
      fix s' :: "'a bitset" assume s': "repr s' ((l @ c) @ word_bits ?b)"
      have "(c @ word_bits ?b) ! i = l ! i" if "i < Suc k * ?w" "i < length l" for i
        using that c new [of "i - k * ?w"] by (auto simp: nth_append)
      with s' c(2) show "I (Suc k) s'"
        unfolding I_def by (intro exI [of _ "c @ word_bits ?b"]) simp
    qed
    then show "returns (?f ([0..<N] ! k) s) (I (Suc k))" using k in_range by (simp add: result_simps)
  qed
  then have "returns (rfold ?f [0..<N] bs) (I N)" by simp
  then show ?thesis
    unfolding append_self_def Let_def num_blocks_def size_bits_def N_def [symmetric]
  proof (rule returns_bind)
    fix s assume "I N s"
    then obtain c where c: "repr s (l @ c)" "length c = N * ?w" "\<forall>i < N * ?w. i < length l \<longrightarrow> c ! i = l ! i"
      by (auto simp: I_def)
    have N: "length l \<le> N * ?w" using repr_size_blocks [OF assms] by (simp add: N_def)
    with c have "take (length l) c = l" by (intro nth_equalityI) auto
    with resize_shrink [OF c(1), of "length l + length l" False] c(2) N
    show "returns (resize s (m_bits_number bs + m_bits_number bs) False) (\<lambda>bs'. repr bs' (l @ l))"
      by (simp add: repr_size [OF assms])
  qed
qed

subsection \<open>Initialisation\<close>

lemma bitset_init_small:
  assumes "LENGTH('a :: len) < 128" "LENGTH('a) dvd 128"
  shows "returns (bitset_init n v :: 'a bitset result) (\<lambda>bs. repr bs (map (bit v) [0..<n]))"
proof -
  let ?w = "LENGTH('a)"
  define B where "B = blocks_required ?w n"
  define bs0 :: "'a bitset" where "bs0 = \<lparr>m_blocks = replicate B zero_block, m_bits_number = n\<rparr>"
  define to where "to = min B (128 div ?w)"
  let ?f = "\<lambda>i bs :: 'a bitset. upd_block bs i
    (\<lambda>_. ucast (drop_bit (i * ?w) v AND (ucast (one_block :: 'a word) :: u128)))"
  define I where "I k s \<longleftrightarrow> length (m_blocks s) = B \<and> m_bits_number s = n \<and>
      (\<forall>i < B * ?w. nth_bit (m_blocks s) i \<longleftrightarrow> i < k * ?w \<and> bit v i)" for k and s :: "'a bitset"
  have "returns (rfold ?f [0..<to] bs0) (I (length [0..<to]))"
  proof (rule returns_rfold)
    show "I 0 bs0" by (simp add: I_def bs0_def nth_bit_replicate)
  next
    fix k s assume k: "k < length [0..<to]" and s: "I k s"
    have kB: "k < B" using k by (simp add: to_def)
    let ?x = "ucast (drop_bit (k * ?w) v AND (ucast (one_block :: 'a word) :: u128)) :: 'a word"
    have x: "bit ?x j \<longleftrightarrow> bit v (k * ?w + j)" if "j < ?w" for j
      using that assms(1) by (auto simp: bit_ucast_iff bit_and_iff bit_drop_bit_eq ac_simps)
    have "nth_bit ((m_blocks s)[k := ?x]) i \<longleftrightarrow> i < Suc k * ?w \<and> bit v i" if "i < B * ?w" for i
    proof (cases "i div ?w = k")
      case True
      then have "k * ?w + i mod ?w = i" by auto
      moreover from this have "i < Suc k * ?w" using True div_less_iff [of i "Suc k", where 'a = 'a] by simp
      ultimately show ?thesis
        using True kB s x [of "i mod ?w"] by (simp add: I_def nth_bit_update)
    next
      case False
      then have "i < k * ?w \<longleftrightarrow> i < Suc k * ?w" by (simp only: div_less_iff [symmetric]) linarith
      with False kB s that show ?thesis by (simp add: I_def nth_bit_update)
    qed
    with s kB have "returns (upd_block s k (\<lambda>_. ?x)) (I (Suc k))"
      by (simp add: upd_block_returns I_def)
    then show "returns (?f ([0..<to] ! k) s) (I (Suc k))" using k by simp
  qed
  then have loop: "returns (rfold ?f [0..<to] bs0) (I to)" by simp
  have san: "returns (sanitize s) (\<lambda>bs. repr bs (map (bit v) [0..<n]))" if "I to s" for s
  proof (rule sanitize_repr)
    fix i assume "i < length (map (bit v) [0..<n])"
    then have i: "i < n" "i < B * ?w" using blocks_required_ge [of n, where 'a = 'a] by (simp_all add: B_def)
    have "bit v i \<Longrightarrow> i < 128" using bit_imp_le_length [of v i] by simp
    moreover have "128 div ?w * ?w = 128" using assms(2) by simp
    ultimately have "bit v i \<Longrightarrow> i < to * ?w" using i by (simp add: to_def min_def)
    with i that show "nth_bit (m_blocks s) i = map (bit v) [0..<n] ! i" by (auto simp: I_def)
  qed (use that in \<open>simp_all add: I_def B_def\<close>)
  have ne: "128 div ?w \<noteq> 1" using assms(1) dvd_div_mult_self [OF assms(2)] by auto
  show ?thesis
  proof (cases "n = 0 \<or> v = 0")
    case True
    then have "repr bs0 (map (bit v) [0..<n])"
      by (intro reprI) (auto simp: bs0_def B_def nth_bit_replicate)
    with True show ?thesis by (simp add: bitset_init_def bs0_def B_def)
  next
    case False
    then have "bitset_init n v = rbind (rfold ?f [0..<to] bs0) sanitize"
      using ne by (simp add: bitset_init_def Let_def bs0_def B_def to_def)
    with returns_bind [OF loop san] show ?thesis by simp
  qed
qed

lemma bitset_init_wide:
  assumes "LENGTH('a :: len) = 128"
  shows "returns (bitset_init n v :: 'a bitset result) (\<lambda>bs. repr bs (map (bit v) [0..<n]))"
proof (cases "n = 0 \<or> v = 0")
  case True
  then show ?thesis
    by (auto simp: bitset_init_def nth_bit_replicate intro!: reprI)
next
  case False
  let ?bl = "(replicate (blocks_required LENGTH('a) n) (0 :: 'a word))[0 := ucast v]"
  have B: "0 < blocks_required LENGTH('a) n" using False by simp
  have bits: "nth_bit ?bl i = bit v i" for i
  proof (cases "i < 128")
    case True
    then show ?thesis using B assms by (simp add: nth_bit_def bit_ucast_iff)
  next
    case F: False
    then show ?thesis using B assms bit_imp_le_length [of v i] by (auto simp: nth_bit_def)
  qed
  have "returns (sanitize \<lparr>m_blocks = ?bl, m_bits_number = n\<rparr>) (\<lambda>bs. repr bs (map (bit v) [0..<n]))"
    by (rule sanitize_repr) (simp_all add: bits)
  with False B assms show ?thesis
    by (simp add: bitset_init_def result_simps)
qed

lemma bitset_init_returns:
  assumes "LENGTH('a :: len) dvd 128"
  shows "returns (bitset_init n v :: 'a bitset result) (\<lambda>bs. repr bs (map (bit v) [0..<n]))"
proof (cases "LENGTH('a) = 128")
  case False
  with dvd_imp_le [OF assms] have "LENGTH('a) < 128" by simp
  then show ?thesis using assms by (rule bitset_init_small)
qed (rule bitset_init_wide)

end
