(* ===== verification/Dynamic_Bitset_Queries.thy ===== *)
theory Dynamic_Bitset_Queries
  imports Dynamic_Bitset_Refinement
begin

text \<open>
  The operators, shifts, queries, comparison and string conversions of \<open>dynamic_bitset\<close>, related to
  the list of bits the object represents.
\<close>

subsection \<open>Loops that write every block once\<close>

lemma rfold_write:
  assumes "distinct is" "\<And>i. i \<in> set is \<Longrightarrow> i < length (m_blocks bs)"
    and step: "\<And>k s. k < length is \<Longrightarrow> length (m_blocks s) = length (m_blocks bs) \<Longrightarrow>
      (\<And>j. j < length (m_blocks bs) \<Longrightarrow>
         m_blocks s ! j = (if j \<in> set (take k is) then v j else m_blocks bs ! j)) \<Longrightarrow>
      f (is ! k) s = Inr (s\<lparr>m_blocks := (m_blocks s)[is ! k := v (is ! k)]\<rparr>)"
  shows "rfold f is bs = Inr (bs\<lparr>m_blocks :=
    map (\<lambda>j. if j \<in> set is then v j else m_blocks bs ! j) [0..<length (m_blocks bs)]\<rparr>)"
proof -
  define R where "R k = bs\<lparr>m_blocks :=
    map (\<lambda>j. if j \<in> set (take k is) then v j else m_blocks bs ! j) [0..<length (m_blocks bs)]\<rparr>" for k
  have "returns (rfold f is bs) (\<lambda>s. s = R (length is))"
  proof (rule returns_rfold [where I = "\<lambda>k s. s = R k"])
    show "bs = R 0" by (simp add: R_def map_nth)
  next
    fix k s assume k: "k < length is" and s: "s = R k"
    have "(m_blocks s)[is ! k := v (is ! k)] =
        map (\<lambda>j. if j \<in> set (take (Suc k) is) then v j else m_blocks bs ! j) [0..<length (m_blocks bs)]"
      using k assms(2) [OF nth_mem [OF k]]
      by (intro nth_equalityI) (auto simp: s R_def take_Suc_conv_app_nth nth_list_update)
    moreover have "f (is ! k) s = Inr (s\<lparr>m_blocks := (m_blocks s)[is ! k := v (is ! k)]\<rparr>)"
      by (rule step [OF k]) (simp_all add: s R_def)
    ultimately show "returns (f (is ! k) s) (\<lambda>s. s = R (Suc k))"
      by (simp add: s R_def)
  qed
  then show ?thesis by (auto simp: returns_def R_def)
qed

lemma fill_eq:
  assumes "b \<le> length (m_blocks bs)"
  shows "rfold (\<lambda>i bs. upd_block bs i (\<lambda>_. x)) [a..<b] bs = Inr (bs\<lparr>m_blocks :=
    map (\<lambda>j. if j \<in> {a..<b} then x else m_blocks bs ! j) [0..<length (m_blocks bs)]\<rparr>)"
  using rfold_write [of "[a..<b]" bs "\<lambda>_. x" "\<lambda>i bs. upd_block bs i (\<lambda>_. x)"] assms
  by (auto simp: upd_block_def result_simps)

subsection \<open>Logical operators\<close>

lemma assign_loop_returns:
  assumes "repr (bs :: 'a :: len bitset) l" "repr rhs m" "length l = length m"
    and "\<And>x y j. j < LENGTH('a) \<Longrightarrow> bit (f x y) j = g (bit x j) (bit y j)" "\<not> g False False"
  shows "returns (assign_loop f bs rhs) (\<lambda>bs'. repr bs' (map2 g l m))"
proof -
  have len: "length (m_blocks rhs) = length (m_blocks bs)" using assms(1-3) by (simp add: repr_blocks)
  have sz: "size_bits bs = size_bits rhs" using assms(1-3) by (simp add: size_bits_def repr_size)
  define bl where "bl = map (\<lambda>j. f (m_blocks bs ! j) (m_blocks rhs ! j)) [0..<length (m_blocks bs)]"
  have "assign_loop f bs rhs = Inr (bs\<lparr>m_blocks :=
      map (\<lambda>j. if j \<in> set [0..<length (m_blocks bs)] then f (m_blocks bs ! j) (m_blocks rhs ! j) else m_blocks bs ! j)
        [0..<length (m_blocks bs)]\<rparr>)"
    unfolding assign_loop_def sz simp_thms assert_that_True rbind_Inr
    by (rule rfold_write) (use len in \<open>auto simp: upd_block_def result_simps\<close>)
  also have "map (\<lambda>j. if j \<in> set [0..<length (m_blocks bs)] then f (m_blocks bs ! j) (m_blocks rhs ! j) else m_blocks bs ! j)
        [0..<length (m_blocks bs)] = bl"
    by (simp add: bl_def)
  finally have eq: "assign_loop f bs rhs = Inr (bs\<lparr>m_blocks := bl\<rparr>)" .
  have "nth_bit bl i = g (nth_bit (m_blocks bs) i) (nth_bit (m_blocks rhs) i)" if "i < length bl * LENGTH('a)" for i
    using that len assms(4) by (auto simp: nth_bit_def bl_def div_less_iff [symmetric])
  then have bit: "nth_bit bl i \<longleftrightarrow> i < length m \<and> map2 g l m ! i" if "i < length bl * LENGTH('a)" for i
    using that assms(3,5)
    by (cases "i < length m") (auto simp: repr_bit [OF assms(1)] repr_bit [OF assms(2)])
  have "repr (bs\<lparr>m_blocks := bl\<rparr>) (map2 g l m)"
    using assms(1-3) bit
    by (intro reprI) (auto simp: repr_size repr_blocks bl_def)
  with eq show ?thesis by simp
qed

lemma op_and_returns: "repr bs l \<Longrightarrow> repr rhs m \<Longrightarrow> length l = length m \<Longrightarrow>
    returns (op_and_assign bs rhs) (\<lambda>bs'. repr bs' (map2 (\<and>) l m))"
  unfolding op_and_assign_def by (rule assign_loop_returns) (auto simp: bit_and_iff)

lemma op_or_returns: "repr bs l \<Longrightarrow> repr rhs m \<Longrightarrow> length l = length m \<Longrightarrow>
    returns (op_or_assign bs rhs) (\<lambda>bs'. repr bs' (map2 (\<or>) l m))"
  unfolding op_or_assign_def by (rule assign_loop_returns) (auto simp: bit_or_iff)

lemma op_xor_returns: "repr bs l \<Longrightarrow> repr rhs m \<Longrightarrow> length l = length m \<Longrightarrow>
    returns (op_xor_assign bs rhs) (\<lambda>bs'. repr bs' (map2 (\<noteq>) l m))"
  unfolding op_xor_assign_def by (rule assign_loop_returns) (auto simp: bit_xor_iff)

lemma op_minus_returns: "repr bs l \<Longrightarrow> repr rhs m \<Longrightarrow> length l = length m \<Longrightarrow>
    returns (op_minus_assign bs rhs) (\<lambda>bs'. repr bs' (map2 (\<lambda>a b. a \<and> \<not> b) l m))"
  unfolding op_minus_assign_def by (rule assign_loop_returns) (auto simp: bit_and_iff bit_not_iff)

subsection \<open>Shifts\<close>

lemma set_take_rev_upt: "k \<le> n - a \<Longrightarrow> set (take k (rev [a..<n])) = {n - k..<n}"
proof (induction k)
  case (Suc k)
  then have "rev [a..<n] ! k = n - Suc k" by (simp add: rev_nth)
  with Suc have "set (take (Suc k) (rev [a..<n])) = insert (n - Suc k) {n - k..<n}"
    by (simp add: take_Suc_conv_app_nth)
  also have "\<dots> = {n - Suc k..<n}" using Suc.prems by auto
  finally show ?case .
qed simp

text \<open>Splitting a shifted position into block and bit.\<close>

lemma shift_split:
  assumes "i div LENGTH('a :: len) = q" "i mod LENGTH('a) = r" "s div LENGTH('a) = b" "s mod LENGTH('a) = t"
  shows "i < s \<longleftrightarrow> q < b \<or> q = b \<and> r < t"
    and "b \<le> q \<Longrightarrow> t \<le> r \<Longrightarrow> (i - s) div LENGTH('a) = q - b \<and> (i - s) mod LENGTH('a) = r - t"
    and "b < q \<Longrightarrow> r < t \<Longrightarrow> (i - s) div LENGTH('a) = q - b - 1 \<and> (i - s) mod LENGTH('a) = LENGTH('a) + r - t"
    and "(i + s) div LENGTH('a) = (if r + t < LENGTH('a) then q + b else q + b + 1)"
    and "(i + s) mod LENGTH('a) = (if r + t < LENGTH('a) then r + t else r + t - LENGTH('a))"
proof -
  let ?w = "LENGTH('a)"
  have rt: "r < ?w" "t < ?w" using assms by auto
  have i: "i = q * ?w + r" and s: "s = b * ?w + t" using assms by auto
  have lex: "q' * ?w + r' < b' * ?w + t' \<longleftrightarrow> q' < b' \<or> q' = b' \<and> r' < t'" if "r' < ?w" "t' < ?w" for q' r' b' t'
  proof (cases q' b' rule: linorder_cases)
    case less
    then have "Suc q' * ?w \<le> b' * ?w" by (intro mult_le_mono1) simp
    with less that show ?thesis by simp
  next
    case greater
    then have "Suc b' * ?w \<le> q' * ?w" by (intro mult_le_mono1) simp
    with greater that show ?thesis by simp
  qed simp
  show "i < s \<longleftrightarrow> q < b \<or> q = b \<and> r < t" unfolding i s by (rule lex [OF rt])
  { assume "b \<le> q" "t \<le> r"
    then obtain d where "q = b + d" by (metis le_iff_add)
    with \<open>t \<le> r\<close> have "i - s = (q - b) * ?w + (r - t)" by (simp add: i s algebra_simps)
    moreover have "r - t < ?w" using rt by simp
    ultimately show "(i - s) div ?w = q - b \<and> (i - s) mod ?w = r - t" by simp }
  { assume "b < q" "r < t"
    then obtain d where "q = b + d + 1" by (metis Suc_eq_plus1 less_iff_Suc_add add_Suc_right)
    with \<open>r < t\<close> rt have "i - s = (q - b - 1) * ?w + (?w + r - t)" by (simp add: i s algebra_simps)
    moreover have "?w + r - t < ?w" using rt \<open>r < t\<close> by simp
    ultimately show "(i - s) div ?w = q - b - 1 \<and> (i - s) mod ?w = ?w + r - t" by simp }
  define x where "x = (if r + t < ?w then r + t else r + t - ?w)"
  define y where "y = (if r + t < ?w then q + b else q + b + 1)"
  have "i + s = y * ?w + x" using rt by (simp add: i s x_def y_def algebra_simps)
  moreover have "x < ?w" using rt by (simp add: x_def) linarith
  ultimately have "(i + s) div ?w = y" "(i + s) mod ?w = x" by simp_all
  then show "(i + s) div ?w = (if r + t < ?w then q + b else q + b + 1)"
    "(i + s) mod ?w = (if r + t < ?w then r + t else r + t - ?w)" by (simp_all only: x_def y_def)
qed

text \<open>The blocks \<open>apply_left_shift\<close> and \<open>apply_right_shift\<close> leave.\<close>

definition shl_block :: "'a :: len word list \<Rightarrow> nat \<Rightarrow> nat \<Rightarrow> nat \<Rightarrow> 'a word" where
  "shl_block bl b t j =
     (if j < b then 0
      else if t = 0 then bl ! (j - b)
      else if j = b then push_bit t (bl ! 0)
      else push_bit t (bl ! (j - b)) OR drop_bit (LENGTH('a) - t) (bl ! (j - b - 1)))"

definition shr_block :: "'a :: len word list \<Rightarrow> nat \<Rightarrow> nat \<Rightarrow> nat \<Rightarrow> 'a word" where
  "shr_block bl b t j =
     (if length bl \<le> j + b then 0
      else if t = 0 then bl ! (j + b)
      else if j + b + 1 = length bl then drop_bit t (bl ! (length bl - 1))
      else drop_bit t (bl ! (j + b)) OR push_bit (LENGTH('a) - t) (bl ! (j + b + 1)))"

lemma apply_left_shift_eq:
  fixes bs :: "'a :: len bitset"
  assumes "0 < shift" "shift < length (m_blocks bs) * LENGTH('a)"
  shows "apply_left_shift bs shift = Inr (bs\<lparr>m_blocks :=
    map (shl_block (m_blocks bs) (shift div LENGTH('a)) (shift mod LENGTH('a))) [0..<length (m_blocks bs)]\<rparr>)"
proof -
  define n b t where "n = length (m_blocks bs)" "b = shift div LENGTH('a)" "t = shift mod LENGTH('a)"
  note d = this
  have bn: "b < n" using assms(2) by (simp add: d div_less_iff)
  then have ne: "m_blocks bs \<noteq> []" by (auto simp: d)
  let ?bl = "m_blocks bs"
  show ?thesis
  proof (cases "t = 0")
    case True
    then have b0: "0 < b" using assms(1) by (cases "b = 0") (auto simp: d)
    have "rfold (\<lambda>i bs. rbind (at_idx (m_blocks bs) (i - b)) (\<lambda>x. upd_block bs i (\<lambda>_. x))) (rev [b..<n]) bs =
      Inr (bs\<lparr>m_blocks := map (\<lambda>j. if j \<in> set (rev [b..<n]) then ?bl ! (j - b) else ?bl ! j) [0..<length ?bl]\<rparr>)"
    proof (rule rfold_write)
      fix k and s :: "'a bitset"
      assume k: "k < length (rev [b..<n])" and len: "length (m_blocks s) = length ?bl"
        and s: "\<And>j. j < length ?bl \<Longrightarrow>
          m_blocks s ! j = (if j \<in> set (take k (rev [b..<n])) then ?bl ! (j - b) else ?bl ! j)"
      have idx: "rev [b..<n] ! k = n - Suc k" using k by (simp add: rev_nth)
      have "n - Suc k - b \<notin> set (take k (rev [b..<n]))"
        using k b0 set_take_rev_upt [of k n b] by auto
      then have "m_blocks s ! (n - Suc k - b) = ?bl ! (n - Suc k - b)" using s [of "n - Suc k - b"] bn by (simp add: d)
      with k len bn show "rbind (at_idx (m_blocks s) (rev [b..<n] ! k - b)) (\<lambda>x. upd_block s (rev [b..<n] ! k) (\<lambda>_. x)) =
          Inr (s\<lparr>m_blocks := (m_blocks s)[rev [b..<n] ! k := ?bl ! (rev [b..<n] ! k - b)]\<rparr>)"
        unfolding idx by (simp add: upd_block_def result_simps d)
    qed (auto simp: d)
    with True assms bn show ?thesis
      unfolding apply_left_shift_def d [symmetric]
      by (simp add: fill_eq Let_def shl_block_def d(1))
  next
    case False
    let ?v = "\<lambda>j. push_bit t (?bl ! (j - b)) OR drop_bit (LENGTH('a) - t) (?bl ! (j - b - 1))"
    let ?f = "\<lambda>i bs. rbind (at_idx (m_blocks bs) (i - b)) (\<lambda>hi. rbind (at_idx (m_blocks bs) (i - b - 1)) (\<lambda>lo.
      upd_block bs i (\<lambda>_. push_bit t hi OR drop_bit (LENGTH('a) - t) lo)))"
    have "rfold ?f (rev [b + 1..<n]) bs =
      Inr (bs\<lparr>m_blocks := map (\<lambda>j. if j \<in> set (rev [b + 1..<n]) then ?v j else ?bl ! j) [0..<length ?bl]\<rparr>)"
    proof (rule rfold_write)
      fix k and s :: "'a bitset"
      assume k: "k < length (rev [b + 1..<n])" and len: "length (m_blocks s) = length ?bl"
        and s: "\<And>j. j < length ?bl \<Longrightarrow> m_blocks s ! j = (if j \<in> set (take k (rev [b + 1..<n])) then ?v j else ?bl ! j)"
      have idx: "rev [b + 1..<n] ! k = n - Suc k" using k by (simp add: rev_nth)
      have "m_blocks s ! j = ?bl ! j" if "j \<le> n - Suc k" for j
      proof -
        have "j \<notin> set (take k (rev [b + 1..<n]))" using k that set_take_rev_upt [of k n "b + 1"] by auto
        with s [of j] that bn show ?thesis by (simp add: d)
      qed
      with k len bn show "?f (rev [b + 1..<n] ! k) s = Inr (s\<lparr>m_blocks := (m_blocks s)[rev [b + 1..<n] ! k := ?v (rev [b + 1..<n] ! k)]\<rparr>)"
        unfolding idx by (simp add: upd_block_def result_simps d)
    qed (auto simp: d)
    with False assms bn ne show ?thesis
      unfolding apply_left_shift_def d [symmetric]
      by (simp add: fill_eq Let_def d(1) result_simps)
        (auto simp: shl_block_def nth_list_update intro!: dynamic_bitset.equality nth_equalityI)
  qed
qed

lemma apply_right_shift_eq:
  fixes bs :: "'a :: len bitset"
  assumes "0 < shift" "shift < length (m_blocks bs) * LENGTH('a)"
  shows "apply_right_shift bs shift = Inr (bs\<lparr>m_blocks :=
    map (shr_block (m_blocks bs) (shift div LENGTH('a)) (shift mod LENGTH('a))) [0..<length (m_blocks bs)]\<rparr>)"
proof -
  define n b t where "n = length (m_blocks bs)" "b = shift div LENGTH('a)" "t = shift mod LENGTH('a)"
  note d = this
  have bn: "b < n" using assms(2) by (simp add: d div_less_iff)
  then have ne: "m_blocks bs \<noteq> []" by (auto simp: d)
  define m where "m = n - b - 1"
  let ?bl = "m_blocks bs"
  show ?thesis
  proof (cases "t = 0")
    case True
    then have b0: "0 < b" using assms(1) by (cases "b = 0") (auto simp: d)
    have "rfold (\<lambda>i bs. rbind (at_idx (m_blocks bs) (i + b)) (\<lambda>x. upd_block bs i (\<lambda>_. x))) [0..<m + 1] bs =
      Inr (bs\<lparr>m_blocks := map (\<lambda>j. if j \<in> set [0..<m + 1] then ?bl ! (j + b) else ?bl ! j) [0..<length ?bl]\<rparr>)"
      by (rule rfold_write) (use b0 bn in \<open>auto simp: result_simps m_def d(1) simp del: upt_Suc\<close>)
    with True assms bn show ?thesis
      unfolding apply_right_shift_def d [symmetric]
      by (simp add: fill_eq Let_def d(1) m_def)
        (auto simp: shr_block_def intro!: dynamic_bitset.equality nth_equalityI)
  next
    case False
    let ?v = "\<lambda>j. drop_bit t (?bl ! (j + b)) OR push_bit (LENGTH('a) - t) (?bl ! (j + b + 1))"
    let ?f = "\<lambda>i bs. rbind (at_idx (m_blocks bs) (i + b)) (\<lambda>lo. rbind (at_idx (m_blocks bs) (i + b + 1)) (\<lambda>hi.
      upd_block bs i (\<lambda>_. drop_bit t lo OR push_bit (LENGTH('a) - t) hi)))"
    have "rfold ?f [0..<m] bs =
      Inr (bs\<lparr>m_blocks := map (\<lambda>j. if j \<in> set [0..<m] then ?v j else ?bl ! j) [0..<length ?bl]\<rparr>)"
      by (rule rfold_write) (use bn in \<open>auto simp: result_simps m_def d(1)\<close>)
    with False assms bn ne show ?thesis
      unfolding apply_right_shift_def d [symmetric]
      by (simp add: fill_eq Let_def d(1) result_simps last_block_def m_def)
        (auto simp: shr_block_def nth_list_update intro!: dynamic_bitset.equality nth_equalityI)
  qed
qed

lemma nth_bit_shl:
  assumes "i < length (bl :: 'a :: len word list) * LENGTH('a)"
  shows "nth_bit (map (shl_block bl (s div LENGTH('a)) (s mod LENGTH('a))) [0..<length bl]) i \<longleftrightarrow>
    s \<le> i \<and> nth_bit bl (i - s)"
proof -
  let ?w = "LENGTH('a)"
  define q r b t where "q = i div ?w" "r = i mod ?w" "b = s div ?w" "t = s mod ?w"
  note d = this
  note sp = shift_split [OF d [symmetric]]
  have q: "q < length bl" using assms by (simp add: d div_less_iff)
  have rt: "r < ?w" "t < ?w" by (simp_all add: d)
  have lhs: "nth_bit (map (shl_block bl b t) [0..<length bl]) i \<longleftrightarrow> bit (shl_block bl b t q) r"
    using q by (simp add: nth_bit_def d)
  have rhs: "s \<le> i \<and> nth_bit bl (i - s) \<longleftrightarrow>
      \<not> (q < b \<or> q = b \<and> r < t) \<and> (i - s) div ?w < length bl \<and> bit (bl ! ((i - s) div ?w)) ((i - s) mod ?w)"
    using sp(1) by (auto simp: nth_bit_def)
  have zero: "\<not> bit (drop_bit (?w - t) x) r" if "t \<le> r" for x :: "'a word"
    using that rt bit_imp_le_length [of x "?w - t + r"] by (auto simp: bit_drop_bit_eq)
  consider "q < b" | "q = b" "r < t" | "b \<le> q" "t \<le> r" | "b < q" "r < t" by linarith
  then have "bit (shl_block bl b t q) r \<longleftrightarrow> s \<le> i \<and> nth_bit bl (i - s)"
  proof cases
    case 3
    with sp(2) q rt zero [OF 3(2)] show ?thesis
      unfolding rhs by (auto simp: shl_block_def bit_or_iff bit_push_bit_iff)
  next
    case 4
    with sp(3) q rt show ?thesis
      unfolding rhs by (auto simp: shl_block_def bit_or_iff bit_push_bit_iff bit_drop_bit_eq)
  qed (auto simp: rhs shl_block_def bit_push_bit_iff)
  with lhs show ?thesis by (simp only: d)
qed

lemma nth_bit_shr:
  assumes "i < length (bl :: 'a :: len word list) * LENGTH('a)"
  shows "nth_bit (map (shr_block bl (s div LENGTH('a)) (s mod LENGTH('a))) [0..<length bl]) i \<longleftrightarrow> nth_bit bl (i + s)"
proof -
  let ?w = "LENGTH('a)"
  define q r b t where "q = i div ?w" "r = i mod ?w" "b = s div ?w" "t = s mod ?w"
  note d = this
  note sp = shift_split [OF d [symmetric]]
  have q: "q < length bl" using assms by (simp add: d div_less_iff)
  have rt: "r < ?w" "t < ?w" by (simp_all add: d)
  have lhs: "nth_bit (map (shr_block bl b t) [0..<length bl]) i \<longleftrightarrow> bit (shr_block bl b t q) r"
    using q by (simp add: nth_bit_def d)
  have last: "Suc (b + q) = length bl \<Longrightarrow> length bl - Suc 0 = b + q" by simp
  have "bit (shr_block bl b t q) r \<longleftrightarrow> nth_bit bl (i + s)"
  proof (cases "r + t < ?w")
    case True
    with sp(4,5) q rt last show ?thesis
      by (auto simp: nth_bit_def shr_block_def bit_or_iff bit_push_bit_iff bit_drop_bit_eq ac_simps)
  next
    case False
    have zero: "\<not> bit (drop_bit t x) r" for x :: "'a word"
      using False bit_imp_le_length [of x "t + r"] by (auto simp: bit_drop_bit_eq ac_simps)
    from False sp(4,5) q rt zero show ?thesis
      by (auto simp: nth_bit_def shr_block_def bit_or_iff bit_push_bit_iff)
  qed
  with lhs show ?thesis by (simp only: d)
qed

lemma op_shl_assign_returns:
  assumes "repr (bs :: 'a :: len bitset) l"
  shows "returns (op_shl_assign bs s) (\<lambda>bs'. repr bs' (take (length l) (replicate s False @ l)))"
proof (cases "0 < s \<and> s < length l")
  case True
  define l' where "l' = take (length l) (replicate s False @ l)"
  have len: "length l' = length l" unfolding l'_def length_take length_append by simp
  from True repr_size_blocks [OF assms] have s: "0 < s" "s < length (m_blocks bs) * LENGTH('a)" by simp_all
  have "op_shl_assign bs s = rbind (apply_left_shift bs s) sanitize"
    using True repr_size [OF assms] by (simp add: op_shl_assign_def)
  also have "returns \<dots> (\<lambda>bs'. repr bs' l')"
    unfolding apply_left_shift_eq [OF s] rbind_Inr
  proof (rule sanitize_repr)
    fix i assume "i < length l'"
    then have i: "i < length l" by (simp add: len)
    with repr_size_blocks [OF assms] have "i < length (m_blocks bs) * LENGTH('a)" by simp
    with i show "nth_bit (m_blocks (bs\<lparr>m_blocks := map (shl_block (m_blocks bs) (s div LENGTH('a)) (s mod LENGTH('a)))
        [0..<length (m_blocks bs)]\<rparr>)) i = l' ! i"
      by (auto simp: l'_def nth_bit_shl repr_bit [OF assms] nth_append)
  qed (use assms in \<open>simp_all add: repr_size repr_blocks len\<close>)
  finally show ?thesis by (simp only: l'_def)
next
  case False
  with assms reset_all_repr [OF assms] show ?thesis
    by (cases "s = 0") (auto simp: op_shl_assign_def repr_size)
qed

lemma op_shr_assign_returns:
  assumes "repr (bs :: 'a :: len bitset) l"
  shows "returns (op_shr_assign bs s) (\<lambda>bs'. repr bs' (drop s l @ replicate (min s (length l)) False))"
proof (cases "0 < s \<and> s < length l")
  case True
  with repr_size_blocks [OF assms] have s: "0 < s" "s < length (m_blocks bs) * LENGTH('a)" by simp_all
  have "repr (bs\<lparr>m_blocks := map (shr_block (m_blocks bs) (s div LENGTH('a)) (s mod LENGTH('a)))
        [0..<length (m_blocks bs)]\<rparr>) (drop s l @ replicate (min s (length l)) False)"
    (is "repr ?bs ?l")
  proof (rule reprI)
    fix i assume "i < length (m_blocks ?bs) * LENGTH('a)"
    then show "nth_bit (m_blocks ?bs) i \<longleftrightarrow> i < length ?l \<and> ?l ! i"
      using True by (auto simp: nth_bit_shr repr_bit [OF assms] nth_append ac_simps)
  qed (use True assms in \<open>simp_all add: repr_size repr_blocks\<close>)
  with True repr_size [OF assms] show ?thesis
    by (simp add: op_shr_assign_def apply_right_shift_eq [OF s])
next
  case False
  with assms reset_all_repr [OF assms] show ?thesis
    by (cases "s = 0") (auto simp: op_shr_assign_def repr_size)
qed

subsection \<open>Counting and tests\<close>

lemma count_loop_eq:
  assumes "i + k \<le> LENGTH('a)"
  shows "count_loop k (b :: 'a :: len word) (push_bit i 1) c = c + length (filter (bit b) [i..<i + k])"
  using assms
proof (induction k arbitrary: i c)
  case (Suc k)
  have m: "b AND push_bit i 1 \<noteq> 0 \<longleftrightarrow> bit b i"
    using and_bit_mask [of b i] Suc.prems by (simp add: bit_mask_def bit_index_def)
  have s: "push_bit 1 (push_bit i 1) = (push_bit (Suc i) 1 :: 'a word)" by (simp add: ac_simps)
  have l: "[i..<i + Suc k] = i # [Suc i..<Suc i + k]"
    using upt_conv_Cons [of i "i + Suc k"] by (simp del: upt_Suc)
  have IH: "count_loop k b (push_bit (Suc i) 1) c' = c' + length (filter (bit b) [Suc i..<Suc i + k])" for c'
    by (rule Suc.IH) (use Suc.prems in simp)
  show ?case unfolding count_loop.simps zero_block_0 s l IH m by simp
qed simp

lemma count_loop_0: "k \<le> LENGTH('a) \<Longrightarrow> count_loop k (b :: 'a :: len word) 1 0 = length (filter (bit b) [0..<k])"
  using count_loop_eq [of 0 k b 0] by simp

lemma block_count_eq: "block_count (b :: 'a :: len word) = length (filter (bit b) [0..<LENGTH('a)])"
  by (simp add: block_count_def count_loop_0)

lemma block_count_n_eq:
  assumes "0 < n" "n \<le> LENGTH('a)"
  shows "block_count_n (b :: 'a :: len word) n = Inr (length (filter (bit b) [0..<n]))"
proof -
  have "filter (bit b) [0..<n] = []" if z: "push_bit (LENGTH('a) - n) b = 0"
  proof -
    have "\<not> bit b j" if "j < n" for j
    proof -
      have "\<not> bit (push_bit (LENGTH('a) - n) b) (LENGTH('a) - n + j)" unfolding z by simp
      with that assms show ?thesis by (auto simp: bit_push_bit_iff)
    qed
    then show ?thesis by (simp add: filter_empty_conv)
  qed
  with assms show ?thesis by (simp add: block_count_n_def count_loop_0)
qed

lemma length_filter_word_bits: "length (filter (\<lambda>x. x) (word_bits b)) = length (filter (bit b) [0..<LENGTH('a)])"
  for b :: "'a :: len word"
  by (simp add: word_bits_def filter_map comp_def)

lemma bits_split_last:
  assumes "repr (bs :: 'a :: len bitset) l" "l \<noteq> []"
  shows "m_blocks bs = take (length (m_blocks bs) - 1) (m_blocks bs) @ [m_blocks bs ! (length (m_blocks bs) - 1)]"
    and "length l = (length (m_blocks bs) - 1) * LENGTH('a) + (if length l mod LENGTH('a) = 0 then LENGTH('a) else length l mod LENGTH('a))"
    and "l = concat (map word_bits (take (length (m_blocks bs) - 1) (m_blocks bs))) @
      map (bit (m_blocks bs ! (length (m_blocks bs) - 1))) [0..<(if length l mod LENGTH('a) = 0 then LENGTH('a) else length l mod LENGTH('a))]"
proof -
  let ?w = "LENGTH('a)" and ?bl = "m_blocks bs" and ?N = "length (m_blocks bs)"
  define r where "r = (if length l mod ?w = 0 then ?w else length l mod ?w)"
  have ne: "?bl \<noteq> []" using assms repr_blocks [OF assms(1)] by auto
  then show split: "?bl = take (?N - 1) ?bl @ [?bl ! (?N - 1)]"
    by (metis append_butlast_last_id butlast_conv_take last_conv_nth)
  have NSuc: "?N * ?w = (?N - 1) * ?w + ?w" using ne by (cases ?bl) auto
  show len: "length l = (?N - 1) * ?w + (if length l mod ?w = 0 then ?w else length l mod ?w)"
  proof (cases "length l mod ?w = 0")
    case True
    then have "?N * ?w = length l" by (simp add: repr_blocks [OF assms(1)] blocks_required_mult)
    with NSuc True show ?thesis by simp
  next
    case False
    then have "?N * ?w = length l + (?w - length l mod ?w)"
      unfolding repr_blocks [OF assms(1)] blocks_required_mult by simp
    moreover have "length l mod ?w < ?w" by simp
    ultimately have "length l = (?N - 1) * ?w + length l mod ?w" using NSuc by linarith
    with False show ?thesis by simp
  qed
  have r: "r \<le> ?w" by (simp add: r_def)
  show "l = concat (map word_bits (take (?N - 1) ?bl)) @
      map (bit (?bl ! (?N - 1))) [0..<(if length l mod ?w = 0 then ?w else length l mod ?w)]"
    unfolding r_def [symmetric] concat_word_bits
  proof (rule nth_equalityI)
    fix i assume i: "i < length l"
    have "nth_bit (take (?N - 1) ?bl @ [?bl ! (?N - 1)]) i = l ! i"
      using repr_bit [OF assms(1), of i] i split by simp
    with i r len ne show "l ! i = (map (nth_bit (take (?N - 1) ?bl)) [0..<length (take (?N - 1) ?bl) * ?w] @ map (bit (?bl ! (?N - 1))) [0..<r]) ! i"
      unfolding r_def [symmetric] by (auto simp: nth_bit_append nth_append nth_bit_Cons split: if_splits)
  qed (use len in \<open>simp add: r_def\<close>)
qed

lemma count_bits_eq:
  assumes "repr (bs :: 'a :: len bitset) l"
  shows "count_bits bs = Inr (length (filter id l))"
proof (cases "l = []")
  case True
  with assms show ?thesis by (simp add: count_bits_def empty_bits_def size_bits_def repr_size)
next
  case False
  note sp = bits_split_last [OF assms False]
  let ?bl = "m_blocks bs"
  have ne: "length ?bl - 1 < length ?bl" using sp(1) by (cases ?bl) auto
  have fil: "length (filter id (concat (map word_bits bl))) = sum_list (map block_count bl)" for bl :: "'a word list"
    by (induction bl) (simp_all add: block_count_eq length_filter_word_bits)
  have "length (filter id l) = sum_list (map block_count (take (length ?bl - 1) ?bl)) +
      length (filter (bit (?bl ! (length ?bl - 1))) [0..<(if length l mod LENGTH('a) = 0 then LENGTH('a) else length l mod LENGTH('a))])"
    by (subst sp(3)) (simp add: fil filter_map comp_def)
  with False assms ne show ?thesis
    by (simp add: count_bits_def empty_bits_def size_bits_def repr_size repr_extra last_block_def result_simps
        Let_def block_count_eq block_count_n_eq less_imp_le)
qed

lemma all_positions_split: "(\<forall>i. P i) \<longleftrightarrow> (\<forall>i < w. P i) \<and> (\<forall>i. P (w + i))" for w :: nat
  by (metis le_add_diff_inverse not_less)

lemma ex_positions_split: "(\<exists>i. P i) \<longleftrightarrow> (\<exists>i < w. P i) \<or> (\<exists>i. P (w + i))" for w :: nat
  by (metis le_add_diff_inverse not_less)

lemma any_nth_bit: "list_ex (\<lambda>b. b \<noteq> 0) bl \<longleftrightarrow> (\<exists>i. nth_bit (bl :: 'a :: len word list) i)"
proof (induction bl)
  case (Cons b bl)
  then show ?case
    by (subst ex_positions_split [of _ "LENGTH('a)"]) (auto simp: nth_bit_Cons word_eq_0_iff)
qed simp

lemma ex_repr: "repr bs l \<Longrightarrow> (\<exists>i. nth_bit (m_blocks bs) i) \<longleftrightarrow> True \<in> set l"
  by (auto simp: repr_bit in_set_conv_nth)

lemma any_bits_eq: "repr bs l \<Longrightarrow> any_bits bs \<longleftrightarrow> True \<in> set l"
  by (simp add: any_bits_def any_nth_bit ex_repr)

lemma all_word_bits: "list_all (\<lambda>x. x) (word_bits b) \<longleftrightarrow> b = (one_block :: 'a :: len word)"
  by (auto simp: word_bits_def list_all_iff intro: bit_word_eqI)

lemma all_bits_eq:
  assumes "repr (bs :: 'a :: len bitset) l"
  shows "all_bits bs = Inr (list_all id l)"
proof (cases "l = []")
  case True
  with assms show ?thesis by (simp add: all_bits_def empty_bits_def size_bits_def repr_size)
next
  case False
  note sp = bits_split_last [OF assms False]
  let ?bl = "m_blocks bs" and ?w = "LENGTH('a)"
  define b where "b = ?bl ! (length ?bl - 1)"
  define r where "r = length l mod ?w"
  have ne: "length ?bl - 1 < length ?bl" using sp(1) by (cases ?bl) auto
  have cat: "list_all id (concat (map word_bits bl)) \<longleftrightarrow> list_all (\<lambda>b. b = one_block) bl" for bl :: "'a word list"
    by (induction bl) (simp_all add: all_word_bits)
  have all: "list_all id l \<longleftrightarrow> list_all (\<lambda>b. b = one_block) (take (length ?bl - 1) ?bl) \<and>
      (\<forall>j < (if r = 0 then ?w else r). bit b j)"
    by (subst sp(3)) (auto simp: cat list_all_iff [of _ "map _ _"] b_def r_def)
  have extra: "extra_bits_number bs = r" using assms by (simp add: repr_extra r_def)
  show ?thesis
  proof (cases "r = 0")
    case True
    have "list_all (\<lambda>b. b = one_block) ?bl \<longleftrightarrow> list_all (\<lambda>b. b = one_block) (take (length ?bl - 1) ?bl) \<and> b = one_block"
      by (subst sp(1)) (simp add: b_def)
    moreover have "b = one_block \<longleftrightarrow> (\<forall>j < ?w. bit b j)" by (auto intro: bit_word_eqI)
    ultimately show ?thesis
      using False True assms all extra by (simp add: all_bits_def empty_bits_def size_bits_def repr_size)
  next
    case r: False
    then have rw: "r < ?w" by (simp add: r_def)
    have "\<not> bit b j" if "r \<le> j" "j < ?w" for j
    proof -
      have "length l \<le> (length ?bl - 1) * ?w + j" using sp(2) r that by (simp add: r_def)
      with nth_bit_block [OF ne that(2)] repr_bit [OF assms] show ?thesis by (simp add: b_def)
    qed
    then have hi: "bit b j \<Longrightarrow> j < ?w \<Longrightarrow> j < r" for j by (meson not_le)
    have full: "bit (drop_bit (?w - r) (one_block :: 'a word)) j \<longleftrightarrow> j < r" for j
      using rw by (auto simp: bit_drop_bit_eq)
    have "b = drop_bit (?w - r) one_block \<longleftrightarrow> (\<forall>j < r. bit b j)"
    proof
      assume "\<forall>j < r. bit b j"
      then show "b = drop_bit (?w - r) one_block" by (intro bit_word_eqI) (auto simp: full hi)
    qed (simp add: full)
    then show ?thesis
      using False r assms all extra ne
      by (auto simp: all_bits_def empty_bits_def size_bits_def repr_size last_block_def result_simps
          unused_bits_number_def b_def)
  qed
qed

lemma and_not_eq_0: "x AND NOT y = 0 \<longleftrightarrow> (\<forall>i < LENGTH('a). bit x i \<longrightarrow> bit (y :: 'a :: len word) i)"
  by (auto simp: word_eq_0_iff bit_and_iff bit_not_iff)

lemma not_and_eq_0: "NOT x AND y = 0 \<longleftrightarrow> (\<forall>i < LENGTH('a). bit y i \<longrightarrow> bit (x :: 'a :: len word) i)"
  by (auto simp: word_eq_0_iff bit_and_iff bit_not_iff)

lemma subset_loop_eq:
  "length xs = length ys \<Longrightarrow>
    subset_loop xs (ys :: 'a :: len word list) = Inr (\<forall>i. nth_bit xs i \<longrightarrow> nth_bit ys i)"
proof (induction xs ys rule: subset_loop.induct)
  case (3 x xs y ys)
  then show ?case
    by (subst all_positions_split [of _ "LENGTH('a)"]) (auto simp: nth_bit_Cons and_not_eq_0)
qed auto

lemma proper_subset_loop_eq:
  "length xs = length ys \<Longrightarrow>
    proper_subset_loop p xs (ys :: 'a :: len word list) =
      Inr ((\<forall>i. nth_bit xs i \<longrightarrow> nth_bit ys i) \<and> (p \<or> (\<exists>i. nth_bit ys i \<and> \<not> nth_bit xs i)))"
proof (induction p xs ys rule: proper_subset_loop.induct)
  case (3 p x xs y ys)
  then show ?case
    by (subst all_positions_split [of _ "LENGTH('a)"], subst ex_positions_split [of _ "LENGTH('a)"])
      (auto simp: nth_bit_Cons and_not_eq_0 not_and_eq_0)
qed auto

lemma intersects_loop_eq:
  "intersects_loop xs (ys :: 'a :: len word list) \<longleftrightarrow> (\<exists>i. nth_bit xs i \<and> nth_bit ys i)"
proof (induction xs ys rule: intersects_loop.induct)
  case (1 x xs y ys)
  then show ?case
    by (subst ex_positions_split [of _ "LENGTH('a)"]) (auto simp: nth_bit_Cons word_eq_0_iff bit_and_iff)
qed auto

text \<open>The set of positions of the set bits.\<close>

definition ones :: "bool list \<Rightarrow> nat set" where
  "ones l = {i. i < length l \<and> l ! i}"

lemma is_subset_of_eq:
  "repr bs l \<Longrightarrow> repr other m \<Longrightarrow> length l = length m \<Longrightarrow> is_subset_of bs other = Inr (ones l \<subseteq> ones m)"
  by (auto simp: is_subset_of_def size_bits_def repr_size repr_blocks subset_loop_eq repr_bit ones_def)

lemma is_proper_subset_of_eq:
  "repr bs l \<Longrightarrow> repr other m \<Longrightarrow> length l = length m \<Longrightarrow> is_proper_subset_of bs other = Inr (ones l \<subset> ones m)"
  by (auto simp: is_proper_subset_of_def size_bits_def repr_size repr_blocks proper_subset_loop_eq repr_bit ones_def)

lemma intersects_eq: "repr bs l \<Longrightarrow> repr other m \<Longrightarrow> intersects bs other \<longleftrightarrow> ones l \<inter> ones m \<noteq> {}"
  by (auto simp: intersects_def intersects_loop_eq repr_bit ones_def)

subsection \<open>Searching and iterating\<close>

lemma ctz_loop_eq:
  assumes "i + k = LENGTH('a)" "\<And>j. j < i \<Longrightarrow> \<not> bit (b :: 'a :: len word) j" "b \<noteq> 0"
  shows "\<exists>j. ctz_loop k i b (push_bit i 1) = j \<and> bit b j \<and> (\<forall>j' < j. \<not> bit b j')"
  using assms
proof (induction k arbitrary: i)
  case 0
  then have "b = 0" by (simp add: word_eq_0_iff)
  with 0 show ?case by simp
next
  case (Suc k)
  have m: "b AND push_bit i 1 \<noteq> 0 \<longleftrightarrow> bit b i"
    using and_bit_mask [of b i] Suc.prems(1) by (simp add: bit_mask_def bit_index_def)
  have s: "push_bit 1 (push_bit i 1) = (push_bit (Suc i) 1 :: 'a word)" by (simp add: ac_simps)
  show ?case
  proof (cases "bit b i")
    case True
    with Suc.prems(2) show ?thesis unfolding ctz_loop.simps zero_block_0 m by auto
  next
    case False
    have "\<exists>j. ctz_loop k (Suc i) b (push_bit (Suc i) 1) = j \<and> bit b j \<and> (\<forall>j' < j. \<not> bit b j')"
      by (rule Suc.IH) (use Suc.prems False in \<open>auto simp: less_Suc_eq\<close>)
    with False show ?thesis unfolding ctz_loop.simps zero_block_0 m s by simp
  qed
qed

lemma count_block_trailing_zero_eq:
  assumes "b \<noteq> (0 :: 'a :: len word)"
  obtains j where "count_block_trailing_zero b = Inr j" "bit b j" "\<forall>j' < j. \<not> bit b j'"
proof -
  from ctz_loop_eq [of 0 "LENGTH('a)" b] assms
  obtain j where "ctz_loop LENGTH('a) 0 b (push_bit 0 1) = j" "bit b j" "\<forall>j' < j. \<not> bit b j'"
    by auto
  with that assms show ?thesis by (simp add: count_block_trailing_zero_def)
qed

text \<open>The first set position from \<open>k\<close> on, or \<open>npos\<close>.\<close>

definition first_one :: "bool list \<Rightarrow> nat \<Rightarrow> nat" where
  "first_one l k = (case filter (\<lambda>j. l ! j) [k..<length l] of [] \<Rightarrow> npos | j # _ \<Rightarrow> j)"

lemma filter_first:
  assumes "k \<le> j" "j < n" "P j" "\<And>i. k \<le> i \<Longrightarrow> i < j \<Longrightarrow> \<not> P i"
  shows "filter P [k..<n] = j # filter P [Suc j..<n]"
proof -
  have "[k..<n] = [k..<j] @ j # [Suc j..<n]"
    using assms(1,2) by (metis le_add_diff_inverse less_imp_le upt_add_eq_append upt_conv_Cons)
  moreover have "filter P [k..<j] = []" using assms(4) by (auto simp: filter_empty_conv)
  ultimately show ?thesis using assms(3) by simp
qed

lemma find_block_loop_eq:
  fixes bl :: "'a :: len word list"
  shows "(\<forall>j. \<not> nth_bit bl j) \<and> find_block_loop i bl = Inr npos \<or>
    (\<exists>j. nth_bit bl j \<and> (\<forall>j' < j. \<not> nth_bit bl j') \<and> find_block_loop i bl = Inr (i * LENGTH('a) + j))"
proof (induction bl arbitrary: i)
  case (Cons b bl)
  show ?case
  proof (cases "b = 0")
    case True
    have nb: "nth_bit ((0 :: 'a word) # bl) j \<longleftrightarrow> LENGTH('a) \<le> j \<and> nth_bit bl (j - LENGTH('a))" for j
      by (simp add: nth_bit_Cons)
    from Cons [of "Suc i"] show ?thesis
    proof (elim disjE exE conjE)
      fix j assume j: "nth_bit bl j" "\<forall>j' < j. \<not> nth_bit bl j'"
        "find_block_loop (Suc i) bl = Inr (Suc i * LENGTH('a) + j)"
      with True show ?thesis
        by (intro disjI2 exI [of _ "LENGTH('a) + j"]) (auto simp: nb ac_simps)
    qed (use True in \<open>auto simp: nb\<close>)
  next
    case False
    then obtain j where "count_block_trailing_zero b = Inr j" "bit b j" "\<forall>j' < j. \<not> bit b j'"
      by (rule count_block_trailing_zero_eq)
    with False bit_imp_le_length [of b j] show ?thesis
      by (intro disjI2 exI [of _ j]) (auto simp: nth_bit_Cons)
  qed
qed simp

lemma find_first_eq:
  assumes "repr bs l"
  shows "find_first bs = Inr (first_one l 0)"
  using find_block_loop_eq [of "m_blocks bs" 0]
proof (elim disjE exE conjE)
  assume "\<forall>j. \<not> nth_bit (m_blocks bs) j" "find_block_loop 0 (m_blocks bs) = Inr npos"
  moreover from this have "filter (\<lambda>j. l ! j) [0..<length l] = []"
    using repr_bit [OF assms] by (auto simp: filter_empty_conv)
  ultimately show ?thesis by (simp add: find_first_def first_one_def)
next
  fix j assume j: "nth_bit (m_blocks bs) j" "\<forall>j' < j. \<not> nth_bit (m_blocks bs) j'"
    "find_block_loop 0 (m_blocks bs) = Inr (0 * LENGTH('a) + j)"
  then have "filter (\<lambda>j. l ! j) [0..<length l] = j # filter (\<lambda>j. l ! j) [Suc j..<length l]"
    using repr_bit [OF assms] by (intro filter_first) auto
  with j(3) show ?thesis by (simp add: find_first_def first_one_def)
qed

lemma find_next_eq:
  assumes "repr (bs :: 'a :: len bitset) l"
  shows "find_next bs p = Inr (first_one l (Suc p))"
proof (cases "length l \<le> Suc p")
  case True
  with assms show ?thesis
    by (auto simp: find_next_def empty_bits_def size_bits_def repr_size first_one_def)
next
  case False
  let ?w = "LENGTH('a)" and ?bl = "m_blocks bs"
  define i where "i = Suc p"
  define k where "k = i div ?w"
  define t where "t = i mod ?w"
  have i: "i < length l" "i = k * ?w + t" "t < ?w" using False by (simp_all add: i_def k_def t_def)
  have k: "k < length ?bl" using repr_block_in [OF assms i(1)] by (simp add: k_def)
  have red: "find_next bs p = (let x = drop_bit t (?bl ! k) in
      if x \<noteq> 0 then rbind (count_block_trailing_zero x) (\<lambda>j. Inr (i + j))
      else find_block_loop (Suc k) (drop (Suc k) ?bl))"
  proof -
    have "\<not> (empty_bits bs \<or> size_bits bs - 1 \<le> p)"
      using False assms by (auto simp: empty_bits_def size_bits_def repr_size)
    with k show ?thesis
      by (simp add: find_next_def block_index_def bit_index_def i_def k_def t_def result_simps Let_def)
  qed
  have here: "bit (?bl ! k) (t + j) \<longleftrightarrow> nth_bit ?bl (i + j)" if "t + j < ?w" for j
    using nth_bit_block [OF k that] i(2) by (simp add: ac_simps)
  have later: "nth_bit (drop (Suc k) ?bl) j \<longleftrightarrow> nth_bit ?bl (Suc k * ?w + j)" for j
  proof -
    have "length (take (Suc k) ?bl) = Suc k" using k by simp
    then have "nth_bit (take (Suc k) ?bl @ drop (Suc k) ?bl) (Suc k * ?w + j) = nth_bit (drop (Suc k) ?bl) j"
      unfolding nth_bit_append by simp
    then show ?thesis by (simp only: append_take_drop_id)
  qed
  have fin: "Inr j = Inr (first_one l (Suc p))" if "nth_bit ?bl j" "i \<le> j" "\<And>j'. i \<le> j' \<Longrightarrow> j' < j \<Longrightarrow> \<not> nth_bit ?bl j'" for j
  proof -
    have "filter (\<lambda>j. l ! j) [i..<length l] = j # filter (\<lambda>j. l ! j) [Suc j..<length l]"
    proof (rule filter_first)
      show j: "j < length l" "l ! j" using that(1) repr_bit [OF assms, of j] by simp_all
      fix i' assume "i \<le> i'" "i' < j"
      with that(3) [of i'] j(1) repr_bit [OF assms, of i'] show "\<not> l ! i'" by simp
    qed (rule that(2))
    then show ?thesis by (simp add: first_one_def i_def)
  qed
  show ?thesis
  proof (cases "drop_bit t (?bl ! k) = 0")
    case False
    then obtain j where j: "count_block_trailing_zero (drop_bit t (?bl ! k)) = Inr j" "bit (drop_bit t (?bl ! k)) j"
      "\<forall>j' < j. \<not> bit (drop_bit t (?bl ! k)) j'" by (rule count_block_trailing_zero_eq)
    have tj: "t + j < ?w" using j(2) bit_imp_le_length [of "?bl ! k" "t + j"] by (simp add: bit_drop_bit_eq)
    have "Inr (i + j) = Inr (first_one l (Suc p))"
    proof (rule fin)
      show "nth_bit ?bl (i + j)" using here [OF tj] j(2) by (simp add: bit_drop_bit_eq)
      fix j' assume j': "i \<le> j'" "j' < i + j"
      with tj have "t + (j' - i) < ?w" by linarith
      with here [OF this] j(3) [rule_format, of "j' - i"] j' show "\<not> nth_bit ?bl j'" by (simp add: bit_drop_bit_eq)
    qed simp
    with False j(1) red show ?thesis by simp
  next
    case True
    have none: "\<not> nth_bit ?bl j" if "i \<le> j" "j < Suc k * ?w" for j
    proof -
      have "t + (j - i) < ?w" using that i by simp
      moreover have "\<not> bit (drop_bit t (?bl ! k)) (j - i)" by (simp add: True)
      ultimately show ?thesis using here [of "j - i"] that by (simp add: bit_drop_bit_eq)
    qed
    from find_block_loop_eq [of "drop (Suc k) ?bl" "Suc k"] show ?thesis
    proof (elim disjE exE conjE)
      assume n: "\<forall>j. \<not> nth_bit (drop (Suc k) ?bl) j" and f: "find_block_loop (Suc k) (drop (Suc k) ?bl) = Inr npos"
      have "\<not> l ! j" if "i \<le> j" "j < length l" for j
      proof (cases "j < Suc k * ?w")
        case True
        with none that repr_bit [OF assms, of j] show ?thesis by simp
      next
        case False
        with n later [of "j - Suc k * ?w"] that repr_bit [OF assms, of j] show ?thesis by simp
      qed
      then have "filter (\<lambda>j. l ! j) [i..<length l] = []" by (auto simp: filter_empty_conv)
      with True f red show ?thesis by (simp add: first_one_def i_def)
    next
      fix j assume j: "nth_bit (drop (Suc k) ?bl) j" "\<forall>j' < j. \<not> nth_bit (drop (Suc k) ?bl) j'"
        "find_block_loop (Suc k) (drop (Suc k) ?bl) = Inr (Suc k * ?w + j)"
      have "Inr (Suc k * ?w + j) = Inr (first_one l (Suc p))"
      proof (rule fin)
        show "nth_bit ?bl (Suc k * ?w + j)" using j(1) later by simp
        show "i \<le> Suc k * ?w + j" using i by simp
        fix j' assume j': "i \<le> j'" "j' < Suc k * ?w + j"
        show "\<not> nth_bit ?bl j'"
        proof (cases "j' < Suc k * ?w")
          case True
          with none j' show ?thesis by simp
        next
          case False
          with j(2) later [of "j' - Suc k * ?w"] j' show ?thesis by simp
        qed
      qed
      with True j(3) red show ?thesis by simp
    qed
  qed
qed

end
