(* ===== verification/Dynamic_Bitset_Properties.thy ===== *)
theory Dynamic_Bitset_Properties
  imports Dynamic_Bitset_Queries
begin

text \<open>
  Iteration, comparison and string conversion of \<open>dynamic_bitset\<close>, the compiler-builtin block
  routines, and the properties of the class.
\<close>

subsection \<open>Iteration\<close>

fun visit_all :: "(nat \<Rightarrow> 's \<Rightarrow> bool \<times> 's) \<Rightarrow> nat list \<Rightarrow> 's \<Rightarrow> 's" where
  "visit_all visit [] s = s"
| "visit_all visit (i # is) s = (case visit i s of (go_on, s') \<Rightarrow> if go_on then visit_all visit is s' else s')"

lemma iterate_from_eq:
  assumes "repr bs l" "length l \<le> npos"
  shows "iterate_from bs visit (first_one l k) s = Inr (visit_all visit (filter (\<lambda>j. l ! j) [k..<length l]) s)"
proof (induction "length l - k" arbitrary: k s)
  case 0
  then have "first_one l k = npos" "filter (\<lambda>j. l ! j) [k..<length l] = []" by (simp_all add: first_one_def)
  then show ?case by (simp add: iterate_from.simps)
next
  case (Suc n)
  then have k: "k < length l" by simp
  show ?case
  proof (cases "l ! k")
    case True
    then have f: "filter (\<lambda>j. l ! j) [k..<length l] = k # filter (\<lambda>j. l ! j) [Suc k..<length l]" "first_one l k = k"
      using k by (simp_all add: upt_conv_Cons first_one_def)
    have IH: "iterate_from bs visit (first_one l (Suc k)) s' =
        Inr (visit_all visit (filter (\<lambda>j. l ! j) [Suc k..<length l]) s')" for s'
      by (rule Suc.hyps) (use Suc.hyps(2) in simp)
    show ?thesis
      using k assms(2) unfolding f iterate_from.simps [of bs visit k s] find_next_eq [OF assms(1)]
      by (auto simp: IH split: prod.splits)
  next
    case False
    then have f: "filter (\<lambda>j. l ! j) [k..<length l] = filter (\<lambda>j. l ! j) [Suc k..<length l]"
      "first_one l k = first_one l (Suc k)"
      using k by (simp_all add: upt_conv_Cons first_one_def)
    show ?thesis unfolding f by (rule Suc.hyps) (use Suc.hyps(2) in simp)
  qed
qed

lemma iterate_bits_on_eq:
  "repr bs l \<Longrightarrow> length l \<le> npos \<Longrightarrow>
    iterate_bits_on bs visit s = Inr (visit_all visit (filter (\<lambda>j. l ! j) [0..<length l]) s)"
  by (simp add: iterate_bits_on_def find_first_eq iterate_from_eq)

subsection \<open>Comparison\<close>

definition bits_value :: "bool list \<Rightarrow> nat" where
  "bits_value l = horner_sum of_bool 2 l"

definition blocks_value :: "'a :: len word list \<Rightarrow> nat" where
  "blocks_value bl = horner_sum unat (2 ^ LENGTH('a)) bl"

lemma bits_value_append: "bits_value (l @ m) = bits_value l + 2 ^ length l * bits_value m"
  by (simp add: bits_value_def horner_sum_append)

lemma bits_value_replicate_False [simp]: "bits_value (replicate n False) = 0"
  by (induction n) (simp_all add: bits_value_def)

lemma bits_value_word_bits: "bits_value (word_bits b) = unat (b :: 'a :: len word)"
proof -
  have "word_bits b = map (bit (unat b)) [0..<LENGTH('a)]" by (auto simp: word_bits_def bit_unsigned_iff)
  then have "bits_value (word_bits b) = take_bit LENGTH('a) (unat b)"
    by (simp add: bits_value_def horner_sum_bit_eq_take_bit)
  then show ?thesis by (simp add: take_bit_nat_eq_self)
qed

lemma bits_value_blocks: "bits_value (concat (map word_bits bl)) = blocks_value (bl :: 'a :: len word list)"
  by (induction bl) (simp_all add: bits_value_append bits_value_word_bits blocks_value_def, simp add: bits_value_def)

lemma repr_value:
  assumes "repr (bs :: 'a :: len bitset) l"
  shows "bits_value l = blocks_value (m_blocks bs)"
proof -
  let ?c = "concat (map word_bits (m_blocks bs))"
  have len: "length l \<le> length ?c" using repr_size_blocks [OF assms] by (simp add: concat_word_bits)
  have "?c = l @ replicate (length ?c - length l) False"
    using len repr_bit [OF assms] by (intro nth_equalityI) (auto simp: concat_word_bits nth_append)
  then have "bits_value ?c = bits_value l"
    by (metis bits_value_append bits_value_replicate_False mult_0_right add_0_right)
  then show ?thesis by (simp add: bits_value_blocks)
qed

lemma blocks_value_snoc:
  "blocks_value (bl @ [b :: 'a :: len word]) = blocks_value bl + 2 ^ (LENGTH('a) * length bl) * unat b"
  by (simp add: blocks_value_def horner_sum_append power_mult)

lemma blocks_value_less: "blocks_value (bl :: 'a :: len word list) < 2 ^ (LENGTH('a) * length bl)"
proof (induction bl rule: rev_induct)
  case (snoc b bl)
  have "unat b + 1 \<le> 2 ^ LENGTH('a)" using unsigned_less [of b] by (simp add: Suc_le_eq)
  then have "2 ^ (LENGTH('a) * length bl) * (unat b + 1) \<le> (2 :: nat) ^ (LENGTH('a) * length bl) * 2 ^ LENGTH('a)"
    by (rule mult_le_mono2)
  with snoc show ?case by (simp add: blocks_value_snoc power_add algebra_simps)
qed (simp add: blocks_value_def)

text \<open>Comparing two numbers by their top block.\<close>

lemma top_block_less:
  fixes u v :: nat
  assumes "u < P" "v < P"
  shows "x \<noteq> y \<Longrightarrow> u + P * x < v + P * y \<longleftrightarrow> x < y" "u + P * x < v + P * x \<longleftrightarrow> u < v"
    "u + P * x = v + P * y \<longleftrightarrow> x = y \<and> u = v"
proof -
  have less: "u + P * x < v + P * y" if "x < y" "u < P" for u v x y
  proof -
    from that have "P * (x + 1) \<le> P * y" by (intro mult_le_mono2) simp
    with that show ?thesis by simp
  qed
  show "x \<noteq> y \<Longrightarrow> u + P * x < v + P * y \<longleftrightarrow> x < y"
    using less [of x y u v] less [of y x v u] assms by (metis linorder_neqE_nat order_less_asym)
  show "u + P * x < v + P * x \<longleftrightarrow> u < v" by simp
  show "u + P * x = v + P * y \<longleftrightarrow> x = y \<and> u = v"
    using less [of x y u v] less [of y x v u] assms
    by (metis add_right_cancel linorder_neqE_nat order_less_irrefl)
qed

lemma blocks_value_take_Suc:
  "i < length bl \<Longrightarrow> blocks_value (take (Suc i) (bl :: 'a :: len word list)) =
    blocks_value (take i bl) + 2 ^ (LENGTH('a) * i) * unat (bl ! i)"
  by (simp add: take_Suc_conv_app_nth blocks_value_snoc)

lemma blocks_value_take_less: "i \<le> length bl \<Longrightarrow> blocks_value (take i (bl :: 'a :: len word list)) < 2 ^ (LENGTH('a) * i)"
  using blocks_value_less [of "take i bl"] by simp

text \<open>What the result of the comparison loop says of the two numbers \<open>X\<close> and \<open>Y\<close> with lowest
  blocks \<open>x\<close> and \<open>y\<close>.\<close>

definition decides :: "bool option \<Rightarrow> nat \<Rightarrow> nat \<Rightarrow> 'a :: len word \<Rightarrow> 'a word \<Rightarrow> bool" where
  "decides r X Y x y \<longleftrightarrow>
     (case r of Some b \<Rightarrow> X \<noteq> Y \<and> (b \<longleftrightarrow> X < Y) | None \<Rightarrow> (X < Y \<longleftrightarrow> x < y) \<and> (X = Y \<longleftrightarrow> x = y))"

lemma less_loop_eq:
  assumes "i < length xs" "i < length (ys :: 'a :: len word list)"
  obtains r where "less_loop i xs ys = Inr r"
    "decides r (blocks_value (take (Suc i) xs)) (blocks_value (take (Suc i) ys)) (xs ! 0) (ys ! 0)"
proof -
  have "\<exists>r. less_loop i xs ys = Inr r \<and>
    decides r (blocks_value (take (Suc i) xs)) (blocks_value (take (Suc i) ys)) (xs ! 0) (ys ! 0)"
    using assms
  proof (induction i)
    case 0
    then have "blocks_value (take (Suc 0) xs) = unat (xs ! 0)" "blocks_value (take (Suc 0) ys) = unat (ys ! 0)"
      by (simp_all add: blocks_value_take_Suc) (simp_all add: blocks_value_def)
    then show ?case by (simp add: decides_def word_less_nat_alt word_unat_eq_iff)
  next
    case (Suc i)
    let ?X = "\<lambda>zs :: 'a word list. blocks_value (take (Suc i) zs)"
    note top = top_block_less [OF blocks_value_take_less [of "Suc i" xs] blocks_value_take_less [of "Suc i" ys]]
    note val = blocks_value_take_Suc [OF Suc.prems(1)] blocks_value_take_Suc [OF Suc.prems(2)]
    show ?case
    proof (cases "xs ! Suc i = ys ! Suc i")
      case True
      from Suc obtain r where "less_loop i xs ys = Inr r" "decides r (?X xs) (?X ys) (xs ! 0) (ys ! 0)" by auto
      moreover have "decides r (blocks_value (take (Suc (Suc i)) xs)) (blocks_value (take (Suc (Suc i)) ys)) (xs ! 0) (ys ! 0)
          \<longleftrightarrow> decides r (?X xs) (?X ys) (xs ! 0) (ys ! 0)"
        unfolding val decides_def by (simp add: True split: option.splits)
      ultimately show ?thesis using True Suc.prems by (simp add: result_simps)
    next
      case False
      then have ne: "unat (xs ! Suc i) \<noteq> unat (ys ! Suc i)" by (simp add: word_unat_eq_iff)
      have "decides (Some (xs ! Suc i < ys ! Suc i)) (blocks_value (take (Suc (Suc i)) xs))
          (blocks_value (take (Suc (Suc i)) ys)) (xs ! 0) (ys ! 0)"
        using top(1) [OF _ _ ne] top(3) [of "unat (xs ! Suc i)" "unat (ys ! Suc i)"] ne Suc.prems
        unfolding val decides_def by (simp add: word_less_nat_alt)
      with False Suc.prems show ?thesis by (simp add: result_simps)
    qed
  qed
  with that show ?thesis by blast
qed

lemma any_above_eq:
  assumes "n \<le> length l"
  shows "any_above s n (l :: 'a :: len word list) = Inr (\<exists>k. s \<le> k \<and> k < n \<and> l ! k \<noteq> 0)"
  using assms
proof (induction n)
  case (Suc n)
  then show ?case by (auto simp: result_simps less_Suc_eq)
qed simp

lemma blocks_value_above:
  assumes "s \<le> length l"
  shows "blocks_value (l :: 'a :: len word list) < 2 ^ (LENGTH('a) * s) \<longleftrightarrow> \<not> (\<exists>k. s \<le> k \<and> k < length l \<and> l ! k \<noteq> 0)"
    and "\<not> (\<exists>k. s \<le> k \<and> k < length l \<and> l ! k \<noteq> 0) \<Longrightarrow> blocks_value l = blocks_value (take s l)"
proof -
  let ?P = "(2 :: nat) ^ LENGTH('a)"
  have split: "blocks_value l = blocks_value (take s l) + 2 ^ (LENGTH('a) * s) * blocks_value (drop s l)"
    using assms horner_sum_append [of unat ?P "take s l" "drop s l"] by (simp add: blocks_value_def power_mult)
  have zero: "blocks_value bl = 0 \<longleftrightarrow> (\<forall>b \<in> set bl. b = 0)" for bl :: "'a word list"
    by (induction bl) (auto simp: blocks_value_def unat_eq_0)
  have "(\<exists>k. s \<le> k \<and> k < length l \<and> l ! k \<noteq> 0) \<longleftrightarrow> (\<exists>b \<in> set (drop s l). b \<noteq> 0)"
  proof
    assume "\<exists>k. s \<le> k \<and> k < length l \<and> l ! k \<noteq> 0"
    then obtain k where k: "s \<le> k" "k < length l" "l ! k \<noteq> 0" by blast
    then have "drop s l ! (k - s) = l ! k" "k - s < length (drop s l)" by simp_all
    with k(3) show "\<exists>b \<in> set (drop s l). b \<noteq> 0" by (metis nth_mem)
  next
    assume "\<exists>b \<in> set (drop s l). b \<noteq> 0"
    then obtain i where "i < length l - s" "l ! (s + i) \<noteq> 0" by (auto simp: in_set_conv_nth)
    then show "\<exists>k. s \<le> k \<and> k < length l \<and> l ! k \<noteq> 0" by (intro exI [of _ "s + i"]) simp
  qed
  then have iff: "\<not> (\<exists>k. s \<le> k \<and> k < length l \<and> l ! k \<noteq> 0) \<longleftrightarrow> blocks_value (drop s l) = 0"
    by (simp add: zero)
  show "\<not> (\<exists>k. s \<le> k \<and> k < length l \<and> l ! k \<noteq> 0) \<Longrightarrow> blocks_value l = blocks_value (take s l)"
    using split iff by simp
  show "blocks_value l < 2 ^ (LENGTH('a) * s) \<longleftrightarrow> \<not> (\<exists>k. s \<le> k \<and> k < length l \<and> l ! k \<noteq> 0)"
    unfolding iff using split blocks_value_take_less [OF assms]
    by (cases "blocks_value (drop s l)") auto
qed

lemma op_less_eq:
  fixes a b :: "'a :: len bitset"
  assumes "repr a l" "repr b m"
  shows "op_less a b = Inr (bits_value l < bits_value m \<or> bits_value l = bits_value m \<and> length l < length m)"
proof (cases "l = [] \<or> m = []")
  case True
  have nil: "bits_value [] = 0" by (simp add: bits_value_def)
  have "op_less a b = Inr (l = [] \<and> m \<noteq> [])"
    using True assms by (auto simp: op_less_def size_bits_def repr_size Let_def)
  with True show ?thesis by (cases "bits_value m = 0") (auto simp: nil)
next
  case False
  let ?xs = "m_blocks a" and ?ys = "m_blocks b"
  have len: "length ?xs = blocks_required LENGTH('a) (length l)" "length ?ys = blocks_required LENGTH('a) (length m)"
    using assms by (simp_all add: repr_blocks)
  have ne: "0 < length ?xs" "0 < length ?ys" using False by (auto simp: len)
  have val: "bits_value l = blocks_value ?xs" "bits_value m = blocks_value ?ys"
    using assms by (simp_all add: repr_value)
  define s where "s = min (length ?xs) (length ?ys)"
  have s: "0 < s" "s \<le> length ?xs" "s \<le> length ?ys" "Suc (s - 1) = s" using ne by (simp_all add: s_def)
  from less_loop_eq [of "s - 1" ?xs ?ys] s obtain r where
    r: "less_loop (s - 1) ?xs ?ys = Inr r"
       "decides r (blocks_value (take s ?xs)) (blocks_value (take s ?ys)) (?xs ! 0) (?ys ! 0)" by auto
  show ?thesis
  proof (cases "length l = length m")
    case True
    then have "s = length ?xs" "s = length ?ys" by (simp_all add: s_def len)
    with r True False ne show ?thesis
      by (auto simp: op_less_def size_bits_def repr_size [OF assms(1)] repr_size [OF assms(2)] result_simps val decides_def
          split: option.splits)
  next
    case neq: False
    define rl where "rl = (length l < length m)"
    define L where "L = (if rl then ?ys else ?xs)"
    have L: "length L = max (length ?xs) (length ?ys)" "s \<le> length L"
    proof -
      have mono: "blocks_required LENGTH('a) n \<le> blocks_required LENGTH('a) k" if "n \<le> k" for n k
        using blocks_required_ge [of k, where 'a = 'a] that by (intro blocks_required_le) simp
      show "length L = max (length ?xs) (length ?ys)"
        using mono [of "length l" "length m"] mono [of "length m" "length l"]
        by (auto simp: L_def rl_def len)
      then show "s \<le> length L" by (simp add: s_def)
    qed
    define above where "above = (\<exists>k. s \<le> k \<and> k < length L \<and> L ! k \<noteq> 0)"
    have aa: "any_above s (max (length ?xs) (length ?ys)) L = Inr above"
      using any_above_eq [of "length L" L s] L by (simp add: above_def)
    note ab = blocks_value_above [OF L(2), folded above_def]
    have short: "blocks_value S < 2 ^ (LENGTH('a) * s) \<and> take s S = S" if "S = (if rl then ?xs else ?ys)" for S
    proof -
      have "length S = s" using L that by (auto simp: L_def s_def split: if_splits)
      with blocks_value_less [of S] show ?thesis by auto
    qed
    have eval: "op_less a b = (if above then Inr rl else
        (case r of Some b \<Rightarrow> Inr b | None \<Rightarrow> if ?xs ! 0 \<noteq> ?ys ! 0 then Inr (?xs ! 0 < ?ys ! 0) else Inr rl))"
    proof -
      have long: "m_blocks (if length l < length m then b else a) = L" by (simp add: L_def rl_def)
      have "op_less a b = rbind (any_above s (max (length ?xs) (length ?ys)) (m_blocks (if length l < length m then b else a)))
          (\<lambda>above. if above then Inr (length l < length m)
            else rbind (less_loop (s - 1) ?xs ?ys) (\<lambda>found. case found of Some b \<Rightarrow> Inr b | None \<Rightarrow>
              rbind (at_idx ?xs 0) (\<lambda>x. rbind (at_idx ?ys 0) (\<lambda>y.
              if x \<noteq> y then Inr (x < y) else Inr (length l < length m)))))"
        using False neq
        by (simp only: op_less_def Let_def size_bits_def repr_size [OF assms(1)] repr_size [OF assms(2)] s_def
            if_False length_0_conv de_Morgan_disj)
      also have "\<dots> = (if above then Inr rl else
          (case r of Some b \<Rightarrow> Inr b | None \<Rightarrow> if ?xs ! 0 \<noteq> ?ys ! 0 then Inr (?xs ! 0 < ?ys ! 0) else Inr rl))"
        unfolding long aa r(1) rbind_Inr at_idx_in [OF ne(1)] at_idx_in [OF ne(2)] rl_def ..
      finally show ?thesis .
    qed
    show ?thesis
    proof (cases above)
      case True
      with ab(1) short [OF refl] eval neq show ?thesis
        by (auto simp: val L_def rl_def split: if_splits)
    next
      case F: False
      have "blocks_value ?xs = blocks_value (take s ?xs)" "blocks_value ?ys = blocks_value (take s ?ys)"
        using ab(2) [OF F] short [OF refl] by (auto simp: L_def split: if_splits)
      with F eval r(2) show ?thesis
        by (auto simp: val decides_def rl_def split: option.splits)
    qed
  qed
qed

subsection \<open>Strings\<close>

text \<open>The text with the characters of the bits below \<open>n\<close> written, most significant bit first.\<close>

definition written :: "bool list \<Rightarrow> 'c \<Rightarrow> 'c \<Rightarrow> nat \<Rightarrow> 'c list" where
  "written l zero one n = map (\<lambda>p. if length l - Suc p < n \<and> l ! (length l - Suc p) then one else zero) [0..<length l]"

lemma written_0: "written l zero one 0 = replicate (length l) zero"
  by (auto simp: written_def intro!: nth_equalityI)

lemma written_all: "length l \<le> n \<Longrightarrow> written l zero one n = map (\<lambda>b. if b then one else zero) (rev l)"
  by (auto simp: written_def rev_nth intro!: nth_equalityI)

lemma written_Suc:
  "n < length l \<Longrightarrow> written l zero one (Suc n) =
    (if l ! n then (written l zero one n)[length l - Suc n := one] else written l zero one n)"
  by (auto simp: written_def nth_list_update less_Suc_eq intro!: nth_equalityI)

lemma written_skip: "(\<And>i. a \<le> i \<Longrightarrow> i < b \<Longrightarrow> i < length l \<Longrightarrow> \<not> l ! i) \<Longrightarrow> a \<le> b \<Longrightarrow> written l zero one b = written l zero one a"
  by (fastforce simp: written_def)

lemma to_string_block_eq:
  assumes "repr (bs :: 'a :: len bitset) l" "k < length (m_blocks bs)" "k * LENGTH('a) < length l"
  shows "to_string_block (length l) one k (m_blocks bs ! k) (written l zero one (k * LENGTH('a))) =
    Inr (written l zero one (Suc k * LENGTH('a)))"
proof -
  let ?w = "LENGTH('a)" and ?b = "m_blocks bs ! k"
  let ?lim = "length l - k * LENGTH('a)"
  let ?f = "\<lambda>i_bit (msk, str). rbind (if ?b AND msk \<noteq> zero_block
      then rbind (assert_that (k * ?w + i_bit + 1 \<le> length l)) (\<lambda>_. set_idx str (length l - (k * ?w + i_bit + 1)) one)
      else Inr str) (\<lambda>str. Inr (push_bit 1 msk, str))"
  define M where "M j = (push_bit j 1 :: 'a word)" for j
  have M0: "M 0 = 1" and sh: "push_bit 1 (M j) = M (Suc j)" for j by (simp_all add: M_def ac_simps)
  have Mge: "M j = 0" if "\<not> j < ?w" for j
    by (rule bit_word_eqI) (use that in \<open>simp add: M_def bit_push_bit_iff del: push_bit_of_1\<close>)
  have Mbit: "?b AND M j \<noteq> 0 \<longleftrightarrow> bit ?b j" if "j < ?w" for j
    using and_bit_mask [of ?b j] that by (simp add: bit_mask_def bit_index_def M_def)
  define I where "I j = (\<lambda>(msk :: 'a word, str). msk = M j \<and> str = written l zero one (k * ?w + min j ?w))" for j
  have "returns (rfold ?f [0..<?lim] (1, written l zero one (k * ?w))) (I (length [0..<?lim]))"
  proof (rule returns_rfold)
    fix j st assume j: "j < length [0..<?lim]" and I: "I j st"
    obtain str where st: "st = (M j, str)" "str = written l zero one (k * ?w + min j ?w)"
      using I by (cases st) (simp add: I_def)
    have pos: "k * ?w + j < length l" using j by simp
    show "returns (?f ([0..<?lim] ! j) st) (I (Suc j))"
    proof (cases "j < ?w")
      case True
      have "bit ?b j \<longleftrightarrow> l ! (k * ?w + j)"
        using nth_bit_block [OF assms(2) True] repr_bit [OF assms(1), of "k * ?w + j"] pos by simp
      then have iff: "?b AND M j \<noteq> 0 \<longleftrightarrow> l ! (k * ?w + j)" by (simp only: Mbit [OF True])
      have "min j ?w = j" "min (Suc j) ?w = Suc j" using True by simp_all
      then have "I (Suc j) (M (Suc j),
          if l ! (k * ?w + j) then str[length l - (k * ?w + j + 1) := one] else str)"
        unfolding I_def st(2) using written_Suc [OF pos, of zero one] by simp
      moreover have "length str = length l" by (simp add: st(2) written_def)
      ultimately show ?thesis
        using j pos unfolding st(1) prod.case sh zero_block_0 iff by (auto simp: result_simps)
    next
      case False
      then have "M j = 0" "M (Suc j) = 0" "min j ?w = ?w" "min (Suc j) ?w = ?w" using Mge by simp_all
      with j st show ?thesis by (simp add: I_def)
    qed
  qed (simp add: I_def M0)
  then have "returns (rfold ?f [0..<?lim] (1, written l zero one (k * ?w))) (I ?lim)" by simp
  then obtain msk str where r: "rfold ?f [0..<?lim] (1, written l zero one (k * ?w)) = Inr (msk, str)"
    "str = written l zero one (k * ?w + min ?lim ?w)" by (auto simp: returns_def I_def)
  have "written l zero one (k * ?w + min ?lim ?w) = written l zero one (Suc k * ?w)"
    by (rule written_skip [symmetric]) (use assms(3) in auto)
  with r assms(3) show ?thesis unfolding to_string_block_def Let_def by simp
qed

lemma to_string_eq:
  assumes "repr (bs :: 'a :: len bitset) l"
  shows "bits_to_string bs zero one = Inr (map (\<lambda>b. if b then one else zero) (rev l))"
proof -
  let ?w = "LENGTH('a)" and ?bl = "m_blocks bs"
  let ?f = "\<lambda>i str. rbind (at_idx ?bl i) (\<lambda>block.
    if block = zero_block then Inr str else to_string_block (length l) one i block str)"
  have "returns (rfold ?f [0..<length ?bl] (replicate (length l) zero))
    (\<lambda>str. str = written l zero one (length [0..<length ?bl] * ?w))"
  proof (rule returns_rfold [where I = "\<lambda>k str. str = written l zero one (k * ?w)"])
    fix k str assume k: "k < length [0..<length ?bl]" and str: "str = written l zero one (k * ?w)"
    have "Suc k * ?w \<le> length ?bl * ?w" using k by (intro mult_le_mono1) simp
    then have kl: "k * ?w < length l"
      using blocks_required_less [of "length l", where 'a = 'a] repr_blocks [OF assms] by simp
    show "returns (?f ([0..<length ?bl] ! k) str) (\<lambda>str. str = written l zero one (Suc k * ?w))"
    proof (cases "?bl ! k = 0")
      case True
      have "\<not> l ! i" if "k * ?w \<le> i" "i < Suc k * ?w" "i < length l" for i
      proof -
        have "i div ?w = k" using that block_of_unique [of i k, where 'a = 'a] by blast
        with True repr_block_bit [OF assms that(3)] show ?thesis by simp
      qed
      then have "written l zero one (Suc k * ?w) = written l zero one (k * ?w)" by (intro written_skip) auto
      with True k str show ?thesis by (simp add: result_simps)
    next
      case False
      with k str to_string_block_eq [OF assms _ kl, of one zero] show ?thesis by (simp add: result_simps)
    qed
  qed (simp add: written_0)
  with repr_size_blocks [OF assms] show ?thesis
    by (auto simp: returns_def bits_to_string_def size_bits_def repr_size [OF assms] written_all)
qed

lemma repr_zeros: "repr \<lparr>m_blocks = replicate (blocks_required LENGTH('a) n) (0 :: 'a :: len word), m_bits_number = n\<rparr> (replicate n False)"
  by (rule reprI) (simp_all add: nth_bit_replicate)

lemma init_from_string_returns:
  fixes zero one :: 'c
  assumes "pos < length str" "set (take n (drop pos str)) \<subseteq> {zero, one}"
  shows "returns (init_from_string str pos n zero one)
    (\<lambda>bs :: 'a :: len bitset. repr bs (map (\<lambda>c. c = one) (rev (take n (drop pos str)))))"
proof -
  define sz where "sz = min n (length str - pos)"
  define l where "l = map (\<lambda>c. c = one) (rev (take n (drop pos str)))"
  have len: "length l = sz" by (simp add: l_def sz_def)
  have idx: "l ! i \<longleftrightarrow> str ! (pos + sz - 1 - i) = one" "str ! (pos + sz - 1 - i) \<in> {zero, one}"
    "pos + sz - 1 - i < length str" if "i < sz" for i
  proof -
    have e: "rev (take n (drop pos str)) ! i = str ! (pos + sz - 1 - i)" "length (take n (drop pos str)) = sz"
      using that assms(1) by (auto simp: rev_nth sz_def min_def intro!: arg_cong [of _ _ "(!) str"])
    with that show "l ! i \<longleftrightarrow> str ! (pos + sz - 1 - i) = one" by (simp add: l_def)
    from e that have "str ! (pos + sz - 1 - i) \<in> set (take n (drop pos str))" by (metis length_rev nth_mem set_rev)
    with assms(2) show "str ! (pos + sz - 1 - i) \<in> {zero, one}" by blast
    show "pos + sz - 1 - i < length str" using that assms(1) by (simp add: sz_def)
  qed
  let ?f = "\<lambda>i bs :: 'a bitset. rbind (at_idx str ((pos + sz - 1) - i)) (\<lambda>c. rbind (assert_that (c = zero \<or> c = one))
    (\<lambda>_. if c = one then set_bit_at bs i True else Inr bs))"
  have "returns (rfold ?f [0..<sz] \<lparr>m_blocks = replicate (blocks_required LENGTH('a) sz) zero_block, m_bits_number = sz\<rparr>)
    (\<lambda>bs. repr bs (take (length [0..<sz]) l @ replicate (sz - length [0..<sz]) False))"
  proof (rule returns_rfold [where I = "\<lambda>k bs. repr bs (take k l @ replicate (sz - k) False)"])
    fix k and s :: "'a bitset" assume k: "k < length [0..<sz]" and s: "repr s (take k l @ replicate (sz - k) False)"
    have kl: "k < sz" "k < length l" using k by (simp_all add: len)
    have upd: "(take k l @ replicate (sz - k) False)[k := l ! k] = take (Suc k) l @ replicate (sz - Suc k) False"
      using kl Suc_diff_Suc [of k sz, symmetric]
      by (simp add: list_update_append take_Suc_conv_app_nth)
    have "(take k l @ replicate (sz - k) False) ! k = False" using kl by (simp add: nth_append)
    then have same: "repr s (take (Suc k) l @ replicate (sz - Suc k) False)" if "\<not> l ! k"
      using that s list_update_id [of "take k l @ replicate (sz - k) False" k] upd by simp
    from set_bit_at_returns [OF s, of k True] upd kl same idx [OF kl(1)]
    show "returns (?f ([0..<sz] ! k) s) (\<lambda>bs. repr bs (take (Suc k) l @ replicate (sz - Suc k) False))"
      by (auto simp: result_simps)
  qed (simp add: repr_zeros)
  then have "returns (rfold ?f [0..<sz] \<lparr>m_blocks = replicate (blocks_required LENGTH('a) sz) zero_block, m_bits_number = sz\<rparr>)
    (\<lambda>bs. repr bs l)" by (simp add: len)
  with assms(1) show ?thesis unfolding init_from_string_def Let_def sz_def l_def by simp
qed

definition is_bin :: "char \<Rightarrow> bool" where
  "is_bin c \<longleftrightarrow> c = CHR ''0'' \<or> c = CHR ''1''"

lemma extract_loop_returns:
  "repr rbs l \<Longrightarrow> returns (extract_loop cs rbs)
    (\<lambda>(bs, rest). repr bs (l @ map (\<lambda>c. c = CHR ''1'') (takeWhile is_bin cs)) \<and> rest = dropWhile is_bin cs)"
proof (induction cs arbitrary: rbs l)
  case (Cons c cs)
  have step: "returns (rbind (push_back rbs (c = CHR ''1'')) (extract_loop cs))
      (\<lambda>(bs, rest). repr bs (l @ (c = CHR ''1'') # map (\<lambda>c. c = CHR ''1'') (takeWhile is_bin cs)) \<and>
        rest = dropWhile is_bin cs)"
    by (rule returns_bind [OF push_back_returns [OF Cons.prems]]) (use Cons.IH in fastforce)
  show ?case
  proof (cases "is_bin c")
    case True
    with step show ?thesis by (cases "c = CHR ''1''") (auto simp: is_bin_def [of c] is_bin_def [of "CHR ''0''"])
  next
    case False
    with Cons.prems show ?thesis by (auto simp: is_bin_def [of c])
  qed
qed simp

lemma op_extract_returns:
  assumes "dropWhile is_space str = c # cs"
  shows "returns (op_extract str (bs :: 'a :: len bitset))
    (\<lambda>(bs', rest). repr bs' (rev (map (\<lambda>c. c = CHR ''1'') (takeWhile is_bin (c # cs)))) \<and> rest = dropWhile is_bin (c # cs))"
proof -
  define l where "l = map (\<lambda>c. c = CHR ''1'') (takeWhile is_bin (c # cs))"
  have copy: "returns (if empty_bits rbs then Inr (clear bs)
      else rbind (rfold (\<lambda>i bs. rbind (test_bit_at rbs i) (push_back bs)) (rev [1..<size_bits rbs]) (clear bs)) (\<lambda>bs.
           rbind (test_bit_at rbs 0) (push_back bs))) (\<lambda>bs'. repr bs' (rev l))" if "repr rbs l" for rbs :: "'a bitset"
  proof (cases "l = []")
    case True
    with that show ?thesis by (simp add: empty_bits_def size_bits_def repr_size)
  next
    case False
    let ?f = "\<lambda>i bs :: 'a bitset. rbind (test_bit_at rbs i) (push_back bs)"
    have "returns (rfold ?f (rev [1..<length l]) (clear bs)) (\<lambda>s. repr s (take (length (rev [1..<length l])) (rev l)))"
    proof (rule returns_rfold [where I = "\<lambda>k s. repr s (take k (rev l))"])
      fix k and s :: "'a bitset" assume k: "k < length (rev [1..<length l])" and s: "repr s (take k (rev l))"
      then have idx: "rev [1..<length l] ! k = length l - Suc k" "length l - Suc k < length l" by (auto simp: rev_nth)
      have "take (Suc k) (rev l) = take k (rev l) @ [l ! (length l - Suc k)]"
        using k by (simp add: take_Suc_conv_app_nth rev_nth)
      with push_back_returns [OF s, of "l ! (length l - Suc k)"]
      show "returns (?f (rev [1..<length l] ! k) s) (\<lambda>s. repr s (take (Suc k) (rev l)))"
        unfolding idx(1) test_bit_at_eq [OF that idx(2)] by simp
    qed simp
    then have loop: "returns (rfold ?f (rev [1..<length l]) (clear bs)) (\<lambda>s. repr s (take (length l - 1) (rev l)))" by simp
    have rev: "rev l = take (length l - 1) (rev l) @ [l ! 0]" using False by (cases l) simp_all
    have "returns (rbind (rfold ?f (rev [1..<length l]) (clear bs)) (\<lambda>bs. rbind (test_bit_at rbs 0) (push_back bs)))
        (\<lambda>bs'. repr bs' (rev l))"
    proof (rule returns_bind [OF loop])
      fix s :: "'a bitset" assume "repr s (take (length l - 1) (rev l))"
      from push_back_returns [OF this, of "l ! 0"] rev False
      show "returns (rbind (test_bit_at rbs 0) (push_back s)) (\<lambda>bs'. repr bs' (rev l))"
        by (simp add: test_bit_at_eq [OF that])
    qed
    with False show ?thesis by (simp add: empty_bits_def size_bits_def repr_size [OF that])
  qed
  show ?thesis
    unfolding op_extract_def assms list.case
    by (rule returns_bind [OF extract_loop_returns [OF bitset_default_repr]])
      (auto simp: l_def [symmetric] simp del: takeWhile.simps dropWhile.simps intro!: returns_bind [OF copy])
qed

subsection \<open>Builtins and references\<close>

lemma bit_high64: "j < 64 \<Longrightarrow> bit (uint128_high64 b) j = bit b (64 + j)"
  by (simp add: uint128_high64_def bit_ucast_iff bit_drop_bit_eq)

lemma bit_low64: "j < 64 \<Longrightarrow> bit (uint128_low64 b) j = bit b j"
  by (simp add: uint128_low64_def bit_ucast_iff)

lemma popcount_split:
  "builtin_popcountll (uint128_high64 b) + builtin_popcountll (uint128_low64 b) = length (filter (bit b) [0..<128])"
proof -
  have "[0..<128] = [0..<64] @ map ((+) 64) [0..<(64 :: nat)]"
    by (rule nth_equalityI) (auto simp: nth_append)
  then have "filter (bit b) [0..<128] = filter (bit b) [0..<64] @ map ((+) 64) (filter (\<lambda>j. bit b (64 + j)) [0..<64])"
    by (simp add: filter_map comp_def)
  moreover have "filter (bit (uint128_high64 b)) [0..<64] = filter (\<lambda>j. bit b (64 + j)) [0..<64]"
    by (rule filter_cong) (simp_all add: bit_high64)
  moreover have "filter (bit (uint128_low64 b)) [0..<64] = filter (bit b) [0..<64]"
    by (rule filter_cong) (simp_all add: bit_low64)
  ultimately show ?thesis by (simp add: builtin_popcountll_def)
qed

lemma block_count_u128_eq: "block_count_u128 b = block_count b"
  by (simp add: block_count_u128_def block_count_eq popcount_split)

lemma builtin_ctzll_eq:
  assumes "bit x j" "j < 64" "\<And>i. i < j \<Longrightarrow> \<not> bit x i"
  shows "builtin_ctzll x = Inr j"
proof -
  have "filter (bit x) [0..<64] = j # filter (bit x) [Suc j..<64]"
    by (rule filter_first) (use assms in auto)
  then show ?thesis by (simp add: builtin_ctzll_def)
qed

lemma ctz_u128_eq: "count_block_trailing_zero_u128 b = count_block_trailing_zero b"
proof (cases "b = 0")
  case True
  then show ?thesis by (simp add: count_block_trailing_zero_u128_def count_block_trailing_zero_def)
next
  case False
  then obtain j where j: "count_block_trailing_zero b = Inr j" "bit b j" "\<forall>i < j. \<not> bit b i"
    by (rule count_block_trailing_zero_eq)
  have j128: "j < 128" using bit_imp_le_length [OF j(2)] by simp
  show ?thesis
  proof (cases "j < 64")
    case True
    with j bit_low64 [OF True] have "bit (uint128_low64 b) j" by simp
    then have "uint128_low64 b \<noteq> 0" by auto
    moreover have "builtin_ctzll (uint128_low64 b) = Inr j"
      using True j by (intro builtin_ctzll_eq) (auto simp: bit_low64)
    ultimately show ?thesis using False j by (simp add: count_block_trailing_zero_u128_def)
  next
    case ge: False
    have "uint128_low64 b = 0"
      using ge j(3) by (intro bit_word_eqI) (simp add: bit_low64)
    moreover have "builtin_ctzll (uint128_high64 b) = Inr (j - 64)"
      using ge j j128 by (intro builtin_ctzll_eq) (auto simp: bit_high64)
    ultimately show ?thesis using False ge j by (simp add: count_block_trailing_zero_u128_def)
  qed
qed

lemma block_count_n_u128_eq:
  assumes "0 < n" "n \<le> 128" "\<And>j. n \<le> j \<Longrightarrow> \<not> bit b j"
  shows "block_count_n_u128 b n = block_count_n b n"
proof -
  have "filter (bit b) [0..<128] = filter (bit b) [0..<n]"
  proof -
    have "[0..<128] = [0..<n] @ [n..<128]" using assms(2) upt_add_eq_append [of 0 n "128 - n"] by simp
    then show ?thesis using assms(3) by (simp add: filter_empty_conv)
  qed
  moreover have "filter (bit b) [0..<n] = []" if "push_bit (128 - n) b = 0"
    using block_count_n_eq [of n b] assms that by (simp add: block_count_n_def)
  ultimately show ?thesis
    using assms by (auto simp: block_count_n_u128_def block_count_n_eq popcount_split)
qed

lemma card_bits: "length (filter (bit b) [0..<m]) = card {j. j < m \<and> bit (b :: u128) j}"
proof -
  have "{i. i < length [0..<m] \<and> bit b ([0..<m] ! i)} = {j. j < m \<and> bit b j}" by auto
  then show ?thesis by (simp only: length_filter_conv_card)
qed

lemma card_all_bits: "length (filter (bit b) [0..<128]) = card {j. bit (b :: u128) j}"
proof -
  have "{j. j < 128 \<and> bit b j} = {j. bit b j}"
    by (auto dest: bit_imp_le_length)
  then show ?thesis by (simp add: card_bits)
qed

lemma shifted_out: "0 < n \<Longrightarrow> n \<le> 128 \<Longrightarrow> push_bit (128 - n) (b :: u128) = 0 \<longleftrightarrow> (\<forall>j<n. \<not> bit b j)"
proof
  assume n: "0 < n" "n \<le> 128"
  assume "push_bit (128 - n) b = 0"
  then have "block_count_n b n = Inr 0" using n by (simp add: block_count_n_def)
  then have "filter (bit b) [0..<n] = []" using block_count_n_eq [of n b] n by simp
  then show "\<forall>j<n. \<not> bit b j" by (simp add: filter_empty_conv)
next
  assume "n \<le> 128" "\<forall>j<n. \<not> bit b j"
  then show "push_bit (128 - n) b = 0"
    by (intro bit_word_eqI) (simp add: bit_push_bit_iff)
qed

lemma reference_eq:
  assumes "repr (bs :: 'a :: len bitset) l" "pos < length l"
  shows "returns (op_index bs pos) (\<lambda>r.
    ref_bool bs r = Inr (l ! pos) \<and> ref_not bs r = Inr (\<not> l ! pos) \<and>
    ref_set bs r = set_bit_at bs pos True \<and> ref_reset bs r = set_bit_at bs pos False \<and>
    ref_flip bs r = flip_at bs pos \<and> ref_assign bs r v = set_bit_at bs pos v)"
  using assms repr_block_in [OF assms] repr_block_bit [OF assms]
  by (auto simp: op_index_def reference_ctor_def get_block_def size_bits_def repr_size block_index_def result_simps
      ref_bool_def ref_not_def ref_set_def ref_reset_def ref_flip_def ref_assign_def set_bit_at_def flip_at_def)

subsection \<open>Properties\<close>

text \<open>A bitset of ten bits in blocks of a byte.\<close>

definition demo_bits :: "8 bitset" where
  "demo_bits = \<lparr>m_blocks = [0xB5, 0x02], m_bits_number = 10\<rparr>"

definition demo_list :: "bool list" where
  "demo_list = [True, False, True, False, True, True, False, True, False, True]"

lemma demo_repr: "repr demo_bits demo_list"
  unfolding repr_def valid_def bits_def nth_bit_def demo_bits_def demo_list_def
  by code_simp

text \<open>C27: on a consistent bitset and a position below its size, \<open>set\<close>, \<open>flip\<close>, \<open>test\<close>, \<open>test_set\<close> and the
  proxy of \<open>operator[]\<close> return without touching memory outside the blocks, change exactly that
  bit and leave the bitset consistent.\<close>

theorem bitset_bit_updates:
  assumes "repr (bs :: 'a :: len bitset) l" "pos < length l"
  shows "returns (set_bit_at bs pos v) (\<lambda>bs'. repr bs' (l[pos := v])) \<and>
    returns (flip_at bs pos) (\<lambda>bs'. repr bs' (l[pos := \<not> l ! pos])) \<and>
    test_bit_at bs pos = Inr (l ! pos) \<and>
    returns (test_set bs pos v) (\<lambda>(old, bs'). old = l ! pos \<and> repr bs' (l[pos := v])) \<and>
    returns (op_index bs pos) (\<lambda>r. ref_bool bs r = Inr (l ! pos) \<and>
      returns (ref_assign bs r v) (\<lambda>bs'. repr bs' (l[pos := v])) \<and>
      returns (ref_flip bs r) (\<lambda>bs'. repr bs' (l[pos := \<not> l ! pos])))"
  using set_bit_at_returns [OF assms, of v] flip_at_returns [OF assms] test_bit_at_eq [OF assms]
    test_set_returns [OF assms, of v] reference_eq [OF assms, of v]
  by (auto simp: returns_def)

theorem bitset_bit_updates_witness:
  "returns (set_bit_at demo_bits 8 True) (\<lambda>bs'. repr bs' (demo_list[8 := True]))"
  using bitset_bit_updates [OF demo_repr, of 8 True] by (simp add: demo_list_def)

text \<open>C24: \<open>set(pos, len, value)\<close>, \<open>reset(pos, len)\<close> and \<open>flip(pos, len)\<close>, which work block by block with
  masks, act on exactly the bits of the range.\<close>

theorem bitset_range_updates:
  assumes "repr (bs :: 'a :: len bitset) l" "pos < length l" "pos + len \<le> length l"
  shows "returns (set_range bs pos len v)
      (\<lambda>bs'. repr bs' (take pos l @ replicate len v @ drop (pos + len) l)) \<and>
    returns (flip_range bs pos len)
      (\<lambda>bs'. repr bs' (take pos l @ map Not (take len (drop pos l)) @ drop (pos + len) l))"
proof -
  have "map (\<lambda>_. v) (take len (drop pos l)) = replicate len v" using assms(3) by (simp add: map_replicate_const)
  with set_range_returns [OF assms, of v] flip_range_returns [OF assms] show ?thesis
    by (simp add: list_range_def)
qed

theorem bitset_range_updates_witness:
  "returns (flip_range demo_bits 3 6)
    (\<lambda>bs'. repr bs' (take 3 demo_list @ map Not (take 6 (drop 3 demo_list)) @ drop 9 demo_list))"
  using bitset_range_updates [OF demo_repr, of 3 6] by (simp add: demo_list_def)

text \<open>C22: the shift operators move the bits by any distance, across block boundaries, filling with
  zeros, and keep the size.\<close>

theorem bitset_shifts:
  assumes "repr (bs :: 'a :: len bitset) l"
  shows "returns (op_shl bs s) (\<lambda>bs'. repr bs' (take (length l) (replicate s False @ l))) \<and>
    returns (op_shr bs s) (\<lambda>bs'. repr bs' (drop s l @ replicate (min s (length l)) False))"
  using op_shl_assign_returns [OF assms] op_shr_assign_returns [OF assms]
  by (simp add: op_shl_def op_shr_def)

theorem bitset_shifts_witness:
  "returns (op_shl demo_bits 5) (\<lambda>bs'. repr bs' (take (length demo_list) (replicate 5 False @ demo_list)))"
  using bitset_shifts [OF demo_repr, of 5] by simp

text \<open>C20: appending a block, a range of blocks, another bitset, or the bitset itself, at any
  alignment of the end, yields the concatenation of the bits. Appending a bitset to itself is
  correct although the loop reads blocks it has already extended.\<close>

theorem bitset_appends:
  assumes "repr (bs :: 'a :: len bitset) l" "repr other m"
  shows "returns (append_block bs x) (\<lambda>bs'. repr bs' (l @ word_bits x)) \<and>
    returns (append_range bs xs) (\<lambda>bs'. repr bs' (l @ concat (map word_bits xs))) \<and>
    returns (append_bitset bs other) (\<lambda>bs'. repr bs' (l @ m)) \<and>
    returns (append_self bs) (\<lambda>bs'. repr bs' (l @ l))"
  using append_block_returns append_range_returns append_bitset_returns append_self_returns assms by blast

theorem bitset_appends_witness:
  "returns (append_bitset demo_bits demo_bits) (\<lambda>bs'. repr bs' (demo_list @ demo_list)) \<and>
   returns (append_self demo_bits) (\<lambda>bs'. repr bs' (demo_list @ demo_list))"
  using bitset_appends [OF demo_repr demo_repr, of 0 "[]"] by simp

text \<open>C28: \<open>resize\<close> truncates or extends with the given value, \<open>push_back\<close> and \<open>pop_back\<close> add and remove
  the last bit, and \<open>pop_back\<close> after \<open>push_back\<close> restores the object.\<close>

theorem bitset_sizes:
  assumes "repr (bs :: 'a :: len bitset) l"
  shows "returns (resize bs n v) (\<lambda>bs'. repr bs' (take n l @ replicate (n - length l) v)) \<and>
    returns (push_back bs v) (\<lambda>bs'. repr bs' (l @ [v])) \<and>
    returns (pop_back bs) (\<lambda>bs'. repr bs' (butlast l)) \<and>
    rbind (push_back bs v) pop_back = Inr bs"
proof -
  have "returns (resize bs n v) (\<lambda>bs'. repr bs' (take n l @ replicate (n - length l) v))"
    using resize_shrink [OF assms, of n v] resize_grow [OF assms, of n v] by (cases "n \<le> length l") simp_all
  moreover have "returns (rbind (push_back bs v) pop_back) (\<lambda>bs'. repr bs' l)"
    by (rule returns_bind [OF push_back_returns [OF assms]]) (use pop_back_returns in fastforce)
  then have "rbind (push_back bs v) pop_back = Inr bs"
    using repr_unique [OF assms] by (auto simp: returns_def)
  ultimately show ?thesis using push_back_returns [OF assms] pop_back_returns [OF assms] by blast
qed

theorem bitset_sizes_witness:
  "returns (resize demo_bits 20 True) (\<lambda>bs'. repr bs' (take 20 demo_list @ replicate (20 - length demo_list) True))"
  using bitset_sizes [OF demo_repr, of 20 True] by blast

text \<open>The constructors build the bits of the 128-bit initial value, or of the given blocks, for
  every block width that divides 128.\<close>

theorem bitset_construction:
  assumes "LENGTH('a :: len) dvd 128"
  shows "returns (bitset_init n v :: 'a bitset result) (\<lambda>bs. repr bs (map (bit v) [0..<n])) \<and>
    returns (bitset_of_blocks xs :: 'a bitset result) (\<lambda>bs. repr bs (concat (map word_bits xs)))"
  using bitset_init_returns [OF assms] append_range_returns [OF bitset_default_repr]
  by (simp add: bitset_of_blocks_def)

theorem bitset_construction_witness:
  "returns (bitset_init 200 0xFF :: 8 bitset result) (\<lambda>bs. repr bs (map (bit (0xFF :: u128)) [0..<200]))"
  using bitset_construction [where 'a = 8, of 200 "0xFF" "[]"] by simp

text \<open>The logical operators work bit by bit on two bitsets of the same size, and complement flips
  every bit without setting one beyond the size.\<close>

theorem bitset_logic:
  assumes "repr (bs :: 'a :: len bitset) l" "repr rhs m" "length l = length m"
  shows "returns (op_and bs rhs) (\<lambda>r. repr r (map2 (\<and>) l m)) \<and>
    returns (op_or bs rhs) (\<lambda>r. repr r (map2 (\<or>) l m)) \<and>
    returns (op_xor bs rhs) (\<lambda>r. repr r (map2 (\<noteq>) l m)) \<and>
    returns (op_minus bs rhs) (\<lambda>r. repr r (map2 (\<lambda>a b. a \<and> \<not> b) l m)) \<and>
    returns (op_not bs) (\<lambda>r. repr r (map Not l))"
  using op_and_returns [OF assms] op_or_returns [OF assms] op_xor_returns [OF assms] op_minus_returns [OF assms]
    flip_all_returns [OF assms(1)]
  by (simp add: op_and_def op_or_def op_xor_def op_minus_def op_not_def)

theorem bitset_logic_witness: "returns (op_xor demo_bits demo_bits) (\<lambda>r. repr r (map2 (\<noteq>) demo_list demo_list))"
  using bitset_logic [OF demo_repr demo_repr refl] by simp

text \<open>Counting, the tests for all or any bit and the set relations agree with the list of bits,
  although they work on whole blocks.\<close>

theorem bitset_queries:
  assumes "repr (bs :: 'a :: len bitset) l" "repr other m" "length l = length m"
  shows "count_bits bs = Inr (card (ones l)) \<and> all_bits bs = Inr (list_all id l) \<and>
    any_bits bs = list_ex id l \<and> none_bits bs = (ones l = {}) \<and>
    is_subset_of bs other = Inr (ones l \<subseteq> ones m) \<and>
    is_proper_subset_of bs other = Inr (ones l \<subset> ones m) \<and>
    intersects bs other = (ones l \<inter> ones m \<noteq> {}) \<and> op_eq bs other = (l = m)"
proof -
  have card: "length (filter id l) = card (ones l)" by (simp add: length_filter_conv_card ones_def)
  have any: "any_bits bs = list_ex id l" using any_bits_eq [OF assms(1)] by (auto simp: list_ex_iff)
  have none: "none_bits bs = (ones l = {})"
    using any_bits_eq [OF assms(1)] by (auto simp: none_bits_def ones_def in_set_conv_nth)
  have eq: "op_eq bs other = (l = m)"
    using repr_unique [OF assms(1), of other] assms by (auto simp: op_eq_def repr_def bits_def)
  from count_bits_eq [OF assms(1)] all_bits_eq [OF assms(1)] any none eq is_subset_of_eq [OF assms]
    is_proper_subset_of_eq [OF assms] intersects_eq [OF assms(1,2)]
  show ?thesis by (simp add: card)
qed

theorem bitset_queries_witness: "count_bits demo_bits = Inr (card (ones demo_list)) \<and> op_eq demo_bits demo_bits"
  using bitset_queries [OF demo_repr demo_repr refl] by simp

text \<open>C29: \<open>iterate_bits_on\<close> ends and calls the visitor on exactly the positions of the set bits, in
  increasing order, until the visitor asks to stop.\<close>

theorem bitset_iteration:
  assumes "repr bs l" "length l \<le> npos"
  shows "iterate_bits_on bs visit s = Inr (visit_all visit (filter (\<lambda>j. l ! j) [0..<length l]) s)"
  by (rule iterate_bits_on_eq [OF assms])

theorem bitset_iteration_witness:
  "iterate_bits_on demo_bits (\<lambda>i s. (i < 5, s @ [i])) [] = Inr [0, 2, 4, 5]"
  using bitset_iteration [OF demo_repr, of "\<lambda>i s. (i < 5, s @ [i])" "[]"]
  by (simp add: npos_def demo_list_def upt_rec nth_Cons')

text \<open>C32: \<open>operator<\<close> orders bitsets first by the number their bits represent and then by their size,
  for bitsets of any two sizes.\<close>

theorem bitset_order:
  assumes "repr (a :: 'a :: len bitset) l" "repr b m"
  shows "op_less a b = Inr (bits_value l < bits_value m \<or> bits_value l = bits_value m \<and> length l < length m)"
  by (rule op_less_eq [OF assms])

theorem bitset_order_witness: "op_less demo_bits demo_bits = Inr False"
  using bitset_order [OF demo_repr demo_repr] by simp

lemma text_bits: "zero \<noteq> one \<Longrightarrow> map (\<lambda>c. c = one) (rev (map (\<lambda>b. if b then one else zero) (rev l))) = l"
  unfolding rev_map by (induction l) auto

text \<open>C33: the string of a non-empty bitset, read back by the string constructor or by the stream extraction
  operator, gives the same bitset. The string of an empty bitset is empty: the constructor asserts that it is not, and the
  extraction leaves the old bitset as it is.\<close>

theorem bitset_string_roundtrip:
  assumes "repr (bs :: 'a :: len bitset) l" "zero \<noteq> one"
  shows "rbind (bits_to_string bs zero one) (\<lambda>str. init_from_string str 0 (length str) zero one) =
      (if empty_bits bs then Inl Undefined else Inr bs) \<and>
    rbind (op_insert [] bs) (\<lambda>str. op_extract str (old :: 'a bitset)) = (if empty_bits bs then Inr (old, []) else Inr (bs, []))"
proof (cases "l = []")
  case True
  then have "m_bits_number bs = 0" using repr_size [OF assms(1)] by simp
  then show ?thesis
    using True unfolding op_insert_def to_string_eq [OF assms(1)]
    by (simp add: init_from_string_def op_extract_def empty_bits_def size_bits_def)
next
  case False
  have ne: "\<not> empty_bits bs" using False repr_size [OF assms(1)] by (simp add: empty_bits_def size_bits_def)
  define t where "t = map (\<lambda>b. if b then one else zero) (rev l)"
  define u where "u = map (\<lambda>b. if b then CHR ''1'' else CHR ''0'') (rev l)"
  have t: "set t \<subseteq> {zero, one}" "map (\<lambda>c. c = one) (rev t) = l" "0 < length t"
    using False assms(2) by (auto simp: t_def text_bits)
  have u: "\<forall>c \<in> set u. is_bin c \<and> \<not> is_space c" "map (\<lambda>c. c = CHR ''1'') (rev u) = l" "u \<noteq> []"
    using False by (auto simp: u_def text_bits is_bin_def is_space_def)
  have "returns (init_from_string t 0 (length t) zero one) (\<lambda>bs' :: 'a bitset. repr bs' l)"
    using init_from_string_returns [of 0 t "length t" zero one] t by simp
  then have 1: "init_from_string t 0 (length t) zero one = Inr bs"
    using repr_unique [OF assms(1)] by (auto simp: returns_def)
  from u obtain c cs where "u = c # cs" "dropWhile is_space u = c # cs" by (cases u) auto
  moreover have "takeWhile is_bin u = u" "dropWhile is_bin u = []"
    using u(1) by (auto simp: takeWhile_eq_all_conv dropWhile_eq_Nil_conv)
  ultimately have "returns (op_extract u old) (\<lambda>(bs', rest). repr bs' l \<and> rest = [])"
    using op_extract_returns [of u c cs old] u(2) by (simp add: rev_map)
  then have 2: "op_extract u old = Inr (bs, [])" using repr_unique [OF assms(1)] by (auto simp: returns_def)
  show ?thesis
    using 1 2 ne unfolding op_insert_def to_string_eq [OF assms(1)] t_def u_def by simp
qed

theorem bitset_string_roundtrip_witness:
  "rbind (bits_to_string demo_bits (0 :: nat) 1) (\<lambda>str. init_from_string str 0 (length str) 0 1) = Inr demo_bits"
  using bitset_string_roundtrip [OF demo_repr, of "0 :: nat" 1 demo_bits] repr_size [OF demo_repr]
  by (simp add: demo_list_def empty_bits_def size_bits_def)

text \<open>On 128-bit blocks the routines built on the compiler's 64-bit builtins agree with the
  portable loops: the population count, the count of trailing zeros, and the count of the low bits
  of a block that has no bit set above them.\<close>

theorem bitset_builtins:
  "block_count_u128 b = block_count b \<and> count_block_trailing_zero_u128 b = count_block_trailing_zero b \<and>
   (0 < n \<and> n \<le> 128 \<and> (\<forall>j. n \<le> j \<longrightarrow> \<not> bit b j) \<longrightarrow> block_count_n_u128 b n = block_count_n b n)"
  using block_count_u128_eq ctz_u128_eq block_count_n_u128_eq by blast

theorem bitset_builtins_witness: "block_count_n_u128 1 3 = block_count_n (1 :: u128) 3"
  using bitset_builtins [of 1 3] by (simp add: bit_1_iff)

text \<open>C40: the 128-bit variant of the count of the low bits of a block computes the shifted block and then counts the
  block itself: unless none of the low bits is set, the bits above the given number are counted too. It agrees with the
  portable count exactly when no low bit or no higher bit is set.\<close>

theorem block_count_counts_high_bits:
  assumes "0 < n" "n \<le> 128"
  shows "block_count_n_u128 b n = Inr (if \<exists>j<n. bit b j then card {j. bit b j} else 0) \<and>
    block_count_n b n = Inr (card {j. j < n \<and> bit b j}) \<and>
    (block_count_n_u128 b n = block_count_n b n \<longleftrightarrow> \<not> (\<exists>j<n. bit b j) \<or> \<not> (\<exists>j\<ge>n. bit b j))"
proof -
  have fin: "finite {j. bit b j}" by (rule finite_subset [of _ "{..<LENGTH(128)}"]) (auto dest: bit_imp_le_length)
  have u: "block_count_n_u128 b n = Inr (if \<exists>j<n. bit b j then card {j. bit b j} else 0)"
    using assms shifted_out [OF assms, of b]
    by (cases "push_bit (128 - n) b = 0") (auto simp: block_count_n_u128_def popcount_split card_all_bits)
  have p: "block_count_n b n = Inr (card {j. j < n \<and> bit b j})"
    using assms by (simp add: block_count_n_eq card_bits)
  have sub: "{j. j < n \<and> bit b j} \<subseteq> {j. bit b j}" by blast
  have eq: "card {j. bit b j} = card {j. j < n \<and> bit b j} \<longleftrightarrow> \<not> (\<exists>j\<ge>n. bit b j)"
  proof
    assume "card {j. bit b j} = card {j. j < n \<and> bit b j}"
    then have "{j. j < n \<and> bit b j} = {j. bit b j}" using card_subset_eq [OF fin sub] by simp
    then show "\<not> (\<exists>j\<ge>n. bit b j)" by (metis (no_types, lifting) mem_Collect_eq not_le)
  next
    assume "\<not> (\<exists>j\<ge>n. bit b j)"
    then have "{j. bit b j} = {j. j < n \<and> bit b j}" by (meson not_le)
    then show "card {j. bit b j} = card {j. j < n \<and> bit b j}" by (rule arg_cong)
  qed
  show ?thesis
  proof (intro conjI u p)
    show "block_count_n_u128 b n = block_count_n b n \<longleftrightarrow> \<not> (\<exists>j<n. bit b j) \<or> \<not> (\<exists>j\<ge>n. bit b j)"
    proof (cases "\<exists>j<n. bit b j")
      case False
      then have "{j. j < n \<and> bit b j} = {}" by blast
      then show ?thesis using u p False by simp
    next
      case True
      then show ?thesis using u p eq by simp
    qed
  qed
qed

theorem block_count_counts_high_bits_witness:
  "block_count_n_u128 0x21 1 \<noteq> block_count_n (0x21 :: u128) 1"
proof -
  have "bit (0x21 :: u128) 0" "bit (0x21 :: u128) 5" by (simp_all add: bit_numeral_rec)
  moreover have "(0 :: nat) < 1" "(1 :: nat) \<le> 5" by simp_all
  ultimately have "(\<exists>j<1. bit (0x21 :: u128) j) \<and> (\<exists>j\<ge>1. bit (0x21 :: u128) j)" by blast
  then show ?thesis
    unfolding block_count_counts_high_bits [OF zero_less_one one_le_numeral, THEN conjunct2, THEN conjunct2] by blast
qed

end
