(* ===== verification/Party_Programs.thy ===== *)
theory Party_Programs
  imports Prelude
begin

text \<open>
  Programs of communicating parties and the mesh of memory channels that connects them.

  A party's code is a \<open>prog\<close>: it returns, throws, sends a message to a peer or waits for one. The mesh
  holds, for every ordered pair of parties, the received and not yet consumed messages of that
  direction by key, as \<open>ChannelMem::recv_msgs_\<close> does. A step of the mesh lets one party send or
  receive, so a sequence of steps is an arbitrary interleaving of the parties. A waiting party whose message
  is not there may time out and throw \<open>IO_ERROR\<close>, as \<open>ChannelMem::Recv\<close> does: the first argument of the
  step relation says whether timeouts happen. The channels of all parties exist as long as the mesh
  does, so a send finds its peer (\<open>ChannelMem::SendImpl\<close> throws when the peer's channel has been released).

  \<open>run\<close> executes one party alone against a function that says what every message contains. The
  locale \<open>mesh_protocol\<close> states when the parties' runs fit together, and shows that then every
  interleaving without timeouts gives each party the result of its own run, that none deadlocks and that
  every one ends; with timeouts, a party that returns still has the result of its own run, and the only
  exception is that of a timeout.
\<close>

subsection \<open>Programs\<close>

datatype 'r prog =
    Ret 'r
  | Throw error
  | SendMsg nat string bytes "'r prog"
  | RecvMsg nat string "bytes \<Rightarrow> 'r prog"

primrec prog_bind :: "'a prog \<Rightarrow> ('a \<Rightarrow> 'b prog) \<Rightarrow> 'b prog" where
  "prog_bind (Ret r) g = g r"
| "prog_bind (Throw e) g = Throw e"
| "prog_bind (SendMsg d k v p) g = SendMsg d k v (prog_bind p g)"
| "prog_bind (RecvMsg s k f) g = RecvMsg s k (\<lambda>v. prog_bind (f v) g)"

text \<open>A method of an object with mutable fields that communicates.\<close>

type_synonym ('s, 'a) party = "'s \<Rightarrow> ('a \<times> 's) prog"

definition party_return :: "'a \<Rightarrow> ('s, 'a) party" where
  "party_return x s = Ret (x, s)"

definition party_throw :: "error \<Rightarrow> ('s, 'a) party" where
  "party_throw e s = Throw e"

definition party_bind :: "('s, 'a) party \<Rightarrow> ('a \<Rightarrow> ('s, 'b) party) \<Rightarrow> ('s, 'b) party" where
  "party_bind m f s = prog_bind (m s) (\<lambda>(x, s'). f x s')"

definition party_get :: "('s \<Rightarrow> 'a) \<Rightarrow> ('s, 'a) party" where
  "party_get f s = Ret (f s, s)"

definition party_update :: "('s \<Rightarrow> 'a \<times> 's) \<Rightarrow> ('s, 'a) party" where
  "party_update f s = Ret (f s)"

definition party_enforce :: "bool \<Rightarrow> ('s, unit) party" where
  "party_enforce b = (if b then party_return () else party_throw EnforceNotMet)"

definition party_lift :: "'a result \<Rightarrow> ('s, 'a) party" where
  "party_lift r = (case r of Inl e \<Rightarrow> party_throw e | Inr x \<Rightarrow> party_return x)"

text \<open>A \<open>for\<close> loop that collects what each iteration produces.\<close>

fun party_map :: "('i \<Rightarrow> ('s, 'a) party) \<Rightarrow> 'i list \<Rightarrow> ('s, 'a list) party" where
  "party_map f [] = party_return []"
| "party_map f (i # is) = party_bind (f i) (\<lambda>x. party_bind (party_map f is) (\<lambda>xs. party_return (x # xs)))"

subsection \<open>The mesh\<close>

type_synonym msg = "nat \<times> nat \<times> string"

record 'r mesh =
  progs :: "'r prog list"
  recv_msgs_of :: "msg \<Rightarrow> bytes option"

text \<open>\<open>unordered_map::emplace\<close>: an entry that is already there is kept.\<close>

definition mesh_deliver :: "msg \<Rightarrow> bytes \<Rightarrow> (msg \<Rightarrow> bytes option) \<Rightarrow> msg \<Rightarrow> bytes option" where
  "mesh_deliver m v box = (case box m of None \<Rightarrow> box(m := Some v) | Some _ \<Rightarrow> box)"

inductive mesh_step :: "bool \<Rightarrow> 'r mesh \<Rightarrow> 'r mesh \<Rightarrow> bool" for timeouts where
  step_send:
    "i < length (progs s) \<Longrightarrow> progs s ! i = SendMsg d k v p \<Longrightarrow>
     mesh_step timeouts s (s\<lparr>progs := (progs s)[i := p], recv_msgs_of := mesh_deliver (i, d, k) v (recv_msgs_of s)\<rparr>)"
| step_recv:
    "i < length (progs s) \<Longrightarrow> progs s ! i = RecvMsg src k f \<Longrightarrow> recv_msgs_of s (src, i, k) = Some v \<Longrightarrow>
     mesh_step timeouts s (s\<lparr>progs := (progs s)[i := f v], recv_msgs_of := (recv_msgs_of s)((src, i, k) := None)\<rparr>)"
| step_timeout:
    "timeouts \<Longrightarrow> i < length (progs s) \<Longrightarrow> progs s ! i = RecvMsg src k f \<Longrightarrow> recv_msgs_of s (src, i, k) = None \<Longrightarrow>
     mesh_step timeouts s (s\<lparr>progs := (progs s)[i := Throw IoError]\<rparr>)"

inductive_cases mesh_stepE: "mesh_step timeouts s s'"

inductive mesh_reach :: "bool \<Rightarrow> 'r mesh \<Rightarrow> 'r mesh \<Rightarrow> bool" for timeouts where
  reach_refl: "mesh_reach timeouts s s"
| reach_step: "mesh_reach timeouts s t \<Longrightarrow> mesh_step timeouts t u \<Longrightarrow> mesh_reach timeouts s u"

definition mesh_init :: "'r prog list \<Rightarrow> 'r mesh" where
  "mesh_init ps = \<lparr>progs = ps, recv_msgs_of = (\<lambda>_. None)\<rparr>"

text \<open>All parties have returned, party \<open>i\<close> with the result \<open>rs ! i\<close>.\<close>

definition mesh_done :: "'r list \<Rightarrow> 'r mesh \<Rightarrow> bool" where
  "mesh_done rs s \<longleftrightarrow> progs s = map Ret rs"

text \<open>\<open>must_end rs s n\<close>: from \<open>s\<close> every way to go on without timeouts ends after at most \<open>n\<close> steps with all
  parties returned and the results \<open>rs\<close>; in particular nobody throws and nobody waits for ever.\<close>

fun must_end :: "'r list \<Rightarrow> 'r mesh \<Rightarrow> nat \<Rightarrow> bool" where
  "must_end rs s 0 \<longleftrightarrow> mesh_done rs s"
| "must_end rs s (Suc n) \<longleftrightarrow>
     mesh_done rs s \<or> ((\<exists>t. mesh_step False s t) \<and> (\<forall>t. mesh_step False s t \<longrightarrow> must_end rs t n))"

text \<open>What holds with timeouts: a party that has returned has the result \<open>rs ! i\<close>, and one that has thrown has
  timed out.\<close>

definition results_or_timeouts :: "'r list \<Rightarrow> 'r mesh \<Rightarrow> bool" where
  "results_or_timeouts rs s \<longleftrightarrow>
     length (progs s) = length rs \<and>
     (\<forall>i < length rs. (\<forall>r. progs s ! i = Ret r \<longrightarrow> r = rs ! i) \<and> (\<forall>e. progs s ! i = Throw e \<longrightarrow> e = IoError))"

lemma mesh_reach_first: "mesh_step T s t \<Longrightarrow> mesh_reach T t u \<Longrightarrow> mesh_reach T s u"
  by (rotate_tac, induction rule: mesh_reach.induct) (auto intro: mesh_reach.intros)

lemma must_end_reach: "must_end rs s n \<Longrightarrow> \<exists>t. mesh_reach False s t \<and> mesh_done rs t"
proof (induction n arbitrary: s)
  case (Suc n)
  then show ?case using mesh_reach_first reach_refl by (metis must_end.simps(2))
qed (auto intro: reach_refl)

subsection \<open>Running one party\<close>

datatype act = Snd msg bytes | Rcv msg

primrec run :: "(msg \<Rightarrow> bytes) \<Rightarrow> nat \<Rightarrow> 'r prog \<Rightarrow> act list \<times> 'r result" where
  "run M i (Ret r) = ([], Inr r)"
| "run M i (Throw e) = ([], Inl e)"
| "run M i (SendMsg d k v p) = (case run M i p of (t, r) \<Rightarrow> (Snd (i, d, k) v # t, r))"
| "run M i (RecvMsg s k f) = (case run M i (f (M (s, i, k))) of (t, r) \<Rightarrow> (Rcv (s, i, k) # t, r))"

lemma run_bind:
  "run M i p = (t, Inr a) \<Longrightarrow> run M i (prog_bind p g) = (case run M i (g a) of (u, r) \<Rightarrow> (t @ u, r))"
  by (induction p arbitrary: t) (auto split: prod.splits)

text \<open>\<open>runs M i m s t x s'\<close>: started in state \<open>s\<close>, the method performs the actions \<open>t\<close>, returns \<open>x\<close> and
  leaves the state \<open>s'\<close>.\<close>

definition runs :: "(msg \<Rightarrow> bytes) \<Rightarrow> nat \<Rightarrow> ('s, 'a) party \<Rightarrow> 's \<Rightarrow> act list \<Rightarrow> 'a \<Rightarrow> 's \<Rightarrow> bool" where
  "runs M i m s t x s' \<longleftrightarrow> run M i (m s) = (t, Inr (x, s'))"

named_theorems runs_intros \<open>rules for the runs of a party\<close>

lemma runs_return [runs_intros]: "runs M i (party_return x) s [] x s"
  by (simp add: runs_def party_return_def)

lemma runs_get [runs_intros]: "runs M i (party_get f) s [] (f s) s"
  by (simp add: runs_def party_get_def)

lemma runs_update [runs_intros]: "runs M i (party_update f) s [] (fst (f s)) (snd (f s))"
  by (simp add: runs_def party_update_def)

lemma runs_enforce: "b \<Longrightarrow> runs M i (party_enforce b) s [] () s"
  by (simp add: party_enforce_def runs_return)

lemma runs_lift: "r = Inr x \<Longrightarrow> runs M i (party_lift r) s [] x s"
  by (simp add: party_lift_def runs_return)

lemma runs_bind:
  "runs M i m s t x s' \<Longrightarrow> runs M i (f x) s' u y s'' \<Longrightarrow> runs M i (party_bind m f) s (t @ u) y s''"
  by (simp add: runs_def party_bind_def run_bind)

lemma runs_map:
  assumes "\<And>j s. j \<in> set is \<Longrightarrow> I s \<Longrightarrow> \<exists>s'. runs M i (f j) s (t j) (x j) s' \<and> I s'" and "I s"
  shows "\<exists>s'. runs M i (party_map f is) s (concat (map t is)) (map x is) s' \<and> I s'"
  using assms
proof (induction "is" arbitrary: s)
  case Nil
  then show ?case by (auto intro: runs_return)
next
  case (Cons j js)
  from Cons.prems obtain s1 where 1: "runs M i (f j) s (t j) (x j) s1" "I s1" by auto
  from Cons.IH [of s1] Cons.prems 1(2) obtain s2
    where 2: "runs M i (party_map f js) s1 (concat (map t js)) (map x js) s2" "I s2" by auto
  have "runs M i (party_map f (j # js)) s (t j @ (concat (map t js) @ [])) (x j # map x js) s2"
    unfolding party_map.simps by (rule runs_bind [OF 1(1)], rule runs_bind [OF 2(1)], rule runs_return)
  with 2(2) show ?case by auto
qed

text \<open>Only the messages a party receives matter for its run.\<close>

lemma run_cong:
  "run M i p = (t, r) \<Longrightarrow> (\<And>m. Rcv m \<in> set t \<Longrightarrow> M' m = M m) \<Longrightarrow> run M' i p = (t, r)"
proof (induction p arbitrary: t)
  case (RecvMsg s k f)
  obtain u where u: "run M i (f (M (s, i, k))) = (u, r)" "t = Rcv (s, i, k) # u"
    using RecvMsg.prems(1) by (auto split: prod.splits)
  have "M' (s, i, k) = M (s, i, k)" using RecvMsg.prems(2) u(2) by simp
  moreover have "run M' i (f (M (s, i, k))) = (u, r)"
    using RecvMsg.IH [OF rangeI u(1)] RecvMsg.prems(2) u(2) by simp
  ultimately show ?case using u(2) by simp
qed (auto split: prod.splits)

lemma runs_cong:
  "runs M i m s t x s' \<Longrightarrow> (\<And>m. Rcv m \<in> set t \<Longrightarrow> M' m = M m) \<Longrightarrow> runs M' i m s t x s'"
  unfolding runs_def by (rule run_cong)

subsection \<open>Runs that fit together\<close>

fun snds :: "act list \<Rightarrow> msg list" where
  "snds [] = []"
| "snds (Snd m v # t) = m # snds t"
| "snds (Rcv m # t) = snds t"

fun rcvs :: "act list \<Rightarrow> msg list" where
  "rcvs [] = []"
| "rcvs (Snd m v # t) = rcvs t"
| "rcvs (Rcv m # t) = m # rcvs t"

text \<open>Every message sent after a receive carries a larger stamp than the received one.\<close>

definition stamp_ok :: "(msg \<Rightarrow> 'o :: linorder) \<Rightarrow> act \<Rightarrow> act \<Rightarrow> bool" where
  "stamp_ok \<tau> a b \<longleftrightarrow> (\<forall>m m' v. a = Rcv m \<longrightarrow> b = Snd m' v \<longrightarrow> \<tau> m < \<tau> m')"

lemma snds_append [simp]: "snds (t @ u) = snds t @ snds u"
  by (induction t rule: snds.induct) simp_all

lemma rcvs_append [simp]: "rcvs (t @ u) = rcvs t @ rcvs u"
  by (induction t rule: rcvs.induct) simp_all

lemma set_snds: "m \<in> set (snds t) \<longleftrightarrow> (\<exists>v. Snd m v \<in> set t)"
  by (induction t rule: snds.induct) auto

lemma set_rcvs: "m \<in> set (rcvs t) \<longleftrightarrow> Rcv m \<in> set t"
  by (induction t rule: rcvs.induct) auto

lemma run_ends:
  "run M i p = (t, r) \<Longrightarrow> m \<in> set (snds t) \<Longrightarrow> fst m = i"
  "run M i p = (t, r) \<Longrightarrow> m \<in> set (rcvs t) \<Longrightarrow> fst (snd m) = i"
proof (induction p arbitrary: t)
  case (RecvMsg s k f)
  { case 1 then show ?case using RecvMsg(1) [OF rangeI] by (auto split: prod.splits) }
  { case 2 then show ?case using RecvMsg(2) [OF rangeI] by (auto split: prod.splits) }
qed (auto split: prod.splits)

locale mesh_protocol =
  fixes ps :: "'r prog list" and rs :: "'r list" and tr :: "nat \<Rightarrow> act list" and M :: "msg \<Rightarrow> bytes"
    and \<tau> :: "msg \<Rightarrow> 'o :: linorder"
  assumes same_length: "length rs = length ps"
    and party_runs: "i < length ps \<Longrightarrow> run M i (ps ! i) = (tr i, Inr (rs ! i))"
    and sent_values: "i < length ps \<Longrightarrow> Snd m v \<in> set (tr i) \<Longrightarrow> v = M m"
    and sent_once: "i < length ps \<Longrightarrow> distinct (snds (tr i))"
    and rcvd_once: "i < length ps \<Longrightarrow> distinct (rcvs (tr i))"
    and rcvd_sent: "i < length ps \<Longrightarrow> m \<in> set (rcvs (tr i)) \<Longrightarrow> fst m < length ps \<and> m \<in> set (snds (tr (fst m)))"
    and stamped: "i < length ps \<Longrightarrow> sorted_wrt (stamp_ok \<tau>) (tr i)"
begin

text \<open>What each party has done so far, what it still has to do, and the messages in between.\<close>

definition sent :: "(nat \<Rightarrow> act list) \<Rightarrow> msg \<Rightarrow> bool" where
  "sent d m \<longleftrightarrow> fst m < length ps \<and> m \<in> set (snds (d (fst m)))"

definition rcvd :: "(nat \<Rightarrow> act list) \<Rightarrow> msg \<Rightarrow> bool" where
  "rcvd d m \<longleftrightarrow> fst (snd m) < length ps \<and> m \<in> set (rcvs (d (fst (snd m))))"

definition mesh_inv :: "bool \<Rightarrow> (nat \<Rightarrow> act list) \<Rightarrow> 'r mesh \<Rightarrow> bool" where
  "mesh_inv T d s \<longleftrightarrow>
     length (progs s) = length ps \<and>
     (\<forall>i < length ps. \<exists>t. tr i = d i @ t \<and>
        (run M i (progs s ! i) = (t, Inr (rs ! i)) \<or> T \<and> progs s ! i = Throw IoError)) \<and>
     (\<forall>m. rcvd d m \<longrightarrow> sent d m) \<and>
     (\<forall>m. recv_msgs_of s m = (if sent d m \<and> \<not> rcvd d m then Some (M m) else None))"

lemma mesh_inv_init: "mesh_inv T (\<lambda>_. []) (mesh_init ps)"
  by (auto simp: mesh_inv_def mesh_init_def sent_def rcvd_def party_runs)

lemma own_actions:
  assumes "i < length ps"
  shows "m \<in> set (snds (tr i)) \<Longrightarrow> fst m = i" "m \<in> set (rcvs (tr i)) \<Longrightarrow> fst (snd m) = i"
  using run_ends [OF party_runs [OF assms]] by blast+

lemma mesh_invD:
  assumes "mesh_inv T d s"
  shows "length (progs s) = length ps"
    "i < length ps \<Longrightarrow> \<exists>t. tr i = d i @ t \<and> (run M i (progs s ! i) = (t, Inr (rs ! i)) \<or> T \<and> progs s ! i = Throw IoError)"
    "rcvd d m \<Longrightarrow> sent d m"
    "recv_msgs_of s m = (if sent d m \<and> \<not> rcvd d m then Some (M m) else None)"
  using assms unfolding mesh_inv_def by blast+

lemma mesh_inv_update:
  assumes "mesh_inv T d s" "i < length ps" "run M i p = (t, Inr (rs ! i))" "tr i = d i @ a # t"
    and "\<And>m. rcvd (d(i := d i @ [a])) m \<Longrightarrow> sent (d(i := d i @ [a])) m"
    and "\<And>m. box m = (if sent (d(i := d i @ [a])) m \<and> \<not> rcvd (d(i := d i @ [a])) m then Some (M m) else None)"
  shows "mesh_inv T (d(i := d i @ [a])) (s\<lparr>progs := (progs s)[i := p], recv_msgs_of := box\<rparr>)"
proof -
  have "\<exists>t. tr j = (d(i := d i @ [a])) j @ t \<and>
      (run M j ((progs s)[i := p] ! j) = (t, Inr (rs ! j)) \<or> T \<and> (progs s)[i := p] ! j = Throw IoError)"
    if "j < length ps" for j
    using mesh_invD(1) [OF assms(1)] mesh_invD(2) [OF assms(1) that] assms(2-4) by (cases "j = i") auto
  with mesh_invD(1) [OF assms(1)] assms(5,6) show ?thesis unfolding mesh_inv_def by simp
qed

lemma send_preserves:
  assumes "mesh_inv T d s" "i < length ps" "progs s ! i = SendMsg dst k v p"
  shows "mesh_inv T (d(i := d i @ [Snd (i, dst, k) v]))
    (s\<lparr>progs := (progs s)[i := p], recv_msgs_of := mesh_deliver (i, dst, k) v (recv_msgs_of s)\<rparr>)"
proof -
  let ?m = "(i, dst, k)" and ?d = "d(i := d i @ [Snd (i, dst, k) v])"
  obtain t where t: "run M i p = (t, Inr (rs ! i))" "tr i = d i @ Snd ?m v # t"
    using mesh_invD(2) [OF assms(1,2)] assms(3) by (cases "run M i p") auto
  have fresh: "\<not> sent d ?m" using sent_once [OF assms(2)] t(2) by (auto simp: sent_def)
  have val: "v = M ?m" using sent_values [OF assms(2), of ?m v] t(2) by simp
  have sent': "sent ?d m \<longleftrightarrow> sent d m \<or> m = ?m" for m using assms(2) by (auto simp: sent_def)
  have rcvd': "rcvd ?d m \<longleftrightarrow> rcvd d m" for m by (auto simp: rcvd_def)
  note rs = mesh_invD(3) [OF assms(1)] and box = mesh_invD(4) [OF assms(1)]
  have "mesh_deliver ?m v (recv_msgs_of s) m = (if sent ?d m \<and> \<not> rcvd ?d m then Some (M m) else None)" for m
    unfolding sent' rcvd' mesh_deliver_def box using fresh rs [of ?m] val by auto
  with rs show ?thesis by (intro mesh_inv_update [OF assms(1,2) t]) (auto simp: sent' rcvd')
qed

lemma recv_preserves:
  assumes "mesh_inv T d s" "i < length ps" "progs s ! i = RecvMsg src k f" "recv_msgs_of s (src, i, k) = Some v"
  shows "mesh_inv T (d(i := d i @ [Rcv (src, i, k)]))
    (s\<lparr>progs := (progs s)[i := f v], recv_msgs_of := (recv_msgs_of s)((src, i, k) := None)\<rparr>)"
proof -
  let ?m = "(src, i, k)" and ?d = "d(i := d i @ [Rcv (src, i, k)])"
  note rs = mesh_invD(3) [OF assms(1)] and box = mesh_invD(4) [OF assms(1)]
  from box assms(4) have m: "sent d ?m" "v = M ?m" by (auto split: if_splits)
  obtain t where t: "run M i (f v) = (t, Inr (rs ! i))" "tr i = d i @ Rcv ?m # t"
    using mesh_invD(2) [OF assms(1,2)] assms(3) m(2) by (cases "run M i (f v)") auto
  have sent': "sent ?d m \<longleftrightarrow> sent d m" for m by (auto simp: sent_def)
  have rcvd': "rcvd ?d m \<longleftrightarrow> rcvd d m \<or> m = ?m" for m using assms(2) by (auto simp: rcvd_def)
  have "((recv_msgs_of s)(?m := None)) m' = (if sent ?d m' \<and> \<not> rcvd ?d m' then Some (M m') else None)" for m'
    by (auto simp: box sent' rcvd')
  with rs m(1) show ?thesis by (intro mesh_inv_update [OF assms(1,2) t]) (auto simp: sent' rcvd')
qed

definition work_done :: "(nat \<Rightarrow> act list) \<Rightarrow> nat" where
  "work_done d = (\<Sum>i < length ps. length (d i))"

lemma work_done_step: "i < length ps \<Longrightarrow> work_done (d(i := d i @ [a])) = Suc (work_done d)"
  by (simp add: work_done_def sum.remove [of "{..<length ps}" i])

lemma timeout_preserves:
  assumes "mesh_inv T d s" "i < length ps" T
  shows "mesh_inv T d (s\<lparr>progs := (progs s)[i := Throw IoError]\<rparr>)"
proof -
  have "\<exists>t. tr j = d j @ t \<and> (run M j ((progs s)[i := Throw IoError] ! j) = (t, Inr (rs ! j)) \<or>
      T \<and> (progs s)[i := Throw IoError] ! j = Throw IoError)" if "j < length ps" for j
    using mesh_invD(1) [OF assms(1)] mesh_invD(2) [OF assms(1) that] assms(2,3) by (cases "j = i") auto
  with assms(1) show ?thesis unfolding mesh_inv_def by simp
qed

lemma step_preserves:
  assumes "mesh_inv T d s" "mesh_step T s s'"
  obtains d' where "mesh_inv T d' s'" "\<not> T \<Longrightarrow> work_done d' = Suc (work_done d)"
proof -
  from assms(2) show thesis
  proof cases
    case (step_send i dst k v p)
    with assms(1) have i: "i < length ps" by (simp add: mesh_inv_def)
    from that [OF send_preserves [OF assms(1) i step_send(3), folded step_send(1)] work_done_step [OF i]] show ?thesis .
  next
    case (step_recv i src k f v)
    with assms(1) have i: "i < length ps" by (simp add: mesh_inv_def)
    from that [OF recv_preserves [OF assms(1) i step_recv(3,4), folded step_recv(1)] work_done_step [OF i]] show ?thesis .
  next
    case (step_timeout i src k f)
    with assms(1) have i: "i < length ps" by (simp add: mesh_inv_def)
    from that [OF timeout_preserves [OF assms(1) i step_timeout(2), folded step_timeout(1)]] step_timeout(2) show ?thesis by blast
  qed
qed

text \<open>A party that is not finished either can send or waits for a message.\<close>

lemma party_state:
  assumes "mesh_inv False d s" "i < length ps"
  shows "progs s ! i = Ret (rs ! i) \<and> tr i = d i \<or>
    (\<exists>dst k v p. progs s ! i = SendMsg dst k v p) \<or>
    (\<exists>src k f t. progs s ! i = RecvMsg src k f \<and> tr i = d i @ Rcv (src, i, k) # t)"
proof -
  from assms obtain t where t: "run M i (progs s ! i) = (t, Inr (rs ! i))" "tr i = d i @ t"
    by (auto simp: mesh_inv_def)
  show ?thesis by (cases "progs s ! i") (use t in \<open>auto split: prod.splits\<close>)
qed

lemma not_stuck:
  assumes inv: "mesh_inv False d s" and unfinished: "\<not> mesh_done rs s"
  shows "\<exists>t. mesh_step False s t"
proof (rule ccontr)
  assume stuck: "\<not> (\<exists>t. mesh_step False s t)"
  have len: "length (progs s) = length ps" using inv by (simp add: mesh_inv_def)
  have no_send: "progs s ! i \<noteq> SendMsg dst k v p" if "i < length ps" for i dst k v p
    using stuck step_send [of i s dst k v p] that len by auto
  define W where "W = {(src, i, k). i < length ps \<and> (\<exists>f t. progs s ! i = RecvMsg src k f \<and> tr i = d i @ Rcv (src, i, k) # t)}"
  have waits: "\<exists>src k. (src, i, k) \<in> W" if "i < length ps" "progs s ! i \<noteq> Ret (rs ! i)" for i
    using party_state [OF inv that(1)] no_send [OF that(1)] that by (auto simp: W_def)
  have "\<exists>i < length ps. progs s ! i \<noteq> Ret (rs ! i)"
    using unfinished len same_length by (auto simp: mesh_done_def list_eq_iff_nth_eq)
  then have ne: "W \<noteq> {}" using waits by blast
  have "W \<subseteq> (\<lambda>i. case progs s ! i of RecvMsg src k f \<Rightarrow> (src, i, k) | _ \<Rightarrow> (0, i, [])) ` {..<length ps}"
    (is "_ \<subseteq> ?g ` _")
  proof
    fix x assume "x \<in> W"
    then obtain src i k f where x: "x = (src, i, k)" "i < length ps" "progs s ! i = RecvMsg src k f"
      by (auto simp: W_def)
    then have "x = ?g i" by simp
    with x(2) show "x \<in> ?g ` {..<length ps}" by blast
  qed
  then have fin: "finite W" by (rule finite_subset) simp
  define m where "m = arg_min_on \<tau> W"
  have mW: "m \<in> W" unfolding m_def by (rule arg_min_if_finite(1) [OF fin ne])
  have least: "\<not> \<tau> m' < \<tau> m" if "m' \<in> W" for m'
    using arg_min_if_finite(2) [OF fin ne] that by (auto simp: m_def)
  obtain src i k f t where m: "m = (src, i, k)" "i < length ps" "progs s ! i = RecvMsg src k f" "tr i = d i @ Rcv m # t"
    using mW by (auto simp: W_def)
  have src: "src < length ps" "m \<in> set (snds (tr src))"
    using rcvd_sent [OF m(2), of m] m by auto
  show False
  proof (cases "m \<in> set (snds (d src))")
    case True
    have "\<not> rcvd d m" using rcvd_once [OF m(2)] m by (auto simp: rcvd_def)
    with True src(1) m(1) inv have "recv_msgs_of s m = Some (M m)" by (auto simp: mesh_inv_def sent_def)
    with stuck step_recv [of i s src k f "M m"] m len show False by auto
  next
    case False
    with src inv have "progs s ! src \<noteq> Ret (rs ! src)"
      using party_state [OF inv src(1)] by auto
    with waits [OF src(1)] obtain src' k' where w: "(src', src, k') \<in> W" by blast
    then obtain u where u: "tr src = d src @ Rcv (src', src, k') # u" by (auto simp: W_def)
    with False src(2) obtain v where "Snd m v \<in> set u" by (auto simp: set_snds)
    moreover have "sorted_wrt (stamp_ok \<tau>) (Rcv (src', src, k') # u)"
      using stamped [OF src(1)] u by (simp add: sorted_wrt_append)
    ultimately have "stamp_ok \<tau> (Rcv (src', src, k')) (Snd m v)" by simp
    then have "\<tau> (src', src, k') < \<tau> m" unfolding stamp_ok_def by blast
    with least [OF w] show False by simp
  qed
qed

lemma work_done_le: "mesh_inv False d s \<Longrightarrow> work_done d \<le> work_done tr"
  unfolding work_done_def by (rule sum_mono) (auto simp: mesh_inv_def)

lemma must_end_inv: "mesh_inv False d s \<Longrightarrow> must_end rs s (work_done tr - work_done d)"
proof (induction "work_done tr - work_done d" arbitrary: d s)
  case 0
  have "mesh_done rs s"
  proof (rule ccontr)
    assume "\<not> mesh_done rs s"
    with not_stuck [OF 0(2)] obtain t where "mesh_step False s t" by blast
    with 0(2) obtain d' where "mesh_inv False d' t" "work_done d' = Suc (work_done d)" by (rule step_preserves) blast
    with work_done_le 0(1) show False by fastforce
  qed
  with 0 show ?case by (metis must_end.simps(1))
next
  case (Suc n)
  have "must_end rs t n" if "mesh_step False s t" for t
  proof -
    from Suc.prems that obtain d' where d': "mesh_inv False d' t" "work_done d' = Suc (work_done d)" by (rule step_preserves) blast
    with Suc(2) have "n = work_done tr - work_done d'" by simp
    with Suc(1) d'(1) show ?thesis by simp
  qed
  with not_stuck [OF Suc.prems] Suc(2) show ?case by (metis must_end.simps(2))
qed

text \<open>What a reachable state says about the actions performed so far.\<close>

lemma reach_inv: "mesh_reach T s0 s \<Longrightarrow> s0 = mesh_init ps \<Longrightarrow> \<exists>d. mesh_inv T d s"
proof (induction rule: mesh_reach.induct)
  case (reach_refl s)
  then show ?case using mesh_inv_init by auto
next
  case (reach_step s t u)
  then show ?case using step_preserves by blast
qed

lemma finished_prefix: "mesh_inv T d s \<Longrightarrow> i < length ps \<Longrightarrow> progs s ! i = Ret r \<Longrightarrow> d i = tr i"
  using mesh_invD(2) [of T d s i] by auto

lemma started: "mesh_inv T d s \<Longrightarrow> i < length ps \<Longrightarrow> d i \<noteq> [] \<Longrightarrow> progs s ! i \<noteq> ps ! i"
  using mesh_invD(2) [of T d s i] party_runs [of i] by (cases "ps ! i") auto

lemma prefix_of_trace: "mesh_inv T d s \<Longrightarrow> i < length ps \<Longrightarrow> \<exists>t. tr i = d i @ t"
  using mesh_invD(2) [of T d s i] by blast

lemma results_reached: "mesh_reach T (mesh_init ps) s \<Longrightarrow> results_or_timeouts rs s"
proof -
  assume "mesh_reach T (mesh_init ps) s"
  then obtain d where inv: "mesh_inv T d s" using reach_inv by blast
  have "(\<forall>r. progs s ! i = Ret r \<longrightarrow> r = rs ! i) \<and> (\<forall>e. progs s ! i = Throw e \<longrightarrow> e = IoError)" if "i < length rs" for i
    using mesh_invD(2) [OF inv, of i] that same_length by auto
  with mesh_invD(1) [OF inv] same_length show ?thesis by (simp add: results_or_timeouts_def)
qed

lemma received_was_sent:
  assumes "mesh_inv T d s" "i < length ps" "Rcv m \<in> set (d i)"
  shows "fst m < length ps" "m \<in> set (snds (d (fst m)))"
proof -
  have "m \<in> set (rcvs (d i))" using assms(3) by (simp add: set_rcvs)
  moreover from this have "fst (snd m) = i"
    using prefix_of_trace [OF assms(1,2)] own_actions(2) [OF assms(2), of m] by auto
  ultimately have "rcvd d m" using assms(2) by (simp add: rcvd_def)
  then show "fst m < length ps" "m \<in> set (snds (d (fst m)))"
    using mesh_invD(3) [OF assms(1)] by (auto simp: sent_def)
qed

lemma mesh_must_end: "must_end rs (mesh_init ps) (\<Sum>i < length ps. length (tr i))"
  using must_end_inv [OF mesh_inv_init] by (simp add: work_done_def)

end

end
