(* ===== verification/Channel_Mem.thy ===== *)
theory Channel_Mem
  imports Party_Programs
begin

text \<open>
  \<open>link/transport/channel_mem.cc\<close>: the channel between two parties of one process. A channel holds
  the messages its peer has sent and nobody has read yet. \<open>cm_recv\<close> takes the wake-ups of the
  condition variable as a list, each with whether the wait timed out and what happened to the
  channel meanwhile; \<open>None\<close> is a thread that is still waiting.
\<close>

record channel_mem =
  peer_alive :: bool
  cm_recv_msgs :: "string \<Rightarrow> bytes option"
  cm_recv_timeout_ms :: u64
  cm_finished :: bool

definition cm_kFinKey :: string where
  "cm_kFinKey = ''_fin_''"

definition cm_new :: "u64 \<Rightarrow> channel_mem" where
  "cm_new timeout_ms =
     \<lparr>peer_alive = False, cm_recv_msgs = Map.empty, cm_recv_timeout_ms = timeout_ms, cm_finished = True\<rparr>"

definition cm_set_peer :: "channel_mem \<Rightarrow> channel_mem" where
  "cm_set_peer c = c\<lparr>peer_alive := True, cm_finished := False\<rparr>"

definition cm_on_message :: "string \<Rightarrow> bytes \<Rightarrow> channel_mem \<Rightarrow> channel_mem" where
  "cm_on_message key value c =
     c\<lparr>cm_recv_msgs := (case cm_recv_msgs c key of
                          None \<Rightarrow> (cm_recv_msgs c)(key := Some value) | Some _ \<Rightarrow> cm_recv_msgs c)\<rparr>"

text \<open>The result is the peer's channel after the message has arrived.\<close>

definition cm_send_impl :: "string \<Rightarrow> bytes \<Rightarrow> channel_mem \<Rightarrow> channel_mem \<Rightarrow> channel_mem result" where
  "cm_send_impl key value c peer =
     (if peer_alive c then Inr (cm_on_message key value peer) else Inl IoError)"

definition cm_stop_waiting :: "string \<Rightarrow> channel_mem \<Rightarrow> (bytes \<times> channel_mem) option" where
  "cm_stop_waiting key c =
     (case cm_recv_msgs c key of
        None \<Rightarrow> None
      | Some value \<Rightarrow> Some (value, c\<lparr>cm_recv_msgs := (cm_recv_msgs c)(key := None)\<rparr>))"

fun cm_recv :: "string \<Rightarrow> channel_mem wakeup list \<Rightarrow> channel_mem \<Rightarrow> bytes result option \<times> channel_mem" where
  "cm_recv key [] c =
     (case cm_stop_waiting key c of Some (v, c') \<Rightarrow> (Some (Inr v), c') | None \<Rightarrow> (None, c))"
| "cm_recv key ((timeout, f) # ws) c =
     (case cm_stop_waiting key c of
        Some (v, c') \<Rightarrow> (Some (Inr v), c')
      | None \<Rightarrow>
          let c = f c in
          if timeout
          then (case cm_stop_waiting key c of Some (v, c') \<Rightarrow> (Some (Inr v), c') | None \<Rightarrow> (Some (Inl IoError), c))
          else cm_recv key ws c)"

definition cm_wait_link_task_finish ::
  "channel_mem wakeup list \<Rightarrow> channel_mem \<Rightarrow> channel_mem \<Rightarrow> unit result option \<times> channel_mem \<times> channel_mem" where
  "cm_wait_link_task_finish ws c peer =
     (if cm_finished c then (Some (Inr ()), c, peer)
      else
        let c = c\<lparr>cm_finished := True\<rparr> in
        case cm_send_impl cm_kFinKey [] c peer of
          Inl e \<Rightarrow> (Some (Inl e), c, peer)
        | Inr peer' \<Rightarrow>
            (case cm_recv cm_kFinKey ws c of
               (None, c') \<Rightarrow> (None, c', peer')
             | (Some (Inl e), c') \<Rightarrow> (Some (Inl e), c', peer')
             | (Some (Inr _), c') \<Rightarrow> (Some (Inr ()), c'\<lparr>cm_finished := True\<rparr>, peer')))"

subsection \<open>Messages\<close>

text \<open>Receiving returns a message that is there at once, or that another thread delivers before the
  wait times out.\<close>

lemma cm_recv_now:
  "cm_recv_msgs c key = Some v \<Longrightarrow>
    cm_recv key ws c = (Some (Inr v), c\<lparr>cm_recv_msgs := (cm_recv_msgs c)(key := None)\<rparr>)"
  by (cases ws) (auto simp: cm_stop_waiting_def)

lemma cm_recv_arrives:
  assumes "cm_recv_msgs (after_wakeups ws k c) key = Some v" "k \<le> length ws"
    and "\<And>j. j < k \<Longrightarrow> cm_recv_msgs (after_wakeups ws j c) key = None"
    and "\<And>j. j < k - 1 \<Longrightarrow> \<not> fst (ws ! j)"
  shows "cm_recv key ws c = (Some (Inr v), (after_wakeups ws k c)
    \<lparr>cm_recv_msgs := (cm_recv_msgs (after_wakeups ws k c))(key := None)\<rparr>)"
  using assms
proof (induction ws arbitrary: c k)
  case Nil
  then show ?case by (simp add: cm_stop_waiting_def after_wakeups_def fun_upd_def)
next
  case (Cons w ws)
  obtain timeout f where w: "w = (timeout, f)" by (cases w)
  show ?case
  proof (cases k)
    case 0
    with Cons.prems(1) show ?thesis by (simp add: cm_recv_now fun_upd_def)
  next
    case (Suc k')
    have none: "cm_stop_waiting key c = None" using Cons.prems(3) [of 0] Suc by (simp add: cm_stop_waiting_def)
    have v: "cm_recv_msgs (after_wakeups ws k' (f c)) key = Some v" using Cons.prems(1) Suc w by simp
    show ?thesis
    proof (cases k')
      case 0
      with v none Suc w show ?thesis
        by (auto simp: cm_stop_waiting_def cm_recv_now fun_upd_def Let_def)
    next
      case (Suc k'')
      have "\<not> timeout" using Cons.prems(4) [of 0] \<open>k = Suc k'\<close> Suc w by simp
      moreover have "cm_recv key ws (f c) = (Some (Inr v), (after_wakeups ws k' (f c))
          \<lparr>cm_recv_msgs := (cm_recv_msgs (after_wakeups ws k' (f c)))(key := None)\<rparr>)"
        using v Cons.prems \<open>k = Suc k'\<close> w Cons.prems(3) [of "Suc _"] Cons.prems(4) [of "Suc _"] Suc
        by (intro Cons.IH) auto
      ultimately show ?thesis using none w \<open>k = Suc k'\<close> by (simp add: fun_upd_def)
    qed
  qed
qed

text \<open>A second message under a key that has not been read is dropped.\<close>

lemma cm_duplicate_dropped: "cm_recv_msgs c key = Some v \<Longrightarrow> cm_on_message key w c = c"
  by (simp add: cm_on_message_def)

text \<open>The mesh of party programs stores for the direction from \<open>src\<close> to \<open>dst\<close> what the channel of \<open>dst\<close>
  for the peer \<open>src\<close> holds, and its steps are the operations of that channel.\<close>

definition mesh_channel :: "(msg \<Rightarrow> bytes option) \<Rightarrow> nat \<Rightarrow> nat \<Rightarrow> channel_mem \<Rightarrow> bool" where
  "mesh_channel box src dst c \<longleftrightarrow> (\<forall>key. box (src, dst, key) = cm_recv_msgs c key)"

lemma mesh_channel_deliver:
  "mesh_channel box src dst c \<Longrightarrow>
    mesh_channel (mesh_deliver (src, dst, key) v box) src dst (cm_on_message key v c)"
  by (auto simp: mesh_channel_def mesh_deliver_def cm_on_message_def split: option.splits)

lemma mesh_channel_recv:
  "mesh_channel box src dst c \<Longrightarrow> box (src, dst, key) = Some v \<Longrightarrow>
    \<exists>c'. cm_stop_waiting key c = Some (v, c') \<and> mesh_channel (box((src, dst, key) := None)) src dst c'"
  by (auto simp: mesh_channel_def cm_stop_waiting_def)

end
