(* ===== verification/Link_Context.thy ===== *)
theory Link_Context
  imports Channel_Mem Retry Channel_Keys
begin

text \<open>
  \<open>link/context.h\<close> and \<open>link/context.cc\<close>: the description of a world of parties and the context a party
  communicates through.

  A channel of a context is the number of the party of the mesh it leads to; \<open>None\<close> is the null
  pointer a context holds for itself. Methods that communicate are \<open>party\<close> programs over the context.
  The \<open>size_t\<close> counters wrap around at \<open>2 ^ 64\<close>. The counters of \<open>p2p_counter_\<close> are of type \<open>int\<close>, kept under pairs
  of ranks that are converted to \<open>int\<close>: the increment of \<open>2 ^ 31 - 1\<close> is undefined, and the ranks in a key count modulo
  \<open>2 ^ 32\<close>. Trace and log output is left out. Sub-contexts made by \<open>Spawn\<close>
  share the statistics object of their parent: the model returns the statistics with the context
  that used them.
\<close>

subsection \<open>Descriptions\<close>

record cert_info =
  certificate_path :: string
  private_key_path :: string

record verify_options =
  verify_depth :: int
  ca_file_path :: string

record ssl_options =
  cert :: cert_info
  verify :: verify_options
  ciphers :: string

record ssl_options_proto =
  pb_certificate_path :: string
  pb_private_key_path :: string
  pb_verify_depth :: int
  pb_ca_file_path :: string

definition default_ssl_options :: ssl_options where
  "default_ssl_options =
     \<lparr>cert = \<lparr>certificate_path = [], private_key_path = []\<rparr>,
      verify = \<lparr>verify_depth = 0, ca_file_path = []\<rparr>, ciphers = []\<rparr>"

definition ssl_options_of_proto :: "ssl_options_proto \<Rightarrow> ssl_options" where
  "ssl_options_of_proto pb =
     \<lparr>cert = \<lparr>certificate_path = pb_certificate_path pb, private_key_path = pb_private_key_path pb\<rparr>,
      verify = \<lparr>verify_depth = pb_verify_depth pb, ca_file_path = pb_ca_file_path pb\<rparr>, ciphers = []\<rparr>"

record party_desc =
  party_id :: string
  party_host :: string

record context_desc =
  desc_id :: string
  desc_parties :: "party_desc list"
  connect_retry_times :: u32
  connect_retry_interval_ms :: u32
  desc_recv_timeout_ms :: u64
  http_max_payload_size :: u32
  http_timeout_ms :: u32
  throttle_window_size :: u32
  chunk_parallel_send_size :: u32
  brpc_channel_protocol :: string
  brpc_channel_connection_type :: string
  enable_ssl :: bool
  client_ssl_opts :: ssl_options
  server_ssl_opts :: ssl_options
  exit_if_async_error :: bool
  link_type :: string
  retry_opts :: retry_options
  disable_msg_seq_id :: bool

definition default_context_desc :: context_desc where
  "default_context_desc =
     \<lparr>desc_id = ''root'', desc_parties = [], connect_retry_times = 10, connect_retry_interval_ms = 1000,
      desc_recv_timeout_ms = 30 * 1000, http_max_payload_size = 1024 * 1024, http_timeout_ms = 20 * 1000,
      throttle_window_size = 10, chunk_parallel_send_size = 8, brpc_channel_protocol = ''baidu_std'',
      brpc_channel_connection_type = [], enable_ssl = False, client_ssl_opts = default_ssl_options,
      server_ssl_opts = default_ssl_options, exit_if_async_error = True, link_type = ''normal'',
      retry_opts = default_retry_options, disable_msg_seq_id = False\<rparr>"

record context_desc_proto =
  pb_id :: string
  pb_parties :: "(string \<times> string) list"
  pb_connect_retry_times :: u32
  pb_connect_retry_interval_ms :: u32
  pb_recv_timeout_ms :: u64
  pb_http_max_payload_size :: u32
  pb_http_timeout_ms :: u32
  pb_throttle_window_size :: u32
  pb_brpc_channel_protocol :: string
  pb_brpc_channel_connection_type :: string
  pb_enable_ssl :: bool
  pb_client_ssl_opts :: ssl_options_proto
  pb_server_ssl_opts :: ssl_options_proto
  pb_chunk_parallel_send_size :: u32
  pb_retry_opts :: retry_options_proto

definition context_desc_of_proto :: "context_desc_proto \<Rightarrow> context_desc" where
  "context_desc_of_proto pb =
     (let d = default_context_desc in
      d\<lparr>desc_id := (if pb_id pb \<noteq> [] then pb_id pb else desc_id d),
        connect_retry_times :=
          (if pb_connect_retry_times pb \<noteq> 0 then pb_connect_retry_times pb else connect_retry_times d),
        connect_retry_interval_ms :=
          (if pb_connect_retry_interval_ms pb \<noteq> 0 then pb_connect_retry_interval_ms pb
           else connect_retry_interval_ms d),
        desc_recv_timeout_ms :=
          (if pb_recv_timeout_ms pb \<noteq> 0 then pb_recv_timeout_ms pb else desc_recv_timeout_ms d),
        http_max_payload_size :=
          (if pb_http_max_payload_size pb \<noteq> 0 then pb_http_max_payload_size pb else http_max_payload_size d),
        http_timeout_ms := (if pb_http_timeout_ms pb \<noteq> 0 then pb_http_timeout_ms pb else http_timeout_ms d),
        throttle_window_size :=
          (if pb_throttle_window_size pb \<noteq> 0 then pb_throttle_window_size pb else throttle_window_size d),
        chunk_parallel_send_size :=
          (if pb_chunk_parallel_send_size pb \<noteq> 0 then pb_chunk_parallel_send_size pb
           else chunk_parallel_send_size d),
        brpc_channel_protocol :=
          (if pb_brpc_channel_protocol pb \<noteq> [] then pb_brpc_channel_protocol pb else brpc_channel_protocol d),
        brpc_channel_connection_type := pb_brpc_channel_connection_type pb,
        enable_ssl := pb_enable_ssl pb,
        client_ssl_opts := ssl_options_of_proto (pb_client_ssl_opts pb),
        server_ssl_opts := ssl_options_of_proto (pb_server_ssl_opts pb),
        retry_opts := retry_options_of_proto (pb_retry_opts pb),
        desc_parties := map (\<lambda>(i, h). \<lparr>party_id = i, party_host = h\<rparr>) (pb_parties pb)\<rparr>)"

definition desc_eq :: "context_desc \<Rightarrow> context_desc \<Rightarrow> bool" where
  "desc_eq a b \<longleftrightarrow> desc_id a = desc_id b \<and> desc_parties a = desc_parties b"

subsection \<open>The context\<close>

record statistics =
  sent_bytes :: nat
  sent_actions :: nat
  recv_bytes :: nat
  recv_actions :: nat

record link_ctx =
  ctx_desc :: context_desc
  ctx_rank :: nat
  channels :: "nat option list"
  counter :: nat
  p2p_counter :: "u32 \<times> u32 \<Rightarrow> nat"
  child_counter :: nat
  ctx_recv_timeout_ms :: u64
  stats :: statistics
  is_sub_world :: bool

definition new_statistics :: statistics where
  "new_statistics = \<lparr>sent_bytes = 0, sent_actions = 0, recv_bytes = 0, recv_actions = 0\<rparr>"

definition new_context :: "context_desc \<Rightarrow> nat \<Rightarrow> nat option list \<Rightarrow> bool \<Rightarrow> link_ctx result" where
  "new_context desc rank chs sub =
     (let world_size = length (desc_parties desc) in
      rbind (enforce (rank < world_size)) (\<lambda>_.
      rbind (enforce (length chs = world_size)) (\<lambda>_.
      Inr \<lparr>ctx_desc = desc, ctx_rank = rank, channels = chs, counter = 0, p2p_counter = (\<lambda>_. 0),
           child_counter = 0, ctx_recv_timeout_ms = desc_recv_timeout_ms desc, stats = new_statistics,
           is_sub_world = sub\<rparr>)))"

definition world_size :: "link_ctx \<Rightarrow> nat" where
  "world_size c = length (desc_parties (ctx_desc c))"

text \<open>Ranks are computed in \<open>size_t\<close>, so \<open>rank_ - stride + WorldSize()\<close> is taken modulo \<open>2 ^ 64\<close>.\<close>

definition prev_rank :: "link_ctx \<Rightarrow> nat \<Rightarrow> nat" where
  "prev_rank c stride =
     unat ((of_nat (ctx_rank c) :: u64) - of_nat stride + of_nat (world_size c)) mod world_size c"

definition next_rank :: "link_ctx \<Rightarrow> nat \<Rightarrow> nat" where
  "next_rank c stride = unat ((of_nat (ctx_rank c) :: u64) + of_nat stride) mod world_size c"

definition next_id :: "(link_ctx, string) party" where
  "next_id = party_update (\<lambda>c.
     let n = (counter c + 1) mod 2 ^ 64 in
     (desc_id (ctx_desc c) @ '':'' @ to_string n, c\<lparr>counter := n\<rparr>))"

definition next_p2p_id :: "nat \<Rightarrow> nat \<Rightarrow> (link_ctx, string) party" where
  "next_p2p_id src dst =
     party_bind (party_get (\<lambda>c. p2p_counter c (of_nat src, of_nat dst) + 1)) (\<lambda>n.
     if 2 ^ 31 \<le> n then party_throw Undefined
     else party_update (\<lambda>c.
       (desc_id (ctx_desc c) @ '':P2P-'' @ to_string n @ '':'' @ to_string src @ ''->'' @ to_string dst,
        c\<lparr>p2p_counter := (p2p_counter c)((of_nat src, of_nat dst) := n)\<rparr>)))"

text \<open>\<open>channels_[rank]->...\<close>: the subscript is checked by the callers, the pointer is not.\<close>

definition peer_channel :: "nat \<Rightarrow> (link_ctx, nat) party" where
  "peer_channel rank = party_bind (party_get channels) (\<lambda>chs.
     party_lift (rbind (at_idx chs rank) (\<lambda>ch. case ch of None \<Rightarrow> Inl Undefined | Some p \<Rightarrow> Inr p)))"

definition send_async_internal :: "nat \<Rightarrow> string \<Rightarrow> bytes \<Rightarrow> (link_ctx, unit) party" where
  "send_async_internal dst key value =
     party_bind (party_get channels) (\<lambda>chs.
     party_bind (party_enforce (dst < length chs)) (\<lambda>_.
     party_bind (peer_channel dst) (\<lambda>p.
     party_bind (\<lambda>c. SendMsg p key value (Ret ((), c))) (\<lambda>_.
     party_update (\<lambda>c. ((), c\<lparr>stats := (stats c)\<lparr>sent_actions := (sent_actions (stats c) + 1) mod 2 ^ 64,
                                                sent_bytes := (sent_bytes (stats c) + length value) mod 2 ^ 64\<rparr>\<rparr>))))))"

definition recv_internal :: "nat \<Rightarrow> string \<Rightarrow> (link_ctx, bytes) party" where
  "recv_internal src key =
     party_bind (party_get channels) (\<lambda>chs.
     party_bind (party_enforce (src < length chs)) (\<lambda>_.
     party_bind (peer_channel src) (\<lambda>p.
     party_bind (\<lambda>c. RecvMsg p key (\<lambda>v. Ret (v, c))) (\<lambda>value.
     party_update (\<lambda>c. (value, c\<lparr>stats := (stats c)\<lparr>recv_actions := (recv_actions (stats c) + 1) mod 2 ^ 64,
                                                   recv_bytes := (recv_bytes (stats c) + length value) mod 2 ^ 64\<rparr>\<rparr>))))))"

text \<open>The throttled and the synchronous send call another method of the channel; for a memory channel all
  of them are \<open>ChannelMem::SendImpl\<close>.\<close>

definition send_async_throttled_internal :: "nat \<Rightarrow> string \<Rightarrow> bytes \<Rightarrow> (link_ctx, unit) party" where
  "send_async_throttled_internal dst key value = send_async_internal dst key value"

definition send_internal :: "nat \<Rightarrow> string \<Rightarrow> bytes \<Rightarrow> (link_ctx, unit) party" where
  "send_internal dst key value = send_async_internal dst key value"

definition ctx_send_async_throttled :: "nat \<Rightarrow> bytes \<Rightarrow> (link_ctx, unit) party" where
  "ctx_send_async_throttled dst value =
     party_bind (party_get ctx_rank) (\<lambda>rank.
     party_bind (next_p2p_id rank dst) (\<lambda>event. send_async_throttled_internal dst event value))"

definition ctx_send :: "nat \<Rightarrow> bytes \<Rightarrow> (link_ctx, unit) party" where
  "ctx_send dst value =
     party_bind (party_get ctx_rank) (\<lambda>rank.
     party_bind (next_p2p_id rank dst) (\<lambda>event. send_internal dst event value))"

definition ctx_send_async :: "nat \<Rightarrow> bytes \<Rightarrow> (link_ctx, unit) party" where
  "ctx_send_async dst value =
     party_bind (party_get ctx_rank) (\<lambda>rank.
     party_bind (next_p2p_id rank dst) (\<lambda>event. send_async_internal dst event value))"

definition ctx_recv :: "nat \<Rightarrow> (link_ctx, bytes) party" where
  "ctx_recv src =
     party_bind (party_get ctx_rank) (\<lambda>rank.
     party_bind (next_p2p_id src rank) (\<lambda>event. recv_internal src event))"

text \<open>\<open>SetRecvTimeout\<close> also sets the timeouts of the channel objects \<open>chs\<close> the context points to.\<close>

type_synonym ctx_state = "link_ctx \<times> channel_mem option list"

definition set_channel_timeout :: "u64 \<Rightarrow> nat \<Rightarrow> channel_mem option list \<Rightarrow> channel_mem option list result" where
  "set_channel_timeout ms idx chs =
     rbind (at_idx chs idx) (\<lambda>ch.
       case ch of None \<Rightarrow> Inl Undefined | Some m \<Rightarrow> Inr (chs[idx := Some (m\<lparr>cm_recv_timeout_ms := ms\<rparr>)]))"

definition set_recv_timeout :: "u64 \<Rightarrow> ctx_state \<Rightarrow> ctx_state result" where
  "set_recv_timeout ms = (\<lambda>(c, chs).
     rbind (rfold (\<lambda>idx chs. if idx = ctx_rank c then Inr chs else set_channel_timeout ms idx chs) [0..<world_size c] chs)
       (\<lambda>chs. Inr (c\<lparr>ctx_recv_timeout_ms := ms\<rparr>, chs)))"

text \<open>\<open>RecvTimeoutGuard\<close>: the timeout is set for the guarded method and restored by the destructor, also when
  the method throws.\<close>

definition recv_timeout_guard :: "u64 \<Rightarrow> (ctx_state \<Rightarrow> 'a result \<times> ctx_state) \<Rightarrow> ctx_state \<Rightarrow> ('a result \<times> ctx_state) result" where
  "recv_timeout_guard ms method s =
     rbind (set_recv_timeout ms s) (\<lambda>s1.
     let (r, s2) = method s1 in
     rbind (set_recv_timeout (ctx_recv_timeout_ms (fst s)) s2) (\<lambda>s3. Inr (r, s3)))"

subsection \<open>Connecting to the mesh\<close>

text \<open>\<open>send idx attempt timeout\<close> and \<open>recv idx\<close> are the outcomes of \<open>TestSend\<close> and \<open>TestRecv\<close> on the channel to
  \<open>idx\<close>; the sleep between the attempts is left out.\<close>

fun is_network_error :: "error \<Rightarrow> bool" where
  "is_network_error NetworkError = True"
| "is_network_error (LinkError _ _) = True"
| "is_network_error _ = False"

definition try_connect :: "(u32 \<Rightarrow> unit result) \<Rightarrow> u32 \<Rightarrow> bool result" where
  "try_connect test_send timeout =
     (case test_send timeout of
        Inl e \<Rightarrow> if is_network_error e then Inr False else Inl e
      | Inr _ \<Rightarrow> Inr True)"

fun connect_attempts :: "(nat \<Rightarrow> u32 \<Rightarrow> unit result) \<Rightarrow> nat \<Rightarrow> nat \<Rightarrow> bool result" where
  "connect_attempts test_send attempt 0 = Inr False"
| "connect_attempts test_send attempt (Suc left) =
     rbind (try_connect (test_send attempt) (of_nat ((attempt mod 11) + 2) * 1000)) (\<lambda>ok.
       if ok then Inr True else connect_attempts test_send (attempt + 1) left)"

definition connect_to_mesh ::
  "(nat \<Rightarrow> nat \<Rightarrow> u32 \<Rightarrow> unit result) \<Rightarrow> (nat \<Rightarrow> unit result) \<Rightarrow> link_ctx \<Rightarrow> unit result" where
  "connect_to_mesh test_send test_recv c =
     (let peers = filter (\<lambda>idx. idx \<noteq> ctx_rank c) [0..<world_size c] in
      rbind (rfold (\<lambda>idx _.
        rbind (connect_attempts (test_send idx) 0 (unat (connect_retry_times (ctx_desc c)))) (\<lambda>succeed.
        if succeed then Inr () else Inl RuntimeError)) peers ()) (\<lambda>_.
      rfold (\<lambda>idx _. test_recv idx) peers ()))"

subsection \<open>Sub-contexts\<close>

definition spawn :: "string \<Rightarrow> link_ctx \<Rightarrow> (link_ctx \<times> link_ctx) result" where
  "spawn i c =
     (let (sub_id, c') =
        (if i = [] then (desc_id (ctx_desc c) @ ''-'' @ to_string (child_counter c),
                         c\<lparr>child_counter := (child_counter c + 1) mod 2 ^ 64\<rparr>)
         else (desc_id (ctx_desc c) @ ''-'' @ i, c)) in
      rbind (new_context ((ctx_desc c)\<lparr>desc_id := sub_id\<rparr>) (ctx_rank c) (channels c) False) (\<lambda>sub.
      Inr (sub\<lparr>stats := stats c\<rparr>, c')))"

text \<open>\<open>party_rank_map\<close>: a later party with the same id overwrites an earlier one.\<close>

definition party_rank_map :: "party_desc list \<Rightarrow> string \<Rightarrow> nat option" where
  "party_rank_map ps = map_of (rev (zip (map party_id ps) [0..<length ps]))"

fun sub_world_ranks ::
  "(string \<Rightarrow> nat option) \<Rightarrow> nat \<Rightarrow> string list \<Rightarrow> nat list \<Rightarrow> nat \<Rightarrow> (nat list \<times> nat) result" where
  "sub_world_ranks m self [] orig_ranks new_rank = Inr (orig_ranks, new_rank)"
| "sub_world_ranks m self (p # ps) orig_ranks new_rank =
     (case m p of
        None \<Rightarrow> Inl EnforceNotMet
      | Some r \<Rightarrow> sub_world_ranks m self ps (orig_ranks @ [r])
                    (if r = self then length orig_ranks else new_rank))"

definition sub_world :: "string \<Rightarrow> string list \<Rightarrow> link_ctx \<Rightarrow> link_ctx result" where
  "sub_world id_suffix sub_party_ids c =
     rbind (sub_world_ranks (party_rank_map (desc_parties (ctx_desc c))) (ctx_rank c) sub_party_ids []
              (length sub_party_ids)) (\<lambda>(orig_ranks, new_rank).
     if new_rank = length sub_party_ids then Inl RuntimeError
     else
       let sub_desc = (ctx_desc c)\<lparr>desc_id := desc_id (ctx_desc c) @ ''-'' @ id_suffix,
             desc_parties := map (\<lambda>r. desc_parties (ctx_desc c) ! r) orig_ranks\<rparr> in
       new_context sub_desc new_rank (map (\<lambda>r. channels c ! r) orig_ranks) True)"

end
