(* ===== verification/Collectives.thy ===== *)
theory Collectives
  imports Link_Context Channel_Mem
begin

text \<open>
  \<open>link/algorithm\<close>: the collective algorithms of a context, and the session of \<open>link/factory_mem.cc\<close>
  that connects the contexts of all parties. The serializer of a vector of buffers (msgpack) is
  outside the repository: the vector versions take it as the parameters \<open>ser\<close> and \<open>deser\<close>.
\<close>

definition new_event :: "string \<Rightarrow> (link_ctx, string) party" where
  "new_event kType = party_bind next_id (\<lambda>i. party_return (i @ '':'' @ kType))"

subsection \<open>AllGather\<close>

definition all_gather_impl :: "bytes \<Rightarrow> (link_ctx, bytes list) party" where
  "all_gather_impl input =
     party_bind (new_event ''ALLGATHER'') (\<lambda>event.
     party_bind (party_get world_size) (\<lambda>n.
     party_bind (party_get ctx_rank) (\<lambda>rank.
     party_bind (party_map (\<lambda>idx. if idx = rank then party_return () else send_async_internal idx event input) [0..<n]) (\<lambda>_.
     party_map (\<lambda>idx. if idx = rank then party_return input else recv_internal idx event) [0..<n]))))"

text \<open>\<open>outputs[idx][rank]\<close> from the vectors received from each rank.\<close>

definition transpose_outputs :: "nat \<Rightarrow> bytes list list \<Rightarrow> bytes list list" where
  "transpose_outputs inputs_size per_rank = map (\<lambda>idx. map (\<lambda>xs. xs ! idx) per_rank) [0..<inputs_size]"

definition unpack_outputs ::
  "(bytes \<Rightarrow> bytes list result) \<Rightarrow> nat \<Rightarrow> bytes list \<Rightarrow> (link_ctx, bytes list list) party" where
  "unpack_outputs deser inputs_size packed =
     party_map (\<lambda>p.
       party_bind (party_lift (deser p)) (\<lambda>outputs_i.
       party_bind (party_enforce (length outputs_i = inputs_size)) (\<lambda>_. party_return outputs_i))) packed"

definition all_gather_vector_impl ::
  "(bytes list \<Rightarrow> bytes) \<Rightarrow> (bytes \<Rightarrow> bytes list result) \<Rightarrow> bytes list \<Rightarrow> (link_ctx, bytes list list) party" where
  "all_gather_vector_impl ser deser inputs =
     (if inputs = [] then party_return []
      else if length inputs = 1 then
        party_bind (all_gather_impl (hd inputs)) (\<lambda>output_buffer.
        party_bind (party_get world_size) (\<lambda>n.
        party_bind (party_enforce (length output_buffer = n)) (\<lambda>_.
        party_return [output_buffer])))
      else
        party_bind (all_gather_impl (ser inputs)) (\<lambda>packed.
        party_bind (party_get world_size) (\<lambda>n.
        party_bind (party_enforce (length packed = n)) (\<lambda>_.
        party_bind (unpack_outputs deser (length inputs) packed) (\<lambda>per_rank.
        party_return (transpose_outputs (length inputs) per_rank))))))"

subsection \<open>Gather\<close>

definition gather_impl :: "bytes \<Rightarrow> nat \<Rightarrow> (link_ctx, bytes list) party" where
  "gather_impl input root =
     party_bind (new_event ''GATHER'') (\<lambda>event.
     party_bind (party_get world_size) (\<lambda>n.
     party_bind (party_get ctx_rank) (\<lambda>rank.
     if root = rank then
       party_map (\<lambda>idx. if idx = rank then party_return input else recv_internal idx event) [0..<n]
     else party_bind (send_async_internal root event input) (\<lambda>_. party_return []))))"

definition gather_vector_impl ::
  "(bytes list \<Rightarrow> bytes) \<Rightarrow> (bytes \<Rightarrow> bytes list result) \<Rightarrow> bytes list \<Rightarrow> nat \<Rightarrow> (link_ctx, bytes list list) party" where
  "gather_vector_impl ser deser inputs root =
     (if inputs = [] then party_return []
      else
        party_bind (party_get world_size) (\<lambda>n.
        party_bind (party_get ctx_rank) (\<lambda>rank.
        if length inputs = 1 then
          party_bind (gather_impl (hd inputs) root) (\<lambda>output_buffer.
          if root = rank then
            party_bind (party_enforce (length output_buffer = n)) (\<lambda>_. party_return [output_buffer])
          else party_bind (party_enforce (output_buffer = [])) (\<lambda>_. party_return [[]]))
        else
          party_bind (gather_impl (ser inputs) root) (\<lambda>packed.
          if root = rank then
            party_bind (party_enforce (length packed = n)) (\<lambda>_.
            party_bind (unpack_outputs deser (length inputs) packed) (\<lambda>per_rank.
            party_return (transpose_outputs (length inputs) per_rank)))
          else party_bind (party_enforce (packed = [])) (\<lambda>_.
            party_return (replicate (length inputs) []))))))"

subsection \<open>Scatter\<close>

definition scatter :: "bytes list \<Rightarrow> nat \<Rightarrow> (link_ctx, bytes) party" where
  "scatter inputs root =
     party_bind (new_event ''SCATTER'') (\<lambda>event.
     party_bind (party_get world_size) (\<lambda>n.
     party_bind (party_get ctx_rank) (\<lambda>rank.
     if root = rank then
       party_bind (party_enforce (length inputs = n)) (\<lambda>_.
       party_bind (party_map (\<lambda>idx. if idx = rank then party_return ()
                                     else send_async_internal idx event (inputs ! idx)) [0..<n]) (\<lambda>_.
       party_return (inputs ! root)))
     else recv_internal root event)))"

subsection \<open>Broadcast\<close>

definition ring_offset :: "nat \<Rightarrow> nat \<Rightarrow> nat \<Rightarrow> nat" where
  "ring_offset begin_rank end_rank n =
     unat ((of_nat end_rank :: u64) - of_nat begin_rank + of_nat n) mod n"

text \<open>\<open>absl::bit_floor\<close>: the largest power of two that is not larger.\<close>

fun bit_floor :: "nat \<Rightarrow> nat" where
  "bit_floor n = (if n = 0 then 0 else if n = 1 then 1 else 2 * bit_floor (n div 2))"

declare bit_floor.simps [simp del]

function broadcast_loop :: "string \<Rightarrow> nat \<Rightarrow> nat \<Rightarrow> bool \<Rightarrow> bytes \<Rightarrow> (link_ctx, bytes) party" where
  "broadcast_loop event vrank stride received output =
     (if stride = 0 then party_return output
      else if \<not> received then
        if vrank mod stride \<noteq> 0 then broadcast_loop event vrank (stride div 2) received output
        else
          party_bind (party_get (\<lambda>c. prev_rank c stride)) (\<lambda>prev.
          party_bind (recv_internal prev event) (\<lambda>output.
          broadcast_loop event vrank (stride div 2) True output))
      else
        party_bind (party_get world_size) (\<lambda>n.
        party_bind (party_get (\<lambda>c. next_rank c stride)) (\<lambda>next.
        party_bind (if vrank + stride < n then send_async_internal next event output else party_return ()) (\<lambda>_.
        broadcast_loop event vrank (stride div 2) received output))))"
  by pat_completeness auto

termination
  by (relation "measure (\<lambda>(event, vrank, stride, received, output). stride)") auto

declare broadcast_loop.simps [simp del]

definition broadcast :: "bytes \<Rightarrow> nat \<Rightarrow> (link_ctx, bytes) party" where
  "broadcast input root =
     party_bind (new_event ''BCAST'') (\<lambda>event.
     party_bind (party_get world_size) (\<lambda>n.
     party_bind (party_get ctx_rank) (\<lambda>rank.
     let vrank = ring_offset root rank n in
     broadcast_loop event vrank (bit_floor n) (vrank = 0) input)))"

subsection \<open>Barrier\<close>

function barrier_loop :: "string \<Rightarrow> nat \<Rightarrow> nat \<Rightarrow> (link_ctx, unit) party" where
  "barrier_loop event n offset =
     (if offset = 0 \<or> n \<le> offset then party_return ()
      else
        party_bind (party_get (\<lambda>c. prev_rank c offset)) (\<lambda>recv_rank.
        party_bind (party_get (\<lambda>c. next_rank c offset)) (\<lambda>send_rank.
        party_bind (send_async_internal send_rank event []) (\<lambda>_.
        party_bind (recv_internal recv_rank event) (\<lambda>_.
        barrier_loop event n (2 * offset))))))"
  by pat_completeness auto

termination
  by (relation "measure (\<lambda>(event, n, offset). n - offset)") auto

declare barrier_loop.simps [simp del]

definition barrier :: "(link_ctx, unit) party" where
  "barrier =
     party_bind (new_event ''BARRIER'') (\<lambda>event.
     party_bind (party_get world_size) (\<lambda>n. barrier_loop event n 1))"

subsection \<open>The session of memory channels\<close>

text \<open>\<open>CreateSession\<close>: every party gets a context whose channel to each peer is one end of a pair of
  memory channels; its channel to itself is null.\<close>

definition session_channels :: "nat \<Rightarrow> nat \<Rightarrow> nat option list" where
  "session_channels world self = map (\<lambda>peer. if self = peer then None else Some peer) [0..<world]"

definition create_session :: "context_desc \<Rightarrow> link_ctx list result" where
  "create_session desc =
     (let n = length (desc_parties desc) in
      rfold (\<lambda>self ctxs. rbind (new_context desc self (session_channels n self) False) (\<lambda>c. Inr (ctxs @ [c]))) [0..<n] [])"

text \<open>The process-wide table of sessions, an \<open>unordered_map\<close> with \<open>ContextDescHasher\<close> (over \<open>std::hash\<close>, the
  parameter \<open>hash\<close>) and \<open>operator==\<close>: an entry is found when both agree.\<close>

type_synonym mem_sessions = "(context_desc \<times> link_ctx list) list"

definition create_or_get_session ::
  "(context_desc \<Rightarrow> u64) \<Rightarrow> context_desc \<Rightarrow> mem_sessions \<Rightarrow> (link_ctx list \<times> mem_sessions) result" where
  "create_or_get_session hash desc sessions =
     (case find (\<lambda>(d, _). hash d = hash desc \<and> desc_eq d desc) sessions of
        Some (_, ctxs) \<Rightarrow> Inr (ctxs, sessions)
      | None \<Rightarrow> rbind (create_session desc) (\<lambda>ctxs. Inr (ctxs, (desc, ctxs) # sessions)))"

definition create_context ::
  "(context_desc \<Rightarrow> u64) \<Rightarrow> context_desc \<Rightarrow> nat \<Rightarrow> mem_sessions \<Rightarrow> (link_ctx \<times> mem_sessions) result" where
  "create_context hash desc rank sessions =
     (if rank \<ge> length (desc_parties desc) then Inl LogicError
      else rbind (create_or_get_session hash desc sessions) (\<lambda>(ctxs, sessions).
           rbind (at_idx ctxs rank) (\<lambda>c. Inr (c, sessions))))"

end
