(* ===== verification/Message_Flows.thy ===== *)
theory Message_Flows
  imports Party_Programs
begin

text \<open>
  The message flows of the collective operations: which messages each rank sends and receives, in
  which order. A flow fits together when every awaited message is sent, with the awaited content,
  and the stamps of the messages exclude circular waiting; flows under different keys can be
  executed one after the other.
\<close>

subsection \<open>Lists of actions\<close>

definition key_of :: "msg \<Rightarrow> string" where
  "key_of m = snd (snd m)"

lemma key_of_simp [simp]: "key_of (s, d, k) = k"
  by (simp add: key_of_def)

lemma concat_skip: "concat (map (\<lambda>j. if P j then [] else [f j]) js) = map f (filter (\<lambda>j. \<not> P j) js)"
  by (induction js) auto

lemma concat_keep: "concat (map (\<lambda>j. if P j then [f j] else []) js) = map f (filter P js)"
  by (induction js) auto

lemma snds_map [simp]:
  "snds (map (\<lambda>j. Snd (g j) (h j)) js) = map g js" "snds (map (\<lambda>j. Rcv (g j)) js) = []"
  by (induction js) auto

lemma rcvs_map [simp]:
  "rcvs (map (\<lambda>j. Snd (g j) (h j)) js) = []" "rcvs (map (\<lambda>j. Rcv (g j)) js) = map g js"
  by (induction js) auto

lemma stamp_ok_simps [simp]:
  "stamp_ok \<tau> (Snd m v) b" "stamp_ok \<tau> a (Rcv m)" "stamp_ok \<tau> (Rcv m) (Snd m' v) \<longleftrightarrow> \<tau> m < \<tau> m'"
  by (auto simp: stamp_ok_def)

lemma sorted_stamps [simp]:
  "sorted_wrt (stamp_ok \<tau>) (map (\<lambda>j. Snd (g j) (h j)) js)" "sorted_wrt (stamp_ok \<tau>) (map (\<lambda>j. Rcv (g j)) js)"
  by (induction js) auto

subsection \<open>Fitting flows\<close>

definition flow_fits ::
  "nat \<Rightarrow> string set \<Rightarrow> (msg \<Rightarrow> bytes) \<Rightarrow> (msg \<Rightarrow> nat) \<Rightarrow> (nat \<Rightarrow> act list) \<Rightarrow> bool" where
  "flow_fits n K M \<tau> tr \<longleftrightarrow>
     (\<forall>i < n. (\<forall>m v. Snd m v \<in> set (tr i) \<longrightarrow> v = M m \<and> key_of m \<in> K) \<and>
        distinct (snds (tr i)) \<and> distinct (rcvs (tr i)) \<and>
        (\<forall>m. Rcv m \<in> set (tr i) \<longrightarrow> fst m < n \<and> m \<in> set (snds (tr (fst m)))) \<and>
        sorted_wrt (stamp_ok \<tau>) (tr i))"

lemma flow_fitsD:
  assumes "flow_fits n K M \<tau> tr" "i < n"
  shows "Snd m v \<in> set (tr i) \<Longrightarrow> v = M m" "Snd m v \<in> set (tr i) \<Longrightarrow> key_of m \<in> K"
    "distinct (snds (tr i))" "distinct (rcvs (tr i))"
    "Rcv m \<in> set (tr i) \<Longrightarrow> fst m < n" "Rcv m \<in> set (tr i) \<Longrightarrow> m \<in> set (snds (tr (fst m)))"
    "sorted_wrt (stamp_ok \<tau>) (tr i)"
  using assms unfolding flow_fits_def by blast+

lemma flow_fits_rcv_key: "flow_fits n K M \<tau> tr \<Longrightarrow> i < n \<Longrightarrow> Rcv m \<in> set (tr i) \<Longrightarrow> key_of m \<in> K"
  using flow_fitsD(5,6) [of n K M \<tau> tr i m] flow_fitsD(2) [of n K M \<tau> tr "fst m" m] by (auto simp: set_snds)

lemma flow_fits_mono: "flow_fits n K M \<tau> tr \<Longrightarrow> K \<subseteq> K' \<Longrightarrow> flow_fits n K' M \<tau> tr"
  unfolding flow_fits_def by blast

lemma flow_fits_empty: "flow_fits n K M \<tau> (\<lambda>i. [])"
  by (simp add: flow_fits_def)

lemma sorted_wrt_mono_set:
  "sorted_wrt P xs \<Longrightarrow> (\<And>x y. x \<in> set xs \<Longrightarrow> y \<in> set xs \<Longrightarrow> P x y \<Longrightarrow> Q x y) \<Longrightarrow> sorted_wrt Q xs"
  by (induction xs) auto

lemma flow_fits_mesh_protocol:
  assumes "flow_fits n K M \<tau> tr" "length ps = n" "length rs = n"
    and "\<And>i. i < n \<Longrightarrow> run M i (ps ! i) = (tr i, Inr (rs ! i))"
  shows "mesh_protocol ps rs tr M \<tau>"
proof
  show "length rs = length ps" using assms(2,3) by simp
  fix i assume "i < length ps"
  then have i: "i < n" using assms(2) by simp
  note fits = flow_fitsD [OF assms(1) i]
  show "run M i (ps ! i) = (tr i, Inr (rs ! i))" using assms(4) i .
  show "v = M m" if "Snd m v \<in> set (tr i)" for m v using that by (rule fits(1))
  show "distinct (snds (tr i))" "distinct (rcvs (tr i))" "sorted_wrt (stamp_ok \<tau>) (tr i)" using fits(3,4,7) by blast+
  show "fst m < length ps \<and> m \<in> set (snds (tr (fst m)))" if "m \<in> set (rcvs (tr i))" for m
    using that fits(5,6) [of m] unfolding assms(2) set_rcvs by blast
qed

text \<open>Two flows under different keys, one after the other.\<close>

lemma flow_fits_append:
  assumes 1: "flow_fits n {e} M \<tau> tr" and 2: "flow_fits n K M' \<tau>' tr'" and "e \<notin> K"
    and bound: "\<And>m. \<tau> m \<le> B"
  shows "flow_fits n (insert e K) (\<lambda>m. if key_of m = e then M m else M' m)
    (\<lambda>m. if key_of m = e then \<tau> m else B + 1 + \<tau>' m) (\<lambda>i. tr i @ tr' i)"
    (is "flow_fits n ?K ?M ?\<tau> ?tr")
  unfolding flow_fits_def
proof (intro allI impI conjI)
  fix i assume i: "i < n"
  note one = flow_fitsD [OF 1 i] and two = flow_fitsD [OF 2 i]
  have k1: "Snd m v \<in> set (tr i) \<Longrightarrow> key_of m = e" "Rcv m \<in> set (tr i) \<Longrightarrow> key_of m = e" for m v
    using one(2) [of m v] flow_fits_rcv_key [OF 1 i, of m] by simp_all
  have k2: "Snd m v \<in> set (tr' i) \<Longrightarrow> key_of m \<noteq> e" "Rcv m \<in> set (tr' i) \<Longrightarrow> key_of m \<noteq> e" for m v
    using two(2) [of m v] flow_fits_rcv_key [OF 2 i, of m] \<open>e \<notin> K\<close> by auto
  { fix m v assume "Snd m v \<in> set (?tr i)"
    then consider "Snd m v \<in> set (tr i)" | "Snd m v \<in> set (tr' i)" unfolding set_append by blast
    then have "v = ?M m \<and> key_of m \<in> ?K"
      using one(1) [of m v] two(1,2) [of m v] k1(1) [of m v] k2(1) [of m v] by cases simp_all
    then show "v = ?M m" "key_of m \<in> ?K" by blast+ }
  show "distinct (snds (?tr i))" "distinct (rcvs (?tr i))"
    unfolding snds_append rcvs_append distinct_append disjoint_iff set_snds set_rcvs
    using one(3,4) two(3,4) k1 k2 by blast+
  { fix m assume "Rcv m \<in> set (?tr i)"
    then show "fst m < n" "m \<in> set (snds (?tr (fst m)))"
      unfolding set_append snds_append using one(5,6) two(5,6) by blast+ }
  have a: "sorted_wrt (stamp_ok ?\<tau>) (tr i)"
  proof (rule sorted_wrt_mono_set [OF one(7)])
    fix x y assume xy: "x \<in> set (tr i)" "y \<in> set (tr i)" "stamp_ok \<tau> x y"
    show "stamp_ok ?\<tau> x y"
    proof (cases x; cases y)
      fix m m' v assume "x = Rcv m" "y = Snd m' v"
      with xy k1(2) [of m] k1(1) [of m' v] show ?thesis by simp
    qed simp_all
  qed
  have b: "sorted_wrt (stamp_ok ?\<tau>) (tr' i)"
  proof (rule sorted_wrt_mono_set [OF two(7)])
    fix x y assume xy: "x \<in> set (tr' i)" "y \<in> set (tr' i)" "stamp_ok \<tau>' x y"
    show "stamp_ok ?\<tau> x y"
    proof (cases x; cases y)
      fix m m' v assume "x = Rcv m" "y = Snd m' v"
      with xy k2(2) [of m] k2(1) [of m' v] show ?thesis by simp
    qed simp_all
  qed
  have "stamp_ok ?\<tau> x y" if "x \<in> set (tr i)" "y \<in> set (tr' i)" for x y
  proof (cases x; cases y)
    fix m m' v assume x: "x = Rcv m" and y: "y = Snd m' v"
    have "key_of m = e" "key_of m' \<noteq> e" using that x y k1(2) [of m] k2(1) [of m' v] by simp_all
    with bound [of m] x y show ?thesis by simp
  qed simp_all
  with a b show "sorted_wrt (stamp_ok ?\<tau>) (?tr i)" unfolding sorted_wrt_append by blast
qed

subsection \<open>Ranks on a ring\<close>

definition ring_add :: "nat \<Rightarrow> nat \<Rightarrow> nat \<Rightarrow> nat" where
  "ring_add n a b = (a + b) mod n"

definition ring_dist :: "nat \<Rightarrow> nat \<Rightarrow> nat \<Rightarrow> nat" where
  "ring_dist n a b = (b + n - a) mod n"

lemma ring_add_less [simp]: "0 < n \<Longrightarrow> ring_add n a b < n"
  by (simp add: ring_add_def)

lemma ring_dist_less [simp]: "0 < n \<Longrightarrow> ring_dist n a b < n"
  by (simp add: ring_dist_def)

lemma ring_dist_cases:
  "a < n \<Longrightarrow> b < n \<Longrightarrow> ring_dist n a b = (if a \<le> b then b - a else b + n - a)"
  by (auto simp: ring_dist_def mod_if)

lemma ring_add_cases:
  "a < n \<Longrightarrow> b < n \<Longrightarrow> ring_add n a b = (if a + b < n then a + b else a + b - n)"
  by (auto simp: ring_add_def mod_if)

lemma ring_dist_add [simp]: "a < n \<Longrightarrow> b < n \<Longrightarrow> ring_dist n a (ring_add n a b) = b"
  by (auto simp: ring_add_cases ring_dist_cases)

lemma ring_add_dist [simp]: "a < n \<Longrightarrow> b < n \<Longrightarrow> ring_add n a (ring_dist n a b) = b"
  by (auto simp: ring_add_cases ring_dist_cases)

lemma ring_add_inj: "a < n \<Longrightarrow> b < n \<Longrightarrow> c < n \<Longrightarrow> ring_add n a b = ring_add n a c \<longleftrightarrow> b = c"
  by (metis ring_dist_add)

lemma ring_add_ne: "a < n \<Longrightarrow> 0 < b \<Longrightarrow> b < n \<Longrightarrow> ring_add n a b \<noteq> a"
  by (auto simp: ring_add_cases)

text \<open>The rank some steps back, as \<open>PrevRank\<close> computes it.\<close>

definition ring_sub :: "nat \<Rightarrow> nat \<Rightarrow> nat \<Rightarrow> nat" where
  "ring_sub n a b = (a + n - b) mod n"

lemma ring_sub_cases:
  "a < n \<Longrightarrow> b \<le> n \<Longrightarrow> ring_sub n a b = (if b \<le> a then a - b else a + n - b)"
  by (auto simp: ring_sub_def mod_if)

lemma ring_sub_ne: "a < n \<Longrightarrow> 0 < b \<Longrightarrow> b < n \<Longrightarrow> ring_sub n a b \<noteq> a"
  by (auto simp: ring_sub_cases)

lemma ring_sub_less [simp]: "0 < n \<Longrightarrow> ring_sub n a b < n"
  by (simp add: ring_sub_def)

lemma ring_add_sub [simp]: "a < n \<Longrightarrow> b < n \<Longrightarrow> ring_add n (ring_sub n a b) b = a"
  by (auto simp: ring_add_cases ring_sub_cases)

lemma ring_dist_sub: "a < n \<Longrightarrow> b < n \<Longrightarrow> ring_dist n (ring_sub n a b) a = b"
  using ring_dist_add [of "ring_sub n a b" n b] ring_sub_less [of n a b] by simp

lemma ring_sub_inj: "a < n \<Longrightarrow> b < n \<Longrightarrow> c < n \<Longrightarrow> ring_sub n a b = ring_sub n a c \<longleftrightarrow> b = c"
  by (auto simp: ring_sub_cases)

lemma ring_sub_add: "a < n \<Longrightarrow> b < n \<Longrightarrow> c \<le> b \<Longrightarrow> ring_sub n (ring_add n a b) c = ring_add n a (b - c)"
  by (auto simp: ring_add_cases ring_sub_cases)

lemma ring_add_add: "a < n \<Longrightarrow> b + c < n \<Longrightarrow> ring_add n (ring_add n a b) c = ring_add n a (b + c)"
  by (auto simp: ring_add_cases)

subsection \<open>The flows of the operations\<close>

datatype flow =
    FAll "bytes list"
  | FGather "bytes list" nat
  | FScatter "bytes list" nat
  | FBcast bytes nat
  | FBarrier
  | FP2P nat nat bytes
  | FNone

text \<open>Strides below \<open>2 ^ l\<close>, and the exponent of the stride at which a virtual rank receives.\<close>

primrec strides :: "nat \<Rightarrow> nat list" where
  "strides 0 = []"
| "strides (Suc l) = 2 ^ l # strides l"

primrec recv_level :: "nat \<Rightarrow> nat \<Rightarrow> nat" where
  "recv_level r 0 = 0"
| "recv_level r (Suc k) = (if r mod 2 ^ Suc k = 0 then Suc k else recv_level r k)"

definition bcast_sends :: "nat \<Rightarrow> string \<Rightarrow> bytes \<Rightarrow> nat \<Rightarrow> nat \<Rightarrow> nat \<Rightarrow> act list" where
  "bcast_sends n e v i r l =
     map (\<lambda>s. Snd (i, ring_add n i s, e) v) (filter (\<lambda>s. r + s < n) (strides l))"

fun bcast_levels :: "nat \<Rightarrow> nat" where
  "bcast_levels n = (if n < 2 then 0 else Suc (bcast_levels (n div 2)))"

declare bcast_levels.simps [simp del]

function barrier_offsets :: "nat \<Rightarrow> nat \<Rightarrow> nat list" where
  "barrier_offsets n k = (if k = 0 \<or> n \<le> k then [] else k # barrier_offsets n (2 * k))"
  by pat_completeness auto

termination
  by (relation "measure (\<lambda>(n, k). n - k)") auto

declare barrier_offsets.simps [simp del]

definition barrier_round :: "nat \<Rightarrow> string \<Rightarrow> nat \<Rightarrow> nat \<Rightarrow> act list" where
  "barrier_round n e i k = [Snd (i, ring_add n i k, e) [], Rcv (ring_sub n i k, i, e)]"

fun flow_trace :: "nat \<Rightarrow> string \<Rightarrow> flow \<Rightarrow> nat \<Rightarrow> act list" where
  "flow_trace n e (FAll xs) i =
     map (\<lambda>j. Snd (i, j, e) (xs ! i)) (filter (\<lambda>j. j \<noteq> i) [0..<n]) @
     map (\<lambda>j. Rcv (j, i, e)) (filter (\<lambda>j. j \<noteq> i) [0..<n])"
| "flow_trace n e (FGather xs root) i =
     (if i = root then map (\<lambda>j. Rcv (j, i, e)) (filter (\<lambda>j. j \<noteq> i) [0..<n])
      else [Snd (i, root, e) (xs ! i)])"
| "flow_trace n e (FScatter xs root) i =
     (if i = root then map (\<lambda>j. Snd (i, j, e) (xs ! j)) (filter (\<lambda>j. j \<noteq> i) [0..<n])
      else [Rcv (root, i, e)])"
| "flow_trace n e (FBcast v root) i =
     (let r = ring_dist n root i; k = bcast_levels n in
      if r = 0 then bcast_sends n e v i r (Suc k)
      else let l = recv_level r k in Rcv (ring_sub n i (2 ^ l), i, e) # bcast_sends n e v i r l)"
| "flow_trace n e FBarrier i = concat (map (barrier_round n e i) (barrier_offsets n 1))"
| "flow_trace n e (FP2P s d v) i = (if i = s then [Snd (s, d, e) v] else if i = d then [Rcv (s, d, e)] else [])"
| "flow_trace n e FNone i = []"

fun flow_value :: "flow \<Rightarrow> msg \<Rightarrow> bytes" where
  "flow_value (FAll xs) (s, d, _) = xs ! s"
| "flow_value (FGather xs root) (s, d, _) = xs ! s"
| "flow_value (FScatter xs root) (s, d, _) = xs ! d"
| "flow_value (FBcast v root) _ = v"
| "flow_value FBarrier _ = []"
| "flow_value (FP2P s d v) _ = v"
| "flow_value FNone _ = []"

fun flow_stamp :: "nat \<Rightarrow> flow \<Rightarrow> msg \<Rightarrow> nat" where
  "flow_stamp n (FBcast v root) (s, d, _) = n - ring_dist n s d"
| "flow_stamp n FBarrier (s, d, _) = ring_dist n s d"
| "flow_stamp n _ _ = 0"

fun flow_wf :: "nat \<Rightarrow> flow \<Rightarrow> bool" where
  "flow_wf n (FAll xs) \<longleftrightarrow> True"
| "flow_wf n (FGather xs root) \<longleftrightarrow> root < n"
| "flow_wf n (FScatter xs root) \<longleftrightarrow> root < n"
| "flow_wf n (FBcast v root) \<longleftrightarrow> root < n"
| "flow_wf n FBarrier \<longleftrightarrow> True"
| "flow_wf n (FP2P s d v) \<longleftrightarrow> s < n \<and> d < n \<and> s \<noteq> d"
| "flow_wf n FNone \<longleftrightarrow> True"

lemma flow_stamp_le: "0 < n \<Longrightarrow> flow_stamp n f m \<le> n"
  using ring_dist_less [of n "fst m" "fst (snd m)"]
  by (cases "(n, f, m)" rule: flow_stamp.cases) (auto intro: less_imp_le simp: less_imp_le)

lemma flow_fitsI:
  assumes "\<And>i m v. i < n \<Longrightarrow> Snd m v \<in> set (tr i) \<Longrightarrow> v = M m \<and> key_of m = e"
    and "\<And>i. i < n \<Longrightarrow> distinct (snds (tr i))" "\<And>i. i < n \<Longrightarrow> distinct (rcvs (tr i))"
    and "\<And>i m. i < n \<Longrightarrow> Rcv m \<in> set (tr i) \<Longrightarrow> fst m < n \<and> m \<in> set (snds (tr (fst m)))"
    and "\<And>i. i < n \<Longrightarrow> sorted_wrt (stamp_ok \<tau>) (tr i)"
  shows "flow_fits n {e} M \<tau> tr"
  using assms unfolding flow_fits_def by blast

lemma all_gather_fits: "flow_fits n {e} (flow_value (FAll xs)) (flow_stamp n (FAll xs)) (flow_trace n e (FAll xs))"
  by (rule flow_fitsI) (auto simp: sorted_wrt_append distinct_map inj_on_def)

lemma gather_fits:
  "root < n \<Longrightarrow>
    flow_fits n {e} (flow_value (FGather xs root)) (flow_stamp n (FGather xs root)) (flow_trace n e (FGather xs root))"
  by (rule flow_fitsI) (auto simp: distinct_map inj_on_def split: if_splits)

lemma scatter_fits:
  "root < n \<Longrightarrow>
    flow_fits n {e} (flow_value (FScatter xs root)) (flow_stamp n (FScatter xs root)) (flow_trace n e (FScatter xs root))"
  by (rule flow_fitsI) (auto simp: distinct_map inj_on_def split: if_splits)

lemma p2p_fits:
  "s < n \<Longrightarrow> d < n \<Longrightarrow> s \<noteq> d \<Longrightarrow>
    flow_fits n {e} (flow_value (FP2P s d v)) (flow_stamp n (FP2P s d v)) (flow_trace n e (FP2P s d v))"
  by (rule flow_fitsI) (auto split: if_splits)

subsection \<open>The binomial tree of the broadcast\<close>

lemma strides_mem: "s \<in> set (strides l) \<longleftrightarrow> (\<exists>j < l. s = 2 ^ j)"
  by (induction l) (auto simp: less_Suc_eq)

lemma strides_distinct: "distinct (strides l)"
  by (induction l) (auto simp: strides_mem)

lemma bcast_levels_bounds:
  "0 < n \<Longrightarrow> 2 ^ bcast_levels n \<le> n \<and> n < 2 * 2 ^ bcast_levels n"
proof (induction n rule: bcast_levels.induct)
  case (1 n)
  show ?case
  proof (cases "n < 2")
    case True
    with 1 show ?thesis by (simp add: bcast_levels.simps [of n])
  next
    case False
    with 1 have "2 ^ bcast_levels (n div 2) \<le> n div 2 \<and> n div 2 < 2 * 2 ^ bcast_levels (n div 2)" by simp
    with False show ?thesis by (simp add: bcast_levels.simps [of n]) linarith
  qed
qed

lemma recv_level_spec:
  "2 ^ recv_level r k dvd r" "recv_level r k \<le> k"
  "recv_level r k < j \<Longrightarrow> j \<le> k \<Longrightarrow> \<not> 2 ^ j dvd r"
proof (induction k)
  case (Suc k)
  { case 1 then show ?case using Suc by (auto simp: dvd_eq_mod_eq_0) }
  { case 2 then show ?case using Suc by (auto simp: le_SucI) }
  { case 3 then show ?case using Suc by (cases "j = Suc k") (auto simp: dvd_eq_mod_eq_0 split: if_splits) }
qed auto

lemma recv_level_le: "0 < r \<Longrightarrow> 2 ^ recv_level r k \<le> r"
  using recv_level_spec(1) [of r k] by (simp add: dvd_imp_le)

text \<open>The virtual rank a rank receives from sends at that stride.\<close>

lemma parent_level:
  assumes "0 < r" "r < n"
  defines "k \<equiv> bcast_levels n"
  defines "l \<equiv> recv_level r k"
  defines "p \<equiv> r - 2 ^ l"
  shows "p = 0 \<or> l < recv_level p k"
proof (rule ccontr)
  assume *: "\<not> ?thesis"
  have lk: "l \<le> k" "2 ^ l dvd r" using recv_level_spec(1,2) [of r k] by (auto simp: l_def)
  obtain q where q: "r = 2 ^ l * q" using lk(2) by (auto elim: dvdE)
  have p: "p = 2 ^ l * (q - 1)" using q by (simp add: p_def right_diff_distrib')
  have "q \<noteq> 0" "q \<noteq> 1" using q assms(1) * p by auto
  show False
  proof (cases "l = k")
    case True
    have "r < 2 ^ k * 2" using bcast_levels_bounds [of n] assms(1,2) by (simp add: k_def)
    then have "2 ^ k * q < 2 ^ k * 2" using q True by simp
    with \<open>q \<noteq> 0\<close> \<open>q \<noteq> 1\<close> show False by simp
  next
    case False
    with lk(1) have "\<not> 2 ^ Suc l dvd r" using recv_level_spec(3) [of r k "Suc l"] by (simp add: l_def)
    with q have "odd q" by auto
    then have "2 ^ Suc l dvd p" using p by auto
    with False lk(1) * recv_level_spec(3) [of p k "Suc l"] show False by auto
  qed
qed

lemma bcast_sends_mem:
  "a \<in> set (bcast_sends n e v i r l) \<longleftrightarrow> (\<exists>j < l. r + 2 ^ j < n \<and> a = Snd (i, ring_add n i (2 ^ j), e) v)"
  by (auto simp: bcast_sends_def strides_mem)

lemma bcast_sends_snds:
  "snds (bcast_sends n e v i r l) = map (\<lambda>s. (i, ring_add n i s, e)) (filter (\<lambda>s. r + s < n) (strides l))"
  "rcvs (bcast_sends n e v i r l) = []"
  by (simp_all add: bcast_sends_def)

lemma bcast_sends_distinct: "i < n \<Longrightarrow> distinct (snds (bcast_sends n e v i r l))"
  by (auto simp: bcast_sends_snds distinct_map strides_distinct inj_on_def ring_add_inj)

lemma bcast_sends_sorted: "sorted_wrt (stamp_ok \<tau>) (bcast_sends n e v i r l)"
  by (simp add: bcast_sends_def)

lemma bcast_parent_sends:
  assumes i: "i < n" and root: "root < n" and "ring_dist n root i \<noteq> 0"
  defines "r \<equiv> ring_dist n root i" and "k \<equiv> bcast_levels n"
  defines "p \<equiv> ring_sub n i (2 ^ recv_level r k)"
  shows "(p, i, e) \<in> set (snds (flow_trace n e (FBcast v root) p))" "p < n"
proof -
  let ?l = "recv_level r k"
  have r: "0 < r" "r < n" using assms by (auto simp: r_def)
  have i_eq: "i = ring_add n root r" using i root by (simp add: r_def)
  have l: "2 ^ ?l \<le> r" using recv_level_le r(1) by blast
  have p: "p = ring_add n root (r - 2 ^ ?l)"
    unfolding p_def by (subst i_eq) (use root r l in \<open>simp add: ring_sub_add\<close>)
  show "p < n" using i by (simp add: p_def)
  have rp: "ring_dist n root p = r - 2 ^ ?l" using p root r(2) by simp
  have dest: "ring_add n p (2 ^ ?l) = i" unfolding p_def using i r(2) l by simp
  have "?l \<le> k" using recv_level_spec(2) by blast
  have mem: "(p, i, e) \<in> set (snds (bcast_sends n e v p (r - 2 ^ ?l) m))" if "?l < m" for m
    using that dest r(2) l by (auto simp: set_snds bcast_sends_mem)
  show "(p, i, e) \<in> set (snds (flow_trace n e (FBcast v root) p))"
    using parent_level [OF r] mem \<open>?l \<le> k\<close> by (auto simp: rp Let_def k_def)
qed

lemma broadcast_fits:
  assumes root: "root < n"
  shows "flow_fits n {e} (flow_value (FBcast v root)) (flow_stamp n (FBcast v root)) (flow_trace n e (FBcast v root))"
proof (rule flow_fitsI)
  fix i assume i: "i < n"
  show "distinct (snds (flow_trace n e (FBcast v root) i))" using i by (auto simp: Let_def bcast_sends_distinct)
  show "distinct (rcvs (flow_trace n e (FBcast v root) i))" by (auto simp: Let_def bcast_sends_snds)
  let ?r = "ring_dist n root i"
  let ?l = "recv_level ?r (bcast_levels n)"
  have r: "?r < n" using i by simp
  have "flow_stamp n (FBcast v root) (ring_sub n i (2 ^ ?l), i, e) < flow_stamp n (FBcast v root) (i, ring_add n i (2 ^ j), e)"
    if "?r \<noteq> 0" "j < ?l" for j
  proof -
    have l: "2 ^ ?l < n" using recv_level_le [of ?r] that(1) r by (meson le_less_trans neq0_conv)
    have j: "(2 :: nat) ^ j < 2 ^ ?l" using that(2) by simp
    have "ring_dist n (ring_sub n i (2 ^ ?l)) i = 2 ^ ?l"
      using i l by (rule ring_dist_sub)
    moreover have "ring_dist n i (ring_add n i (2 ^ j)) = 2 ^ j" using i less_trans [OF j l] by simp
    ultimately show ?thesis unfolding flow_stamp.simps using j less_trans [OF j l] by (metis diff_less_mono2)
  qed
  then have "stamp_ok (flow_stamp n (FBcast v root)) (Rcv (ring_sub n i (2 ^ ?l), i, e)) a"
    if "?r \<noteq> 0" "a \<in> set (bcast_sends n e v i ?r ?l)" for a
    using that by (auto simp del: flow_stamp.simps simp: bcast_sends_mem)
  then show "sorted_wrt (stamp_ok (flow_stamp n (FBcast v root))) (flow_trace n e (FBcast v root) i)"
    by (cases "?r = 0") (simp_all add: Let_def bcast_sends_sorted del: flow_stamp.simps)
next
  fix i m assume i: "i < n" and m: "Rcv m \<in> set (flow_trace n e (FBcast v root) i)"
  let ?r = "ring_dist n root i"
  have "?r \<noteq> 0" "m = (ring_sub n i (2 ^ recv_level ?r (bcast_levels n)), i, e)"
    using m by (auto simp: Let_def bcast_sends_mem split: if_splits)
  then show "fst m < n \<and> m \<in> set (snds (flow_trace n e (FBcast v root) (fst m)))"
    using bcast_parent_sends [OF i root] by (simp del: flow_trace.simps)
next
  fix i m w assume "Snd m w \<in> set (flow_trace n e (FBcast v root) i)"
  then show "w = flow_value (FBcast v root) m \<and> key_of m = e"
    by (cases m) (auto simp: Let_def bcast_sends_mem split: if_splits)
qed

subsection \<open>The dissemination barrier\<close>

lemma barrier_offsets_bounds: "k' \<in> set (barrier_offsets n k) \<Longrightarrow> 0 < k' \<and> k \<le> k' \<and> k' < n"
proof (induction n k rule: barrier_offsets.induct)
  case (1 n k)
  then show ?case by (subst (asm) (2) barrier_offsets.simps) (fastforce split: if_splits)
qed

lemma barrier_offsets_sorted: "sorted_wrt (<) (barrier_offsets n k)"
proof (induction n k rule: barrier_offsets.induct)
  case (1 n k)
  then show ?case
    using barrier_offsets_bounds [of _ n "2 * k"] by (subst barrier_offsets.simps) fastforce
qed

lemma barrier_offsets_distinct: "distinct (barrier_offsets n k)"
  using barrier_offsets_sorted [of n k] by (simp add: strict_sorted_iff)

lemma barrier_trace_snds:
  "snds (concat (map (barrier_round n e i) ks)) = map (\<lambda>k. (i, ring_add n i k, e)) ks"
  "rcvs (concat (map (barrier_round n e i) ks)) = map (\<lambda>k. (ring_sub n i k, i, e)) ks"
  by (induction ks) (auto simp: barrier_round_def)

lemma barrier_trace_sorted:
  assumes "i < n" "sorted_wrt (<) ks" "\<And>k. k \<in> set ks \<Longrightarrow> k < n"
  shows "sorted_wrt (stamp_ok (flow_stamp n FBarrier)) (concat (map (barrier_round n e i) ks))"
  using assms(2,3)
proof (induction ks)
  case (Cons k ks)
  have "stamp_ok (flow_stamp n FBarrier) (Rcv (ring_sub n i k, i, e)) a" if "a \<in> set (barrier_round n e i k')" "k' \<in> set ks" for a k'
    using that Cons.prems assms(1) by (auto simp: barrier_round_def ring_dist_sub)
  then have "\<forall>a \<in> set (concat (map (barrier_round n e i) ks)).
      stamp_ok (flow_stamp n FBarrier) (Rcv (ring_sub n i k, i, e)) a"
    by (auto simp del: flow_stamp.simps)
  moreover have "sorted_wrt (stamp_ok (flow_stamp n FBarrier)) (concat (map (barrier_round n e i) ks))"
    using Cons by simp
  ultimately show ?case by (simp add: barrier_round_def [of n e i k] del: flow_stamp.simps set_concat)
qed simp

lemma barrier_fits:
  "flow_fits n {e} (flow_value FBarrier) (flow_stamp n FBarrier) (flow_trace n e FBarrier)"
proof (rule flow_fitsI)
  fix i assume i: "i < n"
  have less: "k < n" if "k \<in> set (barrier_offsets n 1)" for k using barrier_offsets_bounds that by blast
  show "distinct (snds (flow_trace n e FBarrier i))" "distinct (rcvs (flow_trace n e FBarrier i))"
    using i less unfolding flow_trace.simps barrier_trace_snds
    by (auto simp: distinct_map barrier_offsets_distinct inj_on_def ring_add_inj ring_sub_inj)
  show "sorted_wrt (stamp_ok (flow_stamp n FBarrier)) (flow_trace n e FBarrier i)"
    unfolding flow_trace.simps by (rule barrier_trace_sorted [OF i barrier_offsets_sorted less])
next
  fix i m assume i: "i < n" and m: "Rcv m \<in> set (flow_trace n e FBarrier i)"
  then obtain k where k: "k \<in> set (barrier_offsets n 1)" "m = (ring_sub n i k, i, e)"
    unfolding set_rcvs [symmetric] flow_trace.simps barrier_trace_snds by auto
  have "k < n" using barrier_offsets_bounds k(1) by blast
  with i k show "fst m < n \<and> m \<in> set (snds (flow_trace n e FBarrier (fst m)))"
    unfolding flow_trace.simps barrier_trace_snds by (auto intro!: image_eqI [of _ _ k])
next
  fix i m v assume "Snd m v \<in> set (flow_trace n e FBarrier i)"
  then show "v = flow_value FBarrier m \<and> key_of m = e" by (cases m) (auto simp: barrier_round_def)
qed

lemma flow_fits_wf:
  assumes "flow_wf n f"
  shows "flow_fits n {e} (flow_value f) (flow_stamp n f) (flow_trace n e f)"
proof (cases f)
  case FNone
  have "flow_trace n e FNone = (\<lambda>i. [])" by auto
  with FNone show ?thesis by (simp add: flow_fits_empty)
qed (use assms in \<open>simp_all only: flow_wf.simps simp_thms all_gather_fits gather_fits scatter_fits broadcast_fits barrier_fits p2p_fits\<close>)

subsection \<open>A sequence of flows\<close>

text \<open>The \<open>j\<close>-th flow uses the key \<open>es ! j\<close>.\<close>

fun flows_trace :: "nat \<Rightarrow> (string \<times> flow) list \<Rightarrow> nat \<Rightarrow> act list" where
  "flows_trace n [] i = []"
| "flows_trace n ((e, f) # fs) i = flow_trace n e f i @ flows_trace n fs i"

fun flows_value :: "(string \<times> flow) list \<Rightarrow> msg \<Rightarrow> bytes" where
  "flows_value [] m = []"
| "flows_value ((e, f) # fs) m = (if key_of m = e then flow_value f m else flows_value fs m)"

fun flows_stamp :: "nat \<Rightarrow> (string \<times> flow) list \<Rightarrow> msg \<Rightarrow> nat" where
  "flows_stamp n [] m = 0"
| "flows_stamp n ((e, f) # fs) m = (if key_of m = e then flow_stamp n f m else n + 1 + flows_stamp n fs m)"

lemma flows_fit:
  assumes "0 < n" "distinct (map fst fs)" "\<And>e f. (e, f) \<in> set fs \<Longrightarrow> flow_wf n f"
  shows "flow_fits n (set (map fst fs)) (flows_value fs) (flows_stamp n fs) (flows_trace n fs)"
  using assms(2,3)
proof (induction fs)
  case Nil
  have "flows_trace n [] = (\<lambda>i. [])" by auto
  then show ?case by (simp add: flow_fits_empty)
next
  case (Cons ef fs)
  obtain e f where [simp]: "ef = (e, f)" by (cases ef)
  have "flow_fits n (insert e (set (map fst fs))) (\<lambda>m. if key_of m = e then flow_value f m else flows_value fs m)
      (\<lambda>m. if key_of m = e then flow_stamp n f m else n + 1 + flows_stamp n fs m)
      (\<lambda>i. flow_trace n e f i @ flows_trace n fs i)"
    using Cons by (intro flow_fits_append flow_fits_wf flow_stamp_le assms(1)) auto
  moreover have "flows_value ((e, f) # fs) = (\<lambda>m. if key_of m = e then flow_value f m else flows_value fs m)"
    "flows_stamp n ((e, f) # fs) = (\<lambda>m. if key_of m = e then flow_stamp n f m else n + 1 + flows_stamp n fs m)"
    "flows_trace n ((e, f) # fs) = (\<lambda>i. flow_trace n e f i @ flows_trace n fs i)" by auto
  ultimately show ?case by simp
qed

end
