(* ===== verification/Collectives_Correct.thy ===== *)
theory Collectives_Correct
  imports Collectives Message_Flows
begin

text \<open>
  A program of collective and point-to-point operations, executed by all parties of a session in the
  same order. The theory computes the actions of every party from the code of the operations,
  interprets \<open>mesh_protocol\<close> on these programs, and states what they compute.
\<close>

subsection \<open>The contexts of a session\<close>

definition session_ctx :: "context_desc \<Rightarrow> nat \<Rightarrow> link_ctx" where
  "session_ctx desc i =
     \<lparr>ctx_desc = desc, ctx_rank = i, channels = session_channels (length (desc_parties desc)) i, counter = 0,
      p2p_counter = (\<lambda>_. 0), child_counter = 0, ctx_recv_timeout_ms = desc_recv_timeout_ms desc,
      stats = new_statistics, is_sub_world = False\<rparr>"

lemma create_session_eq:
  "create_session desc = Inr (map (session_ctx desc) [0..<length (desc_parties desc)])"
proof -
  let ?n = "length (desc_parties desc)"
  let ?f = "\<lambda>self ctxs. rbind (new_context desc self (session_channels ?n self) False) (\<lambda>c. Inr (ctxs @ [c]))"
  have "rfold ?f [0..<k] [] = Inr (map (session_ctx desc) [0..<k])" if "k \<le> ?n" for k
    using that
  proof (induction k)
    case (Suc k)
    then show ?case
      by (simp add: rfold_append new_context_def session_ctx_def session_channels_def enforce_def)
  qed simp
  then show ?thesis by (simp add: create_session_def Let_def)
qed

text \<open>Party \<open>i\<close>'s context, connected to all peers, after \<open>cnt\<close> collective operations and \<open>pc (s, d)\<close>
  messages from \<open>s\<close> to \<open>d\<close>.\<close>

definition linked :: "context_desc \<Rightarrow> nat \<Rightarrow> nat \<Rightarrow> (nat \<times> nat \<Rightarrow> nat) \<Rightarrow> nat \<Rightarrow> link_ctx \<Rightarrow> bool" where
  "linked desc n cnt pc i c \<longleftrightarrow>
     ctx_desc c = desc \<and> length (desc_parties desc) = n \<and> ctx_rank c = i \<and> i < n \<and>
     2 * n < 2 ^ 64 \<and>
     channels c = session_channels (n) i \<and> counter c = cnt mod 2 ^ 64 \<and>
     (\<forall>j < n. p2p_counter c (of_nat i, of_nat j) = pc (i, j) \<and> p2p_counter c (of_nat j, of_nat i) = pc (j, i))"

lemma linked_session:
  "length (desc_parties desc) = n \<Longrightarrow> i < n \<Longrightarrow> 2 * n < 2 ^ 64 \<Longrightarrow>
    linked desc n 0 (\<lambda>_. 0) i (session_ctx desc i)"
  by (simp add: linked_def session_ctx_def)

lemma linkedD:
  assumes "linked desc n cnt pc i c"
  shows "ctx_rank c = i" "world_size c = n" "i < n"
    "counter c = cnt mod 2 ^ 64" "desc_id (ctx_desc c) = desc_id desc" "length (channels c) = n"
    "j < n \<Longrightarrow> j \<noteq> i \<Longrightarrow> channels c ! j = Some j"
  using assms by (auto simp: linked_def world_size_def session_channels_def)

lemma linked_stats: "linked desc n cnt pc i c \<Longrightarrow> linked desc n cnt pc i (c\<lparr>stats := st\<rparr>)"
  by (simp add: linked_def)

lemma unat_rank: "m < 2 ^ 64 \<Longrightarrow> unat (of_nat m :: u64) = m"
  by (rule unat_of_nat_small) simp

lemma size_t_sub: "k \<le> n \<Longrightarrow> (of_nat i :: u64) - of_nat k + of_nat n = of_nat (i + n - k)"
  by (simp add: of_nat_diff)

lemma linked_ranks:
  assumes "linked desc n cnt pc i c" "k \<le> n"
  shows "next_rank c k = ring_add (n) i k"
    "prev_rank c k = ring_sub (n) i k"
proof -
  have "2 * n < 2 ^ 64" "i < n" using assms by (auto simp: linked_def)
  then have n: "i + k < 2 ^ 64" "i + n - k < 2 ^ 64" using assms(2) by linarith+
  show "next_rank c k = ring_add n i k"
    unfolding next_rank_def linkedD(1,2) [OF assms(1)] of_nat_add [symmetric] unat_rank [OF n(1)] by (simp add: ring_add_def)
  show "prev_rank c k = ring_sub n i k"
    unfolding prev_rank_def linkedD(1,2) [OF assms(1)] size_t_sub [OF assms(2)] unat_rank [OF n(2)] by (simp add: ring_sub_def)
qed

lemma ring_offset_eq: "root < n \<Longrightarrow> i < n \<Longrightarrow> 2 * n < 2 ^ 64 \<Longrightarrow> ring_offset root i n = ring_dist n root i"
  using unat_rank [of "i + n - root"] size_t_sub [of root n i] by (simp add: ring_offset_def ring_dist_def del: of_nat_diff)

lemma runs_send:
  assumes "linked desc n cnt pc i c" "j < n" "j \<noteq> i"
  shows "\<exists>c'. runs M i (send_async_internal j e v) c [Snd (i, j, e) v] () c' \<and> linked desc n cnt pc i c'"
  using assms
  by (auto simp: runs_def send_async_internal_def party_bind_def party_get_def party_enforce_def party_return_def
      peer_channel_def party_lift_def party_update_def at_idx_def linkedD linked_stats)

lemma runs_recv:
  assumes "linked desc n cnt pc i c" "j < n" "j \<noteq> i"
  shows "\<exists>c'. runs M i (recv_internal j e) c [Rcv (j, i, e)] (M (j, i, e)) c' \<and> linked desc n cnt pc i c'"
  using assms
  by (auto simp: runs_def recv_internal_def party_bind_def party_get_def party_enforce_def party_return_def
      peer_channel_def party_lift_def party_update_def at_idx_def linkedD linked_stats)

definition event_key :: "context_desc \<Rightarrow> nat \<Rightarrow> string \<Rightarrow> string" where
  "event_key desc cnt ty = desc_id desc @ '':'' @ to_string (cnt mod 2 ^ 64) @ '':'' @ ty"

lemma runs_new_event:
  assumes "linked desc n cnt pc i c"
  shows "\<exists>c'. runs M i (new_event ty) c [] (event_key desc (cnt + 1) ty) c' \<and> linked desc n (cnt + 1) pc i c'"
  using assms
  unfolding runs_def new_event_def next_id_def party_bind_def party_update_def party_return_def event_key_def linked_def Let_def
  by (simp only: prog_bind.simps run.simps split_conv fst_conv snd_conv link_ctx.simps mod_add_left_eq append_assoc) auto

text \<open>A description of three parties.\<close>

definition demo_desc :: context_desc where
  "demo_desc = default_context_desc\<lparr>desc_parties :=
     [\<lparr>party_id = ''alice'', party_host = ''a''\<rparr>, \<lparr>party_id = ''bob'', party_host = ''b''\<rparr>,
      \<lparr>party_id = ''carol'', party_host = ''c''\<rparr>]\<rparr>"

subsection \<open>The actions of each operation\<close>

text \<open>Rules for the runs of linked contexts: \<open>ends\<close> hides the context an operation leaves behind.\<close>

definition ends :: "(msg \<Rightarrow> bytes) \<Rightarrow> nat \<Rightarrow> (link_ctx, 'a) party \<Rightarrow> link_ctx \<Rightarrow> act list \<Rightarrow> 'a \<Rightarrow> (link_ctx \<Rightarrow> bool) \<Rightarrow> bool" where
  "ends M i m c t x I \<longleftrightarrow> (\<exists>c'. runs M i m c t x c' \<and> I c')"

lemma ends_return: "I c \<Longrightarrow> ends M i (party_return x) c [] x I"
  by (auto simp: ends_def intro: runs_return)

lemma ends_bind:
  "ends M i m c t x J \<Longrightarrow> (\<And>c. J c \<Longrightarrow> ends M i (f x) c u y I) \<Longrightarrow> ends M i (party_bind m f) c (t @ u) y I"
  unfolding ends_def by (blast intro: runs_bind)

lemma ends_get: "ends M i (f (g c)) c t y I \<Longrightarrow> ends M i (party_bind (party_get g) f) c t y I"
  unfolding ends_def using runs_bind [OF runs_get, of M i f g c t y] by auto

lemma ends_enforce: "b \<Longrightarrow> ends M i (f ()) c t y I \<Longrightarrow> ends M i (party_bind (party_enforce b) f) c t y I"
  unfolding ends_def using runs_bind [OF runs_enforce [of b M i c], of f t y] by auto

lemma ends_map:
  "(\<And>j c. j \<in> set js \<Longrightarrow> I c \<Longrightarrow> ends M i (f j) c (t j) (x j) I) \<Longrightarrow> I c \<Longrightarrow>
    ends M i (party_map f js) c (concat (map t js)) (map x js) I"
  unfolding ends_def by (rule runs_map)

lemma ends_send:
  "linked desc n cnt pc i c \<Longrightarrow> j < n \<Longrightarrow> j \<noteq> i \<Longrightarrow>
    ends M i (send_async_internal j e v) c [Snd (i, j, e) v] () (linked desc n cnt pc i)"
  unfolding ends_def by (rule runs_send)

lemma ends_recv:
  "linked desc n cnt pc i c \<Longrightarrow> j < n \<Longrightarrow> j \<noteq> i \<Longrightarrow> M (j, i, e) = v \<Longrightarrow>
    ends M i (recv_internal j e) c [Rcv (j, i, e)] v (linked desc n cnt pc i)"
  unfolding ends_def using runs_recv by blast

lemma ends_new_event:
  "linked desc n cnt pc i c \<Longrightarrow>
    ends M i (new_event ty) c [] (event_key desc (cnt + 1) ty) (linked desc n (cnt + 1) pc i)"
  unfolding ends_def by (rule runs_new_event)

lemma ends_mono: "ends M i m c t x J \<Longrightarrow> (\<And>c. J c \<Longrightarrow> I c) \<Longrightarrow> ends M i m c t x I"
  unfolding ends_def by blast

lemma ends_seq:
  "ends M i m c t x J \<Longrightarrow> t @ u = w \<Longrightarrow> (\<And>c. J c \<Longrightarrow> ends M i (f x) c u y I) \<Longrightarrow>
    ends M i (party_bind m f) c w y I"
  using ends_bind [of M i m c t x J f u y I] by simp

lemma ends_event:
  assumes "linked desc n cnt pc i c"
    and "\<And>c. linked desc n (cnt + 1) pc i c \<Longrightarrow> ends M i (f (event_key desc (cnt + 1) ty)) c t y I"
  shows "ends M i (party_bind (new_event ty) f) c t y I"
  by (rule ends_seq [OF ends_new_event [OF assms(1)]]) (use assms(2) in simp_all)

text \<open>The loops of sends to, and receives from, all other ranks.\<close>

lemma ends_send_all:
  assumes "linked desc n cnt pc i c"
  shows "ends M i (party_map (\<lambda>j. if j = i then party_return () else send_async_internal j e (v j))
      [0..<n]) c
    (map (\<lambda>j. Snd (i, j, e) (v j)) (filter (\<lambda>j. j \<noteq> i) [0..<n]))
    (map (\<lambda>_. ()) [0..<n]) (linked desc n cnt pc i)"
  unfolding concat_skip [symmetric] using assms
  by (intro ends_map) (auto intro: ends_return ends_send)

lemma ends_recv_all:
  assumes "linked desc n cnt pc i c" and "\<And>j. j < n \<Longrightarrow> j \<noteq> i \<Longrightarrow> M (j, i, e) = xs ! j"
    and "length xs = n" "xs ! i = x"
  shows "ends M i (party_map (\<lambda>j. if j = i then party_return x else recv_internal j e)
      [0..<n]) c
    (map (\<lambda>j. Rcv (j, i, e)) (filter (\<lambda>j. j \<noteq> i) [0..<n])) xs (linked desc n cnt pc i)"
proof -
  have "xs = map (\<lambda>j. xs ! j) [0..<n]" using assms(3) by (metis map_nth)
  moreover have "ends M i (party_map (\<lambda>j. if j = i then party_return x else recv_internal j e) [0..<n]) c
    (map (\<lambda>j. Rcv (j, i, e)) (filter (\<lambda>j. j \<noteq> i) [0..<n])) (map (\<lambda>j. xs ! j) [0..<n]) (linked desc n cnt pc i)"
    unfolding concat_skip [symmetric] using assms
    by (intro ends_map) (auto intro: ends_return ends_recv)
  ultimately show ?thesis by metis
qed

definition fits_flow :: "(msg \<Rightarrow> bytes) \<Rightarrow> string \<Rightarrow> flow \<Rightarrow> bool" where
  "fits_flow M e f \<longleftrightarrow> (\<forall>s d. M (s, d, e) = flow_value f (s, d, e))"

lemma all_gather_ends:
  assumes "linked desc n cnt pc i c" "length xs = n"
    and "fits_flow M (event_key desc (cnt + 1) ''ALLGATHER'') (FAll xs)"
  shows "ends M i (all_gather_impl (xs ! i)) c
    (flow_trace (n) (event_key desc (cnt + 1) ''ALLGATHER'') (FAll xs) i) xs
    (linked desc n (cnt + 1) pc i)"
  unfolding all_gather_impl_def flow_trace.simps
proof (intro ends_event [OF assms(1)] ends_get)
  fix c assume c: "linked desc n (cnt + 1) pc i c"
  show "ends M i (party_bind (party_map (\<lambda>idx. if idx = ctx_rank c then party_return ()
        else send_async_internal idx (event_key desc (cnt + 1) ''ALLGATHER'') (xs ! i)) [0..<world_size c])
      (\<lambda>_. party_map (\<lambda>idx. if idx = ctx_rank c then party_return (xs ! i)
        else recv_internal idx (event_key desc (cnt + 1) ''ALLGATHER'')) [0..<world_size c])) c
    (map (\<lambda>j. Snd (i, j, event_key desc (cnt + 1) ''ALLGATHER'') (xs ! i)) (filter (\<lambda>j. j \<noteq> i) [0..<n]) @
     map (\<lambda>j. Rcv (j, i, event_key desc (cnt + 1) ''ALLGATHER'')) (filter (\<lambda>j. j \<noteq> i) [0..<n])) xs
    (linked desc n (cnt + 1) pc i)"
    unfolding linkedD(1,2) [OF c] using assms(2,3)
    by (intro ends_bind [OF ends_send_all [OF c]] ends_recv_all) (auto simp: fits_flow_def)
qed

lemma gather_ends:
  assumes "linked desc n cnt pc i c" "length xs = n" "root < n"
    and "fits_flow M (event_key desc (cnt + 1) ''GATHER'') (FGather xs root)"
  shows "ends M i (gather_impl (xs ! i) root) c
    (flow_trace (n) (event_key desc (cnt + 1) ''GATHER'') (FGather xs root) i)
    (if i = root then xs else []) (linked desc n (cnt + 1) pc i)"
  unfolding gather_impl_def
proof (intro ends_event [OF assms(1)] ends_get)
  fix c assume c: "linked desc n (cnt + 1) pc i c"
  let ?e = "event_key desc (cnt + 1) ''GATHER''"
  have "ends M i (party_bind (send_async_internal root ?e (xs ! i)) (\<lambda>_. party_return [])) c
      ([Snd (i, root, ?e) (xs ! i)] @ []) [] (linked desc n (cnt + 1) pc i)" if "root \<noteq> i"
    using assms(3) that by (intro ends_bind [OF ends_send [OF c]]) (auto intro: ends_return)
  moreover have "ends M i (party_map (\<lambda>idx. if idx = i then party_return (xs ! i) else recv_internal idx ?e)
      [0..<n]) c
      (map (\<lambda>j. Rcv (j, i, ?e)) (filter (\<lambda>j. j \<noteq> i) [0..<n])) xs (linked desc n (cnt + 1) pc i)"
    using assms(2,4) by (intro ends_recv_all [OF c]) (auto simp: fits_flow_def)
  ultimately show "ends M i (if root = ctx_rank c
      then party_map (\<lambda>idx. if idx = ctx_rank c then party_return (xs ! i) else recv_internal idx ?e) [0..<world_size c]
      else party_bind (send_async_internal root ?e (xs ! i)) (\<lambda>_. party_return [])) c
    (flow_trace (n) ?e (FGather xs root) i) (if i = root then xs else [])
    (linked desc n (cnt + 1) pc i)"
    unfolding linkedD(1,2) [OF c] by auto
qed

lemma scatter_ends:
  assumes "linked desc n cnt pc i c" "root < n"
    and "i = root \<Longrightarrow> length xs = n \<and> xs = ys"
    and "fits_flow M (event_key desc (cnt + 1) ''SCATTER'') (FScatter ys root)"
  shows "ends M i (scatter xs root) c
    (flow_trace (n) (event_key desc (cnt + 1) ''SCATTER'') (FScatter ys root) i)
    (ys ! i) (linked desc n (cnt + 1) pc i)"
  unfolding scatter_def
proof (intro ends_event [OF assms(1)] ends_get)
  fix c assume c: "linked desc n (cnt + 1) pc i c"
  let ?e = "event_key desc (cnt + 1) ''SCATTER''"
  have "ends M i (party_bind (party_enforce (length xs = n)) (\<lambda>_.
       party_bind (party_map (\<lambda>idx. if idx = i then party_return ()
                                     else send_async_internal idx ?e (xs ! idx)) [0..<n]) (\<lambda>_.
       party_return (xs ! root)))) c
      (map (\<lambda>j. Snd (i, j, ?e) (xs ! j)) (filter (\<lambda>j. j \<noteq> i) [0..<n]) @ []) (xs ! root) (linked desc n (cnt + 1) pc i)"
    if "i = root" using assms(3) [OF that]
    by (intro ends_enforce ends_bind [OF ends_send_all [OF c]]) (auto intro: ends_return)
  moreover have "ends M i (recv_internal root ?e) c [Rcv (root, i, ?e)] (ys ! i) (linked desc n (cnt + 1) pc i)"
    if "i \<noteq> root" using that assms(2,4) by (intro ends_recv [OF c]) (auto simp: fits_flow_def)
  ultimately show "ends M i (if root = ctx_rank c then
       party_bind (party_enforce (length xs = world_size c)) (\<lambda>_.
       party_bind (party_map (\<lambda>idx. if idx = ctx_rank c then party_return ()
                                     else send_async_internal idx ?e (xs ! idx)) [0..<world_size c]) (\<lambda>_.
       party_return (xs ! root)))
     else recv_internal root ?e) c (flow_trace n ?e (FScatter ys root) i) (ys ! i) (linked desc n (cnt + 1) pc i)"
    unfolding linkedD(1,2) [OF c] using assms(3) by auto
qed

lemma half_stride: "2 ^ l \<le> n \<Longrightarrow> (2 :: nat) ^ (l - 1) \<le> n"
  using power_increasing [of "l - 1" l "2 :: nat"] by linarith

lemma bcast_unfold_sent:
  assumes "linked desc n cnt pc i c" "0 < s"
    and "ends M i (party_bind (if r + s < n then send_async_internal (next_rank c s) e v else party_return ())
      (\<lambda>_. broadcast_loop e r (s div 2) True v)) c t y I"
  shows "ends M i (broadcast_loop e r s True v) c t y I"
  using assms by (subst broadcast_loop.simps) (auto intro!: ends_get simp: linkedD(2))

lemma bcast_send_ends:
  assumes "linked desc n cnt pc i c" "2 ^ (l - 1) \<le> n"
  shows "ends M i (broadcast_loop e r (if l = 0 then 0 else 2 ^ (l - 1)) True v) c
    (bcast_sends (n) e v i r l) v (linked desc n cnt pc i)"
  using assms
proof (induction l arbitrary: c)
  case 0
  then show ?case by (simp add: broadcast_loop.simps bcast_sends_def ends_return)
next
  case (Suc l)
  let ?half = "if l = 0 then 0 else 2 ^ (l - 1) :: nat"
  have half: "2 ^ l div 2 = ?half" by (cases l) simp_all
  have i: "i < n" using Suc.prems(1) by (rule linkedD)
  have rank: "next_rank c (2 ^ l) = ring_add n i (2 ^ l)" using linked_ranks(1) [OF Suc.prems(1)] Suc.prems(2) by simp
  have ne: "ring_add n i (2 ^ l) \<noteq> i" if "r + 2 ^ l < n"
    using i that by (intro ring_add_ne) simp_all
  have "2 ^ (l - 1) \<le> n" using half_stride [of l n] Suc.prems(2) by simp
  then have rest: "ends M i (broadcast_loop e r ?half True v) c (bcast_sends n e v i r l) v (linked desc n cnt pc i)"
    if "linked desc n cnt pc i c" for c using Suc.IH that by blast
  have "ends M i (party_bind (if r + 2 ^ l < n then send_async_internal (ring_add n i (2 ^ l)) e v else party_return ())
      (\<lambda>_. broadcast_loop e r ?half True v)) c
    ((if r + 2 ^ l < n then [Snd (i, ring_add n i (2 ^ l), e) v] else []) @ bcast_sends n e v i r l) v (linked desc n cnt pc i)"
    by (rule ends_bind [of _ _ _ _ _ _ "linked desc n cnt pc i"])
      (use Suc.prems(1) i ne rest in \<open>auto intro: ends_send ends_return\<close>)
  moreover have "bcast_sends n e v i r (Suc l) =
      (if r + 2 ^ l < n then [Snd (i, ring_add n i (2 ^ l), e) v] else []) @ bcast_sends n e v i r l"
    by (simp add: bcast_sends_def)
  ultimately have "ends M i (broadcast_loop e r (2 ^ l) True v) c (bcast_sends n e v i r (Suc l)) v (linked desc n cnt pc i)"
    by (intro bcast_unfold_sent [OF Suc.prems(1)]) (simp_all only: half rank zero_less_power zero_less_numeral)
  then show ?case by simp
qed

lemma bcast_recv_ends:
  assumes "linked desc n cnt pc i c" "2 ^ k \<le> n" "0 < r" "r < n"
    and "M (ring_sub (n) i (2 ^ recv_level r k), i, e) = v"
  shows "ends M i (broadcast_loop e r (2 ^ k) False x) c
    (Rcv (ring_sub (n) i (2 ^ recv_level r k), i, e) #
     bcast_sends (n) e v i r (recv_level r k)) v (linked desc n cnt pc i)"
  using assms(2,5)
proof (induction k)
  have i: "i < n" using assms(1) by (rule linkedD)
  have recv: "ends M i (broadcast_loop e r (2 ^ k) False x) c
      ([Rcv (ring_sub n i (2 ^ k), i, e)] @ bcast_sends n e v i r k) v (linked desc n cnt pc i)"
    if "r mod 2 ^ k = 0" "2 ^ k \<le> n" "M (ring_sub n i (2 ^ k), i, e) = v" for k
  proof -
    have half: "2 ^ k div 2 = (if k = 0 then 0 else 2 ^ (k - 1) :: nat)" by (cases k) simp_all
    have rank: "prev_rank c (2 ^ k) = ring_sub n i (2 ^ k)" using linked_ranks(2) [OF assms(1)] that(2) by simp
    have "2 ^ k dvd r" using that(1) by auto
    then have "2 ^ k \<le> r" using assms(3) by (rule dvd_imp_le)
    then have less: "2 ^ k < n" using assms(4) by linarith
    have "ring_sub n i (2 ^ k) \<noteq> i" using i less by (intro ring_sub_ne) simp_all
    moreover have "2 ^ (k - 1) \<le> n" using that(2) by (rule half_stride)
    moreover have "ring_sub n i (2 ^ k) < n" using i by simp
    ultimately have "ends M i (party_bind (recv_internal (ring_sub n i (2 ^ k)) e)
        (\<lambda>output. broadcast_loop e r (2 ^ k div 2) True output)) c
      ([Rcv (ring_sub n i (2 ^ k), i, e)] @ bcast_sends n e v i r k) v (linked desc n cnt pc i)"
      unfolding half using that(3)
      by (intro ends_bind [OF ends_recv [OF assms(1), of _ _ _ v]] bcast_send_ends) simp_all
    then show ?thesis
      using that(1) by (simp add: broadcast_loop.simps [of e r "2 ^ k" False x] rank ends_get)
  qed
  { case 0 then show ?case using recv [of 0] by simp }
  { case (Suc k)
    have "2 ^ k \<le> n" using Suc.prems(1) by simp
    with Suc recv [of "Suc k"] show ?case
      by (cases "r mod 2 ^ Suc k = 0") (auto simp: broadcast_loop.simps [of e r "2 * 2 ^ k" False x]) }
qed

lemma bit_floor_levels: "0 < n \<Longrightarrow> bit_floor n = 2 ^ bcast_levels n"
proof (induction n rule: bit_floor.induct)
  case (1 n)
  then show ?case by (cases "n = 1") (auto simp: bit_floor.simps [of n] bcast_levels.simps [of n] bit_floor.simps [of "Suc 0"] bcast_levels.simps [of "Suc 0"])
qed

lemma broadcast_ends:
  assumes "linked desc n cnt pc i c" "root < n" "i = root \<Longrightarrow> x = v"
    and "fits_flow M (event_key desc (cnt + 1) ''BCAST'') (FBcast v root)"
  shows "ends M i (broadcast x root) c
    (flow_trace (n) (event_key desc (cnt + 1) ''BCAST'') (FBcast v root) i) v
    (linked desc n (cnt + 1) pc i)"
  unfolding broadcast_def
proof (intro ends_event [OF assms(1)] ends_get)
  fix c assume c: "linked desc n (cnt + 1) pc i c"
  let ?e = "event_key desc (cnt + 1) ''BCAST''"
  let ?r = "ring_dist n root i" and ?k = "bcast_levels n"
  have i: "i < n" "2 * n < 2 ^ 64" using c by (auto simp: linked_def)
  have k: "2 ^ ?k \<le> n" using bcast_levels_bounds [of n] i by simp
  have r0: "?r = 0 \<longleftrightarrow> i = root" using i(1) assms(2) by (auto simp: ring_dist_cases)
  have "ends M i (broadcast_loop ?e ?r (2 ^ ?k) (?r = 0) x) c (flow_trace n ?e (FBcast v root) i) v (linked desc n (cnt + 1) pc i)"
  proof (cases "?r = 0")
    case True
    then show ?thesis using bcast_send_ends [OF c, of "Suc ?k" M ?e 0 v] k r0 assms(3) by simp
  next
    case False
    then show ?thesis using bcast_recv_ends [OF c k, of ?r M ?e v x] i assms(4) by (simp add: fits_flow_def Let_def)
  qed
  then show "ends M i (let vrank = ring_offset root (ctx_rank c) (world_size c)
      in broadcast_loop ?e vrank (bit_floor (world_size c)) (vrank = 0) x) c
    (flow_trace n ?e (FBcast v root) i) v (linked desc n (cnt + 1) pc i)"
    using i assms(2) by (simp add: linkedD(1,2) [OF c] ring_offset_eq bit_floor_levels Let_def del: flow_trace.simps)
qed

lemma barrier_loop_ends:
  assumes "linked desc n cnt pc i c" "0 < k"
  shows "ends M i (barrier_loop e (n) k) c
    (concat (map (barrier_round (n) e i) (barrier_offsets (n) k))) ()
    (linked desc n cnt pc i)"
  using assms
proof (induction e n k arbitrary: c rule: barrier_loop.induct)
  case (1 e n k)
  show ?case
  proof (cases "n \<le> k")
    case True
    with 1(3) show ?thesis by (simp add: barrier_loop.simps [of e n k] barrier_offsets.simps [of n k] ends_return 1(2))
  next
    case False
    have i: "i < n" using 1(2) by (rule linkedD)
    have "ring_add n i k \<noteq> i" "ring_sub n i k \<noteq> i"
      using i False 1(3) by (simp_all add: ring_add_ne ring_sub_ne)
    moreover have "ring_add n i k < n" "ring_sub n i k < n" using i by simp_all
    ultimately have "ends M i (party_bind (send_async_internal (ring_add n i k) e []) (\<lambda>_.
          party_bind (recv_internal (ring_sub n i k) e) (\<lambda>_. barrier_loop e n (2 * k)))) c
        ([Snd (i, ring_add n i k, e) []] @ [Rcv (ring_sub n i k, i, e)] @
         concat (map (barrier_round n e i) (barrier_offsets n (2 * k)))) () (linked desc n cnt pc i)"
      using 1(2,3) False
      by (intro ends_bind [OF ends_send] ends_bind [OF ends_recv [OF _ _ _ refl]] 1(1)) auto
    with False 1(3) linked_ranks [OF 1(2), of k] show ?thesis
      by (simp add: barrier_loop.simps [of e n k] barrier_offsets.simps [of n k] barrier_round_def [of n e i k] ends_get)
  qed
qed

lemma barrier_ends:
  assumes "linked desc n cnt pc i c"
  shows "ends M i barrier c
    (flow_trace (n) (event_key desc (cnt + 1) ''BARRIER'') FBarrier i) ()
    (linked desc n (cnt + 1) pc i)"
  unfolding barrier_def flow_trace.simps
  by (intro ends_event [OF assms] ends_get) (auto simp: linkedD(2) intro: barrier_loop_ends)

definition p2p_key :: "context_desc \<Rightarrow> nat \<Rightarrow> nat \<Rightarrow> nat \<Rightarrow> string" where
  "p2p_key desc k src dst = desc_id desc @ '':P2P-'' @ to_string k @ '':'' @ to_string src @ ''->'' @ to_string dst"

lemma rank_int_inj:
  assumes "i < n" "j < n" "n \<le> 2 ^ 32"
  shows "(of_nat i :: u32) = of_nat j \<longleftrightarrow> i = j"
proof -
  have "i < 2 ^ LENGTH(32)" "j < 2 ^ LENGTH(32)" using less_le_trans [OF assms(1,3)] less_le_trans [OF assms(2,3)] by simp_all
  from unat_of_nat_small [OF this(1)] unat_of_nat_small [OF this(2)] show ?thesis by metis
qed

lemma linked_p2p:
  assumes "linked desc n cnt pc i c" "src < n" "dst < n" "n \<le> 2 ^ 32"
  shows "linked desc n cnt (pc((src, dst) := m)) i (c\<lparr>p2p_counter := (p2p_counter c)((of_nat src, of_nat dst) := m)\<rparr>)"
proof -
  have "((of_nat a, of_nat b) = (of_nat src :: u32, of_nat dst :: u32)) = ((a, b) = (src, dst))" if "a < n" "b < n" for a b
    using rank_int_inj [OF that(1) assms(2,4)] rank_int_inj [OF that(2) assms(3,4)] by simp
  moreover have "i < n" "\<forall>j < n. p2p_counter c (of_nat i, of_nat j) = pc (i, j) \<and> p2p_counter c (of_nat j, of_nat i) = pc (j, i)"
    using assms(1) by (auto simp: linked_def)
  ultimately have "\<forall>j < n. ((p2p_counter c)((of_nat src, of_nat dst) := m)) (of_nat i, of_nat j) = (pc((src, dst) := m)) (i, j) \<and>
      ((p2p_counter c)((of_nat src, of_nat dst) := m)) (of_nat j, of_nat i) = (pc((src, dst) := m)) (j, i)"
    by (intro allI impI) (simp only: fun_upd_apply simp_thms)
  with assms(1) show ?thesis unfolding linked_def by (simp del: fun_upd_apply)
qed

lemma linked_p2p_other:
  "linked desc n cnt pc i c \<Longrightarrow> i \<noteq> src \<Longrightarrow> i \<noteq> dst \<Longrightarrow> linked desc n cnt (pc((src, dst) := m)) i c"
  unfolding linked_def by fastforce

lemma ends_next_p2p:
  assumes "linked desc n cnt pc i c" "i = src \<or> i = dst"
    and "src < n" "dst < n" "n \<le> 2 ^ 32" "pc (src, dst) + 1 < 2 ^ 31"
  shows "ends M i (next_p2p_id src dst) c [] (p2p_key desc (pc (src, dst) + 1) src dst)
    (linked desc n cnt (pc((src, dst) := pc (src, dst) + 1)) i)"
proof -
  have pc: "p2p_counter c (of_nat src, of_nat dst) = pc (src, dst)" using assms(1-4) by (auto simp: linked_def)
  have "linked desc n cnt (pc((src, dst) := pc (src, dst) + 1)) i
      (c\<lparr>p2p_counter := (p2p_counter c)((of_nat src, of_nat dst) := pc (src, dst) + 1)\<rparr>)"
    using assms(1,3-5) by (rule linked_p2p)
  moreover have "ctx_desc c = desc" using assms(1) by (simp add: linked_def)
  ultimately show ?thesis
    unfolding ends_def runs_def next_p2p_id_def party_bind_def party_get_def party_update_def p2p_key_def
    using assms(6) [folded not_le]
    by (simp only: prog_bind.simps run.simps split_conv pc if_False fst_conv snd_conv) blast
qed

lemma p2p_ends:
  assumes "linked desc n cnt pc i c" "src < n" "dst < n" "src \<noteq> dst" "n \<le> 2 ^ 32" "pc (src, dst) + 1 < 2 ^ 31"
  shows "i = src \<Longrightarrow> ends M i (ctx_send_async dst v) c [Snd (src, dst, p2p_key desc (pc (src, dst) + 1) src dst) v] ()
      (linked desc n cnt (pc((src, dst) := pc (src, dst) + 1)) i)"
    and "i = dst \<Longrightarrow> M (src, dst, p2p_key desc (pc (src, dst) + 1) src dst) = v \<Longrightarrow>
      ends M i (ctx_recv src) c [Rcv (src, dst, p2p_key desc (pc (src, dst) + 1) src dst)] v
      (linked desc n cnt (pc((src, dst) := pc (src, dst) + 1)) i)"
    and "i \<noteq> src \<Longrightarrow> i \<noteq> dst \<Longrightarrow> linked desc n cnt (pc((src, dst) := pc (src, dst) + 1)) i c"
proof -
  let ?e = "p2p_key desc (pc (src, dst) + 1) src dst"
  define J where "J = linked desc n cnt (pc((src, dst) := pc (src, dst) + 1)) i"
  note rank = linkedD(1) [OF assms(1)] and id = ends_next_p2p [OF assms(1) _ assms(2,3,5,6), of M, folded J_def]
  { assume i: "i = src"
    have "ends M i (party_bind (next_p2p_id i dst) (\<lambda>event. send_async_internal dst event v)) c ([] @ [Snd (i, dst, ?e) v]) () J"
      using id i assms(3,4) ends_send [of desc n cnt _ i _ dst M ?e v]
      by (intro ends_bind [where J = J]) (simp_all add: J_def)
    then show "ends M i (ctx_send_async dst v) c [Snd (src, dst, ?e) v] ()
        (linked desc n cnt (pc((src, dst) := pc (src, dst) + 1)) i)"
      using i by (simp add: ctx_send_async_def rank ends_get J_def) }
  { assume i: "i = dst" and v: "M (src, dst, ?e) = v"
    have "ends M i (party_bind (next_p2p_id src i) (\<lambda>event. recv_internal src event)) c ([] @ [Rcv (src, i, ?e)]) v J"
      using id i v assms(2,4) ends_recv [of desc n cnt _ i _ src M ?e v]
      by (intro ends_bind [where J = J]) (simp_all add: J_def)
    then show "ends M i (ctx_recv src) c [Rcv (src, dst, ?e)] v
        (linked desc n cnt (pc((src, dst) := pc (src, dst) + 1)) i)"
      using i by (simp add: ctx_recv_def rank ends_get J_def) }
  show "i \<noteq> src \<Longrightarrow> i \<noteq> dst \<Longrightarrow> linked desc n cnt (pc((src, dst) := pc (src, dst) + 1)) i c"
    using assms(1) by (rule linked_p2p_other)
qed

text \<open>The vector versions send what \<open>pack\<close> makes of a vector.\<close>

definition pack :: "(bytes list \<Rightarrow> bytes) \<Rightarrow> bytes list \<Rightarrow> bytes" where
  "pack ser xs = (if length xs = 1 then hd xs else ser xs)"

lemma unpack_ends:
  assumes "\<And>xs. deser (ser xs) = Inr xs" "\<And>xs. xs \<in> set xss \<Longrightarrow> length xs = m" "I c"
  shows "ends M i (unpack_outputs deser m (map ser xss)) c [] xss I"
  using assms(2,3)
proof (induction xss arbitrary: c)
  case Nil
  then show ?case by (simp add: unpack_outputs_def ends_return)
next
  case (Cons xs xss)
  have 1: "ends M i (party_bind (party_lift (deser (ser xs))) (\<lambda>outputs_i.
      party_bind (party_enforce (length outputs_i = m)) (\<lambda>_. party_return outputs_i))) c ([] @ []) xs I"
    using Cons.prems by (intro ends_bind [where J = I and x = xs])
      (auto simp: assms(1) party_lift_def intro!: ends_enforce ends_return)
  have "ends M i (unpack_outputs deser m (map ser (xs # xss))) c (([] @ []) @ [] @ []) (xs # xss) I"
    unfolding unpack_outputs_def list.map party_map.simps
    by (rule ends_bind [OF 1], rule ends_bind [where J = I])
      (use Cons in \<open>auto simp: unpack_outputs_def intro: ends_return\<close>)
  then show ?case by simp
qed

definition columns :: "bytes list list \<Rightarrow> bytes list list" where
  "columns xss = map (\<lambda>k. map (\<lambda>xs. xs ! k) xss) [0..<length (hd xss)]"

lemma pack_packed: "\<lbrakk>\<And>xs. xs \<in> set xss \<Longrightarrow> length xs = m; m \<noteq> 1\<rbrakk> \<Longrightarrow> map (pack ser) xss = map ser xss"
  by (auto simp: pack_def)

lemma columns_single:
  assumes "\<And>xs. xs \<in> set xss \<Longrightarrow> length xs = 1" "xss \<noteq> []"
  shows "columns xss = [map (pack ser) xss]"
proof -
  have "length (hd xss) = 1" using assms by simp
  moreover have "xs ! 0 = pack ser xs" if "xs \<in> set xss" for xs
    using assms(1) [OF that] by (cases xs) (auto simp: pack_def)
  ultimately show ?thesis by (simp add: columns_def)
qed

lemma columns_transpose:
  "\<lbrakk>\<And>xs. xs \<in> set xss \<Longrightarrow> length xs = m; xss \<noteq> []\<rbrakk> \<Longrightarrow> transpose_outputs m xss = columns xss"
  by (cases xss) (auto simp: columns_def transpose_outputs_def)

lemma all_gather_vector_ends:
  assumes "linked desc n cnt pc i c" "length xss = n" "\<And>xs. xs \<in> set xss \<Longrightarrow> length xs = m" "0 < m"
    and "\<And>xs. deser (ser xs) = Inr xs"
    and "fits_flow M (event_key desc (cnt + 1) ''ALLGATHER'') (FAll (map (pack ser) xss))"
  shows "ends M i (all_gather_vector_impl ser deser (xss ! i)) c
    (flow_trace n (event_key desc (cnt + 1) ''ALLGATHER'') (FAll (map (pack ser) xss)) i) (columns xss)
    (linked desc n (cnt + 1) pc i)"
proof -
  let ?I = "linked desc n (cnt + 1) pc i"
  define t where "t = flow_trace n (event_key desc (cnt + 1) ''ALLGATHER'') (FAll (map (pack ser) xss)) i"
  have i: "i < n" using assms(1) by (rule linkedD)
  then have len: "length (xss ! i) = m" "xss \<noteq> []" using assms(2,3) by auto
  then have ne: "xss ! i \<noteq> []" using assms(4) by auto
  have ag: "ends M i (all_gather_impl (pack ser (xss ! i))) c t (map (pack ser) xss) ?I"
    using all_gather_ends [OF assms(1) _ assms(6)] i assms(2) by (simp add: t_def)
  show ?thesis unfolding t_def [symmetric]
  proof (cases "m = 1")
    case True
    have "ends M i (party_bind (all_gather_impl (pack ser (xss ! i))) (\<lambda>output_buffer.
        party_bind (party_get world_size) (\<lambda>n.
        party_bind (party_enforce (length output_buffer = n)) (\<lambda>_.
        party_return [output_buffer])))) c (t @ []) [map (pack ser) xss] ?I"
      using assms(2) by (intro ends_bind [OF ag] ends_get ends_enforce ends_return) (auto simp: linkedD(2))
    moreover have "columns xss = [map (pack ser) xss]" using True assms(3) len(2) by (intro columns_single) auto
    ultimately show "ends M i (all_gather_vector_impl ser deser (xss ! i)) c t (columns xss) ?I"
      using True len(1) ne by (simp add: all_gather_vector_impl_def pack_def)
  next
    case False
    have pk: "map (pack ser) xss = map ser xss" using assms(3) False by (rule pack_packed)
    from False have ag': "ends M i (all_gather_impl (ser (xss ! i))) c t (map ser xss) ?I"
      using ag len(1) unfolding pk by (simp add: pack_def)
    have "ends M i (party_bind (all_gather_impl (ser (xss ! i))) (\<lambda>packed.
        party_bind (party_get world_size) (\<lambda>n.
        party_bind (party_enforce (length packed = n)) (\<lambda>_.
        party_bind (unpack_outputs deser m packed) (\<lambda>per_rank.
        party_return (transpose_outputs m per_rank)))))) c (t @ [] @ []) (transpose_outputs m xss) ?I"
      using assms(2,3,5)
      by (intro ends_bind [OF ag'] ends_get ends_enforce ends_bind [OF unpack_ends] ends_return) (auto simp: linkedD(2))
    moreover have "transpose_outputs m xss = columns xss" using assms(3) len(2) by (intro columns_transpose) auto
    ultimately show "ends M i (all_gather_vector_impl ser deser (xss ! i)) c t (columns xss) ?I"
      using False len(1) ne by (simp add: all_gather_vector_impl_def)
  qed
qed

lemma gather_vector_ends:
  assumes "linked desc n cnt pc i c" "length xss = n" "\<And>xs. xs \<in> set xss \<Longrightarrow> length xs = m" "0 < m" "root < n"
    and "\<And>xs. deser (ser xs) = Inr xs"
    and "fits_flow M (event_key desc (cnt + 1) ''GATHER'') (FGather (map (pack ser) xss) root)"
  shows "ends M i (gather_vector_impl ser deser (xss ! i) root) c
    (flow_trace n (event_key desc (cnt + 1) ''GATHER'') (FGather (map (pack ser) xss) root) i)
    (if i = root then columns xss else replicate m []) (linked desc n (cnt + 1) pc i)"
proof -
  let ?I = "linked desc n (cnt + 1) pc i"
  define t where "t = flow_trace n (event_key desc (cnt + 1) ''GATHER'') (FGather (map (pack ser) xss) root) i"
  have i: "i < n" using assms(1) by (rule linkedD)
  then have len: "length (xss ! i) = m" "xss \<noteq> []" using assms(2,3) by auto
  then have ne: "xss ! i \<noteq> []" using assms(4) by auto
  have ag: "ends M i (gather_impl (pack ser (xss ! i)) root) c t (if i = root then map (pack ser) xss else []) ?I"
    using gather_ends [OF assms(1) _ assms(5,7)] i assms(2) by (simp add: t_def)
  show ?thesis unfolding t_def [symmetric]
  proof (cases "m = 1")
    case True
    have "ends M i (party_bind (gather_impl (pack ser (xss ! i)) root) (\<lambda>output_buffer.
          if root = i then party_bind (party_enforce (length output_buffer = n)) (\<lambda>_. party_return [output_buffer])
          else party_bind (party_enforce (output_buffer = [])) (\<lambda>_. party_return [[]]))) c (t @ [])
        (if i = root then [map (pack ser) xss] else [[]]) ?I"
      using assms(2) by (intro ends_bind [OF ag]) (auto intro!: ends_enforce ends_return)
    moreover have "columns xss = [map (pack ser) xss]" using True assms(3) len(2) by (intro columns_single) auto
    ultimately show "ends M i (gather_vector_impl ser deser (xss ! i) root) c t
        (if i = root then columns xss else replicate m []) ?I"
      using True len(1) ne
      by (auto simp: gather_vector_impl_def pack_def linkedD(1,2) [OF assms(1)] intro!: ends_get)
  next
    case False
    have pk: "map (pack ser) xss = map ser xss" using assms(3) False by (rule pack_packed)
    from False have ag': "ends M i (gather_impl (ser (xss ! i)) root) c t (if i = root then map ser xss else []) ?I"
      using ag len(1) unfolding pk by (simp add: pack_def)
    have "ends M i (party_bind (gather_impl (ser (xss ! i)) root) (\<lambda>packed.
          if root = i then
            party_bind (party_enforce (length packed = n)) (\<lambda>_.
            party_bind (unpack_outputs deser m packed) (\<lambda>per_rank.
            party_return (transpose_outputs m per_rank)))
          else party_bind (party_enforce (packed = [])) (\<lambda>_. party_return (replicate m [])))) c (t @ [])
        (if i = root then transpose_outputs m xss else replicate m []) ?I"
    proof (rule ends_bind [OF ag'])
      fix c assume c: "?I c"
      have "ends M i (party_bind (unpack_outputs deser m (map ser xss)) (\<lambda>per_rank.
          party_return (transpose_outputs m per_rank))) c ([] @ []) (transpose_outputs m xss) ?I"
        using c assms(3,6) by (intro ends_bind [OF unpack_ends] ends_return) auto
      then show "ends M i (if root = i then
            party_bind (party_enforce (length (if i = root then map ser xss else []) = n)) (\<lambda>_.
            party_bind (unpack_outputs deser m (if i = root then map ser xss else [])) (\<lambda>per_rank.
            party_return (transpose_outputs m per_rank)))
          else party_bind (party_enforce ((if i = root then map ser xss else []) = [])) (\<lambda>_.
            party_return (replicate m []))) c [] (if i = root then transpose_outputs m xss else replicate m []) ?I"
        using assms(2) c by (auto intro!: ends_enforce ends_return)
    qed
    moreover have "transpose_outputs m xss = columns xss" using assms(3) len(2) by (intro columns_transpose) auto
    ultimately show "ends M i (gather_vector_impl ser deser (xss ! i) root) c t
        (if i = root then columns xss else replicate m []) ?I"
      using False len(1) ne
      by (auto simp: gather_vector_impl_def linkedD(1,2) [OF assms(1)] intro!: ends_get)
  qed
qed

end
