(* ===== verification/Collectives_Properties.thy ===== *)
theory Collectives_Properties
  imports Collectives_Correct
begin

text \<open>
  Programs of collective and point-to-point operations over a session of memory channels: they end in
  every interleaving, with the specified results. The locale \<open>mesh_protocol\<close> is interpreted on these
  programs. The theory also shows that the
  barrier synchronises.
\<close>

subsection \<open>Programs that all parties execute\<close>

text \<open>An operation together with what each rank passes to it.\<close>

datatype coll =
    AllGather "bytes list"
  | AllGatherV "bytes list list"
  | Gather "bytes list" nat
  | GatherV "bytes list list" nat
  | Scatter "bytes list list" nat
  | Broadcast "bytes list" nat
  | Barrier
  | P2P nat nat bytes

text \<open>What rank \<open>i\<close> executes.\<close>

fun coll_prog ::
  "(bytes list \<Rightarrow> bytes) \<Rightarrow> (bytes \<Rightarrow> bytes list result) \<Rightarrow> nat \<Rightarrow> coll \<Rightarrow> (link_ctx, bytes list list) party" where
  "coll_prog ser deser i (AllGather xs) = party_bind (all_gather_impl (xs ! i)) (\<lambda>out. party_return [out])"
| "coll_prog ser deser i (AllGatherV xss) = all_gather_vector_impl ser deser (xss ! i)"
| "coll_prog ser deser i (Gather xs root) = party_bind (gather_impl (xs ! i) root) (\<lambda>out. party_return [out])"
| "coll_prog ser deser i (GatherV xss root) = gather_vector_impl ser deser (xss ! i) root"
| "coll_prog ser deser i (Scatter xss root) = party_bind (scatter (xss ! i) root) (\<lambda>out. party_return [[out]])"
| "coll_prog ser deser i (Broadcast xs root) = party_bind (broadcast (xs ! i) root) (\<lambda>out. party_return [[out]])"
| "coll_prog ser deser i Barrier = party_bind barrier (\<lambda>_. party_return [])"
| "coll_prog ser deser i (P2P src dst v) =
     (if i = src then party_bind (ctx_send_async dst v) (\<lambda>_. party_return [])
      else if i = dst then party_bind (ctx_recv src) (\<lambda>out. party_return [[out]])
      else party_return [])"

text \<open>What it gets.\<close>

fun coll_spec :: "nat \<Rightarrow> coll \<Rightarrow> bytes list list" where
  "coll_spec i (AllGather xs) = [xs]"
| "coll_spec i (AllGatherV xss) = columns xss"
| "coll_spec i (Gather xs root) = [if i = root then xs else []]"
| "coll_spec i (GatherV xss root) = (if i = root then columns xss else replicate (length (hd xss)) [])"
| "coll_spec i (Scatter xss root) = [[xss ! root ! i]]"
| "coll_spec i (Broadcast xs root) = [[xs ! root]]"
| "coll_spec i Barrier = []"
| "coll_spec i (P2P src dst v) = (if i = dst then [[v]] else [])"

text \<open>Every rank passes an argument, the vectors have one length, ranks exist.\<close>

fun coll_wf :: "nat \<Rightarrow> coll \<Rightarrow> bool" where
  "coll_wf n (AllGather xs) \<longleftrightarrow> length xs = n"
| "coll_wf n (AllGatherV xss) \<longleftrightarrow> length xss = n \<and> list_all (\<lambda>xs. length xs = length (hd xss)) xss"
| "coll_wf n (Gather xs root) \<longleftrightarrow> length xs = n \<and> root < n"
| "coll_wf n (GatherV xss root) \<longleftrightarrow>
     length xss = n \<and> root < n \<and> list_all (\<lambda>xs. length xs = length (hd xss)) xss"
| "coll_wf n (Scatter xss root) \<longleftrightarrow> root < n \<and> length (xss ! root) = n"
| "coll_wf n (Broadcast xs root) \<longleftrightarrow> root < n"
| "coll_wf n Barrier \<longleftrightarrow> True"
| "coll_wf n (P2P src dst v) \<longleftrightarrow> src < n \<and> dst < n \<and> src \<noteq> dst"

subsection \<open>Keys\<close>

type_synonym counters = "nat \<times> (nat \<times> nat \<Rightarrow> nat)"

fun coll_flow :: "(bytes list \<Rightarrow> bytes) \<Rightarrow> coll \<Rightarrow> flow" where
  "coll_flow ser (AllGather xs) = FAll xs"
| "coll_flow ser (AllGatherV xss) = (if hd xss = [] then FNone else FAll (map (pack ser) xss))"
| "coll_flow ser (Gather xs root) = FGather xs root"
| "coll_flow ser (GatherV xss root) = (if hd xss = [] then FNone else FGather (map (pack ser) xss) root)"
| "coll_flow ser (Scatter xss root) = FScatter (xss ! root) root"
| "coll_flow ser (Broadcast xs root) = FBcast (xs ! root) root"
| "coll_flow ser Barrier = FBarrier"
| "coll_flow ser (P2P src dst v) = FP2P src dst v"

fun flow_type :: "flow \<Rightarrow> string" where
  "flow_type (FAll xs) = ''ALLGATHER''"
| "flow_type (FGather xs root) = ''GATHER''"
| "flow_type (FScatter xs root) = ''SCATTER''"
| "flow_type (FBcast v root) = ''BCAST''"
| "flow_type FBarrier = ''BARRIER''"
| "flow_type _ = []"

fun flow_key :: "context_desc \<Rightarrow> counters \<Rightarrow> flow \<Rightarrow> string" where
  "flow_key desc (cnt, pc) (FP2P src dst v) = p2p_key desc (pc (src, dst) + 1) src dst"
| "flow_key desc (cnt, pc) f = event_key desc (cnt + 1) (flow_type f)"

fun flow_next :: "counters \<Rightarrow> flow \<Rightarrow> counters" where
  "flow_next (cnt, pc) (FP2P src dst v) = (cnt, pc((src, dst) := pc (src, dst) + 1))"
| "flow_next (cnt, pc) FNone = (cnt, pc)"
| "flow_next (cnt, pc) f = (cnt + 1, pc)"

fun keyed_flows :: "context_desc \<Rightarrow> counters \<Rightarrow> flow list \<Rightarrow> (string \<times> flow) list" where
  "keyed_flows desc k [] = []"
| "keyed_flows desc k (f # fs) =
     (if f = FNone then keyed_flows desc k fs
      else (flow_key desc k f, f) # keyed_flows desc (flow_next k f) fs)"

definition fresh_key :: "context_desc \<Rightarrow> counters \<Rightarrow> string \<Rightarrow> bool" where
  "fresh_key desc k e \<longleftrightarrow>
     (\<exists>m ty. fst k < m \<and> m < 2 ^ 64 \<and> e = event_key desc m ty) \<or>
     (\<exists>m src dst. snd k (src, dst) < m \<and> e = p2p_key desc m src dst)"

text \<open>The counters have room for \<open>l\<close> more operations.\<close>

definition room :: "counters \<Rightarrow> nat \<Rightarrow> bool" where
  "room k l \<longleftrightarrow> fst k + l < 2 ^ 64 \<and> (\<forall>p. snd k p + l < 2 ^ 31)"

lemma split_at_char:
  "c \<notin> set xs \<Longrightarrow> c \<notin> set ys \<Longrightarrow> xs @ c # us = ys @ c # vs \<longleftrightarrow> xs = ys \<and> us = vs"
  by (induction xs arbitrary: ys) (case_tac ys; auto)+

lemma to_string_no [simp]: "CHR '':'' \<notin> set (to_string n)" "CHR ''-'' \<notin> set (to_string n)" "CHR ''P'' \<notin> set (to_string n)"
  by (auto dest: to_string_digits)

lemma to_string_ne [simp]: "to_string n \<noteq> []"
  by (subst to_string.simps) simp

lemma event_key_inj: "event_key desc m ty = event_key desc m' ty' \<Longrightarrow> m mod 2 ^ 64 = m' mod 2 ^ 64"
  by (simp add: event_key_def split_at_char to_string_inj)

lemma p2p_key_inj: "p2p_key desc m s d = p2p_key desc m' s' d' \<Longrightarrow> m = m' \<and> s = s' \<and> d = d'"
  by (simp add: p2p_key_def split_at_char to_string_inj)

lemma event_p2p_ne: "event_key desc m ty \<noteq> p2p_key desc m' s d" "p2p_key desc m' s d \<noteq> event_key desc m ty"
proof -
  show "event_key desc m ty \<noteq> p2p_key desc m' s d"
  proof
    assume "event_key desc m ty = p2p_key desc m' s d"
    then have "to_string (m mod 2 ^ 64) @ CHR '':'' # ty = CHR ''P'' # ''2P-'' @ to_string m' @ CHR '':'' # to_string s @ CHR ''-'' # CHR ''>'' # to_string d"
      by (simp add: event_key_def p2p_key_def)
    moreover obtain a t where "to_string (m mod 2 ^ 64) = a # t" "a \<noteq> CHR ''P''"
      using to_string_no(3) [of "m mod 2 ^ 64"] to_string_ne [of "m mod 2 ^ 64"]
      by (cases "to_string (m mod 2 ^ 64)") (metis, metis list.set_intros(1))
    ultimately show False by simp
  qed
  then show "p2p_key desc m' s d \<noteq> event_key desc m ty" by metis
qed

lemma flow_key_fresh: "f \<noteq> FNone \<Longrightarrow> room k (Suc l) \<Longrightarrow> fresh_key desc k (flow_key desc k f)"
  by (cases k; cases f) (fastforce simp: fresh_key_def room_def)+

lemma event_key_used: "fst k + 1 < 2 ^ 64 \<Longrightarrow> fst k' = fst k + 1 \<Longrightarrow> \<not> fresh_key desc k' (event_key desc (fst k + 1) ty)"
  by (auto simp: fresh_key_def event_p2p_ne mod_less simp del: power_numeral dest!: event_key_inj)

lemma flow_key_used:
  assumes "f \<noteq> FNone" "room k (Suc l)"
  shows "\<not> fresh_key desc (flow_next k f) (flow_key desc k f)"
proof (cases "\<exists>src dst v. f = FP2P src dst v")
  case True
  then show ?thesis by (cases k) (auto simp: fresh_key_def event_p2p_ne dest!: p2p_key_inj)
next
  case False
  with assms event_key_used [of k "flow_next k f" desc "flow_type f"] show ?thesis
    by (cases k; cases f) (simp_all add: room_def)
qed

lemma room_next: "room k (Suc l) \<Longrightarrow> room (flow_next k f) l"
  unfolding room_def by (cases k; cases f) (auto intro: Suc_lessD)

lemma room_less: "room k (Suc l) \<Longrightarrow> room k l"
  by (auto simp: room_def intro: Suc_lessD)

lemma flow_next_le: "fst k \<le> fst (flow_next k f)" "snd k p \<le> snd (flow_next k f) p"
  by (cases k; cases f; simp)+

lemma fresh_key_mono: "fresh_key desc (flow_next k f) e \<Longrightarrow> fresh_key desc k e"
  unfolding fresh_key_def using le_less_trans [OF flow_next_le(1)] le_less_trans [OF flow_next_le(2)] by blast

lemma keyed_flows_fresh: "(e, f) \<in> set (keyed_flows desc k fs) \<Longrightarrow> room k (length fs) \<Longrightarrow> fresh_key desc k e"
proof (induction fs arbitrary: k)
  case (Cons g fs)
  have r: "room k (Suc (length fs))" using Cons.prems(2) by simp
  show ?case
  proof (cases "g = FNone \<or> e \<noteq> flow_key desc k g")
    case True
    with Cons.prems(1) Cons.IH [of k] Cons.IH [of "flow_next k g"] fresh_key_mono [of desc k g e]
      room_next [OF r, of g] room_less [OF r] show ?thesis
      by (cases "g = FNone") auto
  next
    case False
    with flow_key_fresh [OF _ r] show ?thesis by blast
  qed
qed simp

lemma keyed_flows_distinct: "room k (length fs) \<Longrightarrow> distinct (map fst (keyed_flows desc k fs))"
proof (induction fs arbitrary: k)
  case (Cons g fs)
  then have r: "room k (Suc (length fs))" by simp
  show ?case
    using Cons.IH [OF room_next [OF r, of g]] Cons.IH [OF room_less [OF r]] flow_key_used [OF _ r, of g desc]
      keyed_flows_fresh [OF _ room_next [OF r, of g], of "flow_key desc k g" _ desc] by auto
qed simp

lemma keyed_flows_mem: "(e, f) \<in> set (keyed_flows desc k fs) \<Longrightarrow> f \<in> set fs"
proof (induction fs arbitrary: k)
  case (Cons g fs)
  from Cons.IH [of k] Cons.IH [of "flow_next k g"] Cons.prems show ?case by (cases "g = FNone") auto
qed simp

lemma flows_value_fits:
  assumes "distinct (map fst fs)" "(e, f) \<in> set fs"
  shows "fits_flow (flows_value fs) e f"
  using assms
proof (induction fs)
  case (Cons g fs)
  then show ?case by (cases g) (auto simp: fits_flow_def rev_image_eqI)
qed simp

subsection \<open>The runs of a program\<close>

lemma coll_flow_wf: "0 < n \<Longrightarrow> coll_wf n op \<Longrightarrow> flow_wf n (coll_flow ser op)"
  by (cases op) auto

lemma coll_ends:
  assumes c: "linked desc n (fst k) (snd k) i c" and wf: "coll_wf n op" and law: "\<And>xs. deser (ser xs) = Inr xs"
    and "coll_flow ser op \<noteq> FNone \<Longrightarrow> fits_flow M (flow_key desc k (coll_flow ser op)) (coll_flow ser op)"
    and small: "n \<le> 2 ^ 32" "room k (Suc l)"
  shows "ends M i (coll_prog ser deser i op) c (flow_trace n (flow_key desc k (coll_flow ser op)) (coll_flow ser op) i)
    (coll_spec i op) (linked desc n (fst (flow_next k (coll_flow ser op))) (snd (flow_next k (coll_flow ser op))) i)"
proof -
  obtain cnt pc where k [simp]: "k = (cnt, pc)" by (cases k)
  let ?I = "linked desc n (cnt + 1) pc i"
  have i: "i < n" using c by (rule linkedD)
  have ret: "ends M i (party_bind m (\<lambda>x. party_return (g x))) c t (g x) J" if "ends M i m c t x J" for m g t x J
    using ends_bind [OF that ends_return] by simp
  note c' = c [unfolded k fst_conv snd_conv]
  show ?thesis
  proof (cases op)
    case (AllGather xs)
    with assms(4) wf show ?thesis
      using ret [OF all_gather_ends [OF c'], of xs "\<lambda>out. [out]"] by simp
  next
    case (Gather xs root)
    with assms(4) wf show ?thesis
      using ret [OF gather_ends [OF c'], of xs root "\<lambda>out. [out]"] by simp
  next
    case (Scatter xss root)
    with assms(4) wf show ?thesis
      using ret [OF scatter_ends [OF c', of root "xss ! i" "xss ! root"], of "\<lambda>out. [[out]]"] by simp
  next
    case (Broadcast xs root)
    with assms(4) wf show ?thesis
      using ret [OF broadcast_ends [OF c', of root "xs ! i" "xs ! root"], of "\<lambda>out. [[out]]"] by simp
  next
    case Barrier
    then show ?thesis using ret [OF barrier_ends [OF c'], of "\<lambda>_. []"] by simp
  next
    case (AllGatherV xss)
    have len: "length xs = length (hd xss)" if "xs \<in> set xss" for xs using wf AllGatherV that by (simp add: list_all_iff)
    have ne: "xss \<noteq> []" "xss ! i \<in> set xss" using wf AllGatherV i by auto
    show ?thesis
    proof (cases "hd xss = []")
      case True
      with len [OF ne(2)] AllGatherV c' show ?thesis
        by (simp add: all_gather_vector_impl_def columns_def ends_return)
    next
      case False
      with assms(4) wf AllGatherV len law show ?thesis
        using all_gather_vector_ends [OF c', of xss "length (hd xss)" deser ser M] by simp
    qed
  next
    case (GatherV xss root)
    have len: "length xs = length (hd xss)" if "xs \<in> set xss" for xs using wf GatherV that by (simp add: list_all_iff)
    have ne: "xss \<noteq> []" "xss ! i \<in> set xss" using wf GatherV i by auto
    show ?thesis
    proof (cases "hd xss = []")
      case True
      with len [OF ne(2)] have "coll_prog ser deser i op = party_return []" "coll_spec i op = []"
        using GatherV by (simp_all add: gather_vector_impl_def columns_def)
      with True GatherV show ?thesis using ends_return [of "linked desc n cnt pc i" c M i "[]"] c' by simp
    next
      case False
      with assms(4) wf GatherV len law show ?thesis
        using gather_vector_ends [OF c', of xss "length (hd xss)" root deser ser M] by simp
    qed
  next
    case (P2P src dst v)
    let ?e = "p2p_key desc (pc (src, dst) + 1) src dst" and ?J = "linked desc n cnt (pc((src, dst) := pc (src, dst) + 1)) i"
    note p2p = p2p_ends(1,2) [OF c', where src = src and dst = dst and M = M and v = v] p2p_ends(3) [OF c', of src dst]
    have sd: "src < n" "dst < n" "src \<noteq> dst" using wf P2P by auto
    have "pc (src, dst) + Suc l < 2 ^ 31" using small(2) unfolding room_def k fst_conv snd_conv by blast
    then have few: "pc (src, dst) + 1 < 2 ^ 31" by linarith
    have M: "M (src, dst, ?e) = v" using assms(4) P2P by (simp add: fits_flow_def)
    have spec: "coll_spec i op = (if i = dst then [[v]] else [])" "coll_flow ser op = FP2P src dst v" using P2P by simp_all
    consider "i = src" | "i = dst" | "i \<noteq> src" "i \<noteq> dst" by blast
    then have "ends M i (coll_prog ser deser i op) c (flow_trace n ?e (FP2P src dst v) i) (coll_spec i op) ?J"
    proof cases
      case 1
      from ret [OF p2p(1) [OF sd small(1) few 1], of "\<lambda>_. []"] show ?thesis
        unfolding spec using P2P sd 1 by (simp only: coll_prog.simps flow_trace.simps if_True if_False simp_thms)
    next
      case 2
      from ret [OF p2p(2) [OF sd small(1) few 2 M], of "\<lambda>out. [[out]]"] show ?thesis
        unfolding spec using P2P sd 2 by (simp add: eq_commute [of dst src] del: fun_upd_apply)
    next
      case 3
      from ends_return [of ?J, OF p2p(3) [OF sd small(1) few 3], of M i "[]"] show ?thesis
        unfolding spec using P2P 3 by simp
    qed
    then show ?thesis unfolding spec by (simp only: k flow_key.simps flow_next.simps fst_conv snd_conv)
  qed
qed

definition colls_next :: "(bytes list \<Rightarrow> bytes) \<Rightarrow> counters \<Rightarrow> coll list \<Rightarrow> counters" where
  "colls_next ser k ops = foldl (\<lambda>k op. flow_next k (coll_flow ser op)) k ops"

lemma colls_end:
  assumes c: "linked desc n (fst k) (snd k) i c" and wf: "list_all (coll_wf n) ops" and law: "\<And>xs. deser (ser xs) = Inr xs"
    and fits: "\<And>e f. (e, f) \<in> set (keyed_flows desc k (map (coll_flow ser) ops)) \<Longrightarrow> fits_flow M e f"
    and n: "n \<le> 2 ^ 32" and room: "room k (length ops)"
  shows "ends M i (party_map (coll_prog ser deser i) ops) c (flows_trace n (keyed_flows desc k (map (coll_flow ser) ops)) i)
    (map (coll_spec i) ops) (linked desc n (fst (colls_next ser k ops)) (snd (colls_next ser k ops)) i)"
  using c wf fits room
proof (induction ops arbitrary: c k)
  case Nil
  then show ?case by (simp add: colls_next_def ends_return)
next
  case (Cons op ops)
  let ?f = "coll_flow ser op"
  define k1 where "k1 = flow_next k ?f"
  have r: "room k (Suc (length ops))" using Cons.prems(4) by simp
  let ?t1 = "flow_trace n (flow_key desc k ?f) ?f i" and ?t2 = "flows_trace n (keyed_flows desc k1 (map (coll_flow ser) ops)) i"
  have none: "k1 = k" "?t1 = []" if "?f = FNone" using that by (cases k; simp add: k1_def)+
  have flows: "flows_trace n (keyed_flows desc k (map (coll_flow ser) (op # ops))) i = ?t1 @ ?t2"
    using none by (cases "?f = FNone") (simp_all add: k1_def)
  have fits': "fits_flow M e f" if "(e, f) \<in> set (keyed_flows desc k1 (map (coll_flow ser) ops))" for e f
    using Cons.prems(3) [of e f] that none(1) by (cases "?f = FNone") (simp_all add: k1_def)
  have op: "ends M i (coll_prog ser deser i op) c ?t1 (coll_spec i op) (linked desc n (fst k1) (snd k1) i)"
    unfolding k1_def
  proof (rule coll_ends [OF Cons.prems(1) _ law _ n r])
    show "coll_wf n op" using Cons.prems(2) by simp
    show "fits_flow M (flow_key desc k ?f) ?f" if "?f \<noteq> FNone" using Cons.prems(3) [of "flow_key desc k ?f" ?f] that by simp
  qed
  then obtain c1 where c1: "runs M i (coll_prog ser deser i op) c ?t1 (coll_spec i op) c1" "linked desc n (fst k1) (snd k1) i c1"
    by (auto simp: ends_def)
  have k': "colls_next ser k (op # ops) = colls_next ser k1 ops" by (simp add: colls_next_def k1_def)
  have "ends M i (party_map (coll_prog ser deser i) ops) c1 ?t2 (map (coll_spec i) ops)
      (linked desc n (fst (colls_next ser k1 ops)) (snd (colls_next ser k1 ops)) i)"
    using Cons.IH [OF c1(2)] Cons.prems(2) fits' room_next [OF r, of ?f, folded k1_def] by auto
  then obtain c2 where c2: "runs M i (party_map (coll_prog ser deser i) ops) c1 ?t2 (map (coll_spec i) ops) c2"
      "linked desc n (fst (colls_next ser k1 ops)) (snd (colls_next ser k1 ops)) i c2"
    by (auto simp: ends_def)
  have "runs M i (party_map (coll_prog ser deser i) (op # ops)) c (?t1 @ (?t2 @ [])) (coll_spec i op # map (coll_spec i) ops) c2"
    unfolding party_map.simps by (rule runs_bind [OF c1(1)], rule runs_bind [OF c2(1)], rule runs_return)
  with c2(2) show ?case unfolding flows ends_def k' by auto
qed

subsection \<open>The programs as a mesh protocol\<close>

definition spmd_ok :: "context_desc \<Rightarrow> coll list \<Rightarrow> bool" where
  "spmd_ok desc ops \<longleftrightarrow>
     (let n = length (desc_parties desc) in
      0 < n \<and> n \<le> 2 ^ 32 \<and> length ops < 2 ^ 31 \<and> list_all (coll_wf n) ops)"

lemma spmd_room: "spmd_ok desc ops \<Longrightarrow> room (0, \<lambda>_. 0) (length (map f ops))"
  by (simp add: spmd_ok_def room_def Let_def)

definition spmd_flows :: "(bytes list \<Rightarrow> bytes) \<Rightarrow> context_desc \<Rightarrow> coll list \<Rightarrow> (string \<times> flow) list" where
  "spmd_flows ser desc ops = keyed_flows desc (0, \<lambda>_. 0) (map (coll_flow ser) ops)"

text \<open>The programs of all parties, for a well-formed list of operations and a serializer that works.\<close>

definition spmd_progs ::
  "(bytes list \<Rightarrow> bytes) \<Rightarrow> (bytes \<Rightarrow> bytes list result) \<Rightarrow> context_desc \<Rightarrow> coll list \<Rightarrow>
    (bytes list list list \<times> link_ctx) prog list" where
  "spmd_progs ser deser desc ops =
     map (\<lambda>i. party_map (coll_prog ser deser i) ops (session_ctx desc i)) [0..<length (desc_parties desc)]"

definition spmd_system ::
  "(bytes list \<Rightarrow> bytes) \<Rightarrow> (bytes \<Rightarrow> bytes list result) \<Rightarrow> context_desc \<Rightarrow> coll list \<Rightarrow>
    (bytes list list list \<times> link_ctx) prog list" where
  "spmd_system ser deser desc ops =
     (if spmd_ok desc ops \<and> (\<forall>xs. deser (ser xs) = Inr xs) then spmd_progs ser deser desc ops else [])"

definition spmd_results ::
  "(bytes list \<Rightarrow> bytes) \<Rightarrow> (bytes \<Rightarrow> bytes list result) \<Rightarrow> context_desc \<Rightarrow> coll list \<Rightarrow>
    (bytes list list list \<times> link_ctx) list" where
  "spmd_results ser deser desc ops =
     map (\<lambda>i. projr (snd (run (flows_value (spmd_flows ser desc ops)) i (spmd_system ser deser desc ops ! i))))
       [0..<length (spmd_system ser deser desc ops)]"

lemma spmd_runs:
  assumes "spmd_ok desc ops" "\<And>xs. deser (ser xs) = Inr xs" "i < length (desc_parties desc)"
  shows "\<exists>c'. run (flows_value (spmd_flows ser desc ops)) i (spmd_progs ser deser desc ops ! i) =
    (flows_trace (length (desc_parties desc)) (spmd_flows ser desc ops) i, Inr (map (coll_spec i) ops, c')) \<and>
    linked desc (length (desc_parties desc)) (fst (colls_next ser (0, \<lambda>_. 0) ops)) (snd (colls_next ser (0, \<lambda>_. 0) ops)) i c'"
proof -
  let ?n = "length (desc_parties desc)" and ?M = "flows_value (spmd_flows ser desc ops)"
  have c: "linked desc ?n (fst (0, \<lambda>_. 0)) (snd (0, \<lambda>_. 0)) i (session_ctx desc i)"
    using assms(1,3) unfolding fst_conv snd_conv by (intro linked_session) (simp_all add: spmd_ok_def Let_def)
  have "ends ?M i (party_map (coll_prog ser deser i) ops) (session_ctx desc i) (flows_trace ?n (spmd_flows ser desc ops) i)
      (map (coll_spec i) ops) (linked desc ?n (fst (colls_next ser (0, \<lambda>_. 0) ops)) (snd (colls_next ser (0, \<lambda>_. 0) ops)) i)"
    unfolding spmd_flows_def using assms(1,2) spmd_room [OF assms(1), of id]
    by (intro colls_end [OF c] flows_value_fits keyed_flows_distinct) (simp_all add: spmd_ok_def Let_def)
  with assms(3) show ?thesis by (auto simp: ends_def runs_def spmd_progs_def)
qed

lemma spmd_flows_fit:
  assumes "spmd_ok desc ops"
  shows "flow_fits (length (desc_parties desc)) (set (map fst (spmd_flows ser desc ops))) (flows_value (spmd_flows ser desc ops))
    (flows_stamp (length (desc_parties desc)) (spmd_flows ser desc ops)) (flows_trace (length (desc_parties desc)) (spmd_flows ser desc ops))"
  using spmd_room [OF assms] assms coll_flow_wf unfolding spmd_flows_def spmd_ok_def Let_def
  by (intro flows_fit keyed_flows_distinct) (auto dest!: keyed_flows_mem simp: list_all_iff)

interpretation spmd: mesh_protocol "spmd_system ser deser desc ops" "spmd_results ser deser desc ops"
  "flows_trace (length (desc_parties desc)) (spmd_flows ser desc ops)" "flows_value (spmd_flows ser desc ops)"
  "flows_stamp (length (desc_parties desc)) (spmd_flows ser desc ops)" for ser deser desc ops
proof (cases "spmd_ok desc ops \<and> (\<forall>xs. deser (ser xs) = Inr xs)")
  case True
  then have ps: "spmd_system ser deser desc ops = spmd_progs ser deser desc ops" by (simp add: spmd_system_def)
  have "run (flows_value (spmd_flows ser desc ops)) i (spmd_system ser deser desc ops ! i) =
      (flows_trace (length (desc_parties desc)) (spmd_flows ser desc ops) i, Inr (spmd_results ser deser desc ops ! i))"
    if "i < length (desc_parties desc)" for i
    using spmd_runs [of desc ops deser ser, OF _ _ that] True that by (auto simp: spmd_results_def ps spmd_progs_def)
  then show "mesh_protocol (spmd_system ser deser desc ops) (spmd_results ser deser desc ops)
      (flows_trace (length (desc_parties desc)) (spmd_flows ser desc ops)) (flows_value (spmd_flows ser desc ops))
      (flows_stamp (length (desc_parties desc)) (spmd_flows ser desc ops))"
    using True by (intro flow_fits_mesh_protocol [OF spmd_flows_fit]) (simp_all add: spmd_results_def ps spmd_progs_def)
next
  case False
  then have "spmd_system ser deser desc ops = []" by (auto simp: spmd_system_def)
  then show "mesh_protocol (spmd_system ser deser desc ops) (spmd_results ser deser desc ops)
      (flows_trace (length (desc_parties desc)) (spmd_flows ser desc ops)) (flows_value (spmd_flows ser desc ops))
      (flows_stamp (length (desc_parties desc)) (spmd_flows ser desc ops))"
    by unfold_locales (simp_all add: spmd_results_def)
qed

subsection \<open>The barrier\<close>

definition barrier_system :: "context_desc \<Rightarrow> (unit \<times> link_ctx) prog list" where
  "barrier_system desc = map (\<lambda>i. barrier (session_ctx desc i)) [0..<length (desc_parties desc)]"

abbreviation barrier_trace :: "context_desc \<Rightarrow> nat \<Rightarrow> act list" where
  "barrier_trace desc \<equiv> flow_trace (length (desc_parties desc)) (event_key desc 1 ''BARRIER'') FBarrier"

lemma barrier_mesh_protocol:
  assumes "2 * length (desc_parties desc) < 2 ^ 64"
  shows "\<exists>rs. mesh_protocol (barrier_system desc) rs (barrier_trace desc) (flow_value FBarrier)
    (flow_stamp (length (desc_parties desc)) FBarrier)"
proof -
  let ?n = "length (desc_parties desc)" and ?M = "flow_value FBarrier"
  have "\<exists>r. run ?M i (barrier (session_ctx desc i)) = (barrier_trace desc i, Inr r)" if "i < ?n" for i
    using barrier_ends [OF linked_session [OF refl that assms], of ?M] by (auto simp: ends_def runs_def)
  then obtain r where r: "run ?M i (barrier (session_ctx desc i)) = (barrier_trace desc i, Inr (r i))" if "i < ?n" for i
    by metis
  show ?thesis
    by (rule exI [of _ "map r [0..<?n]"], rule flow_fits_mesh_protocol [OF barrier_fits])
      (simp_all add: barrier_system_def r del: flow_trace.simps)
qed

lemma barrier_offsets_nth: "t < length (barrier_offsets n k) \<Longrightarrow> barrier_offsets n k ! t = k * 2 ^ t"
proof (induction n k arbitrary: t rule: barrier_offsets.induct)
  case (1 n k)
  show ?case
  proof (cases "k = 0 \<or> n \<le> k")
    case True
    with 1(2) show ?thesis by (simp add: barrier_offsets.simps [of n k])
  next
    case False
    with 1 show ?thesis by (cases t) (simp_all add: barrier_offsets.simps [of n k])
  qed
qed

lemma barrier_offsets_enough: "0 < k \<Longrightarrow> n \<le> k * 2 ^ length (barrier_offsets n k)"
proof (induction n k rule: barrier_offsets.induct)
  case (1 n k)
  then show ?case by (cases "n \<le> k") (simp_all add: barrier_offsets.simps [of n k])
qed

text \<open>If an action has been performed, then so have those the program performs before it.\<close>

lemma performed_before:
  assumes "p @ q = a @ y # b" "y \<in> set p" "y \<notin> set a"
  shows "set a \<subseteq> set p"
proof -
  have "length a < length p"
  proof (rule ccontr)
    assume "\<not> length a < length p"
    then have "p = take (length p) a" using assms(1) by (metis append_eq_append_conv_if append_eq_conv_conj linorder_not_less)
    then have "set p \<subseteq> set a" by (metis set_take_subset)
    with assms(2,3) show False by blast
  qed
  then have "a = take (length a) p" using assms(1) by (metis append_eq_append_conv_if append_eq_conv_conj less_imp_le_nat linorder_not_less)
  then show ?thesis by (metis set_take_subset)
qed

lemma barrier_rounds:
  fixes e :: string
  assumes "i < n" "t < length (barrier_offsets n 1)"
  defines "pre \<equiv> concat (map (barrier_round n e i) (take t (barrier_offsets n 1)))"
  defines "s \<equiv> Snd (i, ring_add n i (2 ^ t), e) []" and "r \<equiv> Rcv (ring_sub n i (2 ^ t), i, e)"
  shows "\<exists>post. flow_trace n e FBarrier i = pre @ s # r # post" "s \<notin> set pre" "r \<notin> set (pre @ [s])"
    and "0 < t \<Longrightarrow> Rcv (ring_sub n i (2 ^ (t - 1)), i, e) \<in> set pre"
proof -
  let ?ks = "barrier_offsets n 1"
  have nth: "?ks ! j = 2 ^ j" if "j < length ?ks" for j using barrier_offsets_nth [OF that] by simp
  have ks: "?ks = take t ?ks @ 2 ^ t # drop (Suc t) ?ks" using id_take_nth_drop [OF assms(2)] nth [OF assms(2)] by simp
  have "flow_trace n e FBarrier i = pre @ barrier_round n e i (2 ^ t) @ concat (map (barrier_round n e i) (drop (Suc t) ?ks))"
    unfolding flow_trace.simps pre_def by (subst ks) simp
  then show "\<exists>post. flow_trace n e FBarrier i = pre @ s # r # post" by (auto simp: barrier_round_def s_def r_def)
  have less: "k < n" if "k \<in> set ?ks" for k using barrier_offsets_bounds that by blast
  have tn: "2 ^ t < n" using less [of "2 ^ t"] nth [OF assms(2)] assms(2) by (metis nth_mem)
  have new: "k < n \<and> k \<noteq> 2 ^ t" if mem: "k \<in> set (take t ?ks)" for k
  proof -
    obtain j where "j < length (take t ?ks)" "k = take t ?ks ! j" using mem unfolding in_set_conv_nth by blast
    then have j: "j < t" "k = ?ks ! j" by simp_all
    moreover have "k \<in> set ?ks" using mem by (rule in_set_takeD)
    ultimately show ?thesis using nth [of j] assms(2) less [of k] by simp
  qed
  show "s \<notin> set pre" "r \<notin> set (pre @ [s])"
    using new tn assms(1) by (auto simp: pre_def barrier_round_def s_def r_def ring_add_inj ring_sub_inj)
  show "Rcv (ring_sub n i (2 ^ (t - 1)), i, e) \<in> set pre" if "0 < t"
  proof -
    have "2 ^ (t - 1) \<in> set (take t ?ks)"
      using nth [of "t - 1"] that assms(2) by (auto simp: in_set_conv_nth intro!: exI [of _ "t - 1"])
    then show ?thesis by (force simp: pre_def barrier_round_def)
  qed
qed

lemma ring_sub_sub: "i < n \<Longrightarrow> a + b < n \<Longrightarrow> ring_sub n (ring_sub n i a) b = ring_sub n i (a + b)"
  by (auto simp: ring_sub_cases)

text \<open>A party that has received the message of round \<open>t\<close> knows of \<open>2 * 2 ^ t\<close> parties that they have
  entered.\<close>

lemma dissemination_round:
  assumes traces: "\<And>i. i < n \<Longrightarrow> \<exists>q. flow_trace n e FBarrier i = d i @ q"
    and sent: "\<And>i m. i < n \<Longrightarrow> Rcv m \<in> set (d i) \<Longrightarrow> m \<in> set (snds (d (fst m)))"
    and t: "t < length (barrier_offsets n 1)"
    and knows: "\<And>i k. i < n \<Longrightarrow> Snd (i, ring_add n i (2 ^ t), e) [] \<in> set (d i) \<Longrightarrow> k < 2 ^ t \<Longrightarrow> k < n \<Longrightarrow> d (ring_sub n i k) \<noteq> []"
    and i: "i < n" and rcvd: "Rcv (ring_sub n i (2 ^ t), i, e) \<in> set (d i)" and k: "k < 2 * 2 ^ t" "k < n"
  shows "d (ring_sub n i k) \<noteq> []"
proof (cases "k < 2 ^ t")
  case True
  obtain q post where "flow_trace n e FBarrier i = d i @ q"
    "flow_trace n e FBarrier i = concat (map (barrier_round n e i) (take t (barrier_offsets n 1))) @
      Snd (i, ring_add n i (2 ^ t), e) [] # Rcv (ring_sub n i (2 ^ t), i, e) # post"
    using traces [OF i] barrier_rounds(1) [OF i t] by blast
  then have "Snd (i, ring_add n i (2 ^ t), e) [] \<in> set (d i)"
    using performed_before [of "d i" q "concat (map (barrier_round n e i) (take t (barrier_offsets n 1))) @
      [Snd (i, ring_add n i (2 ^ t), e) []]" _ post, OF _ rcvd barrier_rounds(3) [OF i t, of e]] by simp
  with knows i True k(2) show ?thesis by blast
next
  case False
  let ?p = "ring_sub n i (2 ^ t)"
  have tn: "2 ^ t < n" using False k(2) by simp
  have p: "?p < n" "ring_add n ?p (2 ^ t) = i" using i tn by simp_all
  from sent [OF i rcvd] obtain v where v: "Snd (?p, i, e) v \<in> set (d ?p)" by (auto simp: set_snds)
  moreover have "v = []"
    using v traces [OF p(1)] flow_fitsD(1) [OF barrier_fits p(1), of "(?p, i, e)" v e] by fastforce
  ultimately have "d (ring_sub n ?p (k - 2 ^ t)) \<noteq> []"
    using knows [OF p(1)] p(2) False k by simp
  moreover have "ring_sub n ?p (k - 2 ^ t) = ring_sub n i k"
    using ring_sub_sub [OF i, of "2 ^ t" "k - 2 ^ t"] False k(2) by simp
  ultimately show ?thesis by simp
qed

lemma dissemination:
  assumes traces: "\<And>i. i < n \<Longrightarrow> \<exists>q. flow_trace n e FBarrier i = d i @ q"
    and sent: "\<And>i m. i < n \<Longrightarrow> Rcv m \<in> set (d i) \<Longrightarrow> m \<in> set (snds (d (fst m)))"
    and "t < length (barrier_offsets n 1)"
  shows "i < n \<Longrightarrow> Snd (i, ring_add n i (2 ^ t), e) [] \<in> set (d i) \<Longrightarrow> k < 2 ^ t \<Longrightarrow> k < n \<Longrightarrow> d (ring_sub n i k) \<noteq> []"
  using assms(3)
proof (induction t arbitrary: i k)
  case 0
  then show ?case by (auto simp: ring_sub_cases)
next
  case (Suc t)
  obtain q post where "flow_trace n e FBarrier i = d i @ q"
    "flow_trace n e FBarrier i = concat (map (barrier_round n e i) (take (Suc t) (barrier_offsets n 1))) @
      Snd (i, ring_add n i (2 ^ Suc t), e) [] # Rcv (ring_sub n i (2 ^ Suc t), i, e) # post"
    using traces [OF Suc.prems(1)] barrier_rounds(1) [OF Suc.prems(1,5)] by blast
  then have "set (concat (map (barrier_round n e i) (take (Suc t) (barrier_offsets n 1)))) \<subseteq> set (d i)"
    using performed_before [of "d i" q, OF _ Suc.prems(2) barrier_rounds(2) [OF Suc.prems(1,5)]] by simp
  then have rcvd: "Rcv (ring_sub n i (2 ^ t), i, e) \<in> set (d i)"
    using barrier_rounds(4) [OF Suc.prems(1,5), of e] by auto
  have t: "t < length (barrier_offsets n 1)" using Suc.prems(5) by simp
  show ?case
    using dissemination_round [OF traces sent t Suc.IH [OF _ _ _ _ t] Suc.prems(1) rcvd] Suc.prems(3,4) by simp
qed

lemma dissemination_all:
  assumes traces: "\<And>i. i < n \<Longrightarrow> \<exists>q. flow_trace n e FBarrier i = d i @ q"
    and sent: "\<And>i m. i < n \<Longrightarrow> Rcv m \<in> set (d i) \<Longrightarrow> m \<in> set (snds (d (fst m)))"
    and "i < n" "d i = flow_trace n e FBarrier i" "j < n" "j \<noteq> i"
  shows "d j \<noteq> []"
proof -
  define t where "t = length (barrier_offsets n 1) - 1"
  have "1 < n" using assms(3,5,6) by linarith
  then have "barrier_offsets n 1 \<noteq> []" by (simp add: barrier_offsets.simps [of n])
  then have t: "t < length (barrier_offsets n 1)" "length (barrier_offsets n 1) = Suc t" by (auto simp: t_def)
  have n: "n \<le> 2 * 2 ^ t" using barrier_offsets_enough [of 1 n] unfolding t(2) by simp
  have rcvd: "Rcv (ring_sub n i (2 ^ t), i, e) \<in> set (d i)"
    using barrier_rounds(1) [OF assms(3) t(1), of e] unfolding assms(4) by force
  let ?k = "ring_dist n j i"
  have k: "?k < n" using assms(3) by simp
  have "d (ring_sub n i ?k) \<noteq> []"
    using dissemination_round [OF traces sent t(1) dissemination [OF traces sent t(1)] assms(3) rcvd] k n by simp
  moreover have "ring_sub n i ?k = j" using assms(3,5) by (auto simp: ring_dist_cases ring_sub_cases)
  ultimately show ?thesis by simp
qed

lemma barrier_entered:
  assumes "2 * length (desc_parties desc) < 2 ^ 64" "mesh_reach timeouts (mesh_init (barrier_system desc)) s"
    and "i < length (desc_parties desc)" "progs s ! i = Ret r" "j < length (desc_parties desc)" "j \<noteq> i"
  shows "progs s ! j \<noteq> barrier (session_ctx desc j)"
proof -
  let ?n = "length (desc_parties desc)" and ?ps = "barrier_system desc" and ?e = "event_key desc 1 ''BARRIER''"
  obtain rs where mp: "mesh_protocol ?ps rs (barrier_trace desc) (flow_value FBarrier) (flow_stamp ?n FBarrier)"
    using barrier_mesh_protocol [OF assms(1)] by blast
  have len: "length ?ps = ?n" by (simp add: barrier_system_def)
  obtain d where inv: "mesh_protocol.mesh_inv ?ps rs (barrier_trace desc) (flow_value FBarrier) timeouts d s"
    using mesh_protocol.reach_inv [OF mp assms(2) refl] by blast
  have "d j \<noteq> []"
  proof (rule dissemination_all [of ?n ?e d i])
    show "\<exists>q. barrier_trace desc i = d i @ q" if "i < ?n" for i
      using mesh_protocol.prefix_of_trace [OF mp inv, of i] that unfolding len by blast
    show "m \<in> set (snds (d (fst m)))" if "i < ?n" "Rcv m \<in> set (d i)" for i m
      using mesh_protocol.received_was_sent(2) [OF mp inv, of i m] that len by simp
    show "d i = barrier_trace desc i"
      using mesh_protocol.finished_prefix [OF mp inv _ assms(4)] assms(3) len by simp
  qed (use assms in auto)
  then have "progs s ! j \<noteq> ?ps ! j" using mesh_protocol.started [OF mp inv] assms(5) len by simp
  then show ?thesis using assms(5) by (simp add: barrier_system_def)
qed

subsection \<open>Properties\<close>

text \<open>C2: A session of \<open>n\<close> parties made by the memory factory executes a list of collective operations
  (\<open>AllGather\<close>, \<open>Gather\<close>, their vector versions, \<open>Scatter\<close>, \<open>Broadcast\<close>, \<open>Barrier\<close>) and point-to-point
  transfers: at most \<open>2 ^ 32\<close> parties and fewer than \<open>2 ^ 31\<close> operations, so that no counter overflows. In every
  interleaving in which no receive times out, after a bounded number of steps all parties have returned: nobody waits
  for ever and nobody throws. Every party has the specified results, and the operation counters of all contexts agree, so
  that further operations use the same keys. When receives may time out, a party that returns still has the specified
  results, and a party that throws has timed out (\<open>IO_ERROR\<close>).\<close>

theorem collectives_complete:
  assumes "spmd_ok desc ops" "\<And>xs. deser (ser xs) = Inr xs"
  shows "\<exists>ctxs finals. create_session desc = Inr ctxs \<and>
    (\<forall>i < length ctxs. counter (finals ! i) = counter (finals ! 0)) \<and>
    (\<forall>s. mesh_reach True
       (mesh_init (map (\<lambda>i. party_map (coll_prog ser deser i) ops (ctxs ! i)) [0..<length (desc_parties desc)])) s \<longrightarrow>
       results_or_timeouts (map (\<lambda>i. (map (coll_spec i) ops, finals ! i)) [0..<length (desc_parties desc)]) s) \<and>
    must_end (map (\<lambda>i. (map (coll_spec i) ops, finals ! i)) [0..<length (desc_parties desc)])
      (mesh_init (map (\<lambda>i. party_map (coll_prog ser deser i) ops (ctxs ! i)) [0..<length (desc_parties desc)]))
      (\<Sum>i < length (desc_parties desc). length (flows_trace (length (desc_parties desc)) (spmd_flows ser desc ops) i))"
proof -
  let ?n = "length (desc_parties desc)" and ?rs = "spmd_results ser deser desc ops"
  have ps: "spmd_system ser deser desc ops = spmd_progs ser deser desc ops" using assms by (simp add: spmd_system_def)
  have rs: "fst (?rs ! i) = map (coll_spec i) ops" "counter (snd (?rs ! i)) = fst (colls_next ser (0, \<lambda>_. 0) ops) mod 2 ^ 64"
    if "i < ?n" for i
    using spmd_runs [OF assms that] that by (auto simp: spmd_results_def ps spmd_progs_def linkedD(4))
  have "length ?rs = ?n" by (simp add: spmd_results_def ps spmd_progs_def)
  then have eq: "?rs = map (\<lambda>i. (map (coll_spec i) ops, map snd ?rs ! i)) [0..<?n]"
    by (intro nth_equalityI) (simp_all add: rs(1) [symmetric])
  have progs: "spmd_progs ser deser desc ops =
      map (\<lambda>i. party_map (coll_prog ser deser i) ops (map (session_ctx desc) [0..<?n] ! i)) [0..<?n]"
    by (simp add: spmd_progs_def)
  have "length (spmd_system ser deser desc ops) = ?n" by (simp add: ps spmd_progs_def)
  with spmd.mesh_must_end [of ser deser desc ops] have
    "must_end (map (\<lambda>i. (map (coll_spec i) ops, map snd ?rs ! i)) [0..<?n])
      (mesh_init (map (\<lambda>i. party_map (coll_prog ser deser i) ops (map (session_ctx desc) [0..<?n] ! i)) [0..<?n]))
      (\<Sum>i < ?n. length (flows_trace ?n (spmd_flows ser desc ops) i))"
    unfolding eq [symmetric] ps progs [symmetric] by simp
  moreover have "\<forall>s. mesh_reach True
      (mesh_init (map (\<lambda>i. party_map (coll_prog ser deser i) ops (map (session_ctx desc) [0..<?n] ! i)) [0..<?n])) s \<longrightarrow>
      results_or_timeouts (map (\<lambda>i. (map (coll_spec i) ops, map snd ?rs ! i)) [0..<?n]) s"
    using spmd.results_reached [where ser = ser and deser = deser and desc = desc and ops = ops]
    unfolding eq [symmetric] ps progs [symmetric] by blast
  moreover have "\<forall>i < length (map (session_ctx desc) [0..<?n]). counter (map snd ?rs ! i) = counter (map snd ?rs ! 0)"
  proof (intro allI impI)
    fix i assume "i < length (map (session_ctx desc) [0..<?n])"
    then have "i < ?n" "0 < ?n" by (cases ?n; simp)+
    with rs(2) [of i] rs(2) [of 0] \<open>length ?rs = ?n\<close> show "counter (map snd ?rs ! i) = counter (map snd ?rs ! 0)"
      by (simp add: nth_map)
  qed
  ultimately show ?thesis using create_session_eq by blast
qed

text \<open>C5: No party leaves \<open>Barrier\<close> before every other party has entered it: in a reachable state of the
  mesh, with or without timeouts, in which one party has returned, every other party has performed at least its first send.\<close>

theorem barrier_synchronises:
  assumes "2 * length (desc_parties desc) < 2 ^ 64" "mesh_reach timeouts (mesh_init (barrier_system desc)) s"
    and "i < length (desc_parties desc)" "progs s ! i = Ret r" "j < length (desc_parties desc)" "j \<noteq> i"
  shows "progs s ! j \<noteq> barrier (session_ctx desc j)"
  using assms by (rule barrier_entered)

subsection \<open>A session of three parties\<close>

text \<open>A serializer: every byte is preceded by a 1, every buffer ends with a 0.\<close>

fun demo_ser :: "bytes list \<Rightarrow> bytes" where
  "demo_ser [] = []"
| "demo_ser ([] # xss) = 0 # demo_ser xss"
| "demo_ser ((x # xs) # xss) = 1 # x # demo_ser (xs # xss)"

fun demo_deser :: "bytes \<Rightarrow> bytes list result" where
  "demo_deser [] = Inr []"
| "demo_deser (t # bs) =
     (if t = 0 then rbind (demo_deser bs) (\<lambda>xss. Inr ([] # xss))
      else case bs of
        [] \<Rightarrow> Inl RuntimeError
      | x # bs' \<Rightarrow> rbind (demo_deser bs') (\<lambda>xss. case xss of [] \<Rightarrow> Inl RuntimeError | xs # xss' \<Rightarrow> Inr ((x # xs) # xss')))"

lemma demo_serializer: "demo_deser (demo_ser xs) = Inr xs"
  by (induction xs rule: demo_ser.induct) auto

definition demo_ops :: "coll list" where
  "demo_ops = [Broadcast [[1], [2], [3]] 1, AllGatherV [[[1], [2, 2]], [[3], []], [[], [4]]], Barrier,
     Scatter [[], [], [[7], [8], [9]]] 2, P2P 0 2 [5], P2P 0 2 [6], Gather [[1], [2], [3]] 0]"

lemma demo_ok: "spmd_ok demo_desc demo_ops" "2 * length (desc_parties demo_desc) < 2 ^ 64"
  by (simp_all add: spmd_ok_def demo_desc_def demo_ops_def)

theorem collectives_complete_witness:
  "spmd_ok demo_desc demo_ops \<and>
   (\<exists>ctxs finals. create_session demo_desc = Inr ctxs \<and>
    (\<forall>i < length ctxs. counter (finals ! i) = counter (finals ! 0)) \<and>
    (\<forall>s. mesh_reach True
       (mesh_init (map (\<lambda>i. party_map (coll_prog demo_ser demo_deser i) demo_ops (ctxs ! i)) [0..<length (desc_parties demo_desc)])) s \<longrightarrow>
       results_or_timeouts (map (\<lambda>i. (map (coll_spec i) demo_ops, finals ! i)) [0..<length (desc_parties demo_desc)]) s) \<and>
    must_end (map (\<lambda>i. (map (coll_spec i) demo_ops, finals ! i)) [0..<length (desc_parties demo_desc)])
      (mesh_init (map (\<lambda>i. party_map (coll_prog demo_ser demo_deser i) demo_ops (ctxs ! i)) [0..<length (desc_parties demo_desc)]))
      (\<Sum>i < length (desc_parties demo_desc). length (flows_trace (length (desc_parties demo_desc)) (spmd_flows demo_ser demo_desc demo_ops) i)))"
  using collectives_complete [OF demo_ok(1), of demo_deser demo_ser, OF demo_serializer] demo_ok(1) by blast

lemma barrier_can_end:
  assumes "2 * length (desc_parties desc) < 2 ^ 64"
  shows "\<exists>s rs. mesh_reach False (mesh_init (barrier_system desc)) s \<and> length rs = length (desc_parties desc) \<and> progs s = map Ret rs"
proof -
  obtain rs where mp: "mesh_protocol (barrier_system desc) rs (barrier_trace desc) (flow_value FBarrier)
      (flow_stamp (length (desc_parties desc)) FBarrier)"
    using barrier_mesh_protocol [OF assms] by blast
  with must_end_reach [OF mesh_protocol.mesh_must_end [OF mp]] mesh_protocol.same_length [OF mp]
  show ?thesis by (auto simp: mesh_done_def barrier_system_def)
qed

theorem barrier_synchronises_witness:
  "\<exists>s r. mesh_reach False (mesh_init (barrier_system demo_desc)) s \<and> progs s ! 0 = Ret r \<and>
    progs s ! 2 \<noteq> barrier (session_ctx demo_desc 2)"
proof -
  have n: "length (desc_parties demo_desc) = 3" by (simp add: demo_desc_def)
  obtain s rs where s: "mesh_reach False (mesh_init (barrier_system demo_desc)) s" "length rs = 3" "progs s = map Ret rs"
    using barrier_can_end [OF demo_ok(2)] n by auto
  then have r: "progs s ! 0 = Ret (rs ! 0)" by simp
  have "progs s ! 2 \<noteq> barrier (session_ctx demo_desc 2)"
    using barrier_synchronises [OF demo_ok(2) s(1) _ r, of 2] n by simp
  with s(1) r show ?thesis by blast
qed

end
