(* ===== verification/Link_Context_Properties.thy ===== *)
theory Link_Context_Properties
  imports Collectives_Correct
begin

text \<open>
  Properties of single contexts: the contexts that the members of a part of the world get from
  \<open>SubWorld\<close>, and when \<open>ConnectToMesh\<close> succeeds.
\<close>

subsection \<open>Sub-worlds\<close>

lemma party_rank_map_lookup:
  assumes "distinct (map party_id ps)" "r < length ps"
  shows "party_rank_map ps (party_id (ps ! r)) = Some r"
proof -
  let ?kvs = "rev (zip (map party_id ps) [0..<length ps])"
  have "map fst ?kvs = rev (map party_id ps)" unfolding rev_map [symmetric] by (subst map_fst_zip) simp_all
  then have "distinct (map fst ?kvs)" using assms(1) by simp
  moreover have "(party_id (ps ! r), r) \<in> set ?kvs" using assms(2) by (auto simp: set_zip intro!: exI [of _ r])
  ultimately show ?thesis unfolding party_rank_map_def by (rule map_of_is_SomeI)
qed

lemma party_rank_map_None: "p \<notin> party_id ` set ps \<Longrightarrow> party_rank_map ps p = None"
  unfolding party_rank_map_def by (auto simp: map_of_eq_None_iff set_zip)

lemma member_rank: "p \<in> party_id ` set ps \<Longrightarrow> \<exists>r < length ps. p = party_id (ps ! r)"
  by (metis imageE in_set_conv_nth)

lemma new_context_ok:
  assumes "k < length (desc_parties D)" "length C = length (desc_parties D)"
  shows "\<exists>c. new_context D k C b = Inr c \<and> ctx_rank c = k \<and> ctx_desc c = D \<and> channels c = C \<and> is_sub_world c = b"
  using assms by (simp add: new_context_def enforce_def Let_def)

lemma sub_world_ranks_ok:
  assumes "\<And>p. p \<in> set ids \<Longrightarrow> m p \<noteq> None"
  shows "\<exists>k. sub_world_ranks m self ids orig new = Inr (orig @ map (\<lambda>p. the (m p)) ids, k) \<and>
    (if Some self \<in> m ` set ids then length orig \<le> k \<and> k < length orig + length ids \<and> m (ids ! (k - length orig)) = Some self
     else k = new)"
  using assms
proof (induction ids arbitrary: orig new)
  case (Cons p ids)
  have "m p \<noteq> None" using Cons.prems by simp
  then obtain r where r: "m p = Some r" by blast
  obtain k where k: "sub_world_ranks m self ids (orig @ [r]) (if r = self then length orig else new) =
      Inr ((orig @ [r]) @ map (\<lambda>p. the (m p)) ids, k)"
    and new: "if Some self \<in> m ` set ids
      then length (orig @ [r]) \<le> k \<and> k < length (orig @ [r]) + length ids \<and> m (ids ! (k - length (orig @ [r]))) = Some self
      else k = (if r = self then length orig else new)"
    using Cons.IH [OF Cons.prems [OF list.set_intros(2)], of "orig @ [r]" "if r = self then length orig else new"] by blast
  have "if Some self \<in> m ` set (p # ids)
      then length orig \<le> k \<and> k < length orig + length (p # ids) \<and> m ((p # ids) ! (k - length orig)) = Some self
      else k = new"
  proof (cases "Some self \<in> m ` set ids")
    case True
    with new have "k - length orig = Suc (k - length (orig @ [r]))" "length orig \<le> k" by auto
    with True new show ?thesis by simp
  next
    case False
    with new r show ?thesis by (auto split: if_splits)
  qed
  with k r show ?case by auto
qed auto

lemma sub_world_ranks_member:
  assumes "\<And>p. p \<in> set ids \<Longrightarrow> m p \<noteq> None" "Some self \<in> m ` set ids"
  shows "\<exists>k < length ids. sub_world_ranks m self ids [] (length ids) = Inr (map (\<lambda>p. the (m p)) ids, k) \<and> m (ids ! k) = Some self"
proof -
  from sub_world_ranks_ok [of ids m self "[]" "length ids", OF assms(1)] assms(2)
  show ?thesis unfolding append_Nil list.size(3) add_0 diff_zero by (metis (mono_tags))
qed

lemma sub_world_ranks_stranger:
  assumes "\<And>p. p \<in> set ids \<Longrightarrow> m p \<noteq> None" "Some self \<notin> m ` set ids"
  shows "sub_world_ranks m self ids [] (length ids) = Inr (map (\<lambda>p. the (m p)) ids, length ids)"
proof -
  from sub_world_ranks_ok [of ids m self "[]" "length ids", OF assms(1)] assms(2)
  show ?thesis unfolding append_Nil by (metis (mono_tags))
qed

lemma sub_world_ranks_unknown:
  "p \<in> set ids \<Longrightarrow> m p = None \<Longrightarrow> sub_world_ranks m self ids orig new = Inl EnforceNotMet"
  by (induction ids arbitrary: orig new) (auto split: option.splits)

text \<open>C25: \<open>SubWorld\<close> called by a member gives it a context in which its rank is the position of its id in
  the list, the parties are the listed ones in that order, and the channel of every other position
  leads to the party with that id. As the list is the same for all members, they agree on the ranks
  of everybody. The id of the context is the parent's id with the suffix.\<close>

theorem sub_world_consistent:
  assumes "distinct (map party_id (desc_parties desc))" "distinct ids" "set ids \<subseteq> party_id ` set (desc_parties desc)"
    and "i < length (desc_parties desc)" "k < length ids" "ids ! k = party_id (desc_parties desc ! i)"
  shows "\<exists>sub. sub_world suffix ids (session_ctx desc i) = Inr sub \<and> ctx_rank sub = k \<and> world_size sub = length ids \<and>
    is_sub_world sub \<and> desc_id (ctx_desc sub) = desc_id desc @ ''-'' @ suffix \<and> map party_id (desc_parties (ctx_desc sub)) = ids \<and>
    (\<forall>j < length ids. \<exists>r < length (desc_parties desc). party_id (desc_parties desc ! r) = ids ! j \<and>
       desc_parties (ctx_desc sub) ! j = desc_parties desc ! r \<and>
       channels sub ! j = (if j = k then None else Some r))"
proof -
  let ?ps = "desc_parties desc" and ?m = "party_rank_map (desc_parties desc)"
  have rank: "\<exists>r < length ?ps. party_id (?ps ! r) = p \<and> ?m p = Some r" if p: "p \<in> set ids" for p
  proof -
    obtain r where "r < length ?ps" "p = party_id (?ps ! r)" using p assms(3) member_rank by blast
    with party_rank_map_lookup [OF assms(1)] show ?thesis by auto
  qed
  let ?ranks = "map (\<lambda>p. the (?m p)) ids"
  have self: "?m (ids ! k) = Some i" using party_rank_map_lookup [OF assms(1,4)] assms(6) by simp
  have "?m p \<noteq> None" if "p \<in> set ids" for p using rank [OF that] by auto
  moreover have "ids ! k \<in> set ids" using assms(5) by simp
  then have "Some i \<in> ?m ` set ids" using self by (metis imageI)
  ultimately obtain k' where k': "sub_world_ranks ?m i ids [] (length ids) = Inr (?ranks, k')"
    and k'2: "k' < length ids" "?m (ids ! k') = Some i"
    using sub_world_ranks_member by metis
  have "ids ! k' = ids ! k" using rank [of "ids ! k'"] k'2 assms(6) by auto
  then have "k' = k" using assms(2,5) k'2(1) by (simp add: nth_eq_iff_index_eq)
  have j: "\<exists>r < length ?ps. party_id (?ps ! r) = ids ! j \<and> ?ps ! (?ranks ! j) = ?ps ! r \<and>
      channels (session_ctx desc i) ! (?ranks ! j) = (if j = k then None else Some r)" if jl: "j < length ids" for j
  proof -
    obtain r where r: "r < length ?ps" "party_id (?ps ! r) = ids ! j" "?m (ids ! j) = Some r"
      using rank [of "ids ! j"] jl by auto
    have "r = i \<longleftrightarrow> ids ! j = ids ! k" using r(2,3) self assms(6) by (metis option.inject)
    then have "r = i \<longleftrightarrow> j = k" using assms(2,5) jl by (simp add: nth_eq_iff_index_eq)
    moreover have "?ranks ! j = r" using r(3) jl by simp
    moreover have "channels (session_ctx desc i) ! r = (if r = i then None else Some r)"
      using r(1) by (simp add: session_ctx_def session_channels_def)
    ultimately show ?thesis using r(1,2) by metis
  qed
  have ids: "map (\<lambda>p. party_id (?ps ! the (?m p))) ids = ids" using rank by (intro map_idI) fastforce
  have ctx: "ctx_desc (session_ctx desc i) = desc" "ctx_rank (session_ctx desc i) = i" by (simp_all add: session_ctx_def)
  define D where "D = desc\<lparr>desc_id := desc_id desc @ ''-'' @ suffix, desc_parties := map (\<lambda>r. ?ps ! r) ?ranks\<rparr>"
  define C where "C = map (\<lambda>r. channels (session_ctx desc i) ! r) ?ranks"
  have "sub_world suffix ids (session_ctx desc i) = new_context D k C True"
    unfolding sub_world_def ctx k' D_def C_def \<open>k' = k\<close> using assms(5) by (simp add: Let_def)
  moreover have "length (desc_parties D) = length ids" "length C = length ids" by (simp_all add: D_def C_def)
  ultimately obtain sub where sub: "sub_world suffix ids (session_ctx desc i) = Inr sub" "ctx_rank sub = k" "ctx_desc sub = D"
      "channels sub = C" "is_sub_world sub"
    using new_context_ok [of k D C True] assms(5) by auto
  have D: "desc_parties D = map (\<lambda>r. ?ps ! r) ?ranks" "desc_id D = desc_id desc @ ''-'' @ suffix" by (simp_all add: D_def)
  show ?thesis
  proof (intro exI [of _ sub] conjI allI impI)
    show "sub_world suffix ids (session_ctx desc i) = Inr sub" "ctx_rank sub = k" "is_sub_world sub"
      "desc_id (ctx_desc sub) = desc_id desc @ ''-'' @ suffix" by (simp_all only: sub D)
    show "world_size sub = length ids" using sub(3) D(1) by (simp add: world_size_def)
    show "map party_id (desc_parties (ctx_desc sub)) = ids" unfolding sub D map_map comp_def by (rule ids)
    fix j assume "j < length ids"
    with j show "\<exists>r < length ?ps. party_id (?ps ! r) = ids ! j \<and> desc_parties (ctx_desc sub) ! j = ?ps ! r \<and>
        channels sub ! j = (if j = k then None else Some r)"
      unfolding sub D C_def by (simp only: nth_map length_map)
  qed
qed

text \<open>C36: \<open>SubWorld\<close> refuses a list with an unknown party, and a list that does not contain the caller.\<close>

theorem sub_world_errors:
  assumes "distinct (map party_id (desc_parties desc))" "i < length (desc_parties desc)"
  shows "(\<not> set ids \<subseteq> party_id ` set (desc_parties desc) \<longrightarrow>
      sub_world suffix ids (session_ctx desc i) = Inl EnforceNotMet) \<and>
    (set ids \<subseteq> party_id ` set (desc_parties desc) \<longrightarrow> party_id (desc_parties desc ! i) \<notin> set ids \<longrightarrow>
      sub_world suffix ids (session_ctx desc i) = Inl RuntimeError)"
proof (intro conjI impI)
  let ?ps = "desc_parties desc" and ?m = "party_rank_map (desc_parties desc)"
  have ctx: "ctx_desc (session_ctx desc i) = desc" "ctx_rank (session_ctx desc i) = i" by (simp_all add: session_ctx_def)
  { assume "\<not> set ids \<subseteq> party_id ` set ?ps"
    then obtain p where "p \<in> set ids" "?m p = None" using party_rank_map_None by blast
    then show "sub_world suffix ids (session_ctx desc i) = Inl EnforceNotMet"
      by (simp add: sub_world_def ctx sub_world_ranks_unknown) }
  { assume ids: "set ids \<subseteq> party_id ` set ?ps" and "party_id (?ps ! i) \<notin> set ids"
    have "?m p \<noteq> None \<and> ?m p \<noteq> Some i" if p: "p \<in> set ids" for p
    proof -
      obtain r where "r < length ?ps" "p = party_id (?ps ! r)" using p ids member_rank by blast
      with p \<open>party_id (?ps ! i) \<notin> set ids\<close> party_rank_map_lookup [OF assms(1)] show ?thesis by auto
    qed
    then have "sub_world_ranks ?m i ids [] (length ids) = Inr (map (\<lambda>p. the (?m p)) ids, length ids)"
      by (intro sub_world_ranks_stranger notI) (blast, metis imageE)
    then show "sub_world suffix ids (session_ctx desc i) = Inl RuntimeError" by (simp add: sub_world_def ctx) }
qed

text \<open>The witnesses: two of three parties form a sub-world.\<close>

theorem sub_world_consistent_witness:
  "\<exists>sub. sub_world ''s'' [''carol'', ''alice''] (session_ctx demo_desc 0) = Inr sub \<and> ctx_rank sub = 1 \<and> world_size sub = 2"
  using sub_world_consistent [of demo_desc "[''carol'', ''alice'']" 0 1 "''s''"]
  by (auto simp: demo_desc_def)

theorem sub_world_errors_witness:
  "sub_world ''s'' [''dave''] (session_ctx demo_desc 0) = Inl EnforceNotMet \<and>
   sub_world ''s'' [''bob'', ''carol''] (session_ctx demo_desc 0) = Inl RuntimeError"
  using sub_world_errors [of demo_desc 0 "[''dave'']" "''s''"]
    sub_world_errors [of demo_desc 0 "[''bob'', ''carol'']" "''s''"]
  by (simp add: demo_desc_def)

subsection \<open>Connecting\<close>

definition connect_timeout :: "nat \<Rightarrow> u32" where
  "connect_timeout attempt = of_nat ((attempt mod 11) + 2) * 1000"

lemma first_success_Suc:
  "(\<exists>k < Suc n. P k \<and> (\<forall>j < k. Q j)) \<longleftrightarrow> P 0 \<or> Q 0 \<and> (\<exists>k < n. P (Suc k) \<and> (\<forall>j < k. Q (Suc j)))"
  unfolding Ex_less_Suc2 All_less_Suc2 by blast

lemma connect_attempts_Inr:
  "connect_attempts ts a n = Inr True \<longleftrightarrow>
    (\<exists>k < n. ts (a + k) (connect_timeout (a + k)) = Inr () \<and>
       (\<forall>j < k. \<exists>e. ts (a + j) (connect_timeout (a + j)) = Inl e \<and> is_network_error e))"
proof (induction n arbitrary: a)
  case (Suc n)
  let ?t = "ts a (connect_timeout a)"
  have step: "connect_attempts ts a (Suc n) = (case ?t of
      Inl e \<Rightarrow> if is_network_error e then connect_attempts ts (Suc a) n else Inl e | Inr _ \<Rightarrow> Inr True)"
    by (simp add: try_connect_def connect_timeout_def split: sum.split)
  have "connect_attempts ts a (Suc n) = Inr True \<longleftrightarrow>
      ?t = Inr () \<or> (\<exists>e. ?t = Inl e \<and> is_network_error e) \<and> connect_attempts ts (Suc a) n = Inr True"
    unfolding step by (auto split: sum.splits)
  then show ?case unfolding first_success_Suc Suc.IH by simp
qed simp

lemma rfold_unit_Inr: "rfold (\<lambda>x _. f x) xs () = Inr () \<longleftrightarrow> (\<forall>x \<in> set xs. f x = Inr ())"
proof (induction xs)
  case (Cons x xs)
  then show ?case by (cases "f x") auto
qed simp

text \<open>\<open>ConnectToMesh\<close> returns exactly if every peer was reached by one of the allowed attempts, all
  earlier attempts having failed with a network error, and every peer's own connection arrived. The
  timeout of an attempt is between 2 and 12 seconds.\<close>

theorem connect_to_mesh_returns:
  "(connect_to_mesh test_send test_recv c = Inr () \<longleftrightarrow>
     (\<forall>idx < world_size c. idx \<noteq> ctx_rank c \<longrightarrow>
        (\<exists>k < unat (connect_retry_times (ctx_desc c)).
           test_send idx k (connect_timeout k) = Inr () \<and>
           (\<forall>j < k. \<exists>e. test_send idx j (connect_timeout j) = Inl e \<and> is_network_error e)) \<and>
        test_recv idx = Inr ())) \<and>
   2000 \<le> connect_timeout k \<and> connect_timeout k \<le> 12000"
proof -
  let ?peers = "filter (\<lambda>idx. idx \<noteq> ctx_rank c) [0..<world_size c]"
  let ?f = "\<lambda>idx. rbind (connect_attempts (test_send idx) 0 (unat (connect_retry_times (ctx_desc c)))) (\<lambda>succeed.
        if succeed then Inr () else Inl RuntimeError)"
  have f: "?f idx = Inr () \<longleftrightarrow> connect_attempts (test_send idx) 0 (unat (connect_retry_times (ctx_desc c))) = Inr True" for idx
    by (cases "connect_attempts (test_send idx) 0 (unat (connect_retry_times (ctx_desc c)))") auto
  have "connect_to_mesh test_send test_recv c = Inr () \<longleftrightarrow>
      rfold (\<lambda>idx _. ?f idx) ?peers () = Inr () \<and> rfold (\<lambda>idx _. test_recv idx) ?peers () = Inr ()"
    by (cases "rfold (\<lambda>idx _. ?f idx) ?peers ()") (auto simp: connect_to_mesh_def Let_def)
  moreover have "connect_timeout k \<in> {2000, 3000, 4000, 5000, 6000, 7000, 8000, 9000, 10000, 11000, 12000}"
  proof -
    have "k mod 11 = 0 \<or> k mod 11 = 1 \<or> k mod 11 = 2 \<or> k mod 11 = 3 \<or> k mod 11 = 4 \<or> k mod 11 = 5 \<or>
      k mod 11 = 6 \<or> k mod 11 = 7 \<or> k mod 11 = 8 \<or> k mod 11 = 9 \<or> k mod 11 = 10" by presburger
    then show ?thesis by (elim disjE) (simp_all add: connect_timeout_def)
  qed
  then have "2000 \<le> connect_timeout k \<and> connect_timeout k \<le> 12000" by (elim insertE) simp_all
  moreover have "set ?peers = {idx. idx < world_size c \<and> idx \<noteq> ctx_rank c}" by auto
  ultimately show ?thesis unfolding rfold_unit_Inr f connect_attempts_Inr add_0 by blast
qed

text \<open>With the default description, the peer answers at the third attempt.\<close>

theorem connect_to_mesh_returns_witness:
  "connect_to_mesh (\<lambda>idx attempt timeout. if attempt < 2 then Inl NetworkError else Inr ()) (\<lambda>idx. Inr ())
     (session_ctx demo_desc 0) = Inr ()"
proof -
  have "unat (connect_retry_times (ctx_desc (session_ctx demo_desc 0))) = 10"
    by (simp add: session_ctx_def demo_desc_def default_context_desc_def)
  then show ?thesis
    using connect_to_mesh_returns [of "\<lambda>idx attempt timeout. if attempt < 2 then Inl NetworkError else Inr ()" "\<lambda>idx. Inr ()"
      "session_ctx demo_desc 0" 0] by (auto intro!: exI [of _ 2])
qed

subsection \<open>Timeouts\<close>

definition has_channels :: "ctx_state \<Rightarrow> bool" where
  "has_channels s \<longleftrightarrow> length (snd s) = world_size (fst s) \<and>
     (\<forall>idx < world_size (fst s). idx \<noteq> ctx_rank (fst s) \<longrightarrow> snd s ! idx \<noteq> None)"

lemma set_recv_timeout_ok:
  assumes "has_channels (c, chs)"
  shows "\<exists>chs'. set_recv_timeout ms (c, chs) = Inr (c\<lparr>ctx_recv_timeout_ms := ms\<rparr>, chs') \<and> length chs' = world_size c \<and>
    (\<forall>idx < world_size c. chs' ! idx = (if idx = ctx_rank c then chs ! idx
       else map_option (\<lambda>m. m\<lparr>cm_recv_timeout_ms := ms\<rparr>) (chs ! idx)))"
proof -
  let ?f = "\<lambda>idx chs. if idx = ctx_rank c then Inr chs else set_channel_timeout ms idx chs"
  have "\<exists>chs'. rfold ?f [0..<k] chs = Inr chs' \<and> length chs' = world_size c \<and>
      (\<forall>idx < world_size c. chs' ! idx = (if idx = ctx_rank c \<or> k \<le> idx then chs ! idx
         else map_option (\<lambda>m. m\<lparr>cm_recv_timeout_ms := ms\<rparr>) (chs ! idx)))" if "k \<le> world_size c" for k
    using that
  proof (induction k)
    case 0
    then show ?case using assms by (simp add: has_channels_def)
  next
    case (Suc k)
    then obtain chs' where IH: "rfold ?f [0..<k] chs = Inr chs'" "length chs' = world_size c"
      "\<And>idx. idx < world_size c \<Longrightarrow> chs' ! idx = (if idx = ctx_rank c \<or> k \<le> idx then chs ! idx
         else map_option (\<lambda>m. m\<lparr>cm_recv_timeout_ms := ms\<rparr>) (chs ! idx))" by auto
    show ?case
    proof (cases "k = ctx_rank c")
      case True
      with IH show ?thesis by (auto simp: rfold_append)
    next
      case False
      then have "chs ! k \<noteq> None" using assms Suc.prems unfolding has_channels_def fst_conv snd_conv by (meson Suc_le_eq)
      then obtain m where m: "chs ! k = Some m" "chs' ! k = Some m" using Suc.prems IH(3) [of k] by auto
      have "rfold ?f [0..<Suc k] chs = Inr (chs'[k := Some (m\<lparr>cm_recv_timeout_ms := ms\<rparr>)])"
        using False m IH(1,2) Suc.prems by (simp add: rfold_append set_channel_timeout_def at_idx_def)
      moreover have "\<forall>idx < world_size c. chs'[k := Some (m\<lparr>cm_recv_timeout_ms := ms\<rparr>)] ! idx =
          (if idx = ctx_rank c \<or> Suc k \<le> idx then chs ! idx else map_option (\<lambda>m. m\<lparr>cm_recv_timeout_ms := ms\<rparr>) (chs ! idx))"
      proof (intro allI impI)
        fix idx assume "idx < world_size c"
        then show "chs'[k := Some (m\<lparr>cm_recv_timeout_ms := ms\<rparr>)] ! idx =
          (if idx = ctx_rank c \<or> Suc k \<le> idx then chs ! idx else map_option (\<lambda>m. m\<lparr>cm_recv_timeout_ms := ms\<rparr>) (chs ! idx))"
          using IH(2,3) False m(1) by (cases "idx = k") auto
      qed
      ultimately show ?thesis using IH(2) by auto
    qed
  qed
  from this [of "world_size c"] show ?thesis by (auto simp: set_recv_timeout_def)
qed

text \<open>C37: \<open>RecvTimeoutGuard\<close> restores the timeout of the context, and gives it to every channel, whatever the guarded
  method does with the timeouts and whether it returns or throws.\<close>

theorem timeout_guard_restores:
  assumes "has_channels (c, chs)"
    and "\<And>c1 chs1. ctx_rank c1 = ctx_rank c \<Longrightarrow> ctx_desc c1 = ctx_desc c \<Longrightarrow> has_channels (c1, chs1) \<Longrightarrow>
      (case method (c1, chs1) of (r, c2, chs2) \<Rightarrow>
         ctx_rank c2 = ctx_rank c \<and> ctx_desc c2 = ctx_desc c \<and> has_channels (c2, chs2))"
  shows "\<exists>r c' chs'. recv_timeout_guard ms method (c, chs) = Inr (r, c', chs') \<and>
    ctx_recv_timeout_ms c' = ctx_recv_timeout_ms c \<and>
    (\<forall>idx < world_size c. idx \<noteq> ctx_rank c \<longrightarrow> map_option cm_recv_timeout_ms (chs' ! idx) = Some (ctx_recv_timeout_ms c))"
proof -
  obtain chs1 where 1: "set_recv_timeout ms (c, chs) = Inr (c\<lparr>ctx_recv_timeout_ms := ms\<rparr>, chs1)" "length chs1 = world_size c"
    "\<forall>idx < world_size c. chs1 ! idx = (if idx = ctx_rank c then chs ! idx else map_option (\<lambda>m. m\<lparr>cm_recv_timeout_ms := ms\<rparr>) (chs ! idx))"
    using set_recv_timeout_ok [OF assms(1)] by blast
  let ?c1 = "c\<lparr>ctx_recv_timeout_ms := ms\<rparr>"
  have "has_channels (?c1, chs1)" using assms(1) 1(2,3) by (simp add: has_channels_def world_size_def)
  obtain r c2 chs2 where m: "method (?c1, chs1) = (r, c2, chs2)" by (cases "method (?c1, chs1)")
  with assms(2) [of ?c1 chs1] \<open>has_channels (?c1, chs1)\<close>
  have 2: "ctx_rank c2 = ctx_rank c" "ctx_desc c2 = ctx_desc c" "has_channels (c2, chs2)" by simp_all
  have ws: "world_size c2 = world_size c" using 2(2) by (simp add: world_size_def)
  obtain chs3 where 3: "set_recv_timeout (ctx_recv_timeout_ms c) (c2, chs2) = Inr (c2\<lparr>ctx_recv_timeout_ms := ctx_recv_timeout_ms c\<rparr>, chs3)"
    "\<forall>idx < world_size c. chs3 ! idx = (if idx = ctx_rank c then chs2 ! idx
       else map_option (\<lambda>m. m\<lparr>cm_recv_timeout_ms := ctx_recv_timeout_ms c\<rparr>) (chs2 ! idx))"
    using set_recv_timeout_ok [OF 2(3)] unfolding ws 2(1) by blast
  have "map_option cm_recv_timeout_ms (chs3 ! idx) = Some (ctx_recv_timeout_ms c)" if "idx < world_size c" "idx \<noteq> ctx_rank c" for idx
    using 3(2) that 2 ws by (auto simp: has_channels_def)
  moreover have "recv_timeout_guard ms method (c, chs) = Inr (r, c2\<lparr>ctx_recv_timeout_ms := ctx_recv_timeout_ms c\<rparr>, chs3)"
    by (simp add: recv_timeout_guard_def 1(1) m 3(1))
  ultimately show ?thesis by auto
qed

text \<open>A method that sets yet another timeout and throws.\<close>

definition demo_channels :: "channel_mem option list" where
  "demo_channels = [None, Some (cm_new 30000), Some (cm_new 30000)]"

lemma demo_has_channels: "has_channels (c, demo_channels)" if "ctx_rank c = 0" "ctx_desc c = demo_desc"
proof -
  have "world_size c = 3" using that(2) by (simp add: world_size_def demo_desc_def)
  moreover have "idx = 1 \<or> idx = 2" if "idx < 3" "idx \<noteq> 0" for idx :: nat using that by linarith
  ultimately show ?thesis using that(1) by (fastforce simp: has_channels_def demo_channels_def)
qed

theorem timeout_guard_restores_witness:
  "\<exists>r c' chs'. recv_timeout_guard 5 (\<lambda>(c, chs). (Inl RuntimeError :: unit result, c\<lparr>ctx_recv_timeout_ms := 7\<rparr>, demo_channels))
     (session_ctx demo_desc 0, demo_channels) = Inr (r, c', chs') \<and> ctx_recv_timeout_ms c' = 30000"
proof -
  have c: "ctx_rank (session_ctx demo_desc 0) = 0" "ctx_desc (session_ctx demo_desc 0) = demo_desc"
    "ctx_recv_timeout_ms (session_ctx demo_desc 0) = 30000"
    by (simp_all add: session_ctx_def demo_desc_def default_context_desc_def)
  show ?thesis
    using timeout_guard_restores [of "session_ctx demo_desc 0" demo_channels
      "\<lambda>(c, chs). (Inl RuntimeError :: unit result, c\<lparr>ctx_recv_timeout_ms := 7\<rparr>, demo_channels)" 5]
    by (auto simp: c demo_has_channels)
qed

end
