(* ===== verification/Ge2n.thy ===== *)
theory Ge2n
  imports Prelude
begin

text \<open>
  \<open>crypto/experimental/dpf/ge2n.h\<close>: elements of the additive group of integers modulo \<open>2 ^ n\<close>, stored in
  128 bits. The bits above \<open>n\<close> are not cleared by the operations; \<open>ge_val\<close> does. The template parameter
  \<open>N\<close> is the argument \<open>n\<close>.
\<close>

type_synonym ge2n = u128

definition ge_mask :: "nat \<Rightarrow> u128" where
  "ge_mask n = (if n = 128 then - 1 else push_bit n 1 - 1)"

definition ge_val :: "nat \<Rightarrow> ge2n \<Rightarrow> u128" where
  "ge_val n a = a AND ge_mask n"

definition ge_bit :: "ge2n \<Rightarrow> nat \<Rightarrow> bool result" where
  "ge_bit a i = rbind (enforce (i < 128)) (\<lambda>_. Inr (drop_bit i a AND 1 \<noteq> 0))"

definition ge_reverse :: "nat \<Rightarrow> ge2n \<Rightarrow> ge2n" where
  "ge_reverse n a = ge_mask n - ge_val n a + 1"

definition ge_add :: "ge2n \<Rightarrow> ge2n \<Rightarrow> ge2n" where
  "ge_add a b = a + b"

definition ge_sub :: "ge2n \<Rightarrow> ge2n \<Rightarrow> ge2n" where
  "ge_sub a b = a - b"

definition ge_eq :: "nat \<Rightarrow> ge2n \<Rightarrow> ge2n \<Rightarrow> bool" where
  "ge_eq n a b \<longleftrightarrow> ge_val n a = ge_val n b"

definition ge_gt :: "nat \<Rightarrow> ge2n \<Rightarrow> ge2n \<Rightarrow> bool" where
  "ge_gt n a b \<longleftrightarrow> ge_val n a > ge_val n b"

definition ge_ge :: "nat \<Rightarrow> ge2n \<Rightarrow> ge2n \<Rightarrow> bool" where
  "ge_ge n a b \<longleftrightarrow> ge_val n a \<ge> ge_val n b"

definition ge_lt :: "nat \<Rightarrow> ge2n \<Rightarrow> ge2n \<Rightarrow> bool" where
  "ge_lt n a b \<longleftrightarrow> ge_val n a < ge_val n b"

definition ge_le :: "nat \<Rightarrow> ge2n \<Rightarrow> ge2n \<Rightarrow> bool" where
  "ge_le n a b \<longleftrightarrow> ge_val n a \<le> ge_val n b"

subsection \<open>The group\<close>

lemma ge_mask_eq: "n \<le> 128 \<Longrightarrow> ge_mask n = mask n"
  by (auto simp: ge_mask_def mask_eq_decr_exp push_bit_of_1 mask_full [symmetric])

lemma ge_val_eq: "n \<le> 128 \<Longrightarrow> ge_val n a = take_bit n a"
  by (simp add: ge_val_def ge_mask_eq take_bit_eq_mask)

lemma ge_bit_eq: "i < 128 \<Longrightarrow> ge_bit a i = Inr (bit a i)"
  by (simp add: ge_bit_def enforce_def and_one_eq bit_iff_odd_drop_bit odd_iff_mod_2_eq_one)

named_theorems ge_simps \<open>the group modulo a power of two\<close>

lemma take_bit_word_minus: "take_bit n (- take_bit n a) = take_bit n (- a :: 'a :: len word)"
  by transfer (auto simp: take_bit_minus)

lemma take_bit_word_add: "take_bit n (take_bit n a + take_bit n b) = take_bit n (a + b :: 'a :: len word)"
  by transfer (auto simp: take_bit_add)

lemma take_bit_reverse [ge_simps]:
  assumes "n \<le> 128"
  shows "take_bit n (ge_reverse n a) = take_bit n (- a)"
proof -
  have "mask n + 1 = (2 ^ n :: u128)" by (simp add: mask_eq_decr_exp)
  then have "take_bit n (mask n + 1 :: u128) = 0"
    by (auto intro!: bit_eqI simp: bit_take_bit_iff bit_exp_iff)
  then have "take_bit n ((mask n + 1) + - take_bit n a) = take_bit n (take_bit n (- take_bit n a))"
    using take_bit_word_add [of n "mask n + 1" "- take_bit n a"] by simp
  also have "\<dots> = take_bit n (- a)" by (simp add: take_bit_word_minus)
  finally show ?thesis using assms by (simp add: ge_reverse_def ge_mask_eq ge_val_eq algebra_simps)
qed

text \<open>Congruence modulo \<open>2 ^ n\<close>, with rules that compute through the operations.\<close>

definition ge_cong :: "nat \<Rightarrow> u128 \<Rightarrow> u128 \<Rightarrow> bool" where
  "ge_cong n a b \<longleftrightarrow> take_bit n a = take_bit n b"

named_theorems ge_intros \<open>congruence modulo a power of two\<close>

lemma ge_cong_refl [ge_intros]: "ge_cong n a a"
  by (simp add: ge_cong_def)

lemma ge_cong_trans [trans]: "ge_cong n a b \<Longrightarrow> ge_cong n b c \<Longrightarrow> ge_cong n a c"
  by (simp add: ge_cong_def)

lemma ge_cong_sym: "ge_cong n a b \<Longrightarrow> ge_cong n b a"
  by (simp add: ge_cong_def)

lemma ge_cong_add [ge_intros]: "ge_cong n a a' \<Longrightarrow> ge_cong n b b' \<Longrightarrow> ge_cong n (a + b) (a' + b')"
  unfolding ge_cong_def by (metis take_bit_word_add)

lemma ge_cong_minus [ge_intros]: "ge_cong n a a' \<Longrightarrow> ge_cong n (- a) (- a')"
  unfolding ge_cong_def by (metis take_bit_word_minus)

lemma ge_cong_diff [ge_intros]: "ge_cong n a a' \<Longrightarrow> ge_cong n b b' \<Longrightarrow> ge_cong n (a - b) (a' - b')"
  unfolding diff_conv_add_uminus by (intro ge_cong_add ge_cong_minus)

lemma ge_cong_ge_add [ge_intros]: "ge_cong n a a' \<Longrightarrow> ge_cong n b b' \<Longrightarrow> ge_cong n (ge_add a b) (a' + b')"
  unfolding ge_add_def by (rule ge_cong_add)

lemma ge_cong_reverse [ge_intros]: "n \<le> 128 \<Longrightarrow> ge_cong n a a' \<Longrightarrow> ge_cong n (ge_reverse n a) (- a')"
  using ge_cong_minus [of n a a'] by (simp add: ge_cong_def ge_simps)

lemma ge_cong_val [ge_intros]: "n \<le> 128 \<Longrightarrow> ge_cong n a a' \<Longrightarrow> ge_cong n (ge_val n a) a'"
  by (simp add: ge_cong_def ge_val_eq)

lemma ge_cong_iff: "n \<le> 128 \<Longrightarrow> ge_cong n a b \<longleftrightarrow> ge_eq n a b"
  by (simp add: ge_cong_def ge_eq_def ge_val_eq)

lemma ge_eq_bits: "m \<le> 128 \<Longrightarrow> ge_eq m x y \<longleftrightarrow> (\<forall>j < m. bit x j = bit y j)"
  by (auto simp: ge_eq_def ge_val_eq bit_eq_iff bit_take_bit_iff; meson less_le_trans)

lemma unat_ge_val: "n \<le> 128 \<Longrightarrow> unat (ge_val n a) = unat a mod 2 ^ n"
  by (simp add: ge_val_eq unsigned_take_bit_eq flip: take_bit_eq_mod)

text \<open>C34: \<open>GE2n\<close> is arithmetic modulo \<open>2 ^ n\<close>: every value is below \<open>2 ^ n\<close>, also of elements whose stored bits
  exceed it; sum, difference and reverse are those of the integers modulo \<open>2 ^ n\<close>, and the comparisons
  compare the reduced values.\<close>

theorem ge2n_modular:
  assumes "n \<le> 128"
  shows "unat (ge_val n a) < 2 ^ n \<and>
    int (unat (ge_val n (ge_add a b))) = (int (unat a) + int (unat b)) mod 2 ^ n \<and>
    int (unat (ge_val n (ge_sub a b))) = (int (unat a) - int (unat b)) mod 2 ^ n \<and>
    int (unat (ge_val n (ge_reverse n a))) = (- int (unat a)) mod 2 ^ n \<and>
    (ge_eq n a b \<longleftrightarrow> unat a mod 2 ^ n = unat b mod 2 ^ n) \<and>
    (ge_lt n a b \<longleftrightarrow> unat a mod 2 ^ n < unat b mod 2 ^ n) \<and> (ge_gt n a b \<longleftrightarrow> ge_lt n b a) \<and>
    (ge_le n a b \<longleftrightarrow> \<not> ge_lt n b a) \<and> (ge_ge n a b \<longleftrightarrow> \<not> ge_lt n a b)"
proof -
  have uint: "int (unat x) = uint x" for x :: u128 by simp
  have val: "uint (ge_val n x) = take_bit n (uint x)" for x
    using assms by (simp add: ge_val_eq unsigned_take_bit_eq)
  have mod: "take_bit n (take_bit 128 k) = k mod 2 ^ n" for k :: int
    using assms by (simp add: take_bit_eq_mod mod_mod_cancel le_imp_power_dvd del: power_numeral)
  have uint_mod: "uint (x + y) = take_bit 128 (uint x + uint y)" "uint (x - y) = take_bit 128 (uint x - uint y)"
    "uint (- x) = take_bit 128 (- uint x)" for x y :: u128
    by (simp_all add: take_bit_eq_mod uint_word_ariths)
  have less: "ge_val n x < ge_val n y \<longleftrightarrow> unat x mod 2 ^ n < unat y mod 2 ^ n" for x y
    by (simp add: word_less_nat_alt unat_ge_val [OF assms])
  have "unat (ge_val n a) < 2 ^ n" by (simp add: unat_ge_val [OF assms])
  moreover have "int (unat (ge_val n (ge_add a b))) = (int (unat a) + int (unat b)) mod 2 ^ n"
    unfolding uint ge_add_def val uint_mod by (rule mod)
  moreover have "int (unat (ge_val n (ge_sub a b))) = (int (unat a) - int (unat b)) mod 2 ^ n"
    unfolding uint ge_sub_def val uint_mod by (rule mod)
  moreover have reverse: "ge_val n (ge_reverse n a) = ge_val n (- a)" using assms by (simp add: ge_val_eq ge_simps)
  have "int (unat (ge_val n (ge_reverse n a))) = (- int (unat a)) mod 2 ^ n"
    unfolding uint reverse val uint_mod by (rule mod)
  moreover have "ge_eq n a b \<longleftrightarrow> unat a mod 2 ^ n = unat b mod 2 ^ n"
    unfolding ge_eq_def unat_ge_val [OF assms, symmetric] by (metis word_unat_eq_iff)
  moreover have "ge_lt n a b \<longleftrightarrow> unat a mod 2 ^ n < unat b mod 2 ^ n" unfolding ge_lt_def by (rule less)
  ultimately show ?thesis unfolding ge_gt_def ge_le_def ge_ge_def ge_lt_def not_less by blast
qed

text \<open>Eight bits.\<close>

theorem ge2n_modular_witness:
  "int (unat (ge_val 8 (ge_sub 3 300))) = (int (unat (3 :: u128)) - int (unat (300 :: u128))) mod 2 ^ 8"
  using ge2n_modular [of 8 3 300] by simp

end
