(* ===== verification/Dpf.thy ===== *)
theory Dpf
  imports Ge2n
begin

text \<open>
  \<open>crypto/experimental/dpf/dpf.h\<close> and \<open>dpf.cc\<close>: the distributed point function. Two keys are generated for a
  point \<open>alpha\<close> and a value \<open>beta\<close>; each party evaluates its key at an input, and the two outputs add up to
  \<open>beta\<close> at \<open>alpha\<close> and to 0 elsewhere.

  The pseudo-random generator (AES in counter mode over OpenSSL) is a parameter: \<open>prg b seed k\<close> is the
  \<open>k\<close>-th block of the generator with a buffer of \<open>b\<close> blocks. The template parameters \<open>M\<close> and \<open>N\<close> are the
  arguments \<open>m\<close> and \<open>n\<close>. Positions and levels, which are below \<open>2 ^ 32\<close>, are natural numbers.
\<close>

type_synonym prg = "nat \<Rightarrow> u128 \<Rightarrow> nat \<Rightarrow> u128"

subsection \<open>Keys\<close>

record dpf_cw =
  cw_seed :: u128
  cw_t_store :: u8

record dpf_key =
  enable_evalall :: bool
  cws_vec :: "dpf_cw list"
  last_cw_vec :: "u128 list"
  key_rank :: bool
  mseed :: u128

definition default_cw :: dpf_cw where
  "default_cw = \<lparr>cw_seed = 0, cw_t_store = 0\<rparr>"

definition get_lt :: "dpf_cw \<Rightarrow> u8" where
  "get_lt cw = cw_t_store cw AND 1"

definition get_rt :: "dpf_cw \<Rightarrow> u8" where
  "get_rt cw = drop_bit 1 (cw_t_store cw) AND 1"

definition set_lt :: "u8 \<Rightarrow> dpf_cw \<Rightarrow> dpf_cw result" where
  "set_lt t_left cw = rbind (enforce (t_left = 0 \<or> t_left = 1))
     (\<lambda>_. Inr (cw\<lparr>cw_t_store := push_bit 1 (get_rt cw) + t_left\<rparr>))"

definition set_rt :: "u8 \<Rightarrow> dpf_cw \<Rightarrow> dpf_cw result" where
  "set_rt t_right cw = rbind (enforce (t_right = 0 \<or> t_right = 1))
     (\<lambda>_. Inr (cw\<lparr>cw_t_store := push_bit 1 t_right + get_lt cw\<rparr>))"

definition new_dpf_key :: "bool \<Rightarrow> u128 \<Rightarrow> dpf_key" where
  "new_dpf_key rank seed = \<lparr>enable_evalall = False, cws_vec = [], last_cw_vec = [], key_rank = rank, mseed = seed\<rparr>"

subsection \<open>The generator\<close>

definition dpf_prg :: "prg \<Rightarrow> u128 \<Rightarrow> ge2n" where
  "dpf_prg prg seed = prg 1 seed 0"

definition split_dpf_seed :: "prg \<Rightarrow> u128 \<Rightarrow> u128 \<times> bool \<times> u128 \<times> bool" where
  "split_dpf_seed prg seed =
     (let seed_left = prg 3 seed 0; seed_right = prg 3 seed 1; tmp = prg 3 seed 2 in
      (seed_left, drop_bit 1 tmp AND 1 \<noteq> 0, seed_right, drop_bit 2 tmp AND 1 \<noteq> 0))"

text \<open>\<open>floor (log q)\<close> of the natural logarithm, for the quotients of 128 that occur.\<close>

definition floor_log :: "nat \<Rightarrow> nat" where
  "floor_log q = (if q < 3 then 0 else if q < 8 then 1 else if q < 21 then 2 else if q < 55 then 3 else 4)"

text \<open>\<open>ceil (m - log (c / n))\<close> is converted to \<open>size_t\<close>, which is undefined when it is negative.\<close>

definition get_terminate_level :: "bool \<Rightarrow> nat \<Rightarrow> nat \<Rightarrow> nat result" where
  "get_terminate_level evalall m n =
     (if \<not> evalall then Inr m
      else rbind (assert_that (floor_log (128 div n) \<le> m)) (\<lambda>_. Inr (min m (m - floor_log (128 div n)))))"

subsection \<open>Key generation\<close>

text \<open>The working seeds and bits of the two parties and the correction words so far.\<close>

record dpf_gen_state =
  seeds0 :: u128
  seeds1 :: u128
  t0 :: bool
  t1 :: bool
  gen_cws :: "dpf_cw list"

definition dpf_gen_level :: "prg \<Rightarrow> ge2n \<Rightarrow> nat \<Rightarrow> dpf_gen_state \<Rightarrow> dpf_gen_state result" where
  "dpf_gen_level prg alpha i st =
     rbind (ge_bit alpha i) (\<lambda>alpha_bit.
     let (seed_left0, t_left0, seed_right0, t_right0) = split_dpf_seed prg (seeds0 st);
         (seed_left1, t_left1, seed_right1, t_right1) = split_dpf_seed prg (seeds1 st);
         keep_seed0 = (if alpha_bit then seed_right0 else seed_left0);
         keep_seed1 = (if alpha_bit then seed_right1 else seed_left1);
         lose_seed0 = (if alpha_bit then seed_left0 else seed_right0);
         lose_seed1 = (if alpha_bit then seed_left1 else seed_right1);
         t_keep0 = (if alpha_bit then t_right0 else t_left0);
         t_keep1 = (if alpha_bit then t_right1 else t_left1);
         cw_seed' = lose_seed0 XOR lose_seed1;
         cw_t_left = (((t_left0 \<noteq> t_left1) \<noteq> alpha_bit) \<noteq> True);
         cw_t_right = ((t_right0 \<noteq> t_right1) \<noteq> alpha_bit);
         cw_t_keep = (if alpha_bit then cw_t_right else cw_t_left) in
     rbind (at_idx (gen_cws st) i) (\<lambda>cw.
     rbind (set_lt (of_bool cw_t_left) (cw\<lparr>cw_seed := cw_seed'\<rparr>)) (\<lambda>cw.
     rbind (set_rt (of_bool cw_t_right) cw) (\<lambda>cw.
     Inr \<lparr>seeds0 = (if t0 st then keep_seed0 XOR cw_seed' else keep_seed0),
          seeds1 = (if t1 st then keep_seed1 XOR cw_seed' else keep_seed1),
          t0 = (t_keep0 \<noteq> (t0 st \<and> cw_t_keep)),
          t1 = (t_keep1 \<noteq> (t1 st \<and> cw_t_keep)),
          gen_cws = (gen_cws st)[i := cw]\<rparr>))))"

text \<open>The last correction words: one for every leaf below the level of early termination.\<close>

fun dpf_last_cws :: "prg \<Rightarrow> nat \<Rightarrow> bool \<Rightarrow> ge2n \<Rightarrow> nat \<Rightarrow> nat \<Rightarrow> nat \<Rightarrow> ge2n \<Rightarrow> ge2n \<Rightarrow> u128 list" where
  "dpf_last_cws prg n t beta alpha_pos i 0 prg0 prg1 = []"
| "dpf_last_cws prg n t beta alpha_pos i (Suc left) prg0 prg1 =
     (let last_cw = (if i = alpha_pos then ge_add (ge_add beta (ge_reverse n prg0)) prg1
                     else ge_add (ge_reverse n prg0) prg1) in
      (if t then ge_val n (ge_reverse n last_cw) else ge_val n last_cw) #
      dpf_last_cws prg n t beta alpha_pos (i + 1) left (dpf_prg prg (ge_val n prg0)) (dpf_prg prg (ge_val n prg1)))"

definition dpf_key_gen ::
  "prg \<Rightarrow> nat \<Rightarrow> nat \<Rightarrow> ge2n \<Rightarrow> ge2n \<Rightarrow> u128 \<Rightarrow> u128 \<Rightarrow> bool \<Rightarrow> (dpf_key \<times> dpf_key) result" where
  "dpf_key_gen prg m n alpha beta first_mk second_mk evalall =
     rbind (get_terminate_level evalall m n) (\<lambda>term_level.
      let first_key = new_dpf_key False first_mk;
          second_key = new_dpf_key True second_mk in
      rbind (rfold (dpf_gen_level prg alpha) [0..<term_level]
        \<lparr>seeds0 = first_mk, seeds1 = second_mk, t0 = False, t1 = True, gen_cws = replicate term_level default_cw\<rparr>) (\<lambda>st.
      let prg0 = dpf_prg prg (seeds0 st); prg1 = dpf_prg prg (seeds1 st) in
      rbind (enforce (last_cw_vec first_key = [])) (\<lambda>_.
      rbind (enforce (last_cw_vec second_key = [])) (\<lambda>_.
      if \<not> evalall then
        let last_cw = ge_val n (ge_add (ge_add beta (ge_reverse n prg0)) prg1);
            last_cw = (if t1 st then ge_val n (ge_reverse n last_cw) else last_cw) in
        Inr (first_key\<lparr>cws_vec := gen_cws st, last_cw_vec := [last_cw]\<rparr>,
             second_key\<lparr>cws_vec := gen_cws st, last_cw_vec := [last_cw]\<rparr>)
      else
        let last_cws = dpf_last_cws prg n (t1 st) beta (unat (drop_bit term_level (ge_val m alpha))) 0
                         (2 ^ (m - term_level)) prg0 prg1 in
        Inr (first_key\<lparr>enable_evalall := True, cws_vec := gen_cws st, last_cw_vec := last_cws\<rparr>,
             second_key\<lparr>enable_evalall := True, cws_vec := gen_cws st, last_cw_vec := last_cws\<rparr>)))))"

subsection \<open>Evaluation\<close>

text \<open>The seeds and bits of both children of a node.\<close>

definition dpf_children :: "prg \<Rightarrow> dpf_cw \<Rightarrow> u128 \<Rightarrow> bool \<Rightarrow> (u128 \<times> bool) \<times> (u128 \<times> bool)" where
  "dpf_children prg cw seed t =
     (let (seed_left, t_left, seed_right, t_right) = split_dpf_seed prg seed in
      ((if t then seed_left XOR cw_seed cw else seed_left, t_left \<noteq> (t \<and> get_lt cw \<noteq> 0)),
       (if t then seed_right XOR cw_seed cw else seed_right, t_right \<noteq> (t \<and> get_rt cw \<noteq> 0))))"

definition dpf_eval_level :: "prg \<Rightarrow> dpf_key \<Rightarrow> ge2n \<Rightarrow> nat \<Rightarrow> u128 \<times> bool \<Rightarrow> (u128 \<times> bool) result" where
  "dpf_eval_level prg key x i = (\<lambda>(seed, t).
     rbind (at_idx (cws_vec key) i) (\<lambda>cw.
     rbind (ge_bit x i) (\<lambda>b.
     Inr (if b then snd (dpf_children prg cw seed t) else fst (dpf_children prg cw seed t)))))"

text \<open>The output at a leaf.\<close>

definition dpf_out :: "nat \<Rightarrow> bool \<Rightarrow> ge2n \<Rightarrow> bool \<Rightarrow> u128 \<Rightarrow> ge2n" where
  "dpf_out n rank prg t last_cw =
     (let tmp = (if t then last_cw else 0) in if rank then ge_reverse n (ge_add prg tmp) else ge_add prg tmp)"

definition dpf_eval :: "prg \<Rightarrow> nat \<Rightarrow> nat \<Rightarrow> dpf_key \<Rightarrow> ge2n \<Rightarrow> ge2n result" where
  "dpf_eval prg m n key x =
     rbind (enforce (\<not> enable_evalall key)) (\<lambda>_.
     rbind (rfold (dpf_eval_level prg key x) [0..<m] (mseed key, key_rank key)) (\<lambda>(seed, t).
     rbind (at_idx (last_cw_vec key) 0) (\<lambda>last_cw.
     Inr (ge_val n (dpf_out n (key_rank key) (dpf_prg prg seed) t last_cw)))))"

text \<open>The leaves below a node at the level of early termination. The shift \<open>i << term_level\<close> is a shift of
  a 32-bit integer: it wraps around, and is undefined from 32 on.\<close>

fun dpf_leaves ::
  "prg \<Rightarrow> nat \<Rightarrow> dpf_key \<Rightarrow> nat \<Rightarrow> nat \<Rightarrow> bool \<Rightarrow> nat \<Rightarrow> nat \<Rightarrow> ge2n \<Rightarrow> ge2n list \<Rightarrow> ge2n list result" where
  "dpf_leaves prg n key term_level pos t i 0 prg' result = Inr result"
| "dpf_leaves prg n key term_level pos t i (Suc left) prg' result =
     rbind (at_idx (last_cw_vec key) i) (\<lambda>last_cw.
     rbind (assert_that (term_level < 32)) (\<lambda>_.
     rbind (set_idx result (pos + i * 2 ^ term_level mod 2 ^ 32) (dpf_out n (key_rank key) prg' t last_cw)) (\<lambda>result.
     dpf_leaves prg n key term_level pos t (i + 1) left (dpf_prg prg (ge_val n prg')) result)))"

function dpf_traverse ::
  "prg \<Rightarrow> nat \<Rightarrow> nat \<Rightarrow> dpf_key \<Rightarrow> nat \<Rightarrow> nat \<Rightarrow> nat \<Rightarrow> u128 \<Rightarrow> bool \<Rightarrow> ge2n list \<Rightarrow> ge2n list result" where
  "dpf_traverse prg m n key term_level level pos seed t result =
     (if level < term_level then
        rbind (at_idx (cws_vec key) level) (\<lambda>cw.
        let ((seed_left, t_left), (seed_right, t_right)) = dpf_children prg cw seed t in
        rbind (dpf_traverse prg m n key term_level (level + 1) pos seed_left t_left result) (\<lambda>result.
        dpf_traverse prg m n key term_level (level + 1) (2 ^ level + pos) seed_right t_right result))
      else dpf_leaves prg n key term_level pos t 0 (2 ^ (m - term_level)) (dpf_prg prg seed) result)"
  by pat_completeness auto

termination
  by (relation "measure (\<lambda>(prg, m, n, key, term_level, level, pos, seed, t, result). term_level - level)") auto

declare dpf_traverse.simps [simp del]

text \<open>The local vector \<open>result\<close> of \<open>2 ^ M\<close> elements, which is allocated and never used, is left out.\<close>

definition dpf_eval_all :: "prg \<Rightarrow> nat \<Rightarrow> nat \<Rightarrow> dpf_key \<Rightarrow> ge2n list \<Rightarrow> ge2n list result" where
  "dpf_eval_all prg m n key out =
     rbind (enforce (enable_evalall key)) (\<lambda>_.
     rbind (get_terminate_level True m n) (\<lambda>term_level.
     dpf_traverse prg m n key term_level 0 0 (mseed key) (key_rank key) out))"

end
