(* ===== verification/Dpf_Correct.thy ===== *)
theory Dpf_Correct
  imports Dpf
begin

text \<open>
  Correctness of the distributed point function. Along the path of \<open>alpha\<close> the states of the two
  evaluations are those of the key generation and their control bits differ; as soon as an input
  leaves the path, the two states are equal, and stay so.
\<close>

subsection \<open>Correction words\<close>

lemma get_set_t [simp]:
  "set_lt (of_bool b) cw = Inr (cw\<lparr>cw_t_store := push_bit 1 (get_rt cw) + of_bool b\<rparr>)"
  "set_rt (of_bool b) cw = Inr (cw\<lparr>cw_t_store := push_bit 1 (of_bool b) + get_lt cw\<rparr>)"
  by (simp_all add: set_lt_def set_rt_def enforce_def)

lemma drop_bit_1_and_1: "drop_bit 1 (x :: u8) AND 1 = of_bool (bit x 1)"
  by (simp add: and_one_eq bit_iff_odd_drop_bit mod_2_eq_odd)

lemma cw_bits:
  fixes cw :: dpf_cw and a :: bool
  defines "cw' \<equiv> cw\<lparr>cw_t_store := push_bit 1 (get_rt cw) + of_bool a\<rparr>"
  shows "get_lt (cw'\<lparr>cw_t_store := push_bit 1 (of_bool b) + get_lt cw'\<rparr>) = of_bool a"
    "get_rt (cw'\<lparr>cw_t_store := push_bit 1 (of_bool b) + get_lt cw'\<rparr>) = of_bool b"
proof -
  have rt: "get_rt cw = 0 \<or> get_rt cw = 1" by (simp add: get_rt_def and_one_eq mod_2_eq_odd)
  then have lt: "get_lt cw' = of_bool a" by (cases a) (auto simp: get_lt_def cw'_def)
  show "get_lt (cw'\<lparr>cw_t_store := push_bit 1 (of_bool b) + get_lt cw'\<rparr>) = of_bool a"
    unfolding lt by (cases a; cases b) (simp_all add: get_lt_def)
  show "get_rt (cw'\<lparr>cw_t_store := push_bit 1 (of_bool b) + get_lt cw'\<rparr>) = of_bool b"
    unfolding lt by (cases a; cases b) (simp_all add: get_rt_def)
qed

subsection \<open>Paths\<close>

definition dpf_child :: "prg \<Rightarrow> dpf_cw \<Rightarrow> bool \<Rightarrow> u128 \<times> bool \<Rightarrow> u128 \<times> bool" where
  "dpf_child prg cw b st = (if b then snd (dpf_children prg cw (fst st) (snd st)) else fst (dpf_children prg cw (fst st) (snd st)))"

text \<open>The state after \<open>l\<close> levels on the path of the bits \<open>x\<close>.\<close>

primrec dpf_path :: "prg \<Rightarrow> dpf_cw list \<Rightarrow> (nat \<Rightarrow> bool) \<Rightarrow> u128 \<times> bool \<Rightarrow> nat \<Rightarrow> u128 \<times> bool" where
  "dpf_path prg cws x st 0 = st"
| "dpf_path prg cws x st (Suc l) = dpf_child prg (cws ! l) (x l) (dpf_path prg cws x st l)"

lemma dpf_path_cong:
  "(\<And>j. j < l \<Longrightarrow> cws ! j = cws' ! j \<and> x j = y j) \<Longrightarrow> dpf_path prg cws x st l = dpf_path prg cws' y st l"
  by (induction l) auto

lemma dpf_eval_levels:
  assumes "T \<le> length (cws_vec key)" "T \<le> 128"
  shows "rfold (dpf_eval_level prg key x) [0..<T] st = Inr (dpf_path prg (cws_vec key) (bit x) st T)"
  using assms
proof (induction T)
  case (Suc T)
  then show ?case
    by (cases "dpf_path prg (cws_vec key) (bit x) st T")
      (simp add: rfold_append dpf_eval_level_def at_idx_in ge_bit_eq dpf_child_def)
qed simp

text \<open>One level of the key generation: the new states are the children on the path of \<open>alpha\<close>; off the
  path the correction word makes the children of the two parties equal.\<close>

lemma dpf_gen_level_ok:
  assumes "i < length (gen_cws st)" "i < 128"
  shows "\<exists>st' cw. dpf_gen_level prg alpha i st = Inr st' \<and> gen_cws st' = (gen_cws st)[i := cw] \<and>
    (seeds0 st', t0 st') = dpf_child prg cw (bit alpha i) (seeds0 st, t0 st) \<and>
    (seeds1 st', t1 st') = dpf_child prg cw (bit alpha i) (seeds1 st, t1 st) \<and>
    (t0 st \<noteq> t1 st \<longrightarrow> t0 st' \<noteq> t1 st' \<and>
      dpf_child prg cw (\<not> bit alpha i) (seeds0 st, t0 st) = dpf_child prg cw (\<not> bit alpha i) (seeds1 st, t1 st))"
proof -
  obtain sl0 tl0 sr0 tr0 where s0: "split_dpf_seed prg (seeds0 st) = (sl0, tl0, sr0, tr0)" by (metis prod_cases4)
  obtain sl1 tl1 sr1 tr1 where s1: "split_dpf_seed prg (seeds1 st) = (sl1, tl1, sr1, tr1)" by (metis prod_cases4)
  let ?b = "bit alpha i"
  let ?seed = "(if ?b then sl0 else sr0) XOR (if ?b then sl1 else sr1)"
  let ?tl = "((tl0 \<noteq> tl1) \<noteq> ?b) \<noteq> True" and ?tr = "(tr0 \<noteq> tr1) \<noteq> ?b"
  define cw1 where "cw1 = (gen_cws st ! i)\<lparr>cw_seed := ?seed\<rparr>"
  define cw2 where "cw2 = cw1\<lparr>cw_t_store := push_bit 1 (get_rt cw1) + of_bool ?tl\<rparr>"
  define cw where "cw = cw2\<lparr>cw_t_store := push_bit 1 (of_bool ?tr) + get_lt cw2\<rparr>"
  have bits: "get_lt cw = of_bool ?tl" "get_rt cw = of_bool ?tr"
    unfolding cw_def cw2_def by (rule cw_bits)+
  have seed: "cw_seed cw = ?seed" by (simp add: cw_def cw2_def cw1_def)
  let ?st' = "\<lparr>seeds0 = (if t0 st then (if ?b then sr0 else sl0) XOR ?seed else (if ?b then sr0 else sl0)),
      seeds1 = (if t1 st then (if ?b then sr1 else sl1) XOR ?seed else (if ?b then sr1 else sl1)),
      t0 = ((if ?b then tr0 else tl0) \<noteq> (t0 st \<and> (if ?b then ?tr else ?tl))),
      t1 = ((if ?b then tr1 else tl1) \<noteq> (t1 st \<and> (if ?b then ?tr else ?tl))), gen_cws = (gen_cws st)[i := cw]\<rparr>"
  have "dpf_gen_level prg alpha i st = Inr ?st'"
    unfolding dpf_gen_level_def ge_bit_eq [OF assms(2)] s0 s1 rbind_Inr Let_def prod.case at_idx_in [OF assms(1)]
      get_set_t cw1_def [symmetric] cw2_def [symmetric] cw_def [symmetric] by (rule refl)
  moreover have "dpf_child prg cw c (seeds0 st, t0 st) =
      (if t0 st then (if c then sr0 else sl0) XOR ?seed else (if c then sr0 else sl0),
       (if c then tr0 else tl0) \<noteq> (t0 st \<and> (if c then ?tr else ?tl)))"
    "dpf_child prg cw c (seeds1 st, t1 st) =
      (if t1 st then (if c then sr1 else sl1) XOR ?seed else (if c then sr1 else sl1),
       (if c then tr1 else tl1) \<noteq> (t1 st \<and> (if c then ?tr else ?tl)))" for c
    by (simp_all add: dpf_child_def dpf_children_def s0 s1 Let_def bits seed)
  ultimately show ?thesis
    by (intro exI [of _ ?st'] exI [of _ cw]) (auto simp: xor.assoc xor.commute xor.left_commute)
qed

text \<open>What the correction words of a pair of keys for \<open>alpha\<close> achieve.\<close>

definition cws_good :: "prg \<Rightarrow> dpf_cw list \<Rightarrow> (nat \<Rightarrow> bool) \<Rightarrow> u128 \<Rightarrow> u128 \<Rightarrow> nat \<Rightarrow> bool" where
  "cws_good prg cws a k0 k1 T \<longleftrightarrow>
     (\<forall>l \<le> T. snd (dpf_path prg cws a (k0, False) l) \<noteq> snd (dpf_path prg cws a (k1, True) l)) \<and>
     (\<forall>l < T. dpf_child prg (cws ! l) (\<not> a l) (dpf_path prg cws a (k0, False) l) =
              dpf_child prg (cws ! l) (\<not> a l) (dpf_path prg cws a (k1, True) l))"

lemma dpf_gen_levels:
  assumes "T \<le> N" "N \<le> 128"
  shows "\<exists>st. rfold (dpf_gen_level prg alpha) [0..<T]
      \<lparr>seeds0 = k0, seeds1 = k1, t0 = False, t1 = True, gen_cws = replicate N default_cw\<rparr> = Inr st \<and>
    length (gen_cws st) = N \<and> cws_good prg (gen_cws st) (bit alpha) k0 k1 T \<and>
    (seeds0 st, t0 st) = dpf_path prg (gen_cws st) (bit alpha) (k0, False) T \<and>
    (seeds1 st, t1 st) = dpf_path prg (gen_cws st) (bit alpha) (k1, True) T"
  using assms(1)
proof (induction T)
  case 0
  then show ?case by (simp add: cws_good_def)
next
  case (Suc T)
  then obtain st where IH: "rfold (dpf_gen_level prg alpha) [0..<T]
      \<lparr>seeds0 = k0, seeds1 = k1, t0 = False, t1 = True, gen_cws = replicate N default_cw\<rparr> = Inr st"
    "length (gen_cws st) = N" "cws_good prg (gen_cws st) (bit alpha) k0 k1 T"
    "(seeds0 st, t0 st) = dpf_path prg (gen_cws st) (bit alpha) (k0, False) T"
    "(seeds1 st, t1 st) = dpf_path prg (gen_cws st) (bit alpha) (k1, True) T"
    by auto
  have "T < length (gen_cws st)" "T < 128" using Suc.prems IH(2) assms(2) by simp_all
  then obtain st' cw where st': "dpf_gen_level prg alpha T st = Inr st'" "gen_cws st' = (gen_cws st)[T := cw]"
    "(seeds0 st', t0 st') = dpf_child prg cw (bit alpha T) (seeds0 st, t0 st)"
    "(seeds1 st', t1 st') = dpf_child prg cw (bit alpha T) (seeds1 st, t1 st)"
    and off: "t0 st \<noteq> t1 st \<Longrightarrow> t0 st' \<noteq> t1 st' \<and>
      dpf_child prg cw (\<not> bit alpha T) (seeds0 st, t0 st) = dpf_child prg cw (\<not> bit alpha T) (seeds1 st, t1 st)"
    using dpf_gen_level_ok by metis
  have same: "dpf_path prg (gen_cws st') (bit alpha) k l = dpf_path prg (gen_cws st) (bit alpha) k l" if "l \<le> T" for k l
    using that st'(2) by (intro dpf_path_cong) auto
  have cw: "gen_cws st' ! T = cw" using st'(2) \<open>T < length (gen_cws st)\<close> by simp
  have differ: "t0 st \<noteq> t1 st" using IH(3,4,5) unfolding cws_good_def by (metis order_refl snd_conv)
  have path: "dpf_path prg (gen_cws st') (bit alpha) (k0, False) (Suc T) = (seeds0 st', t0 st')"
    "dpf_path prg (gen_cws st') (bit alpha) (k1, True) (Suc T) = (seeds1 st', t1 st')"
    unfolding dpf_path.simps(2) same [OF order_refl] cw by (simp_all only: IH(4,5) [symmetric] st'(3,4) [symmetric])
  have "cws_good prg (gen_cws st') (bit alpha) k0 k1 (Suc T)"
    unfolding cws_good_def
  proof (intro conjI allI impI)
    fix l assume "l \<le> Suc T"
    then consider "l \<le> T" | "l = Suc T" by linarith
    then show "snd (dpf_path prg (gen_cws st') (bit alpha) (k0, False) l) \<noteq> snd (dpf_path prg (gen_cws st') (bit alpha) (k1, True) l)"
    proof cases
      case 1
      then show ?thesis using IH(3) by (simp add: same cws_good_def)
    next
      case 2
      show ?thesis unfolding 2 path snd_conv using off [OF differ] by blast
    qed
  next
    fix l assume "l < Suc T"
    then consider "l < T" | "l = T" by linarith
    then show "dpf_child prg (gen_cws st' ! l) (\<not> bit alpha l) (dpf_path prg (gen_cws st') (bit alpha) (k0, False) l) =
        dpf_child prg (gen_cws st' ! l) (\<not> bit alpha l) (dpf_path prg (gen_cws st') (bit alpha) (k1, True) l)"
    proof cases
      case 1
      then have "gen_cws st' ! l = gen_cws st ! l" using st'(2) by simp
      then show ?thesis using IH(3) 1 unfolding same [OF less_imp_le [OF 1]] cws_good_def by simp
    next
      case 2
      show ?thesis unfolding 2 cw same [OF order_refl] IH(4,5) [symmetric] using off [OF differ] by blast
    qed
  qed
  moreover have "rfold (dpf_gen_level prg alpha) [0..<Suc T]
      \<lparr>seeds0 = k0, seeds1 = k1, t0 = False, t1 = True, gen_cws = replicate N default_cw\<rparr> = Inr st'"
    using IH(1) st'(1) by (simp add: rfold_append)
  ultimately show ?case using path IH(2) st'(2) by (metis length_list_update)
qed

text \<open>An input follows the path of \<open>alpha\<close> as long as the bits agree; after the first difference the two
  parties are in the same state.\<close>

lemma dpf_path_split:
  assumes "cws_good prg cws a k0 k1 T" "l \<le> T"
  shows "(\<forall>j < l. x j = a j) \<Longrightarrow> dpf_path prg cws x st l = dpf_path prg cws a st l"
    and "\<not> (\<forall>j < l. x j = a j) \<Longrightarrow> dpf_path prg cws x (k0, False) l = dpf_path prg cws x (k1, True) l"
proof -
  show on: "(\<forall>j < l. x j = a j) \<Longrightarrow> dpf_path prg cws x st l = dpf_path prg cws a st l" for l st
    by (intro dpf_path_cong) auto
  show "\<not> (\<forall>j < l. x j = a j) \<Longrightarrow> dpf_path prg cws x (k0, False) l = dpf_path prg cws x (k1, True) l"
    using assms(2)
  proof (induction l)
    case (Suc l)
    show ?case
    proof (cases "\<forall>j < l. x j = a j")
      case True
      then have "x l = (\<not> a l)" using Suc.prems(1) by (auto simp: less_Suc_eq)
      then show ?thesis using assms(1) Suc.prems(2) on [OF True] by (simp add: cws_good_def)
    next
      case False
      then show ?thesis using Suc by simp
    qed
  qed simp
qed

subsection \<open>Leaves\<close>

text \<open>The two outputs at a leaf, for equal states and for the states at the end of the path of \<open>alpha\<close>.\<close>

lemma dpf_out_same: "n \<le> 128 \<Longrightarrow> ge_cong n (dpf_out n False p t c + dpf_out n True p t c) 0"
proof -
  assume n: "n \<le> 128"
  have "ge_cong n (dpf_out n False p t c + dpf_out n True p t c) ((p + (if t then c else 0)) + - (p + (if t then c else 0)))"
    unfolding dpf_out_def Let_def by (simp only: if_False if_True) (intro ge_intros n)
  then show ?thesis by simp
qed

lemma dpf_out_differ:
  assumes "n \<le> 128" "ta \<noteq> tb" "ge_cong n c (if tb then - (v - p0 + p1) else v - p0 + p1)"
  shows "ge_cong n (dpf_out n False p0 ta c + dpf_out n True p1 tb c) v"
proof -
  have "ge_cong n (dpf_out n False p0 ta c + dpf_out n True p1 tb c)
      ((p0 + (if ta then (if tb then - (v - p0 + p1) else v - p0 + p1) else 0)) + - (p1 + (if tb then (if tb then - (v - p0 + p1) else v - p0 + p1) else 0)))"
    unfolding dpf_out_def Let_def if_False if_True using assms(1,3)
    by (intro ge_intros) (auto intro: ge_cong_refl)
  moreover have "(p0 + (if ta then (if tb then - (v - p0 + p1) else v - p0 + p1) else 0)) + - (p1 + (if tb then (if tb then - (v - p0 + p1) else v - p0 + p1) else 0)) = v"
    using assms(2) by (cases ta) auto
  ultimately show ?thesis by simp
qed

subsection \<open>Evaluation at a point\<close>

lemma ge_val_sum:
  assumes "n \<le> 128" "ge_cong n (a + b) c"
  shows "ge_val n (ge_add (ge_val n a) (ge_val n b)) = ge_val n c"
proof -
  have "ge_cong n (ge_add (ge_val n a) (ge_val n b)) (a + b)" using assms(1) by (intro ge_intros)
  with assms show ?thesis using ge_cong_trans ge_cong_iff ge_eq_def by metis
qed

lemma dpf_correct_aux:
  assumes m: "m \<le> 64" and n: "n \<le> 128"
  shows "\<exists>key0 key1 out0 out1. dpf_key_gen prg m n alpha beta k0 k1 False = Inr (key0, key1) \<and>
    dpf_eval prg m n key0 x = Inr out0 \<and> dpf_eval prg m n key1 x = Inr out1 \<and>
    ge_val n (ge_add out0 out1) = (if ge_eq m x alpha then ge_val n beta else 0)"
proof -
  obtain st where gen: "rfold (dpf_gen_level prg alpha) [0..<m]
      \<lparr>seeds0 = k0, seeds1 = k1, t0 = False, t1 = True, gen_cws = replicate m default_cw\<rparr> = Inr st"
    and len: "length (gen_cws st) = m" and good: "cws_good prg (gen_cws st) (bit alpha) k0 k1 m"
    and e0: "(seeds0 st, t0 st) = dpf_path prg (gen_cws st) (bit alpha) (k0, False) m"
    and e1: "(seeds1 st, t1 st) = dpf_path prg (gen_cws st) (bit alpha) (k1, True) m"
    using dpf_gen_levels [of m m prg alpha k0 k1] m by auto
  let ?p0 = "dpf_prg prg (seeds0 st)" and ?p1 = "dpf_prg prg (seeds1 st)"
  define lcw where "lcw = (let c = ge_val n (ge_add (ge_add beta (ge_reverse n ?p0)) ?p1)
    in if t1 st then ge_val n (ge_reverse n c) else c)"
  have "ge_cong n (ge_add (ge_add beta (ge_reverse n ?p0)) ?p1) ((beta + - ?p0) + ?p1)" by (intro ge_intros n)
  then have c: "ge_cong n (ge_add (ge_add beta (ge_reverse n ?p0)) ?p1) (beta - ?p0 + ?p1)" by simp
  have lcw: "ge_cong n lcw (if t1 st then - (beta - ?p0 + ?p1) else beta - ?p0 + ?p1)"
    unfolding lcw_def Let_def using ge_cong_val [OF n c] ge_cong_val [OF n ge_cong_reverse [OF n ge_cong_val [OF n c]]]
    by (cases "t1 st") (simp_all only: if_True if_False)
  let ?key0 = "(new_dpf_key False k0)\<lparr>cws_vec := gen_cws st, last_cw_vec := [lcw]\<rparr>"
  let ?key1 = "(new_dpf_key True k1)\<lparr>cws_vec := gen_cws st, last_cw_vec := [lcw]\<rparr>"
  have keys: "dpf_key_gen prg m n alpha beta k0 k1 False = Inr (?key0, ?key1)"
    using gen by (simp add: dpf_key_gen_def get_terminate_level_def new_dpf_key_def enforce_def Let_def lcw_def)
  obtain s0' t0' where q0: "dpf_path prg (gen_cws st) (bit x) (k0, False) m = (s0', t0')" by fastforce
  obtain s1' t1' where q1: "dpf_path prg (gen_cws st) (bit x) (k1, True) m = (s1', t1')" by fastforce
  have eval: "dpf_eval prg m n ?key0 x = Inr (ge_val n (dpf_out n False (dpf_prg prg s0') t0' lcw))"
    "dpf_eval prg m n ?key1 x = Inr (ge_val n (dpf_out n True (dpf_prg prg s1') t1' lcw))"
    using dpf_eval_levels [of m ?key0 prg x "(k0, False)"] dpf_eval_levels [of m ?key1 prg x "(k1, True)"] len m q0 q1
    by (simp_all add: dpf_eval_def new_dpf_key_def enforce_def at_idx_def)
  have "ge_cong n (dpf_out n False (dpf_prg prg s0') t0' lcw + dpf_out n True (dpf_prg prg s1') t1' lcw)
      (if ge_eq m x alpha then beta else 0)"
  proof (cases "ge_eq m x alpha")
    case True
    then have "\<forall>j < m. bit x j = bit alpha j" using m by (simp add: ge_eq_bits)
    note on = dpf_path_split(1) [OF good order_refl this]
    have st: "s0' = seeds0 st" "t0' = t0 st" "s1' = seeds1 st" "t1' = t1 st" using on q0 q1 e0 e1 by (metis prod.inject)+
    have "t0 st \<noteq> t1 st" using good e0 e1 unfolding cws_good_def by (metis order_refl snd_conv)
    with True lcw show ?thesis unfolding st by (simp add: dpf_out_differ [OF n])
  next
    case False
    then have "\<not> (\<forall>j < m. bit x j = bit alpha j)" using m by (simp add: ge_eq_bits)
    then have "(s0', t0') = (s1', t1')" using dpf_path_split(2) [OF good order_refl] q0 q1 by metis
    with False show ?thesis by (simp add: dpf_out_same [OF n])
  qed
  from ge_val_sum [OF n this] keys eval n show ?thesis by (auto simp: ge_val_eq)
qed

subsection \<open>Evaluation of the full domain\<close>

abbreviation next_prg :: "prg \<Rightarrow> nat \<Rightarrow> ge2n \<Rightarrow> ge2n" where
  "next_prg prg n p \<equiv> dpf_prg prg (ge_val n p)"

lemma next_prg_pow: "next_prg prg n ((next_prg prg n ^^ k) p) = (next_prg prg n ^^ k) (next_prg prg n p)"
  using funpow_swap1 [of "next_prg prg n" k p] .

lemma dpf_last_cws_nth:
  "k < left \<Longrightarrow> length (dpf_last_cws prg n t beta a i left p0 p1) = left \<and>
    dpf_last_cws prg n t beta a i left p0 p1 ! k =
      (let q0 = (next_prg prg n ^^ k) p0; q1 = (next_prg prg n ^^ k) p1;
           c = (if i + k = a then ge_add (ge_add beta (ge_reverse n q0)) q1 else ge_add (ge_reverse n q0) q1)
       in if t then ge_val n (ge_reverse n c) else ge_val n c)"
proof (induction left arbitrary: i p0 p1 k)
  case (Suc left)
  show ?case
  proof (cases k)
    case 0
    show ?thesis
    proof (cases left)
      case 0
      with \<open>k = 0\<close> show ?thesis by (simp add: Let_def)
    next
      case (Suc l)
      with Suc.IH [of 0] \<open>k = 0\<close> show ?thesis by (simp add: Let_def)
    qed
  next
    case (Suc k')
    with Suc.IH [of k' "i + 1" "next_prg prg n p0" "next_prg prg n p1"] Suc.prems show ?thesis
      by (simp add: Let_def next_prg_pow)
  qed
qed simp

lemma dpf_last_cws_length: "length (dpf_last_cws prg n t beta a i left p0 p1) = left"
  by (induction left arbitrary: i p0 p1) (simp_all add: Let_def)

lemma last_cw_cong:
  assumes n: "n \<le> 128" and "k < left" "q0 = (next_prg prg n ^^ k) p0" "q1 = (next_prg prg n ^^ k) p1"
  shows "ge_cong n (dpf_last_cws prg n t beta a 0 left p0 p1 ! k)
    (if t then - ((if k = a then beta else 0) - q0 + q1) else (if k = a then beta else 0) - q0 + q1)"
proof -
  define c where "c = (if k = a then ge_add (ge_add beta (ge_reverse n q0)) q1 else ge_add (ge_reverse n q0) q1)"
  have c: "ge_cong n c ((if k = a then beta else 0) - q0 + q1)"
  proof (cases "k = a")
    case True
    have "ge_cong n (ge_add (ge_add beta (ge_reverse n q0)) q1) ((beta + - q0) + q1)" by (intro ge_intros n)
    with True show ?thesis by (simp add: c_def)
  next
    case False
    have "ge_cong n (ge_add (ge_reverse n q0) q1) (- q0 + q1)" by (intro ge_intros n)
    with False show ?thesis by (simp add: c_def)
  qed
  have "dpf_last_cws prg n t beta a 0 left p0 p1 ! k = (if t then ge_val n (ge_reverse n c) else ge_val n c)"
    using dpf_last_cws_nth [OF assms(2), of prg n t beta a 0 p0 p1] by (simp add: c_def Let_def assms(3,4))
  then show ?thesis using ge_cong_val [OF n c] ge_cong_val [OF n ge_cong_reverse [OF n c]]
    by (cases t) (simp_all only: if_True if_False)
qed

end
