(* ===== verification/Dcf.thy ===== *)
theory Dcf
  imports Dpf_Correct
begin

text \<open>
  \<open>crypto/experimental/dpf/dcf.h\<close> and \<open>dcf.cc\<close>: the distributed comparison function. The outputs of the two
  keys add up to \<open>beta\<close> at the inputs below \<open>alpha\<close> and to 0 at the others. The tree is walked from the
  most significant bit, and every level contributes to the output. The generator is the parameter \<open>prg\<close>
  of the point function.
\<close>

subsection \<open>Keys\<close>

record dcf_cw =
  dcf_cw_seed :: u128
  dcf_cw_v :: u128
  dcf_t_store :: u8

record dcf_key =
  dcf_cws_vec :: "dcf_cw list"
  dcf_last_cw_vec :: "u128 list"
  dcf_rank :: bool
  dcf_mseed :: u128

definition default_dcf_cw :: dcf_cw where
  "default_dcf_cw = \<lparr>dcf_cw_seed = 0, dcf_cw_v = 0, dcf_t_store = 0\<rparr>"

definition dcf_get_lt :: "dcf_cw \<Rightarrow> u8" where
  "dcf_get_lt cw = dcf_t_store cw AND 1"

definition dcf_get_rt :: "dcf_cw \<Rightarrow> u8" where
  "dcf_get_rt cw = drop_bit 1 (dcf_t_store cw) AND 1"

definition dcf_set_lt :: "u8 \<Rightarrow> dcf_cw \<Rightarrow> dcf_cw result" where
  "dcf_set_lt t_left cw = rbind (enforce (t_left = 0 \<or> t_left = 1))
     (\<lambda>_. Inr (cw\<lparr>dcf_t_store := push_bit 1 (dcf_get_rt cw) + t_left\<rparr>))"

definition dcf_set_rt :: "u8 \<Rightarrow> dcf_cw \<Rightarrow> dcf_cw result" where
  "dcf_set_rt t_right cw = rbind (enforce (t_right = 0 \<or> t_right = 1))
     (\<lambda>_. Inr (cw\<lparr>dcf_t_store := push_bit 1 t_right + dcf_get_lt cw\<rparr>))"

definition new_dcf_key :: "bool \<Rightarrow> u128 \<Rightarrow> dcf_key" where
  "new_dcf_key rank seed = \<lparr>dcf_cws_vec = [], dcf_last_cw_vec = [], dcf_rank = rank, dcf_mseed = seed\<rparr>"

subsection \<open>The generator\<close>

definition dcf_prg :: "prg \<Rightarrow> u128 \<Rightarrow> ge2n" where
  "dcf_prg prg seed = prg 1 seed 0"

definition split_dcf_seed :: "prg \<Rightarrow> u128 \<Rightarrow> u128 \<times> u128 \<times> bool \<times> u128 \<times> u128 \<times> bool" where
  "split_dcf_seed prg seed =
     (let seed_left = prg 5 seed 0; seed_right = prg 5 seed 1; v_seed_left = prg 5 seed 2; v_seed_right = prg 5 seed 3;
          tmp = prg 5 seed 4 in
      (seed_left, v_seed_left, drop_bit 1 tmp AND 1 \<noteq> 0, seed_right, v_seed_right, drop_bit 2 tmp AND 1 \<noteq> 0))"

subsection \<open>Key generation\<close>

record dcf_gen_state =
  dcf_seeds0 :: u128
  dcf_seeds1 :: u128
  dcf_t0 :: bool
  dcf_t1 :: bool
  v_working :: ge2n
  dcf_gen_cws :: "dcf_cw list"

definition dcf_gen_level :: "prg \<Rightarrow> nat \<Rightarrow> nat \<Rightarrow> ge2n \<Rightarrow> ge2n \<Rightarrow> nat \<Rightarrow> dcf_gen_state \<Rightarrow> dcf_gen_state result" where
  "dcf_gen_level prg m n alpha beta i st =
     rbind (ge_bit alpha (m - i - 1)) (\<lambda>alpha_bit.
     let (seed_left0, v_seed_left0, t_left0, seed_right0, v_seed_right0, t_right0) = split_dcf_seed prg (dcf_seeds0 st);
         (seed_left1, v_seed_left1, t_left1, seed_right1, v_seed_right1, t_right1) = split_dcf_seed prg (dcf_seeds1 st);
         keep_seed0 = (if alpha_bit then seed_right0 else seed_left0);
         keep_seed1 = (if alpha_bit then seed_right1 else seed_left1);
         lose_seed0 = (if alpha_bit then seed_left0 else seed_right0);
         lose_seed1 = (if alpha_bit then seed_left1 else seed_right1);
         v_seed_keep0 = (if alpha_bit then v_seed_right0 else v_seed_left0);
         v_seed_keep1 = (if alpha_bit then v_seed_right1 else v_seed_left1);
         v_seed_lose0 = (if alpha_bit then v_seed_left0 else v_seed_right0);
         v_seed_lose1 = (if alpha_bit then v_seed_left1 else v_seed_right1);
         t_keep0 = (if alpha_bit then t_right0 else t_left0);
         t_keep1 = (if alpha_bit then t_right1 else t_left1);
         cw_seed' = lose_seed0 XOR lose_seed1;
         prg_lose0 = dcf_prg prg v_seed_lose0;
         prg_lose1 = dcf_prg prg v_seed_lose1;
         prg_keep0 = dcf_prg prg v_seed_keep0;
         prg_keep1 = dcf_prg prg v_seed_keep1;
         cw_v = ge_add (ge_add prg_lose1 (ge_reverse n prg_lose0)) (ge_reverse n (v_working st));
         (cw_v, v) =
           (if dcf_t1 st then
              let cw_v = ge_reverse n cw_v;
                  cw_v = (if alpha_bit then ge_add cw_v (ge_reverse n beta) else cw_v) in
              (cw_v, ge_add (v_working st) (ge_add (ge_add (ge_reverse n prg_keep1) prg_keep0) (ge_reverse n cw_v)))
            else
              let cw_v = (if alpha_bit then ge_add cw_v beta else cw_v) in
              (cw_v, ge_add (v_working st) (ge_add (ge_add (ge_reverse n prg_keep1) prg_keep0) cw_v)));
         cw_t_left = (((t_left0 \<noteq> t_left1) \<noteq> alpha_bit) \<noteq> True);
         cw_t_right = ((t_right0 \<noteq> t_right1) \<noteq> alpha_bit);
         cw_t_keep = (if alpha_bit then cw_t_right else cw_t_left) in
     rbind (at_idx (dcf_gen_cws st) i) (\<lambda>cw.
     rbind (dcf_set_lt (of_bool cw_t_left) (cw\<lparr>dcf_cw_seed := cw_seed'\<rparr>)) (\<lambda>cw.
     rbind (dcf_set_rt (of_bool cw_t_right) cw) (\<lambda>cw.
     Inr \<lparr>dcf_seeds0 = (if dcf_t0 st then keep_seed0 XOR cw_seed' else keep_seed0),
          dcf_seeds1 = (if dcf_t1 st then keep_seed1 XOR cw_seed' else keep_seed1),
          dcf_t0 = (t_keep0 \<noteq> (dcf_t0 st \<and> cw_t_keep)),
          dcf_t1 = (t_keep1 \<noteq> (dcf_t1 st \<and> cw_t_keep)),
          v_working = v,
          dcf_gen_cws = (dcf_gen_cws st)[i := cw\<lparr>dcf_cw_v := ge_val n cw_v\<rparr>]\<rparr>))))"

definition dcf_key_gen ::
  "prg \<Rightarrow> nat \<Rightarrow> nat \<Rightarrow> ge2n \<Rightarrow> ge2n \<Rightarrow> u128 \<Rightarrow> u128 \<Rightarrow> (dcf_key \<times> dcf_key) result" where
  "dcf_key_gen prg m n alpha beta first_mk second_mk =
     (let first_key = new_dcf_key False first_mk; second_key = new_dcf_key True second_mk in
      rbind (rfold (dcf_gen_level prg m n alpha beta) [0..<m]
        \<lparr>dcf_seeds0 = first_mk, dcf_seeds1 = second_mk, dcf_t0 = False, dcf_t1 = True, v_working = 0,
         dcf_gen_cws = replicate m default_dcf_cw\<rparr>) (\<lambda>st.
      let prg0 = dcf_prg prg (dcf_seeds0 st); prg1 = dcf_prg prg (dcf_seeds1 st) in
      rbind (enforce (dcf_last_cw_vec first_key = [])) (\<lambda>_.
      rbind (enforce (dcf_last_cw_vec second_key = [])) (\<lambda>_.
      let last_cw = ge_add (ge_add (ge_reverse n prg0) prg1) (ge_reverse n (v_working st));
          last_cw = (if dcf_t1 st then ge_reverse n last_cw else last_cw) in
      Inr (first_key\<lparr>dcf_cws_vec := dcf_gen_cws st, dcf_last_cw_vec := [ge_val n last_cw]\<rparr>,
           second_key\<lparr>dcf_cws_vec := dcf_gen_cws st, dcf_last_cw_vec := [ge_val n last_cw]\<rparr>)))))"

subsection \<open>Evaluation\<close>

text \<open>What a party adds to its output: the value of the generator, with the correction if its control bit
  is set, negated by the second party.\<close>

definition dcf_share :: "nat \<Rightarrow> bool \<Rightarrow> ge2n \<Rightarrow> bool \<Rightarrow> ge2n \<Rightarrow> ge2n" where
  "dcf_share n rank prg t cw_v =
     (if t then (if rank then ge_reverse n (ge_add prg cw_v) else ge_add prg cw_v)
      else (if rank then ge_reverse n prg else prg))"

definition dcf_eval_level ::
  "prg \<Rightarrow> nat \<Rightarrow> nat \<Rightarrow> dcf_key \<Rightarrow> ge2n \<Rightarrow> nat \<Rightarrow> u128 \<times> bool \<times> ge2n \<Rightarrow> (u128 \<times> bool \<times> ge2n) result" where
  "dcf_eval_level prg m n key x i = (\<lambda>(seed, t, out).
     rbind (at_idx (dcf_cws_vec key) i) (\<lambda>cw.
     let (seed_left, v_seed_left, t_left, seed_right, v_seed_right, t_right) = split_dcf_seed prg seed;
         seed_left = (if t then seed_left XOR dcf_cw_seed cw else seed_left);
         t_left = (t_left \<noteq> (t \<and> dcf_get_lt cw \<noteq> 0));
         seed_right = (if t then seed_right XOR dcf_cw_seed cw else seed_right);
         t_right = (t_right \<noteq> (t \<and> dcf_get_rt cw \<noteq> 0));
         prg0 = dcf_prg prg v_seed_left;
         prg1 = dcf_prg prg v_seed_right in
     rbind (ge_bit x (m - i - 1)) (\<lambda>b.
     Inr (if b then (seed_right, t_right, ge_add out (dcf_share n (dcf_rank key) prg1 t (dcf_cw_v cw)))
          else (seed_left, t_left, ge_add out (dcf_share n (dcf_rank key) prg0 t (dcf_cw_v cw)))))))"

definition dcf_eval :: "prg \<Rightarrow> nat \<Rightarrow> nat \<Rightarrow> dcf_key \<Rightarrow> ge2n \<Rightarrow> ge2n result" where
  "dcf_eval prg m n key x =
     rbind (rfold (dcf_eval_level prg m n key x) [0..<m] (dcf_mseed key, dcf_rank key, 0)) (\<lambda>(seed, t, out).
     let prg' = dcf_prg prg seed in
     rbind (if t then rbind (at_idx (dcf_last_cw_vec key) 0) (\<lambda>last_cw. Inr (ge_add prg' last_cw)) else Inr prg') (\<lambda>tmp.
     Inr (ge_add out (if dcf_rank key then ge_reverse n tmp else tmp))))"

end
