(* ===== verification/Dpf_Properties.thy ===== *)
theory Dpf_Properties
  imports Dpf_Correct
begin

text \<open>
  The evaluation of the full domain, which walks the whole tree, and the properties of the
  distributed point function.
\<close>

subsection \<open>The tree walk\<close>

lemma dpf_leaves_ok:
  assumes "T < 32" "pos < 2 ^ T" "i + left \<le> length (last_cw_vec key)"
    and "length result = (i + left) * 2 ^ T" "length result \<le> 2 ^ 32"
  shows "\<exists>result'. dpf_leaves prg n key T pos t i left p result = Inr result' \<and> length result' = length result \<and>
    (\<forall>idx < length result. result' ! idx =
       (if idx mod 2 ^ T = pos \<and> i \<le> idx div 2 ^ T
        then dpf_out n (key_rank key) ((next_prg prg n ^^ (idx div 2 ^ T - i)) p) t (last_cw_vec key ! (idx div 2 ^ T))
        else result ! idx))"
  using assms
proof (induction left arbitrary: i p result)
  case 0
  have "idx div 2 ^ T < i" if "idx < length result" for idx
    using that 0(4) by (simp add: less_mult_imp_div_less)
  then show ?case by (auto simp flip: not_less)
next
  case (Suc left)
  let ?at = "pos + i * 2 ^ T" and ?out = "dpf_out n (key_rank key) p t (last_cw_vec key ! i)"
  have at: "?at < length result"
  proof -
    have "?at < (Suc i) * 2 ^ T" using Suc.prems(2) by simp
    also have "\<dots> \<le> (i + Suc left) * 2 ^ T" by (intro mult_right_mono) simp_all
    finally show ?thesis using Suc.prems(4) by simp
  qed
  have at': "?at mod 2 ^ T = pos" "?at div 2 ^ T = i" using Suc.prems(2) by simp_all
  obtain result' where IH: "dpf_leaves prg n key T pos t (i + 1) left (next_prg prg n p) (result[?at := ?out]) = Inr result'"
    "length result' = length result"
    "\<And>idx. idx < length result \<Longrightarrow> result' ! idx =
       (if idx mod 2 ^ T = pos \<and> i + 1 \<le> idx div 2 ^ T
        then dpf_out n (key_rank key) ((next_prg prg n ^^ (idx div 2 ^ T - (i + 1))) (next_prg prg n p)) t (last_cw_vec key ! (idx div 2 ^ T))
        else result[?at := ?out] ! idx)"
    using Suc.IH [of "i + 1" "result[?at := ?out]" "next_prg prg n p"] Suc.prems by auto
  have "dpf_leaves prg n key T pos t i (Suc left) p result = Inr result'"
    using at IH(1) Suc.prems(1,3) mod_less [of "i * 2 ^ T" "2 ^ 32"] Suc.prems(5) by (simp add: at_idx_def set_idx_def)
  moreover have "result' ! idx = (if idx mod 2 ^ T = pos \<and> i \<le> idx div 2 ^ T
      then dpf_out n (key_rank key) ((next_prg prg n ^^ (idx div 2 ^ T - i)) p) t (last_cw_vec key ! (idx div 2 ^ T))
      else result ! idx)" if idx: "idx < length result" for idx
  proof (cases "idx mod 2 ^ T = pos \<and> i + 1 \<le> idx div 2 ^ T")
    case True
    then have "idx div 2 ^ T - i = Suc (idx div 2 ^ T - (i + 1))" by linarith
    then show ?thesis using True IH(3) [OF idx] by (simp add: next_prg_pow)
  next
    case False
    show ?thesis
    proof (cases "idx = ?at")
      case True
      then show ?thesis using IH(3) [OF idx] at at' by simp
    next
      case neq: False
      have "\<not> (idx mod 2 ^ T = pos \<and> i \<le> idx div 2 ^ T)"
      proof
        assume "idx mod 2 ^ T = pos \<and> i \<le> idx div 2 ^ T"
        with False have "idx mod 2 ^ T = pos" "idx div 2 ^ T = i" by auto
        then have "idx = ?at" by (metis add.commute div_mult_mod_eq)
        with neq show False by simp
      qed
      then show ?thesis using IH(3) [OF idx] neq False by auto
    qed
  qed
  ultimately show ?case using IH(2) by auto
qed

lemma bit_mod_power: "j < l \<Longrightarrow> bit (a mod 2 ^ l :: nat) j = bit a j"
  by (simp add: bit_take_bit_iff flip: take_bit_eq_mod)

lemma child_positions:
  fixes pos idx :: nat
  assumes "pos < 2 ^ l"
  shows "pos < 2 ^ Suc l" "2 ^ l + pos < 2 ^ Suc l" "\<not> bit pos l" "bit (2 ^ l + pos) l"
    "j < l \<Longrightarrow> bit (2 ^ l + pos) j = bit pos j"
    "idx mod 2 ^ l = pos \<longleftrightarrow> idx mod 2 ^ Suc l = pos \<or> idx mod 2 ^ Suc l = 2 ^ l + pos"
proof -
  show "pos < 2 ^ Suc l" "2 ^ l + pos < 2 ^ Suc l" using assms by simp_all
  show "\<not> bit pos l" using assms by (simp add: bit_iff_odd)
  show "bit (2 ^ l + pos) l" using assms by (simp add: bit_iff_odd div_add1_eq)
  show "bit (2 ^ l + pos) j = bit pos j" if "j < l"
    using bit_mod_power [OF that, of "2 ^ l + pos"] assms by simp
  show "idx mod 2 ^ l = pos \<longleftrightarrow> idx mod 2 ^ Suc l = pos \<or> idx mod 2 ^ Suc l = 2 ^ l + pos"
  proof
    have mod: "idx mod 2 ^ Suc l mod 2 ^ l = idx mod 2 ^ l" by (simp add: mod_mod_cancel)
    show "idx mod 2 ^ l = pos \<Longrightarrow> idx mod 2 ^ Suc l = pos \<or> idx mod 2 ^ Suc l = 2 ^ l + pos"
    proof -
      assume "idx mod 2 ^ l = pos"
      moreover have "idx mod 2 ^ Suc l < 2 * 2 ^ l" by simp
      then have "idx mod 2 ^ Suc l div 2 ^ l = 0 \<or> idx mod 2 ^ Suc l div 2 ^ l = 1"
        using less_mult_imp_div_less [of "idx mod 2 ^ Suc l" 2 "2 ^ l"] by linarith
      ultimately show ?thesis using mod div_mult_mod_eq [of "idx mod 2 ^ Suc l" "2 ^ l"] by auto
    qed
    show "idx mod 2 ^ Suc l = pos \<or> idx mod 2 ^ Suc l = 2 ^ l + pos \<Longrightarrow> idx mod 2 ^ l = pos"
      using mod assms by auto
  qed
qed

text \<open>The output of a key at a leaf.\<close>

definition dpf_leaf :: "prg \<Rightarrow> nat \<Rightarrow> nat \<Rightarrow> dpf_key \<Rightarrow> nat \<Rightarrow> ge2n" where
  "dpf_leaf prg n T key idx =
     (let (s, t) = dpf_path prg (cws_vec key) (bit idx) (mseed key, key_rank key) T in
      dpf_out n (key_rank key) ((next_prg prg n ^^ (idx div 2 ^ T)) (dpf_prg prg s)) t (last_cw_vec key ! (idx div 2 ^ T)))"

lemma dpf_traverse_ok:
  assumes "m < 32" "T \<le> m" "length (cws_vec key) = T" "length (last_cw_vec key) = 2 ^ (m - T)"
    and "length result = 2 ^ m" "l \<le> T" "pos < 2 ^ l"
    and "(s, t) = dpf_path prg (cws_vec key) (bit pos) (mseed key, key_rank key) l"
  shows "\<exists>result'. dpf_traverse prg m n key T l pos s t result = Inr result' \<and> length result' = 2 ^ m \<and>
    (\<forall>idx < 2 ^ m. result' ! idx = (if idx mod 2 ^ l = pos then dpf_leaf prg n T key idx else result ! idx))"
  using assms(5-8)
proof (induction "T - l" arbitrary: l pos s t result)
  case 0
  then have l: "l = T" by simp
  have len: "length result = (0 + 2 ^ (m - T)) * 2 ^ T" using 0(2) assms(2) by (simp flip: power_add)
  have small: "length result \<le> 2 ^ 32"
    using 0(2) assms(1) power_increasing [of m 32 "2 :: nat"] by (simp only: less_imp_le one_le_numeral)
  have less: "T < 32" using assms(1,2) by simp
  have T: "dpf_path prg (cws_vec key) (bit idx) (mseed key, key_rank key) T = (s, t)" if "idx mod 2 ^ T = pos" for idx
    using 0(5) l that by (simp add: dpf_path_cong [of T "cws_vec key" "cws_vec key" "bit idx" "bit pos"] flip: bit_mod_power [of _ T idx])
  obtain result' where r: "dpf_leaves prg n key T pos t 0 (2 ^ (m - T)) (dpf_prg prg s) result = Inr result'" "length result' = length result"
    "\<forall>idx < length result. result' ! idx =
       (if idx mod 2 ^ T = pos \<and> 0 \<le> idx div 2 ^ T
        then dpf_out n (key_rank key) ((next_prg prg n ^^ (idx div 2 ^ T - 0)) (dpf_prg prg s)) t (last_cw_vec key ! (idx div 2 ^ T))
        else result ! idx)"
    using dpf_leaves_ok [OF less _ _ len small, of pos key prg n t "dpf_prg prg s"] 0(4) l assms(4) by auto
  then show ?case using l 0(2) T by (auto simp: dpf_traverse.simps [of prg m n key T T] dpf_leaf_def)
next
  case (Suc d)
  then have l: "l < T" "d = T - Suc l" by simp_all
  note pos = child_positions [OF Suc.prems(3)]
  obtain sl tl sr tr where ch: "dpf_children prg (cws_vec key ! l) s t = ((sl, tl), (sr, tr))" by (metis surj_pair)
  have left: "(sl, tl) = dpf_path prg (cws_vec key) (bit pos) (mseed key, key_rank key) (Suc l)"
    using ch pos(3) by (simp add: dpf_child_def flip: Suc.prems(4))
  have right: "(sr, tr) = dpf_path prg (cws_vec key) (bit (2 ^ l + pos)) (mseed key, key_rank key) (Suc l)"
  proof -
    have "dpf_path prg (cws_vec key) (bit (2 ^ l + pos)) (mseed key, key_rank key) l = (s, t)"
      unfolding Suc.prems(4) by (intro dpf_path_cong) (simp add: pos(5))
    then show ?thesis using ch pos(4) by (simp add: dpf_child_def)
  qed
  obtain r1 where r1: "dpf_traverse prg m n key T (Suc l) pos sl tl result = Inr r1" "length r1 = 2 ^ m"
    "\<forall>idx < 2 ^ m. r1 ! idx = (if idx mod 2 ^ Suc l = pos then dpf_leaf prg n T key idx else result ! idx)"
    using Suc.hyps(1) [OF l(2) Suc.prems(1) _ pos(1) left] l(1) by auto
  obtain r2 where r2: "dpf_traverse prg m n key T (Suc l) (2 ^ l + pos) sr tr r1 = Inr r2" "length r2 = 2 ^ m"
    "\<forall>idx < 2 ^ m. r2 ! idx = (if idx mod 2 ^ Suc l = 2 ^ l + pos then dpf_leaf prg n T key idx else r1 ! idx)"
    using Suc.hyps(1) [OF l(2) r1(2) _ pos(2) right] l(1) by auto
  have "dpf_traverse prg m n key T l pos s t result = Inr r2"
    using l(1) assms(3) r1(1) r2(1) ch by (simp add: dpf_traverse.simps [of prg m n key T l] at_idx_def)
  moreover have "r2 ! idx = (if idx mod 2 ^ l = pos then dpf_leaf prg n T key idx else result ! idx)" if "idx < 2 ^ m" for idx
    using r1(3) r2(3) that pos(6) [of idx] by auto
  ultimately show ?case using r2(2) by blast
qed

lemma dpf_leaf_sum:
  assumes n: "n \<le> 128" and "T \<le> m" "m \<le> 128" "idx < 2 ^ m" and good: "cws_good prg cws (bit alpha) k0 k1 T"
    and e0: "(s0, c0) = dpf_path prg cws (bit alpha) (k0, False) T" and e1: "(s1, c1) = dpf_path prg cws (bit alpha) (k1, True) T"
    and lcws: "lcws = dpf_last_cws prg n c1 beta (unat (drop_bit T (ge_val m alpha))) 0 (2 ^ (m - T)) (dpf_prg prg s0) (dpf_prg prg s1)"
    and key0: "cws_vec key0 = cws" "last_cw_vec key0 = lcws" "mseed key0 = k0" "key_rank key0 = False"
    and key1: "cws_vec key1 = cws" "last_cw_vec key1 = lcws" "mseed key1 = k1" "key_rank key1 = True"
  shows "ge_cong n (dpf_leaf prg n T key0 idx + dpf_leaf prg n T key1 idx) (if idx = unat (ge_val m alpha) then beta else 0)"
proof -
  define A where "A = unat (ge_val m alpha)"
  have A: "bit A j \<longleftrightarrow> bit alpha j" if "j < m" for j
    using assms(3) that by (simp add: A_def ge_val_eq bit_unsigned_iff bit_take_bit_iff)
  have a_pos: "unat (drop_bit T (ge_val m alpha)) = A div 2 ^ T" by (simp add: A_def unat_drop_bit_eq flip: drop_bit_eq_div)
  let ?k = "idx div 2 ^ T"
  have k: "?k < 2 ^ (m - T)" using assms(2,4) by (simp add: less_mult_imp_div_less flip: power_add)
  have prefix: "(\<forall>j < T. bit idx j = bit alpha j) \<longleftrightarrow> idx mod 2 ^ T = A mod 2 ^ T"
  proof -
    have "(\<forall>j < T. bit idx j = bit alpha j) \<longleftrightarrow> (\<forall>j < T. bit idx j = bit A j)" using A assms(2) by auto
    also have "\<dots> \<longleftrightarrow> take_bit T idx = take_bit T A" by (auto simp: bit_eq_iff bit_take_bit_iff)
    finally show ?thesis by (simp add: take_bit_eq_mod)
  qed
  have same: "idx = A \<longleftrightarrow> idx mod 2 ^ T = A mod 2 ^ T \<and> ?k = A div 2 ^ T" by (metis div_mult_mod_eq)
  obtain u0 d0 where q0: "dpf_path prg cws (bit idx) (k0, False) T = (u0, d0)" by fastforce
  obtain u1 d1 where q1: "dpf_path prg cws (bit idx) (k1, True) T = (u1, d1)" by fastforce
  let ?q0 = "(next_prg prg n ^^ ?k) (dpf_prg prg u0)" and ?q1 = "(next_prg prg n ^^ ?k) (dpf_prg prg u1)"
  have leaf: "dpf_leaf prg n T key0 idx = dpf_out n False ?q0 d0 (lcws ! ?k)" "dpf_leaf prg n T key1 idx = dpf_out n True ?q1 d1 (lcws ! ?k)"
    by (simp_all add: dpf_leaf_def key0 key1 q0 q1)
  show ?thesis
  proof (cases "\<forall>j < T. bit idx j = bit alpha j")
    case True
    note on = dpf_path_split(1) [OF good order_refl True]
    have st: "u0 = s0" "d0 = c0" "u1 = s1" "d1 = c1" using on q0 q1 e0 e1 by (metis prod.inject)+
    have "c0 \<noteq> c1" using good e0 e1 unfolding cws_good_def by (metis order_refl snd_conv)
    moreover have "ge_cong n (lcws ! ?k) (if c1 then - ((if ?k = A div 2 ^ T then beta else 0) - ?q0 + ?q1)
        else (if ?k = A div 2 ^ T then beta else 0) - ?q0 + ?q1)"
      unfolding lcws a_pos st by (rule last_cw_cong [OF n k refl refl])
    ultimately have "ge_cong n (dpf_leaf prg n T key0 idx + dpf_leaf prg n T key1 idx) (if ?k = A div 2 ^ T then beta else 0)"
      unfolding leaf st by (intro dpf_out_differ [OF n]) simp_all
    then show ?thesis using True prefix same by (simp add: A_def)
  next
    case False
    then have "(u0, d0) = (u1, d1)" using dpf_path_split(2) [OF good order_refl] q0 q1 by metis
    then have "ge_cong n (dpf_leaf prg n T key0 idx + dpf_leaf prg n T key1 idx) 0" unfolding leaf by (simp add: dpf_out_same [OF n])
    then show ?thesis using False prefix same by (auto simp: A_def)
  qed
qed

subsection \<open>Properties\<close>

text \<open>C7: For every point \<open>alpha\<close>, value \<open>beta\<close>, pair of master seeds and pseudo-random generator, \<open>DpfKeyGen\<close>
  returns two keys, \<open>DpfEval\<close> of each returns at every input, and the two outputs add up to \<open>beta\<close> modulo
  \<open>2 ^ n\<close> if the input equals \<open>alpha\<close> and to 0 otherwise.\<close>

theorem dpf_correct:
  assumes "m \<le> 64" "n \<le> 128"
  shows "\<exists>key0 key1 out0 out1. dpf_key_gen prg m n alpha beta k0 k1 False = Inr (key0, key1) \<and>
    dpf_eval prg m n key0 x = Inr out0 \<and> dpf_eval prg m n key1 x = Inr out1 \<and>
    ge_val n (ge_add out0 out1) = (if ge_eq m x alpha then ge_val n beta else 0)"
  using assms by (rule dpf_correct_aux)

text \<open>C23: For inputs of fewer than 32 bits and full-domain keys, \<open>DpfEvalAll\<close> fills the whole output buffers, and the two
  buffers add up to \<open>beta\<close> at the position \<open>alpha\<close> and to 0 at all other positions, for every level of early
  termination that is not negative. From 32 bits on \<open>i << term_level\<close> is undefined for outputs of 64 and 128 bits.\<close>

theorem dpf_eval_all_correct:
  assumes "m < 32" "n \<le> 128" "floor_log (128 div n) \<le> m" "length buf0 = 2 ^ m" "length buf1 = 2 ^ m"
  shows "\<exists>key0 key1 out0 out1. dpf_key_gen prg m n alpha beta k0 k1 True = Inr (key0, key1) \<and>
    dpf_eval_all prg m n key0 buf0 = Inr out0 \<and> dpf_eval_all prg m n key1 buf1 = Inr out1 \<and>
    length out0 = 2 ^ m \<and> length out1 = 2 ^ m \<and>
    (\<forall>idx < 2 ^ m. ge_val n (ge_add (out0 ! idx) (out1 ! idx)) = (if idx = unat (ge_val m alpha) then ge_val n beta else 0))"
proof -
  define T where "T = min m (m - floor_log (128 div n))"
  have T: "T \<le> m" by (simp add: T_def)
  have level: "get_terminate_level True m n = Inr T" using assms(3) by (simp add: get_terminate_level_def T_def)
  obtain st where gen: "rfold (dpf_gen_level prg alpha) [0..<T]
      \<lparr>seeds0 = k0, seeds1 = k1, t0 = False, t1 = True, gen_cws = replicate T default_cw\<rparr> = Inr st"
    and len: "length (gen_cws st) = T" and good: "cws_good prg (gen_cws st) (bit alpha) k0 k1 T"
    and e: "(seeds0 st, t0 st) = dpf_path prg (gen_cws st) (bit alpha) (k0, False) T"
      "(seeds1 st, t1 st) = dpf_path prg (gen_cws st) (bit alpha) (k1, True) T"
    using dpf_gen_levels [of T T prg alpha k0 k1] T assms(1) by auto
  define lcws where "lcws = dpf_last_cws prg n (t1 st) beta (unat (drop_bit T (ge_val m alpha))) 0 (2 ^ (m - T))
    (dpf_prg prg (seeds0 st)) (dpf_prg prg (seeds1 st))"
  define key0 where "key0 = (new_dpf_key False k0)\<lparr>enable_evalall := True, cws_vec := gen_cws st, last_cw_vec := lcws\<rparr>"
  define key1 where "key1 = (new_dpf_key True k1)\<lparr>enable_evalall := True, cws_vec := gen_cws st, last_cw_vec := lcws\<rparr>"
  have keys: "dpf_key_gen prg m n alpha beta k0 k1 True = Inr (key0, key1)"
    using gen by (simp add: dpf_key_gen_def level new_dpf_key_def enforce_def Let_def lcws_def key0_def key1_def)
  have k0: "cws_vec key0 = gen_cws st" "last_cw_vec key0 = lcws" "mseed key0 = k0" "\<not> key_rank key0" "enable_evalall key0"
    and k1: "cws_vec key1 = gen_cws st" "last_cw_vec key1 = lcws" "mseed key1 = k1" "key_rank key1" "enable_evalall key1"
    by (simp_all add: key0_def key1_def new_dpf_key_def)
  have walk: "\<exists>out. dpf_eval_all prg m n key buf = Inr out \<and> length out = 2 ^ m \<and> (\<forall>idx < 2 ^ m. out ! idx = dpf_leaf prg n T key idx)"
    if "key = key0 \<or> key = key1" "length buf = 2 ^ m" for key buf
    using dpf_traverse_ok [of m T key buf 0 0 "mseed key" "key_rank key" prg n] that T assms(1) len k0 k1
    by (auto simp: dpf_eval_all_def level enforce_def lcws_def dpf_last_cws_length)
  obtain out0 out1 where out: "dpf_eval_all prg m n key0 buf0 = Inr out0" "length out0 = 2 ^ m"
      "\<forall>idx < 2 ^ m. out0 ! idx = dpf_leaf prg n T key0 idx"
      "dpf_eval_all prg m n key1 buf1 = Inr out1" "length out1 = 2 ^ m" "\<forall>idx < 2 ^ m. out1 ! idx = dpf_leaf prg n T key1 idx"
    using walk [of key0 buf0] walk [of key1 buf1] assms(4,5) by blast
  have "ge_val n (ge_add (out0 ! idx) (out1 ! idx)) = (if idx = unat (ge_val m alpha) then ge_val n beta else 0)"
    if idx: "idx < 2 ^ m" for idx
  proof -
    have "ge_cong n (ge_add (out0 ! idx) (out1 ! idx)) (if idx = unat (ge_val m alpha) then beta else 0)"
      using dpf_leaf_sum [OF assms(2) T _ idx good e lcws_def, of key0 key1] assms(1) k0 k1 out(3,6) idx by (simp add: ge_add_def)
    then show ?thesis using assms(2) by (auto simp: ge_cong_iff ge_eq_def ge_val_eq)
  qed
  with keys out show ?thesis by blast
qed

text \<open>A generator for the witnesses.\<close>

definition demo_prg :: prg where
  "demo_prg b seed k = seed * 6364136223846793005 + of_nat (b * 1442695040888963407 + k * k + 1)"

theorem dpf_correct_witness:
  "\<exists>key0 key1 out0 out1. dpf_key_gen demo_prg 8 64 5 1000 1 2 False = Inr (key0, key1) \<and>
    dpf_eval demo_prg 8 64 key0 5 = Inr out0 \<and> dpf_eval demo_prg 8 64 key1 5 = Inr out1 \<and> ge_val 64 (ge_add out0 out1) = 1000"
proof -
  have "ge_val 64 (1000 :: u128) = 1000" by (simp add: ge_val_eq take_bit_eq_mod)
  then show ?thesis using dpf_correct [of 8 64 demo_prg 5 1000 1 2 5] by (auto simp: ge_eq_def)
qed

theorem dpf_eval_all_correct_witness:
  "\<exists>key0 key1 out0 out1. dpf_key_gen demo_prg 2 64 3 1000 1 2 True = Inr (key0, key1) \<and>
    dpf_eval_all demo_prg 2 64 key0 [0, 0, 0, 0] = Inr out0 \<and> dpf_eval_all demo_prg 2 64 key1 [0, 0, 0, 0] = Inr out1 \<and>
    ge_val 64 (ge_add (out0 ! 1) (out1 ! 1)) = 0"
proof -
  have "unat (ge_val 2 (3 :: u128)) = 3" by (simp add: ge_val_eq take_bit_eq_mod)
  moreover have "(1 :: nat) < 2 ^ 2" by simp
  ultimately show ?thesis
    using dpf_eval_all_correct [of 2 64 "[0, 0, 0, 0]" "[0, 0, 0, 0]" demo_prg 3 1000 1 2] by (fastforce simp: floor_log_def)
qed

end
