(* ===== verification/Dcf_Properties.thy ===== *)
theory Dcf_Properties
  imports Dcf Dpf_Properties
begin

text \<open>
  Correctness of the distributed comparison function. On the path of \<open>alpha\<close> the two outputs add up to
  the working value of the key generation; an input that leaves the path does so with the sum \<open>beta\<close>
  if it is smaller than \<open>alpha\<close> and 0 if it is larger, and from then on the contributions cancel.
\<close>

subsection \<open>Correction words\<close>

lemma dcf_set_t [simp]:
  "dcf_set_lt (of_bool b) cw = Inr (cw\<lparr>dcf_t_store := push_bit 1 (dcf_get_rt cw) + of_bool b\<rparr>)"
  "dcf_set_rt (of_bool b) cw = Inr (cw\<lparr>dcf_t_store := push_bit 1 (of_bool b) + dcf_get_lt cw\<rparr>)"
  by (simp_all add: dcf_set_lt_def dcf_set_rt_def enforce_def)

lemma dcf_cw_bits:
  fixes cw :: dcf_cw and a :: bool
  defines "cw' \<equiv> cw\<lparr>dcf_t_store := push_bit 1 (dcf_get_rt cw) + of_bool a\<rparr>"
  shows "dcf_get_lt (cw'\<lparr>dcf_t_store := push_bit 1 (of_bool b) + dcf_get_lt cw', dcf_cw_v := v\<rparr>) = of_bool a"
    "dcf_get_rt (cw'\<lparr>dcf_t_store := push_bit 1 (of_bool b) + dcf_get_lt cw', dcf_cw_v := v\<rparr>) = of_bool b"
proof -
  have rt: "dcf_get_rt cw = 0 \<or> dcf_get_rt cw = 1" by (simp add: dcf_get_rt_def and_one_eq mod_2_eq_odd)
  then have lt: "dcf_get_lt cw' = of_bool a" by (cases a) (auto simp: dcf_get_lt_def cw'_def)
  show "dcf_get_lt (cw'\<lparr>dcf_t_store := push_bit 1 (of_bool b) + dcf_get_lt cw', dcf_cw_v := v\<rparr>) = of_bool a"
    unfolding lt by (cases a; cases b) (simp_all add: dcf_get_lt_def)
  show "dcf_get_rt (cw'\<lparr>dcf_t_store := push_bit 1 (of_bool b) + dcf_get_lt cw', dcf_cw_v := v\<rparr>) = of_bool b"
    unfolding lt by (cases a; cases b) (simp_all add: dcf_get_rt_def)
qed

subsection \<open>Paths\<close>

text \<open>One step of a party: the child it goes to, and the share it adds.\<close>

definition dcf_child :: "prg \<Rightarrow> dcf_cw \<Rightarrow> bool \<Rightarrow> u128 \<times> bool \<Rightarrow> u128 \<times> bool" where
  "dcf_child prg cw b = (\<lambda>(s, t).
     let (sl, vl, tl, sr, vr, tr) = split_dcf_seed prg s in
     if b then (if t then sr XOR dcf_cw_seed cw else sr, tr \<noteq> (t \<and> dcf_get_rt cw \<noteq> 0))
     else (if t then sl XOR dcf_cw_seed cw else sl, tl \<noteq> (t \<and> dcf_get_lt cw \<noteq> 0)))"

definition dcf_value :: "prg \<Rightarrow> bool \<Rightarrow> u128 \<Rightarrow> ge2n" where
  "dcf_value prg b s = (let (sl, vl, tl, sr, vr, tr) = split_dcf_seed prg s in dcf_prg prg (if b then vr else vl))"

primrec dcf_path :: "prg \<Rightarrow> dcf_cw list \<Rightarrow> (nat \<Rightarrow> bool) \<Rightarrow> u128 \<times> bool \<Rightarrow> nat \<Rightarrow> u128 \<times> bool" where
  "dcf_path prg cws x st 0 = st"
| "dcf_path prg cws x st (Suc l) = dcf_child prg (cws ! l) (x l) (dcf_path prg cws x st l)"

primrec dcf_sum :: "prg \<Rightarrow> nat \<Rightarrow> bool \<Rightarrow> dcf_cw list \<Rightarrow> (nat \<Rightarrow> bool) \<Rightarrow> u128 \<times> bool \<Rightarrow> nat \<Rightarrow> ge2n" where
  "dcf_sum prg n rank cws x st 0 = 0"
| "dcf_sum prg n rank cws x st (Suc l) =
     (let (s, t) = dcf_path prg cws x st l in
      dcf_sum prg n rank cws x st l + dcf_share n rank (dcf_value prg (x l) s) t (dcf_cw_v (cws ! l)))"

lemma dcf_path_cong:
  "(\<And>j. j < l \<Longrightarrow> cws ! j = cws' ! j \<and> x j = y j) \<Longrightarrow> dcf_path prg cws x st l = dcf_path prg cws' y st l"
  by (induction l) auto

lemma dcf_sum_cong:
  "(\<And>j. j < l \<Longrightarrow> cws ! j = cws' ! j \<and> x j = y j) \<Longrightarrow> dcf_sum prg n rank cws x st l = dcf_sum prg n rank cws' y st l"
  by (induction l) (auto simp: dcf_path_cong [of _ cws cws' x y])

lemma dcf_eval_levels:
  assumes "T \<le> m" "m \<le> length (dcf_cws_vec key)" "m \<le> 128"
  shows "rfold (dcf_eval_level prg m n key x) [0..<T] (s, t, 0) =
    (let (s', t') = dcf_path prg (dcf_cws_vec key) (\<lambda>l. bit x (m - l - 1)) (s, t) T in
     Inr (s', t', dcf_sum prg n (dcf_rank key) (dcf_cws_vec key) (\<lambda>l. bit x (m - l - 1)) (s, t) T))"
  using assms(1)
proof (induction T)
  case (Suc T)
  obtain s' t' where p: "dcf_path prg (dcf_cws_vec key) (\<lambda>l. bit x (m - l - 1)) (s, t) T = (s', t')" by fastforce
  obtain sl vl tl sr vr tr where sp: "split_dcf_seed prg s' = (sl, vl, tl, sr, vr, tr)" by (metis prod_cases6)
  have "ge_bit x (m - T - 1) = Inr (bit x (m - T - 1))" using Suc.prems assms(3) by (intro ge_bit_eq) simp
  moreover have "at_idx (dcf_cws_vec key) T = Inr (dcf_cws_vec key ! T)" using Suc.prems assms(2) by (intro at_idx_in) simp
  ultimately show ?case using Suc p sp
    by (simp add: rfold_append dcf_eval_level_def dcf_child_def dcf_value_def ge_add_def)
qed simp

subsection \<open>Shares\<close>

lemma dcf_share_cong:
  assumes "n \<le> 128"
  shows "ge_cong n (dcf_share n rank p t c) ((if rank then - 1 else 1) * (p + (if t then c else 0)))"
proof -
  have 1: "ge_cong n (ge_reverse n (ge_add p c)) (- (p + c))" "ge_cong n (ge_reverse n p) (- p)"
    "ge_cong n (ge_add p c) (p + c)" by (intro ge_intros assms)+
  then show ?thesis by (cases rank; cases t) (simp_all add: dcf_share_def ge_cong_refl)
qed

lemma dcf_shares_sum:
  fixes t0 t1 :: bool
  assumes "n \<le> 128"
  shows "ge_cong n ((o0 + dcf_share n False p0 t0 c) + (o1 + dcf_share n True p1 t1 c))
    ((o0 + o1) + (p0 - p1) + ((if t0 then c else 0) - (if t1 then c else 0)))"
proof -
  have "ge_cong n ((o0 + dcf_share n False p0 t0 c) + (o1 + dcf_share n True p1 t1 c))
      ((o0 + (if False then - 1 else 1) * (p0 + (if t0 then c else 0))) + (o1 + (if True then - 1 else 1) * (p1 + (if t1 then c else 0))))"
    by (intro ge_cong_add ge_cong_refl dcf_share_cong [OF assms])
  then show ?thesis by (simp add: algebra_simps)
qed

subsection \<open>Key generation\<close>

text \<open>What one level of the key generation achieves: along \<open>alpha\<close> the control bits stay different and the
  working value follows the sum of the outputs; away from \<open>alpha\<close> the two parties reach the same state,
  with the sum of the outputs at its final value.\<close>

lemma dcf_gen_level_ok:
  fixes alpha :: ge2n and m i :: nat
  assumes "n \<le> 128" "m \<le> 128" "i < m" "i < length (dcf_gen_cws st)" "dcf_t0 st \<noteq> dcf_t1 st"
  defines "a \<equiv> bit alpha (m - i - 1)"
  obtains st' cw where "dcf_gen_level prg m n alpha beta i st = Inr st'" "dcf_gen_cws st' = (dcf_gen_cws st)[i := cw]"
    "dcf_t0 st' \<noteq> dcf_t1 st'"
    "dcf_child prg cw a (dcf_seeds0 st, dcf_t0 st) = (dcf_seeds0 st', dcf_t0 st')"
    "dcf_child prg cw a (dcf_seeds1 st, dcf_t1 st) = (dcf_seeds1 st', dcf_t1 st')"
    "dcf_child prg cw (\<not> a) (dcf_seeds0 st, dcf_t0 st) = dcf_child prg cw (\<not> a) (dcf_seeds1 st, dcf_t1 st)"
    "\<forall>o0 o1. ge_cong n (o0 + o1) (v_working st) \<longrightarrow>
       ge_cong n ((o0 + dcf_share n False (dcf_value prg a (dcf_seeds0 st)) (dcf_t0 st) (dcf_cw_v cw)) +
         (o1 + dcf_share n True (dcf_value prg a (dcf_seeds1 st)) (dcf_t1 st) (dcf_cw_v cw))) (v_working st')"
    "\<forall>o0 o1. ge_cong n (o0 + o1) (v_working st) \<longrightarrow>
       ge_cong n ((o0 + dcf_share n False (dcf_value prg (\<not> a) (dcf_seeds0 st)) (dcf_t0 st) (dcf_cw_v cw)) +
         (o1 + dcf_share n True (dcf_value prg (\<not> a) (dcf_seeds1 st)) (dcf_t1 st) (dcf_cw_v cw))) (if a then beta else 0)"
proof -
  note n = assms(1)
  obtain sl0 vl0 tl0 sr0 vr0 tr0 where sp0: "split_dcf_seed prg (dcf_seeds0 st) = (sl0, vl0, tl0, sr0, vr0, tr0)"
    by (metis prod_cases6)
  obtain sl1 vl1 tl1 sr1 vr1 tr1 where sp1: "split_dcf_seed prg (dcf_seeds1 st) = (sl1, vl1, tl1, sr1, vr1, tr1)"
    by (metis prod_cases6)
  have bit: "ge_bit alpha (m - i - 1) = Inr a" unfolding a_def using assms by (intro ge_bit_eq) simp
  have at: "at_idx (dcf_gen_cws st) i = Inr (dcf_gen_cws st ! i)" using assms by (intro at_idx_in) simp
  define s where "s = (if a then sl0 XOR sl1 else sr0 XOR sr1)"
  define tl where "tl = (((tl0 \<noteq> tl1) \<noteq> a) \<noteq> True)"
  define tr where "tr = ((tr0 \<noteq> tr1) \<noteq> a)"
  define L0 where "L0 = dcf_value prg (\<not> a) (dcf_seeds0 st)"
  define L1 where "L1 = dcf_value prg (\<not> a) (dcf_seeds1 st)"
  define K0 where "K0 = dcf_value prg a (dcf_seeds0 st)"
  define K1 where "K1 = dcf_value prg a (dcf_seeds1 st)"
  define C where "C = ge_add (ge_add L1 (ge_reverse n L0)) (ge_reverse n (v_working st))"
  define c where "c = (if dcf_t1 st then if a then ge_add (ge_reverse n C) (ge_reverse n beta) else ge_reverse n C
    else if a then ge_add C beta else C)"
  define v where "v = ge_add (v_working st) (ge_add (ge_add (ge_reverse n K1) K0) (if dcf_t1 st then ge_reverse n c else c))"
  define cw1 where "cw1 = (dcf_gen_cws st ! i)\<lparr>dcf_cw_seed := s\<rparr>"
  define cw2 where "cw2 = cw1\<lparr>dcf_t_store := push_bit 1 (dcf_get_rt cw1) + of_bool tl\<rparr>"
  define cw where "cw = cw2\<lparr>dcf_t_store := push_bit 1 (of_bool tr) + dcf_get_lt cw2, dcf_cw_v := ge_val n c\<rparr>"
  define ck where "ck = (if a then tr else tl)"
  define st' where "st' = \<lparr>dcf_seeds0 = (if dcf_t0 st then (if a then sr0 else sl0) XOR s else (if a then sr0 else sl0)),
          dcf_seeds1 = (if dcf_t1 st then (if a then sr1 else sl1) XOR s else (if a then sr1 else sl1)),
          dcf_t0 = ((if a then tr0 else tl0) \<noteq> (dcf_t0 st \<and> ck)),
          dcf_t1 = ((if a then tr1 else tl1) \<noteq> (dcf_t1 st \<and> ck)),
          v_working = v, dcf_gen_cws = (dcf_gen_cws st)[i := cw]\<rparr>"
  have L: "dcf_prg prg (if a then vl0 else vr0) = L0" "dcf_prg prg (if a then vl1 else vr1) = L1"
    "dcf_prg prg (if a then vr0 else vl0) = K0" "dcf_prg prg (if a then vr1 else vl1) = K1"
    by (simp_all add: L0_def L1_def K0_def K1_def dcf_value_def sp0 sp1)
  have gen: "dcf_gen_level prg m n alpha beta i st = Inr st'"
    unfolding dcf_gen_level_def bit sp0 sp1 rbind_Inr Let_def prod.case L at dcf_set_t tl_def [symmetric] tr_def [symmetric]
    by (simp add: st'_def cw_def cw2_def cw1_def s_def ck_def c_def v_def C_def)
  have bits: "dcf_get_lt cw = of_bool tl" "dcf_get_rt cw = of_bool tr"
    unfolding cw_def cw2_def by (rule dcf_cw_bits)+
  have seed: "dcf_cw_seed cw = s" by (simp add: cw_def cw2_def cw1_def)
  have cv: "dcf_cw_v cw = ge_val n c" by (simp add: cw_def)
  have C: "ge_cong n C (L1 + - L0 + - v_working st)"
    unfolding C_def by (intro ge_intros n)
  have c: "ge_cong n c (if dcf_t1 st then - (L1 + - L0 + - v_working st) - (if a then beta else 0)
      else (L1 + - L0 + - v_working st) + (if a then beta else 0))"
    using ge_cong_ge_add [OF C ge_cong_refl, of beta] C
      ge_cong_ge_add [OF ge_cong_reverse [OF n C] ge_cong_reverse [OF n ge_cong_refl], of beta] ge_cong_reverse [OF n C]
    unfolding c_def by simp
  have corr: "ge_cong n ((if dcf_t0 st then ge_val n c else 0) - (if dcf_t1 st then ge_val n c else 0))
      (L1 + - L0 + - v_working st + (if a then beta else 0))"
  proof (cases "dcf_t1 st")
    case True
    then show ?thesis using ge_cong_minus [OF ge_cong_val [OF n c]] assms(5) by (simp add: algebra_simps)
  next
    case False
    then show ?thesis using ge_cong_val [OF n c] assms(5) by simp
  qed
  have corr': "ge_cong n (if dcf_t1 st then ge_reverse n c else c) (L1 + - L0 + - v_working st + (if a then beta else 0))"
  proof (cases "dcf_t1 st")
    case True
    then show ?thesis using ge_cong_reverse [OF n c] by (cases a) (simp_all add: algebra_simps)
  next
    case False
    then show ?thesis using c by simp
  qed
  have v: "ge_cong n v (v_working st + ((- K1 + K0) + (L1 + - L0 + - v_working st + (if a then beta else 0))))"
    unfolding v_def by (intro ge_cong_ge_add ge_cong_refl ge_cong_reverse n corr')
  have K: "ge_cong n ((o0 + dcf_share n False K0 (dcf_t0 st) (dcf_cw_v cw)) + (o1 + dcf_share n True K1 (dcf_t1 st) (dcf_cw_v cw)))
      (v_working st')" if "ge_cong n (o0 + o1) (v_working st)" for o0 o1
  proof -
    note dcf_shares_sum [OF n, of o0 K0 "dcf_t0 st" "dcf_cw_v cw" o1 K1 "dcf_t1 st"]
    also have "ge_cong n (o0 + o1 + (K0 - K1) + ((if dcf_t0 st then dcf_cw_v cw else 0) - (if dcf_t1 st then dcf_cw_v cw else 0)))
      (v_working st + (K0 - K1) + (L1 + - L0 + - v_working st + (if a then beta else 0)))"
      unfolding cv by (intro ge_cong_add ge_cong_refl that corr)
    also have "v_working st + (K0 - K1) + (L1 + - L0 + - v_working st + (if a then beta else 0)) =
      v_working st + ((- K1 + K0) + (L1 + - L0 + - v_working st + (if a then beta else 0)))" by simp
    also have "ge_cong n \<dots> v" by (rule ge_cong_sym [OF v])
    finally show ?thesis by (simp add: st'_def)
  qed
  have L': "ge_cong n ((o0 + dcf_share n False L0 (dcf_t0 st) (dcf_cw_v cw)) + (o1 + dcf_share n True L1 (dcf_t1 st) (dcf_cw_v cw)))
      (if a then beta else 0)" if "ge_cong n (o0 + o1) (v_working st)" for o0 o1
  proof -
    note dcf_shares_sum [OF n, of o0 L0 "dcf_t0 st" "dcf_cw_v cw" o1 L1 "dcf_t1 st"]
    also have "ge_cong n (o0 + o1 + (L0 - L1) + ((if dcf_t0 st then dcf_cw_v cw else 0) - (if dcf_t1 st then dcf_cw_v cw else 0)))
      (v_working st + (L0 - L1) + (L1 + - L0 + - v_working st + (if a then beta else 0)))"
      unfolding cv by (intro ge_cong_add ge_cong_refl that corr)
    also have "v_working st + (L0 - L1) + (L1 + - L0 + - v_working st + (if a then beta else 0)) = (if a then beta else 0)" by simp
    finally show ?thesis .
  qed
  have ch: "dcf_child prg cw a (dcf_seeds0 st, dcf_t0 st) = (dcf_seeds0 st', dcf_t0 st')"
    "dcf_child prg cw a (dcf_seeds1 st, dcf_t1 st) = (dcf_seeds1 st', dcf_t1 st')"
    by (auto simp: dcf_child_def sp0 sp1 st'_def seed bits ck_def)
  have same: "dcf_child prg cw (\<not> a) (dcf_seeds0 st, dcf_t0 st) = dcf_child prg cw (\<not> a) (dcf_seeds1 st, dcf_t1 st)"
    using assms(5) by (cases "dcf_t0 st") (auto simp: dcf_child_def sp0 sp1 seed bits s_def tl_def tr_def xor.assoc xor.commute xor.left_commute)
  have diff: "dcf_t0 st' \<noteq> dcf_t1 st'" using assms(5) by (auto simp: st'_def ck_def tl_def tr_def)
  show thesis
    using K L' unfolding K0_def K1_def L0_def L1_def by (intro that [OF gen _ diff ch same]) (simp_all add: st'_def)
qed

text \<open>The input \<open>x\<close>, read from its first bit, agrees with \<open>alpha\<close> before level \<open>l\<close>; it leaves \<open>alpha\<close>
  before level \<open>l\<close> to the smaller side.\<close>

definition agrees :: "(nat \<Rightarrow> bool) \<Rightarrow> (nat \<Rightarrow> bool) \<Rightarrow> nat \<Rightarrow> bool" where
  "agrees x a l \<longleftrightarrow> (\<forall>j < l. x j = a j)"

primrec below :: "(nat \<Rightarrow> bool) \<Rightarrow> (nat \<Rightarrow> bool) \<Rightarrow> nat \<Rightarrow> bool" where
  "below x a 0 = False"
| "below x a (Suc l) = (below x a l \<or> (agrees x a l \<and> a l \<and> \<not> x l))"

lemma agrees_Suc: "agrees x a (Suc l) \<longleftrightarrow> agrees x a l \<and> x l = a l"
  by (auto simp: agrees_def less_Suc_eq)

lemma below_not_agrees: "below x a l \<Longrightarrow> \<not> agrees x a l"
  by (induction l) (auto simp: agrees_Suc)

lemma dcf_share_cancel:
  assumes "n \<le> 128"
  shows "ge_cong n ((o0 + dcf_share n False p t c) + (o1 + dcf_share n True p t c)) (o0 + o1)"
  using dcf_shares_sum [OF assms, of o0 p t c o1 p t] by simp

text \<open>The two walks after \<open>l\<close> levels, for any keys that continue the generated ones.\<close>

definition dcf_inv ::
  "prg \<Rightarrow> nat \<Rightarrow> (nat \<Rightarrow> bool) \<Rightarrow> ge2n \<Rightarrow> u128 \<Rightarrow> u128 \<Rightarrow> nat \<Rightarrow> dcf_gen_state \<Rightarrow> bool" where
  "dcf_inv prg n a beta mk0 mk1 l st \<longleftrightarrow> dcf_t0 st \<noteq> dcf_t1 st \<and>
     (\<forall>x. let cws = dcf_gen_cws st;
              p0 = dcf_path prg cws x (mk0, False) l; p1 = dcf_path prg cws x (mk1, True) l;
              sum = dcf_sum prg n False cws x (mk0, False) l + dcf_sum prg n True cws x (mk1, True) l in
       (agrees x a l \<longrightarrow> p0 = (dcf_seeds0 st, dcf_t0 st) \<and> p1 = (dcf_seeds1 st, dcf_t1 st) \<and> ge_cong n sum (v_working st)) \<and>
       (\<not> agrees x a l \<longrightarrow> p0 = p1 \<and> ge_cong n sum (if below x a l then beta else 0)))"

lemma dcf_inv_step:
  fixes m :: nat and alpha :: ge2n
  defines "a \<equiv> \<lambda>l. bit alpha (m - l - 1)"
  assumes "n \<le> 128" "m \<le> 128" "l < m" "length (dcf_gen_cws st) = m" "dcf_inv prg n a beta mk0 mk1 l st"
  obtains st' where "dcf_gen_level prg m n alpha beta l st = Inr st'" "length (dcf_gen_cws st') = m"
    "dcf_inv prg n a beta mk0 mk1 (Suc l) st'"
proof -
  from assms have t: "dcf_t0 st \<noteq> dcf_t1 st" and l: "l < length (dcf_gen_cws st)" by (simp_all add: dcf_inv_def)
  obtain st' cw where st': "dcf_gen_level prg m n alpha beta l st = Inr st'" "dcf_gen_cws st' = (dcf_gen_cws st)[l := cw]"
    "dcf_t0 st' \<noteq> dcf_t1 st'"
    "dcf_child prg cw (a l) (dcf_seeds0 st, dcf_t0 st) = (dcf_seeds0 st', dcf_t0 st')"
    "dcf_child prg cw (a l) (dcf_seeds1 st, dcf_t1 st) = (dcf_seeds1 st', dcf_t1 st')"
    "dcf_child prg cw (\<not> a l) (dcf_seeds0 st, dcf_t0 st) = dcf_child prg cw (\<not> a l) (dcf_seeds1 st, dcf_t1 st)"
    "\<forall>o0 o1. ge_cong n (o0 + o1) (v_working st) \<longrightarrow>
       ge_cong n ((o0 + dcf_share n False (dcf_value prg (a l) (dcf_seeds0 st)) (dcf_t0 st) (dcf_cw_v cw)) +
         (o1 + dcf_share n True (dcf_value prg (a l) (dcf_seeds1 st)) (dcf_t1 st) (dcf_cw_v cw))) (v_working st')"
    "\<forall>o0 o1. ge_cong n (o0 + o1) (v_working st) \<longrightarrow>
       ge_cong n ((o0 + dcf_share n False (dcf_value prg (\<not> a l) (dcf_seeds0 st)) (dcf_t0 st) (dcf_cw_v cw)) +
         (o1 + dcf_share n True (dcf_value prg (\<not> a l) (dcf_seeds1 st)) (dcf_t1 st) (dcf_cw_v cw))) (if a l then beta else 0)"
    unfolding a_def by (rule dcf_gen_level_ok [OF assms(2,3,4) l t, where prg = prg and alpha = alpha and beta = beta])
  let ?cws = "dcf_gen_cws st" and ?cws' = "dcf_gen_cws st'"
  have cw: "?cws' ! l = cw" using st'(2) l by simp
  have path: "dcf_path prg ?cws' x s l = dcf_path prg ?cws x s l" for x s
    by (rule dcf_path_cong) (simp add: st'(2))
  have sum: "dcf_sum prg n r ?cws' x s l = dcf_sum prg n r ?cws x s l" for x s r
    by (rule dcf_sum_cong) (simp add: st'(2))
  have "dcf_inv prg n a beta mk0 mk1 (Suc l) st'"
    unfolding dcf_inv_def Let_def
  proof (intro conjI allI impI st'(3))
    fix x
    let ?p0 = "dcf_path prg ?cws x (mk0, False) l" and ?p1 = "dcf_path prg ?cws x (mk1, True) l"
    have on: "?p0 = (dcf_seeds0 st, dcf_t0 st)" "?p1 = (dcf_seeds1 st, dcf_t1 st)"
      "ge_cong n (dcf_sum prg n False ?cws x (mk0, False) l + dcf_sum prg n True ?cws x (mk1, True) l) (v_working st)"
      if "agrees x a l" using assms(6) that by (simp_all add: dcf_inv_def Let_def)
    have off: "?p0 = ?p1"
      "ge_cong n (dcf_sum prg n False ?cws x (mk0, False) l + dcf_sum prg n True ?cws x (mk1, True) l) (if below x a l then beta else 0)"
      if "\<not> agrees x a l" using assms(6) that by (simp_all add: dcf_inv_def Let_def)
    {
      assume "agrees x a (Suc l)"
      then have ag: "agrees x a l" and xl: "x l = a l" by (simp_all add: agrees_Suc)
      show "dcf_path prg ?cws' x (mk0, False) (Suc l) = (dcf_seeds0 st', dcf_t0 st')"
        "dcf_path prg ?cws' x (mk1, True) (Suc l) = (dcf_seeds1 st', dcf_t1 st')"
        by (simp_all add: path cw on [OF ag] xl st'(4,5))
      show "ge_cong n (dcf_sum prg n False ?cws' x (mk0, False) (Suc l) + dcf_sum prg n True ?cws' x (mk1, True) (Suc l)) (v_working st')"
        using st'(7) [rule_format, OF on(3) [OF ag]] by (simp add: path sum cw on(1,2) [OF ag] xl)
    }
    {
      assume nag: "\<not> agrees x a (Suc l)"
      have "dcf_path prg ?cws' x (mk0, False) (Suc l) = dcf_path prg ?cws' x (mk1, True) (Suc l) \<and>
        ge_cong n (dcf_sum prg n False ?cws' x (mk0, False) (Suc l) + dcf_sum prg n True ?cws' x (mk1, True) (Suc l))
          (if below x a (Suc l) then beta else 0)"
      proof (cases "agrees x a l")
        case True
        with nag have xl: "x l = (\<not> a l)" by (simp add: agrees_Suc)
        moreover have "\<not> below x a l" using True below_not_agrees by blast
        ultimately show ?thesis using True st'(6) st'(8) [rule_format, OF on(3) [OF True]]
          by (simp add: path sum cw on(1,2) [OF True])
      next
        case False
        obtain s t where p: "?p1 = (s, t)" by fastforce
        show ?thesis using False off(1) [OF False] ge_cong_trans [OF dcf_share_cancel off(2) [OF False]] assms(2)
          by (simp add: path sum cw p)
      qed
      then show "dcf_path prg ?cws' x (mk0, False) (Suc l) = dcf_path prg ?cws' x (mk1, True) (Suc l)"
        "ge_cong n (dcf_sum prg n False ?cws' x (mk0, False) (Suc l) + dcf_sum prg n True ?cws' x (mk1, True) (Suc l))
          (if below x a (Suc l) then beta else 0)" by blast+
    }
  qed
  with st' assms(5) show thesis by (intro that) simp_all
qed

lemma dcf_gen_levels:
  fixes m :: nat and alpha :: ge2n
  defines "a \<equiv> \<lambda>l. bit alpha (m - l - 1)"
  assumes "n \<le> 128" "m \<le> 128" "l \<le> m" "length (dcf_gen_cws st) = m" "dcf_inv prg n a beta mk0 mk1 0 st"
  shows "\<exists>st'. rfold (dcf_gen_level prg m n alpha beta) [0..<l] st = Inr st' \<and> length (dcf_gen_cws st') = m \<and>
    dcf_inv prg n a beta mk0 mk1 l st'"
  using assms(4)
proof (induction l)
  case 0
  then show ?case using assms by simp
next
  case (Suc l)
  then obtain st1 where 1: "rfold (dcf_gen_level prg m n alpha beta) [0..<l] st = Inr st1" "length (dcf_gen_cws st1) = m"
    "dcf_inv prg n a beta mk0 mk1 l st1" by auto
  obtain st2 where "dcf_gen_level prg m n alpha beta l st1 = Inr st2" "length (dcf_gen_cws st2) = m"
    "dcf_inv prg n a beta mk0 mk1 (Suc l) st2"
    using dcf_inv_step [OF assms(2,3) _ 1(2,3) [unfolded a_def]] Suc.prems unfolding a_def by auto
  with 1 show ?case by (simp add: rfold_append)
qed

subsection \<open>The property\<close>

lemma drop_bit_next:
  fixes k :: int
  assumes "l < m"
  shows "drop_bit (m - Suc l) (take_bit m k) = 2 * drop_bit (m - l) (take_bit m k) + of_bool (bit k (m - l - 1))"
proof -
  let ?d = "drop_bit (m - Suc l) (take_bit m k)"
  have "m - l = Suc (m - Suc l)" using assms by simp
  then have "drop_bit (m - l) (take_bit m k) = drop_bit 1 ?d" by (simp only: drop_bit_drop_bit) simp
  then have "drop_bit (m - l) (take_bit m k) = ?d div 2" by (simp add: drop_bit_eq_div)
  moreover have "odd ?d \<longleftrightarrow> bit k (m - l - 1)"
    using assms by (simp add: bit_iff_odd_drop_bit [symmetric] bit_take_bit_iff)
  then have "?d mod 2 = of_bool (bit k (m - l - 1))" by (simp add: mod_2_eq_odd)
  ultimately show ?thesis using mult_div_mod_eq [of 2 ?d] by simp
qed

lemma bit_uint_eq: "bit (uint (x :: u128)) j = bit x j"
  by (auto simp: bit_uint_iff dest: bit_imp_le_length)

lemma below_iff:
  fixes x alpha :: ge2n
  defines "X \<equiv> \<lambda>m l. drop_bit (m - l) (take_bit m (uint x))" and "A \<equiv> \<lambda>m l. drop_bit (m - l) (take_bit m (uint alpha))"
  assumes "l \<le> m" "m \<le> 128"
  shows "(below (\<lambda>j. bit x (m - j - 1)) (\<lambda>j. bit alpha (m - j - 1)) l \<longleftrightarrow> X m l < A m l) \<and>
    (agrees (\<lambda>j. bit x (m - j - 1)) (\<lambda>j. bit alpha (m - j - 1)) l \<longleftrightarrow> X m l = A m l)"
  using assms(3)
proof (induction l)
  case 0
  then show ?case by (simp add: agrees_def X_def A_def drop_bit_take_bit)
next
  case (Suc l)
  then have "l < m" by simp
  then have "X m (Suc l) = 2 * X m l + of_bool (bit x (m - l - 1))" "A m (Suc l) = 2 * A m l + of_bool (bit alpha (m - l - 1))"
    using drop_bit_next [of l m] by (simp_all add: X_def A_def bit_uint_eq)
  then show ?case using Suc.IH \<open>l < m\<close>
    by (cases "bit x (m - Suc l)"; cases "bit alpha (m - Suc l)"; simp add: agrees_Suc) presburger+
qed

lemma below_ge_lt:
  assumes "m \<le> 128"
  shows "below (\<lambda>j. bit x (m - j - 1)) (\<lambda>j. bit alpha (m - j - 1)) m \<longleftrightarrow> ge_lt m x alpha"
  using below_iff [of m m x alpha] assms by (simp add: ge_lt_def word_less_def ge_val_eq unsigned_take_bit_eq)

text \<open>C8: For every threshold \<open>alpha\<close>, value \<open>beta\<close>, pair of master seeds and pseudo-random generator, \<open>DcfKeyGen\<close>
  returns two keys, \<open>DcfEval\<close> of each returns at every input, and the two outputs add up to \<open>beta\<close> modulo
  \<open>2 ^ n\<close> if the input is smaller than \<open>alpha\<close> and to 0 otherwise.\<close>

theorem dcf_correct:
  assumes "m \<le> 128" "n \<le> 128"
  shows "\<exists>key0 key1 out0 out1. dcf_key_gen prg m n alpha beta k0 k1 = Inr (key0, key1) \<and>
    dcf_eval prg m n key0 x = Inr out0 \<and> dcf_eval prg m n key1 x = Inr out1 \<and>
    ge_val n (ge_add out0 out1) = (if ge_lt m x alpha then ge_val n beta else 0)"
proof -
  note n = assms(2)
  let ?a = "\<lambda>l. bit alpha (m - l - 1)" and ?x = "\<lambda>l. bit x (m - l - 1)"
  let ?st = "\<lparr>dcf_seeds0 = k0, dcf_seeds1 = k1, dcf_t0 = False, dcf_t1 = True, v_working = 0,
    dcf_gen_cws = replicate m default_dcf_cw\<rparr>"
  have "dcf_inv prg n ?a beta k0 k1 0 ?st" by (simp add: dcf_inv_def agrees_def ge_cong_refl)
  then obtain st where gen: "rfold (dcf_gen_level prg m n alpha beta) [0..<m] ?st = Inr st" and len: "length (dcf_gen_cws st) = m"
    and inv: "dcf_inv prg n ?a beta k0 k1 m st"
    using dcf_gen_levels [of n m m ?st prg alpha beta k0 k1] assms by auto
  define P0 where "P0 = dcf_prg prg (dcf_seeds0 st)"
  define P1 where "P1 = dcf_prg prg (dcf_seeds1 st)"
  define c where "c = ge_add (ge_add (ge_reverse n P0) P1) (ge_reverse n (v_working st))"
  define last where "last = ge_val n (if dcf_t1 st then ge_reverse n c else c)"
  have c: "ge_cong n c ((- P0 + P1) + - v_working st)" unfolding c_def by (intro ge_intros n)
  have last: "ge_cong n ((if dcf_t0 st then last else 0) - (if dcf_t1 st then last else 0)) (- P0 + P1 - v_working st)"
    using ge_cong_val [OF n c] ge_cong_minus [OF ge_cong_val [OF n ge_cong_reverse [OF n c]]] inv
    by (cases "dcf_t1 st") (simp_all add: last_def dcf_inv_def)
  define key0 where "key0 = (new_dcf_key False k0)\<lparr>dcf_cws_vec := dcf_gen_cws st, dcf_last_cw_vec := [last]\<rparr>"
  define key1 where "key1 = (new_dcf_key True k1)\<lparr>dcf_cws_vec := dcf_gen_cws st, dcf_last_cw_vec := [last]\<rparr>"
  have keys: "dcf_key_gen prg m n alpha beta k0 k1 = Inr (key0, key1)"
    using gen by (simp add: dcf_key_gen_def new_dcf_key_def enforce_def Let_def key0_def key1_def last_def c_def P0_def P1_def)
  obtain s0 d0 where p0: "dcf_path prg (dcf_gen_cws st) ?x (k0, False) m = (s0, d0)" by fastforce
  obtain s1 d1 where p1: "dcf_path prg (dcf_gen_cws st) ?x (k1, True) m = (s1, d1)" by fastforce
  define o0 where "o0 = dcf_sum prg n False (dcf_gen_cws st) ?x (k0, False) m"
  define o1 where "o1 = dcf_sum prg n True (dcf_gen_cws st) ?x (k1, True) m"
  let ?out0 = "o0 + dcf_share n False (dcf_prg prg s0) d0 last" and ?out1 = "o1 + dcf_share n True (dcf_prg prg s1) d1 last"
  have evals: "dcf_eval prg m n key0 x = Inr ?out0" "dcf_eval prg m n key1 x = Inr ?out1"
    using dcf_eval_levels [of m m key0 prg n x k0 False] dcf_eval_levels [of m m key1 prg n x k1 True] len assms p0 p1
    by (auto simp: dcf_eval_def key0_def key1_def new_dcf_key_def at_idx_def dcf_share_def ge_add_def o0_def o1_def)
  have "ge_cong n (?out0 + ?out1) (if ge_lt m x alpha then beta else 0)"
  proof (cases "agrees ?x ?a m")
    case True
    with inv p0 p1 have st: "s0 = dcf_seeds0 st" "d0 = dcf_t0 st" "s1 = dcf_seeds1 st" "d1 = dcf_t1 st"
      and sum: "ge_cong n (o0 + o1) (v_working st)" by (simp_all add: dcf_inv_def Let_def o0_def o1_def)
    have nlt: "\<not> ge_lt m x alpha" using below_not_agrees [of ?x ?a m] True below_ge_lt [OF assms(1)] by blast
    note dcf_shares_sum [OF n, of o0 P0 "dcf_t0 st" last o1 P1 "dcf_t1 st"]
    also have "ge_cong n ((o0 + o1) + (P0 - P1) + ((if dcf_t0 st then last else 0) - (if dcf_t1 st then last else 0)))
      (v_working st + (P0 - P1) + (- P0 + P1 - v_working st))" by (intro ge_cong_add sum ge_cong_refl last)
    finally show ?thesis unfolding st P0_def [symmetric] P1_def [symmetric] using nlt by simp
  next
    case False
    with inv p0 p1 have st: "s0 = s1" "d0 = d1"
      and sum: "ge_cong n (o0 + o1) (if below ?x ?a m then beta else 0)" by (simp_all add: dcf_inv_def Let_def o0_def o1_def)
    show ?thesis using ge_cong_trans [OF dcf_share_cancel [OF n] sum] unfolding st below_ge_lt [OF assms(1)] .
  qed
  then have "ge_val n (ge_add ?out0 ?out1) = (if ge_lt m x alpha then ge_val n beta else 0)"
    using n by (auto simp: ge_cong_def ge_val_eq ge_add_def)
  with keys evals show ?thesis by blast
qed

text \<open>Five is below seven, nine is not.\<close>

theorem dcf_correct_witness:
  "(\<exists>key0 key1 out0 out1. dcf_key_gen demo_prg 8 64 7 1000 1 2 = Inr (key0, key1) \<and>
    dcf_eval demo_prg 8 64 key0 5 = Inr out0 \<and> dcf_eval demo_prg 8 64 key1 5 = Inr out1 \<and> ge_val 64 (ge_add out0 out1) = 1000) \<and>
   (\<exists>key0 key1 out0 out1. dcf_key_gen demo_prg 8 64 7 1000 1 2 = Inr (key0, key1) \<and>
    dcf_eval demo_prg 8 64 key0 9 = Inr out0 \<and> dcf_eval demo_prg 8 64 key1 9 = Inr out1 \<and> ge_val 64 (ge_add out0 out1) = 0)"
proof -
  have "ge_val 64 (1000 :: u128) = 1000" "ge_lt 8 5 7" "\<not> ge_lt 8 9 7"
    by (simp_all add: ge_lt_def ge_val_eq take_bit_eq_mod)
  then show ?thesis using dcf_correct [of 8 64 demo_prg 7 1000 1 2 5] dcf_correct [of 8 64 demo_prg 7 1000 1 2 9] by auto
qed

end
