(* ===== verification/Pprf.thy ===== *)
theory Pprf
  imports Ge2n
begin

text \<open>
  \<open>crypto/experimental/dpf/pprf.h\<close> and \<open>pprf.cc\<close>: the puncturable pseudo-random function on the tree of
  Goldreich, Goldwasser and Micali. \<open>ggm s c\<close> stands for the block that \<open>FillPRand\<close> writes for the seed \<open>s\<close>
  with counter \<open>c\<close>, AES in counter mode. A punctured key holds the siblings of the path to the
  punctured point, by level.
\<close>

type_synonym ggm = "u128 \<Rightarrow> nat \<Rightarrow> u128"

record pprf_punc_key =
  punc_point :: u128
  punc_seeds :: "nat \<rightharpoonup> u128"

text \<open>The children of a node: \<open>GgmPrg\<close> with two, and with one destination.\<close>

definition ggm_prg :: "ggm \<Rightarrow> u128 \<Rightarrow> u128 \<times> u128" where
  "ggm_prg ggm s = (ggm s 0, ggm s 1)"

text \<open>\<open>std::log2\<close> on powers of two, and \<open>insert\<close> of \<open>std::unordered_map\<close>, which keeps a present entry.\<close>

fun log2_nat :: "nat \<Rightarrow> nat" where
  "log2_nat n = (if n < 2 then 0 else Suc (log2_nat (n div 2)))"

declare log2_nat.simps [simp del]

definition seeds_insert :: "nat \<Rightarrow> u128 \<Rightarrow> (nat \<rightharpoonup> u128) \<Rightarrow> (nat \<rightharpoonup> u128)" where
  "seeds_insert i s seeds = (case seeds i of None \<Rightarrow> seeds(i \<mapsto> s) | Some _ \<Rightarrow> seeds)"

text \<open>The expansion on a span of the working vector: it writes both children of the first entry to the first
  entries of the halves, and goes on in the half of the punctured point.\<close>

function ggm_expand_and_punc ::
  "ggm \<Rightarrow> nat \<Rightarrow> ge2n \<Rightarrow> u128 list \<Rightarrow> (nat \<rightharpoonup> u128) \<Rightarrow> (u128 list \<times> (nat \<rightharpoonup> u128)) result" where
  "ggm_expand_and_punc ggm m punc working_span seeds =
     (let num = length working_span; i = m - log2_nat num; half = num div 2 in
      if num > 1 then
        let (l, r) = ggm_prg ggm (working_span ! 0); ws = working_span[0 := l, half := r] in
        rbind (ge_bit punc i) (\<lambda>b.
        if \<not> b then
          rbind (ggm_expand_and_punc ggm m punc (take half ws) seeds) (\<lambda>(left, seeds).
          Inr (left @ drop half ws, seeds_insert i (ws ! half) seeds))
        else
          rbind (ggm_expand_and_punc ggm m punc (take half (drop half ws)) (seeds_insert i (ws ! 0) seeds)) (\<lambda>(right, seeds).
          Inr (take half ws @ right @ drop (half + half) ws, seeds)))
      else Inr (working_span, seeds))"
  by pat_completeness auto
termination by (relation "measure (\<lambda>(_, _, _, ws, _). length ws)") auto

declare ggm_expand_and_punc.simps [simp del]

text \<open>For 64 bits the working vector would have \<open>2 ^ 64 - 1\<close> entries, which the constructor of
  \<open>std::vector\<close> refuses.\<close>

definition pprf_punc :: "ggm \<Rightarrow> nat \<Rightarrow> u128 \<Rightarrow> ge2n \<Rightarrow> pprf_punc_key \<Rightarrow> pprf_punc_key result" where
  "pprf_punc ggm m prf_key punc out =
     (if m = 64 then Inl LogicError
      else
        let working_vec = (replicate (2 ^ m) 0)[0 := prf_key] in
        rbind (ggm_expand_and_punc ggm m punc working_vec (punc_seeds out)) (\<lambda>(_, sds).
        Inr (out\<lparr>punc_seeds := sds, punc_point := ge_val m punc\<rparr>)))"

text \<open>One level of the evaluation with a punctured key; the state is \<open>is_same\<close>, \<open>retrived\<close> and the current seed.\<close>

definition pprf_punc_eval_level ::
  "ggm \<Rightarrow> pprf_punc_key \<Rightarrow> ge2n \<Rightarrow> nat \<Rightarrow> bool \<times> bool \<times> u128 \<Rightarrow> (bool \<times> bool \<times> u128) result" where
  "pprf_punc_eval_level ggm key point i = (\<lambda>(is_same, retrived, seed).
     rbind (ge_bit point i) (\<lambda>b.
     rbind (ge_bit (punc_point key) i) (\<lambda>b'.
     let is_same = (is_same \<and> b = b') in
     if \<not> is_same then
       if \<not> retrived then
         (case punc_seeds key i of None \<Rightarrow> Inl OutOfRange | Some s \<Rightarrow> Inr (is_same, True, s))
       else if \<not> b then Inr (is_same, retrived, fst (ggm_prg ggm seed))
       else Inr (is_same, retrived, snd (ggm_prg ggm seed))
     else Inr (is_same, retrived, seed))))"

definition pprf_punc_eval :: "ggm \<Rightarrow> nat \<Rightarrow> pprf_punc_key \<Rightarrow> ge2n \<Rightarrow> ge2n result" where
  "pprf_punc_eval ggm m key point =
     rbind (enforce (\<not> ge_eq m (punc_point key) point)) (\<lambda>_.
     rbind (rfold (pprf_punc_eval_level ggm key point) [0..<m] (True, False, 0)) (\<lambda>(_, _, seed).
     Inr seed))"

definition pprf_eval_level :: "ggm \<Rightarrow> ge2n \<Rightarrow> nat \<Rightarrow> u128 \<Rightarrow> u128 result" where
  "pprf_eval_level ggm point i seed =
     rbind (ge_bit point i) (\<lambda>b. Inr (if \<not> b then fst (ggm_prg ggm seed) else snd (ggm_prg ggm seed)))"

definition pprf_eval :: "ggm \<Rightarrow> nat \<Rightarrow> u128 \<Rightarrow> ge2n \<Rightarrow> ge2n result" where
  "pprf_eval ggm m prf_key point = rfold (pprf_eval_level ggm point) [0..<m] prf_key"

subsection \<open>Walks down the tree\<close>

definition ggm_walk :: "ggm \<Rightarrow> ge2n \<Rightarrow> nat \<Rightarrow> nat \<Rightarrow> u128 \<Rightarrow> u128" where
  "ggm_walk ggm x a b s = fold (\<lambda>i s. ggm s (of_bool (bit x i))) [a..<b] s"

lemma ggm_walk_simps [simp]:
  "ggm_walk ggm x a a s = s"
  "a \<le> b \<Longrightarrow> ggm_walk ggm x a (Suc b) s = ggm (ggm_walk ggm x a b s) (of_bool (bit x b))"
  by (simp_all add: ggm_walk_def)

lemma ggm_walk_first: "a < b \<Longrightarrow> ggm_walk ggm x a b s = ggm_walk ggm x (Suc a) b (ggm s (of_bool (bit x a)))"
  by (simp add: ggm_walk_def upt_conv_Cons)

lemma ggm_walk_cong: "(\<And>i. a \<le> i \<Longrightarrow> i < b \<Longrightarrow> bit x i = bit y i) \<Longrightarrow> ggm_walk ggm x a b s = ggm_walk ggm y a b s"
  unfolding ggm_walk_def by (rule fold_cong) auto

text \<open>The sibling of the path to the punctured point at a level.\<close>

definition ggm_sibling :: "ggm \<Rightarrow> ge2n \<Rightarrow> nat \<Rightarrow> u128 \<Rightarrow> nat \<Rightarrow> u128" where
  "ggm_sibling ggm punc a s i = ggm (ggm_walk ggm punc a i s) (of_bool (\<not> bit punc i))"

lemma ggm_sibling_simps:
  "ggm_sibling ggm punc a s a = ggm s (of_bool (\<not> bit punc a))"
  "a < i \<Longrightarrow> ggm_sibling ggm punc a s i = ggm_sibling ggm punc (Suc a) (ggm s (of_bool (bit punc a))) i"
  by (simp_all add: ggm_sibling_def ggm_walk_first)

lemma ggm_siblings:
  assumes "a < m"
  shows "(\<lambda>i. if Suc a \<le> i \<and> i < m then Some (ggm_sibling ggm punc (Suc a) (ggm s (of_bool (bit punc a))) i)
      else if i = a then Some (ggm s (of_bool (\<not> bit punc a))) else sds i) =
    (\<lambda>i. if a \<le> i \<and> i < m then Some (ggm_sibling ggm punc a s i) else sds i)"
proof
  fix i
  consider "i = a" | "a < i" | "i < a" by linarith
  then show "(if Suc a \<le> i \<and> i < m then Some (ggm_sibling ggm punc (Suc a) (ggm s (of_bool (bit punc a))) i)
      else if i = a then Some (ggm s (of_bool (\<not> bit punc a))) else sds i) =
    (if a \<le> i \<and> i < m then Some (ggm_sibling ggm punc a s i) else sds i)"
    using assms by cases (simp_all add: ggm_sibling_simps)
qed

lemma log2_nat_power [simp]: "log2_nat (2 ^ k) = k"
proof (induction k)
  case (Suc k)
  have "(2 :: nat) ^ Suc k div 2 = 2 ^ k" "\<not> (2 :: nat) ^ Suc k < 2" by simp_all
  with Suc show ?case by (subst log2_nat.simps) simp
qed (simp add: log2_nat.simps)

subsection \<open>The punctured key\<close>

lemma ggm_expand_ok:
  assumes "length ws = 2 ^ k" "k \<le> m" "m \<le> 128" "\<And>i. m - k \<le> i \<Longrightarrow> sds i = None"
  shows "\<exists>ws'. ggm_expand_and_punc ggm m punc ws sds = Inr (ws', \<lambda>i.
    if m - k \<le> i \<and> i < m then Some (ggm_sibling ggm punc (m - k) (ws ! 0) i) else sds i)"
  using assms
proof (induction k arbitrary: ws sds)
  case 0
  then have "sds = (\<lambda>i. if m - 0 \<le> i \<and> i < m then Some (ggm_sibling ggm punc (m - 0) (ws ! 0) i) else sds i)" by auto
  then show ?case using 0 by (subst ggm_expand_and_punc.simps) auto
next
  case (Suc k)
  define a where "a = m - Suc k"
  define h where "h = (2 ^ k :: nat)"
  define s where "s = ws ! 0"
  define ws1 where "ws1 = ws[0 := ggm s 0, h := ggm s 1]"
  have a: "m - k = Suc a" "a < m" using Suc.prems(2) by (simp_all add: a_def)
  have k: "k \<le> m" using Suc.prems(2) by simp
  have len: "length ws = h + h" "0 < h" using Suc.prems(1) by (simp_all add: h_def)
  have log2: "m - log2_nat (h + h) = a"
    using log2_nat_power [of "Suc k"] by (simp add: h_def a_def mult_2 del: log2_nat_power)
  have bit: "ge_bit punc a = Inr (bit punc a)" using a(2) Suc.prems(3) by (intro ge_bit_eq) simp
  have heads: "ws1 ! 0 = ggm s 0" "ws1 ! h = ggm s 1" "take h ws1 ! 0 = ggm s 0" "take h (drop h ws1) ! 0 = ggm s 1"
    "length (take h ws1) = 2 ^ k" "length (take h (drop h ws1)) = 2 ^ k"
    using len by (simp_all add: ws1_def nth_list_update h_def [symmetric])
  have unfold: "ggm_expand_and_punc ggm m punc ws sds = (if \<not> bit punc a then
      rbind (ggm_expand_and_punc ggm m punc (take h ws1) sds) (\<lambda>(left, sds). Inr (left @ drop h ws1, seeds_insert a (ws1 ! h) sds))
    else rbind (ggm_expand_and_punc ggm m punc (take h (drop h ws1)) (seeds_insert a (ws1 ! 0) sds)) (\<lambda>(right, sds).
      Inr (take h ws1 @ right @ drop (h + h) ws1, sds)))"
    using len bit by (subst ggm_expand_and_punc.simps) (simp add: Let_def ggm_prg_def log2 ws1_def s_def)
  have none: "sds a = None" "\<And>i. Suc a \<le> i \<Longrightarrow> sds i = None" using Suc.prems(4) by (simp_all add: a_def)
  show ?case unfolding a_def [symmetric] s_def [symmetric]
  proof (cases "bit punc a")
    case False
    let ?sds = "\<lambda>i. if Suc a \<le> i \<and> i < m then Some (ggm_sibling ggm punc (Suc a) (ggm s 0) i) else sds i"
    obtain left where "ggm_expand_and_punc ggm m punc (take h ws1) sds = Inr (left, ?sds)"
      using Suc.IH [of "take h ws1" sds, unfolded heads a(1), OF refl k Suc.prems(3) none(2)] by blast
    moreover have "seeds_insert a (ws1 ! h) ?sds = (\<lambda>i. if a \<le> i \<and> i < m then Some (ggm_sibling ggm punc a s i) else sds i)"
      unfolding ggm_siblings [OF a(2), symmetric] using False none(1) heads by (auto simp: seeds_insert_def fun_eq_iff)
    ultimately show "\<exists>ws'. ggm_expand_and_punc ggm m punc ws sds = Inr (ws', \<lambda>i.
        if a \<le> i \<and> i < m then Some (ggm_sibling ggm punc a s i) else sds i)"
      using False unfold by simp
  next
    case True
    let ?sds = "\<lambda>i. if Suc a \<le> i \<and> i < m then Some (ggm_sibling ggm punc (Suc a) (ggm s 1) i) else (sds(a \<mapsto> ggm s 0)) i"
    have none': "\<And>i. Suc a \<le> i \<Longrightarrow> (sds(a \<mapsto> ggm s 0)) i = None" using none(2) by simp
    have "seeds_insert a (ws1 ! 0) sds = sds(a \<mapsto> ggm s 0)" by (simp add: seeds_insert_def none(1) heads)
    moreover obtain right where "ggm_expand_and_punc ggm m punc (take h (drop h ws1)) (sds(a \<mapsto> ggm s 0)) = Inr (right, ?sds)"
      using Suc.IH [of "take h (drop h ws1)" "sds(a \<mapsto> ggm s 0)", unfolded heads a(1), OF refl k Suc.prems(3) none'] by blast
    moreover have "?sds = (\<lambda>i. if a \<le> i \<and> i < m then Some (ggm_sibling ggm punc a s i) else sds i)"
      unfolding ggm_siblings [OF a(2), symmetric] using True by (auto simp: fun_eq_iff)
    ultimately show "\<exists>ws'. ggm_expand_and_punc ggm m punc ws sds = Inr (ws', \<lambda>i.
        if a \<le> i \<and> i < m then Some (ggm_sibling ggm punc a s i) else sds i)"
      using True unfold by simp
  qed
qed

lemma pprf_eval_eq: "m \<le> 128 \<Longrightarrow> pprf_eval ggm m k x = Inr (ggm_walk ggm x 0 m k)"
  unfolding pprf_eval_def
proof (induction m)
  case (Suc m)
  then show ?case by (simp add: rfold_append pprf_eval_level_def ge_bit_eq ggm_prg_def)
qed simp

text \<open>The evaluation with a punctured key: up to level \<open>l\<close> the points agree, or the current seed is the one of
  the evaluation with the full key.\<close>

lemma pprf_punc_eval_levels:
  assumes "l \<le> m" "m \<le> 128" "\<And>i. i < m \<Longrightarrow> bit (punc_point key) i = bit punc i"
    and "\<And>i. i < m \<Longrightarrow> punc_seeds key i = Some (ggm_sibling ggm punc 0 k i)"
  shows "rfold (pprf_punc_eval_level ggm key x) [0..<l] (True, False, 0) =
    Inr (if \<forall>i < l. bit x i = bit punc i then (True, False, 0) else (False, True, ggm_walk ggm x 0 l k))"
  using assms(1)
proof (induction l)
  case (Suc l)
  have l: "l < m" "l < 128" using Suc.prems assms(2) by simp_all
  have all: "(\<forall>i < Suc l. P i) \<longleftrightarrow> (\<forall>i < l. P i) \<and> P l" for P by (auto simp: less_Suc_eq)
  have "ggm_sibling ggm punc 0 k l = ggm_walk ggm x 0 (Suc l) k" if "\<forall>i < l. bit x i = bit punc i" "bit x l \<noteq> bit punc l"
    using that ggm_walk_cong [of 0 l x punc ggm k] by (simp add: ggm_sibling_def)
  then have "pprf_punc_eval_level ggm key x l (if \<forall>i < l. bit x i = bit punc i then (True, False, 0) else (False, True, ggm_walk ggm x 0 l k)) =
      Inr (if \<forall>i < Suc l. bit x i = bit punc i then (True, False, 0) else (False, True, ggm_walk ggm x 0 (Suc l) k))"
    unfolding all using l assms(3,4) [OF l(1)]
    by (cases "\<forall>i < l. bit x i = bit punc i"; cases "bit x l = bit punc l")
      (simp_all add: pprf_punc_eval_level_def ge_bit_eq ggm_prg_def)
  then show ?case using Suc by (simp add: rfold_append del: ggm_walk_simps)
qed simp

text \<open>C30: Puncturing at any point gives a key, into an empty one, that evaluates to the value of the function at
  every other point, and refuses to evaluate at the punctured point.\<close>

theorem pprf_puncture_correct:
  assumes "m < 64" "punc_seeds out = Map.empty"
  shows "\<exists>key. pprf_punc ggm m k punc out = Inr key \<and>
    (\<forall>x. pprf_punc_eval ggm m key x = (if ge_eq m x punc then Inl EnforceNotMet else pprf_eval ggm m k x))"
proof -
  let ?sds = "\<lambda>i. if 0 \<le> i \<and> i < m then Some (ggm_sibling ggm punc 0 k i) else None"
  define key where "key = out\<lparr>punc_seeds := ?sds, punc_point := ge_val m punc\<rparr>"
  have head: "(replicate (2 ^ m) 0)[0 := k] ! 0 = k" by simp
  obtain ws' where "ggm_expand_and_punc ggm m punc ((replicate (2 ^ m) 0)[0 := k]) Map.empty = Inr (ws', ?sds)"
    using ggm_expand_ok [of "(replicate (2 ^ m) 0)[0 := k]" m m Map.empty ggm punc, unfolded head diff_self_eq_0] assms(1) by auto
  then have punc: "pprf_punc ggm m k punc out = Inr key" using assms by (simp add: pprf_punc_def key_def)
  have "pprf_punc_eval ggm m key x = (if ge_eq m x punc then Inl EnforceNotMet else pprf_eval ggm m k x)" for x
  proof -
    have same: "ge_eq m (punc_point key) x \<longleftrightarrow> ge_eq m x punc" using assms(1) by (auto simp: ge_eq_def key_def ge_val_eq)
    have bits: "ge_eq m x punc \<longleftrightarrow> (\<forall>i < m. bit x i = bit punc i)"
      using assms(1) by (intro ge_eq_bits) simp
    have "rfold (pprf_punc_eval_level ggm key x) [0..<m] (True, False, 0) =
        Inr (if \<forall>i < m. bit x i = bit punc i then (True, False, 0) else (False, True, ggm_walk ggm x 0 m k))"
      using assms(1) by (intro pprf_punc_eval_levels) (simp_all add: key_def ge_val_eq bit_take_bit_iff)
    then show ?thesis using assms(1)
      by (simp add: pprf_punc_eval_def same pprf_eval_eq enforce_def bits [symmetric])
  qed
  with punc show ?thesis by blast
qed

text \<open>Three bits, punctured at 5, evaluated at 6.\<close>

theorem pprf_puncture_correct_witness:
  "\<exists>key. pprf_punc (\<lambda>s c. s * 3 + of_nat c + 1) 3 77 5 \<lparr>punc_point = 0, punc_seeds = Map.empty\<rparr> = Inr key \<and>
    pprf_punc_eval (\<lambda>s c. s * 3 + of_nat c + 1) 3 key 6 = Inr 2096"
proof -
  let ?g = "\<lambda>s c. s * 3 + of_nat c + 1 :: u128"
  have "\<not> ge_eq 3 6 5" by (simp add: ge_eq_def ge_val_eq take_bit_eq_mod)
  moreover have "pprf_eval ?g 3 77 6 = Inr 2096"
    by (simp add: pprf_eval_eq ggm_walk_def upt_conv_Cons bit_numeral_rec)
  ultimately show ?thesis
    using pprf_puncture_correct [of 3 "\<lparr>punc_point = 0, punc_seeds = Map.empty\<rparr>" ?g 77 5] by auto
qed

end
