(* ===== verification/Cuckoo_Index.thy ===== *)
theory Cuckoo_Index
  imports Prelude "HOL-Library.Multiset"
begin

text \<open>
  \<open>utils/cuckoo_index.h\<close> and \<open>cuckoo_index.cc\<close>: the assignment of inputs to bins by cuckoo hashing with a
  stash. A bin is one 64-bit word, the hash number in the upper 8 bits and the input number in
  the lower 56. The product of \<open>num_input\<close> with the floating-point \<open>scale_factor\<close> and its conversion is the
  function \<open>scale_factor\<close> of the options.
\<close>

subsection \<open>Bins and hashes\<close>

type_synonym cuckoo_bin = u64

definition kEmpty :: cuckoo_bin where
  "kEmpty = - 1"

definition bin_hash_idx :: "cuckoo_bin \<Rightarrow> u8" where
  "bin_hash_idx e = ucast (drop_bit 56 e)"

definition bin_input_idx :: "cuckoo_bin \<Rightarrow> u64" where
  "bin_input_idx e = e AND drop_bit 8 (- 1)"

definition bin_is_empty :: "cuckoo_bin \<Rightarrow> bool" where
  "bin_is_empty e \<longleftrightarrow> e = kEmpty"

definition bin_encode :: "u64 \<Rightarrow> u8 \<Rightarrow> cuckoo_bin" where
  "bin_encode input_idx hash_idx = input_idx OR push_bit 56 (ucast hash_idx)"

text \<open>Eight bytes of the hash code from byte \<open>2 * idx\<close> on, on a little-endian machine.\<close>

definition get_hash :: "u128 \<Rightarrow> nat \<Rightarrow> u64 result" where
  "get_hash code idx = rbind (assert_that (idx * 2 + 8 \<le> 16)) (\<lambda>_. Inr (ucast (drop_bit (8 * (idx * 2)) code)))"

text \<open>The remainder of unsigned integers.\<close>

definition umod :: "u64 \<Rightarrow> u64 \<Rightarrow> u64 result" where
  "umod a b = rbind (assert_that (b \<noteq> 0)) (\<lambda>_. Inr (a mod b))"

subsection \<open>The index\<close>

record cuckoo_options =
  num_input :: u64
  num_stash :: u64
  num_hash :: u64
  scale_factor :: "u64 \<Rightarrow> u64"
  max_try_count :: u64

record cuckoo_index =
  ci_options :: cuckoo_options
  bins :: "cuckoo_bin list"
  stash :: "cuckoo_bin list"
  hashes :: "u128 list"

definition num_bins :: "cuckoo_options \<Rightarrow> u64" where
  "num_bins opt =
     (let n = scale_factor opt (num_input opt) in
      if num_stash opt = 0 \<and> num_input opt < 256 then n + 8 else n)"

definition new_cuckoo_index :: "cuckoo_options \<Rightarrow> cuckoo_index result" where
  "new_cuckoo_index opt =
     rbind (enforce ((num_hash opt - 1) * 2 + 8 \<le> 16)) (\<lambda>_.
     Inr \<lparr>ci_options = opt, bins = replicate (unat (num_bins opt)) kEmpty,
          stash = replicate (unat (num_stash opt)) kEmpty, hashes = []\<rparr>)"

text \<open>One candidate of a pass: it takes its bin; what it evicts is written back to the front of the candidates.\<close>

definition insert_candidate ::
  "cuckoo_options \<Rightarrow> u128 list \<Rightarrow> nat \<Rightarrow> cuckoo_bin list \<times> cuckoo_bin list \<times> nat \<Rightarrow> (cuckoo_bin list \<times> cuckoo_bin list \<times> nat) result" where
  "insert_candidate opt hs i = (\<lambda>(bs, candidates, write_idx).
     rbind (at_idx candidates i) (\<lambda>candid.
     rbind (at_idx hs (unat (bin_input_idx candid))) (\<lambda>room.
     rbind (get_hash room (unat (bin_hash_idx candid))) (\<lambda>h.
     rbind (umod h (num_bins opt)) (\<lambda>bin_idx.
     rbind (at_idx bs (unat bin_idx)) (\<lambda>evicted_bin.
     let bs = bs[unat bin_idx := candid] in
     if \<not> bin_is_empty evicted_bin then
       rbind (umod (ucast (bin_hash_idx evicted_bin) + 1) (num_hash opt)) (\<lambda>next_hash.
       let next_candid = bin_encode (bin_input_idx evicted_bin) (ucast next_hash) in
       rbind (set_idx candidates write_idx next_candid) (\<lambda>candidates.
       Inr (bs, candidates, write_idx + 1)))
     else Inr (bs, candidates, write_idx)))))))"

definition insert_pass ::
  "cuckoo_options \<Rightarrow> u128 list \<Rightarrow> cuckoo_bin list \<Rightarrow> cuckoo_bin list \<Rightarrow> (cuckoo_bin list \<times> cuckoo_bin list) result" where
  "insert_pass opt hs bs candidates =
     rbind (rfold (insert_candidate opt hs) [0..<length candidates] (bs, candidates, 0)) (\<lambda>(bs, candidates, write_idx).
     Inr (bs, vec_resize write_idx kEmpty candidates))"

fun insert_loop ::
  "cuckoo_options \<Rightarrow> u128 list \<Rightarrow> nat \<Rightarrow> cuckoo_bin list \<Rightarrow> cuckoo_bin list \<Rightarrow> (cuckoo_bin list \<times> cuckoo_bin list) result" where
  "insert_loop opt hs 0 bs candidates = Inr (bs, candidates)"
| "insert_loop opt hs (Suc tries) bs candidates =
     (if candidates = [] then Inr (bs, candidates)
      else rbind (insert_pass opt hs bs candidates) (\<lambda>(bs, candidates). insert_loop opt hs tries bs candidates))"

text \<open>The first empty entry of the stash takes the input.\<close>

fun stash_place :: "u64 \<Rightarrow> cuckoo_bin list \<Rightarrow> cuckoo_bin list option" where
  "stash_place input_idx [] = None"
| "stash_place input_idx (b # bs) =
     (if bin_is_empty b then Some (input_idx # bs) else map_option ((#) b) (stash_place input_idx bs))"

definition put_to_stash :: "u64 \<Rightarrow> (cuckoo_index, unit) proc" where
  "put_to_stash input_idx c =
     (case stash_place input_idx (stash c) of
        None \<Rightarrow> (Inl RuntimeError, c)
      | Some st \<Rightarrow> (Inr (), c\<lparr>stash := st\<rparr>))"

definition cuckoo_insert :: "u128 list \<Rightarrow> (cuckoo_index, unit) proc" where
  "cuckoo_insert codes =
     pbind (pget (\<lambda>c. length (hashes c))) (\<lambda>input_offset.
     pthen (pmodify (\<lambda>c. c\<lparr>hashes := hashes c @ codes\<rparr>))
    (pthen (pcheck (\<lambda>c. length (hashes c) \<le> unat (num_input (ci_options c))) EnforceNotMet)
    (pbind (pget (\<lambda>c. c)) (\<lambda>c.
     let candidates = map (\<lambda>i. of_nat (input_offset + i)) [0..<length codes] in
     pbind (plift (insert_loop (ci_options c) (hashes c) (unat (max_try_count (ci_options c))) (bins c) candidates)) (\<lambda>(bs, candidates).
     pthen (pmodify (\<lambda>c. c\<lparr>bins := bs\<rparr>))
       (pmap_list (\<lambda>candid. put_to_stash (bin_input_idx candid)) candidates))))))"

text \<open>The debugging check. The \<open>std::set\<close> is a sorted list.\<close>

definition sanity_collect :: "cuckoo_bin \<Rightarrow> nat list \<Rightarrow> nat list result" where
  "sanity_collect b found =
     (if bin_is_empty b then Inr found
      else rbind (enforce (unat (bin_input_idx b) \<notin> set found)) (\<lambda>_. Inr (insort (unat (bin_input_idx b)) found)))"

definition sanity_check :: "cuckoo_index \<Rightarrow> unit result" where
  "sanity_check c =
     rbind (rfold sanity_collect (bins c) []) (\<lambda>found.
     rbind (rfold sanity_collect (stash c) found) (\<lambda>found.
     rbind (enforce (length found = unat (num_input (ci_options c)))) (\<lambda>_.
     rbind (rfold (\<lambda>i idx. rbind (enforce (idx = i)) (\<lambda>_. Inr (idx + 1))) found 0) (\<lambda>_. Inr ()))))"

definition min_colliding_hash_idx :: "cuckoo_index \<Rightarrow> nat \<Rightarrow> u8 result" where
  "min_colliding_hash_idx c bin_index =
     rbind (at_idx (bins c) bin_index) (\<lambda>bin.
     rbind (rfold (\<lambda>i r. case r of Some h \<Rightarrow> Inr (Some h) | None \<Rightarrow>
         rbind (at_idx (hashes c) (unat (bin_input_idx bin))) (\<lambda>room.
         rbind (get_hash room i) (\<lambda>h.
         rbind (umod h (num_bins (ci_options c))) (\<lambda>target.
         Inr (if unat target = bin_index then Some (of_nat i) else None)))))
       [0..<unat (num_hash (ci_options c))] None) (\<lambda>r.
     Inr (case r of Some h \<Rightarrow> h | None \<Rightarrow> - 1)))"

text \<open>The parameters for a stashless index with three hash functions; \<open>expansion\<close> is the floating-point
  expansion factor for a number of inputs and a security parameter.\<close>

definition select_params ::
  "(u64 \<Rightarrow> u64 \<Rightarrow> u64 \<Rightarrow> u64) \<Rightarrow> u64 \<Rightarrow> u64 \<Rightarrow> u64 \<Rightarrow> u64 \<Rightarrow> cuckoo_options result" where
  "select_params expansion n stash_size hash_num stat_sec_param =
     (let h = (if hash_num \<noteq> 0 then hash_num else 3) in
      if stash_size = 0 \<and> h = 3 then
        Inr \<lparr>num_input = n, num_stash = 0, num_hash = h, scale_factor = expansion n stat_sec_param, max_try_count = 128\<rparr>
      else Inl RuntimeError)"

end
