(* ===== verification/Cuckoo_Index_Properties.thy ===== *)
theory Cuckoo_Index_Properties
  imports Cuckoo_Index
begin

text \<open>
  The invariant of the cuckoo index: every non-empty bin holds an input at a place given by one of its
  hash functions, and every input has exactly one place in the bins and the stash.
\<close>

subsection \<open>The encoding of bins\<close>

lemma bin_input_idx_eq: "bin_input_idx e = take_bit 56 e"
proof -
  have "drop_bit 8 (- 1 :: u64) = mask 56"
    by (rule bit_word_eqI) (auto simp: bit_drop_bit_eq bit_minus_1_iff bit_mask_iff)
  then show ?thesis by (simp add: bin_input_idx_def take_bit_eq_mask)
qed

lemma bin_input_idx_less: "unat (bin_input_idx e) < 2 ^ 56"
  using take_bit_nat_less_exp [of 56 "unat e"] by (simp add: bin_input_idx_eq unsigned_take_bit_eq)

lemma bin_input_idx_of_nat: "i < 2 ^ 56 \<Longrightarrow> unat (bin_input_idx (of_nat i)) = i"
  by (simp add: bin_input_idx_eq unsigned_take_bit_eq unat_of_nat_small take_bit_nat_eq_self)

lemma bin_hash_idx_of_nat: "i < 2 ^ 56 \<Longrightarrow> bin_hash_idx (of_nat i) = 0"
proof -
  assume i: "i < 2 ^ 56"
  then have "unat (of_nat i :: u64) = i" by (simp add: unat_of_nat_small)
  then have "unat (drop_bit 56 (of_nat i :: u64)) = 0" using i by (simp add: unat_drop_bit_eq) (simp add: drop_bit_eq_div)
  then have "drop_bit 56 (of_nat i :: u64) = 0" by (simp add: unat_eq_0)
  then show ?thesis by (simp add: bin_hash_idx_def)
qed

lemma bin_decode [simp]:
  "bin_input_idx (bin_encode (bin_input_idx e) h) = bin_input_idx e"
  "bin_hash_idx (bin_encode (bin_input_idx e) h) = h"
proof -
  show "bin_input_idx (bin_encode (bin_input_idx e) h) = bin_input_idx e"
    by (rule bit_word_eqI) (auto simp: bin_input_idx_eq bin_encode_def bit_take_bit_iff bit_or_iff bit_push_bit_iff)
  show "bin_hash_idx (bin_encode (bin_input_idx e) h) = h"
    by (rule bit_word_eqI)
      (auto simp: bin_hash_idx_def bin_input_idx_eq bin_encode_def bit_unsigned_iff bit_take_bit_iff bit_or_iff bit_push_bit_iff bit_drop_bit_eq)
qed

lemma empty_hash_idx: "bin_hash_idx kEmpty = 255"
proof -
  have "bin_hash_idx kEmpty = - 1"
    by (rule bit_word_eqI) (simp add: bin_hash_idx_def kEmpty_def bit_unsigned_iff bit_drop_bit_eq bit_minus_1_iff bit_mask_iff)
  then show ?thesis by simp
qed

subsection \<open>The invariant\<close>

definition options_ok :: "cuckoo_options \<Rightarrow> bool" where
  "options_ok opt \<longleftrightarrow> 0 < num_hash opt \<and> num_hash opt \<le> 5 \<and> num_input opt < 2 ^ 56 \<and> num_bins opt \<noteq> 0"

text \<open>An entry of a known input with a hash function in use, and its bin.\<close>

definition entry_ok :: "cuckoo_options \<Rightarrow> nat \<Rightarrow> cuckoo_bin \<Rightarrow> bool" where
  "entry_ok opt n e \<longleftrightarrow> unat (bin_input_idx e) < n \<and> unat (bin_hash_idx e) < unat (num_hash opt)"

definition home :: "cuckoo_options \<Rightarrow> u128 list \<Rightarrow> nat \<Rightarrow> nat \<Rightarrow> nat" where
  "home opt hs i h = unat (ucast (drop_bit (16 * h) (hs ! i)) mod num_bins opt :: u64)"

abbreviation entry_home :: "cuckoo_options \<Rightarrow> u128 list \<Rightarrow> cuckoo_bin \<Rightarrow> nat" where
  "entry_home opt hs e \<equiv> home opt hs (unat (bin_input_idx e)) (unat (bin_hash_idx e))"

definition bins_ok :: "cuckoo_options \<Rightarrow> u128 list \<Rightarrow> cuckoo_bin list \<Rightarrow> bool" where
  "bins_ok opt hs bs \<longleftrightarrow> length bs = unat (num_bins opt) \<and>
     (\<forall>b < length bs. bs ! b = kEmpty \<or> entry_ok opt (length hs) (bs ! b) \<and> entry_home opt hs (bs ! b) = b)"

text \<open>The inputs held by a list of entries.\<close>

definition inputs_of :: "cuckoo_bin list \<Rightarrow> nat multiset" where
  "inputs_of bs = image_mset (\<lambda>e. unat (bin_input_idx e)) (filter_mset (\<lambda>e. e \<noteq> kEmpty) (mset bs))"

definition ci_inv :: "cuckoo_index \<Rightarrow> bool" where
  "ci_inv c \<longleftrightarrow> options_ok (ci_options c) \<and> length (hashes c) \<le> unat (num_input (ci_options c)) \<and>
     bins_ok (ci_options c) (hashes c) (bins c) \<and> length (stash c) = unat (num_stash (ci_options c)) \<and>
     inputs_of (bins c) + inputs_of (stash c) = mset [0..<length (hashes c)]"

lemma options_ok_hash:
  assumes "options_ok opt"
  shows "unat (num_hash opt) \<le> 5" "0 < unat (num_hash opt)"
proof -
  show "unat (num_hash opt) \<le> 5" using assms by (simp add: options_ok_def word_le_nat_alt)
  show "0 < unat (num_hash opt)" using assms by (simp add: options_ok_def word_less_nat_alt)
qed

lemma entry_ok_not_empty: "options_ok opt \<Longrightarrow> entry_ok opt n e \<Longrightarrow> e \<noteq> kEmpty"
  using options_ok_hash(1) [of opt] by (auto simp: entry_ok_def empty_hash_idx)

lemma inputs_of_simps [simp]:
  "inputs_of [] = {#}"
  "inputs_of (e # bs) = (if e = kEmpty then inputs_of bs else add_mset (unat (bin_input_idx e)) (inputs_of bs))"
  "inputs_of (xs @ ys) = inputs_of xs + inputs_of ys"
  "inputs_of (replicate n kEmpty) = {#}"
  by (simp_all add: inputs_of_def)

lemma inputs_of_update:
  assumes "b < length bs" "e \<noteq> kEmpty"
  shows "inputs_of (bs[b := e]) + (if bs ! b = kEmpty then {#} else {#unat (bin_input_idx (bs ! b))#}) =
    add_mset (unat (bin_input_idx e)) (inputs_of bs)"
proof -
  have "bs = take b bs @ bs ! b # drop (Suc b) bs" using assms(1) by (simp add: id_take_nth_drop)
  then have "inputs_of bs = inputs_of (take b bs) + inputs_of (bs ! b # drop (Suc b) bs)" by (metis inputs_of_simps(3))
  moreover have "inputs_of (bs[b := e]) = inputs_of (take b bs) + inputs_of (e # drop (Suc b) bs)"
    using assms(1) by (simp add: upd_conv_take_nth_drop)
  ultimately show ?thesis using assms(2) by simp
qed

subsection \<open>Insertion\<close>

text \<open>One candidate: what it evicts is a candidate again.\<close>

lemma insert_candidate_ok:
  assumes "options_ok opt" "bins_ok opt hs bs" "i < length cs" "entry_ok opt (length hs) (cs ! i)" "w \<le> i"
  shows "\<exists>bs' cs' w'. insert_candidate opt hs i (bs, cs, w) = Inr (bs', cs', w') \<and> bins_ok opt hs bs' \<and>
    (w' = w \<and> cs' = cs \<and> inputs_of bs' = add_mset (unat (bin_input_idx (cs ! i))) (inputs_of bs) \<or>
     (\<exists>e. w' = Suc w \<and> cs' = cs[w := e] \<and> entry_ok opt (length hs) e \<and>
       add_mset (unat (bin_input_idx e)) (inputs_of bs') = add_mset (unat (bin_input_idx (cs ! i))) (inputs_of bs)))"
proof -
  let ?c = "cs ! i"
  let ?b = "entry_home opt hs ?c"
  note h = options_ok_hash [OF assms(1)]
  have nb: "num_bins opt \<noteq> 0" and nh: "num_hash opt \<noteq> 0" using assms(1) h by (auto simp: options_ok_def)
  have idx: "unat (bin_input_idx ?c) < length hs" and hi: "unat (bin_hash_idx ?c) < unat (num_hash opt)"
    using assms(4) by (auto simp: entry_ok_def)
  have gh: "get_hash (hs ! unat (bin_input_idx ?c)) (unat (bin_hash_idx ?c)) =
      Inr (ucast (drop_bit (16 * unat (bin_hash_idx ?c)) (hs ! unat (bin_input_idx ?c))))"
    using hi h(1) by (simp add: get_hash_def mult.commute mult.left_commute)
  have b: "?b < length bs"
    using assms(2) nb by (simp add: bins_ok_def home_def unat_mod_distrib unat_gt_0)
  have ne: "?c \<noteq> kEmpty" by (rule entry_ok_not_empty [OF assms(1,4)])
  have ok: "bins_ok opt hs (bs[?b := ?c])"
    unfolding bins_ok_def
  proof (intro conjI allI impI)
    fix b' assume "b' < length (bs[?b := ?c])"
    then show "bs[?b := ?c] ! b' = kEmpty \<or> entry_ok opt (length hs) (bs[?b := ?c] ! b') \<and> entry_home opt hs (bs[?b := ?c] ! b') = b'"
      using assms(2,4) b by (cases "b' = ?b") (simp_all add: bins_ok_def)
  qed (use assms(2) in \<open>simp add: bins_ok_def\<close>)
  have step: "insert_candidate opt hs i (bs, cs, w) =
      (if bs ! ?b \<noteq> kEmpty then
        rbind (umod (ucast (bin_hash_idx (bs ! ?b)) + 1) (num_hash opt)) (\<lambda>next_hash.
        rbind (set_idx cs w (bin_encode (bin_input_idx (bs ! ?b)) (ucast next_hash))) (\<lambda>cs. Inr (bs[?b := ?c], cs, w + 1)))
       else Inr (bs[?b := ?c], cs, w))"
    using assms(3) idx gh b nb
    by (simp add: insert_candidate_def at_idx_in umod_def bin_is_empty_def home_def Let_def cong: if_cong)
  show ?thesis
  proof (cases "bs ! ?b = kEmpty")
    case True
    then show ?thesis using step ok inputs_of_update [OF b ne] by simp
  next
    case False
    define e where "e = bin_encode (bin_input_idx (bs ! ?b)) (ucast ((ucast (bin_hash_idx (bs ! ?b)) + 1) mod num_hash opt :: u64))"
    have old: "entry_ok opt (length hs) (bs ! ?b)" using assms(2) b False by (auto simp: bins_ok_def)
    let ?nh = "(ucast (bin_hash_idx (bs ! ?b)) + 1) mod num_hash opt :: u64"
    have "unat ?nh < unat (num_hash opt)" using h(2) by (simp add: unat_mod_distrib)
    moreover from this have "unat (ucast ?nh :: u8) = unat ?nh"
      using h(1) by (simp add: unsigned_ucast_eq unsigned_take_bit_eq take_bit_nat_eq_self)
    ultimately have "entry_ok opt (length hs) e" using old by (simp add: entry_ok_def e_def)
    moreover have "insert_candidate opt hs i (bs, cs, w) = Inr (bs[?b := ?c], cs[w := e], Suc w)"
      using step False nh assms(3,5) by (simp add: umod_def set_idx_in e_def)
    moreover have "add_mset (unat (bin_input_idx e)) (inputs_of (bs[?b := ?c])) = add_mset (unat (bin_input_idx ?c)) (inputs_of bs)"
      using inputs_of_update [OF b ne] False by (simp add: e_def)
    ultimately show ?thesis using ok by blast
  qed
qed

lemma entries_inputs:
  "options_ok opt \<Longrightarrow> (\<And>e. e \<in> set cs \<Longrightarrow> entry_ok opt n e) \<Longrightarrow> inputs_of cs = mset (map (\<lambda>e. unat (bin_input_idx e)) cs)"
  by (induction cs) (auto dest: entry_ok_not_empty)

text \<open>A pass over the candidates \<open>cs\<close> after \<open>k\<close> of them: it has written at most where it has read already.\<close>

definition pass_inv ::
  "cuckoo_options \<Rightarrow> u128 list \<Rightarrow> cuckoo_bin list \<Rightarrow> nat multiset \<Rightarrow> nat \<Rightarrow> cuckoo_bin list \<times> cuckoo_bin list \<times> nat \<Rightarrow> bool" where
  "pass_inv opt hs cs tot k = (\<lambda>(bs', cs', w). bins_ok opt hs bs' \<and> length cs' = length cs \<and> w \<le> k \<and> drop k cs' = drop k cs \<and>
    (\<forall>e \<in> set (take w cs'). entry_ok opt (length hs) e) \<and>
    inputs_of bs' + inputs_of (take w cs') + inputs_of (drop k cs) = tot)"

lemma pass_inv_step:
  assumes opt: "options_ok opt" and cs: "\<And>e. e \<in> set cs \<Longrightarrow> entry_ok opt (length hs) e"
    and k: "k < length cs" and inv: "pass_inv opt hs cs tot k (bs1, cs1, w)"
  shows "\<exists>st. insert_candidate opt hs k (bs1, cs1, w) = Inr st \<and> pass_inv opt hs cs tot (Suc k) st"
proof -
  have I: "bins_ok opt hs bs1" "length cs1 = length cs" "w \<le> k" "drop k cs1 = drop k cs"
    "\<forall>e \<in> set (take w cs1). entry_ok opt (length hs) e"
    "inputs_of bs1 + inputs_of (take w cs1) + inputs_of (drop k cs) = tot"
    using inv by (simp_all add: pass_inv_def)
  have dk: "drop k cs = cs ! k # drop (Suc k) cs" using k by (simp add: Cons_nth_drop_Suc)
  have ck: "cs1 ! k = cs ! k" "drop (Suc k) cs1 = drop (Suc k) cs"
    using I(4) k I(2) dk Cons_nth_drop_Suc [of k cs1] by simp_all
  have ek: "entry_ok opt (length hs) (cs ! k)" using cs k by simp
  note ne = entry_ok_not_empty [OF opt ek]
  obtain bs2 cs2 w2 where step: "insert_candidate opt hs k (bs1, cs1, w) = Inr (bs2, cs2, w2)" "bins_ok opt hs bs2"
    and out: "w2 = w \<and> cs2 = cs1 \<and> inputs_of bs2 = add_mset (unat (bin_input_idx (cs ! k))) (inputs_of bs1) \<or>
     (\<exists>e. w2 = Suc w \<and> cs2 = cs1[w := e] \<and> entry_ok opt (length hs) e \<and>
       add_mset (unat (bin_input_idx e)) (inputs_of bs2) = add_mset (unat (bin_input_idx (cs ! k))) (inputs_of bs1))"
    using insert_candidate_ok [OF opt I(1), of k cs1 w] ek I(2,3) ck(1) k by auto
  from out have "pass_inv opt hs cs tot (Suc k) (bs2, cs2, w2)"
  proof
    assume "w2 = w \<and> cs2 = cs1 \<and> inputs_of bs2 = add_mset (unat (bin_input_idx (cs ! k))) (inputs_of bs1)"
    then show ?thesis using I step(2) ck dk ne by (simp add: pass_inv_def ac_simps)
  next
    assume "\<exists>e. w2 = Suc w \<and> cs2 = cs1[w := e] \<and> entry_ok opt (length hs) e \<and>
       add_mset (unat (bin_input_idx e)) (inputs_of bs2) = add_mset (unat (bin_input_idx (cs ! k))) (inputs_of bs1)"
    then obtain e where e: "w2 = Suc w" "cs2 = cs1[w := e]" "entry_ok opt (length hs) e"
      "add_mset (unat (bin_input_idx e)) (inputs_of bs2) = add_mset (unat (bin_input_idx (cs ! k))) (inputs_of bs1)" by blast
    have tw: "take (Suc w) (cs1[w := e]) = take w cs1 @ [e]" using I(2,3) k by (simp add: take_Suc_conv_app_nth)
    have "inputs_of bs2 + inputs_of (take w2 cs2) + inputs_of (drop (Suc k) cs) =
        add_mset (unat (bin_input_idx e)) (inputs_of bs2) + inputs_of (take w cs1) + inputs_of (drop (Suc k) cs)"
      using entry_ok_not_empty [OF opt e(3)] unfolding e(1,2) tw by simp
    also have "\<dots> = tot" unfolding e(4) I(6) [symmetric] dk using ne by simp
    finally have "inputs_of bs2 + inputs_of (take w2 cs2) + inputs_of (drop (Suc k) cs) = tot" .
    moreover have "drop (Suc k) cs2 = drop (Suc k) cs" using e(2) I(3) ck(2) by simp
    moreover have "\<forall>e' \<in> set (take w2 cs2). entry_ok opt (length hs) e'" using I(5) e(3) unfolding e(1,2) tw by auto
    ultimately show ?thesis using I(2,3) e(1,2) step(2) by (simp add: pass_inv_def)
  qed
  with step(1) show ?thesis by blast
qed

lemma insert_pass_ok:
  assumes "options_ok opt" "bins_ok opt hs bs" "\<And>e. e \<in> set cs \<Longrightarrow> entry_ok opt (length hs) e"
  shows "\<exists>bs' cs'. insert_pass opt hs bs cs = Inr (bs', cs') \<and> bins_ok opt hs bs' \<and> length cs' \<le> length cs \<and>
    (\<forall>e \<in> set cs'. entry_ok opt (length hs) e) \<and> inputs_of bs' + inputs_of cs' = inputs_of bs + inputs_of cs"
proof -
  let ?I = "pass_inv opt hs cs (inputs_of bs + inputs_of cs)"
  have "?I 0 (bs, cs, 0)" using assms(2) by (simp add: pass_inv_def)
  moreover have "\<exists>st'. insert_candidate opt hs ([0..<length cs] ! k) st = Inr st' \<and> ?I (Suc k) st'"
    if "k < length [0..<length cs]" "?I k st" for k st
    using pass_inv_step [OF assms(1,3), of cs k "inputs_of bs + inputs_of cs" "fst st" "fst (snd st)" "snd (snd st)"] that by simp
  ultimately obtain st where "rfold (insert_candidate opt hs) [0..<length cs] (bs, cs, 0) = Inr st" "?I (length [0..<length cs]) st"
    by (rule rfold_rule [where I = ?I])
  then obtain bs' cs' w where "rfold (insert_candidate opt hs) [0..<length cs] (bs, cs, 0) = Inr (bs', cs', w)"
    "bins_ok opt hs bs'" "length cs' = length cs" "w \<le> length cs" "\<forall>e \<in> set (take w cs'). entry_ok opt (length hs) e"
    "inputs_of bs' + inputs_of (take w cs') = inputs_of bs + inputs_of cs" by (cases st) (auto simp: pass_inv_def)
  then show ?thesis by (intro exI [of _ bs'] exI [of _ "take w cs'"]) (simp add: insert_pass_def vec_resize_def)
qed

lemma insert_loop_ok:
  assumes "options_ok opt" "bins_ok opt hs bs" "\<And>e. e \<in> set cs \<Longrightarrow> entry_ok opt (length hs) e"
  shows "\<exists>bs' cs'. insert_loop opt hs tries bs cs = Inr (bs', cs') \<and> bins_ok opt hs bs' \<and>
    (\<forall>e \<in> set cs'. entry_ok opt (length hs) e) \<and> inputs_of bs' + inputs_of cs' = inputs_of bs + inputs_of cs"
  using assms(2,3)
proof (induction tries arbitrary: bs cs)
  case (Suc tries)
  obtain bs1 cs1 where 1: "insert_pass opt hs bs cs = Inr (bs1, cs1)" "bins_ok opt hs bs1"
    "\<forall>e \<in> set cs1. entry_ok opt (length hs) e" "inputs_of bs1 + inputs_of cs1 = inputs_of bs + inputs_of cs"
    using insert_pass_ok [OF assms(1) Suc.prems] by blast
  then show ?case using Suc.IH [of bs1 cs1] Suc.prems by auto
qed auto

subsection \<open>The stash\<close>

lemma bin_input_idx_idem [simp]: "bin_input_idx (bin_input_idx e) = bin_input_idx e"
  by (simp add: bin_input_idx_eq)

lemma bin_input_idx_not_empty: "bin_input_idx e \<noteq> kEmpty"
proof
  assume "bin_input_idx e = kEmpty"
  then have "bit (take_bit 56 e) 60 = bit (- 1 :: u64) 60" by (simp add: bin_input_idx_eq kEmpty_def)
  then show False by (simp add: bit_take_bit_iff bit_minus_1_iff)
qed

lemma stash_place_inputs:
  "stash_place (bin_input_idx e) st = Some st' \<Longrightarrow> inputs_of st' = add_mset (unat (bin_input_idx e)) (inputs_of st)"
  by (induction st arbitrary: st') (auto simp: bin_is_empty_def bin_input_idx_not_empty split: if_splits)

lemma stash_place_length: "stash_place i st = Some st' \<Longrightarrow> length st' = length st"
  by (induction st arbitrary: st') (auto split: if_splits)

lemma stash_place_None: "stash_place i st = None \<Longrightarrow> kEmpty \<notin> set st"
  by (induction st) (auto simp: bin_is_empty_def split: if_splits)

lemma put_all_to_stash:
  assumes "\<And>e. e \<in> set cs \<Longrightarrow> e \<noteq> kEmpty"
  shows "\<exists>r st. pmap_list (\<lambda>candid. put_to_stash (bin_input_idx candid)) cs c = (r, c\<lparr>stash := st\<rparr>) \<and> length st = length (stash c) \<and>
    (r = Inr () \<and> inputs_of st = inputs_of (stash c) + inputs_of cs \<or>
     r = Inl RuntimeError \<and> kEmpty \<notin> set st \<and> inputs_of st \<subset># inputs_of (stash c) + inputs_of cs)"
  using assms
proof (induction cs arbitrary: c)
  case Nil
  have "c = c\<lparr>stash := stash c\<rparr>" by simp
  then show ?case by (intro exI [of _ "Inr ()"] exI [of _ "stash c"]) (simp add: preturn_def)
next
  case (Cons e cs)
  show ?case
  proof (cases "stash_place (bin_input_idx e) (stash c)")
    case None
    have "c = c\<lparr>stash := stash c\<rparr>" by simp
    moreover have "inputs_of (stash c) \<subset># inputs_of (stash c) + inputs_of (e # cs)"
      using Cons.prems by (simp add: subset_mset.less_le)
    ultimately show ?thesis using None stash_place_None [OF None]
      by (intro exI [of _ "Inl RuntimeError"] exI [of _ "stash c"]) (simp add: proc_simps put_to_stash_def)
  next
    case (Some st1)
    obtain r st where "pmap_list (\<lambda>candid. put_to_stash (bin_input_idx candid)) cs (c\<lparr>stash := st1\<rparr>) = (r, c\<lparr>stash := st\<rparr>)"
      "length st = length st1" "r = Inr () \<and> inputs_of st = inputs_of st1 + inputs_of cs \<or>
        r = Inl RuntimeError \<and> kEmpty \<notin> set st \<and> inputs_of st \<subset># inputs_of st1 + inputs_of cs"
      using Cons.IH [of "c\<lparr>stash := st1\<rparr>"] Cons.prems by auto
    moreover have "pmap_list (\<lambda>candid. put_to_stash (bin_input_idx candid)) (e # cs) c =
        pmap_list (\<lambda>candid. put_to_stash (bin_input_idx candid)) cs (c\<lparr>stash := st1\<rparr>)"
      using Some by (simp add: put_to_stash_def)
    ultimately show ?thesis using stash_place_inputs [OF Some] stash_place_length [OF Some] Cons.prems by auto
  qed
qed

lemma bins_ok_append: "bins_ok opt hs bs \<Longrightarrow> bins_ok opt (hs @ codes) bs"
  by (auto simp: bins_ok_def entry_ok_def home_def nth_append)

text \<open>What an exception means, after \<open>n\<close> inputs in all and in the state \<open>c\<close> it leaves: there are more inputs than announced,
  or an input has no place although every entry of the stash is taken.\<close>

definition insert_fails :: "cuckoo_options \<Rightarrow> nat \<Rightarrow> error \<Rightarrow> cuckoo_index \<Rightarrow> bool" where
  "insert_fails opt n e c \<longleftrightarrow>
     (if unat (num_input opt) < n then e = EnforceNotMet
      else e = RuntimeError \<and> length (stash c) = unat (num_stash opt) \<and> kEmpty \<notin> set (stash c) \<and>
        inputs_of (bins c) + inputs_of (stash c) \<subset># mset [0..<n])"

lemma cuckoo_insert_ok:
  assumes "ci_inv c"
  shows "\<exists>r c'. cuckoo_insert codes c = (r, c') \<and>
    (r = Inr () \<and> ci_inv c' \<and> hashes c' = hashes c @ codes \<and> ci_options c' = ci_options c \<or>
     (\<exists>e. r = Inl e \<and> insert_fails (ci_options c) (length (hashes c @ codes)) e c'))"
proof (cases "length (hashes c @ codes) \<le> unat (num_input (ci_options c))")
  case False
  then show ?thesis by (simp add: cuckoo_insert_def proc_simps insert_fails_def)
next
  case True
  let ?opt = "ci_options c" and ?hs = "hashes c @ codes"
  define cs where "cs = map (\<lambda>i. of_nat (length (hashes c) + i) :: cuckoo_bin) [0..<length codes]"
  have opt: "options_ok ?opt" using assms by (simp add: ci_inv_def)
  have "unat (num_input ?opt) < 2 ^ 56" using opt by (simp add: options_ok_def word_less_nat_alt)
  then have small: "length (hashes c) + i < 2 ^ 56" if "i < length codes" for i using True that by simp
  have cs: "entry_ok ?opt (length ?hs) e" if "e \<in> set cs" for e
    using that small options_ok_hash(2) [OF opt] by (auto simp: cs_def entry_ok_def bin_input_idx_of_nat bin_hash_idx_of_nat simp del: of_nat_add)
  have "inputs_of cs = mset (map (\<lambda>e. unat (bin_input_idx e)) cs)" using cs by (intro entries_inputs [OF opt])
  also have "\<dots> = mset (map (\<lambda>i. length (hashes c) + i) [0..<length codes])"
    unfolding cs_def map_map using small by (intro arg_cong [where f = mset] map_cong) (auto simp: bin_input_idx_of_nat simp del: of_nat_add)
  finally have "inputs_of cs = mset [length (hashes c)..<length ?hs]" by (simp add: map_add_upt add.commute)
  then have new: "mset [0..<length (hashes c)] + inputs_of cs = mset [0..<length ?hs]"
    using upt_add_eq_append [of 0 "length (hashes c)" "length codes"] by (simp del: mset_upt)
  obtain bs' cs' where loop: "insert_loop ?opt ?hs (unat (max_try_count ?opt)) (bins c) cs = Inr (bs', cs')" "bins_ok ?opt ?hs bs'"
    "\<forall>e \<in> set cs'. entry_ok ?opt (length ?hs) e" "inputs_of bs' + inputs_of cs' = inputs_of (bins c) + inputs_of cs"
    using insert_loop_ok [OF opt bins_ok_append cs] assms unfolding ci_inv_def by blast
  let ?c1 = "c\<lparr>hashes := ?hs, bins := bs'\<rparr>"
  have ne: "\<And>e. e \<in> set cs' \<Longrightarrow> e \<noteq> kEmpty" using loop(3) entry_ok_not_empty [OF opt] by blast
  obtain r st where put: "pmap_list (\<lambda>candid. put_to_stash (bin_input_idx candid)) cs' ?c1 = (r, ?c1\<lparr>stash := st\<rparr>)"
    "length st = length (stash c)" "r = Inr () \<and> inputs_of st = inputs_of (stash c) + inputs_of cs' \<or>
      r = Inl RuntimeError \<and> kEmpty \<notin> set st \<and> inputs_of st \<subset># inputs_of (stash c) + inputs_of cs'"
    using put_all_to_stash [where cs = cs' and c = ?c1, OF ne] by auto
  have "cuckoo_insert codes c = (r, ?c1\<lparr>stash := st\<rparr>)"
    using True loop(1) put(1) by (simp add: cuckoo_insert_def proc_simps Let_def cs_def)
  moreover have all: "inputs_of bs' + (inputs_of (stash c) + inputs_of cs') = mset [0..<length ?hs]"
  proof -
    have "inputs_of bs' + (inputs_of (stash c) + inputs_of cs') = inputs_of (bins c) + inputs_of (stash c) + inputs_of cs"
      using loop(4) by (metis add.assoc add.commute)
    also have "\<dots> = mset [0..<length ?hs]" using assms new by (simp add: ci_inv_def del: mset_upt)
    finally show ?thesis .
  qed
  moreover have "length st = unat (num_stash ?opt)" using put(2) assms by (simp add: ci_inv_def)
  moreover have "inputs_of bs' + inputs_of st \<subset># mset [0..<length ?hs]" if "inputs_of st \<subset># inputs_of (stash c) + inputs_of cs'"
    unfolding all [symmetric] using that by (rule subset_mset.add_strict_left_mono)
  ultimately show ?thesis
    using put(3) opt loop(2) True by (auto simp: ci_inv_def insert_fails_def simp del: mset_upt length_append)
qed

subsection \<open>The checks\<close>

lemma sanity_collect_ok:
  assumes "sorted found" "mset found + inputs_of bs \<subseteq># mset [0..<n]"
  shows "\<exists>found'. rfold sanity_collect bs found = Inr found' \<and> sorted found' \<and> mset found' = mset found + inputs_of bs"
  using assms
proof (induction bs arbitrary: found)
  case (Cons b bs)
  show ?case
  proof (cases "b = kEmpty")
    case True
    with Cons show ?thesis by (simp add: sanity_collect_def bin_is_empty_def)
  next
    case False
    let ?i = "unat (bin_input_idx b)"
    have "count (mset found + inputs_of (b # bs)) ?i \<le> count (mset [0..<n]) ?i"
      using Cons.prems(2) by (rule mset_subset_eq_count)
    also have "\<dots> \<le> 1" using distinct_count_atmost_1 [of "[0..<n]"] by (simp del: mset_upt)
    finally have "?i \<notin> set found" using False by (auto simp: count_mset_0_iff [symmetric] simp del: count_mset_0_iff)
    then have "sanity_collect b found = Inr (insort ?i found)" using False by (simp add: sanity_collect_def bin_is_empty_def)
    moreover have "mset (insort ?i found) + inputs_of bs \<subseteq># mset [0..<n]" using Cons.prems(2) False by simp
    then obtain found' where "rfold sanity_collect bs (insort ?i found) = Inr found'" "sorted found'"
      "mset found' = mset (insort ?i found) + inputs_of bs"
      using Cons.IH [of "insort ?i found"] Cons.prems(1) by (auto simp: sorted_insort)
    ultimately show ?thesis using False by simp
  qed
qed simp

lemma sanity_check_ok:
  assumes "ci_inv c" "length (hashes c) = unat (num_input (ci_options c))"
  shows "sanity_check c = Inr ()"
proof -
  let ?n = "length (hashes c)"
  have tot: "inputs_of (bins c) + inputs_of (stash c) = mset [0..<?n]" using assms(1) by (simp add: ci_inv_def del: mset_upt)
  then have "mset [] + inputs_of (bins c) \<subseteq># mset [0..<?n]" by (metis empty_neutral(1) mset.simps(1) mset_subset_eq_add_left)
  then obtain f1 where f1: "rfold sanity_collect (bins c) [] = Inr f1" "sorted f1" "mset f1 = inputs_of (bins c)"
    using sanity_collect_ok [of "[]" "bins c" ?n] by auto
  have "mset f1 + inputs_of (stash c) \<subseteq># mset [0..<?n]" unfolding f1(3) tot by simp
  then obtain f2 where f2: "rfold sanity_collect (stash c) f1 = Inr f2" "sorted f2" "mset f2 = inputs_of (bins c) + inputs_of (stash c)"
    using sanity_collect_ok [OF f1(2), of "stash c" ?n] f1(3) by auto
  have "f2 = [0..<?n]" using f2(2,3) tot by (metis properties_for_sort sorted_upt)
  moreover have "rfold (\<lambda>i idx. rbind (enforce (idx = i)) (\<lambda>_. Inr (idx + 1))) [k..<k + m] k = Inr (k + m)" for k m :: nat
    by (induction m arbitrary: k) (simp_all add: rfold_append)
  from this [of 0 ?n] have "rfold (\<lambda>i idx. rbind (enforce (idx = i)) (\<lambda>_. Inr (idx + 1))) [0..<?n] 0 = Inr ?n" by simp
  ultimately show ?thesis using f1(1) f2(1) assms(2) by (simp add: sanity_check_def)
qed

lemma min_colliding_ok:
  assumes "ci_inv c" "b < length (bins c)" "bins c ! b \<noteq> kEmpty"
  defines "i \<equiv> unat (bin_input_idx (bins c ! b))"
  shows "\<exists>h. min_colliding_hash_idx c b = Inr h \<and> home (ci_options c) (hashes c) i (unat h) = b \<and>
    (\<forall>h' < unat h. home (ci_options c) (hashes c) i h' \<noteq> b)"
proof -
  let ?opt = "ci_options c" and ?H = "\<lambda>h. home (ci_options c) (hashes c) i h = b"
  define f where "f = (\<lambda>j r. case r of Some h \<Rightarrow> Inr (Some h) | None \<Rightarrow>
         rbind (at_idx (hashes c) i) (\<lambda>room. rbind (get_hash room j) (\<lambda>h. rbind (umod h (num_bins ?opt)) (\<lambda>target.
         Inr (if unat target = b then Some (of_nat j :: u8) else None)))))"
  let ?I = "\<lambda>k r. (r = None \<and> (\<forall>h < k. \<not> ?H h)) \<or> (\<exists>h < k. r = Some (of_nat h) \<and> ?H h \<and> (\<forall>h' < h. \<not> ?H h'))"
  have opt: "options_ok ?opt" using assms(1) by (simp add: ci_inv_def)
  note nh = options_ok_hash [OF opt]
  have e: "entry_ok ?opt (length (hashes c)) (bins c ! b)" "?H (unat (bin_hash_idx (bins c ! b)))"
    using assms by (auto simp: ci_inv_def bins_ok_def)
  have i: "i < length (hashes c)" using e(1) by (simp add: entry_ok_def i_def)
  have step: "f j (Some h) = Inr (Some h)" "j < 5 \<Longrightarrow> f j None = Inr (if ?H j then Some (of_nat j) else None)" for j h
    using i opt by (simp_all add: f_def at_idx_in get_hash_def umod_def home_def options_ok_def mult.commute mult.left_commute)
  have "?I 0 None" by simp
  moreover have "\<exists>r'. f ([0..<unat (num_hash ?opt)] ! k) r = Inr r' \<and> ?I (Suc k) r'"
    if k: "k < length [0..<unat (num_hash ?opt)]" "?I k r" for k r
  proof (cases r)
    case None
    with k have none: "\<forall>h < k. \<not> ?H h" and k5: "k < 5" using nh(1) by auto
    then show ?thesis using step(2) [OF k5] k(1) None by (cases "?H k") (auto simp: less_Suc_eq)
  next
    case (Some h)
    then show ?thesis using k step(1) by (auto simp: less_Suc_eq)
  qed
  ultimately obtain r where r: "rfold f [0..<unat (num_hash ?opt)] None = Inr r" "?I (length [0..<unat (num_hash ?opt)]) r"
    by (rule rfold_rule [where I = ?I])
  have "unat (bin_hash_idx (bins c ! b)) < unat (num_hash ?opt)" using e(1) by (simp add: entry_ok_def)
  with r(2) e(2) obtain h where h: "h < unat (num_hash ?opt)" "r = Some (of_nat h)" "?H h" "\<forall>h' < h. \<not> ?H h'" by auto
  have "unat (of_nat h :: u8) = h" using h(1) nh(1) by (intro unat_of_nat_small) simp
  then show ?thesis using r(1) h assms(2) unfolding min_colliding_hash_idx_def f_def i_def by (auto simp: at_idx_in)
qed

subsection \<open>The property\<close>

text \<open>Batches of codes inserted one after the other, stopping at an exception.\<close>

definition insert_batches :: "u128 list list \<Rightarrow> cuckoo_index \<Rightarrow> cuckoo_index result" where
  "insert_batches = rfold (\<lambda>codes c. case cuckoo_insert codes c of (Inr _, c') \<Rightarrow> Inr c' | (Inl e, _) \<Rightarrow> Inl e)"

lemma insert_batches_ok:
  assumes "ci_inv c"
  shows "(\<exists>c'. insert_batches batches c = Inr c' \<and> ci_inv c' \<and> hashes c' = hashes c @ concat batches \<and> ci_options c' = ci_options c) \<or>
    (\<exists>before codes after c1 e c2. batches = before @ codes # after \<and> insert_batches before c = Inr c1 \<and>
      cuckoo_insert codes c1 = (Inl e, c2) \<and> insert_batches batches c = Inl e \<and>
      insert_fails (ci_options c) (length (hashes c @ concat (before @ [codes]))) e c2)"
  using assms
proof (induction batches arbitrary: c)
  case (Cons codes batches)
  obtain r c1 where ins: "cuckoo_insert codes c = (r, c1)"
    and out: "r = Inr () \<and> ci_inv c1 \<and> hashes c1 = hashes c @ codes \<and> ci_options c1 = ci_options c \<or>
      (\<exists>e. r = Inl e \<and> insert_fails (ci_options c) (length (hashes c @ codes)) e c1)"
    using cuckoo_insert_ok [OF Cons.prems] by blast
  from out show ?case
  proof
    assume ok: "r = Inr () \<and> ci_inv c1 \<and> hashes c1 = hashes c @ codes \<and> ci_options c1 = ci_options c"
    then have first: "insert_batches (codes # bs) c = insert_batches bs c1" for bs using ins by (simp add: insert_batches_def)
    show ?thesis
    proof (cases "\<exists>c'. insert_batches batches c1 = Inr c'")
      case True
      then show ?thesis using Cons.IH [of c1] ok first by auto
    next
      case False
      then obtain before codes' after c2 e c3 where "batches = before @ codes' # after" "insert_batches before c1 = Inr c2"
        "cuckoo_insert codes' c2 = (Inl e, c3)" "insert_batches batches c1 = Inl e"
        "insert_fails (ci_options c1) (length (hashes c1 @ concat (before @ [codes']))) e c3"
        using Cons.IH [of c1] ok by blast
      then show ?thesis
        using first [of batches] first [of before] ok
        by (intro disjI2 exI [of _ "codes # before"] exI [of _ codes'] exI [of _ after] exI [of _ c2] exI [of _ e] exI [of _ c3]) simp
    qed
  next
    assume "\<exists>e. r = Inl e \<and> insert_fails (ci_options c) (length (hashes c @ codes)) e c1"
    then obtain e where "r = Inl e" "insert_fails (ci_options c) (length (hashes c @ codes)) e c1" by blast
    then show ?thesis
      using ins by (intro disjI2 exI [of _ "[]"] exI [of _ codes] exI [of _ batches] exI [of _ c] exI [of _ e] exI [of _ c1])
        (simp add: insert_batches_def)
  qed
qed (simp add: insert_batches_def)

lemma new_cuckoo_index_ok:
  assumes "options_ok opt"
  shows "\<exists>c. new_cuckoo_index opt = Inr c \<and> ci_inv c \<and> hashes c = [] \<and> ci_options c = opt"
proof -
  define k where "k = num_hash opt - 1"
  have "unat k \<le> 4" unfolding k_def using options_ok_hash [OF assms] by (subst unat_minus_one) (auto simp: unat_gt_0)
  then have "unat (k * 2 + 8) \<le> 16" by (simp add: unat_word_ariths)
  then have "(num_hash opt - 1) * 2 + 8 \<le> 16" by (simp add: word_le_nat_alt k_def)
  then show ?thesis using assms by (simp add: new_cuckoo_index_def ci_inv_def bins_ok_def)
qed

text \<open>C18: Whatever batches of codes are inserted into a new index, either the insertion of one of them throws, or every input has exactly one place in the bins and the
  stash, an input in a bin is there by the recorded one of its hash functions, and \<open>MinCollidingHashIdx\<close> finds
  the first hash function that leads to a bin; when all announced inputs have been inserted \<open>SanityCheck\<close>
  passes. It throws \<open>EnforceNotMet\<close> exactly when a batch exceeds the announced number of inputs, and otherwise only when an
  input is left without a place while every entry of the stash is taken.\<close>

theorem cuckoo_index_assigns:
  assumes "options_ok opt"
  shows "\<exists>c0. new_cuckoo_index opt = Inr c0 \<and>
    (case insert_batches batches c0 of
       Inl e \<Rightarrow> \<exists>before codes after c1 c2. batches = before @ codes # after \<and> insert_batches before c0 = Inr c1 \<and>
         cuckoo_insert codes c1 = (Inl e, c2) \<and> insert_fails opt (length (concat (before @ [codes]))) e c2
     | Inr c \<Rightarrow> hashes c = concat batches \<and> length (concat batches) \<le> unat (num_input opt) \<and>
         inputs_of (bins c) + inputs_of (stash c) = mset [0..<length (concat batches)] \<and>
         (\<forall>b < length (bins c). bins c ! b = kEmpty \<or>
           (let i = unat (bin_input_idx (bins c ! b)); h = unat (bin_hash_idx (bins c ! b)) in
            i < length (concat batches) \<and> h < unat (num_hash opt) \<and> home opt (concat batches) i h = b \<and>
            (\<exists>h'. min_colliding_hash_idx c b = Inr h' \<and> home opt (concat batches) i (unat h') = b \<and>
              (\<forall>k < unat h'. home opt (concat batches) i k \<noteq> b)))) \<and>
         (length (concat batches) = unat (num_input opt) \<longrightarrow> sanity_check c = Inr ()))"
proof -
  obtain c0 where c0: "new_cuckoo_index opt = Inr c0" "ci_inv c0" "hashes c0 = []" "ci_options c0 = opt"
    using new_cuckoo_index_ok [OF assms] by blast
  have all: "length (hashes c) \<le> unat (num_input opt) \<and> inputs_of (bins c) + inputs_of (stash c) = mset [0..<length (hashes c)] \<and>
     (\<forall>b < length (bins c). bins c ! b = kEmpty \<or>
       (let i = unat (bin_input_idx (bins c ! b)); h = unat (bin_hash_idx (bins c ! b)) in
        i < length (hashes c) \<and> h < unat (num_hash opt) \<and> home opt (hashes c) i h = b \<and>
        (\<exists>h'. min_colliding_hash_idx c b = Inr h' \<and> home opt (hashes c) i (unat h') = b \<and>
          (\<forall>k < unat h'. home opt (hashes c) i k \<noteq> b)))) \<and>
     (length (hashes c) = unat (num_input opt) \<longrightarrow> sanity_check c = Inr ())"
    if "ci_inv c" "ci_options c = opt" for c
    using that min_colliding_ok [OF that(1)] sanity_check_ok [OF that(1)]
    by (auto simp: ci_inv_def bins_ok_def entry_ok_def Let_def simp del: mset_upt)
  from insert_batches_ok [OF c0(2), of batches] show ?thesis
  proof (elim disjE exE conjE)
    fix c assume "insert_batches batches c0 = Inr c" "ci_inv c" "hashes c = hashes c0 @ concat batches" "ci_options c = ci_options c0"
    then show ?thesis using all [of c] c0 by (simp del: mset_upt)
  next
    fix before codes after c1 e c2
    assume "batches = before @ codes # after" "insert_batches before c0 = Inr c1" "cuckoo_insert codes c1 = (Inl e, c2)"
      "insert_batches batches c0 = Inl e" "insert_fails (ci_options c0) (length (hashes c0 @ concat (before @ [codes]))) e c2"
    then show ?thesis using c0 by (intro exI [of _ c0]) auto
  qed
qed

text \<open>Three hash functions, three inputs, eight bins; the two inputs of equal code have different places.\<close>

definition demo_options :: cuckoo_options where
  "demo_options = \<lparr>num_input = 3, num_stash = 1, num_hash = 3, scale_factor = (\<lambda>n. n + 5), max_try_count = 128\<rparr>"

theorem cuckoo_index_assigns_witness:
  "options_ok demo_options \<and> (\<exists>c0. new_cuckoo_index demo_options = Inr c0 \<and>
    (\<exists>c. insert_batches [[1234567, 1234567], [99]] c0 = Inr c \<and>
      inputs_of (bins c) + inputs_of (stash c) = mset [0, 1, 2] \<and> sanity_check c = Inr ()))"
proof -
  have opt: "options_ok demo_options" by (simp add: options_ok_def demo_options_def num_bins_def)
  obtain c0 where c0: "new_cuckoo_index demo_options = Inr c0" using new_cuckoo_index_ok [OF opt] by blast
  have "case new_cuckoo_index demo_options of Inl _ \<Rightarrow> False | Inr c0 \<Rightarrow>
      (case insert_batches [[1234567, 1234567], [99]] c0 of Inl _ \<Rightarrow> False | Inr _ \<Rightarrow> True)" by code_simp
  then have "\<exists>c. insert_batches [[1234567, 1234567], [99]] c0 = Inr c" using c0 by (auto split: sum.splits)
  then show ?thesis using cuckoo_index_assigns [OF opt, of "[[1234567, 1234567], [99]]"] c0 opt
    by (auto simp: demo_options_def upt_rec)
qed

end
