(* ===== verification/Ot_Store.thy ===== *)
theory Ot_Store
  imports Dynamic_Bitset_Properties
begin

text \<open>
  \<open>kernel/type/slice_base.cc\<close>, \<open>ot_store.cc\<close> and \<open>ot_store_utils.cc\<close>: the stores of oblivious transfers. A store
  and its slices share buffers; the buffers live in a heap, and a store holds their addresses. The
  counters are 64-bit words.
\<close>

subsection \<open>Slices\<close>

record slice_base =
  internal_use_ctr :: u64
  internal_use_size :: u64
  internal_buf_ctr :: u64
  internal_buf_size :: u64

definition is_sliced :: "slice_base \<Rightarrow> bool" where
  "is_sliced s \<longleftrightarrow> internal_buf_ctr s \<noteq> 0"

definition reset_slice :: "slice_base \<Rightarrow> slice_base" where
  "reset_slice s = s\<lparr>internal_use_ctr := 0, internal_use_size := internal_buf_size s, internal_buf_ctr := 0\<rparr>"

definition slice_consistency_check :: "slice_base \<Rightarrow> unit result" where
  "slice_consistency_check s =
     rbind (enforce (internal_use_size s > 0)) (\<lambda>_.
     rbind (enforce (internal_buf_size s > 0)) (\<lambda>_.
     rbind (enforce (internal_buf_size s \<ge> internal_use_size s)) (\<lambda>_.
     enforce (internal_buf_size s \<ge> internal_buf_ctr s))))"

text \<open>\<open>ConsistencyCheck\<close> is virtual: the operations that call it take the check of the class of the object.\<close>

definition init_ctrs :: "(slice_base \<Rightarrow> unit result) \<Rightarrow> u64 \<Rightarrow> u64 \<Rightarrow> u64 \<Rightarrow> u64 \<Rightarrow> slice_base result" where
  "init_ctrs check use_ctr use_size buf_ctr buf_size =
     (let s = \<lparr>internal_use_ctr = use_ctr, internal_use_size = use_size,
               internal_buf_ctr = buf_ctr, internal_buf_size = buf_size\<rparr> in
      rbind (check s) (\<lambda>_. Inr s))"

definition get_buf_idx :: "slice_base \<Rightarrow> u64 \<Rightarrow> u64 result" where
  "get_buf_idx s slice_idx =
     rbind (enforce (internal_use_size s > slice_idx)) (\<lambda>_. Inr (internal_use_ctr s + slice_idx))"

definition increase_buf_ctr :: "slice_base \<Rightarrow> u64 \<Rightarrow> slice_base result" where
  "increase_buf_ctr s sz =
     rbind (enforce (internal_buf_size s - internal_buf_ctr s \<ge> sz)) (\<lambda>_.
     Inr (s\<lparr>internal_buf_ctr := internal_buf_ctr s + sz\<rparr>))"

definition slice_reset :: "(slice_base \<Rightarrow> unit result) \<Rightarrow> slice_base \<Rightarrow> unit result \<times> slice_base" where
  "slice_reset check s =
     (let s = s\<lparr>internal_use_ctr := 0, internal_use_size := 0, internal_buf_ctr := 0, internal_buf_size := 0\<rparr> in
      (check s, s))"

subsection \<open>The heap of buffers\<close>

record ot_heap =
  blk_bufs :: "u128 list list"
  bit_bufs :: "128 bitset list"

text \<open>Reading through a pointer; \<open>None\<close> is the null pointer.\<close>

definition blk_at :: "ot_heap \<Rightarrow> nat option \<Rightarrow> u128 list result" where
  "blk_at h p = (case p of None \<Rightarrow> Inl Undefined | Some a \<Rightarrow> at_idx (blk_bufs h) a)"

definition bit_at :: "ot_heap \<Rightarrow> nat option \<Rightarrow> 128 bitset result" where
  "bit_at h p = (case p of None \<Rightarrow> Inl Undefined | Some a \<Rightarrow> at_idx (bit_bufs h) a)"

definition put_blk :: "ot_heap \<Rightarrow> nat option \<Rightarrow> u128 list \<Rightarrow> ot_heap result" where
  "put_blk h p b = (case p of None \<Rightarrow> Inl Undefined
     | Some a \<Rightarrow> rbind (set_idx (blk_bufs h) a b) (\<lambda>bufs. Inr (h\<lparr>blk_bufs := bufs\<rparr>)))"

definition put_bit :: "ot_heap \<Rightarrow> nat option \<Rightarrow> 128 bitset \<Rightarrow> ot_heap result" where
  "put_bit h p b = (case p of None \<Rightarrow> Inl Undefined
     | Some a \<Rightarrow> rbind (set_idx (bit_bufs h) a b) (\<lambda>bufs. Inr (h\<lparr>bit_bufs := bufs\<rparr>)))"

text \<open>\<open>std::make_shared\<close>.\<close>

definition new_blk :: "ot_heap \<Rightarrow> u128 list \<Rightarrow> nat option \<times> ot_heap" where
  "new_blk h b = (Some (length (blk_bufs h)), h\<lparr>blk_bufs := blk_bufs h @ [b]\<rparr>)"

definition new_bit :: "ot_heap \<Rightarrow> 128 bitset \<Rightarrow> nat option \<times> ot_heap" where
  "new_bit h b = (Some (length (bit_bufs h)), h\<lparr>bit_bufs := bit_bufs h @ [b]\<rparr>)"

datatype ot_store_type = Normal | Compact

subsection \<open>The receiver's store\<close>

record ot_recv_store =
  rs_slice :: slice_base
  rs_type :: ot_store_type
  rs_bit_buf :: "nat option"
  rs_blk_buf :: "nat option"

definition rs_consistency_check :: "ot_heap \<Rightarrow> ot_recv_store \<Rightarrow> unit result" where
  "rs_consistency_check h s =
     rbind (slice_consistency_check (rs_slice s)) (\<lambda>_.
     rbind (blk_at h (rs_blk_buf s)) (\<lambda>blk.
     rbind (enforce (length blk \<ge> unat (internal_buf_size (rs_slice s)))) (\<lambda>_.
     if rs_type s = Normal then rbind (bit_at h (rs_bit_buf s)) (\<lambda>b. enforce (size_bits b = length blk)) else Inr ())))"

definition make_recv_store ::
  "ot_heap \<Rightarrow> nat option \<Rightarrow> nat option \<Rightarrow> u64 \<Rightarrow> u64 \<Rightarrow> u64 \<Rightarrow> u64 \<Rightarrow> ot_store_type \<Rightarrow> ot_recv_store result" where
  "make_recv_store h bit_ptr blk_ptr use_ctr use_size buf_ctr buf_size type =
     (let obj = (\<lambda>sl. \<lparr>rs_slice = sl, rs_type = type, rs_bit_buf = bit_ptr, rs_blk_buf = blk_ptr\<rparr>) in
      rbind (init_ctrs (\<lambda>sl. rs_consistency_check h (obj sl)) use_ctr use_size buf_ctr buf_size) (\<lambda>sl.
      rbind (rs_consistency_check h (obj sl)) (\<lambda>_. Inr (obj sl))))"

definition new_recv_store :: "ot_heap \<Rightarrow> u64 \<Rightarrow> ot_store_type \<Rightarrow> (ot_recv_store \<times> ot_heap) result" where
  "new_recv_store h num type =
     rbind (if type = Normal then rbind (bitset_init (unat num) 0) (\<lambda>b. Inr (new_bit h b)) else Inr (None, h)) (\<lambda>(bit_ptr, h).
     let (blk_ptr, h) = new_blk h (replicate (unat num) 0) in
     rbind (make_recv_store h bit_ptr blk_ptr 0 num 0 num type) (\<lambda>s. Inr (s, h)))"

definition rs_slice_op :: "ot_heap \<Rightarrow> ot_recv_store \<Rightarrow> u64 \<Rightarrow> u64 \<Rightarrow> ot_recv_store result" where
  "rs_slice_op h s begin_idx end_idx =
     make_recv_store h (rs_bit_buf s) (rs_blk_buf s) begin_idx (end_idx - begin_idx) begin_idx end_idx (rs_type s)"

definition rs_next_slice :: "ot_heap \<Rightarrow> ot_recv_store \<Rightarrow> u64 \<Rightarrow> (ot_recv_store \<times> ot_recv_store) result" where
  "rs_next_slice h s num =
     rbind (rs_slice_op h s (internal_buf_ctr (rs_slice s)) (internal_buf_ctr (rs_slice s) + num)) (\<lambda>out.
     rbind (increase_buf_ctr (rs_slice s) num) (\<lambda>sl. Inr (out, s\<lparr>rs_slice := sl\<rparr>)))"

text \<open>\<open>SliceBase::Reset\<close> checks the cleared counters and throws, before the buffers are dropped.\<close>

definition rs_reset :: "ot_heap \<Rightarrow> ot_recv_store \<Rightarrow> unit result \<times> ot_recv_store" where
  "rs_reset h s =
     (let (r, sl) = slice_reset (\<lambda>sl. rs_consistency_check h (s\<lparr>rs_slice := sl\<rparr>)) (rs_slice s); s = s\<lparr>rs_slice := sl\<rparr> in
      case r of Inl e \<Rightarrow> (Inl e, s)
      | Inr _ \<Rightarrow> (let s = s\<lparr>rs_bit_buf := None, rs_blk_buf := None, rs_type := Compact\<rparr> in (rs_consistency_check h s, s)))"

definition rs_size :: "ot_recv_store \<Rightarrow> u64" where
  "rs_size s = internal_use_size (rs_slice s)"

definition rs_get_block :: "ot_heap \<Rightarrow> ot_recv_store \<Rightarrow> u64 \<Rightarrow> u128 result" where
  "rs_get_block h s idx =
     rbind (enforce (idx < internal_use_size (rs_slice s))) (\<lambda>_.
     rbind (get_buf_idx (rs_slice s) idx) (\<lambda>i.
     rbind (blk_at h (rs_blk_buf s)) (\<lambda>blk. at_idx blk (unat i))))"

definition rs_set_block :: "ot_heap \<Rightarrow> ot_recv_store \<Rightarrow> u64 \<Rightarrow> u128 \<Rightarrow> ot_heap result" where
  "rs_set_block h s idx val =
     rbind (get_buf_idx (rs_slice s) idx) (\<lambda>i.
     rbind (blk_at h (rs_blk_buf s)) (\<lambda>blk.
     rbind (set_idx blk (unat i) val) (put_blk h (rs_blk_buf s))))"

text \<open>The contents of the span, and of the copies, of the block buffer.\<close>

definition rs_blk_buf_span :: "ot_heap \<Rightarrow> ot_recv_store \<Rightarrow> u128 list result" where
  "rs_blk_buf_span h s =
     rbind (enforce (\<not> is_sliced (rs_slice s))) (\<lambda>_.
     rbind (blk_at h (rs_blk_buf s)) (\<lambda>blk. Inr (take (unat (internal_buf_size (rs_slice s))) blk)))"

definition rs_get_blk_buf :: "ot_heap \<Rightarrow> ot_recv_store \<Rightarrow> u128 list result" where
  "rs_get_blk_buf h s = blk_at h (rs_blk_buf s)"

definition rs_steal_blk_buf :: "nat \<Rightarrow> ot_heap \<Rightarrow> ot_recv_store \<Rightarrow> nat option result \<times> ot_recv_store" where
  "rs_steal_blk_buf use_count h s =
     (if use_count \<noteq> 1 then (Inl EnforceNotMet, s)
      else let ret = rs_blk_buf s; s = s\<lparr>rs_blk_buf := None\<rparr> in
        case rs_reset h s of (Inl e, s) \<Rightarrow> (Inl e, s) | (Inr _, s) \<Rightarrow> (Inr ret, s))"

definition rs_copy_blk_buf :: "ot_heap \<Rightarrow> ot_recv_store \<Rightarrow> u128 list result" where
  "rs_copy_blk_buf h s =
     (let from = unat (internal_use_ctr (rs_slice s)); n = unat (internal_use_size (rs_slice s)) in
      rbind (blk_at h (rs_blk_buf s)) (\<lambda>blk.
      rbind (assert_that (from + n \<le> length blk)) (\<lambda>_. Inr (take n (drop from blk)))))"

definition rs_get_choice :: "ot_heap \<Rightarrow> ot_recv_store \<Rightarrow> u64 \<Rightarrow> u8 result" where
  "rs_get_choice h s idx =
     rbind (enforce (idx < internal_use_size (rs_slice s))) (\<lambda>_.
     rbind (get_buf_idx (rs_slice s) idx) (\<lambda>i.
     if rs_type s = Compact then
       rbind (blk_at h (rs_blk_buf s)) (\<lambda>blk. rbind (at_idx blk (unat i)) (\<lambda>w. Inr (ucast (w AND 1))))
     else
       rbind (bit_at h (rs_bit_buf s)) (\<lambda>b. rbind (op_index b (unat i)) (\<lambda>r. rbind (ref_bool b r) (\<lambda>v. Inr (of_bool v))))))"

definition rs_set_choice :: "ot_heap \<Rightarrow> ot_recv_store \<Rightarrow> u64 \<Rightarrow> bool \<Rightarrow> ot_heap result" where
  "rs_set_choice h s idx val =
     rbind (enforce (rs_type s = Normal)) (\<lambda>_.
     rbind (get_buf_idx (rs_slice s) idx) (\<lambda>i.
     rbind (bit_at h (rs_bit_buf s)) (\<lambda>b.
     rbind (op_index b (unat i)) (\<lambda>r. rbind (ref_op_assign b r val) (put_bit h (rs_bit_buf s))))))"

definition rs_flip_choice :: "ot_heap \<Rightarrow> ot_recv_store \<Rightarrow> u64 \<Rightarrow> ot_heap result" where
  "rs_flip_choice h s idx =
     rbind (enforce (rs_type s = Normal)) (\<lambda>_.
     rbind (get_buf_idx (rs_slice s) idx) (\<lambda>i.
     rbind (bit_at h (rs_bit_buf s)) (\<lambda>b.
     rbind (op_index b (unat i)) (\<lambda>r. rbind (ref_flip b r) (put_bit h (rs_bit_buf s))))))"

definition rs_get_bit_buf :: "ot_heap \<Rightarrow> ot_recv_store \<Rightarrow> u128 list result" where
  "rs_get_bit_buf h s = rbind (bit_at h (rs_bit_buf s)) (\<lambda>b. Inr (m_blocks b))"

definition rs_set_bit_buf :: "ot_heap \<Rightarrow> ot_recv_store \<Rightarrow> 128 bitset \<Rightarrow> ot_recv_store \<times> ot_heap" where
  "rs_set_bit_buf h s b = (let (p, h) = new_bit h b in (s\<lparr>rs_bit_buf := p\<rparr>, h))"

definition rs_copy_bit_buf :: "ot_heap \<Rightarrow> ot_recv_store \<Rightarrow> 128 bitset result" where
  "rs_copy_bit_buf h s =
     (if rs_type s = Compact then
        rbind (bitset_init (unat (rs_size s)) 0) (\<lambda>out.
        rfold (\<lambda>i out. rbind (rs_get_block h s (of_nat i)) (\<lambda>w. rbind (op_index out i) (\<lambda>r. ref_op_assign out r (w AND 1 \<noteq> 0)))) [0..<unat (rs_size s)] out)
      else
        rbind (bit_at h (rs_bit_buf s)) (\<lambda>out.
        rbind (op_shr_assign out (unat (internal_use_ctr (rs_slice s)))) (\<lambda>out.
        resize out (unat (internal_use_size (rs_slice s))) False)))"

subsection \<open>The sender's store\<close>

record ot_send_store =
  ss_slice :: slice_base
  ss_type :: ot_store_type
  ss_delta :: u128
  ss_blk_buf :: "nat option"

definition ss_consistency_check :: "ot_heap \<Rightarrow> ot_send_store \<Rightarrow> unit result" where
  "ss_consistency_check h s =
     rbind (slice_consistency_check (ss_slice s)) (\<lambda>_.
     rbind (blk_at h (ss_blk_buf s)) (\<lambda>blk. enforce (length blk \<ge> unat (internal_buf_size (ss_slice s)))))"

definition make_send_store ::
  "ot_heap \<Rightarrow> nat option \<Rightarrow> u128 \<Rightarrow> u64 \<Rightarrow> u64 \<Rightarrow> u64 \<Rightarrow> u64 \<Rightarrow> ot_store_type \<Rightarrow> ot_send_store result" where
  "make_send_store h blk_ptr delta use_ctr use_size buf_ctr buf_size type =
     (let obj = (\<lambda>sl. \<lparr>ss_slice = sl, ss_type = type, ss_delta = delta, ss_blk_buf = blk_ptr\<rparr>) in
      rbind (init_ctrs (\<lambda>sl. ss_consistency_check h (obj sl)) use_ctr use_size buf_ctr buf_size) (\<lambda>sl.
      rbind (ss_consistency_check h (obj sl)) (\<lambda>_. Inr (obj sl))))"

definition new_send_store :: "ot_heap \<Rightarrow> u64 \<Rightarrow> ot_store_type \<Rightarrow> (ot_send_store \<times> ot_heap) result" where
  "new_send_store h num type =
     (let buf_size = (if type = Normal then num * 2 else num);
          (blk_ptr, h) = new_blk h (replicate (unat buf_size) 0) in
      rbind (make_send_store h blk_ptr 0 0 buf_size 0 buf_size type) (\<lambda>s. Inr (s, h)))"

definition ss_reset :: "ot_heap \<Rightarrow> ot_send_store \<Rightarrow> unit result \<times> ot_send_store" where
  "ss_reset h s =
     (let (r, sl) = slice_reset (\<lambda>sl. ss_consistency_check h (s\<lparr>ss_slice := sl\<rparr>)) (ss_slice s); s = s\<lparr>ss_slice := sl\<rparr> in
      case r of Inl e \<Rightarrow> (Inl e, s)
      | Inr _ \<Rightarrow> (let s = s\<lparr>ss_blk_buf := None, ss_type := Compact\<rparr> in (ss_consistency_check h s, s)))"

definition ot_blk_num :: "ot_store_type \<Rightarrow> u64" where
  "ot_blk_num type = (if type = Compact then 1 else 2)"

definition ss_slice_op :: "ot_heap \<Rightarrow> ot_send_store \<Rightarrow> u64 \<Rightarrow> u64 \<Rightarrow> ot_send_store result" where
  "ss_slice_op h s begin_idx end_idx =
     (let n = ot_blk_num (ss_type s) in
      make_send_store h (ss_blk_buf s) (ss_delta s) (begin_idx * n) ((end_idx - begin_idx) * n)
        (begin_idx * n) (end_idx * n) (ss_type s))"

definition ss_next_slice :: "ot_heap \<Rightarrow> ot_send_store \<Rightarrow> u64 \<Rightarrow> (ot_send_store \<times> ot_send_store) result" where
  "ss_next_slice h s num =
     (let n = ot_blk_num (ss_type s); from = internal_buf_ctr (ss_slice s) div n in
      rbind (ss_slice_op h s from (from + num)) (\<lambda>out.
      rbind (increase_buf_ctr (ss_slice s) (num * n)) (\<lambda>sl. Inr (out, s\<lparr>ss_slice := sl\<rparr>))))"

definition ss_size :: "ot_send_store \<Rightarrow> u64" where
  "ss_size s = (if ss_type s = Compact then internal_use_size (ss_slice s) else internal_use_size (ss_slice s) div 2)"

definition ss_get_delta :: "ot_send_store \<Rightarrow> u128 result" where
  "ss_get_delta s = rbind (enforce (ss_delta s \<noteq> 0)) (\<lambda>_. Inr (ss_delta s))"

definition ss_set_delta :: "ot_send_store \<Rightarrow> u128 \<Rightarrow> ot_send_store result" where
  "ss_set_delta s delta = rbind (enforce (delta \<noteq> 0)) (\<lambda>_. Inr (s\<lparr>ss_delta := delta\<rparr>))"

definition ss_get_block :: "ot_heap \<Rightarrow> ot_send_store \<Rightarrow> u64 \<Rightarrow> u64 \<Rightarrow> u128 result" where
  "ss_get_block h s ot_idx msg_idx =
     rbind (enforce (msg_idx = 0 \<or> msg_idx = 1)) (\<lambda>_.
     if ss_delta s = 0 then
       rbind (get_buf_idx (ss_slice s) (2 * ot_idx)) (\<lambda>i.
       rbind (blk_at h (ss_blk_buf s)) (\<lambda>blk. at_idx blk (unat (i + msg_idx))))
     else
       rbind (get_buf_idx (ss_slice s) (ot_blk_num (ss_type s) * ot_idx)) (\<lambda>i.
       rbind (blk_at h (ss_blk_buf s)) (\<lambda>blk.
       rbind (at_idx blk (unat i)) (\<lambda>w. Inr (w XOR (ss_delta s * ucast msg_idx))))))"

definition ss_set_normal_block :: "ot_heap \<Rightarrow> ot_send_store \<Rightarrow> u64 \<Rightarrow> u64 \<Rightarrow> u128 \<Rightarrow> ot_heap result" where
  "ss_set_normal_block h s ot_idx msg_idx val =
     rbind (enforce (ss_type s = Normal)) (\<lambda>_.
     rbind (enforce (msg_idx = 0 \<or> msg_idx = 1)) (\<lambda>_.
     rbind (get_buf_idx (ss_slice s) (ot_idx * 2 + msg_idx)) (\<lambda>i.
     rbind (blk_at h (ss_blk_buf s)) (\<lambda>blk.
     rbind (set_idx blk (unat i) val) (put_blk h (ss_blk_buf s))))))"

definition ss_set_compact_block :: "ot_heap \<Rightarrow> ot_send_store \<Rightarrow> u64 \<Rightarrow> u128 \<Rightarrow> ot_heap result" where
  "ss_set_compact_block h s ot_idx val =
     rbind (enforce (ss_type s = Compact)) (\<lambda>_.
     rbind (get_buf_idx (ss_slice s) ot_idx) (\<lambda>i.
     rbind (blk_at h (ss_blk_buf s)) (\<lambda>blk.
     rbind (set_idx blk (unat i) val) (put_blk h (ss_blk_buf s)))))"

definition ss_get_blk_buf :: "ot_heap \<Rightarrow> ot_send_store \<Rightarrow> u128 list result" where
  "ss_get_blk_buf h s = blk_at h (ss_blk_buf s)"

definition ss_blk_buf_span :: "ot_heap \<Rightarrow> ot_send_store \<Rightarrow> u128 list result" where
  "ss_blk_buf_span h s =
     rbind (enforce (\<not> is_sliced (ss_slice s))) (\<lambda>_.
     rbind (blk_at h (ss_blk_buf s)) (\<lambda>blk. Inr (take (unat (internal_buf_size (ss_slice s))) blk)))"

definition ss_steal_blk_buf :: "nat \<Rightarrow> ot_heap \<Rightarrow> ot_send_store \<Rightarrow> nat option result \<times> ot_send_store" where
  "ss_steal_blk_buf use_count h s =
     (if use_count \<noteq> 1 then (Inl EnforceNotMet, s)
      else let ret = ss_blk_buf s; s = s\<lparr>ss_blk_buf := None\<rparr> in
        case ss_reset h s of (Inl e, s) \<Rightarrow> (Inl e, s) | (Inr _, s) \<Rightarrow> (Inr ret, s))"

definition ss_copy_cot_blk_buf :: "ot_heap \<Rightarrow> ot_send_store \<Rightarrow> u128 list result" where
  "ss_copy_cot_blk_buf h s =
     rbind (enforce (ss_type s = Compact)) (\<lambda>_.
     let from = unat (internal_buf_ctr (ss_slice s)); n = unat (internal_use_size (ss_slice s)) in
     rbind (blk_at h (ss_blk_buf s)) (\<lambda>blk.
     rbind (assert_that (from + n \<le> length blk)) (\<lambda>_. Inr (take n (drop from blk)))))"

subsection \<open>Making stores\<close>

definition make_ot_send_store :: "ot_heap \<Rightarrow> (u128 \<times> u128) list \<Rightarrow> (ot_send_store \<times> ot_heap) result" where
  "make_ot_send_store h blocks =
     (let (p, h) = new_blk h (concat (map (\<lambda>(a, b). [a, b]) blocks)); n = of_nat (length blocks) * 2 in
      rbind (make_send_store h p 0 0 n 0 n Normal) (\<lambda>s. Inr (s, h)))"

definition make_compact_ot_send_store :: "ot_heap \<Rightarrow> u128 list \<Rightarrow> u128 \<Rightarrow> (ot_send_store \<times> ot_heap) result" where
  "make_compact_ot_send_store h blocks delta =
     (let (p, h) = new_blk h blocks; n = of_nat (length blocks) in
      rbind (make_send_store h p delta 0 n 0 n Compact) (\<lambda>s. Inr (s, h)))"

definition make_ot_recv_store :: "ot_heap \<Rightarrow> 128 bitset \<Rightarrow> u128 list \<Rightarrow> (ot_recv_store \<times> ot_heap) result" where
  "make_ot_recv_store h choices blocks =
     (let (p, h) = new_bit h choices; (q, h) = new_blk h blocks; n = of_nat (size_bits choices) in
      rbind (make_recv_store h p q 0 n 0 n Normal) (\<lambda>s. Inr (s, h)))"

definition make_compact_ot_recv_store :: "ot_heap \<Rightarrow> u128 list \<Rightarrow> (ot_recv_store \<times> ot_heap) result" where
  "make_compact_ot_recv_store h blocks =
     (let (p, h) = new_blk h blocks; n = of_nat (length blocks) in
      rbind (make_recv_store h None p 0 n 0 n Compact) (\<lambda>s. Inr (s, h)))"

text \<open>The mock stores; \<open>gen i\<close> is the \<open>i\<close>-th block drawn from the generator.\<close>

definition mock_rots ::
  "(nat \<Rightarrow> u128) \<Rightarrow> ot_heap \<Rightarrow> u64 \<Rightarrow> 128 bitset \<Rightarrow> ((ot_send_store \<times> ot_recv_store) \<times> ot_heap) result" where
  "mock_rots gen h num choices =
     rbind (enforce (size_bits choices = unat num)) (\<lambda>_.
     rbind (rfold (\<lambda>i (send, recv).
         let b = (gen (2 * i), gen (2 * i + 1)) in
         rbind (op_index choices i) (\<lambda>r.
         rbind (ref_bool choices r) (\<lambda>c.
         Inr (send @ [b], recv @ [if c then snd b else fst b])))) [0..<unat num] ([], [])) (\<lambda>(send, recv).
     rbind (make_ot_send_store h send) (\<lambda>(s, h).
     rbind (make_ot_recv_store h choices recv) (\<lambda>(r, h). Inr ((s, r), h)))))"

definition mock_cots ::
  "(nat \<Rightarrow> u128) \<Rightarrow> ot_heap \<Rightarrow> u64 \<Rightarrow> u128 \<Rightarrow> 128 bitset \<Rightarrow> ((ot_send_store \<times> ot_recv_store) \<times> ot_heap) result" where
  "mock_cots gen h num delta choices =
     rbind (enforce (size_bits choices = unat num)) (\<lambda>_.
     rbind (rfold (\<lambda>i (send, recv).
         let msg = gen i in
         rbind (op_index choices i) (\<lambda>r.
         rbind (ref_not choices r) (\<lambda>zero.
         Inr (send @ [msg], recv @ [if zero then msg else msg XOR delta])))) [0..<unat num] ([], [])) (\<lambda>(send, recv).
     rbind (make_compact_ot_send_store h send delta) (\<lambda>(s, h).
     rbind (make_ot_recv_store h choices recv) (\<lambda>(r, h). Inr ((s, r), h)))))"

definition mock_compact_ots ::
  "(nat \<Rightarrow> u128) \<Rightarrow> u128 \<Rightarrow> ot_heap \<Rightarrow> u64 \<Rightarrow> ((ot_send_store \<times> ot_recv_store) \<times> ot_heap) result" where
  "mock_compact_ots gen rand h num =
     (let delta = rand OR 1;
          recv = map gen [0..<unat num];
          send = map (\<lambda>msg. msg XOR ((msg AND 1) * delta)) recv in
      rbind (make_compact_ot_send_store h send delta) (\<lambda>(s, h).
      rbind (make_compact_ot_recv_store h recv) (\<lambda>(r, h). Inr ((s, r), h))))"

end
