(* ===== verification/Ot_Store_Properties.thy ===== *)
theory Ot_Store_Properties
  imports Ot_Store
begin

text \<open>
  The contract of \<open>NextSlice\<close>, stated once for the two stores: the slices a store hands out are consecutive,
  lie in its buffer, and share no transfer.
\<close>

subsection \<open>Handing out slices\<close>

text \<open>Consecutive calls of \<open>NextSlice\<close> on one store.\<close>

fun next_slices :: "('s \<Rightarrow> u64 \<Rightarrow> ('s \<times> 's) result) \<Rightarrow> 's \<Rightarrow> u64 list \<Rightarrow> ('s list \<times> 's) result" where
  "next_slices nxt s [] = Inr ([], s)"
| "next_slices nxt s (n # ns) =
     rbind (nxt s n) (\<lambda>(out, s). rbind (next_slices nxt s ns) (\<lambda>(outs, s). Inr (out # outs, s)))"

text \<open>Where slice \<open>k\<close> begins, after slices of \<open>ds\<close> transfers.\<close>

definition slice_from :: "nat list \<Rightarrow> nat \<Rightarrow> nat" where
  "slice_from ds k = sum_list (take k ds)"

text \<open>\<open>amount s n\<close> is the number of transfers the store understands by the 64-bit size \<open>n\<close>.\<close>

locale ot_slicing =
  fixes ok :: "'s \<Rightarrow> bool"
    and amount :: "'s \<Rightarrow> u64 \<Rightarrow> nat"
    and nxt :: "'s \<Rightarrow> u64 \<Rightarrow> ('s \<times> 's) result"
    and pos :: "'s \<Rightarrow> nat"
    and capacity :: "'s \<Rightarrow> nat"
    and view :: "'s \<Rightarrow> nat \<Rightarrow> nat \<Rightarrow> 's"
    and advance :: "'s \<Rightarrow> nat \<Rightarrow> 's"
  assumes nxt_fits: "ok s \<Longrightarrow> amount s n \<noteq> 0 \<Longrightarrow> pos s + amount s n \<le> capacity s \<Longrightarrow>
      nxt s n = Inr (view s (pos s) (amount s n), advance s (amount s n))"
    and nxt_rejects: "ok s \<Longrightarrow> amount s n = 0 \<or> capacity s < pos s + amount s n \<Longrightarrow> nxt s n = Inl EnforceNotMet"
    and advance_ok: "ok s \<Longrightarrow> pos s + k \<le> capacity s \<Longrightarrow> ok (advance s k)"
    and advance_pos: "ok s \<Longrightarrow> pos s + k \<le> capacity s \<Longrightarrow> pos (advance s k) = pos s + k"
    and advance_keeps: "capacity (advance s k) = capacity s" "amount (advance s k) = amount s"
      "view (advance s k) f l = view s f l"
begin

lemma slices_fit:
  assumes "ok s" "0 \<notin> set (map (amount s) ns)" "pos s + sum_list (map (amount s) ns) \<le> capacity s"
  shows "\<exists>s'. next_slices nxt s ns =
    Inr (map (\<lambda>k. view s (pos s + slice_from (map (amount s) ns) k) (amount s (ns ! k))) [0..<length ns], s') \<and>
    pos s' = pos s + sum_list (map (amount s) ns)"
  using assms
proof (induction ns arbitrary: s)
  case (Cons n ns)
  let ?s = "advance s (amount s n)"
  have fits: "pos s + amount s n \<le> capacity s"
    using Cons.prems by simp
  have step: "nxt s n = Inr (view s (pos s) (amount s n), ?s)"
    using Cons.prems fits by (intro nxt_fits) auto
  have "ok ?s" "pos ?s = pos s + amount s n"
    using Cons.prems fits by (auto intro: advance_ok advance_pos)
  moreover have "0 \<notin> set (map (amount ?s) ns)" "pos ?s + sum_list (map (amount ?s) ns) \<le> capacity ?s"
    using Cons.prems calculation by (auto simp: advance_keeps)
  ultimately obtain s' where "next_slices nxt ?s ns =
      Inr (map (\<lambda>k. view ?s (pos ?s + slice_from (map (amount ?s) ns) k) (amount ?s (ns ! k))) [0..<length ns], s')"
      "pos s' = pos ?s + sum_list (map (amount ?s) ns)"
    using Cons.IH [of ?s] by blast
  with step \<open>pos ?s = pos s + amount s n\<close> show ?case
    by (simp add: advance_keeps slice_from_def upt_conv_Cons map_Suc_upt [symmetric] add.assoc o_def del: upt_Suc)
qed (simp add: slice_from_def)

lemma slices_reject:
  assumes "ok s" "pos s \<le> capacity s" "0 \<in> set (map (amount s) ns) \<or> capacity s < pos s + sum_list (map (amount s) ns)"
  shows "next_slices nxt s ns = Inl EnforceNotMet"
  using assms
proof (induction ns arbitrary: s)
  case (Cons n ns)
  show ?case
  proof (cases "amount s n = 0 \<or> capacity s < pos s + amount s n")
    case True
    then show ?thesis
      using nxt_rejects [of s n] Cons.prems by simp
  next
    case False
    then have "pos s + amount s n \<le> capacity s" "nxt s n = Inr (view s (pos s) (amount s n), advance s (amount s n))"
      using Cons.prems by (auto intro!: nxt_fits)
    moreover from this have "next_slices nxt (advance s (amount s n)) ns = Inl EnforceNotMet"
      using Cons.prems False by (intro Cons.IH) (auto simp: advance_keeps advance_pos intro: advance_ok)
    ultimately show ?thesis
      by simp
  qed
qed simp

end

subsection \<open>Counters\<close>

lemma slice_check_eq:
  "slice_consistency_check s =
     (if 0 < internal_use_size s \<and> internal_use_size s \<le> internal_buf_size s \<and> internal_buf_ctr s \<le> internal_buf_size s
      then Inr () else Inl EnforceNotMet)"
  by (auto simp: slice_consistency_check_def enforce_def)

lemma unat_less_u64: "unat (a :: u64) < 18446744073709551616"
  using unsigned_less [of a, where 'a = nat] by simp

lemma unat_plus_u64:
  "unat (a + b :: u64) = (if unat a + unat b < 18446744073709551616 then unat a + unat b else unat a + unat b - 18446744073709551616)"
  using unat_less_u64 [of a] unat_less_u64 [of b] by (auto simp: unat_word_ariths mod_if)

lemma unat_plus_below: "unat a + unat b \<le> unat (c :: u64) \<Longrightarrow> unat (a + b :: u64) = unat a + unat b"
  using unat_less_u64 [of c] by (simp add: unat_plus_u64)

lemma unat_of_nat_below: "k \<le> unat (c :: u64) \<Longrightarrow> unat (of_nat k :: u64) = k"
  using unat_less_u64 [of c] by (simp add: unat_of_nat_small)

lemma increase_fits:
  "internal_buf_ctr s \<le> internal_buf_size s \<Longrightarrow>
   increase_buf_ctr s n =
     (if unat (internal_buf_ctr s) + unat n \<le> unat (internal_buf_size s)
      then Inr (s\<lparr>internal_buf_ctr := internal_buf_ctr s + n\<rparr>) else Inl EnforceNotMet)"
  by (auto simp: increase_buf_ctr_def enforce_def word_le_nat_alt unat_sub)

subsection \<open>The receiver's slices\<close>

definition rs_ok :: "ot_heap \<Rightarrow> ot_recv_store \<Rightarrow> bool" where
  "rs_ok h s \<longleftrightarrow> (\<exists>a blk. rs_blk_buf s = Some a \<and> at_idx (blk_bufs h) a = Inr blk \<and>
     unat (internal_buf_size (rs_slice s)) \<le> length blk \<and> internal_buf_ctr (rs_slice s) \<le> internal_buf_size (rs_slice s) \<and>
     (rs_type s = Normal \<longrightarrow> (\<exists>b bs l. rs_bit_buf s = Some b \<and> at_idx (bit_bufs h) b = Inr bs \<and> repr bs l \<and> length l = length blk)))"

definition rs_view :: "ot_recv_store \<Rightarrow> nat \<Rightarrow> nat \<Rightarrow> ot_recv_store" where
  "rs_view s from len = s\<lparr>rs_slice := \<lparr>internal_use_ctr = of_nat from, internal_use_size = of_nat len,
     internal_buf_ctr = of_nat from, internal_buf_size = of_nat (from + len)\<rparr>\<rparr>"

definition rs_advance :: "ot_recv_store \<Rightarrow> nat \<Rightarrow> ot_recv_store" where
  "rs_advance s k = s\<lparr>rs_slice := (rs_slice s)\<lparr>internal_buf_ctr := internal_buf_ctr (rs_slice s) + of_nat k\<rparr>\<rparr>"

definition rs_pos :: "ot_recv_store \<Rightarrow> nat" where
  "rs_pos s = unat (internal_buf_ctr (rs_slice s))"

definition rs_capacity :: "ot_recv_store \<Rightarrow> nat" where
  "rs_capacity s = unat (internal_buf_size (rs_slice s))"

lemma rs_check_eq:
  assumes "rs_ok h s"
  shows "rs_consistency_check h (s\<lparr>rs_slice := sl\<rparr>) =
    rbind (slice_consistency_check sl) (\<lambda>_.
    rbind (blk_at h (rs_blk_buf s)) (\<lambda>blk. enforce (unat (internal_buf_size sl) \<le> length blk)))"
  using assms
  by (auto simp: rs_consistency_check_def rs_ok_def blk_at_def bit_at_def enforce_def size_bits_def repr_size result_simps)

lemma rs_slice_op_eq:
  assumes "rs_ok h s"
  shows "rs_slice_op h s b e =
    rbind (rs_consistency_check h (s\<lparr>rs_slice := \<lparr>internal_use_ctr = b, internal_use_size = e - b,
       internal_buf_ctr = b, internal_buf_size = e\<rparr>\<rparr>)) (\<lambda>_.
    Inr (s\<lparr>rs_slice := \<lparr>internal_use_ctr = b, internal_use_size = e - b, internal_buf_ctr = b, internal_buf_size = e\<rparr>\<rparr>))"
proof -
  have obj: "\<lparr>rs_slice = sl, rs_type = rs_type s, rs_bit_buf = rs_bit_buf s, rs_blk_buf = rs_blk_buf s\<rparr> = s\<lparr>rs_slice := sl\<rparr>" for sl
    by simp
  show ?thesis
    by (auto simp: rs_slice_op_def make_recv_store_def init_ctrs_def Let_def obj rbind_def split: sum.splits)
qed

lemma rs_nxt_fits:
  assumes "rs_ok h s" "n \<noteq> 0" "rs_pos s + unat n \<le> rs_capacity s"
  shows "rs_next_slice h s n = Inr (rs_view s (rs_pos s) (unat n), rs_advance s (unat n))"
proof -
  let ?c = "internal_buf_ctr (rs_slice s)"
  have sum: "unat (?c + n) = unat ?c + unat n"
    using assms(3) by (intro unat_plus_below) (simp add: rs_pos_def rs_capacity_def)
  have le: "n \<le> ?c + n" "?c \<le> ?c + n"
    by (simp_all add: word_le_nat_alt sum)
  have "rs_slice_op h s ?c (?c + n) = Inr (rs_view s (rs_pos s) (unat n))"
    using assms le sum
    by (auto simp: rs_slice_op_eq rs_check_eq slice_check_eq rs_ok_def blk_at_def result_simps enforce_def rs_view_def
        rs_pos_def rs_capacity_def word_greater_zero_iff)
  moreover have "increase_buf_ctr (rs_slice s) n = Inr ((rs_slice s)\<lparr>internal_buf_ctr := ?c + n\<rparr>)"
    using assms by (subst increase_fits) (auto simp: rs_ok_def rs_pos_def rs_capacity_def)
  ultimately show ?thesis
    by (simp add: rs_next_slice_def rs_advance_def)
qed

lemma rs_nxt_rejects:
  assumes "rs_ok h s" "n = 0 \<or> rs_capacity s < rs_pos s + unat n"
  shows "rs_next_slice h s n = Inl EnforceNotMet"
proof -
  let ?c = "internal_buf_ctr (rs_slice s)"
  have inc: "n \<noteq> 0 \<Longrightarrow> increase_buf_ctr (rs_slice s) n = Inl EnforceNotMet"
    using assms by (subst increase_fits) (auto simp: rs_ok_def rs_pos_def rs_capacity_def)
  have "rs_slice_op h s ?c (?c + n) = Inl EnforceNotMet \<or> n \<noteq> 0 \<and> (\<exists>out. rs_slice_op h s ?c (?c + n) = Inr out)"
    using assms(1)
    by (auto simp: rs_slice_op_eq rs_check_eq slice_check_eq rs_ok_def blk_at_def result_simps enforce_def split: if_splits)
  with inc show ?thesis
    by (auto simp: rs_next_slice_def)
qed

interpretation recv_slices: ot_slicing "rs_ok h" "\<lambda>_. unat" "rs_next_slice h" rs_pos rs_capacity rs_view rs_advance for h
proof
  fix s :: ot_recv_store and k
  assume "rs_ok h s" "rs_pos s + k \<le> rs_capacity s"
  moreover from this have "unat (of_nat k :: u64) = k"
    by (intro unat_of_nat_below [of k "internal_buf_size (rs_slice s)"]) (simp add: rs_capacity_def)
  moreover from calculation have "unat (internal_buf_ctr (rs_slice s) + of_nat k) = rs_pos s + k"
    by (subst unat_plus_below [of _ _ "internal_buf_size (rs_slice s)"]) (simp_all add: rs_pos_def rs_capacity_def)
  ultimately show "rs_ok h (rs_advance s k)" "rs_pos (rs_advance s k) = rs_pos s + k"
    by (auto simp: rs_ok_def rs_advance_def rs_pos_def rs_capacity_def word_le_nat_alt)
qed (auto simp: rs_nxt_fits rs_nxt_rejects unat_eq_0 rs_advance_def rs_capacity_def rs_view_def)

subsection \<open>The sender's slices\<close>

text \<open>Positions are counted in transfers: a normal store has two blocks for each.\<close>

definition ss_width :: "ot_send_store \<Rightarrow> nat" where
  "ss_width s = (if ss_type s = Compact then 1 else 2)"

definition ss_ok :: "ot_heap \<Rightarrow> ot_send_store \<Rightarrow> bool" where
  "ss_ok h s \<longleftrightarrow> (\<exists>a blk. ss_blk_buf s = Some a \<and> at_idx (blk_bufs h) a = Inr blk \<and>
     unat (internal_buf_size (ss_slice s)) \<le> length blk \<and> internal_buf_ctr (ss_slice s) \<le> internal_buf_size (ss_slice s) \<and>
     ss_width s dvd unat (internal_buf_ctr (ss_slice s)) \<and> ss_width s dvd unat (internal_buf_size (ss_slice s)))"

text \<open>The blocks of \<open>n\<close> transfers are counted in 64 bits, so a normal store takes the size modulo \<open>2 ^ 63\<close>.\<close>

definition ss_amount :: "ot_send_store \<Rightarrow> u64 \<Rightarrow> nat" where
  "ss_amount s n = unat (n * ot_blk_num (ss_type s)) div ss_width s"

definition ss_view :: "ot_send_store \<Rightarrow> nat \<Rightarrow> nat \<Rightarrow> ot_send_store" where
  "ss_view s from len = s\<lparr>ss_slice := \<lparr>internal_use_ctr = of_nat (from * ss_width s), internal_use_size = of_nat (len * ss_width s),
     internal_buf_ctr = of_nat (from * ss_width s), internal_buf_size = of_nat ((from + len) * ss_width s)\<rparr>\<rparr>"

definition ss_advance :: "ot_send_store \<Rightarrow> nat \<Rightarrow> ot_send_store" where
  "ss_advance s k = s\<lparr>ss_slice := (ss_slice s)\<lparr>internal_buf_ctr := internal_buf_ctr (ss_slice s) + of_nat (k * ss_width s)\<rparr>\<rparr>"

definition ss_pos :: "ot_send_store \<Rightarrow> nat" where
  "ss_pos s = unat (internal_buf_ctr (ss_slice s)) div ss_width s"

definition ss_capacity :: "ot_send_store \<Rightarrow> nat" where
  "ss_capacity s = unat (internal_buf_size (ss_slice s)) div ss_width s"

lemma ss_width_word: "ot_blk_num (ss_type s) = of_nat (ss_width s)"
  by (simp add: ot_blk_num_def ss_width_def)

lemma ss_width_cases: "ss_width s = 1 \<or> ss_width s = 2"
  by (simp add: ss_width_def)

lemma ss_width_pos [simp]: "0 < ss_width s"
  by (simp add: ss_width_def)

lemma ss_pos_blocks: "ss_ok h s \<Longrightarrow> unat (internal_buf_ctr (ss_slice s)) = ss_pos s * ss_width s"
  by (auto simp: ss_ok_def ss_pos_def)

lemma ss_capacity_blocks: "ss_ok h s \<Longrightarrow> unat (internal_buf_size (ss_slice s)) = ss_capacity s * ss_width s"
  by (auto simp: ss_ok_def ss_capacity_def)

lemma ss_from_eq: "ss_ok h s \<Longrightarrow> internal_buf_ctr (ss_slice s) div ot_blk_num (ss_type s) = of_nat (ss_pos s)"
proof -
  assume "ss_ok h s"
  have "unat (of_nat (ss_width s) :: u64) = ss_width s"
    using ss_width_cases [of s] by auto
  then have "unat (internal_buf_ctr (ss_slice s) div ot_blk_num (ss_type s)) = ss_pos s"
    by (simp add: unat_div_distrib ss_width_word ss_pos_def)
  from arg_cong [OF this, where f = "of_nat :: nat \<Rightarrow> u64"] show ?thesis
    by simp
qed

lemma ss_slice_op_eq:
  "ss_slice_op h s b e =
    (let n = ot_blk_num (ss_type s); sl = \<lparr>internal_use_ctr = b * n, internal_use_size = (e - b) * n,
       internal_buf_ctr = b * n, internal_buf_size = e * n\<rparr> in
     rbind (ss_consistency_check h (s\<lparr>ss_slice := sl\<rparr>)) (\<lambda>_. Inr (s\<lparr>ss_slice := sl\<rparr>)))"
proof -
  have obj: "\<lparr>ss_slice = sl, ss_type = ss_type s, ss_delta = ss_delta s, ss_blk_buf = ss_blk_buf s\<rparr> = s\<lparr>ss_slice := sl\<rparr>" for sl
    by simp
  show ?thesis
    by (auto simp: ss_slice_op_def make_send_store_def init_ctrs_def Let_def obj rbind_def split: sum.splits)
qed

lemma ss_scale: "unat (n * ot_blk_num (ss_type s)) = ss_amount s n * ss_width s"
proof -
  have "ss_width s dvd unat (n * ot_blk_num (ss_type s))"
    using ss_width_cases [of s] by (auto simp: ss_width_word unat_word_ariths intro!: dvd_mod)
  then show ?thesis
    by (simp add: ss_amount_def)
qed

lemma ss_scale_word: "n * ot_blk_num (ss_type s) = of_nat (ss_amount s n * ss_width s)"
  using arg_cong [OF ss_scale, where f = "of_nat :: nat \<Rightarrow> u64"] by (simp del: of_nat_mult)

text \<open>The amount, without words.\<close>

lemma ss_amount_eq: "ss_amount s n = (if ss_type s = Compact then unat n else unat n mod 2 ^ 63)"
proof (cases "ss_type s")
  case Normal
  have "unat n * 2 mod (2 ^ 63 * 2) = unat n mod 2 ^ 63 * 2"
    by (rule mult_mod_left [symmetric])
  with Normal show ?thesis
    by (simp add: ss_amount_def ot_blk_num_def ss_width_def unat_word_ariths)
qed (simp add: ss_amount_def ot_blk_num_def ss_width_def)

text \<open>The slice the sender cuts, before its store advances.\<close>

lemma ss_cut:
  "ss_slice_op h s (of_nat (ss_pos s)) (of_nat (ss_pos s) + n) =
    rbind (ss_consistency_check h (ss_view s (ss_pos s) (ss_amount s n))) (\<lambda>_. Inr (ss_view s (ss_pos s) (ss_amount s n)))"
proof -
  let ?w = "ss_width s"
  have words: "(of_nat (ss_pos s) :: u64) * ot_blk_num (ss_type s) = of_nat (ss_pos s * ?w)"
    "of_nat ((ss_pos s + ss_amount s n) * ?w) = (of_nat (ss_pos s * ?w) + of_nat (ss_amount s n * ?w) :: u64)"
    by (simp_all add: ss_width_word add_mult_distrib)
  show ?thesis
    by (simp only: ss_slice_op_eq ss_view_def Let_def words(2))
      (simp only: distrib_right words(1) ss_scale_word [of n] add_diff_cancel_left')
qed

lemma ss_check_eq:
  assumes "ss_ok h s"
  shows "ss_consistency_check h (s\<lparr>ss_slice := sl\<rparr>) =
    rbind (slice_consistency_check sl) (\<lambda>_.
    rbind (blk_at h (ss_blk_buf s)) (\<lambda>blk. enforce (unat (internal_buf_size sl) \<le> length blk)))"
  by (simp add: ss_consistency_check_def)

lemma ss_increase:
  assumes "ss_ok h s"
  shows "increase_buf_ctr (ss_slice s) (n * ot_blk_num (ss_type s)) =
    (if ss_pos s + ss_amount s n \<le> ss_capacity s
     then Inr ((ss_slice s)\<lparr>internal_buf_ctr := internal_buf_ctr (ss_slice s) + n * ot_blk_num (ss_type s)\<rparr>)
     else Inl EnforceNotMet)"
proof -
  have "internal_buf_ctr (ss_slice s) \<le> internal_buf_size (ss_slice s)"
    using assms(1) by (auto simp: ss_ok_def)
  then show ?thesis
    using assms ss_pos_blocks [OF assms(1)] ss_capacity_blocks [OF assms(1)]
    by (simp add: increase_fits ss_scale flip: add_mult_distrib)
qed

lemma ss_view_words:
  assumes "ss_ok h s" "f + l \<le> ss_capacity s"
  shows "unat (of_nat (f * ss_width s) :: u64) = f * ss_width s"
    "unat (of_nat (l * ss_width s) :: u64) = l * ss_width s"
    "unat (of_nat ((f + l) * ss_width s) :: u64) = (f + l) * ss_width s"
proof -
  have "(f + l) * ss_width s \<le> unat (internal_buf_size (ss_slice s))"
    using assms ss_capacity_blocks [OF assms(1)] by simp
  moreover have "f * ss_width s \<le> (f + l) * ss_width s" "l * ss_width s \<le> (f + l) * ss_width s"
    by simp_all
  ultimately show "unat (of_nat (f * ss_width s) :: u64) = f * ss_width s"
    "unat (of_nat (l * ss_width s) :: u64) = l * ss_width s"
    "unat (of_nat ((f + l) * ss_width s) :: u64) = (f + l) * ss_width s"
    by (meson unat_of_nat_below order.trans)+
qed

lemma ss_next_slice_eq:
  assumes "ss_ok h s"
  shows "ss_next_slice h s n =
    rbind (ss_consistency_check h (ss_view s (ss_pos s) (ss_amount s n))) (\<lambda>_.
    if ss_pos s + ss_amount s n \<le> ss_capacity s then Inr (ss_view s (ss_pos s) (ss_amount s n), ss_advance s (ss_amount s n))
    else Inl EnforceNotMet)"
proof -
  have "s\<lparr>ss_slice := (ss_slice s)\<lparr>internal_buf_ctr := internal_buf_ctr (ss_slice s) + n * ot_blk_num (ss_type s)\<rparr>\<rparr> =
    ss_advance s (ss_amount s n)"
    by (simp add: ss_advance_def ss_scale_word)
  then show ?thesis
    using assms by (auto simp: ss_next_slice_def ss_from_eq ss_cut ss_increase Let_def rbind_def split: sum.splits)
qed

lemma ss_nxt_fits:
  assumes "ss_ok h s" "ss_amount s n \<noteq> 0" "ss_pos s + ss_amount s n \<le> ss_capacity s"
  shows "ss_next_slice h s n = Inr (ss_view s (ss_pos s) (ss_amount s n), ss_advance s (ss_amount s n))"
proof -
  have blocks: "(ss_pos s + ss_amount s n) * ss_width s \<le> unat (internal_buf_size (ss_slice s))"
    using assms(3) ss_capacity_blocks [OF assms(1)] by simp
  have "ss_consistency_check h (ss_view s (ss_pos s) (ss_amount s n)) = Inr ()"
    using assms blocks ss_view_words [OF assms(1,3)]
    by (auto simp: ss_view_def ss_check_eq slice_check_eq ss_ok_def blk_at_def result_simps enforce_def
        word_le_nat_alt word_less_nat_alt unat_eq_0 simp del: of_nat_mult of_nat_add of_nat_unat)
  then show ?thesis
    using assms by (simp add: ss_next_slice_eq)
qed

lemma ss_nxt_rejects:
  assumes "ss_ok h s" "ss_amount s n = 0 \<or> ss_capacity s < ss_pos s + ss_amount s n"
  shows "ss_next_slice h s n = Inl EnforceNotMet"
proof (cases "ss_amount s n = 0")
  case True
  then show ?thesis
    using assms by (simp add: ss_next_slice_eq ss_view_def ss_check_eq slice_check_eq)
next
  case False
  have "ss_consistency_check h (ss_view s (ss_pos s) (ss_amount s n)) \<in> {Inr (), Inl EnforceNotMet}"
    using assms(1)
    by (auto simp: ss_view_def ss_check_eq slice_check_eq ss_ok_def blk_at_def result_simps enforce_def split: if_splits)
  with False assms show ?thesis
    by (auto simp: ss_next_slice_eq)
qed

interpretation send_slices: ot_slicing "ss_ok h" ss_amount "ss_next_slice h" ss_pos ss_capacity ss_view ss_advance for h
proof
  fix s :: ot_send_store and k
  assume ok: "ss_ok h s" and le: "ss_pos s + k \<le> ss_capacity s"
  have "unat (internal_buf_ctr (ss_slice s)) + unat (of_nat (k * ss_width s) :: u64) = (ss_pos s + k) * ss_width s"
    using ss_view_words(2) [OF ok le] ss_pos_blocks [OF ok] by (simp add: add_mult_distrib del: of_nat_mult)
  moreover have "(ss_pos s + k) * ss_width s \<le> unat (internal_buf_size (ss_slice s))"
    using le ss_capacity_blocks [OF ok] by simp
  ultimately have ctr: "unat (internal_buf_ctr (ss_slice s) + of_nat (k * ss_width s)) = (ss_pos s + k) * ss_width s"
    and below: "internal_buf_ctr (ss_slice s) + of_nat (k * ss_width s) \<le> internal_buf_size (ss_slice s)"
    by (metis unat_plus_below, metis unat_plus_below word_le_nat_alt)
  have keep: "ss_width (ss_advance s k) = ss_width s"
    by (simp add: ss_width_def ss_advance_def)
  show "ss_ok h (ss_advance s k)" "ss_pos (ss_advance s k) = ss_pos s + k"
    using ok ctr below keep by (auto simp: ss_ok_def ss_advance_def ss_pos_def simp del: of_nat_mult)
qed (auto simp: ss_nxt_fits ss_nxt_rejects ss_advance_def ss_capacity_def ss_view_def ss_width_def ss_amount_def fun_eq_iff)

subsection \<open>Access through slices\<close>

lemma slice_from_mono: "k < k' \<Longrightarrow> k' < length ds \<Longrightarrow> slice_from ds k + ds ! k \<le> slice_from ds k'"
proof (induction k')
  case (Suc k')
  then have step: "slice_from ds (Suc k') = slice_from ds k' + ds ! k'"
    by (simp add: slice_from_def take_Suc_conv_app_nth)
  then show ?case
    using Suc by (cases "k = k'") auto
qed simp

lemma slice_from_end: "k < length ds \<Longrightarrow> slice_from ds k + ds ! k \<le> sum_list ds"
proof -
  assume "k < length ds"
  from arg_cong [OF id_take_nth_drop [OF this], where f = sum_list]
  show ?thesis
    by (simp add: slice_from_def)
qed

text \<open>No two of the ranges handed out overlap.\<close>

lemma slice_from_inj:
  assumes "k < length ds" "k' < length ds" "i < ds ! k" "j < ds ! k'"
    and "slice_from ds k + i = slice_from ds k' + j"
  shows "k = k' \<and> i = j"
  using assms slice_from_mono [of k k' ds] slice_from_mono [of k' k ds]
  by (cases k k' rule: linorder_cases) auto

definition rs_blocks :: "ot_heap \<Rightarrow> ot_recv_store \<Rightarrow> u128 list" where
  "rs_blocks h s = (case blk_at h (rs_blk_buf s) of Inr b \<Rightarrow> b | Inl _ \<Rightarrow> [])"

definition ss_blocks :: "ot_heap \<Rightarrow> ot_send_store \<Rightarrow> u128 list" where
  "ss_blocks h s = (case blk_at h (ss_blk_buf s) of Inr b \<Rightarrow> b | Inl _ \<Rightarrow> [])"

lemma rs_blocks_in: "rs_ok h s \<Longrightarrow> blk_at h (rs_blk_buf s) = Inr (rs_blocks h s) \<and> rs_capacity s \<le> length (rs_blocks h s)"
  by (auto simp: rs_ok_def rs_blocks_def blk_at_def rs_capacity_def result_simps)

lemma ss_blocks_in:
  assumes "ss_ok h s"
  shows "blk_at h (ss_blk_buf s) = Inr (ss_blocks h s) \<and> ss_capacity s * ss_width s \<le> length (ss_blocks h s)"
  unfolding ss_capacity_blocks [OF assms, symmetric]
  using assms by (auto simp: ss_ok_def ss_blocks_def blk_at_def result_simps)

lemma put_blk_at:
  "blk_at h p = Inr b \<Longrightarrow> \<exists>h'. put_blk h p b' = Inr h' \<and> blk_at h' p = Inr b' \<and> bit_bufs h' = bit_bufs h"
  by (auto simp: blk_at_def put_blk_def result_simps split: option.splits)

lemma rs_view_words:
  assumes "f + l \<le> rs_capacity s"
  shows "unat (of_nat f :: u64) = f" "unat (of_nat l :: u64) = l"
  using assms by (auto simp: rs_capacity_def intro!: unat_of_nat_below [of _ "internal_buf_size (rs_slice s)"])

lemma rs_view_idx:
  assumes "f + l \<le> rs_capacity s"
  shows "get_buf_idx (rs_slice (rs_view s f l)) i =
      (if unat i < l then Inr (of_nat f + i) else Inl EnforceNotMet)"
    and "unat i < l \<Longrightarrow> unat (of_nat f + i :: u64) = f + unat i"
proof -
  note words = rs_view_words [OF assms]
  show "get_buf_idx (rs_slice (rs_view s f l)) i = (if unat i < l then Inr (of_nat f + i) else Inl EnforceNotMet)"
    using words by (simp add: get_buf_idx_def rs_view_def enforce_def word_less_nat_alt)
  show "unat i < l \<Longrightarrow> unat (of_nat f + i :: u64) = f + unat i"
    using words assms by (subst unat_plus_below [of _ _ "internal_buf_size (rs_slice s)"]) (auto simp: rs_capacity_def)
qed

lemma rs_get_view:
  assumes "f + l \<le> rs_capacity s" "blk_at h (rs_blk_buf s) = Inr blk" "rs_capacity s \<le> length blk"
  shows "rs_get_block h (rs_view s f l) i = (if unat i < l then Inr (blk ! (f + unat i)) else Inl EnforceNotMet)"
proof -
  have "rs_blk_buf (rs_view s f l) = rs_blk_buf s" "internal_use_size (rs_slice (rs_view s f l)) = of_nat l"
    by (simp_all add: rs_view_def)
  then show ?thesis
    using assms rs_view_idx [OF assms(1), of i] rs_view_words(2) [OF assms(1)]
    by (auto simp: rs_get_block_def enforce_def word_less_nat_alt result_simps)
qed

lemma rs_set_view:
  assumes "f + l \<le> rs_capacity s" "blk_at h (rs_blk_buf s) = Inr blk" "rs_capacity s \<le> length blk" "unat i < l"
  obtains h' where "rs_set_block h (rs_view s f l) i v = Inr h'" "blk_at h' (rs_blk_buf s) = Inr (blk[f + unat i := v])"
proof -
  have buf: "rs_blk_buf (rs_view s f l) = rs_blk_buf s"
    by (simp add: rs_view_def)
  obtain h' where "put_blk h (rs_blk_buf s) (blk[f + unat i := v]) = Inr h'"
      "blk_at h' (rs_blk_buf s) = Inr (blk[f + unat i := v])"
    using put_blk_at [OF assms(2)] by blast
  then show thesis
    using assms rs_view_idx [OF assms(1), of i] buf
    by (intro that [of h']) (auto simp: rs_set_block_def result_simps)
qed

lemma ss_view_idx:
  assumes "ss_ok h s" "ss_type s = Normal" "f + l \<le> ss_capacity s" "unat i < l" "m = 0 \<or> m = 1"
  shows "get_buf_idx (ss_slice (ss_view s f l)) (i * 2 + m) = Inr (of_nat (f * 2) + (i * 2 + m))"
    and "unat (of_nat (f * 2) + (i * 2 + m) :: u64) = (f + unat i) * 2 + unat m"
    and "get_buf_idx (ss_slice (ss_view s f l)) (2 * i) = Inr (of_nat (f * 2) + 2 * i)"
    and "unat (of_nat (f * 2) + 2 * i + m :: u64) = (f + unat i) * 2 + unat m"
proof -
  have width: "ss_width s = 2"
    using assms(2) by (simp add: ss_width_def)
  note words = ss_view_words [OF assms(1,3), unfolded width]
  have cap: "(f + l) * 2 < 18446744073709551616"
    using words(3) unat_less_u64 [of "of_nat ((f + l) * 2)"] by linarith
  have two: "unat (i * 2) = unat i * 2"
    using cap assms(4) by (simp add: unat_word_ariths)
  have m: "unat m \<le> 1"
    using assms(5) by auto
  have idx: "unat (i * 2 + m) = unat i * 2 + unat m"
    using cap assms(4) m by (simp add: unat_plus_u64 two)
  show sum: "unat (of_nat (f * 2) + (i * 2 + m) :: u64) = (f + unat i) * 2 + unat m"
    using cap assms(4) m by (simp add: unat_plus_u64 [of "of_nat (f * 2)"] idx words(1) del: of_nat_mult)
  then show "unat (of_nat (f * 2) + 2 * i + m :: u64) = (f + unat i) * 2 + unat m"
    by (simp add: ac_simps)
  have "i * 2 + m < of_nat (l * 2)" "2 * i < of_nat (l * 2)"
    using assms(4) m idx two words(2) by (simp_all add: word_less_nat_alt mult.commute del: of_nat_mult)
  then show "get_buf_idx (ss_slice (ss_view s f l)) (i * 2 + m) = Inr (of_nat (f * 2) + (i * 2 + m))"
    "get_buf_idx (ss_slice (ss_view s f l)) (2 * i) = Inr (of_nat (f * 2) + 2 * i)"
    by (simp_all add: get_buf_idx_def ss_view_def enforce_def width)
qed

lemma ss_cell_in:
  fixes f l c n i m :: nat
  assumes "f + l \<le> c" "c * 2 \<le> n" "i < l" "m \<le> 1"
  shows "(f + i) * 2 + m < n"
proof -
  have "(f + i + 1) * 2 \<le> c * 2"
    using assms by simp
  with assms show ?thesis
    by simp
qed

lemma ss_get_view:
  assumes "ss_ok h s" "ss_type s = Normal" "ss_delta s = 0" "f + l \<le> ss_capacity s" "unat i < l" "m = 0 \<or> m = 1"
    and "blk_at h' (ss_blk_buf s) = Inr blk" "ss_capacity s * 2 \<le> length blk"
  shows "ss_get_block h' (ss_view s f l) i m = Inr (blk ! ((f + unat i) * 2 + unat m))"
proof -
  have "unat m \<le> 1"
    using assms(6) by auto
  then have "(f + unat i) * 2 + unat m < length blk"
    using assms by (intro ss_cell_in) auto
  moreover have "ss_blk_buf (ss_view s f l) = ss_blk_buf s" "ss_delta (ss_view s f l) = 0"
    using assms(3) by (simp_all add: ss_view_def)
  ultimately show ?thesis
    using assms(6,7) ss_view_idx(3,4) [OF assms(1,2,4,5,6)]
    by (simp add: ss_get_block_def enforce_def at_idx_def)
qed

lemma ss_set_view:
  assumes "ss_ok h s" "ss_type s = Normal" "f + l \<le> ss_capacity s" "unat i < l" "m = 0 \<or> m = 1"
  obtains h' where "ss_set_normal_block h (ss_view s f l) i m v = Inr h'"
    "blk_at h' (ss_blk_buf s) = Inr ((ss_blocks h s)[(f + unat i) * 2 + unat m := v])"
proof -
  have buf: "blk_at h (ss_blk_buf s) = Inr (ss_blocks h s)" "ss_capacity s * 2 \<le> length (ss_blocks h s)"
    using ss_blocks_in [OF assms(1)] assms(2) by (auto simp: ss_width_def)
  have "unat m \<le> 1"
    using assms(5) by auto
  then have pos: "(f + unat i) * 2 + unat m < length (ss_blocks h s)"
    using assms buf(2) by (intro ss_cell_in) auto
  obtain h' where put: "put_blk h (ss_blk_buf s) ((ss_blocks h s)[(f + unat i) * 2 + unat m := v]) = Inr h'"
      "blk_at h' (ss_blk_buf s) = Inr ((ss_blocks h s)[(f + unat i) * 2 + unat m := v])"
    using put_blk_at [OF buf(1)] by blast
  have "ss_blk_buf (ss_view s f l) = ss_blk_buf s" "ss_type (ss_view s f l) = Normal"
    using assms(2) by (simp_all add: ss_view_def)
  then show thesis
    using put pos assms(5) buf(1) ss_view_idx(1,2) [OF assms]
    by (intro that [of h']) (auto simp: ss_set_normal_block_def enforce_def set_idx_def)
qed

subsection \<open>Slices share no transfer\<close>

text \<open>The \<open>k\<close>-th of the slices handed out, and that it lies in the buffer.\<close>

text \<open>Slices of \<open>ds\<close> transfers share none: a block written through slice \<open>k\<close> at place \<open>i\<close> is read back there, and every other
  place of every slice reads what it read before.\<close>

definition recv_disjoint :: "ot_heap \<Rightarrow> ot_recv_store list \<Rightarrow> nat list \<Rightarrow> bool" where
  "recv_disjoint h outs ds \<longleftrightarrow> length outs = length ds \<and>
     (\<forall>k<length ds. \<forall>i v. unat i < ds ! k \<longrightarrow> (\<exists>h'. rs_set_block h (outs ! k) i v = Inr h' \<and>
       (\<forall>k'<length ds. \<forall>j. unat j < ds ! k' \<longrightarrow> rs_get_block h' (outs ! k') j =
          (if k' = k \<and> j = i then Inr v else rs_get_block h (outs ! k') j))))"

text \<open>The same for the two messages of a transfer in a normal store without a delta.\<close>

definition send_disjoint :: "ot_heap \<Rightarrow> ot_send_store list \<Rightarrow> nat list \<Rightarrow> bool" where
  "send_disjoint h outs ds \<longleftrightarrow> length outs = length ds \<and>
     (\<forall>k<length ds. \<forall>i v. \<forall>m\<in>{0, 1}. unat i < ds ! k \<longrightarrow> (\<exists>h'. ss_set_normal_block h (outs ! k) i m v = Inr h' \<and>
       (\<forall>k'<length ds. \<forall>j. \<forall>m'\<in>{0, 1}. unat j < ds ! k' \<longrightarrow> ss_get_block h' (outs ! k') j m' =
          (if k' = k \<and> j = i \<and> m' = m then Inr v else ss_get_block h (outs ! k') j m'))))"

text \<open>With a delta only the first block of a transfer is read: its second message is the first plus the delta.\<close>

definition ss_set_first :: "ot_heap \<Rightarrow> ot_send_store \<Rightarrow> u64 \<Rightarrow> u128 \<Rightarrow> ot_heap result" where
  "ss_set_first h s i v =
     (case ss_type s of Compact \<Rightarrow> ss_set_compact_block h s i v | Normal \<Rightarrow> ss_set_normal_block h s i 0 v)"

definition delta_disjoint :: "u128 \<Rightarrow> ot_heap \<Rightarrow> ot_send_store list \<Rightarrow> nat list \<Rightarrow> bool" where
  "delta_disjoint delta h outs ds \<longleftrightarrow> length outs = length ds \<and>
     (\<forall>k<length ds. \<forall>i v. unat i < ds ! k \<longrightarrow> (\<exists>h'. ss_set_first h (outs ! k) i v = Inr h' \<and>
       (\<forall>k'<length ds. \<forall>j. \<forall>m'\<in>{0, 1}. unat j < ds ! k' \<longrightarrow> ss_get_block h' (outs ! k') j m' =
          (if k' = k \<and> j = i then Inr (if m' = 0 then v else v XOR delta) else ss_get_block h (outs ! k') j m'))))"

lemma rs_slices_frame:
  assumes ok: "rs_ok h s" and fits: "rs_pos s + sum_list ds \<le> rs_capacity s"
    and k: "k < length ds" and i: "unat i < ds ! k"
    and outs: "outs = map (\<lambda>k. rs_view s (rs_pos s + slice_from ds k) (ds ! k)) [0..<length ds]"
  shows "\<exists>h'. rs_set_block h (outs ! k) i v = Inr h' \<and>
    (\<forall>k'<length ds. \<forall>j. unat j < ds ! k' \<longrightarrow> rs_get_block h' (outs ! k') j =
       (if k' = k \<and> j = i then Inr v else rs_get_block h (outs ! k') j))"
proof -
  let ?f = "\<lambda>k. rs_pos s + slice_from ds k"
  have inside: "?f k' + ds ! k' \<le> rs_capacity s" if "k' < length ds" for k'
    using slice_from_end [OF that] fits by simp
  note buf = rs_blocks_in [OF ok]
  obtain h' where h': "rs_set_block h (rs_view s (?f k) (ds ! k)) i v = Inr h'"
      "blk_at h' (rs_blk_buf s) = Inr ((rs_blocks h s)[?f k + unat i := v])"
    using rs_set_view [OF inside [OF k] _ _ , of h "rs_blocks h s" i v] buf i by auto
  have "rs_get_block h' (outs ! k') j =
      (if k' = k \<and> j = i then Inr v else rs_get_block h (outs ! k') j)"
    if k': "k' < length ds" and j: "unat j < ds ! k'" for k' j
  proof -
    have "?f k' + unat j = ?f k + unat i \<longleftrightarrow> k' = k \<and> j = i"
      using slice_from_inj [OF k' k j i] by (auto simp: word_unat_eq_iff)
    moreover have "?f k + unat i < length (rs_blocks h s)"
      using inside [OF k] buf i by simp
    ultimately show ?thesis
      using rs_get_view [OF inside [OF k'] h'(2), of j] rs_get_view [OF inside [OF k'], of h "rs_blocks h s" j] buf j k k'
      by (auto simp: nth_list_update outs)
  qed
  moreover have "outs ! k = rs_view s (?f k) (ds ! k)"
    using k by (simp add: outs)
  ultimately show ?thesis
    using h'(1) by (intro exI [of _ h']) auto
qed

lemma ss_slices_frame:
  assumes ok: "ss_ok h s" "ss_type s = Normal" "ss_delta s = 0"
    and fits: "ss_pos s + sum_list ds \<le> ss_capacity s"
    and k: "k < length ds" and i: "unat i < ds ! k" and m: "m = 0 \<or> m = 1"
    and outs: "outs = map (\<lambda>k. ss_view s (ss_pos s + slice_from ds k) (ds ! k)) [0..<length ds]"
  shows "\<exists>h'. ss_set_normal_block h (outs ! k) i m v = Inr h' \<and>
    (\<forall>k'<length ds. \<forall>j. unat j < ds ! k' \<longrightarrow> (\<forall>m'\<in>{0, 1}. ss_get_block h' (outs ! k') j m' =
       (if k' = k \<and> j = i \<and> m' = m then Inr v
        else ss_get_block h (outs ! k') j m')))"
proof -
  let ?f = "\<lambda>k. ss_pos s + slice_from ds k"
  let ?c = "\<lambda>k i m. (?f k + unat (i :: u64)) * 2 + unat (m :: u64)"
  have inside: "?f k' + ds ! k' \<le> ss_capacity s" if "k' < length ds" for k'
    using slice_from_end [OF that] fits by simp
  have buf: "blk_at h (ss_blk_buf s) = Inr (ss_blocks h s)" "ss_capacity s * 2 \<le> length (ss_blocks h s)"
    using ss_blocks_in [OF ok(1)] ok(2) by (auto simp: ss_width_def)
  obtain h' where h': "ss_set_normal_block h (ss_view s (?f k) (ds ! k)) i m v = Inr h'"
      "blk_at h' (ss_blk_buf s) = Inr ((ss_blocks h s)[?c k i m := v])"
    by (rule ss_set_view [OF ok(1,2) inside [OF k] i m])
  have "ss_get_block h' (outs ! k') j m' =
      (if k' = k \<and> j = i \<and> m' = m then Inr v else ss_get_block h (outs ! k') j m')"
    if k': "k' < length ds" and j: "unat j < ds ! k'" and m': "m' = 0 \<or> m' = 1" for k' j m'
  proof -
    have bit: "unat m \<le> 1" "unat m' \<le> 1"
      using m m' by auto
    have "?c k' j m' = ?c k i m \<longleftrightarrow> ?f k' + unat j = ?f k + unat i \<and> unat m' = unat m"
      using bit by presburger
    also have "\<dots> \<longleftrightarrow> k' = k \<and> j = i \<and> m' = m"
      using slice_from_inj [OF k' k j i] by (auto simp: word_unat_eq_iff)
    finally have same: "?c k' j m' = ?c k i m \<longleftrightarrow> k' = k \<and> j = i \<and> m' = m" .
    have "?c k i m < length (ss_blocks h s)"
      by (rule ss_cell_in [OF inside [OF k] buf(2) i bit(1)])
    with same show ?thesis
      using ss_get_view [OF ok inside [OF k'] j m' h'(2)] ss_get_view [OF ok inside [OF k'] j m' buf] buf(2) k k'
      by (auto simp: nth_list_update outs)
  qed
  moreover have "outs ! k = ss_view s (?f k) (ds ! k)"
    using k by (simp add: outs)
  ultimately show ?thesis
    using h'(1) by (intro exI [of _ h']) auto
qed

lemma ss_first_idx:
  assumes "ss_ok h s" "f + l \<le> ss_capacity s" "unat i < l"
  obtains idx where "get_buf_idx (ss_slice (ss_view s f l)) (ot_blk_num (ss_type s) * i) = Inr idx"
    "unat idx = (f + unat i) * ss_width s"
proof (cases "ss_type s")
  case Normal
  then show thesis
    using that ss_view_idx(3,4) [OF assms(1) Normal assms(2,3), of 0] by (simp add: ot_blk_num_def ss_width_def)
next
  case Compact
  then have w: "ss_width s = 1" "ot_blk_num (ss_type s) = 1"
    by (simp_all add: ss_width_def ot_blk_num_def)
  note words = ss_view_words [OF assms(1,2), unfolded w mult_1_right]
  have "unat (of_nat f + i :: u64) = f + unat i"
    using words(1,3) unat_less_u64 [of "of_nat (f + l)"] assms(3) by (simp add: unat_plus_u64)
  moreover have "i < of_nat l"
    using words(2) assms(3) by (simp add: word_less_nat_alt)
  ultimately show thesis
    using w by (intro that [of "of_nat f + i"]) (simp_all add: get_buf_idx_def ss_view_def enforce_def)
qed

lemma ss_get_first:
  assumes "ss_ok h s" "ss_delta s \<noteq> 0" "f + l \<le> ss_capacity s" "unat i < l" "m = 0 \<or> m = 1"
    and "blk_at h' (ss_blk_buf s) = Inr blk" "ss_capacity s * ss_width s \<le> length blk"
  shows "ss_get_block h' (ss_view s f l) i m =
    Inr (if m = 0 then blk ! ((f + unat i) * ss_width s) else blk ! ((f + unat i) * ss_width s) XOR ss_delta s)"
proof -
  obtain idx where idx: "get_buf_idx (ss_slice (ss_view s f l)) (ot_blk_num (ss_type s) * i) = Inr idx"
      "unat idx = (f + unat i) * ss_width s"
    by (rule ss_first_idx [OF assms(1,3,4)])
  have "(f + unat i) * ss_width s < ss_capacity s * ss_width s"
    using assms(3,4) by simp
  then have "unat idx < length blk"
    using assms(7) idx(2) by linarith
  moreover have "ss_blk_buf (ss_view s f l) = ss_blk_buf s" "ss_delta (ss_view s f l) = ss_delta s" "ss_type (ss_view s f l) = ss_type s"
    by (simp_all add: ss_view_def)
  ultimately show ?thesis
    using assms(2,5,6) idx by (auto simp: ss_get_block_def enforce_def at_idx_def)
qed

lemma ss_put_first:
  assumes "ss_ok h s" "f + l \<le> ss_capacity s" "unat i < l"
  obtains h' where "ss_set_first h (ss_view s f l) i v = Inr h'"
    "blk_at h' (ss_blk_buf s) = Inr ((ss_blocks h s)[(f + unat i) * ss_width s := v])"
proof (cases "ss_type s")
  case Normal
  obtain h' where "ss_set_normal_block h (ss_view s f l) i 0 v = Inr h'"
      "blk_at h' (ss_blk_buf s) = Inr ((ss_blocks h s)[(f + unat i) * 2 + unat (0 :: u64) := v])"
    using ss_set_view [OF assms(1) Normal assms(2,3), of 0 v] by blast
  then show thesis
    using that [of h'] Normal by (simp add: ss_set_first_def ss_view_def ss_width_def)
next
  case Compact
  obtain idx where idx: "get_buf_idx (ss_slice (ss_view s f l)) i = Inr idx" "unat idx = (f + unat i) * ss_width s"
    using ss_first_idx [OF assms] Compact by (auto simp: ot_blk_num_def)
  have "(f + unat i) * ss_width s < ss_capacity s * ss_width s"
    using assms(2,3) by simp
  then have "unat idx < length (ss_blocks h s)"
    using ss_blocks_in [OF assms(1)] idx(2) by linarith
  moreover obtain h' where "put_blk h (ss_blk_buf s) ((ss_blocks h s)[unat idx := v]) = Inr h'"
      "blk_at h' (ss_blk_buf s) = Inr ((ss_blocks h s)[unat idx := v])"
    using put_blk_at ss_blocks_in [OF assms(1)] by blast
  moreover have "ss_blk_buf (ss_view s f l) = ss_blk_buf s" "ss_type (ss_view s f l) = Compact"
    using Compact by (simp_all add: ss_view_def)
  ultimately show thesis
    using that [of h'] idx ss_blocks_in [OF assms(1)]
    by (simp add: ss_set_first_def ss_set_compact_block_def enforce_def set_idx_def)
qed

lemma ss_delta_frame:
  assumes ok: "ss_ok h s" "ss_delta s \<noteq> 0"
    and fits: "ss_pos s + sum_list ds \<le> ss_capacity s"
    and k: "k < length ds" and i: "unat i < ds ! k"
    and outs: "outs = map (\<lambda>k. ss_view s (ss_pos s + slice_from ds k) (ds ! k)) [0..<length ds]"
  shows "\<exists>h'. ss_set_first h (outs ! k) i v = Inr h' \<and>
    (\<forall>k'<length ds. \<forall>j. \<forall>m'\<in>{0, 1}. unat j < ds ! k' \<longrightarrow> ss_get_block h' (outs ! k') j m' =
       (if k' = k \<and> j = i then Inr (if m' = 0 then v else v XOR ss_delta s) else ss_get_block h (outs ! k') j m'))"
proof -
  let ?f = "\<lambda>k. ss_pos s + slice_from ds k"
  let ?c = "\<lambda>k i. (?f k + unat (i :: u64)) * ss_width s"
  have inside: "?f k' + ds ! k' \<le> ss_capacity s" if "k' < length ds" for k'
    using slice_from_end [OF that] fits by simp
  note buf = ss_blocks_in [OF ok(1)]
  obtain h' where h': "ss_set_first h (ss_view s (?f k) (ds ! k)) i v = Inr h'"
      "blk_at h' (ss_blk_buf s) = Inr ((ss_blocks h s)[?c k i := v])"
    by (rule ss_put_first [OF ok(1) inside [OF k] i])
  have "?c k i < ss_capacity s * ss_width s"
    using inside [OF k] i by simp
  then have cell: "?c k i < length (ss_blocks h s)"
    using buf by linarith
  have "ss_get_block h' (outs ! k') j m' =
      (if k' = k \<and> j = i then Inr (if m' = 0 then v else v XOR ss_delta s) else ss_get_block h (outs ! k') j m')"
    if k': "k' < length ds" and j: "unat j < ds ! k'" and m': "m' = 0 \<or> m' = 1" for k' j m'
  proof -
    have "?c k' j = ?c k i \<longleftrightarrow> k' = k \<and> j = i"
      using slice_from_inj [OF k' k j i] ss_width_cases [of s] by (auto simp: word_unat_eq_iff)
    with cell show ?thesis
      using ss_get_first [OF ok inside [OF k'] j m' h'(2)] ss_get_first [OF ok inside [OF k'] j m' conjunct1 [OF buf]] buf k k'
      by (auto simp: nth_list_update outs)
  qed
  moreover have "outs ! k = ss_view s (?f k) (ds ! k)"
    using k by (simp add: outs)
  ultimately show ?thesis
    using h'(1) by (intro exI [of _ h']) auto
qed

lemma rs_pos_le: "rs_ok h s \<Longrightarrow> rs_pos s \<le> rs_capacity s"
  by (auto simp: rs_ok_def rs_pos_def rs_capacity_def word_le_nat_alt)

lemma ss_pos_le: "ss_ok h s \<Longrightarrow> ss_pos s \<le> ss_capacity s"
  by (auto simp: ss_ok_def ss_pos_def ss_capacity_def word_le_nat_alt intro: div_le_mono)

text \<open>Runs of \<open>NextSlice\<close>.\<close>

lemma recv_slices_run:
  fixes ns :: "u64 list"
  assumes "rs_ok h r"
  defines "ds \<equiv> map unat ns"
  shows "if 0 \<notin> set ds \<and> rs_pos r + sum_list ds \<le> rs_capacity r
    then \<exists>outs r'. next_slices (rs_next_slice h) r ns = Inr (outs, r') \<and> rs_pos r' = rs_pos r + sum_list ds \<and> recv_disjoint h outs ds
    else next_slices (rs_next_slice h) r ns = Inl EnforceNotMet"
proof (cases "0 \<notin> set ds \<and> rs_pos r + sum_list ds \<le> rs_capacity r")
  case True
  then obtain r' where run: "next_slices (rs_next_slice h) r ns =
      Inr (map (\<lambda>k. rs_view r (rs_pos r + slice_from ds k) (unat (ns ! k))) [0..<length ns], r')"
      "rs_pos r' = rs_pos r + sum_list ds"
    using recv_slices.slices_fit [OF assms(1), of ns] unfolding ds_def by blast
  let ?outs = "map (\<lambda>k. rs_view r (rs_pos r + slice_from ds k) (ds ! k)) [0..<length ds]"
  have "map (\<lambda>k. rs_view r (rs_pos r + slice_from ds k) (unat (ns ! k))) [0..<length ns] = ?outs"
    by (simp add: ds_def)
  moreover have "recv_disjoint h ?outs ds"
    using rs_slices_frame [OF assms(1) conjunct2 [OF True] _ _ refl] by (simp add: recv_disjoint_def del: map_map)
  ultimately show ?thesis
    using True run by auto
next
  case False
  then show ?thesis
    using recv_slices.slices_reject [OF assms(1) rs_pos_le [OF assms(1)], of ns] unfolding ds_def by auto
qed

lemma send_slices_run:
  fixes ns :: "u64 list"
  assumes "ss_ok h s"
  defines "ds \<equiv> map (ss_amount s) ns"
  shows "if 0 \<notin> set ds \<and> ss_pos s + sum_list ds \<le> ss_capacity s
    then \<exists>outs s'. next_slices (ss_next_slice h) s ns = Inr (outs, s') \<and> ss_pos s' = ss_pos s + sum_list ds \<and>
      (ss_type s = Normal \<and> ss_delta s = 0 \<longrightarrow> send_disjoint h outs ds) \<and>
      (ss_delta s \<noteq> 0 \<longrightarrow> delta_disjoint (ss_delta s) h outs ds)
    else next_slices (ss_next_slice h) s ns = Inl EnforceNotMet"
proof (cases "0 \<notin> set ds \<and> ss_pos s + sum_list ds \<le> ss_capacity s")
  case True
  then obtain s' where run: "next_slices (ss_next_slice h) s ns =
      Inr (map (\<lambda>k. ss_view s (ss_pos s + slice_from ds k) (ss_amount s (ns ! k))) [0..<length ns], s')"
      "ss_pos s' = ss_pos s + sum_list ds"
    using send_slices.slices_fit [OF assms(1), of ns] unfolding ds_def by blast
  let ?outs = "map (\<lambda>k. ss_view s (ss_pos s + slice_from ds k) (ds ! k)) [0..<length ds]"
  have "map (\<lambda>k. ss_view s (ss_pos s + slice_from ds k) (ss_amount s (ns ! k))) [0..<length ns] = ?outs"
    by (simp add: ds_def)
  moreover have "send_disjoint h ?outs ds" if "ss_type s = Normal" "ss_delta s = 0"
    using ss_slices_frame [OF assms(1) that conjunct2 [OF True] _ _ _ refl] by (simp add: send_disjoint_def del: map_map)
  moreover have "delta_disjoint (ss_delta s) h ?outs ds" if "ss_delta s \<noteq> 0"
    using ss_delta_frame [OF assms(1) that conjunct2 [OF True] _ _ refl] by (simp add: delta_disjoint_def del: map_map)
  ultimately show ?thesis
    using True run by auto
next
  case False
  then show ?thesis
    using send_slices.slices_reject [OF assms(1) ss_pos_le [OF assms(1)], of ns] unfolding ds_def by auto
qed

text \<open>Fresh stores are well formed, and hold as many transfers as were asked for.\<close>

lemma new_recv_store_ok:
  assumes "0 < num"
  shows "returns (new_recv_store h num type) (\<lambda>(s, h'). rs_ok h' s \<and> rs_type s = type \<and> rs_pos s = 0 \<and> rs_capacity s = unat num)"
proof -
  let ?z = "\<lparr>m_blocks = replicate (blocks_required LENGTH(128) (unat num)) (0 :: u128), m_bits_number = unat num\<rparr>"
  have "repr ?z (replicate (unat num) False)"
    by (rule repr_zeros)
  moreover have "bitset_init (unat num) 0 = Inr ?z"
    by (simp add: bitset_init_def Let_def zero_block_def)
  ultimately show ?thesis
    using assms
    by (cases type) (auto simp: new_recv_store_def make_recv_store_def init_ctrs_def rs_consistency_check_def slice_check_eq
        new_bit_def new_blk_def blk_at_def bit_at_def at_idx_def enforce_def size_bits_def rs_ok_def rs_pos_def rs_capacity_def
        Let_def returns_def)
qed

lemma new_send_store_ok:
  assumes "0 < num" "unat num * 2 < 18446744073709551616"
  shows "returns (new_send_store h num type) (\<lambda>(s, h'). ss_ok h' s \<and> ss_type s = type \<and> ss_pos s = 0 \<and> ss_capacity s = unat num)"
proof -
  have "unat (num * 2) = unat num * 2"
    using assms(2) by (simp add: unat_word_ariths)
  moreover from this have "0 < num * 2"
    using assms(1) by (simp add: word_less_nat_alt)
  ultimately show ?thesis
    using assms
    by (cases type) (auto simp: new_send_store_def make_send_store_def init_ctrs_def ss_consistency_check_def slice_check_eq
        new_blk_def blk_at_def at_idx_def enforce_def ss_ok_def ss_pos_def ss_capacity_def ss_width_def Let_def returns_def)
qed

text \<open>Clearing the counters never passes the check of them: \<open>Reset\<close> and \<open>StealBlkBuf\<close> end in an error.\<close>

lemma reset_throws:
  "fst (rs_reset h r) = Inl EnforceNotMet" "fst (ss_reset h s) = Inl EnforceNotMet"
  "fst (rs_steal_blk_buf c h r) = Inl EnforceNotMet" "fst (ss_steal_blk_buf c h s) = Inl EnforceNotMet"
  by (simp_all add: rs_reset_def ss_reset_def rs_steal_blk_buf_def ss_steal_blk_buf_def slice_reset_def
      rs_consistency_check_def ss_consistency_check_def slice_check_eq Let_def)

text \<open>C15: \<open>NextSlice\<close> of the two stores, called with any sizes one after the other. When no size is zero and the
  sizes fit in what is left of the store, every call returns, and a block written through one of the slices is
  read back through that slice at that place and changes no other transfer of any slice, although all
  slices share one buffer. Otherwise some call ends in an error. For the sender this is shown for normal stores without a
  delta, message by message, and for stores of both types with a delta, where the second message is the first plus the
  delta. A normal sender's store counts two blocks for a transfer in 64 bits: it takes each size modulo \<open>2 ^ 63\<close>.\<close>

theorem ot_slices_disjoint:
  assumes "rs_ok h r" "ss_ok h s"
  shows "(let ds = map unat ns in
      if 0 \<notin> set ds \<and> rs_pos r + sum_list ds \<le> rs_capacity r
      then \<exists>outs r'. next_slices (rs_next_slice h) r ns = Inr (outs, r') \<and> rs_pos r' = rs_pos r + sum_list ds \<and>
        recv_disjoint h outs ds
      else next_slices (rs_next_slice h) r ns = Inl EnforceNotMet) \<and>
    (let ds = map (\<lambda>n. if ss_type s = Compact then unat n else unat n mod 2 ^ 63) ns in
      if 0 \<notin> set ds \<and> ss_pos s + sum_list ds \<le> ss_capacity s
      then \<exists>outs s'. next_slices (ss_next_slice h) s ns = Inr (outs, s') \<and> ss_pos s' = ss_pos s + sum_list ds \<and>
        (ss_type s = Normal \<and> ss_delta s = 0 \<longrightarrow> send_disjoint h outs ds) \<and>
        (ss_delta s \<noteq> 0 \<longrightarrow> delta_disjoint (ss_delta s) h outs ds)
      else next_slices (ss_next_slice h) s ns = Inl EnforceNotMet)"
  using recv_slices_run [OF assms(1), of ns] send_slices_run [OF assms(2), of ns]
  unfolding Let_def ss_amount_eq [abs_def] by (rule conjI)

theorem ot_slices_disjoint_witness:
  "\<exists>h r s outs r' souts s'. rs_ok h r \<and> ss_ok h s \<and> ss_type s = Normal \<and> ss_delta s = 0 \<and>
     next_slices (rs_next_slice h) r [2, 3] = Inr (outs, r') \<and> recv_disjoint h outs [2, 3] \<and>
     next_slices (ss_next_slice h) s [2, 3] = Inr (souts, s') \<and> send_disjoint h souts [2, 3]"
proof -
  let ?z = "\<lparr>m_blocks = replicate (blocks_required LENGTH(128) 5) (0 :: u128), m_bits_number = 5\<rparr>"
  let ?h = "\<lparr>blk_bufs = [replicate 5 0, replicate 10 7], bit_bufs = [?z]\<rparr>"
  let ?r = "\<lparr>rs_slice = \<lparr>internal_use_ctr = 0, internal_use_size = 5, internal_buf_ctr = 0, internal_buf_size = 5\<rparr>,
     rs_type = Normal, rs_bit_buf = Some 0, rs_blk_buf = Some 0\<rparr>"
  let ?s = "\<lparr>ss_slice = \<lparr>internal_use_ctr = 0, internal_use_size = 10, internal_buf_ctr = 0, internal_buf_size = 10\<rparr>,
     ss_type = Normal, ss_delta = 0, ss_blk_buf = Some (Suc 0)\<rparr>"
  have r: "rs_ok ?h ?r"
    using repr_zeros [where 'a = 128, of 5] by (auto simp: rs_ok_def at_idx_def)
  have s: "ss_ok ?h ?s" "ss_type ?s = Normal" "ss_delta ?s = 0"
    by (auto simp: ss_ok_def at_idx_def ss_width_def)
  have sizes: "rs_pos ?r = 0" "rs_capacity ?r = 5" "ss_pos ?s = 0" "ss_capacity ?s = 5"
    by (simp_all add: rs_pos_def rs_capacity_def ss_pos_def ss_capacity_def ss_width_def)
  note run = ot_slices_disjoint [OF r s(1), of "[2, 3]"]
  have "\<exists>outs r'. next_slices (rs_next_slice ?h) ?r [2, 3] = Inr (outs, r') \<and> recv_disjoint ?h outs [2, 3]"
    using conjunct1 [OF run] by (auto simp: sizes simp del: next_slices.simps)
  moreover have "\<exists>outs s'. next_slices (ss_next_slice ?h) ?s [2, 3] = Inr (outs, s') \<and> send_disjoint ?h outs [2, 3]"
    using conjunct2 [OF run] by (auto simp: sizes simp del: next_slices.simps)
  ultimately show ?thesis
    using r s by blast
qed

end
