(* ===== verification/Matrix_Transpose.thy ===== *)
theory Matrix_Transpose
  imports Prelude
begin

text \<open>
  \<open>utils/matrix_utils.h\<close> and \<open>matrix_utils.cc\<close>: the transpositions of 128 by 128 bit matrices and of
  matrices of 128 by 1024 bits, block column by block column. A row is a 128-bit word, column 0 its
  least significant bit. The vector instructions are written out on words, as the compiler's
  documentation has them. The variant for AVX, compiled only with \<open>YACL_ENABLE_BMI2\<close>, is left out.
\<close>

definition get_bit :: "u128 \<Rightarrow> nat \<Rightarrow> u128" where
  "get_bit i pos = drop_bit pos i AND 1"

definition naive_transpose :: "u128 list \<Rightarrow> u128 list" where
  "naive_transpose m = map (\<lambda>i. fold (\<lambda>j t. t OR push_bit j (get_bit (m ! j) i)) [0..<128] 0) [0..<128]"

subsection \<open>Eklundh's method\<close>

definition make_uint128 :: "u64 \<Rightarrow> u64 \<Rightarrow> u128" where
  "make_uint128 high low = push_bit 64 (ucast high) OR ucast low"

definition trans_mask :: "u128 list" where
  "trans_mask =
     [make_uint128 0x0000000000000000 0xffffffffffffffff,
      make_uint128 0x00000000ffffffff 0x00000000ffffffff,
      make_uint128 0x0000ffff0000ffff 0x0000ffff0000ffff,
      make_uint128 0x00ff00ff00ff00ff 0x00ff00ff00ff00ff,
      make_uint128 0x0f0f0f0f0f0f0f0f 0x0f0f0f0f0f0f0f0f,
      make_uint128 0x3333333333333333 0x3333333333333333,
      make_uint128 0x5555555555555555 0x5555555555555555]"

definition trans_mask_inv :: "u128 list" where
  "trans_mask_inv =
     [make_uint128 0xffffffffffffffff 0x0000000000000000,
      make_uint128 0xffffffff00000000 0xffffffff00000000,
      make_uint128 0xffff0000ffff0000 0xffff0000ffff0000,
      make_uint128 0xff00ff00ff00ff00 0xff00ff00ff00ff00,
      make_uint128 0xf0f0f0f0f0f0f0f0 0xf0f0f0f0f0f0f0f0,
      make_uint128 0xcccccccccccccccc 0xcccccccccccccccc,
      make_uint128 0xaaaaaaaaaaaaaaaa 0xaaaaaaaaaaaaaaaa]"

definition eklundh_swap :: "nat \<Rightarrow> u128 \<Rightarrow> u128 \<Rightarrow> nat \<Rightarrow> nat \<Rightarrow> u128 list \<Rightarrow> u128 list" where
  "eklundh_swap width mask_w inv_mask i1 i2 m =
     (let t = m ! i1; tt = m ! i2 in
      m[i1 := (t AND mask_w) XOR push_bit width (tt AND mask_w),
        i2 := (tt AND inv_mask) XOR drop_bit width (t AND inv_mask)])"

definition eklundh_round :: "nat \<Rightarrow> u128 list \<times> nat \<times> nat \<Rightarrow> u128 list \<times> nat \<times> nat" where
  "eklundh_round i = (\<lambda>(m, width, nswaps).
     (fold (\<lambda>j. fold (\<lambda>k.
        eklundh_swap width (trans_mask ! i) (trans_mask_inv ! i) (k + 2 * width * j) (k + width + 2 * width * j))
        [0..<width]) [0..<nswaps] m,
      width div 2, nswaps * 2))"

definition eklundh_transpose128 :: "u128 list \<Rightarrow> u128 list" where
  "eklundh_transpose128 m = fst (fold eklundh_round [0..<7] (m, 64, 1))"

subsection \<open>Vector instructions\<close>

text \<open>The bytes and the 16-bit parts of a block.\<close>

definition get_byte :: "u128 \<Rightarrow> nat \<Rightarrow> u8" where
  "get_byte w k = ucast (drop_bit (8 * k) w)"

definition of_bytes :: "u8 list \<Rightarrow> u128" where
  "of_bytes bs = foldr (\<lambda>b w. ucast b OR push_bit 8 w) bs 0"

definition set_u16 :: "nat \<Rightarrow> u128 \<Rightarrow> u128 \<Rightarrow> u128" where
  "set_u16 y v w = (w AND NOT (push_bit (16 * y) (mask 16))) OR push_bit (16 * y) (take_bit 16 v)"

text \<open>\<open>_mm_slli_epi64\<close> and \<open>_mm_movemask_epi8\<close>.\<close>

definition slli_epi64 :: "nat \<Rightarrow> u128 \<Rightarrow> u128" where
  "slli_epi64 n w = make_uint128 (push_bit n (ucast (drop_bit 64 w))) (push_bit n (ucast w))"

definition movemask_epi8 :: "u128 \<Rightarrow> u128" where
  "movemask_epi8 w = fold (\<lambda>l t. t OR push_bit l (get_bit w (8 * l + 7))) [0..<16] 0"

subsection \<open>Squares of 16 by 16 bits\<close>

definition sse_load_sub_square :: "u128 list \<Rightarrow> nat \<Rightarrow> nat \<Rightarrow> u128 \<times> u128" where
  "sse_load_sub_square m x y =
     (of_bytes (map (\<lambda>l. get_byte (m ! (16 * x + l)) (2 * y)) [0..<16]),
      of_bytes (map (\<lambda>l. get_byte (m ! (16 * x + l)) (2 * y + 1)) [0..<16]))"

definition sse_transpose_sub_square :: "u128 list \<Rightarrow> u128 \<times> u128 \<Rightarrow> nat \<Rightarrow> nat \<Rightarrow> u128 list" where
  "sse_transpose_sub_square out sq x y =
     fst (fold (\<lambda>j (out, a0, a1).
       let out = out[16 * x + 7 - j := set_u16 y (movemask_epi8 a0) (out ! (16 * x + 7 - j))];
           out = out[16 * x + 15 - j := set_u16 y (movemask_epi8 a1) (out ! (16 * x + 15 - j))] in
       (out, slli_epi64 1 a0, slli_epi64 1 a1)) [0..<8] (out, sq))"

definition sse_transpose128 :: "u128 list \<Rightarrow> u128 list" where
  "sse_transpose128 m =
     fold (\<lambda>j m.
       let m = sse_transpose_sub_square m (sse_load_sub_square m j j) j j in
       fold (\<lambda>k m.
         let a = sse_load_sub_square m k j; b = sse_load_sub_square m j k;
             m = sse_transpose_sub_square m a j k in
         sse_transpose_sub_square m b k j) [0..<j] m) [0..<8] m"

definition matrix_transpose128 :: "bool \<Rightarrow> u128 list \<Rightarrow> u128 list" where
  "matrix_transpose128 cpu_supports_sse2 m =
     (if cpu_supports_sse2 then sse_transpose128 m else eklundh_transpose128 m)"

subsection \<open>Matrices of 128 by 1024 bits\<close>

definition eklundh_transpose128x1024 :: "u128 list list \<Rightarrow> u128 list list" where
  "eklundh_transpose128x1024 m =
     fold (\<lambda>i m.
       let sub = eklundh_transpose128 (map (\<lambda>j. m ! j ! i) [0..<128]) in
       fold (\<lambda>j m. m[j := (m ! j)[i := sub ! j]]) [0..<128] m) [0..<8] m"

definition sse_load_sub_square_x :: "u128 list list \<Rightarrow> nat \<Rightarrow> nat \<Rightarrow> nat \<Rightarrow> u128 \<times> u128" where
  "sse_load_sub_square_x m x y i =
     (of_bytes (map (\<lambda>l. get_byte (m ! (16 * x + l) ! i) (2 * y)) [0..<16]),
      of_bytes (map (\<lambda>l. get_byte (m ! (16 * x + l) ! i) (2 * y + 1)) [0..<16]))"

definition sse_transpose_sub_square_x :: "u128 list list \<Rightarrow> u128 \<times> u128 \<Rightarrow> nat \<Rightarrow> nat \<Rightarrow> nat \<Rightarrow> u128 list list" where
  "sse_transpose_sub_square_x out sq x y i =
     (let put = (\<lambda>row v out. out[row := (out ! row)[i := set_u16 y v (out ! row ! i)]]);
          out = fold (\<lambda>t. put (16 * x + 7 - t) (movemask_epi8 (slli_epi64 t (fst sq)))) [0..<8] out in
      fold (\<lambda>t. put (16 * x + 15 - t) (movemask_epi8 (slli_epi64 t (snd sq)))) [0..<8] out)"

definition sse_transpose128x1024 :: "u128 list list \<Rightarrow> u128 list list" where
  "sse_transpose128x1024 m =
     fold (\<lambda>i. fold (\<lambda>j m.
       let m = sse_transpose_sub_square_x m (sse_load_sub_square_x m j j i) j j i in
       fold (\<lambda>k m.
         let a = sse_load_sub_square_x m k j i; b = sse_load_sub_square_x m j k i;
             m = sse_transpose_sub_square_x m a j k i in
         sse_transpose_sub_square_x m b k j i) [0..<j] m) [0..<8]) [0..<8] m"

definition matrix_transpose128x1024 :: "bool \<Rightarrow> u128 list list \<Rightarrow> u128 list list" where
  "matrix_transpose128x1024 cpu_supports_sse2 m =
     (if cpu_supports_sse2 then sse_transpose128x1024 m else eklundh_transpose128x1024 m)"

end
