(* ===== verification/Matrix_Transpose_Properties.thy ===== *)
theory Matrix_Transpose_Properties
  imports Matrix_Transpose
begin

text \<open>
  All transpositions compute the transposed matrix. Eklundh's method exchanges one bit of the row number
  with the same bit of the column number in every round; the vector version transposes the squares
  of 16 by 16 bits and exchanges those on opposite sides of the diagonal.
\<close>

subsection \<open>The reference\<close>

lemma bit_get_bit: "bit (get_bit w i) p \<longleftrightarrow> p = 0 \<and> bit w i"
  by (auto simp: get_bit_def bit_and_iff bit_drop_bit_eq bit_1_iff)

lemma bit_or_fold:
  "n \<le> 128 \<Longrightarrow> bit (fold (\<lambda>j t. t OR push_bit j (get_bit (f j) (g j))) [0..<n] (t :: u128)) p \<longleftrightarrow> bit t p \<or> p < n \<and> bit (f p) (g p)"
proof (induction n)
  case (Suc n)
  then show ?case by (auto simp: bit_or_iff bit_push_bit_iff bit_get_bit less_Suc_eq)
qed simp

lemma naive_transpose_bit: "r < 128 \<Longrightarrow> c < 128 \<Longrightarrow> bit (naive_transpose m ! r) c \<longleftrightarrow> bit (m ! c) r"
  by (simp add: naive_transpose_def bit_or_fold)

lemma length_naive_transpose [simp]: "length (naive_transpose m) = 128"
  by (simp add: naive_transpose_def)

lemma naive_transpose_eqI:
  assumes "length m' = 128" "\<And>r c. r < 128 \<Longrightarrow> c < 128 \<Longrightarrow> bit (m' ! r) c \<longleftrightarrow> bit (m ! c) r"
  shows "m' = naive_transpose m"
proof (rule nth_equalityI)
  fix r assume "r < length m'"
  then show "m' ! r = naive_transpose m ! r"
    using assms by (intro bit_word_eqI) (simp add: naive_transpose_bit)
qed (use assms in simp)

subsection \<open>Eklundh's method\<close>

text \<open>A mask is determined by its exclusive or with itself, shifted.\<close>

lemma alternating_bits:
  fixes w :: u128
  assumes "w XOR push_bit k w = - 1" "0 < k" "c < 128"
  shows "bit w c \<longleftrightarrow> even (c div k)"
  using assms(3)
proof (induction c rule: less_induct)
  case (less c)
  have "bit (w XOR push_bit k w) c" using less.prems by (simp add: assms(1))
  then have eq: "bit w c \<noteq> bit (push_bit k w) c" by (simp add: bit_xor_iff)
  show ?case
  proof (cases "c < k")
    case True
    then show ?thesis using eq by (simp add: bit_push_bit_iff)
  next
    case False
    then have "bit w c \<noteq> bit w (c - k)" using eq less.prems by (simp add: bit_push_bit_iff)
    moreover have "bit w (c - k) \<longleftrightarrow> even ((c - k) div k)" using less False assms(2) by simp
    moreover have "c div k = Suc ((c - k) div k)" using False assms(2) by (simp add: le_div_geq)
    ultimately show ?thesis by simp
  qed
qed

lemma trans_mask_alternates:
  assumes "i < 7"
  shows "trans_mask ! i XOR push_bit (2 ^ (6 - i)) (trans_mask ! i) = - 1" "trans_mask_inv ! i = NOT (trans_mask ! i)"
proof -
  have "i \<in> {0, 1, 2, 3, 4, 5, 6}" using assms by auto
  then show "trans_mask ! i XOR push_bit (2 ^ (6 - i)) (trans_mask ! i) = - 1" "trans_mask_inv ! i = NOT (trans_mask ! i)"
    by (auto simp: trans_mask_def trans_mask_inv_def make_uint128_def)
qed

lemma trans_mask_bits:
  assumes "i < 7" "c < 128"
  shows "bit (trans_mask ! i) c \<longleftrightarrow> \<not> bit c (6 - i)" "bit (trans_mask_inv ! i) c \<longleftrightarrow> bit c (6 - i)"
proof -
  show 1: "bit (trans_mask ! i) c \<longleftrightarrow> \<not> bit c (6 - i)"
    using alternating_bits [OF trans_mask_alternates(1) [OF assms(1)] _ assms(2)] by (simp add: bit_iff_odd [of c])
  show "bit (trans_mask_inv ! i) c \<longleftrightarrow> bit c (6 - i)"
    unfolding trans_mask_alternates(2) [OF assms(1)] using 1 assms(2) by (simp add: bit_not_iff)
qed

text \<open>Updates of disjoint pairs of rows.\<close>

definition pair_update :: "('a \<Rightarrow> 'a \<Rightarrow> 'a) \<Rightarrow> ('a \<Rightarrow> 'a \<Rightarrow> 'a) \<Rightarrow> nat \<times> nat \<Rightarrow> 'a list \<Rightarrow> 'a list" where
  "pair_update f g = (\<lambda>(a, b) m. m[a := f (m ! a) (m ! b), b := g (m ! a) (m ! b)])"

lemma pair_updates_length [simp]: "length (fold (pair_update f g) ps m) = length m"
  by (induction ps arbitrary: m) (auto simp: pair_update_def)

lemma pair_updates_other:
  "r \<notin> set (concat (map (\<lambda>(a, b). [a, b]) ps)) \<Longrightarrow> fold (pair_update f g) ps m ! r = m ! r"
  by (induction ps arbitrary: m) (auto simp: pair_update_def)

lemma pair_updates:
  assumes "distinct (concat (map (\<lambda>(a, b). [a, b]) ps))" "(a, b) \<in> set ps" "a < length m" "b < length m"
  shows "fold (pair_update f g) ps m ! a = f (m ! a) (m ! b) \<and> fold (pair_update f g) ps m ! b = g (m ! a) (m ! b)"
  using assms
proof (induction ps arbitrary: m)
  case (Cons p ps)
  obtain a' b' where p: "p = (a', b')" by fastforce
  show ?case
  proof (cases "(a, b) = p")
    case True
    then show ?thesis using Cons.prems pair_updates_other [of a ps f g] pair_updates_other [of b ps f g]
      by (auto simp: p pair_update_def)
  next
    case False
    then have ab: "(a, b) \<in> set ps" using Cons.prems by simp
    then have "a \<in> set (concat (map (\<lambda>(a, b). [a, b]) ps))" "b \<in> set (concat (map (\<lambda>(a, b). [a, b]) ps))" by force+
    then have ne: "a \<noteq> a'" "a \<noteq> b'" "b \<noteq> a'" "b \<noteq> b'" using Cons.prems(1) unfolding p by auto
    then have "pair_update f g p m ! a = m ! a" "pair_update f g p m ! b = m ! b" by (simp_all add: p pair_update_def)
    then show ?thesis using Cons.IH [of "pair_update f g p m"] Cons.prems ab by (simp add: p pair_update_def)
  qed
qed simp

text \<open>The pairs of a round.\<close>

definition round_pairs :: "nat \<Rightarrow> nat \<Rightarrow> (nat \<times> nat) list" where
  "round_pairs width nswaps = concat (map (\<lambda>j. map (\<lambda>k. (k + 2 * width * j, k + width + 2 * width * j)) [0..<width]) [0..<nswaps])"

lemma fold_concat_lists: "fold f (concat xss) s = fold (fold f) xss s"
  by (induction xss arbitrary: s) simp_all

lemma eklundh_round_pairs:
  "eklundh_round i (m, width, nswaps) =
    (fold (pair_update (\<lambda>t tt. (t AND trans_mask ! i) XOR push_bit width (tt AND trans_mask ! i))
        (\<lambda>t tt. (tt AND trans_mask_inv ! i) XOR drop_bit width (t AND trans_mask_inv ! i))) (round_pairs width nswaps) m,
     width div 2, nswaps * 2)"
proof -
  have "eklundh_swap width (trans_mask ! i) (trans_mask_inv ! i) i1 i2 =
      pair_update (\<lambda>t tt. (t AND trans_mask ! i) XOR push_bit width (tt AND trans_mask ! i))
        (\<lambda>t tt. (tt AND trans_mask_inv ! i) XOR drop_bit width (t AND trans_mask_inv ! i)) (i1, i2)" for i1 i2
    by (simp add: fun_eq_iff eklundh_swap_def pair_update_def Let_def)
  then show ?thesis unfolding eklundh_round_def round_pairs_def fold_concat_lists by (simp add: fold_map comp_def)
qed

lemma round_pairs_distinct:
  assumes "0 < width"
  shows "distinct (concat (map (\<lambda>(a, b). [a, b]) (round_pairs width nswaps)))"
proof -
  have "distinct (concat (map (\<lambda>(a, b). [a, b]) (round_pairs width n))) \<and>
    set (concat (map (\<lambda>(a, b). [a, b]) (round_pairs width n))) \<subseteq> {0..<2 * width * n}" for n
  proof (induction n)
    case 0
    then show ?case by (simp add: round_pairs_def)
  next
    case (Suc n)
    let ?new = "map (\<lambda>k. (k + 2 * width * n, k + width + 2 * width * n)) [0..<width]"
    have step: "concat (map (\<lambda>(a, b). [a, b]) (round_pairs width (Suc n))) =
        concat (map (\<lambda>(a, b). [a, b]) (round_pairs width n)) @ concat (map (\<lambda>(a, b). [a, b]) ?new)"
      by (simp add: round_pairs_def)
    have "distinct (concat (map (\<lambda>(a, b). [a, b]) (map (\<lambda>k. (k + x, k + width + x)) [0..<l])))" if "l \<le> width" for l x
      using that by (induction l) auto
    then have "distinct (concat (map (\<lambda>(a, b). [a, b]) ?new))" by simp
    moreover have "set (concat (map (\<lambda>(a, b). [a, b]) ?new)) \<subseteq> {2 * width * n..<2 * width * Suc n}" by auto
    ultimately show ?case using Suc unfolding step distinct_append set_append by fastforce
  qed
  then show ?thesis by blast
qed

lemma round_pairs_members:
  assumes "b \<le> 6" "r < 128" "\<not> bit r b"
  shows "(r, r + 2 ^ b) \<in> set (round_pairs (2 ^ b) (2 ^ (6 - b)))" "r + 2 ^ b < 128"
proof -
  define k where "k = r mod 2 ^ Suc b"
  define j where "j = r div 2 ^ Suc b"
  have r: "r = k + 2 * 2 ^ b * j" by (simp add: k_def j_def)
  have "even (r div 2 ^ b)" using assms(3) by (simp add: bit_iff_odd)
  moreover have "r = k + 2 ^ b * (2 * j)" by (simp add: r)
  then have "r div 2 ^ b = 2 * j + k div 2 ^ b" by (metis div_mult_self2 power_not_zero zero_neq_numeral)
  ultimately have "even (k div 2 ^ b)" by simp
  moreover have "k < 2 * 2 ^ b" by (simp add: k_def)
  then have "k div 2 ^ b < 2" by (simp add: less_mult_imp_div_less)
  ultimately have k: "k < 2 ^ b" by (auto simp: less_2_cases_iff div_eq_0_iff)
  have "(2 :: nat) ^ Suc b * 2 ^ (6 - b) = 128" using assms(1) by (simp flip: power_add)
  then have j: "j < 2 ^ (6 - b)" using assms(2) by (metis j_def less_mult_imp_div_less mult.commute)
  then have "(r, k + 2 ^ b + 2 * 2 ^ b * j) \<in> set (round_pairs (2 ^ b) (2 ^ (6 - b)))"
    using k unfolding r round_pairs_def by (auto intro!: bexI [of _ j] image_eqI [of _ _ k])
  moreover have "k + 2 ^ b + 2 * 2 ^ b * j = r + 2 ^ b" by (simp add: r)
  ultimately show "(r, r + 2 ^ b) \<in> set (round_pairs (2 ^ b) (2 ^ (6 - b)))" by simp
  have "2 ^ Suc b * Suc j \<le> 2 ^ Suc b * 2 ^ (6 - b)" using j by (intro mult_left_mono) auto
  then have "2 ^ Suc b * j + 2 ^ Suc b \<le> 128" using \<open>2 ^ Suc b * 2 ^ (6 - b) = 128\<close> by simp
  then show "r + 2 ^ b < 128" using k by (simp add: r)
qed

lemma bit_add_power: "\<not> bit (r :: nat) b \<Longrightarrow> bit (r + 2 ^ b) k \<longleftrightarrow> k = b \<or> bit r k"
  by (subst disjunctive_add) (auto simp: bit_or_iff bit_exp_iff)

text \<open>The coordinates with one bit of the row and the column exchanged.\<close>

definition with_bit :: "nat \<Rightarrow> bool \<Rightarrow> nat \<Rightarrow> nat" where
  "with_bit b v r = (if bit r b = v then r else if v then r + 2 ^ b else r - 2 ^ b)"

lemma bit_power_le: "bit (r :: nat) b \<Longrightarrow> 2 ^ b \<le> r"
  by (metis bit_iff_odd div_less even_zero linorder_not_less)

lemma bit_flip_power:
  "2 ^ b \<le> c \<Longrightarrow> bit (c - 2 ^ b) b \<longleftrightarrow> \<not> bit (c :: nat) b" "bit (c + 2 ^ b) b \<longleftrightarrow> \<not> bit (c :: nat) b"
proof -
  have "c div 2 ^ b = Suc ((c - 2 ^ b) div 2 ^ b)" if "2 ^ b \<le> c" using that by (simp add: le_div_geq)
  then show "2 ^ b \<le> c \<Longrightarrow> bit (c - 2 ^ b) b \<longleftrightarrow> \<not> bit (c :: nat) b" by (simp add: bit_iff_odd)
  show "bit (c + 2 ^ b) b \<longleftrightarrow> \<not> bit (c :: nat) b" by (simp add: bit_iff_odd div_add_self2)
qed

lemma bit_with_bit: "bit (with_bit b v r) k \<longleftrightarrow> (if k = b then v else bit r k)"
proof -
  have "bit (r - 2 ^ b) k \<longleftrightarrow> k \<noteq> b \<and> bit r k" if "bit r b"
  proof -
    have "\<not> bit (r - 2 ^ b) b" "2 ^ b \<le> r" using bit_flip_power(1) bit_power_le that by blast+
    then show ?thesis using bit_add_power [of "r - 2 ^ b" b k] by auto
  qed
  then show ?thesis by (auto simp: with_bit_def bit_add_power)
qed

lemma with_bit_less: "r < 128 \<Longrightarrow> b \<le> 6 \<Longrightarrow> with_bit b v r < 128"
  using round_pairs_members(2) [of b r] by (auto simp: with_bit_def)

text \<open>One round exchanges the bits.\<close>

lemma eklundh_round_bits:
  assumes "length m = 128" "i < 7" "r < 128" "c < 128"
  defines "b \<equiv> 6 - i"
  defines "m' \<equiv> fst (eklundh_round i (m, 2 ^ b, 2 ^ i))"
  shows "bit (m' ! r) c \<longleftrightarrow> bit (m ! with_bit b (bit c b) r) (with_bit b (bit r b) c)"
proof -
  have b: "b \<le> 6" "i = 6 - b" using assms(2) by (simp_all add: b_def)
  let ?F = "\<lambda>t tt. (t AND trans_mask ! i) XOR push_bit (2 ^ b) (tt AND trans_mask ! i)"
  let ?G = "\<lambda>t tt. (tt AND trans_mask_inv ! i) XOR drop_bit (2 ^ b) (t AND trans_mask_inv ! i)"
  have pair: "m' ! a = ?F (m ! a) (m ! (a + 2 ^ b)) \<and> m' ! (a + 2 ^ b) = ?G (m ! a) (m ! (a + 2 ^ b))"
    if "a < 128" "\<not> bit a b" for a
    using pair_updates [OF round_pairs_distinct round_pairs_members(1) [OF b(1) that], of m ?F ?G] that assms(1) b
      round_pairs_members(2) [OF b(1) that] by (simp add: m'_def eklundh_round_pairs)
  have F: "bit (?F t tt) c \<longleftrightarrow> (if bit c b then bit tt (with_bit b False c) else bit t c)" for t tt :: u128
    using assms(2,4) trans_mask_bits(1) [OF assms(2,4)] trans_mask_bits(1) [OF assms(2), of "c - 2 ^ b"]
      bit_flip_power(1) [of b c] bit_power_le [of c b]
    by (auto simp: bit_xor_iff bit_and_iff bit_push_bit_iff with_bit_def b_def)
  have G: "bit (?G t tt) c \<longleftrightarrow> (if bit c b then bit tt c else bit t (with_bit b True c))" for t tt :: u128
    using assms(2,4) trans_mask_bits(2) [OF assms(2,4)] trans_mask_bits(2) [OF assms(2), of "c + 2 ^ b"]
      bit_flip_power(2) [of c b] round_pairs_members(2) [OF b(1) assms(4)]
    by (auto simp: bit_xor_iff bit_and_iff bit_drop_bit_eq with_bit_def b_def add.commute dest: bit_imp_le_length)
  show ?thesis
  proof (cases "bit r b")
    case False
    then show ?thesis using pair [OF assms(3) False] F by (auto simp: with_bit_def)
  next
    case True
    let ?a = "r - 2 ^ b"
    have "\<not> bit ?a b" using bit_with_bit [of b False r b] True by (simp add: with_bit_def)
    then have "m' ! r = ?G (m ! ?a) (m ! r)" using pair [of ?a] assms(3) bit_power_le [OF True] by simp
    then show ?thesis using G True by (auto simp: with_bit_def)
  qed
qed

text \<open>The upper bits of one number and the lower bits of another.\<close>

definition mix_bits :: "nat \<Rightarrow> nat \<Rightarrow> nat \<Rightarrow> nat" where
  "mix_bits n x y = push_bit n (drop_bit n x) OR take_bit n y"

lemma bit_mix_bits: "bit (mix_bits n x y) k \<longleftrightarrow> (if n \<le> k then bit x k else bit y k)"
  by (auto simp: mix_bits_def bit_or_iff bit_push_bit_iff bit_drop_bit_eq bit_take_bit_iff)

lemma nat_less_128_iff: "x < 128 \<longleftrightarrow> (\<forall>k. bit x k \<longrightarrow> k < 7)" for x :: nat
proof
  assume "x < 128"
  then have "take_bit 7 x = x" by (simp add: take_bit_nat_eq_self)
  then show "\<forall>k. bit x k \<longrightarrow> k < 7" by (metis bit_take_bit_iff)
next
  assume "\<forall>k. bit x k \<longrightarrow> k < 7"
  then have "take_bit 7 x = x" by (auto simp: bit_eq_iff bit_take_bit_iff)
  then show "x < 128" using take_bit_nat_less_exp [of 7 x] by simp
qed

lemma eklundh_rounds:
  assumes "length m = 128" "i \<le> 7"
  shows "\<exists>m'. fold eklundh_round [0..<i] (m, 64, 1) = (m', 64 div 2 ^ i, 2 ^ i) \<and> length m' = 128 \<and>
    (\<forall>r < 128. \<forall>c < 128. bit (m' ! r) c \<longleftrightarrow> bit (m ! mix_bits (7 - i) c r) (mix_bits (7 - i) r c))"
  using assms(2)
proof (induction i)
  case 0
  have "mix_bits 7 x y = y" if "x < 128" "y < 128" for x y
    using that by (intro bit_eqI) (auto simp: bit_mix_bits nat_less_128_iff)
  then show ?case using assms(1) by simp
next
  case (Suc i)
  then obtain m1 where m1: "fold eklundh_round [0..<i] (m, 64, 1) = (m1, 64 div 2 ^ i, 2 ^ i)" "length m1 = 128"
    "\<And>r c. r < 128 \<Longrightarrow> c < 128 \<Longrightarrow> bit (m1 ! r) c \<longleftrightarrow> bit (m ! mix_bits (7 - i) c r) (mix_bits (7 - i) r c)" by auto
  define b where "b = 6 - i"
  have i: "i < 7" "7 - i = Suc b" "7 - Suc i = b" "b \<le> 6" using Suc.prems by (auto simp: b_def)
  have width: "(64 :: nat) div 2 ^ i = 2 ^ b"
  proof -
    have "(64 :: nat) = 2 ^ b * 2 ^ i" using i(1) by (simp add: b_def flip: power_add)
    then show ?thesis by (metis nonzero_mult_div_cancel_right power_not_zero zero_neq_numeral)
  qed
  have half: "(64 :: nat) div 2 ^ i div 2 = 64 div 2 ^ Suc i" by (simp only: power_Suc2 div_mult2_eq)
  define m2 where "m2 = fst (eklundh_round i (m1, 2 ^ b, 2 ^ i))"
  have m2: "eklundh_round i (m1, 64 div 2 ^ i, 2 ^ i) = (m2, 64 div 2 ^ Suc i, 2 ^ Suc i)"
    unfolding half [symmetric] width by (simp add: m2_def eklundh_round_pairs)
  have "length m2 = 128" using m1(2) by (simp add: m2_def eklundh_round_pairs)
  moreover have "bit (m2 ! r) c \<longleftrightarrow> bit (m ! mix_bits b c r) (mix_bits b r c)" if "r < 128" "c < 128" for r c
  proof -
    let ?r = "with_bit b (bit c b) r" and ?c = "with_bit b (bit r b) c"
    have "bit (m2 ! r) c \<longleftrightarrow> bit (m1 ! ?r) ?c"
      unfolding m2_def b_def by (rule eklundh_round_bits [OF m1(2) i(1) that])
    also have "\<dots> \<longleftrightarrow> bit (m ! mix_bits (Suc b) ?c ?r) (mix_bits (Suc b) ?r ?c)"
      using m1(3) [of ?r ?c] that i with_bit_less by simp
    also have "mix_bits (Suc b) ?c ?r = mix_bits b c r" by (rule bit_eqI) (auto simp: bit_mix_bits bit_with_bit not_less_eq_eq dest: le_antisym)
    also have "mix_bits (Suc b) ?r ?c = mix_bits b r c" by (rule bit_eqI) (auto simp: bit_mix_bits bit_with_bit not_less_eq_eq dest: le_antisym)
    finally show ?thesis .
  qed
  ultimately show ?case using m1(1) m2 i(3) by auto
qed

lemma eklundh_transpose128_eq:
  assumes "length m = 128"
  shows "eklundh_transpose128 m = naive_transpose m"
proof -
  obtain m' where m': "fold eklundh_round [0..<7] (m, 64, 1) = (m', 64 div 2 ^ 7, 2 ^ 7)" "length m' = 128"
    "\<forall>r < 128. \<forall>c < 128. bit (m' ! r) c \<longleftrightarrow> bit (m ! mix_bits (7 - 7) c r) (mix_bits (7 - 7) r c)"
    using eklundh_rounds [OF assms, of 7] by blast
  moreover have "mix_bits (7 - 7) x y = x" for x y by (simp add: bit_eq_iff bit_mix_bits)
  ultimately show ?thesis unfolding eklundh_transpose128_def m'(1) by (intro naive_transpose_eqI) simp_all
qed

subsection \<open>Transposition by squares\<close>

text \<open>A matrix of 128 by 128 bits that can be read and written by squares of 16 by 16 bits: a square is placed
  transposed.\<close>

locale bit_squares =
  fixes ok :: "'m \<Rightarrow> bool" and entry :: "'m \<Rightarrow> nat \<Rightarrow> nat \<Rightarrow> bool"
    and load :: "'m \<Rightarrow> nat \<Rightarrow> nat \<Rightarrow> 's" and place :: "'m \<Rightarrow> 's \<Rightarrow> nat \<Rightarrow> nat \<Rightarrow> 'm"
  assumes place_ok: "ok m \<Longrightarrow> x < 8 \<Longrightarrow> y < 8 \<Longrightarrow> ok (place m s x y)"
    and entry_place: "ok m \<Longrightarrow> ok m' \<Longrightarrow> x < 8 \<Longrightarrow> y < 8 \<Longrightarrow> x' < 8 \<Longrightarrow> y' < 8 \<Longrightarrow> r < 128 \<Longrightarrow> c < 128 \<Longrightarrow>
      entry (place m' (load m x y) x' y') r c =
        (if r div 16 = x' \<and> c div 16 = y' then entry m (16 * x + c mod 16) (16 * y + r mod 16) else entry m' r c)"
begin

text \<open>The exchange of two squares, and the whole transposition.\<close>

definition exchange :: "nat \<Rightarrow> nat \<Rightarrow> 'm \<Rightarrow> 'm" where
  "exchange j k m = (let a = load m k j; b = load m j k; m = place m a j k in place m b k j)"

definition transpose_all :: "'m \<Rightarrow> 'm" where
  "transpose_all m = fold (\<lambda>j m. fold (exchange j) [0..<j] (place m (load m j j) j j)) [0..<8] m"

text \<open>The squares on a set of positions have been transposed.\<close>

definition transposed_on :: "(nat \<Rightarrow> nat \<Rightarrow> bool) \<Rightarrow> 'm \<Rightarrow> 'm \<Rightarrow> bool" where
  "transposed_on done0 m m' \<longleftrightarrow> ok m' \<and> (\<forall>r < 128. \<forall>c < 128.
     entry m' r c = (if done0 (r div 16) (c div 16) then entry m c r else entry m r c))"

lemma div16: "r < 128 \<Longrightarrow> r div 16 < 8" "16 * (r div 16) + r mod 16 = (r :: nat)"
  by (simp_all add: less_mult_imp_div_less)

lemma exchange_transposes:
  assumes "transposed_on p m m'" "j < 8" "k < 8" "\<not> p j k" "\<not> p k j" "j \<noteq> k"
  shows "transposed_on (\<lambda>x y. p x y \<or> x = j \<and> y = k \<or> x = k \<and> y = j) m (exchange j k m')"
proof -
  have ok: "ok m'" and ent: "\<And>r c. r < 128 \<Longrightarrow> c < 128 \<Longrightarrow> entry m' r c = (if p (r div 16) (c div 16) then entry m c r else entry m r c)"
    using assms(1) by (auto simp: transposed_on_def)
  let ?m1 = "place m' (load m' k j) j k"
  have ok1: "ok ?m1" and ok2: "ok (exchange j k m')" using ok assms(2,3) by (simp_all add: place_ok exchange_def Let_def)
  have in_square: "16 * x + r mod 16 < 128" "(16 * x + r mod 16) div 16 = x" if "x < 8" for x r :: nat
  proof -
    show "16 * x + r mod 16 < 128" using that mod_less_divisor [of 16 r] by linarith
    show "(16 * x + r mod 16) div 16 = x" by simp
  qed
  have "entry (exchange j k m') r c =
      (if p (r div 16) (c div 16) \<or> r div 16 = j \<and> c div 16 = k \<or> r div 16 = k \<and> c div 16 = j then entry m c r else entry m r c)"
    if rc: "r < 128" "c < 128" for r c
  proof -
    have "entry (exchange j k m') r c = (if r div 16 = k \<and> c div 16 = j then entry m' (16 * j + c mod 16) (16 * k + r mod 16)
        else if r div 16 = j \<and> c div 16 = k then entry m' (16 * k + c mod 16) (16 * j + r mod 16) else entry m' r c)"
      unfolding exchange_def Let_def using ok ok1 assms(2,3) rc by (simp add: entry_place)
    also have "\<dots> = (if p (r div 16) (c div 16) \<or> r div 16 = j \<and> c div 16 = k \<or> r div 16 = k \<and> c div 16 = j
        then entry m c r else entry m r c)"
      using ent [OF rc] ent [of "16 * j + c mod 16" "16 * k + r mod 16"] ent [of "16 * k + c mod 16" "16 * j + r mod 16"]
        in_square assms(2-6) div16(2) [of r] div16(2) [of c] by auto
    finally show ?thesis .
  qed
  with ok2 show ?thesis by (simp add: transposed_on_def)
qed

lemma diagonal_transposes:
  assumes "transposed_on p m m'" "j < 8" "\<not> p j j"
  shows "transposed_on (\<lambda>x y. p x y \<or> x = j \<and> y = j) m (place m' (load m' j j) j j)"
proof -
  have ok: "ok m'" and ent: "\<And>r c. r < 128 \<Longrightarrow> c < 128 \<Longrightarrow> entry m' r c = (if p (r div 16) (c div 16) then entry m c r else entry m r c)"
    using assms(1) by (auto simp: transposed_on_def)
  have "entry (place m' (load m' j j) j j) r c =
      (if p (r div 16) (c div 16) \<or> r div 16 = j \<and> c div 16 = j then entry m c r else entry m r c)" if rc: "r < 128" "c < 128" for r c
  proof -
    have "entry (place m' (load m' j j) j j) r c = (if r div 16 = j \<and> c div 16 = j then entry m' c r else entry m' r c)"
    proof -
      have "16 * j + c mod 16 = c \<and> 16 * j + r mod 16 = r" if "r div 16 = j \<and> c div 16 = j"
        using div16(2) [of r] div16(2) [of c] that by simp
      then show ?thesis using entry_place [OF ok ok, of j j j j r c] assms(2) rc by auto
    qed
    then show ?thesis using ent [OF rc] ent [of c r] rc assms(3) by auto
  qed
  with ok assms(2) show ?thesis by (simp add: transposed_on_def place_ok)
qed

lemma transposed_on_cong:
  "transposed_on p m m' \<Longrightarrow> (\<And>x y. x < 8 \<Longrightarrow> y < 8 \<Longrightarrow> p x y = q x y) \<Longrightarrow> transposed_on q m m'"
  unfolding transposed_on_def using div16(1) by simp

lemma row_transposes:
  assumes "transposed_on (\<lambda>x y. x < j \<and> y < j) m m'" "j < 8"
  shows "transposed_on (\<lambda>x y. x < Suc j \<and> y < Suc j) m (fold (exchange j) [0..<j] (place m' (load m' j j) j j))"
proof -
  have "transposed_on (\<lambda>x y. x < j \<and> y < j \<or> x = j \<and> y = j \<or> x = j \<and> y < k \<or> y = j \<and> x < k) m
      (fold (exchange j) [0..<k] (place m' (load m' j j) j j))" if "k \<le> j" for k
    using that
  proof (induction k)
    case 0
    show ?case using diagonal_transposes [OF assms] by (auto intro: transposed_on_cong)
  next
    case (Suc k)
    then have "transposed_on (\<lambda>x y. x < j \<and> y < j \<or> x = j \<and> y = j \<or> x = j \<and> y < k \<or> y = j \<and> x < k) m
        (fold (exchange j) [0..<k] (place m' (load m' j j) j j))" by simp
    from exchange_transposes [OF this assms(2), of k] show ?case
      using Suc.prems assms(2) by (auto intro: transposed_on_cong simp: less_Suc_eq)
  qed
  from this [OF order_refl] show ?thesis by (rule transposed_on_cong) auto
qed

lemma transpose_all_correct:
  assumes "ok m"
  shows "transposed_on (\<lambda>_ _. True) m (transpose_all m)"
proof -
  have "transposed_on (\<lambda>x y. x < n \<and> y < n) m
      (fold (\<lambda>j m. fold (exchange j) [0..<j] (place m (load m j j) j j)) [0..<n] m)" if "n \<le> 8" for n
    using that
  proof (induction n)
    case 0
    show ?case using assms by (simp add: transposed_on_def)
  next
    case (Suc n)
    then show ?case using row_transposes [of n m] by simp
  qed
  from this [OF order_refl] show ?thesis unfolding transpose_all_def by (rule transposed_on_cong) auto
qed

end

subsection \<open>The vector instructions\<close>

lemma bit_get_byte: "t < 8 \<Longrightarrow> bit (get_byte w k) t \<longleftrightarrow> bit w (8 * k + t)"
  by (simp add: get_byte_def bit_unsigned_iff bit_drop_bit_eq)

lemma bit_of_bytes:
  "l < length bs \<Longrightarrow> length bs \<le> 16 \<Longrightarrow> t < 8 \<Longrightarrow> bit (of_bytes bs) (8 * l + t) \<longleftrightarrow> bit (bs ! l) t"
proof (induction bs arbitrary: l)
  case (Cons b bs)
  have step: "of_bytes (b # bs) = ucast b OR push_bit 8 (of_bytes bs)" by (simp add: of_bytes_def)
  show ?case
  proof (cases l)
    case 0
    then show ?thesis using Cons.prems by (simp add: step bit_or_iff bit_push_bit_iff bit_unsigned_iff)
  next
    case (Suc l')
    have "\<not> bit b (8 * l + t)" using Suc by (auto dest: bit_imp_le_length)
    then show ?thesis using Suc Cons.IH [of l'] Cons.prems by (simp add: step bit_or_iff bit_push_bit_iff bit_unsigned_iff)
  qed
qed simp

lemma bit_set_u16:
  assumes "y < 8" "p < 128"
  shows "bit (set_u16 y v w) p \<longleftrightarrow> (if p div 16 = y then bit v (p mod 16) else bit w p)"
proof -
  have "p div 16 = y \<longleftrightarrow> 16 * y \<le> p \<and> p - 16 * y < 16" by auto
  moreover have "p - 16 * y = p mod 16" if "p div 16 = y" using that by (simp add: minus_mult_div_eq_mod flip: that)
  ultimately show ?thesis using assms
    by (auto simp: set_u16_def bit_or_iff bit_and_iff bit_not_iff bit_push_bit_iff bit_mask_iff bit_take_bit_iff)
qed

lemma bit_movemask: "bit (movemask_epi8 w) l \<longleftrightarrow> l < 16 \<and> bit w (8 * l + 7)"
  unfolding movemask_epi8_def by (subst bit_or_fold) auto

lemma bit_slli:
  assumes "n < 64" "p < 128"
  shows "bit (slli_epi64 n w) p \<longleftrightarrow> n \<le> p mod 64 \<and> bit w (p - n)"
proof (cases "p < 64")
  case True
  then show ?thesis using assms
    by (auto simp: slli_epi64_def make_uint128_def bit_or_iff bit_push_bit_iff bit_unsigned_iff)
next
  case False
  then have "p mod 64 = p - 64" using assms(2) by (simp add: mod_if)
  then show ?thesis using assms False
    by (auto simp: slli_epi64_def make_uint128_def bit_or_iff bit_push_bit_iff bit_unsigned_iff bit_drop_bit_eq dest: bit_imp_le_length)
qed

lemma bit_slli_byte: "n \<le> t \<Longrightarrow> t < 8 \<Longrightarrow> l < 16 \<Longrightarrow> bit (slli_epi64 n w) (8 * l + t) \<longleftrightarrow> bit w (8 * l + t - n)"
proof -
  assume a: "n \<le> t" "t < 8" "l < 16"
  have "8 * l + t = (8 * (l mod 8) + t) + 64 * (l div 8)" using mult_div_mod_eq [of 8 l] by linarith
  moreover have "8 * (l mod 8) + t < 64" using a(2) mod_less_divisor [of 8 l] by linarith
  ultimately have "(8 * l + t) mod 64 = 8 * (l mod 8) + t" by (metis mod_less mod_mult_self2)
  then show ?thesis using a by (subst bit_slli) auto
qed

text \<open>The entries of a loaded square.\<close>

definition square_bit :: "u128 \<times> u128 \<Rightarrow> nat \<Rightarrow> nat \<Rightarrow> bool" where
  "square_bit sq l c = bit (if c < 8 then fst sq else snd sq) (8 * l + c mod 8)"

lemma square_bit_load:
  assumes "l < 16" "c < 16"
  shows "square_bit (sse_load_sub_square m x y) l c \<longleftrightarrow> bit (m ! (16 * x + l)) (16 * y + c)"
proof -
  have pos: "16 * y + c = 8 * (if c < 8 then 2 * y else 2 * y + 1) + c mod 8" using assms(2) by presburger
  show ?thesis unfolding pos using assms
    by (simp add: square_bit_def sse_load_sub_square_def bit_of_bytes bit_get_byte)
qed

text \<open>Placing a square.\<close>

lemma square_coords:
  fixes x t r :: nat
  shows "t < 8 \<Longrightarrow> (16 * x + t) div 16 = x" "t < 8 \<Longrightarrow> (16 * x + t) mod 16 = t" "t < 8 \<Longrightarrow> (16 * x + t) mod 8 = t"
    and "t < 8 \<Longrightarrow> (16 * x + (8 + t)) div 16 = x \<and> (16 * x + (8 + t)) mod 16 = 8 + t \<and> (16 * x + (8 + t)) mod 8 = t"
    and "r = 16 * (r div 16) + r mod 8 \<or> r = 16 * (r div 16) + 8 + r mod 8"
proof -
  show "t < 8 \<Longrightarrow> (16 * x + t) div 16 = x" "t < 8 \<Longrightarrow> (16 * x + t) mod 16 = t" by simp_all
  have "16 * x + t = t + 8 * (2 * x)" "16 * x + (8 + t) = t + 8 * (2 * x + 1)" by simp_all
  then have "t < 8 \<Longrightarrow> (16 * x + t) mod 8 = t" "t < 8 \<Longrightarrow> (16 * x + (8 + t)) mod 8 = t"
    by (metis mod_less mod_mult_self2)+
  moreover have "t < 8 \<Longrightarrow> (16 * x + (8 + t)) div 16 = x \<and> (16 * x + (8 + t)) mod 16 = 8 + t" by simp
  ultimately show "t < 8 \<Longrightarrow> (16 * x + t) mod 8 = t"
    "t < 8 \<Longrightarrow> (16 * x + (8 + t)) div 16 = x \<and> (16 * x + (8 + t)) mod 16 = 8 + t \<and> (16 * x + (8 + t)) mod 8 = t" by blast+
  have "r mod 16 = 8 * (r div 8 mod 2) + r mod 8" using mod_mult2_eq [of r 8 2] by simp
  moreover have "r div 8 mod 2 = 0 \<or> r div 8 mod 2 = 1" by auto
  ultimately show "r = 16 * (r div 16) + r mod 8 \<or> r = 16 * (r div 16) + 8 + r mod 8"
    using mult_div_mod_eq [of 16 r] by auto
qed

lemma sse_place_rounds:
  assumes "length out = 128" "x < 8" "y < 8" "n \<le> 8"
  shows "\<exists>out' b0 b1. fold (\<lambda>j (out, a0, a1).
       let out = out[16 * x + 7 - j := set_u16 y (movemask_epi8 a0) (out ! (16 * x + 7 - j))];
           out = out[16 * x + 15 - j := set_u16 y (movemask_epi8 a1) (out ! (16 * x + 15 - j))] in
       (out, slli_epi64 1 a0, slli_epi64 1 a1)) [0..<n] (out, a0, a1) = (out', b0, b1) \<and> length out' = 128 \<and>
    (\<forall>l < 16. \<forall>t < 8. n \<le> t \<longrightarrow> bit b0 (8 * l + t) = bit a0 (8 * l + t - n) \<and> bit b1 (8 * l + t) = bit a1 (8 * l + t - n)) \<and>
    (\<forall>r < 128. \<forall>c < 128. bit (out' ! r) c = (if r div 16 = x \<and> 8 \<le> r mod 8 + n \<and> c div 16 = y
       then square_bit (a0, a1) (c mod 16) (r mod 16) else bit (out ! r) c))"
  using assms(4)
proof (induction n)
  case 0
  have "\<not> 8 \<le> r mod 8" for r :: nat by (simp add: not_le)
  then show ?case using assms(1) by auto
next
  case (Suc n)
  let ?f = "\<lambda>j (out, a0, a1).
       let out = out[16 * x + 7 - j := set_u16 y (movemask_epi8 a0) (out ! (16 * x + 7 - j))];
           out = out[16 * x + 15 - j := set_u16 y (movemask_epi8 a1) (out ! (16 * x + 15 - j))] in
       (out, slli_epi64 1 a0, slli_epi64 1 a1)"
  obtain o1 b0 b1 where IH: "fold ?f [0..<n] (out, a0, a1) = (o1, b0, b1)" "length o1 = 128"
    "\<forall>l < 16. \<forall>t < 8. n \<le> t \<longrightarrow> bit b0 (8 * l + t) = bit a0 (8 * l + t - n) \<and> bit b1 (8 * l + t) = bit a1 (8 * l + t - n)"
    "\<forall>r < 128. \<forall>c < 128. bit (o1 ! r) c = (if r div 16 = x \<and> 8 \<le> r mod 8 + n \<and> c div 16 = y
       then square_bit (a0, a1) (c mod 16) (r mod 16) else bit (out ! r) c)"
    using Suc by auto
  let ?R0 = "16 * x + 7 - n" and ?R1 = "16 * x + 15 - n"
  let ?o2 = "o1[?R0 := set_u16 y (movemask_epi8 b0) (o1 ! ?R0), ?R1 := set_u16 y (movemask_epi8 b1) (o1 ! ?R1)]"
  have n: "n < 8" using Suc.prems by simp
  have R: "?R0 < 128" "?R1 < 128" "?R0 \<noteq> ?R1" using assms(2) n by auto
  have fold: "fold ?f [0..<Suc n] (out, a0, a1) = (?o2, slli_epi64 1 b0, slli_epi64 1 b1)"
    using IH(1) R(3) by (simp add: Let_def)
  have shift: "bit (slli_epi64 1 b0) (8 * l + t) = bit a0 (8 * l + t - Suc n) \<and> bit (slli_epi64 1 b1) (8 * l + t) = bit a1 (8 * l + t - Suc n)"
    if "l < 16" "t < 8" "Suc n \<le> t" for l t
    using bit_slli_byte [of 1 t l] IH(3) [rule_format, of l "t - 1"] that by simp
  have mask: "bit (movemask_epi8 b0) l = square_bit (a0, a1) l (7 - n)" "bit (movemask_epi8 b1) l = square_bit (a0, a1) l (15 - n)"
    if "l < 16" for l
  proof -
    have "(15 - n) mod 8 = 7 - n" "\<not> 15 - n < 8" "(7 - n) mod 8 = 7 - n" "7 - n < 8" using n by (auto simp: mod_if)
    then show "bit (movemask_epi8 b0) l = square_bit (a0, a1) l (7 - n)" "bit (movemask_epi8 b1) l = square_bit (a0, a1) l (15 - n)"
      using IH(3) [rule_format, of l 7] that n by (simp_all add: bit_movemask square_bit_def)
  qed
  have "bit (?o2 ! r) c = (if r div 16 = x \<and> 8 \<le> r mod 8 + Suc n \<and> c div 16 = y
       then square_bit (a0, a1) (c mod 16) (r mod 16) else bit (out ! r) c)" if rc: "r < 128" "c < 128" for r c
  proof -
    have old: "bit (o1 ! r) c = (if r div 16 = x \<and> 8 \<le> r mod 8 + n \<and> c div 16 = y
       then square_bit (a0, a1) (c mod 16) (r mod 16) else bit (out ! r) c)" using IH(4) rc by blast
    consider "r = ?R0" | "r = ?R1" | "r \<noteq> ?R0" "r \<noteq> ?R1" by blast
    then show ?thesis
    proof cases
      case 1
      then have "r = 16 * x + (7 - n)" using n by simp
      then have "r div 16 = x" "r mod 16 = 7 - n" "r mod 8 = 7 - n" using n square_coords(1-4) [of "7 - n" x] by simp_all
      then show ?thesis using 1 R IH(2) old n rc(2) assms(3) mask by (simp add: bit_set_u16)
    next
      case 2
      then have r: "r = 16 * x + (8 + (7 - n))" using n by simp
      have "7 - n < 8" by simp
      from square_coords(4) [OF this, of x, folded r] have "r div 16 = x" "r mod 16 = 15 - n" "r mod 8 = 7 - n" using n by simp_all
      then show ?thesis using 2 R IH(2) old n rc(2) assms(3) mask by (simp add: bit_set_u16)
    next
      case 3
      then have "\<not> (r div 16 = x \<and> r mod 8 = 7 - n)" using n square_coords(5) [of r] by auto
      moreover have "8 \<le> r mod 8 + Suc n \<longleftrightarrow> 8 \<le> r mod 8 + n \<or> r mod 8 = 7 - n" using n by linarith
      ultimately show ?thesis using 3 old by auto
    qed
  qed
  with fold shift IH(2) show ?case by (intro exI conjI) (rule fold, simp_all)
qed

lemma sse_place:
  assumes "length out = 128" "x < 8" "y < 8"
  shows "length (sse_transpose_sub_square out sq x y) = 128"
    "r < 128 \<Longrightarrow> c < 128 \<Longrightarrow> bit (sse_transpose_sub_square out sq x y ! r) c =
      (if r div 16 = x \<and> c div 16 = y then square_bit sq (c mod 16) (r mod 16) else bit (out ! r) c)"
proof -
  obtain a0 a1 where sq: "sq = (a0, a1)" by fastforce
  from sse_place_rounds [OF assms order_refl, of a0 a1]
  show "length (sse_transpose_sub_square out sq x y) = 128"
    "r < 128 \<Longrightarrow> c < 128 \<Longrightarrow> bit (sse_transpose_sub_square out sq x y ! r) c =
      (if r div 16 = x \<and> c div 16 = y then square_bit sq (c mod 16) (r mod 16) else bit (out ! r) c)"
    unfolding sse_transpose_sub_square_def sq by auto
qed

interpretation sse: bit_squares "\<lambda>m. length m = 128" "\<lambda>m r c. bit (m ! r) c" sse_load_sub_square sse_transpose_sub_square
  by unfold_locales (simp_all add: sse_place square_bit_load)

lemma sse_transpose128_eq:
  assumes "length m = 128"
  shows "sse_transpose128 m = naive_transpose m"
proof -
  have "sse_transpose128 m = sse.transpose_all m"
    unfolding sse_transpose128_def sse.transpose_all_def Let_def sse.exchange_def [abs_def] by simp
  with sse.transpose_all_correct [OF assms] show ?thesis
    by (intro naive_transpose_eqI) (simp_all add: sse.transposed_on_def)
qed

subsection \<open>Matrices of 128 by 1024 bits\<close>

lemma fold_row_updates:
  fixes H :: "nat \<Rightarrow> 'a \<Rightarrow> 'a" and F :: "nat \<Rightarrow> nat" and m :: "'a list"
  assumes "\<And>t t'. t < n \<Longrightarrow> t' < n \<Longrightarrow> F t = F t' \<Longrightarrow> t = t'" "\<And>t. t < n \<Longrightarrow> F t < length m"
  defines "res \<equiv> \<lambda>n. fold (\<lambda>t out. out[F t := H t (out ! F t)]) [0..<n] m"
  shows "length (res n) = length m \<and> (\<forall>t < n. res n ! F t = H t (m ! F t)) \<and> (\<forall>r. (\<forall>t < n. r \<noteq> F t) \<longrightarrow> res n ! r = m ! r)"
  using assms(1,2)
proof (induction n)
  case 0
  then show ?case by (simp add: res_def)
next
  case (Suc n)
  then have IH: "length (res n) = length m" "\<forall>t < n. res n ! F t = H t (m ! F t)" "\<forall>r. (\<forall>t < n. r \<noteq> F t) \<longrightarrow> res n ! r = m ! r"
    by auto
  have step: "res (Suc n) = (res n)[F n := H n (res n ! F n)]" by (simp add: res_def)
  have fresh: "F n \<noteq> F t" if "t < n" for t using Suc.prems(1) [of n t] that by auto
  then have "res n ! F n = m ! F n" using IH(3) by blast
  then show ?case unfolding step using IH fresh Suc.prems(2) [of n] by (auto simp: nth_list_update less_Suc_eq)
qed

definition wide_ok :: "nat \<Rightarrow> u128 list list \<Rightarrow> bool" where
  "wide_ok i m \<longleftrightarrow> length m = 128 \<and> (\<forall>r < 128. length (m ! r) = 8) \<and> i < 8"

lemma square_bit_load_x:
  assumes "l < 16" "c < 16"
  shows "square_bit (sse_load_sub_square_x m x y i) l c \<longleftrightarrow> bit (m ! (16 * x + l) ! i) (16 * y + c)"
proof -
  have pos: "16 * y + c = 8 * (if c < 8 then 2 * y else 2 * y + 1) + c mod 8" using assms(2) by presburger
  show ?thesis unfolding pos using assms
    by (simp add: square_bit_def sse_load_sub_square_x_def bit_of_bytes bit_get_byte)
qed

lemma movemask_slli: "t < 8 \<Longrightarrow> l < 16 \<Longrightarrow> bit (movemask_epi8 (slli_epi64 t w)) l \<longleftrightarrow> bit w (8 * l + (7 - t))"
  using bit_slli_byte [of t 7 l w] by (simp add: bit_movemask)

text \<open>The rows of a square: row \<open>q\<close> of the lower or upper eight is written by the shift \<open>7 - q\<close>.\<close>

lemma sse_place_x:
  fixes sq :: "u128 \<times> u128" and m :: "u128 list list" and i x y r :: nat
  assumes "wide_ok i m" "x < 8" "y < 8" "r < 128"
  defines "m' \<equiv> sse_transpose_sub_square_x m sq x y i"
  shows "length m' = 128" "length (m' ! r) = 8" "j \<noteq> i \<Longrightarrow> m' ! r ! j = m ! r ! j"
    "c < 128 \<Longrightarrow> bit (m' ! r ! i) c =
      (if r div 16 = x \<and> c div 16 = y then square_bit sq (c mod 16) (r mod 16) else bit (m ! r ! i) c)"
proof -
  let ?H = "\<lambda>a t row. row[i := set_u16 y (movemask_epi8 (slli_epi64 t a)) (row ! i)]"
  define m1 where "m1 = fold (\<lambda>t out. out[16 * x + 7 - t := ?H (fst sq) t (out ! (16 * x + 7 - t))]) [0..<8] m"
  have m': "m' = fold (\<lambda>t out. out[16 * x + 15 - t := ?H (snd sq) t (out ! (16 * x + 15 - t))]) [0..<8] m1"
    by (simp add: m'_def sse_transpose_sub_square_x_def m1_def Let_def)
  have len: "length m = 128" "length (m ! r) = 8" "i < 8" using assms(1,4) by (simp_all add: wide_ok_def)
  have 1: "length m1 = 128" "\<And>t. t < 8 \<Longrightarrow> m1 ! (16 * x + 7 - t) = ?H (fst sq) t (m ! (16 * x + 7 - t))"
    "\<And>r. (\<forall>t < 8. r \<noteq> 16 * x + 7 - t) \<Longrightarrow> m1 ! r = m ! r"
    using fold_row_updates [of 8 "\<lambda>t. 16 * x + 7 - t" m "?H (fst sq)"] assms(2) len by (auto simp: m1_def)
  have 2: "length m' = 128" "\<And>t. t < 8 \<Longrightarrow> m' ! (16 * x + 15 - t) = ?H (snd sq) t (m1 ! (16 * x + 15 - t))"
    "\<And>r. (\<forall>t < 8. r \<noteq> 16 * x + 15 - t) \<Longrightarrow> m' ! r = m1 ! r"
    using fold_row_updates [of 8 "\<lambda>t. 16 * x + 15 - t" m1 "?H (snd sq)"] assms(2) 1(1) by (auto simp: m')
  show "length m' = 128" by (rule 2(1))
  define t where "t = 7 - r mod 8"
  have t: "t < 8" "r mod 8 = 7 - t" by (simp_all add: t_def)
  consider (out) "r div 16 \<noteq> x" | (low) "r = 16 * x + 7 - t" "r mod 16 = 7 - t" "r div 16 = x"
    | (high) "r = 16 * x + 15 - t" "r mod 16 = 15 - t" "r div 16 = x"
  proof (cases "r div 16 = x")
    case True
    from square_coords(5) [of r] show thesis
    proof
      assume "r = 16 * (r div 16) + r mod 8"
      then have "r = 16 * x + (7 - t)" using True t(2) by simp
      then show thesis using low True t(1) square_coords(2) [of "7 - t" x] by simp
    next
      assume "r = 16 * (r div 16) + 8 + r mod 8"
      then have r: "r = 16 * x + (8 + (7 - t))" using True t(2) by simp
      have "7 - t < 8" by simp
      from square_coords(4) [OF this, of x, folded r] show thesis using high True t(1) r by simp
    qed
  qed blast
  then have row: "m' ! r = (if r div 16 = x then ?H (if r mod 16 < 8 then fst sq else snd sq) t (m ! r) else m ! r)"
  proof cases
    case out
    have "\<forall>t < 8. r \<noteq> 16 * x + 7 - t" "\<forall>t < 8. r \<noteq> 16 * x + 15 - t" using out by auto
    then show ?thesis using 1(3) 2(3) out by simp
  next
    case low
    have "\<forall>t' < 8. r \<noteq> 16 * x + 15 - t'" using low(1) t(1) by auto
    then show ?thesis using 1(2) [OF t(1)] 2(3) low t(1) by auto
  next
    case high
    have "\<forall>t' < 8. r \<noteq> 16 * x + 7 - t'" using high(1) t(1) by auto
    then show ?thesis using 1(3) 2(2) [OF t(1)] high t(1) by auto
  qed
  show "length (m' ! r) = 8" "j \<noteq> i \<Longrightarrow> m' ! r ! j = m ! r ! j" using row len by auto
  have "r mod 16 mod 8 = 7 - t" using t(2) by (simp add: mod_mod_cancel)
  then show "c < 128 \<Longrightarrow> bit (m' ! r ! i) c =
      (if r div 16 = x \<and> c div 16 = y then square_bit sq (c mod 16) (r mod 16) else bit (m ! r ! i) c)"
    using row len assms(3) t(1) by (auto simp: bit_set_u16 movemask_slli square_bit_def)
qed

interpretation wide: bit_squares "wide_ok i" "\<lambda>m r c. bit (m ! r ! i) c" "\<lambda>m x y. sse_load_sub_square_x m x y i"
  "\<lambda>m sq x y. sse_transpose_sub_square_x m sq x y i" for i
proof
  show "wide_ok i m \<Longrightarrow> x < 8 \<Longrightarrow> y < 8 \<Longrightarrow> wide_ok i (sse_transpose_sub_square_x m s x y i)" for m s x y
    using sse_place_x(1) [of i m x y 0 s] sse_place_x(2) [of i m x y _ s] by (simp add: wide_ok_def)
qed (simp add: sse_place_x(4) square_bit_load_x)

text \<open>A transposition of one block column after the other.\<close>

definition column :: "nat \<Rightarrow> u128 list list \<Rightarrow> u128 list" where
  "column i m = map (\<lambda>row. row ! i) m"

definition shape :: "u128 list list \<Rightarrow> bool" where
  "shape m \<longleftrightarrow> length m = 128 \<and> (\<forall>r < 128. length (m ! r) = 8)"

definition transposes_column :: "(u128 list list \<Rightarrow> u128 list list) \<Rightarrow> nat \<Rightarrow> bool" where
  "transposes_column f i \<longleftrightarrow> (\<forall>m. shape m \<longrightarrow> shape (f m) \<and> column i (f m) = naive_transpose (column i m) \<and>
     (\<forall>j < 8. j \<noteq> i \<longrightarrow> column j (f m) = column j m))"

lemma wide_ok_shape: "wide_ok i m \<longleftrightarrow> shape m \<and> i < 8"
  by (auto simp: wide_ok_def shape_def)

lemma shape_eqI:
  assumes "shape m" "shape m'" "\<And>i. i < 8 \<Longrightarrow> column i m = column i m'"
  shows "m = m'"
proof (intro nth_equalityI)
  fix r i assume "r < length m" "i < length (m ! r)"
  then have r: "r < 128" "i < 8" "length m = 128" "length m' = 128" using assms(1,2) by (auto simp: shape_def)
  then have "column i m ! r = column i m' ! r" using assms(3) by simp
  then show "m ! r ! i = m' ! r ! i" using r by (simp add: column_def)
qed (use assms(1,2) in \<open>simp_all add: shape_def\<close>)

lemma transposes_columns:
  assumes "\<And>i. i < 8 \<Longrightarrow> transposes_column (f i) i" "shape m"
  shows "shape (fold f [0..<8] m)" "i < 8 \<Longrightarrow> column i (fold f [0..<8] m) = naive_transpose (column i m)"
proof -
  have "shape (fold f [0..<n] m) \<and>
      (\<forall>i < 8. column i (fold f [0..<n] m) = (if i < n then naive_transpose (column i m) else column i m))" if "n \<le> 8" for n
    using that
  proof (induction n)
    case (Suc n)
    let ?m1 = "fold f [0..<n] m"
    have IH: "shape ?m1" "\<forall>i < 8. column i ?m1 = (if i < n then naive_transpose (column i m) else column i m)"
      using Suc by simp_all
    have "shape (f n ?m1)" "column n (f n ?m1) = naive_transpose (column n ?m1)" "\<forall>j < 8. j \<noteq> n \<longrightarrow> column j (f n ?m1) = column j ?m1"
      using assms(1) [of n] Suc.prems IH(1) by (auto simp: transposes_column_def)
    then show ?case using IH(2) Suc.prems by (auto simp: less_Suc_eq)
  qed (use assms(2) in simp)
  from this [OF order_refl] show "shape (fold f [0..<8] m)"
    "i < 8 \<Longrightarrow> column i (fold f [0..<8] m) = naive_transpose (column i m)" by auto
qed

lemma sse_column:
  assumes "i < 8"
  shows "transposes_column (wide.transpose_all i) i"
  unfolding transposes_column_def
proof (intro allI impI)
  fix m assume "shape m"
  then have ok: "wide_ok i m" using assms by (simp add: wide_ok_shape)
  let ?m' = "wide.transpose_all i m"
  have t: "wide_ok i ?m'" "\<And>r c. r < 128 \<Longrightarrow> c < 128 \<Longrightarrow> bit (?m' ! r ! i) c = bit (m ! c ! i) r"
    using wide.transpose_all_correct [OF ok] by (auto simp: wide.transposed_on_def)
  let ?Q = "\<lambda>m'. wide_ok i m' \<and> (\<forall>r < 128. \<forall>j. j \<noteq> i \<longrightarrow> m' ! r ! j = m ! r ! j)"
  have place: "?Q (sse_transpose_sub_square_x m1 sq x y i)" if "?Q m1" "x < 8" "y < 8" for m1 sq x y
  proof -
    have "wide_ok i (sse_transpose_sub_square_x m1 sq x y i)" using wide.place_ok that by blast
    then show ?thesis using sse_place_x(3) [of i m1 x y _ _ sq] that by auto
  qed
  have "?Q ?m'" unfolding wide.transpose_all_def
  proof (rule fold_invariant [where Q = "\<lambda>j. j < 8"])
    show "?Q (fold (wide.exchange i j) [0..<j] (sse_transpose_sub_square_x m1 (sse_load_sub_square_x m1 j j i) j j i))"
      if "j < 8" "?Q m1" for j m1
    proof (rule fold_invariant [where Q = "\<lambda>k. k < 8"])
      show "?Q (wide.exchange i j k m2)" if "k < 8" "?Q m2" for k m2
        unfolding wide.exchange_def Let_def using \<open>j < 8\<close> that by (intro place)
    qed (use that place in auto)
  qed (use ok in auto)
  moreover have "column i ?m' = naive_transpose (column i m)"
    using t ok by (intro naive_transpose_eqI) (simp_all add: column_def wide_ok_def)
  ultimately show "shape ?m' \<and> column i ?m' = naive_transpose (column i m) \<and> (\<forall>j < 8. j \<noteq> i \<longrightarrow> column j ?m' = column j m)"
    using ok by (auto simp: wide_ok_shape shape_def column_def intro!: nth_equalityI)
qed

lemma eklundh_column:
  assumes "i < 8"
  shows "transposes_column (\<lambda>m. let sub = eklundh_transpose128 (map (\<lambda>j. m ! j ! i) [0..<128]) in
    fold (\<lambda>j m. m[j := (m ! j)[i := sub ! j]]) [0..<128] m) i"
  unfolding transposes_column_def
proof (intro allI impI)
  fix m assume "shape m"
  then have sh: "length m = 128" "\<And>r. r < 128 \<Longrightarrow> length (m ! r) = 8" by (simp_all add: shape_def)
  have col: "map (\<lambda>j. m ! j ! i) [0..<128] = column i m"
    using sh(1) by (intro nth_equalityI) (simp_all add: column_def)
  define sub where "sub = eklundh_transpose128 (column i m)"
  have sub: "sub = naive_transpose (column i m)" using sh(1) by (simp add: sub_def eklundh_transpose128_eq column_def)
  define m' where "m' = fold (\<lambda>j m. m[j := (m ! j)[i := sub ! j]]) [0..<128] m"
  have m': "length m' = 128" "\<And>r. r < 128 \<Longrightarrow> m' ! r = (m ! r)[i := sub ! r]"
    using fold_row_updates [of 128 "\<lambda>j. j" m "\<lambda>j row. row[i := sub ! j]"] sh(1) by (simp_all add: m'_def)
  have "shape m'" using m' sh by (simp add: shape_def)
  moreover have "column i m' = sub"
    using m' sh assms by (intro nth_equalityI) (simp_all add: column_def sub)
  moreover have "column j m' = column j m" if "j \<noteq> i" for j
    using m' sh that by (intro nth_equalityI) (simp_all add: column_def)
  ultimately have "shape m' \<and> column i m' = naive_transpose (column i m) \<and> (\<forall>j < 8. j \<noteq> i \<longrightarrow> column j m' = column j m)"
    using sub by simp
  then show "shape (let sub = eklundh_transpose128 (map (\<lambda>j. m ! j ! i) [0..<128]) in fold (\<lambda>j m. m[j := (m ! j)[i := sub ! j]]) [0..<128] m) \<and>
    column i (let sub = eklundh_transpose128 (map (\<lambda>j. m ! j ! i) [0..<128]) in fold (\<lambda>j m. m[j := (m ! j)[i := sub ! j]]) [0..<128] m) =
      naive_transpose (column i m) \<and>
    (\<forall>j < 8. j \<noteq> i \<longrightarrow> column j (let sub = eklundh_transpose128 (map (\<lambda>j. m ! j ! i) [0..<128]) in
      fold (\<lambda>j m. m[j := (m ! j)[i := sub ! j]]) [0..<128] m) = column j m)"
    unfolding col Let_def sub_def [symmetric] m'_def [symmetric] .
qed

subsection \<open>The property\<close>

text \<open>C12: On every machine \<open>MatrixTranspose128\<close> computes the transposed matrix, bit by bit that of \<open>NaiveTranspose\<close>:
  Eklundh's method and the version with vector instructions give the same result. The same holds for every
  block column of \<open>MatrixTranspose128x1024\<close>.\<close>

theorem transpositions_agree:
  assumes "length m = 128" "length w = 128" "\<forall>r < 128. length (w ! r) = 8"
  shows "(\<forall>r < 128. \<forall>c < 128. bit (naive_transpose m ! r) c = bit (m ! c) r) \<and>
    eklundh_transpose128 m = naive_transpose m \<and> sse_transpose128 m = naive_transpose m \<and>
    matrix_transpose128 sse2 m = naive_transpose m \<and>
    eklundh_transpose128x1024 w = sse_transpose128x1024 w \<and>
    (\<forall>i < 8. map (\<lambda>row. row ! i) (matrix_transpose128x1024 sse2 w) = naive_transpose (map (\<lambda>row. row ! i) w))"
proof -
  have sh: "shape w" using assms by (simp add: shape_def)
  have s: "sse_transpose128x1024 w = fold wide.transpose_all [0..<8] w"
    unfolding sse_transpose128x1024_def wide.transpose_all_def [abs_def] wide.exchange_def [abs_def] Let_def by simp
  note sse = transposes_columns [of wide.transpose_all, OF sse_column sh, folded s]
  note ekl = transposes_columns [OF eklundh_column sh, folded eklundh_transpose128x1024_def]
  have "eklundh_transpose128x1024 w = sse_transpose128x1024 w"
    using sse ekl by (intro shape_eqI) simp_all
  moreover have "\<forall>i < 8. column i (matrix_transpose128x1024 sse2 w) = naive_transpose (column i w)"
    using sse(2) ekl(2) by (simp add: matrix_transpose128x1024_def)
  ultimately show ?thesis using assms(1)
    by (simp add: naive_transpose_bit eklundh_transpose128_eq sse_transpose128_eq matrix_transpose128_def column_def)
qed

text \<open>A matrix with different rows.\<close>

theorem transpositions_agree_witness:
  "sse_transpose128 (map of_nat [0..<128]) = naive_transpose (map of_nat [0..<128]) \<and>
   eklundh_transpose128x1024 (replicate 128 (replicate 8 5)) = sse_transpose128x1024 (replicate 128 (replicate 8 5))"
  using transpositions_agree [of "map of_nat [0..<128]" "replicate 128 (replicate 8 5)"] by simp

end
