(* ===== verification/Cr_Hash.thy ===== *)
theory Cr_Hash
  imports Matrix_Transpose_Properties
begin

text \<open>
  \<open>crypto/tools/crhash.cc\<close>: the correlation robust hashes of blocks. The permutation of blocks (AES in ECB mode
  with a fixed key, of OpenSSL or of the processor) is outside the repository: it is the parameter \<open>rp\<close>, applied block by block.
\<close>

subsection \<open>Sigma\<close>

definition lo64 :: "u128 \<Rightarrow> u64" where
  "lo64 w = ucast w"

definition hi64 :: "u128 \<Rightarrow> u64" where
  "hi64 w = ucast (drop_bit 64 w)"

text \<open>\<open>_mm_shuffle_epi32\<close> with 0b01001110, and \<open>_mm_unpackhi_epi64\<close> and \<open>_mm_unpacklo_epi64\<close> with zero.\<close>

definition exchange_halves :: "u128 \<Rightarrow> u128" where
  "exchange_halves w = make_uint128 (lo64 w) (hi64 w)"

definition unpackhi_zero :: "u128 \<Rightarrow> u128" where
  "unpackhi_zero w = make_uint128 0 (hi64 w)"

definition unpacklo_zero :: "u128 \<Rightarrow> u128" where
  "unpacklo_zero w = make_uint128 0 (lo64 w)"

definition sigma :: "u128 \<Rightarrow> u128" where
  "sigma x = exchange_halves x XOR unpackhi_zero x"

text \<open>The number of blocks is kept in 32 bits.\<close>

definition sigma_span :: "u128 list \<Rightarrow> u128 list" where
  "sigma_span xs = (let num = length xs mod 2 ^ 32 in
     map (\<lambda>x. exchange_halves x XOR unpacklo_zero x) (take num xs))"

definition sigma_inplace :: "u128 list \<Rightarrow> u128 list" where
  "sigma_inplace xs = (let num = length xs mod 2 ^ 32 in
     map (\<lambda>x. exchange_halves x XOR unpacklo_zero x) (take num xs) @ drop num xs)"

subsection \<open>The hashes\<close>

definition cr_hash_128 :: "(u128 \<Rightarrow> u128) \<Rightarrow> u128 \<Rightarrow> u128" where
  "cr_hash_128 rp x = rp x XOR x"

definition para_cr_hash_128 :: "(u128 \<Rightarrow> u128) \<Rightarrow> u128 list \<Rightarrow> u128 list" where
  "para_cr_hash_128 rp xs = map2 (XOR) xs (map rp xs)"

text \<open>A subspan is replaced by what a function makes of it.\<close>

definition on_subspan :: "nat \<Rightarrow> nat \<Rightarrow> (u128 list \<Rightarrow> u128 list) \<Rightarrow> u128 list \<Rightarrow> u128 list" where
  "on_subspan offset n f xs = take offset xs @ f (take n (drop offset xs)) @ drop (offset + n) xs"

definition cr_hash_batch :: "(u128 \<Rightarrow> u128) \<Rightarrow> u128 list \<Rightarrow> u128 list" where
  "cr_hash_batch rp span = (let tmp = map rp span in map2 (XOR) tmp span)"

function para_cr_hash_loop :: "(u128 \<Rightarrow> u128) \<Rightarrow> nat \<Rightarrow> nat \<Rightarrow> u128 list \<Rightarrow> u128 list" where
  "para_cr_hash_loop rp n offset xs =
     (if offset + 1024 \<le> n then para_cr_hash_loop rp n (offset + 1024) (on_subspan offset 1024 (cr_hash_batch rp) xs)
      else let remain = n - offset in
        if remain > 0 then on_subspan offset remain (cr_hash_batch rp) xs else xs)"
  by pat_completeness auto

termination
  by (relation "measure (\<lambda>(rp, n, offset, xs). n - offset)") auto

declare para_cr_hash_loop.simps [simp del]

definition para_cr_hash_inplace_128 :: "(u128 \<Rightarrow> u128) \<Rightarrow> u128 list \<Rightarrow> u128 list" where
  "para_cr_hash_inplace_128 rp inout = para_cr_hash_loop rp (length inout) 0 inout"

definition ccr_hash_128 :: "(u128 \<Rightarrow> u128) \<Rightarrow> u128 \<Rightarrow> u128" where
  "ccr_hash_128 rp x = cr_hash_128 rp (sigma x)"

definition para_ccr_hash_128 :: "(u128 \<Rightarrow> u128) \<Rightarrow> u128 list \<Rightarrow> u128 list" where
  "para_ccr_hash_128 rp xs = para_cr_hash_inplace_128 rp (sigma_span xs)"

function para_ccr_hash_loop :: "(u128 \<Rightarrow> u128) \<Rightarrow> nat \<Rightarrow> nat \<Rightarrow> u128 list \<Rightarrow> u128 list" where
  "para_ccr_hash_loop rp n offset xs =
     (let step = (\<lambda>k xs. on_subspan offset k (para_cr_hash_inplace_128 rp) (on_subspan offset k sigma_inplace xs)) in
      if offset + 1024 < n then para_ccr_hash_loop rp n (offset + 1024) (step 1024 xs)
      else step (n - offset) xs)"
  by pat_completeness auto

termination
  by (relation "measure (\<lambda>(rp, n, offset, xs). n - offset)") auto

declare para_ccr_hash_loop.simps [simp del]

definition para_ccr_hash_inplace_128 :: "(u128 \<Rightarrow> u128) \<Rightarrow> u128 list \<Rightarrow> u128 list" where
  "para_ccr_hash_inplace_128 rp inout = para_ccr_hash_loop rp (length inout) 0 inout"

subsection \<open>The batch hashes hash every block\<close>

lemma map2_map_same: "map2 f (map g xs) xs = map (\<lambda>x. f (g x) x) xs" "map2 f xs (map g xs) = map (\<lambda>x. f x (g x)) xs"
  by (induction xs) simp_all

lemma cr_hash_batch_eq: "cr_hash_batch rp = map (cr_hash_128 rp)"
  by (simp add: fun_eq_iff cr_hash_batch_def map2_map_same cr_hash_128_def)

lemma para_cr_hash_eq: "para_cr_hash_128 rp = map (cr_hash_128 rp)"
  by (simp add: fun_eq_iff para_cr_hash_128_def map2_map_same cr_hash_128_def xor.commute)

text \<open>A batch hashed, and the rest still to be hashed.\<close>

lemma on_subspan_map:
  assumes "offset + k \<le> length xs"
  shows "take (offset + k) (on_subspan offset k (map f) xs) = take offset xs @ map f (take k (drop offset xs))"
    "drop (offset + k) (on_subspan offset k (map f) xs) = drop (offset + k) xs"
    "length (on_subspan offset k (map f) xs) = length xs"
  using assms by (simp_all add: on_subspan_def)

lemma map_split_at:
  assumes "offset + k \<le> length xs"
  shows "map f (take k (drop offset xs)) @ map f (drop (offset + k) xs) = map f (drop offset xs)"
  using append_take_drop_id [of k "drop offset xs"] by (metis drop_drop add.commute map_append)

lemma para_cr_hash_loop_eq:
  "offset \<le> length xs \<Longrightarrow> n = length xs \<Longrightarrow>
   para_cr_hash_loop rp n offset xs = take offset xs @ map (cr_hash_128 rp) (drop offset xs)"
proof (induction rp n offset xs rule: para_cr_hash_loop.induct)
  case (1 rp n offset xs)
  show ?case
  proof (cases "offset + 1024 \<le> n")
    case True
    then have len: "offset + 1024 \<le> length xs"
      using "1.prems" by simp
    have "para_cr_hash_loop rp n offset xs =
        para_cr_hash_loop rp n (offset + 1024) (on_subspan offset 1024 (map (cr_hash_128 rp)) xs)"
      using True by (subst para_cr_hash_loop.simps) (simp add: cr_hash_batch_eq)
    also have "\<dots> = take offset xs @ map (cr_hash_128 rp) (drop offset xs)"
      using "1.IH" [OF True] "1.prems" len on_subspan_map [OF len] map_split_at [OF len]
      by (simp add: cr_hash_batch_eq)
    finally show ?thesis .
  next
    case False
    then show ?thesis
      using "1.prems" by (subst para_cr_hash_loop.simps) (simp add: Let_def on_subspan_def cr_hash_batch_eq)
  qed
qed

lemma para_cr_hash_inplace_eq: "para_cr_hash_inplace_128 rp = map (cr_hash_128 rp)"
  by (simp add: fun_eq_iff para_cr_hash_inplace_128_def para_cr_hash_loop_eq)

text \<open>The documented \<open>Sigma\<close>, which the versions for many blocks compute.\<close>

definition sigma_spec :: "u128 \<Rightarrow> u128" where
  "sigma_spec x = make_uint128 (lo64 x) (lo64 x XOR hi64 x)"

lemma bit_make_uint128: "bit (make_uint128 h l) p \<longleftrightarrow> (if p < 64 then bit l p else p < 128 \<and> bit h (p - 64))"
  by (auto simp: make_uint128_def bit_or_iff bit_push_bit_iff bit_unsigned_iff dest: bit_imp_le_length)

lemma make_uint128_xor: "make_uint128 a b XOR make_uint128 c d = make_uint128 (a XOR c) (b XOR d)"
  by (rule bit_word_eqI) (simp add: bit_xor_iff bit_make_uint128)

lemma sigma_many: "exchange_halves x XOR unpacklo_zero x = sigma_spec x"
  by (simp add: exchange_halves_def unpacklo_zero_def sigma_spec_def make_uint128_xor xor.commute)

lemma sigma_span_eq: "length xs < 2 ^ 32 \<Longrightarrow> sigma_span xs = map sigma_spec xs"
  by (simp add: sigma_span_def sigma_many)

lemma sigma_inplace_eq: "length xs < 2 ^ 32 \<Longrightarrow> sigma_inplace xs = map sigma_spec xs"
  by (simp add: sigma_inplace_def sigma_many)

lemma para_ccr_hash_eq: "length xs < 2 ^ 32 \<Longrightarrow> para_ccr_hash_128 rp xs = map (\<lambda>x. cr_hash_128 rp (sigma_spec x)) xs"
  by (simp add: para_ccr_hash_128_def para_cr_hash_inplace_eq sigma_span_eq)

lemma ccr_step_eq:
  assumes "offset + k \<le> length xs" "k \<le> 1024"
  shows "on_subspan offset k (para_cr_hash_inplace_128 rp) (on_subspan offset k sigma_inplace xs) =
    on_subspan offset k (map (\<lambda>x. cr_hash_128 rp (sigma_spec x))) xs"
proof -
  have "length (take k (drop offset xs)) < 2 ^ 32"
    using assms by simp
  then have "on_subspan offset k sigma_inplace xs = on_subspan offset k (map sigma_spec) xs"
    by (simp add: on_subspan_def sigma_inplace_eq)
  then show ?thesis
    using assms by (simp add: on_subspan_def para_cr_hash_inplace_eq o_def)
qed

lemma para_ccr_hash_loop_eq:
  "offset \<le> length xs \<Longrightarrow> n = length xs \<Longrightarrow>
   para_ccr_hash_loop rp n offset xs = take offset xs @ map (\<lambda>x. cr_hash_128 rp (sigma_spec x)) (drop offset xs)"
proof (induction rp n offset xs rule: para_ccr_hash_loop.induct)
  case (1 rp n offset xs)
  let ?f = "\<lambda>x. cr_hash_128 rp (sigma_spec x)"
  show ?case
  proof (cases "offset + 1024 < n")
    case True
    then have len: "offset + 1024 \<le> length xs"
      using "1.prems" by simp
    have "para_ccr_hash_loop rp n offset xs = para_ccr_hash_loop rp n (offset + 1024) (on_subspan offset 1024 (map ?f) xs)"
      using True by (subst para_ccr_hash_loop.simps) (simp add: ccr_step_eq len)
    also have "\<dots> = take offset xs @ map ?f (drop offset xs)"
      using "1.IH" [OF refl True] "1.prems" len on_subspan_map [OF len] map_split_at [OF len]
      by (simp add: ccr_step_eq)
    finally show ?thesis .
  next
    case False
    then have "offset + (n - offset) \<le> length xs" "n - offset \<le> 1024"
      using "1.prems" by auto
    from ccr_step_eq [OF this, of rp] have "para_ccr_hash_loop rp n offset xs = on_subspan offset (n - offset) (map ?f) xs"
      using False by (subst para_ccr_hash_loop.simps) (simp add: Let_def)
    then show ?thesis
      using "1.prems" by (simp add: on_subspan_def)
  qed
qed

lemma para_ccr_hash_inplace_eq: "para_ccr_hash_inplace_128 rp = map (\<lambda>x. cr_hash_128 rp (sigma_spec x))"
  by (simp add: fun_eq_iff para_ccr_hash_inplace_128_def para_ccr_hash_loop_eq)

text \<open>The version for one block loses the upper half of its argument: it is not \<open>sigma_spec\<close>, and
  blocks that differ only there have the same hash.\<close>

lemma sigma_loses_high: "sigma x = make_uint128 (lo64 x) 0"
  by (simp add: sigma_def exchange_halves_def unpackhi_zero_def make_uint128_xor)

lemma ccr_hash_collides: "lo64 x = lo64 y \<Longrightarrow> ccr_hash_128 rp x = ccr_hash_128 rp y"
  by (simp add: ccr_hash_128_def sigma_loses_high)

lemma sigma_differs: "lo64 x \<noteq> hi64 x \<Longrightarrow> sigma x \<noteq> sigma_spec x"
proof
  assume ne: "lo64 x \<noteq> hi64 x" and eq: "sigma x = sigma_spec x"
  have "bit (lo64 x) p = bit (hi64 x) p" if "p < 64" for p
    using arg_cong [OF eq, where f = "\<lambda>w. bit w p"] that
    by (simp add: sigma_loses_high sigma_spec_def bit_make_uint128 bit_xor_iff)
  then have "lo64 x = hi64 x"
    by (intro bit_word_eqI) simp
  with ne show False ..
qed

end
