(* ===== verification/Iknp_Ote.thy ===== *)
theory Iknp_Ote
  imports Collectives_Properties Ot_Store_Properties Cr_Hash
begin

text \<open>
  \<open>kernel/algorithms/iknp_ote.cc\<close>: the extension of 128 oblivious transfers to any number, by the two parties of a
  link context. The generator \<open>PrgAesCtr\<close> ends in a block cipher outside the repository: \<open>prg seed n j\<close> is block
  \<open>j\<close> of a span of \<open>n\<close> blocks it fills. \<open>rp\<close> is the permutation of the hash, and \<open>sse2\<close> tells whether the processor has the
  vector instructions of the transposition.
\<close>

definition kBatchSize :: nat where
  "kBatchSize = 128"

definition kKappa :: nat where
  "kKappa = 128"

fun rmap :: "('a \<Rightarrow> 'b result) \<Rightarrow> 'a list \<Rightarrow> 'b list result" where
  "rmap f [] = Inr []"
| "rmap f (x # xs) = rbind (f x) (\<lambda>y. rbind (rmap f xs) (\<lambda>ys. Inr (y # ys)))"

text \<open>The memory of an array of blocks.\<close>

definition block_bytes :: "u128 \<Rightarrow> bytes" where
  "block_bytes w = map (get_byte w) [0..<16]"

definition blocks_bytes :: "u128 list \<Rightarrow> bytes" where
  "blocks_bytes ws = concat (map block_bytes ws)"

text \<open>\<open>memcpy\<close> of a message into an array of 128 blocks: a longer message is written beyond the array, a shorter one
  leaves blocks without a value.\<close>

definition load_batch :: "bytes \<Rightarrow> u128 list result" where
  "load_batch buf =
     rbind (assert_that (length buf = 16 * kBatchSize)) (\<lambda>_.
     Inr (map (\<lambda>k. of_bytes (take 16 (drop (16 * k) buf))) [0..<kBatchSize]))"

definition xor_batched_block :: "u128 list \<Rightarrow> u128 \<Rightarrow> u128 list" where
  "xor_batched_block ws block = map (\<lambda>w. w XOR block) ws"

definition batch_num :: "nat \<Rightarrow> nat" where
  "batch_num n = (n + kBatchSize - 1) div kBatchSize"

definition block_num :: "nat \<Rightarrow> nat" where
  "block_num n = batch_num n * kBatchSize div 128"

text \<open>The first block of the choices, \<open>*tmp_choice.data()\<close>.\<close>

definition choice_block :: "ot_heap \<Rightarrow> ot_recv_store \<Rightarrow> u128 result" where
  "choice_block h base_ot = rbind (rs_copy_bit_buf h base_ot) (\<lambda>tmp_choice. at_idx (m_blocks tmp_choice) 0)"

subsection \<open>The sender\<close>

text \<open>One iteration of the loop: the pairs of messages of batch \<open>i\<close>.\<close>

definition iknp_send_batch ::
  "(u128 \<Rightarrow> u128) \<Rightarrow> bool \<Rightarrow> ot_heap \<Rightarrow> ot_recv_store \<Rightarrow> nat \<Rightarrow> bool \<Rightarrow> u128 list list \<Rightarrow> nat \<Rightarrow> (link_ctx, (u128 \<times> u128) list) party" where
  "iknp_send_batch rp sse2 h base_ot n cot ts i =
     (let batch_offset = i * kBatchSize div 128 in
      party_bind (party_get (\<lambda>c. next_rank c 1)) (\<lambda>peer.
      party_bind (ctx_recv peer) (\<lambda>buf.
      party_bind (party_lift (load_batch buf)) (\<lambda>batch0.
      party_bind (party_lift (rmap (\<lambda>k.
          rbind (rs_get_choice h base_ot (of_nat k)) (\<lambda>c.
          rbind (at_idx (ts ! k) batch_offset) (\<lambda>t.
          Inr (if c \<noteq> 0 then batch0 ! k XOR t else t)))) [0..<kKappa])) (\<lambda>batch0.
      let batch0 = matrix_transpose128 sse2 batch0 in
      party_bind (party_lift (choice_block h base_ot)) (\<lambda>choice.
      let batch1 = xor_batched_block batch0 choice;
          batch0 = (if \<not> cot then para_cr_hash_inplace_128 rp batch0 else batch0);
          batch1 = (if \<not> cot then para_cr_hash_inplace_128 rp batch1 else batch1);
          limit = min kBatchSize (n - i * kBatchSize) in
      party_return (map (\<lambda>j. (batch0 ! j, batch1 ! j)) [0..<limit])))))))"

text \<open>The messages are written to \<open>send_blocks\<close> (of size \<open>n\<close>) batch after batch, from its begin to its end.\<close>

definition iknp_ot_ext_send ::
  "(u128 \<Rightarrow> nat \<Rightarrow> nat \<Rightarrow> u128) \<Rightarrow> (u128 \<Rightarrow> u128) \<Rightarrow> bool \<Rightarrow> ot_heap \<Rightarrow> ot_recv_store \<Rightarrow> nat \<Rightarrow> bool \<Rightarrow>
    (link_ctx, (u128 \<times> u128) list) party" where
  "iknp_ot_ext_send prg rp sse2 h base_ot n cot =
     party_bind (party_get world_size) (\<lambda>w.
     party_bind (party_enforce (w = 2)) (\<lambda>_.
     party_bind (party_enforce (rs_size base_ot = of_nat kKappa)) (\<lambda>_.
     party_bind (party_enforce (n \<noteq> 0)) (\<lambda>_.
     party_bind (party_enforce (\<not> is_sliced (rs_slice base_ot))) (\<lambda>_.
     party_bind (party_lift (rmap (\<lambda>k.
         rbind (rs_get_block h base_ot (of_nat k)) (\<lambda>b. Inr (map (prg b (block_num n)) [0..<block_num n]))) [0..<kKappa])) (\<lambda>ts.
     party_bind (party_map (iknp_send_batch rp sse2 h base_ot n cot ts) [0..<block_num n]) (\<lambda>batches.
     party_return (concat batches))))))))"

subsection \<open>The receiver\<close>

definition iknp_recv_batch ::
  "(u128 \<Rightarrow> u128) \<Rightarrow> bool \<Rightarrow> nat \<Rightarrow> bool \<Rightarrow> 128 bitset \<Rightarrow> u128 list list \<Rightarrow> u128 list list \<Rightarrow> nat \<Rightarrow> (link_ctx, u128 list) party" where
  "iknp_recv_batch rp sse2 n cot choices_copy t0 t1 i =
     (let batch_offset = i * kBatchSize div 128 in
      party_bind (party_lift (at_idx (m_blocks choices_copy) i)) (\<lambda>batch_choice.
      party_bind (party_lift (rmap (\<lambda>k.
          rbind (at_idx (t0 ! k) batch_offset) (\<lambda>a.
          rbind (at_idx (t1 ! k) batch_offset) (\<lambda>b. Inr (a XOR b XOR batch_choice, a)))) [0..<kKappa])) (\<lambda>rows.
      let batch_data = map fst rows; batch = map snd rows in
      party_bind (party_get (\<lambda>c. next_rank c 1)) (\<lambda>peer.
      party_bind (ctx_send_async peer (blocks_bytes batch_data)) (\<lambda>_.
      let batch = matrix_transpose128 sse2 batch;
          limit = min kBatchSize (n - i * kBatchSize);
          batch = (if \<not> cot then para_cr_hash_inplace_128 rp batch else batch) in
      party_return (map (\<lambda>j. batch ! j) [0..<limit]))))))"

definition iknp_ot_ext_recv ::
  "(u128 \<Rightarrow> nat \<Rightarrow> nat \<Rightarrow> u128) \<Rightarrow> (u128 \<Rightarrow> u128) \<Rightarrow> bool \<Rightarrow> ot_heap \<Rightarrow> ot_send_store \<Rightarrow> 128 bitset \<Rightarrow> nat \<Rightarrow> bool \<Rightarrow>
    (link_ctx, u128 list) party" where
  "iknp_ot_ext_recv prg rp sse2 h base_ot choices n cot =
     party_bind (party_get world_size) (\<lambda>w.
     party_bind (party_enforce (w = 2)) (\<lambda>_.
     party_bind (party_enforce (ss_size base_ot = of_nat kKappa)) (\<lambda>_.
     party_bind (party_enforce (n = size_bits choices)) (\<lambda>_.
     party_bind (party_enforce (n \<noteq> 0)) (\<lambda>_.
     party_bind (party_enforce (\<not> is_sliced (ss_slice base_ot))) (\<lambda>_.
     party_bind (party_lift (rmap (\<lambda>k.
         rbind (ss_get_block h base_ot (of_nat k) 0) (\<lambda>b0.
         rbind (ss_get_block h base_ot (of_nat k) 1) (\<lambda>b1.
         Inr (map (prg b0 (block_num n)) [0..<block_num n], map (prg b1 (block_num n)) [0..<block_num n]))))
         [0..<kKappa])) (\<lambda>ts.
     party_bind (party_lift (resize choices (batch_num n * kBatchSize) False)) (\<lambda>choices_copy.
     party_bind (party_map (iknp_recv_batch rp sse2 n cot choices_copy (map fst ts) (map snd ts)) [0..<batch_num n]) (\<lambda>batches.
     party_return (concat batches))))))))))"

subsection \<open>Stores of extended transfers\<close>

definition iknp_ot_ext_send_store ::
  "(u128 \<Rightarrow> nat \<Rightarrow> nat \<Rightarrow> u128) \<Rightarrow> (u128 \<Rightarrow> u128) \<Rightarrow> bool \<Rightarrow> ot_heap \<Rightarrow> ot_recv_store \<Rightarrow> u32 \<Rightarrow> bool \<Rightarrow>
    (link_ctx, ot_send_store \<times> ot_heap) party" where
  "iknp_ot_ext_send_store prg rp sse2 h base_ot ot_num cot =
     party_bind (iknp_ot_ext_send prg rp sse2 h base_ot (unat ot_num) cot) (\<lambda>blocks.
     party_bind (party_lift (make_ot_send_store h blocks)) (\<lambda>(ret, h').
     if cot then
       party_bind (party_lift (choice_block h' base_ot)) (\<lambda>choice.
       party_bind (party_lift (ss_set_delta ret choice)) (\<lambda>ret. party_return (ret, h')))
     else party_return (ret, h')))"

definition iknp_ot_ext_recv_store ::
  "(u128 \<Rightarrow> nat \<Rightarrow> nat \<Rightarrow> u128) \<Rightarrow> (u128 \<Rightarrow> u128) \<Rightarrow> bool \<Rightarrow> ot_heap \<Rightarrow> ot_send_store \<Rightarrow> 128 bitset \<Rightarrow> u32 \<Rightarrow> bool \<Rightarrow>
    (link_ctx, ot_recv_store \<times> ot_heap) party" where
  "iknp_ot_ext_recv_store prg rp sse2 h base_ot choices ot_num cot =
     party_bind (iknp_ot_ext_recv prg rp sse2 h base_ot choices (unat ot_num) cot) (\<lambda>blocks.
     party_lift (make_ot_recv_store h choices blocks))"

end
