(* ===== verification/Iknp_Ote_Properties.thy ===== *)
theory Iknp_Ote_Properties
  imports Iknp_Ote
begin

text \<open>
  The extended transfers are transfers: in every interleaving the two parties end, and the receiver holds
  of each pair of the sender's messages the one of its choice.
\<close>

subsection \<open>Blocks as bytes\<close>

lemma rmap_Inr: "(\<And>x. x \<in> set xs \<Longrightarrow> f x = Inr (g x)) \<Longrightarrow> rmap f xs = Inr (map g xs)"
  by (induction xs) simp_all

lemma length_block_bytes [simp]: "length (block_bytes w) = 16"
  by (simp add: block_bytes_def)

lemma of_block_bytes: "of_bytes (block_bytes w) = w"
proof (rule bit_word_eqI)
  fix p assume "p < LENGTH(128)"
  then have "p = 8 * (p div 8) + p mod 8" "p div 8 < 16" "p mod 8 < 8"
    by simp_all
  then show "bit (of_bytes (block_bytes w)) p = bit w p"
    using bit_of_bytes [of "p div 8" "block_bytes w" "p mod 8"] bit_get_byte [of "p mod 8" w "p div 8"]
    by (simp add: block_bytes_def)
qed

lemma blocks_bytes_nth: "k < length ws \<Longrightarrow> take 16 (drop (16 * k) (blocks_bytes ws)) = block_bytes (ws ! k)"
proof (induction ws arbitrary: k)
  case (Cons w ws)
  then show ?case
    by (cases k) (simp_all add: blocks_bytes_def)
qed simp

lemma length_blocks_bytes: "length (blocks_bytes ws) = 16 * length ws"
  by (induction ws) (simp_all add: blocks_bytes_def)

lemma load_blocks_bytes: "length ws = 128 \<Longrightarrow> load_batch (blocks_bytes ws) = Inr ws"
  by (auto simp: load_batch_def assert_that_def length_blocks_bytes kBatchSize_def blocks_bytes_nth of_block_bytes
      intro!: nth_equalityI)

subsection \<open>The choices of the base transfers\<close>

text \<open>A normal store whose use range lies in its buffers, and the choices of that range.\<close>

definition rs_choices :: "ot_heap \<Rightarrow> ot_recv_store \<Rightarrow> bool list \<Rightarrow> bool" where
  "rs_choices h s cs \<longleftrightarrow> rs_type s = Normal \<and> length cs = unat (internal_use_size (rs_slice s)) \<and>
     (\<exists>b bs l. rs_bit_buf s = Some b \<and> at_idx (bit_bufs h) b = Inr bs \<and> repr bs l \<and> length l < 2 ^ 64 \<and>
        unat (internal_use_ctr (rs_slice s)) + length cs \<le> length l \<and>
        cs = take (length cs) (drop (unat (internal_use_ctr (rs_slice s))) l))"

lemma rs_choicesE:
  assumes "rs_choices h s cs"
  obtains bs l where "bit_at h (rs_bit_buf s) = Inr bs" "repr bs l" "length l < 2 ^ 64"
    "unat (internal_use_ctr (rs_slice s)) + length cs \<le> length l"
    "\<forall>k < length cs. cs ! k = l ! (unat (internal_use_ctr (rs_slice s)) + k)"
    "cs = take (length cs) (drop (unat (internal_use_ctr (rs_slice s))) l)"
proof -
  from assms obtain b bs l where *: "rs_bit_buf s = Some b" "at_idx (bit_bufs h) b = Inr bs" "repr bs l" "length l < 2 ^ 64"
      "unat (internal_use_ctr (rs_slice s)) + length cs \<le> length l"
      "cs = take (length cs) (drop (unat (internal_use_ctr (rs_slice s))) l)"
    unfolding rs_choices_def by blast
  have "cs ! k = l ! (unat (internal_use_ctr (rs_slice s)) + k)" if "k < length cs" for k
    using that *(5) by (subst *(6)) simp
  with * show thesis
    by (intro that [of bs l]) (simp_all add: bit_at_def)
qed

lemma rs_get_choice_eq:
  assumes "rs_choices h s cs" "k < length cs"
  shows "rs_get_choice h s (of_nat k) = Inr (of_bool (cs ! k))"
proof -
  let ?u = "internal_use_ctr (rs_slice s)"
  obtain bs l where bs: "bit_at h (rs_bit_buf s) = Inr bs" "repr bs l" "length l < 2 ^ 64"
      "unat ?u + length cs \<le> length l" "\<forall>k < length cs. cs ! k = l ! (unat ?u + k)"
    using rs_choicesE [OF assms(1)] by blast
  have normal: "rs_type s = Normal" and n: "length cs = unat (internal_use_size (rs_slice s))"
    using assms(1) by (simp_all add: rs_choices_def)
  have k: "unat (of_nat k :: u64) = k"
    using assms(2) n by (intro unat_of_nat_below [of k "internal_use_size (rs_slice s)"]) simp
  have pos: "unat (?u + of_nat k) = unat ?u + k"
    using bs(3,4) assms(2) k by (simp add: unat_plus_u64)
  obtain r where "op_index bs (unat ?u + k) = Inr r" "ref_bool bs r = Inr (l ! (unat ?u + k))"
    using reference_eq [OF bs(2), of "unat ?u + k"] bs(4) assms(2) by (auto simp: returns_def)
  moreover have "of_nat k < internal_use_size (rs_slice s)"
    using k n assms(2) by (simp add: word_less_nat_alt)
  ultimately show ?thesis
    using bs(1,5) normal pos assms(2) by (simp add: rs_get_choice_def get_buf_idx_def enforce_def)
qed

lemma rs_copy_bits:
  assumes "rs_choices h s cs"
  shows "returns (rs_copy_bit_buf h s) (\<lambda>b. repr b cs)"
proof -
  let ?u = "unat (internal_use_ctr (rs_slice s))"
  obtain bs l where bs: "bit_at h (rs_bit_buf s) = Inr bs" "repr bs l" "?u + length cs \<le> length l"
      "cs = take (length cs) (drop ?u l)"
    using rs_choicesE [OF assms] by blast
  have n: "rs_type s = Normal" "unat (internal_use_size (rs_slice s)) = length cs"
    using assms by (simp_all add: rs_choices_def)
  have cut: "take (length cs) (drop ?u l @ replicate (min ?u (length l)) False) = cs"
    using bs(3,4) by simp
  have "returns (rbind (op_shr_assign bs ?u) (\<lambda>out. resize out (length cs) False)) (\<lambda>b. repr b cs)"
  proof (rule returns_bind [OF op_shr_assign_returns [OF bs(2)]])
    fix out assume "repr out (drop ?u l @ replicate (min ?u (length l)) False)"
    from resize_shrink [OF this, of "length cs" False] bs(3) show "returns (resize out (length cs) False) (\<lambda>b. repr b cs)"
      unfolding cut by simp
  qed
  then show ?thesis
    using n bs(1) by (simp add: rs_copy_bit_buf_def)
qed

lemma choice_block_bits:
  assumes "rs_choices h s cs" "length cs = 128"
  shows "returns (choice_block h s) (\<lambda>w. \<forall>k < 128. bit w k = cs ! k)"
proof -
  obtain b where b: "rs_copy_bit_buf h s = Inr b" "repr b cs"
    using rs_copy_bits [OF assms(1)] by (auto simp: returns_def)
  have "0 < length (m_blocks b)"
    using repr_block_in [OF b(2), of 0] assms(2) by simp
  moreover have "bit (m_blocks b ! 0) k = cs ! k" if "k < 128" for k
    using repr_bit [OF b(2), of k] that assms(2) calculation by (simp add: nth_bit_def)
  ultimately show ?thesis
    using b(1) by (simp add: choice_block_def at_idx_def)
qed

subsection \<open>The transposed matrices\<close>

lemma matrix_transpose128_bit:
  assumes "length m = 128"
  shows "length (matrix_transpose128 sse2 m) = 128"
    "r < 128 \<Longrightarrow> c < 128 \<Longrightarrow> bit (matrix_transpose128 sse2 m ! r) c = bit (m ! c) r"
  using assms
  by (simp_all add: matrix_transpose128_def eklundh_transpose128_eq sse_transpose128_eq naive_transpose_bit)

text \<open>Column \<open>k\<close> of the sender is the receiver's column, with the batch of choices added where the base choice \<open>s ! k\<close> is
  set; row \<open>j\<close> then is the receiver's row, with the base choices added where choice \<open>j\<close> is set.\<close>

lemma transposed_rows:
  assumes "length T = 128" "length Q = 128" "j < 128" "\<forall>k < 128. bit S k = s ! k"
    and "\<And>k. k < 128 \<Longrightarrow> Q ! k = (if s ! k then T ! k XOR r else T ! k)"
  shows "matrix_transpose128 sse2 Q ! j = matrix_transpose128 sse2 T ! j XOR (if bit r j then S else 0)"
proof (rule bit_word_eqI)
  fix k assume "k < LENGTH(128)"
  then have k: "k < 128"
    by simp
  show "bit (matrix_transpose128 sse2 Q ! j) k = bit (matrix_transpose128 sse2 T ! j XOR (if bit r j then S else 0)) k"
    using matrix_transpose128_bit(2) [OF assms(1,3) k] matrix_transpose128_bit(2) [OF assms(2,3) k] assms(4) assms(5) [OF k] k
    by (simp add: bit_xor_iff)
qed

subsection \<open>Batches\<close>

lemma block_num_eq: "block_num n = batch_num n"
  by (simp add: block_num_def kBatchSize_def)

lemma batch_num_bounds: "n \<le> 128 * batch_num n" "i < batch_num n \<Longrightarrow> 128 * i < n"
proof -
  have "batch_num n = (n + 127) div 128"
    by (simp add: batch_num_def kBatchSize_def add.commute)
  then have "n + 127 = 128 * batch_num n + (n + 127) mod 128" "(n + 127) mod 128 < 128"
    using mult_div_mod_eq [of 128 "n + 127"] by simp_all
  then show "n \<le> 128 * batch_num n" "i < batch_num n \<Longrightarrow> 128 * i < n"
    by linarith+
qed

lemma batch_num_small: "n < 2 ^ 32 \<Longrightarrow> i < batch_num n \<Longrightarrow> i < 2 ^ 30"
  using batch_num_bounds(2) [of i n] by simp

lemma batches_concat_upto:
  "concat (map (\<lambda>i. map (f i) [0..<min 128 (n - i * 128)]) [0..<b]) = map (\<lambda>m. f (m div 128) (m mod 128)) [0..<min (128 * b) n]"
proof (induction b)
  case (Suc b)
  let ?g = "\<lambda>m. f (m div 128) (m mod 128)" and ?l = "min 128 (n - b * 128)"
  have "map (f b) [0..<?l] = map ?g [128 * b..<128 * b + ?l]"
    by (rule nth_equalityI) simp_all
  moreover have "[0..<min (128 * Suc b) n] = [0..<min (128 * b) n] @ [128 * b..<128 * b + ?l]"
  proof (cases "128 * b \<le> n")
    case True
    then have "min (128 * Suc b) n = 128 * b + ?l" "min (128 * b) n = 128 * b"
      by (auto simp: min_def)
    then show ?thesis
      using upt_add_eq_append [of 0 "128 * b" ?l] by (simp only:)
  qed simp
  ultimately show ?case
    using Suc by simp
qed simp

lemma batches_concat:
  "concat (map (\<lambda>i. map (f i) [0..<min kBatchSize (n - i * kBatchSize)]) [0..<batch_num n]) =
   map (\<lambda>m. f (m div 128) (m mod 128)) [0..<n]"
  unfolding kBatchSize_def batches_concat_upto min_absorb2 [OF batch_num_bounds(1)] ..

text \<open>Block \<open>i\<close> of the padded choices.\<close>

lemma padded_choices:
  assumes "repr (choices :: 128 bitset) rl"
  shows "returns (resize choices (batch_num (length rl) * kBatchSize) False) (\<lambda>b.
    \<forall>i < batch_num (length rl). i < length (m_blocks b) \<and>
      (\<forall>j < 128. 128 * i + j < length rl \<longrightarrow> bit (m_blocks b ! i) j = rl ! (128 * i + j)))"
proof -
  let ?n = "batch_num (length rl) * kBatchSize" and ?l = "rl @ replicate (batch_num (length rl) * kBatchSize - length rl) False"
  have le: "length rl \<le> ?n"
    using batch_num_bounds(1) [of "length rl"] by (simp add: kBatchSize_def mult.commute)
  have "returns (resize choices ?n False) (\<lambda>b. repr b ?l)"
  proof (cases "length rl = ?n")
    case True
    with resize_shrink [OF assms, of ?n False] show ?thesis
      by simp
  next
    case False
    with le resize_grow [OF assms, of ?n False] show ?thesis
      by simp
  qed
  then show ?thesis
  proof (rule returns_mono, intro allI impI conjI)
    fix b :: "128 bitset" and i assume b: "repr b ?l" and i: "i < batch_num (length rl)"
    have "128 * i < length ?l"
      using i le by (simp add: kBatchSize_def)
    with repr_block_in [OF b, of "128 * i"] show len: "i < length (m_blocks b)"
      by simp
    fix j :: nat assume "j < 128" "128 * i + j < length rl"
    with repr_bit [OF b, of "128 * i + j"] len show "bit (m_blocks b ! i) j = rl ! (128 * i + j)"
      by (simp add: nth_bit_def nth_append)
  qed
qed

subsection \<open>The runs of the two parties\<close>

lemma ends_lift: "r = Inr x \<Longrightarrow> ends M i (f x) c t y I \<Longrightarrow> ends M i (party_bind (party_lift r) f) c t y I"
  unfolding ends_def using runs_bind [OF runs_lift [of r x M i c], of f t y] by auto

text \<open>A loop whose iterations move the state from \<open>I k\<close> to \<open>I (Suc k)\<close>.\<close>

lemma ends_map_upt:
  assumes "\<And>k c. k < b \<Longrightarrow> I k c \<Longrightarrow> ends M i (f k) c (t k) (x k) (I (Suc k))"
  shows "a \<le> b \<Longrightarrow> I a c \<Longrightarrow> ends M i (party_map f [a..<b]) c (concat (map t [a..<b])) (map x [a..<b]) (I b)"
proof (induction "b - a" arbitrary: a c)
  case 0
  then show ?case
    by (simp add: ends_return)
next
  case (Suc d)
  then have ab: "a < b" "d = b - Suc a" "Suc a \<le> b"
    by simp_all
  have "ends M i (party_map f (a # [Suc a..<b])) c (t a @ (concat (map t [Suc a..<b]) @ [])) (x a # map x [Suc a..<b]) (I b)"
    unfolding party_map.simps
    by (rule ends_bind [OF assms [OF ab(1) Suc.prems(2)]], rule ends_bind [OF Suc.hyps(1) [OF ab(2,3)]])
      (auto intro: ends_return)
  then show ?case
    using ab(1) by (simp add: upt_conv_Cons)
qed

text \<open>The two parties, and the counters after \<open>k\<close> messages of the receiver \<open>r\<close> of the transfers to their sender \<open>s\<close>.\<close>

definition pair_link :: "context_desc \<Rightarrow> nat \<Rightarrow> nat \<Rightarrow> nat \<Rightarrow> nat \<Rightarrow> link_ctx \<Rightarrow> bool" where
  "pair_link desc r s i k = linked desc 2 0 ((\<lambda>_. 0)((r, s) := k)) i"

definition iknp_key :: "context_desc \<Rightarrow> nat \<Rightarrow> nat \<Rightarrow> nat \<Rightarrow> string" where
  "iknp_key desc r s k = p2p_key desc (Suc k) r s"

lemma pair_peer:
  assumes "pair_link desc r s i k c" "{r, s} = {0, 1}" "{i, j} = {r, s}"
  shows "next_rank c 1 = j" "world_size c = 2"
proof -
  have "next_rank c 1 = ring_add 2 i 1"
    using linked_ranks(1) [of desc 2 0 _ i c 1] assms(1) by (simp add: pair_link_def)
  then show "next_rank c 1 = j"
    using assms(2,3) by (auto simp: doubleton_eq_iff ring_add_def)
  show "world_size c = 2"
    using assms(1) linkedD(2) by (simp add: pair_link_def)
qed

lemma pair_send:
  assumes "pair_link desc r s r k c" "{r, s} = {0, 1}" "k < 2 ^ 30"
  shows "ends M r (ctx_send_async s v) c [Snd (r, s, iknp_key desc r s k) v] () (pair_link desc r s r (Suc k))"
  using p2p_ends(1) [of desc 2 0 "(\<lambda>_. 0)((r, s) := k)" r c r s M v] assms
  by (auto simp: pair_link_def iknp_key_def doubleton_eq_iff)

lemma pair_recv:
  assumes "pair_link desc r s s k c" "{r, s} = {0, 1}" "k < 2 ^ 30" "M (r, s, iknp_key desc r s k) = v"
  shows "ends M s (ctx_recv r) c [Rcv (r, s, iknp_key desc r s k)] v (pair_link desc r s s (Suc k))"
  using p2p_ends(2) [of desc 2 0 "(\<lambda>_. 0)((r, s) := k)" s c r s M v] assms
  by (auto simp: pair_link_def iknp_key_def doubleton_eq_iff)

definition out_hash :: "(u128 \<Rightarrow> u128) \<Rightarrow> bool \<Rightarrow> u128 \<Rightarrow> u128" where
  "out_hash rp cot x = (if cot then x else cr_hash_128 rp x)"

lemma out_hash_batch: "(if \<not> cot then para_cr_hash_inplace_128 rp ws else ws) = map (out_hash rp cot) ws"
  by (simp add: out_hash_def [abs_def] para_cr_hash_inplace_eq)

text \<open>The column \<open>k\<close> of the receiver, of its message and of the sender, in batch \<open>i\<close>.\<close>

definition t_cols :: "(u128 \<Rightarrow> nat \<Rightarrow> nat \<Rightarrow> u128) \<Rightarrow> (nat \<Rightarrow> u128) \<Rightarrow> nat \<Rightarrow> nat \<Rightarrow> u128 list" where
  "t_cols prg K b i = map (\<lambda>k. prg (K k) b i) [0..<128]"

definition u_cols :: "(u128 \<Rightarrow> nat \<Rightarrow> nat \<Rightarrow> u128) \<Rightarrow> (nat \<Rightarrow> u128) \<Rightarrow> (nat \<Rightarrow> u128) \<Rightarrow> nat \<Rightarrow> u128 \<Rightarrow> nat \<Rightarrow> u128 list" where
  "u_cols prg K0 K1 b choice i = map (\<lambda>k. prg (K0 k) b i XOR prg (K1 k) b i XOR choice) [0..<128]"

definition q_cols :: "(u128 \<Rightarrow> nat \<Rightarrow> nat \<Rightarrow> u128) \<Rightarrow> (nat \<Rightarrow> u128) \<Rightarrow> bool list \<Rightarrow> nat \<Rightarrow> u128 \<Rightarrow> nat \<Rightarrow> u128 list" where
  "q_cols prg K0 cs b choice i = map (\<lambda>k. if cs ! k then prg (K0 k) b i XOR choice else prg (K0 k) b i) [0..<128]"

lemma q_rows:
  assumes "\<forall>k < 128. bit S k = cs ! k" "j < 128"
  shows "matrix_transpose128 sse2 (q_cols prg K0 cs b choice i) ! j =
    matrix_transpose128 sse2 (t_cols prg K0 b i) ! j XOR (if bit choice j then S else 0)"
  using assms by (intro transposed_rows [where s = cs]) (simp_all add: t_cols_def q_cols_def)

text \<open>The base transfers of the two parties fit: the sender of the extension holds the choices \<open>cs\<close> and, of the receiver's
  pairs of keys \<open>K0 k\<close> and \<open>K1 k\<close>, the chosen ones.\<close>

definition base_ots ::
  "ot_heap \<Rightarrow> ot_recv_store \<Rightarrow> ot_heap \<Rightarrow> ot_send_store \<Rightarrow> bool list \<Rightarrow> (nat \<Rightarrow> u128) \<Rightarrow> (nat \<Rightarrow> u128) \<Rightarrow> bool" where
  "base_ots hs bs hr br cs K0 K1 \<longleftrightarrow>
     length cs = 128 \<and> rs_choices hs bs cs \<and> \<not> is_sliced (rs_slice bs) \<and> ss_size br = 128 \<and> \<not> is_sliced (ss_slice br) \<and>
     (\<forall>k < 128. rs_get_block hs bs (of_nat k) = Inr (if cs ! k then K1 k else K0 k) \<and>
        ss_get_block hr br (of_nat k) 0 = Inr (K0 k) \<and> ss_get_block hr br (of_nat k) 1 = Inr (K1 k))"

lemma base_otsD:
  assumes "base_ots hs bs hr br cs K0 K1"
  shows "length cs = 128" "rs_choices hs bs cs" "\<not> is_sliced (rs_slice bs)" "rs_size bs = 128"
    "ss_size br = 128" "\<not> is_sliced (ss_slice br)"
    "k < 128 \<Longrightarrow> rs_get_block hs bs (of_nat k) = Inr (if cs ! k then K1 k else K0 k)"
    "k < 128 \<Longrightarrow> ss_get_block hr br (of_nat k) 0 = Inr (K0 k)"
    "k < 128 \<Longrightarrow> ss_get_block hr br (of_nat k) 1 = Inr (K1 k)"
proof -
  have "unat (rs_size bs) = 128"
    using assms by (simp add: base_ots_def rs_choices_def rs_size_def)
  from arg_cong [OF this, where f = "of_nat :: nat \<Rightarrow> u64"] show "rs_size bs = 128"
    by simp
qed (use assms in \<open>auto simp: base_ots_def\<close>)

lemma batch_offset_eq: "i * kBatchSize div 128 = i"
  by (simp add: kBatchSize_def)

lemma send_batch_ends:
  fixes sse2 :: bool
  assumes base: "base_ots hs bs hr br cs K0 K1" and pair: "{r, s} = {0, 1}" and link: "pair_link desc r s s i c"
    and msg: "M (r, s, iknp_key desc r s i) = blocks_bytes (u_cols prg K0 K1 b choice i)"
    and S: "choice_block hs bs = Inr S" and i: "i < b" and few: "i < 2 ^ 30"
  defines "ts \<equiv> map (\<lambda>k. map (prg (if cs ! k then K1 k else K0 k) b) [0..<b]) [0..<128]"
    and "Q \<equiv> matrix_transpose128 sse2 (q_cols prg K0 cs b choice i)"
  shows "ends M s (iknp_send_batch rp sse2 hs bs n cot ts i) c [Rcv (r, s, iknp_key desc r s i)]
    (map (\<lambda>j. (out_hash rp cot (Q ! j), out_hash rp cot (Q ! j XOR S))) [0..<min kBatchSize (n - i * kBatchSize)])
    (pair_link desc r s s (Suc i))"
proof -
  let ?u = "u_cols prg K0 K1 b choice i" and ?t = "Rcv (r, s, iknp_key desc r s i)"
  have peer: "next_rank c 1 = r"
    using pair_peer(1) [OF link pair, of r] by auto
  have cols: "rmap (\<lambda>k. rbind (rs_get_choice hs bs (of_nat k)) (\<lambda>c.
      rbind (at_idx (ts ! k) i) (\<lambda>t. Inr (if c \<noteq> 0 then ?u ! k XOR t else t)))) [0..<128] = Inr (q_cols prg K0 cs b choice i)"
  proof -
    have "rbind (rs_get_choice hs bs (of_nat k)) (\<lambda>c. rbind (at_idx (ts ! k) i) (\<lambda>t. Inr (if c \<noteq> 0 then ?u ! k XOR t else t))) =
        Inr (if cs ! k then prg (K0 k) b i XOR choice else prg (K0 k) b i)" if "k < 128" for k
      using rs_get_choice_eq [OF base_otsD(2) [OF base], of k] base_otsD(1) [OF base] that i
      by (simp add: ts_def u_cols_def at_idx_def ac_simps)
    then show ?thesis
      unfolding q_cols_def by (intro rmap_Inr) simp
  qed
  have len: "length Q = 128"
    unfolding Q_def by (intro matrix_transpose128_bit(1)) (simp add: q_cols_def)
  have out: "map (\<lambda>j. (map (out_hash rp cot) Q ! j, map (out_hash rp cot) (xor_batched_block Q S) ! j)) [0..<min 128 m] =
      map (\<lambda>j. (out_hash rp cot (Q ! j), out_hash rp cot (Q ! j XOR S))) [0..<min 128 m]" for m
    using len by (simp add: xor_batched_block_def)
  have load: "load_batch (blocks_bytes ?u) = Inr ?u"
    by (intro load_blocks_bytes) (simp add: u_cols_def)
  show ?thesis
    unfolding iknp_send_batch_def Let_def out_hash_batch batch_offset_eq kKappa_def
    by (rule ends_get, unfold peer, rule ends_seq [OF pair_recv [where M = M, OF link pair few msg] append_Nil2],
        rule ends_lift [OF load], rule ends_lift [OF cols], rule ends_lift [OF S])
      (simp add: out kBatchSize_def ends_return flip: Q_def)
qed

lemma recv_batch_ends:
  fixes sse2 :: bool and prg :: "u128 \<Rightarrow> nat \<Rightarrow> nat \<Rightarrow> u128" and K0 K1 :: "nat \<Rightarrow> u128"
  assumes pair: "{r, s} = {0, 1}" and link: "pair_link desc r s r i c" and i: "i < b" and few: "i < 2 ^ 30"
    and choice: "at_idx (m_blocks choices) i = Inr choice"
  defines "t0 \<equiv> map (\<lambda>k. map (prg (K0 k) b) [0..<b]) [0..<128]" and "t1 \<equiv> map (\<lambda>k. map (prg (K1 k) b) [0..<b]) [0..<128]"
    and "T \<equiv> matrix_transpose128 sse2 (t_cols prg K0 b i)"
  shows "ends M r (iknp_recv_batch rp sse2 n cot choices t0 t1 i) c
    [Snd (r, s, iknp_key desc r s i) (blocks_bytes (u_cols prg K0 K1 b choice i))]
    (map (\<lambda>j. out_hash rp cot (T ! j)) [0..<min kBatchSize (n - i * kBatchSize)]) (pair_link desc r s r (Suc i))"
proof -
  have peer: "next_rank c 1 = s"
    using pair_peer(1) [OF link pair, of s] by auto
  let ?rows = "map (\<lambda>k. (prg (K0 k) b i XOR prg (K1 k) b i XOR choice, prg (K0 k) b i)) [0..<128]"
  have cols: "rmap (\<lambda>k. rbind (at_idx (t0 ! k) i) (\<lambda>a. rbind (at_idx (t1 ! k) i) (\<lambda>b. Inr (a XOR b XOR choice, a)))) [0..<128] =
      Inr ?rows"
    using i by (intro rmap_Inr) (simp add: t0_def t1_def at_idx_def)
  have parts: "map fst ?rows = u_cols prg K0 K1 b choice i" "map snd ?rows = t_cols prg K0 b i"
    by (simp_all add: u_cols_def t_cols_def)
  have "length T = 128"
    unfolding T_def by (intro matrix_transpose128_bit(1)) (simp add: t_cols_def)
  then have out: "map (\<lambda>j. map (out_hash rp cot) T ! j) [0..<min 128 m] = map (\<lambda>j. out_hash rp cot (T ! j)) [0..<min 128 m]" for m
    by simp
  show ?thesis
    unfolding iknp_recv_batch_def Let_def out_hash_batch batch_offset_eq kKappa_def
    by (rule ends_lift [OF choice], rule ends_lift [OF cols], unfold parts, rule ends_get, unfold peer,
        rule ends_seq [OF pair_send [OF link pair few] append_Nil2])
      (simp add: out kBatchSize_def ends_return flip: T_def)
qed

subsection \<open>The extension of all batches\<close>

text \<open>Transfer \<open>m\<close>: the receiver's row, and what is added to it to get the sender's.\<close>

definition t_row :: "(u128 \<Rightarrow> nat \<Rightarrow> nat \<Rightarrow> u128) \<Rightarrow> bool \<Rightarrow> (nat \<Rightarrow> u128) \<Rightarrow> nat \<Rightarrow> nat \<Rightarrow> u128" where
  "t_row prg sse2 K0 n m = matrix_transpose128 sse2 (t_cols prg K0 (batch_num n) (m div 128)) ! (m mod 128)"

definition q_row :: "(u128 \<Rightarrow> nat \<Rightarrow> nat \<Rightarrow> u128) \<Rightarrow> bool \<Rightarrow> (nat \<Rightarrow> u128) \<Rightarrow> bool list \<Rightarrow> (nat \<Rightarrow> u128) \<Rightarrow> nat \<Rightarrow> nat \<Rightarrow> u128" where
  "q_row prg sse2 K0 cs choice n m =
     matrix_transpose128 sse2 (q_cols prg K0 cs (batch_num n) (choice (m div 128)) (m div 128)) ! (m mod 128)"

lemma send_ends:
  assumes base: "base_ots hs bs hr br cs K0 K1" and pair: "{r, s} = {0, 1}" and link: "pair_link desc r s s 0 c" and n: "0 < n" "n < 2 ^ 32"
    and msg: "\<And>i. i < batch_num n \<Longrightarrow>
      M (r, s, iknp_key desc r s i) = blocks_bytes (u_cols prg K0 K1 (batch_num n) (choice i) i)"
    and S: "choice_block hs bs = Inr S"
  shows "ends M s (iknp_ot_ext_send prg rp sse2 hs bs n cot) c (map (\<lambda>i. Rcv (r, s, iknp_key desc r s i)) [0..<batch_num n])
    (map (\<lambda>m. let q = q_row prg sse2 K0 cs choice n m in (out_hash rp cot q, out_hash rp cot (q XOR S))) [0..<n])
    (pair_link desc r s s (batch_num n))"
proof -
  let ?b = "batch_num n"
  let ?ts = "map (\<lambda>k. map (prg (if cs ! k then K1 k else K0 k) ?b) [0..<?b]) [0..<128]"
  let ?x = "\<lambda>i. map (\<lambda>j. let q = matrix_transpose128 sse2 (q_cols prg K0 cs ?b (choice i) i) ! j in
    (out_hash rp cot q, out_hash rp cot (q XOR S))) [0..<min kBatchSize (n - i * kBatchSize)]"
  have ts: "rmap (\<lambda>k. rbind (rs_get_block hs bs (of_nat k)) (\<lambda>x. Inr (map (prg x ?b) [0..<?b]))) [0..<128] = Inr ?ts"
    using base_otsD(7) [OF base] by (intro rmap_Inr) simp
  have loop: "ends M s (party_map (iknp_send_batch rp sse2 hs bs n cot ?ts) [0..<?b]) c
      (concat (map (\<lambda>i. [Rcv (r, s, iknp_key desc r s i)]) [0..<?b])) (map ?x [0..<?b]) (pair_link desc r s s ?b)"
  proof (rule ends_map_upt [where I = "pair_link desc r s s"])
    fix i c assume i: "i < ?b" and l: "pair_link desc r s s i c"
    show "ends M s (iknp_send_batch rp sse2 hs bs n cot ?ts i) c [Rcv (r, s, iknp_key desc r s i)] (?x i) (pair_link desc r s s (Suc i))"
      using send_batch_ends [where M = M and prg = prg and choice = "choice i", OF base pair l msg [OF i] S i batch_num_small [OF n(2) i]]
      by (simp add: Let_def)
  qed (simp_all add: link)
  have concat: "concat (map ?x [0..<?b]) =
      map (\<lambda>m. let q = q_row prg sse2 K0 cs choice n m in (out_hash rp cot q, out_hash rp cot (q XOR S))) [0..<n]"
    unfolding q_row_def by (rule batches_concat)
  have world: "world_size c = 2"
    using pair_peer(2) [OF link pair, of r] by auto
  show ?thesis
    unfolding iknp_ot_ext_send_def block_num_eq kKappa_def concat [symmetric]
    by (rule ends_get, rule ends_enforce [OF world], rule ends_enforce, simp add: base_otsD(4) [OF base],
        rule ends_enforce, simp add: n(1), rule ends_enforce [OF base_otsD(3) [OF base]], rule ends_lift [OF ts],
        rule ends_seq [OF loop]) (auto intro: ends_return)
qed

lemma recv_ends:
  assumes base: "base_ots hs bs hr br cs K0 K1" and pair: "{r, s} = {0, 1}" and link: "pair_link desc r s r 0 c" and n: "0 < n" "n < 2 ^ 32"
    and size: "size_bits choices = n" and pad: "resize choices (batch_num n * kBatchSize) False = Inr padded"
    and choice: "\<And>i. i < batch_num n \<Longrightarrow> at_idx (m_blocks padded) i = Inr (choice i)"
  shows "ends M r (iknp_ot_ext_recv prg rp sse2 hr br choices n cot) c
    (map (\<lambda>i. Snd (r, s, iknp_key desc r s i) (blocks_bytes (u_cols prg K0 K1 (batch_num n) (choice i) i))) [0..<batch_num n])
    (map (\<lambda>m. out_hash rp cot (t_row prg sse2 K0 n m)) [0..<n]) (pair_link desc r s r (batch_num n))"
proof -
  let ?b = "batch_num n"
  let ?g = "\<lambda>K k. map (prg (K k) ?b) [0..<?b]"
  let ?t = "\<lambda>i. [Snd (r, s, iknp_key desc r s i) (blocks_bytes (u_cols prg K0 K1 ?b (choice i) i))]"
  let ?x = "\<lambda>i. map (\<lambda>j. out_hash rp cot (matrix_transpose128 sse2 (t_cols prg K0 ?b i) ! j))
    [0..<min kBatchSize (n - i * kBatchSize)]"
  have ts: "rmap (\<lambda>k. rbind (ss_get_block hr br (of_nat k) 0) (\<lambda>b0. rbind (ss_get_block hr br (of_nat k) 1) (\<lambda>b1.
      Inr (map (prg b0 ?b) [0..<?b], map (prg b1 ?b) [0..<?b])))) [0..<128] = Inr (map (\<lambda>k. (?g K0 k, ?g K1 k)) [0..<128])"
    using base_otsD(8,9) [OF base] by (intro rmap_Inr) simp
  have parts: "map fst (map (\<lambda>k. (?g K0 k, ?g K1 k)) [0..<128]) = map (?g K0) [0..<128]"
    "map snd (map (\<lambda>k. (?g K0 k, ?g K1 k)) [0..<128]) = map (?g K1) [0..<128]"
    by simp_all
  have loop: "ends M r (party_map (iknp_recv_batch rp sse2 n cot padded (map (?g K0) [0..<128]) (map (?g K1) [0..<128])) [0..<?b]) c
      (concat (map ?t [0..<?b])) (map ?x [0..<?b]) (pair_link desc r s r ?b)"
  proof (rule ends_map_upt [where I = "pair_link desc r s r"])
    fix i c assume i: "i < ?b" and l: "pair_link desc r s r i c"
    show "ends M r (iknp_recv_batch rp sse2 n cot padded (map (?g K0) [0..<128]) (map (?g K1) [0..<128]) i) c (?t i) (?x i)
        (pair_link desc r s r (Suc i))"
      by (rule recv_batch_ends [OF pair l i batch_num_small [OF n(2) i] choice [OF i]])
  qed (simp_all add: link)
  have concat: "concat (map ?x [0..<?b]) = map (\<lambda>m. out_hash rp cot (t_row prg sse2 K0 n m)) [0..<n]"
    unfolding t_row_def by (rule batches_concat)
  have world: "world_size c = 2"
    using pair_peer(2) [OF link pair, of s] by auto
  show ?thesis
    unfolding iknp_ot_ext_recv_def block_num_eq kKappa_def concat [symmetric]
    by (rule ends_get, rule ends_enforce [OF world], rule ends_enforce, simp add: base_otsD(5) [OF base],
        rule ends_enforce [OF size [symmetric]], rule ends_enforce, simp add: n,
        rule ends_enforce [OF base_otsD(6) [OF base]], rule ends_lift [OF ts], rule ends_lift [OF pad], unfold parts,
        rule ends_seq [OF loop]) (auto intro: ends_return)
qed

subsection \<open>The stores of the extended transfers\<close>

lemma concat_pairs_nth:
  "m < length ps \<Longrightarrow> concat (map (\<lambda>(a, b). [a, b]) ps) ! (m * 2) = fst (ps ! m)"
  "m < length ps \<Longrightarrow> concat (map (\<lambda>(a, b). [a, b]) ps) ! (m * 2 + 1) = snd (ps ! m)"
proof (induction ps arbitrary: m)
  case (Cons p ps)
  { case 1 then show ?case using Cons(1) by (cases m; cases p) simp_all }
  { case 2 then show ?case using Cons(2) by (cases m; cases p) simp_all }
qed simp_all

lemma length_concat_pairs: "length (concat (map (\<lambda>(a, b). [a, b]) ps)) = length ps * 2"
  by (induction ps) auto

lemma make_ot_send_store_ok:
  assumes "0 < length ps" "length ps < 2 ^ 32"
  obtains st h' where "make_ot_send_store h ps = Inr (st, h')" "bit_bufs h' = bit_bufs h" "ss_delta st = 0"
    "\<And>m. m < length ps \<Longrightarrow> ss_get_block h' st (of_nat m) 0 = Inr (fst (ps ! m))"
    "\<And>m. m < length ps \<Longrightarrow> ss_get_block h' st (of_nat m) 1 = Inr (snd (ps ! m))"
    "\<And>m d. m < length ps \<Longrightarrow> d \<noteq> 0 \<Longrightarrow> ss_get_block h' (st\<lparr>ss_delta := d\<rparr>) (of_nat m) 0 = Inr (fst (ps ! m))"
    "\<And>m d. m < length ps \<Longrightarrow> d \<noteq> 0 \<Longrightarrow> ss_get_block h' (st\<lparr>ss_delta := d\<rparr>) (of_nat m) 1 = Inr (fst (ps ! m) XOR d)"
proof -
  let ?n = "length ps" and ?b = "concat (map (\<lambda>(a, b). [a, b]) ps)"
  define h' where "h' = h\<lparr>blk_bufs := blk_bufs h @ [?b]\<rparr>"
  define sl where "sl = \<lparr>internal_use_ctr = 0, internal_use_size = of_nat ?n * 2, internal_buf_ctr = 0,
    internal_buf_size = (of_nat ?n * 2 :: u64)\<rparr>"
  define st where "st = \<lparr>ss_slice = sl, ss_type = Normal, ss_delta = 0, ss_blk_buf = Some (length (blk_bufs h))\<rparr>"
  have small: "unat (of_nat ?n :: u64) = ?n"
    using assms(2) by (intro unat_of_nat_small) simp
  then have dbl: "unat (of_nat ?n * 2 :: u64) = ?n * 2"
    using assms(2) by (simp add: unat_word_ariths)
  then have pos: "0 < (of_nat ?n * 2 :: u64)"
    using assms(1) by (simp add: word_less_nat_alt)
  have buf: "blk_at h' (ss_blk_buf st) = Inr ?b"
    by (simp add: blk_at_def st_def h'_def at_idx_def)
  have make: "make_ot_send_store h ps = Inr (st, h')"
    using buf pos dbl
    by (simp add: make_ot_send_store_def new_blk_def make_send_store_def init_ctrs_def ss_consistency_check_def slice_check_eq
        length_concat_pairs enforce_def Let_def st_def sl_def h'_def)
  have ok: "ss_ok h' st" "ss_type st = Normal" "ss_delta st = 0" and cap: "ss_capacity st = ?n"
    using dbl by (auto simp: ss_ok_def st_def sl_def h'_def at_idx_def length_concat_pairs ss_width_def ss_capacity_def)
  have view: "ss_view st 0 ?n = st"
    by (simp add: ss_view_def ss_width_def st_def sl_def)
  have len: "ss_capacity st * 2 \<le> length ?b"
    by (simp add: cap length_concat_pairs)
  have inside: "0 + ?n \<le> ss_capacity st"
    by (simp add: cap)
  have idx: "unat (of_nat m :: u64) = m" if "m < ?n" for m
    using that assms(2) by (intro unat_of_nat_small) simp
  have get: "ss_get_block h' st (of_nat m) 0 = Inr (fst (ps ! m))" "ss_get_block h' st (of_nat m) 1 = Inr (snd (ps ! m))"
    if "m < ?n" for m
    using ss_get_view [OF ok inside _ _ buf len, of "of_nat m"] that
    by (simp_all add: view idx concat_pairs_nth [simplified])
  have del: "ss_get_block h' (st\<lparr>ss_delta := d\<rparr>) (of_nat m) 0 = Inr (fst (ps ! m))"
    "ss_get_block h' (st\<lparr>ss_delta := d\<rparr>) (of_nat m) 1 = Inr (fst (ps ! m) XOR d)" if "m < ?n" "d \<noteq> 0" for m d
  proof -
    have m: "get_buf_idx (ss_slice st) (2 * of_nat m) = Inr (2 * of_nat m)" "unat (2 * of_nat m :: u64) = m * 2"
      using ss_view_idx(3,4) [OF ok(1,2) inside, of "of_nat m" 0] that(1) by (simp_all add: view idx)
    then show "ss_get_block h' (st\<lparr>ss_delta := d\<rparr>) (of_nat m) 0 = Inr (fst (ps ! m))"
      "ss_get_block h' (st\<lparr>ss_delta := d\<rparr>) (of_nat m) 1 = Inr (fst (ps ! m) XOR d)"
      using that buf ok(2) by (simp_all add: ss_get_block_def enforce_def ot_blk_num_def at_idx_def length_concat_pairs concat_pairs_nth)
  qed
  show thesis
    by (rule that [OF make _ ok(3) get del]) (simp add: h'_def)
qed

lemma make_ot_recv_store_ok:
  assumes "repr choices rl" "length bl = length rl" "0 < length rl" "length rl < 2 ^ 32"
  obtains st h' where "make_ot_recv_store h choices bl = Inr (st, h')"
    "\<And>m. m < length rl \<Longrightarrow> rs_get_choice h' st (of_nat m) = Inr (of_bool (rl ! m))"
    "\<And>m. m < length rl \<Longrightarrow> rs_get_block h' st (of_nat m) = Inr (bl ! m)"
proof -
  let ?n = "length rl"
  define h' where "h' = h\<lparr>bit_bufs := bit_bufs h @ [choices], blk_bufs := blk_bufs h @ [bl]\<rparr>"
  define sl where "sl = \<lparr>internal_use_ctr = 0, internal_use_size = of_nat ?n, internal_buf_ctr = 0, internal_buf_size = (of_nat ?n :: u64)\<rparr>"
  define st where "st = \<lparr>rs_slice = sl, rs_type = Normal, rs_bit_buf = Some (length (bit_bufs h)),
    rs_blk_buf = Some (length (blk_bufs h))\<rparr>"
  have small: "unat (of_nat m :: u64) = m" if "m \<le> ?n" for m
    using that assms(4) by (intro unat_of_nat_small) simp
  then have pos: "0 < (of_nat ?n :: u64)"
    using assms(3) by (simp add: word_less_nat_alt)
  have bufs: "blk_at h' (rs_blk_buf st) = Inr bl" "bit_at h' (rs_bit_buf st) = Inr choices"
    by (simp_all add: blk_at_def bit_at_def st_def h'_def at_idx_def)
  have make: "make_ot_recv_store h choices bl = Inr (st, h')"
    using bufs pos small [of ?n] assms(2) repr_size [OF assms(1)]
    by (simp add: make_ot_recv_store_def new_blk_def new_bit_def make_recv_store_def init_ctrs_def rs_consistency_check_def
        slice_check_eq size_bits_def enforce_def Let_def st_def sl_def h'_def)
  have view: "rs_view st 0 ?n = st" and cap: "rs_capacity st = ?n"
    using small [of ?n] by (simp_all add: rs_view_def rs_capacity_def st_def sl_def)
  have "rs_choices h' st rl"
    using assms(1,4) bufs(2) small [of ?n] unfolding rs_choices_def by (auto simp: st_def sl_def bit_at_def)
  then have choice: "rs_get_choice h' st (of_nat m) = Inr (of_bool (rl ! m))" if "m < ?n" for m
    using that by (rule rs_get_choice_eq)
  have block: "rs_get_block h' st (of_nat m) = Inr (bl ! m)" if "m < ?n" for m
    using rs_get_view [of 0 ?n st h' bl "of_nat m"] that small [of m] bufs(1) assms(2) by (simp add: view cap)
  show thesis
    by (rule that [OF make choice block])
qed

lemma choice_block_heap:
  assumes "bit_bufs h' = bit_bufs h" "rs_type s = Normal"
  shows "choice_block h' s = choice_block h s"
  using assms by (cases "rs_bit_buf s") (simp_all add: choice_block_def rs_copy_bit_buf_def bit_at_def)

lemma send_store_ends:
  assumes base: "base_ots hs bs hr br cs K0 K1" and pair: "{r, s} = {0, 1}" and link: "pair_link desc r s s 0 c"
    and n: "unat ot_num = n" "0 < n" and S: "choice_block hs bs = Inr S" "cot \<longrightarrow> S \<noteq> 0"
    and msg: "\<And>i. i < batch_num n \<Longrightarrow>
      M (r, s, iknp_key desc r s i) = blocks_bytes (u_cols prg K0 K1 (batch_num n) (choice i) i)"
  shows "\<exists>st h'. ends M s (iknp_ot_ext_send_store prg rp sse2 hs bs ot_num cot) c
      (map (\<lambda>i. Rcv (r, s, iknp_key desc r s i)) [0..<batch_num n]) (st, h') (pair_link desc r s s (batch_num n)) \<and>
    (cot \<longrightarrow> ss_delta st = S) \<and>
    (\<forall>m < n. let q = q_row prg sse2 K0 cs choice n m in
       ss_get_block h' st (of_nat m) 0 = Inr (out_hash rp cot q) \<and>
       ss_get_block h' st (of_nat m) 1 = Inr (out_hash rp cot (q XOR S)))"
proof -
  let ?q = "q_row prg sse2 K0 cs choice n"
  let ?ps = "map (\<lambda>m. let q = ?q m in (out_hash rp cot q, out_hash rp cot (q XOR S))) [0..<n]"
  have len: "length ?ps = n" "0 < length ?ps" "length ?ps < 2 ^ 32"
    using n unsigned_less [of ot_num, where 'a = nat] by simp_all
  obtain st h' where st: "make_ot_send_store hs ?ps = Inr (st, h')" "bit_bufs h' = bit_bufs hs" "ss_delta st = 0"
      "\<And>m. m < length ?ps \<Longrightarrow> ss_get_block h' st (of_nat m) 0 = Inr (fst (?ps ! m))"
      "\<And>m. m < length ?ps \<Longrightarrow> ss_get_block h' st (of_nat m) 1 = Inr (snd (?ps ! m))"
      "\<And>m d. m < length ?ps \<Longrightarrow> d \<noteq> 0 \<Longrightarrow> ss_get_block h' (st\<lparr>ss_delta := d\<rparr>) (of_nat m) 0 = Inr (fst (?ps ! m))"
      "\<And>m d. m < length ?ps \<Longrightarrow> d \<noteq> 0 \<Longrightarrow> ss_get_block h' (st\<lparr>ss_delta := d\<rparr>) (of_nat m) 1 = Inr (fst (?ps ! m) XOR d)"
    by (rule make_ot_send_store_ok [OF len(2,3), of hs]) (assumption | rule that)+
  define st' where "st' = (if cot then st\<lparr>ss_delta := S\<rparr> else st)"
  have loop: "ends M s (iknp_ot_ext_send prg rp sse2 hs bs n cot) c
      (map (\<lambda>i. Rcv (r, s, iknp_key desc r s i)) [0..<batch_num n]) ?ps (pair_link desc r s s (batch_num n))"
    using msg by (rule send_ends [OF base pair link n(2) len(3) [unfolded len(1)] _ S(1)])
  have S': "choice_block h' bs = Inr S"
    using S(1) choice_block_heap [OF st(2)] base_otsD(2) [OF base] by (simp add: rs_choices_def)
  have "ends M s (iknp_ot_ext_send_store prg rp sse2 hs bs ot_num cot) c
      (map (\<lambda>i. Rcv (r, s, iknp_key desc r s i)) [0..<batch_num n]) (st', h') (pair_link desc r s s (batch_num n))"
    unfolding iknp_ot_ext_send_store_def n(1)
    by (rule ends_seq [OF loop append_Nil2], rule ends_lift [OF st(1)])
      (use S(2) in \<open>auto simp: st'_def ss_set_delta_def enforce_def intro!: ends_lift [OF S'] ends_lift ends_return\<close>)
  moreover have "\<forall>m < n. ss_get_block h' st' (of_nat m) 0 = Inr (out_hash rp cot (?q m)) \<and>
      ss_get_block h' st' (of_nat m) 1 = Inr (out_hash rp cot (?q m XOR S))"
    using S(2) st(4-7) by (auto simp: st'_def Let_def out_hash_def)
  ultimately show ?thesis
    unfolding Let_def by (intro exI [of _ st'] exI [of _ h']) (simp add: st'_def)
qed

lemma recv_store_ends:
  assumes base: "base_ots hs bs hr br cs K0 K1" and pair: "{r, s} = {0, 1}" and link: "pair_link desc r s r 0 c"
    and n: "unat ot_num = length rl" "0 < length rl" and choices: "repr choices rl"
    and pad: "resize choices (batch_num (length rl) * kBatchSize) False = Inr padded"
    and choice: "\<And>i. i < batch_num (length rl) \<Longrightarrow> at_idx (m_blocks padded) i = Inr (choice i)"
  shows "\<exists>st h'. ends M r (iknp_ot_ext_recv_store prg rp sse2 hr br choices ot_num cot) c
      (map (\<lambda>i. Snd (r, s, iknp_key desc r s i) (blocks_bytes (u_cols prg K0 K1 (batch_num (length rl)) (choice i) i)))
        [0..<batch_num (length rl)]) (st, h') (pair_link desc r s r (batch_num (length rl))) \<and>
    (\<forall>m < length rl. rs_get_choice h' st (of_nat m) = Inr (of_bool (rl ! m)) \<and>
       rs_get_block h' st (of_nat m) = Inr (out_hash rp cot (t_row prg sse2 K0 (length rl) m)))"
proof -
  let ?bl = "map (\<lambda>m. out_hash rp cot (t_row prg sse2 K0 (length rl) m)) [0..<length rl]"
  have small: "length rl < 2 ^ 32"
    using n unsigned_less [of ot_num, where 'a = nat] by simp
  obtain st h' where st: "make_ot_recv_store hr choices ?bl = Inr (st, h')"
      "\<And>m. m < length rl \<Longrightarrow> rs_get_choice h' st (of_nat m) = Inr (of_bool (rl ! m))"
      "\<And>m. m < length rl \<Longrightarrow> rs_get_block h' st (of_nat m) = Inr (?bl ! m)"
    using make_ot_recv_store_ok [OF choices _ n(2) small, of ?bl hr] by (simp only: length_map length_upt minus_nat.diff_0) blast
  have size: "size_bits choices = length rl"
    using repr_size [OF choices] by (simp add: size_bits_def)
  have loop: "ends M r (iknp_ot_ext_recv prg rp sse2 hr br choices (length rl) cot) c
      (map (\<lambda>i. Snd (r, s, iknp_key desc r s i) (blocks_bytes (u_cols prg K0 K1 (batch_num (length rl)) (choice i) i)))
        [0..<batch_num (length rl)]) ?bl (pair_link desc r s r (batch_num (length rl)))"
    using choice by (rule recv_ends [OF base pair link n(2) small size pad])
  have "ends M r (party_bind (iknp_ot_ext_recv prg rp sse2 hr br choices (length rl) cot) (\<lambda>blocks.
      party_bind (party_lift (make_ot_recv_store hr choices blocks)) party_return)) c
      (map (\<lambda>i. Snd (r, s, iknp_key desc r s i) (blocks_bytes (u_cols prg K0 K1 (batch_num (length rl)) (choice i) i)))
        [0..<batch_num (length rl)]) (st, h') (pair_link desc r s r (batch_num (length rl)))"
    by (rule ends_seq [OF loop append_Nil2], rule ends_lift [OF st(1)]) (rule ends_return)
  moreover have "party_bind (party_lift x) party_return = (party_lift x :: (link_ctx, _) party)" for x :: "(ot_recv_store \<times> ot_heap) result"
    by (cases x) (simp_all add: fun_eq_iff party_bind_def party_lift_def party_return_def party_throw_def)
  ultimately show ?thesis
    unfolding iknp_ot_ext_recv_store_def n(1) using st(2,3) by (intro exI [of _ st] exI [of _ h'] conjI) simp_all
qed

subsection \<open>The two parties in the mesh\<close>

definition iknp_party ::
  "(u128 \<Rightarrow> nat \<Rightarrow> nat \<Rightarrow> u128) \<Rightarrow> (u128 \<Rightarrow> u128) \<Rightarrow> bool \<Rightarrow> ot_heap \<Rightarrow> ot_recv_store \<Rightarrow> ot_heap \<Rightarrow> ot_send_store \<Rightarrow> 128 bitset \<Rightarrow>
    u32 \<Rightarrow> bool \<Rightarrow> nat \<Rightarrow> nat \<Rightarrow> (link_ctx, (ot_send_store \<times> ot_heap) + (ot_recv_store \<times> ot_heap)) party" where
  "iknp_party prg rp sse2 hs bs hr br choices ot_num cot s i =
     (if i = s then party_bind (iknp_ot_ext_send_store prg rp sse2 hs bs ot_num cot) (\<lambda>x. party_return (Inl x))
      else party_bind (iknp_ot_ext_recv_store prg rp sse2 hr br choices ot_num cot) (\<lambda>x. party_return (Inr x)))"

definition iknp_trace :: "context_desc \<Rightarrow> nat \<Rightarrow> nat \<Rightarrow> nat \<Rightarrow> (nat \<Rightarrow> bytes) \<Rightarrow> nat \<Rightarrow> act list" where
  "iknp_trace desc r s b v i =
     (if i = s then map (\<lambda>k. Rcv (r, s, iknp_key desc r s k)) [0..<b]
      else map (\<lambda>k. Snd (r, s, iknp_key desc r s k) (v k)) [0..<b])"

lemma length_iknp_trace: "length (iknp_trace desc r s b v i) = b"
  by (simp add: iknp_trace_def)

definition iknp_value :: "context_desc \<Rightarrow> nat \<Rightarrow> nat \<Rightarrow> nat \<Rightarrow> (nat \<Rightarrow> bytes) \<Rightarrow> msg \<Rightarrow> bytes" where
  "iknp_value desc r s b v m = the (map_of (map (\<lambda>k. ((r, s, iknp_key desc r s k), v k)) [0..<b]) m)"

lemma iknp_key_inj: "iknp_key desc r s k = iknp_key desc r s k' \<longleftrightarrow> k = k'"
  by (auto simp: iknp_key_def dest: p2p_key_inj)

lemma iknp_value_key: "k < b \<Longrightarrow> iknp_value desc r s b v (r, s, iknp_key desc r s k) = v k"
proof -
  assume "k < b"
  moreover have "distinct (map fst (map (\<lambda>k. ((r, s, iknp_key desc r s k), v k)) [0..<b]))"
    by (simp add: distinct_map inj_on_def iknp_key_inj)
  ultimately show ?thesis
    unfolding iknp_value_def by (subst map_of_is_SomeI [where y = "v k"]) auto
qed

lemma iknp_fits:
  assumes "{r, s} = {0, 1 :: nat}"
  shows "flow_fits 2 UNIV (iknp_value desc r s b v) (\<lambda>_. 0) (iknp_trace desc r s b v)"
proof -
  have rs: "r \<noteq> s" "r < 2" "s < 2"
    using assms by (auto simp: doubleton_eq_iff)
  show ?thesis
    unfolding flow_fits_def
  proof (intro allI impI)
    fix i :: nat assume "i < 2"
    then have "i = s \<or> i = r"
      using assms by (auto simp: doubleton_eq_iff)
    then show "(\<forall>m w. Snd m w \<in> set (iknp_trace desc r s b v i) \<longrightarrow> w = iknp_value desc r s b v m \<and> key_of m \<in> UNIV) \<and>
        distinct (snds (iknp_trace desc r s b v i)) \<and> distinct (rcvs (iknp_trace desc r s b v i)) \<and>
        (\<forall>m. Rcv m \<in> set (iknp_trace desc r s b v i) \<longrightarrow> fst m < 2 \<and> m \<in> set (snds (iknp_trace desc r s b v (fst m)))) \<and>
        sorted_wrt (stamp_ok (\<lambda>_. 0 :: nat)) (iknp_trace desc r s b v i)"
      using rs by (auto simp: iknp_trace_def iknp_value_key distinct_map inj_on_def iknp_key_inj)
  qed
qed

text \<open>What the two stores hold when both parties have returned.\<close>

definition extended_ots ::
  "ot_heap \<Rightarrow> ot_send_store \<Rightarrow> ot_heap \<Rightarrow> ot_recv_store \<Rightarrow> bool list \<Rightarrow> bool \<Rightarrow> bool list \<Rightarrow> bool" where
  "extended_ots hs st hr rt rl cot cs \<longleftrightarrow>
     (\<forall>m < length rl. \<exists>x0 x1. ss_get_block hs st (of_nat m) 0 = Inr x0 \<and> ss_get_block hs st (of_nat m) 1 = Inr x1 \<and>
        rs_get_choice hr rt (of_nat m) = Inr (of_bool (rl ! m)) \<and> rs_get_block hr rt (of_nat m) = Inr (if rl ! m then x1 else x0) \<and>
        (cot \<longrightarrow> x1 = x0 XOR ss_delta st)) \<and>
     (cot \<longrightarrow> (\<forall>k < 128. bit (ss_delta st) k = cs ! k))"

lemma iknp_rows:
  assumes "\<forall>k < 128. bit S k = cs ! k" "m < n"
    and "bit (choice (m div 128)) (m mod 128) = rl ! m"
  shows "q_row prg sse2 K0 cs choice n m = t_row prg sse2 K0 n m XOR (if rl ! m then S else 0)"
  unfolding q_row_def t_row_def using q_rows [OF assms(1), of "m mod 128"] assms(3) by simp

lemma extended_otsI:
  assumes "\<forall>k < 128. bit S k = cs ! k" "cot \<longrightarrow> ss_delta st = S"
    and "\<forall>m < length rl. let q = q_row prg sse2 K0 cs choice (length rl) m in
      ss_get_block hs st (of_nat m) 0 = Inr (out_hash rp cot q) \<and> ss_get_block hs st (of_nat m) 1 = Inr (out_hash rp cot (q XOR S))"
    and "\<forall>m < length rl. rs_get_choice hr rt (of_nat m) = Inr (of_bool (rl ! m)) \<and>
      rs_get_block hr rt (of_nat m) = Inr (out_hash rp cot (t_row prg sse2 K0 (length rl) m))"
    and "\<And>m. m < length rl \<Longrightarrow> q_row prg sse2 K0 cs choice (length rl) m = t_row prg sse2 K0 (length rl) m XOR (if rl ! m then S else 0)"
  shows "extended_ots hs st hr rt rl cot cs"
  unfolding extended_ots_def using assms by (auto simp: Let_def out_hash_def xor.assoc)

lemma pair_link_session:
  assumes "length (desc_parties desc) = 2" "i < 2"
  shows "pair_link desc r s i 0 (session_ctx desc i)"
  using linked_session [of desc 2 i] assms by (simp add: pair_link_def fun_upd_idem)

lemma iknp_party_runs:
  assumes "ends M i m c t x I"
  shows "\<exists>c'. run M i (party_bind m (\<lambda>x. party_return (f x)) c) = (t, Inr (f x, c'))"
proof -
  from assms obtain c' where "runs M i m c t x c'"
    by (auto simp: ends_def)
  from runs_bind [OF this, of "\<lambda>x. party_return (f x)" "[]" "f x" c'] show ?thesis
    by (auto simp: runs_def party_return_def)
qed

text \<open>The runs of the two parties, and the stores they leave.\<close>

lemma iknp_runs:
  assumes base: "base_ots hs bs hr br cs K0 K1" and two: "length (desc_parties desc) = 2" and pair: "{r, s} = {0, 1}"
    and choices: "repr choices rl" and n: "unat ot_num = length rl" "0 < length rl" and cot: "cot \<longrightarrow> True \<in> set cs"
  shows "\<exists>v st hs' rt hr' c c'.
    run (iknp_value desc r s (batch_num (length rl)) v) s
      (iknp_party prg rp sse2 hs bs hr br choices ot_num cot s s (session_ctx desc s)) =
      (iknp_trace desc r s (batch_num (length rl)) v s, Inr (Inl (st, hs'), c)) \<and>
    run (iknp_value desc r s (batch_num (length rl)) v) r
      (iknp_party prg rp sse2 hs bs hr br choices ot_num cot s r (session_ctx desc r)) =
      (iknp_trace desc r s (batch_num (length rl)) v r, Inr (Inr (rt, hr'), c')) \<and>
    extended_ots hs' st hr' rt rl cot cs"
proof -
  let ?n = "length rl" and ?b = "batch_num (length rl)"
  have rs: "r \<noteq> s" "r < 2" "s < 2"
    using pair by (auto simp: doubleton_eq_iff)
  obtain padded where pad: "resize choices (?b * kBatchSize) False = Inr padded"
      "\<forall>i < ?b. i < length (m_blocks padded) \<and> (\<forall>j < 128. 128 * i + j < ?n \<longrightarrow> bit (m_blocks padded ! i) j = rl ! (128 * i + j))"
    using padded_choices [OF choices] by (auto simp: returns_def)
  obtain S where S: "choice_block hs bs = Inr S" "\<forall>k < 128. bit S k = cs ! k"
    using choice_block_bits [OF base_otsD(2,1) [OF base]] by (auto simp: returns_def)
  have S0: "cot \<longrightarrow> S \<noteq> 0"
    using cot S(2) base_otsD(1) [OF base] by (auto simp: in_set_conv_nth)
  define choice where "choice i = m_blocks padded ! i" for i
  define v where "v i = blocks_bytes (u_cols prg K0 K1 ?b (choice i) i)" for i
  let ?M = "iknp_value desc r s ?b v"
  have at: "at_idx (m_blocks padded) i = Inr (choice i)" if "i < ?b" for i
    using pad(2) that by (simp add: at_idx_def choice_def)
  have msg: "?M (r, s, iknp_key desc r s i) = blocks_bytes (u_cols prg K0 K1 ?b (choice i) i)" if "i < ?b" for i
    using that by (simp add: iknp_value_key v_def)
  obtain st hs' where send: "ends ?M s (iknp_ot_ext_send_store prg rp sse2 hs bs ot_num cot) (session_ctx desc s)
        (map (\<lambda>i. Rcv (r, s, iknp_key desc r s i)) [0..<?b]) (st, hs') (pair_link desc r s s ?b)"
      "cot \<longrightarrow> ss_delta st = S"
      "\<forall>m < ?n. let q = q_row prg sse2 K0 cs choice ?n m in ss_get_block hs' st (of_nat m) 0 = Inr (out_hash rp cot q) \<and>
         ss_get_block hs' st (of_nat m) 1 = Inr (out_hash rp cot (q XOR S))"
    using send_store_ends [where M = ?M and prg = prg and choice = choice and rp = rp and ?sse2.0 = sse2,
        OF base pair pair_link_session [OF two rs(3)] n S(1) S0] msg by blast
  obtain rt hr' where recv: "ends ?M r (iknp_ot_ext_recv_store prg rp sse2 hr br choices ot_num cot) (session_ctx desc r)
        (map (\<lambda>i. Snd (r, s, iknp_key desc r s i) (v i)) [0..<?b]) (rt, hr') (pair_link desc r s r ?b)"
      "\<forall>m < ?n. rs_get_choice hr' rt (of_nat m) = Inr (of_bool (rl ! m)) \<and>
         rs_get_block hr' rt (of_nat m) = Inr (out_hash rp cot (t_row prg sse2 K0 ?n m))"
    using recv_store_ends [OF base pair pair_link_session [OF two rs(2)] n choices pad(1) at] unfolding v_def by blast
  have row: "q_row prg sse2 K0 cs choice ?n m = t_row prg sse2 K0 ?n m XOR (if rl ! m then S else 0)" if "m < ?n" for m
  proof (rule iknp_rows [OF S(2) that])
    have "m div 128 < ?b"
      using that batch_num_bounds(1) [of ?n] by (simp add: div_less_iff_less_mult mult.commute)
    then show "bit (choice (m div 128)) (m mod 128) = rl ! m"
      using pad(2) that by (simp add: choice_def)
  qed
  obtain c c' where "run ?M s (iknp_party prg rp sse2 hs bs hr br choices ot_num cot s s (session_ctx desc s)) =
        (iknp_trace desc r s ?b v s, Inr (Inl (st, hs'), c))"
      "run ?M r (iknp_party prg rp sse2 hs bs hr br choices ot_num cot s r (session_ctx desc r)) =
        (iknp_trace desc r s ?b v r, Inr (Inr (rt, hr'), c'))"
    using iknp_party_runs [OF send(1), of Inl] iknp_party_runs [OF recv(1), of Inr] rs(1)
    by (auto simp: iknp_party_def iknp_trace_def)
  moreover have "extended_ots hs' st hr' rt rl cot cs"
    by (rule extended_otsI [OF S(2) send(2,3) recv(2) row])
  ultimately show ?thesis
    by blast
qed

subsection \<open>Mock transfers fit\<close>

lemma make_ot_send_store_fields:
  assumes "make_ot_send_store h ps = Inr (st, h')"
  shows "ss_slice st = \<lparr>internal_use_ctr = 0, internal_use_size = of_nat (length ps) * 2, internal_buf_ctr = 0,
      internal_buf_size = of_nat (length ps) * 2\<rparr>"
    "ss_type st = Normal" "ss_blk_buf st = Some (length (blk_bufs h))"
    "blk_bufs h' = blk_bufs h @ [concat (map (\<lambda>(a, b). [a, b]) ps)]"
  using assms by (auto simp: make_ot_send_store_def new_blk_def make_send_store_def init_ctrs_def Let_def)

lemma make_ot_recv_store_fields:
  assumes "make_ot_recv_store h choices bl = Inr (st, h')"
  shows "rs_slice st = \<lparr>internal_use_ctr = 0, internal_use_size = of_nat (size_bits choices), internal_buf_ctr = 0,
      internal_buf_size = of_nat (size_bits choices)\<rparr>"
    "rs_type st = Normal" "rs_bit_buf st = Some (length (bit_bufs h))"
    "blk_bufs h' = blk_bufs h @ [bl]" "bit_bufs h' = bit_bufs h @ [choices]"
  using assms by (auto simp: make_ot_recv_store_def new_blk_def new_bit_def make_recv_store_def init_ctrs_def Let_def)

text \<open>A buffer that is added leaves the blocks of a store as they are.\<close>

lemma ss_get_block_extend:
  assumes "ss_blk_buf st = Some a" "a < length (blk_bufs h)" "blk_bufs h' = blk_bufs h @ [b]"
  shows "ss_get_block h' st i m = ss_get_block h st i m"
  using assms by (simp add: ss_get_block_def blk_at_def at_idx_def nth_append)

lemma mock_rots_ok:
  assumes choices: "repr choices cs" and n: "unat num = length cs" "0 < length cs" "length cs < 2 ^ 32"
  obtains st rt h' where "mock_rots gen h num choices = Inr ((st, rt), h')" "rs_choices h' rt cs"
    "internal_buf_ctr (rs_slice rt) = 0" "internal_buf_ctr (ss_slice st) = 0" "ss_size st = of_nat (length cs)"
    "\<forall>m < length cs. rs_get_block h' rt (of_nat m) = Inr (if cs ! m then gen (2 * m + 1) else gen (2 * m)) \<and>
       ss_get_block h' st (of_nat m) 0 = Inr (gen (2 * m)) \<and> ss_get_block h' st (of_nat m) 1 = Inr (gen (2 * m + 1))"
proof -
  let ?n = "length cs"
  let ?send = "\<lambda>n. map (\<lambda>i. (gen (2 * i), gen (2 * i + 1))) [0..<n]"
  let ?recv = "\<lambda>n. map (\<lambda>i. if cs ! i then gen (2 * i + 1) else gen (2 * i)) [0..<n]"
  let ?f = "\<lambda>i (send, recv). let b = (gen (2 * i), gen (2 * i + 1)) in rbind (op_index choices i) (\<lambda>r.
    rbind (ref_bool choices r) (\<lambda>c. Inr (send @ [b], recv @ [if c then snd b else fst b])))"
  have size: "size_bits choices = ?n"
    using repr_size [OF choices] by (simp add: size_bits_def)
  have fold: "rfold ?f [0..<k] ([], []) = Inr (?send k, ?recv k)" if "k \<le> ?n" for k
    using that
  proof (induction k)
    case (Suc k)
    obtain r where "op_index choices k = Inr r" "ref_bool choices r = Inr (cs ! k)"
      using reference_eq [OF choices, of k] Suc.prems by (auto simp: returns_def)
    with Suc show ?case
      by (simp add: rfold_append Let_def)
  qed simp
  have len: "0 < length (?send ?n)" "length (?send ?n) < 2 ^ 32" "length (?recv ?n) = ?n"
    using n by simp_all
  obtain st h1 where st: "make_ot_send_store h (?send ?n) = Inr (st, h1)"
      "\<And>m. m < ?n \<Longrightarrow> ss_get_block h1 st (of_nat m) 0 = Inr (gen (2 * m))"
      "\<And>m. m < ?n \<Longrightarrow> ss_get_block h1 st (of_nat m) 1 = Inr (gen (2 * m + 1))"
    by (rule make_ot_send_store_ok [OF len(1,2), of h], rule that) simp_all
  obtain rt h2 where rt: "make_ot_recv_store h1 choices (?recv ?n) = Inr (rt, h2)"
      "\<And>m. m < ?n \<Longrightarrow> rs_get_block h2 rt (of_nat m) = Inr (?recv ?n ! m)"
    by (rule make_ot_recv_store_ok [OF choices len(3) n(2,3), of h1], rule that)
  note sf = make_ot_send_store_fields [OF st(1)] and rf = make_ot_recv_store_fields [OF rt(1)]
  have small: "unat (of_nat ?n :: u64) = ?n"
    using n(3) by (intro unat_of_nat_small) simp
  have "unat (of_nat ?n * 2 :: u64) = ?n * 2"
    using small n(3) by (simp add: unat_word_ariths)
  then have half: "(of_nat ?n * 2 :: u64) div 2 = of_nat ?n"
    using small by (simp add: word_unat_eq_iff unat_div_distrib)
  have keep: "ss_get_block h2 st i m = ss_get_block h1 st i m" for i m
    by (rule ss_get_block_extend [OF sf(3) _ rf(4)]) (simp add: sf(4))
  have "rs_choices h2 rt cs"
    using choices n(3) rf size small unfolding rs_choices_def by (auto simp: at_idx_def)
  moreover have "mock_rots gen h num choices = Inr ((st, rt), h2)"
    using fold [of ?n] st(1) rt(1) size by (simp add: mock_rots_def enforce_def n(1))
  ultimately show thesis
    using st(2,3) rt(2) half by (intro that [of st rt h2]) (simp_all add: keep sf rf ss_size_def)
qed

lemma mock_rots_base:
  assumes "repr choices cs" "length cs = 128"
  obtains st rt h' where "mock_rots gen h 128 choices = Inr ((st, rt), h')"
    "base_ots h' rt h' st cs (\<lambda>k. gen (2 * k)) (\<lambda>k. gen (2 * k + 1))"
proof (rule mock_rots_ok [OF assms(1), of 128 gen h])
  fix st rt h'
  assume "mock_rots gen h 128 choices = Inr ((st, rt), h')" "rs_choices h' rt cs"
    "internal_buf_ctr (rs_slice rt) = 0" "internal_buf_ctr (ss_slice st) = 0" "ss_size st = of_nat (length cs)"
    "\<forall>m < length cs. rs_get_block h' rt (of_nat m) = Inr (if cs ! m then gen (2 * m + 1) else gen (2 * m)) \<and>
       ss_get_block h' st (of_nat m) 0 = Inr (gen (2 * m)) \<and> ss_get_block h' st (of_nat m) 1 = Inr (gen (2 * m + 1))"
  then show thesis
    using assms(2) by (intro that [of st rt h']) (simp_all add: base_ots_def is_sliced_def)
qed (use assms in simp_all)

subsection \<open>Properties\<close>

text \<open>C6: The extension of oblivious transfers. The two parties of a session hold fitting base transfers, one runs
  \<open>IknpOtExtSend\<close> and the other \<open>IknpOtExtRecv\<close> with its choices. In every interleaving in which no receive times out
  both return after a bounded number of steps (a party that times out throws \<open>IO_ERROR\<close>), and the stores they leave are
  transfers of any number of messages: for each of them the receiver holds the message of its choice. In the correlated
  mode the two messages of the sender differ by its base choices.\<close>

theorem iknp_extends:
  assumes "base_ots hs bs hr br cs K0 K1" "length (desc_parties desc) = 2" "{r, s} = {0, 1}"
    and "repr choices rl" "unat ot_num = length rl" "0 < length rl" "cot \<longrightarrow> True \<in> set cs"
  shows "\<exists>ctxs st hs' rt hr' c c'. create_session desc = Inr ctxs \<and>
    (\<forall>x. mesh_reach True
       (mesh_init (map (\<lambda>i. iknp_party prg rp sse2 hs bs hr br choices ot_num cot s i (ctxs ! i)) [0..<2])) x \<longrightarrow>
       results_or_timeouts (map (\<lambda>i. if i = s then (Inl (st, hs'), c) else (Inr (rt, hr'), c')) [0..<2]) x) \<and>
    must_end (map (\<lambda>i. if i = s then (Inl (st, hs'), c) else (Inr (rt, hr'), c')) [0..<2])
      (mesh_init (map (\<lambda>i. iknp_party prg rp sse2 hs bs hr br choices ot_num cot s i (ctxs ! i)) [0..<2]))
      (2 * batch_num (length rl)) \<and>
    extended_ots hs' st hr' rt rl cot cs"
proof -
  let ?b = "batch_num (length rl)"
  obtain v st hs' rt hr' c c' where
      sent: "run (iknp_value desc r s ?b v) s (iknp_party prg rp sse2 hs bs hr br choices ot_num cot s s (session_ctx desc s)) =
        (iknp_trace desc r s ?b v s, Inr (Inl (st, hs'), c))"
      and rcvd: "run (iknp_value desc r s ?b v) r (iknp_party prg rp sse2 hs bs hr br choices ot_num cot s r (session_ctx desc r)) =
        (iknp_trace desc r s ?b v r, Inr (Inr (rt, hr'), c'))"
      and out: "extended_ots hs' st hr' rt rl cot cs"
    using iknp_runs [OF assms] by blast
  let ?ctxs = "map (session_ctx desc) [0..<2]"
  let ?ps = "map (\<lambda>i. iknp_party prg rp sse2 hs bs hr br choices ot_num cot s i (?ctxs ! i)) [0..<2]"
  let ?rs = "map (\<lambda>i. if i = s then (Inl (st, hs'), c) else (Inr (rt, hr'), c')) [0..<2]"
  have rs: "r \<noteq> s" "i < 2 \<Longrightarrow> i = r \<or> i = s" for i
    using assms(3) by (auto simp: doubleton_eq_iff)
  have "mesh_protocol ?ps ?rs (iknp_trace desc r s ?b v) (iknp_value desc r s ?b v) (\<lambda>_. 0 :: nat)"
  proof (rule flow_fits_mesh_protocol [OF iknp_fits [OF assms(3)]])
    fix i :: nat assume "i < 2"
    with rs sent rcvd show "run (iknp_value desc r s ?b v) i (?ps ! i) = (iknp_trace desc r s ?b v i, Inr (?rs ! i))"
      by (auto simp del: upt_Suc)
  qed simp_all
  from mesh_protocol.mesh_must_end [OF this] mesh_protocol.results_reached [OF this, of True]
  have "must_end ?rs (mesh_init ?ps) (2 * ?b)" "\<forall>x. mesh_reach True (mesh_init ?ps) x \<longrightarrow> results_or_timeouts ?rs x"
    by (simp_all add: length_iknp_trace)
  moreover have "create_session desc = Inr ?ctxs"
    using create_session_eq [of desc] assms(2) by simp
  ultimately show ?thesis
    using out by blast
qed

text \<open>Base transfers made by \<open>MockRots\<close> with all choices set, and three extended ones.\<close>

definition pair_desc :: context_desc where
  "pair_desc = default_context_desc\<lparr>desc_parties :=
     [\<lparr>party_id = ''alice'', party_host = ''a''\<rparr>, \<lparr>party_id = ''bob'', party_host = ''b''\<rparr>]\<rparr>"

lemma repr_set_bits: "\<exists>bs :: 128 bitset. repr bs (replicate (Suc n) True)"
proof -
  have "repr (\<lparr>m_blocks = [], m_bits_number = 0\<rparr> :: 128 bitset) []"
    using repr_zeros [of 0, where 'a = 128] by (simp add: blocks_required_def)
  from resize_grow [OF this, of "Suc n" True] show ?thesis
    by (auto simp: returns_def)
qed

theorem iknp_extends_witness:
  "\<exists>h bs br (choices :: 128 bitset) ctxs st hs' rt hr' c c'.
    base_ots h bs h br (replicate 128 True) (\<lambda>k. of_nat (2 * k)) (\<lambda>k. of_nat (2 * k + 1)) \<and> repr choices [True, True, True] \<and>
    create_session pair_desc = Inr ctxs \<and>
    (\<forall>x. mesh_reach True
       (mesh_init (map (\<lambda>i. iknp_party (\<lambda>seed n j. seed + of_nat j) (\<lambda>x. x + 1) True h bs h br choices 3 True 1 i (ctxs ! i)) [0..<2])) x \<longrightarrow>
       results_or_timeouts (map (\<lambda>i. if i = 1 then (Inl (st, hs'), c) else (Inr (rt, hr'), c')) [0..<2]) x) \<and>
    must_end (map (\<lambda>i. if i = 1 then (Inl (st, hs'), c) else (Inr (rt, hr'), c')) [0..<2])
      (mesh_init (map (\<lambda>i. iknp_party (\<lambda>seed n j. seed + of_nat j) (\<lambda>x. x + 1) True h bs h br choices 3 True 1 i (ctxs ! i)) [0..<2])) 2 \<and>
    extended_ots hs' st hr' rt [True, True, True] True (replicate 128 True)"
proof -
  obtain base_choices :: "128 bitset" where bc: "repr base_choices (replicate 128 True)"
    using repr_set_bits [of 127] by auto
  obtain choices :: "128 bitset" where ch: "repr choices [True, True, True]"
    using repr_set_bits [of 2] by (auto simp: numeral_2_eq_2)
  obtain br bs h where base: "base_ots h bs h br (replicate 128 True) (\<lambda>k. of_nat (2 * k)) (\<lambda>k. of_nat (2 * k + 1))"
    by (rule mock_rots_base [OF bc, of of_nat "\<lparr>blk_bufs = [], bit_bufs = []\<rparr>"]) (simp_all del: of_nat_mult of_nat_add)
  have one: "2 * batch_num (length [True, True, True]) = 2"
    by (simp add: batch_num_def kBatchSize_def)
  have pre: "length (desc_parties pair_desc) = 2" "{0, 1} = {0, 1 :: nat}" "unat (3 :: u32) = length [True, True, True]"
      "0 < length [True, True, True]" "True \<longrightarrow> True \<in> set (replicate 128 True)"
    by (simp_all add: pair_desc_def)
  show ?thesis
    using iknp_extends [OF base pre(1,2) ch pre(3-5), of "\<lambda>seed n j. seed + of_nat j" "\<lambda>x. x + 1" True, unfolded one] base ch
    by blast
qed

end
