(* ===== verification/Io_Streams.thy ===== *)
theory Io_Streams
  imports Prelude
begin

text \<open>
  The input streams of \<open>yacl/io/stream\<close>: \<open>FileInputStream\<close> (\<open>file_io.cc\<close>) and \<open>MemInputStream\<close>
  (\<open>mem_io.cc\<close>), and the in-memory output stream. Both input streams wrap a standard stream,
  modelled by \<open>istream\<close>: the characters it delivers, the position of the next one, and the flags
  \<open>eofbit\<close> and \<open>failbit\<close>. The file system is a function from path to contents; \<open>badbit\<close>, which only
  a failing device sets, does not occur.

  \<open>std::getline\<close> erases its string only when the stream is good: called again at the end of the
  stream it sets \<open>failbit\<close> and leaves the string as it was. The locale \<open>input_stream\<close> states what a
  reader of delimited lines relies on, and is interpreted on both classes.
\<close>

subsection \<open>The standard stream\<close>

record istream =
  is_text :: string
  is_pos :: nat
  is_eof :: bool
  is_fail :: bool

definition is_good :: "istream \<Rightarrow> bool" where
  "is_good s \<longleftrightarrow> \<not> is_eof s \<and> \<not> is_fail s"

definition std_clear :: "istream \<Rightarrow> istream" where
  "std_clear s = s\<lparr>is_eof := False, is_fail := False\<rparr>"

definition std_getline :: "char \<Rightarrow> string \<Rightarrow> istream \<Rightarrow> string \<times> istream" where
  "std_getline delim ret s =
     (if is_good s then
        let rest = drop (is_pos s) (is_text s); line = takeWhile (\<lambda>c. c \<noteq> delim) rest in
        if length line < length rest
        then (line, s\<lparr>is_pos := is_pos s + length line + 1\<rparr>)
        else (line, s\<lparr>is_pos := is_pos s + length line, is_eof := True, is_fail := line = []\<rparr>)
      else (ret, s\<lparr>is_fail := True\<rparr>))"

definition std_read :: "nat \<Rightarrow> istream \<Rightarrow> string \<times> istream" where
  "std_read n s =
     (if is_good s then
        let got = take n (drop (is_pos s) (is_text s)) in
        (got, if length got < n
              then s\<lparr>is_pos := is_pos s + length got, is_eof := True, is_fail := True\<rparr>
              else s\<lparr>is_pos := is_pos s + length got\<rparr>)
      else ([], s\<lparr>is_fail := True\<rparr>))"

definition std_readsome :: "nat \<Rightarrow> istream \<Rightarrow> string \<times> istream" where
  "std_readsome n s =
     (if is_good s then
        let got = take n (drop (is_pos s) (is_text s)) in
        (got, s\<lparr>is_pos := is_pos s + length got\<rparr>)
      else ([], s\<lparr>is_fail := True\<rparr>))"

subsection \<open>FileInputStream\<close>

record file_input_stream =
  fis_name :: string
  fis_in :: istream
  fis_open :: bool
  fis_len :: nat

type_synonym file_system = "string \<Rightarrow> string option"

definition file_tellg :: "file_input_stream \<Rightarrow> nat" where
  "file_tellg s = (if fis_open s then is_pos (fis_in s) else 2 ^ 64 - 1)"

text \<open>The position is converted to a signed offset; the stream's exception mask turns a failed
  seek into an \<open>IoError\<close>.\<close>

definition file_seekg :: "nat \<Rightarrow> file_input_stream \<Rightarrow> file_input_stream result" where
  "file_seekg pos s =
     (if fis_open s \<and> pos < 2 ^ 63 then Inr (s\<lparr>fis_in := (std_clear (fis_in s))\<lparr>is_pos := pos\<rparr>\<rparr>)
      else Inl IoError)"

definition file_ctor :: "file_system \<Rightarrow> string \<Rightarrow> file_input_stream result" where
  "file_ctor fs name =
     (case fs name of
        None \<Rightarrow> Inl IoError
      | Some text \<Rightarrow>
          let s = \<lparr>fis_name = name,
                   fis_in = \<lparr>is_text = text, is_pos = length text, is_eof = False, is_fail = False\<rparr>,
                   fis_open = True, fis_len = 0\<rparr> in
          file_seekg 0 (s\<lparr>fis_len := file_tellg s\<rparr>))"

definition file_bool :: "file_input_stream \<Rightarrow> bool" where
  "file_bool s \<longleftrightarrow> \<not> is_fail (fis_in s)"

definition file_not :: "file_input_stream \<Rightarrow> bool" where
  "file_not s \<longleftrightarrow> \<not> \<not> is_fail (fis_in s)"

definition file_eof :: "file_input_stream \<Rightarrow> bool" where
  "file_eof s \<longleftrightarrow> is_eof (fis_in s)"

definition file_get_line :: "string \<Rightarrow> char \<Rightarrow> file_input_stream \<Rightarrow> (string \<times> file_input_stream) result" where
  "file_get_line ret delim s =
     (let (line, i) = std_getline delim ret (fis_in s) in
      if is_fail i \<and> \<not> is_eof i then Inl IoError else Inr (line, s\<lparr>fis_in := i\<rparr>))"

definition file_read :: "nat \<Rightarrow> file_input_stream \<Rightarrow> (string \<times> file_input_stream) result" where
  "file_read len s =
     (let (got, i) = std_read len (fis_in s) in
      if is_fail i then Inl IoError else Inr (got, s\<lparr>fis_in := i\<rparr>))"

definition file_get_length :: "file_input_stream \<Rightarrow> nat" where
  "file_get_length s = fis_len s"

definition file_close :: "file_input_stream \<Rightarrow> file_input_stream result" where
  "file_close s =
     (if fis_open s
      then Inr (s\<lparr>fis_open := False, fis_in := (fis_in s)\<lparr>is_text := [], is_pos := 0\<rparr>, fis_len := 0\<rparr>)
      else Inl IoError)"

definition file_spawn :: "file_system \<Rightarrow> file_input_stream \<Rightarrow> file_input_stream result" where
  "file_spawn fs s = rbind (file_ctor fs (fis_name s)) (file_seekg (file_tellg s))"

subsection \<open>MemInputStream\<close>

record mem_input_stream =
  mis_in :: istream
  mis_len :: nat

definition mem_ctor :: "string \<Rightarrow> mem_input_stream" where
  "mem_ctor input_data =
     \<lparr>mis_in = \<lparr>is_text = input_data, is_pos = 0, is_eof = False, is_fail = False\<rparr>,
      mis_len = length input_data\<rparr>"

definition mem_bool :: "mem_input_stream \<Rightarrow> bool" where
  "mem_bool s \<longleftrightarrow> \<not> is_fail (mis_in s)"

definition mem_not :: "mem_input_stream \<Rightarrow> bool" where
  "mem_not s \<longleftrightarrow> \<not> \<not> is_fail (mis_in s)"

definition mem_eof :: "mem_input_stream \<Rightarrow> bool" where
  "mem_eof s \<longleftrightarrow> is_eof (mis_in s)"

definition mem_get_line :: "string \<Rightarrow> char \<Rightarrow> mem_input_stream \<Rightarrow> (string \<times> mem_input_stream) result" where
  "mem_get_line ret delim s =
     (let (line, i) = std_getline delim ret (mis_in s) in Inr (line, s\<lparr>mis_in := i\<rparr>))"

definition mem_read :: "nat \<Rightarrow> mem_input_stream \<Rightarrow> (string \<times> mem_input_stream) result" where
  "mem_read len s = (let (got, i) = std_readsome len (mis_in s) in Inr (got, s\<lparr>mis_in := i\<rparr>))"

text \<open>A seek behind the end of a string fails without an exception.\<close>

definition mem_seekg :: "nat \<Rightarrow> mem_input_stream \<Rightarrow> mem_input_stream result" where
  "mem_seekg pos s =
     (let i = std_clear (mis_in s) in
      Inr (s\<lparr>mis_in := if pos \<le> length (is_text i) then i\<lparr>is_pos := pos\<rparr> else i\<lparr>is_fail := True\<rparr>\<rparr>))"

definition mem_tellg :: "mem_input_stream \<Rightarrow> nat" where
  "mem_tellg s = is_pos (mis_in s)"

definition mem_get_length :: "mem_input_stream \<Rightarrow> nat" where
  "mem_get_length s = mis_len s"

definition mem_close :: "mem_input_stream \<Rightarrow> mem_input_stream" where
  "mem_close s = s\<lparr>mis_in := (mis_in s)\<lparr>is_text := [], is_pos := 0\<rparr>, mis_len := 0\<rparr>"

definition mem_spawn :: "mem_input_stream \<Rightarrow> mem_input_stream result" where
  "mem_spawn s = mem_seekg (mem_tellg s) (mem_ctor (is_text (mis_in s)))"

subsection \<open>MemOutputStream\<close>

text \<open>The buffer, the caller's string \<open>*out_\<close>, and whether \<open>out_\<close> still points to it.\<close>

record mem_output_stream =
  mos_buffer :: string
  mos_target :: string
  mos_attached :: bool

definition mem_write :: "string \<Rightarrow> mem_output_stream \<Rightarrow> mem_output_stream" where
  "mem_write buf s = s\<lparr>mos_buffer := mos_buffer s @ buf\<rparr>"

definition mem_tellp :: "mem_output_stream \<Rightarrow> nat" where
  "mem_tellp s = length (mos_buffer s)"

definition mem_flush :: "mem_output_stream \<Rightarrow> mem_output_stream" where
  "mem_flush s = (if mos_attached s then s\<lparr>mos_target := mos_buffer s\<rparr> else s)"

definition mem_out_close :: "mem_output_stream \<Rightarrow> mem_output_stream" where
  "mem_out_close s =
     (if mos_attached s
      then s\<lparr>mos_target := mos_buffer s, mos_buffer := [], mos_attached := False\<rparr> else s)"

subsection \<open>Reading delimited lines\<close>

text \<open>\<open>GetLine\<close> called \<open>n\<close> times on the same string variable, collecting the lines.\<close>

fun read_lines :: "(string \<Rightarrow> char \<Rightarrow> 's \<Rightarrow> (string \<times> 's) result) \<Rightarrow> char \<Rightarrow> nat \<Rightarrow> string \<Rightarrow> 's \<Rightarrow>
    (string list \<times> 's) result" where
  "read_lines get_line d 0 ret s = Inr ([], s)"
| "read_lines get_line d (Suc n) ret s =
     rbind (get_line ret d s) (\<lambda>(line, s).
     rbind (read_lines get_line d n line s) (\<lambda>(ls, s). Inr (line # ls, s)))"

definition join_lines :: "char \<Rightarrow> string list \<Rightarrow> string" where
  "join_lines d ls = concat (map (\<lambda>l. l @ [d]) ls)"

lemma join_lines_simps [simp]:
  "join_lines d [] = []"
  "join_lines d (l # ls) = l @ d # join_lines d ls"
  "join_lines d (ls @ ms) = join_lines d ls @ join_lines d ms"
  by (simp_all add: join_lines_def)

text \<open>\<open>at s text p\<close>: the stream is good, delivers \<open>text\<close>, and stands at position \<open>p\<close>.\<close>

locale input_stream =
  fixes get_line :: "string \<Rightarrow> char \<Rightarrow> 's \<Rightarrow> (string \<times> 's) result"
    and seekg :: "nat \<Rightarrow> 's \<Rightarrow> 's result"
    and tellg :: "'s \<Rightarrow> nat"
    and at :: "'s \<Rightarrow> string \<Rightarrow> nat \<Rightarrow> bool"
    and holds :: "'s \<Rightarrow> string \<Rightarrow> bool"
  assumes at_holds: "at s text p \<Longrightarrow> holds s text"
    and get_line_delim: "at s text p \<Longrightarrow> drop p text = line @ d # rest \<Longrightarrow> d \<notin> set line \<Longrightarrow>
      returns (get_line ret d s) (\<lambda>(r, s'). r = line \<and> at s' text (p + length line + 1))"
    and get_line_last: "at s text p \<Longrightarrow> d \<notin> set (drop p text) \<Longrightarrow>
      returns (get_line ret d s) (\<lambda>(r, s'). r = drop p text \<and> holds s' text)"
    and seekg_at: "holds s text \<Longrightarrow> p \<le> length text \<Longrightarrow> returns (seekg p s) (\<lambda>s'. at s' text p)"
    and tellg_at: "at s text p \<Longrightarrow> tellg s = p"
begin

lemma read_lines_at:
  "at s text p \<Longrightarrow> drop p text = join_lines d ls @ rest \<Longrightarrow> \<forall>l \<in> set ls. d \<notin> set l \<Longrightarrow>
    returns (read_lines get_line d (length ls) ret s)
      (\<lambda>(r, s'). r = ls \<and> at s' text (p + length (join_lines d ls)))"
proof (induction ls arbitrary: s p ret)
  case (Cons l ls)
  have "drop (length l + 1) (drop p text) = join_lines d ls @ rest"
    using Cons.prems(2) by simp
  then have next_drop: "drop (p + length l + 1) text = join_lines d ls @ rest"
    by (simp add: ac_simps)
  have "returns (get_line ret d s) (\<lambda>(r, s'). r = l \<and> at s' text (p + length l + 1))"
    using Cons.prems by (intro get_line_delim [where rest = "join_lines d ls @ rest"]) auto
  then obtain s' where got: "get_line ret d s = Inr (l, s')" and s': "at s' text (p + length l + 1)"
    by (auto simp: returns_def)
  have "returns (read_lines get_line d (length ls) l s')
      (\<lambda>(r, s''). r = ls \<and> at s'' text (p + length l + 1 + length (join_lines d ls)))"
    using Cons.prems(3) by (intro Cons.IH [OF s' next_drop]) simp
  with got show ?case by (auto simp: returns_def add.assoc)
qed simp

end

lemma takeWhile_delim: "d \<notin> set line \<Longrightarrow> takeWhile (\<lambda>c. c \<noteq> d) (line @ d # rest) = line"
  by (induction line) auto

lemma takeWhile_none: "d \<notin> set xs \<Longrightarrow> takeWhile (\<lambda>c. c \<noteq> d) xs = xs"
  by (induction xs) auto

definition stream_at :: "istream \<Rightarrow> string \<Rightarrow> nat \<Rightarrow> bool" where
  "stream_at s text p \<longleftrightarrow> is_good s \<and> is_text s = text \<and> is_pos s = p"

definition file_at :: "file_input_stream \<Rightarrow> string \<Rightarrow> nat \<Rightarrow> bool" where
  "file_at s text p \<longleftrightarrow> stream_at (fis_in s) text p \<and> fis_open s \<and> length text < 2 ^ 63"

definition file_holds :: "file_input_stream \<Rightarrow> string \<Rightarrow> bool" where
  "file_holds s text \<longleftrightarrow> is_text (fis_in s) = text \<and> fis_open s \<and> length text < 2 ^ 63"

definition mem_at :: "mem_input_stream \<Rightarrow> string \<Rightarrow> nat \<Rightarrow> bool" where
  "mem_at s text p \<longleftrightarrow> stream_at (mis_in s) text p"

definition mem_holds :: "mem_input_stream \<Rightarrow> string \<Rightarrow> bool" where
  "mem_holds s text \<longleftrightarrow> is_text (mis_in s) = text"

lemma std_getline_delim:
  "stream_at s text p \<Longrightarrow> drop p text = line @ d # rest \<Longrightarrow> d \<notin> set line \<Longrightarrow>
    std_getline d ret s = (line, s\<lparr>is_pos := p + length line + 1\<rparr>)"
  by (simp add: std_getline_def stream_at_def Let_def takeWhile_delim)

lemma std_getline_last:
  "stream_at s text p \<Longrightarrow> d \<notin> set (drop p text) \<Longrightarrow>
    std_getline d ret s = (drop p text, s\<lparr>is_pos := p + length (drop p text), is_eof := True,
      is_fail := drop p text = []\<rparr>)"
  by (simp add: std_getline_def stream_at_def Let_def takeWhile_none del: length_drop)

interpretation file_stream: input_stream file_get_line file_seekg file_tellg file_at file_holds
  by unfold_locales
    (auto simp: file_get_line_def file_at_def file_holds_def file_seekg_def file_tellg_def
      std_getline_delim std_getline_last std_clear_def stream_at_def is_good_def)

interpretation mem_stream: input_stream mem_get_line mem_seekg mem_tellg mem_at mem_holds
  by unfold_locales
    (auto simp: mem_get_line_def mem_at_def mem_holds_def mem_seekg_def mem_tellg_def Let_def
      std_getline_delim std_getline_last std_clear_def stream_at_def is_good_def)

end
