(* ===== verification/Circuits.thy ===== *)
theory Circuits
  imports Io_Streams Chunking Channel_Keys Dynamic_Bitset_Properties
begin

text \<open>
  Boolean circuits in Bristol fashion: \<open>BFCircuit\<close> and \<open>CircuitReader\<close> of
  \<open>io/circuit/bristol_fashion.{h,cc}\<close>, which read a circuit from a file, and \<open>PlainExecutor\<close> of
  \<open>utils/circuit_executor.{h,cc}\<close>, which evaluates it on a bitset of wires. \<open>absl::SimpleAtoi\<close> and
  \<open>absl::StrSplit\<close> on a space are library functions: the parameters \<open>atoi\<close> and \<open>split\<close>. Counts and wire
  numbers are 32-bit words, so the sums the reader compares wrap. A method that throws returns the
  exception; the fields it had written before are not observed.
\<close>

subsection \<open>The circuit\<close>

datatype gate_op = OpXOR | OpAND | OpINV | OpEQ | OpEQW | OpMAND

record gate =
  g_niw :: u32
  g_now :: u32
  g_iw :: "u32 list"
  g_ow :: "u32 list"
  g_op :: gate_op

record bf_circuit =
  c_ng :: u32
  c_nw :: u32
  c_niv :: u32
  c_niw :: "u32 list"
  c_nov :: u32
  c_now :: "u32 list"
  c_gates :: "gate list"

definition gate_default :: gate where
  "gate_default = \<lparr>g_niw = 0, g_now = 0, g_iw = [], g_ow = [], g_op = OpXOR\<rparr>"

definition circuit_default :: bf_circuit where
  "circuit_default = \<lparr>c_ng = 0, c_nw = 0, c_niv = 0, c_niw = [], c_nov = 0, c_now = [], c_gates = []\<rparr>"

subsection \<open>The reader\<close>

record circuit_reader =
  rd_circ :: "bf_circuit option"
  rd_in :: "file_input_stream option"
  rd_metadata_length :: nat

abbreviation newline :: char where
  "newline \<equiv> CHR 0x0A"

definition simple_atoi :: "(string \<Rightarrow> u32 option) \<Rightarrow> string \<Rightarrow> u32 result" where
  "simple_atoi atoi w = (case atoi w of Some n \<Rightarrow> Inr n | None \<Rightarrow> Inl EnforceNotMet)"

text \<open>The loop that reads \<open>n\<close> numbers from \<open>splits[off]\<close> on into a vector.\<close>

definition read_numbers :: "(string \<Rightarrow> u32 option) \<Rightarrow> string list \<Rightarrow> nat \<Rightarrow> nat \<Rightarrow> u32 list \<Rightarrow> u32 list result" where
  "read_numbers atoi splits off n v =
     rfold (\<lambda>i v. rbind (at_idx splits (off + i)) (\<lambda>w. rbind (simple_atoi atoi w) (\<lambda>x. set_idx v i x)))
       [0..<n] v"

text \<open>The second and the third line: a number of values and the number of wires of each.\<close>

definition read_values_line ::
  "(string \<Rightarrow> u32 option) \<Rightarrow> (string \<Rightarrow> string list) \<Rightarrow> string \<Rightarrow> u32 list \<Rightarrow> (u32 \<times> u32 list) result" where
  "read_values_line atoi split line v =
     (let splits = split line in
      rbind (at_idx splits 0) (\<lambda>w.
      rbind (simple_atoi atoi w) (\<lambda>n.
      rbind (enforce (unat (n + 1) \<le> length splits)) (\<lambda>_.
      rbind (read_numbers atoi splits 1 (unat n) (vec_resize (unat n) 0 v)) (\<lambda>v. Inr (n, v))))))"

definition read_meta ::
  "(string \<Rightarrow> u32 option) \<Rightarrow> (string \<Rightarrow> string list) \<Rightarrow> circuit_reader \<Rightarrow> circuit_reader result" where
  "read_meta atoi split r =
     (case (rd_circ r, rd_in r) of
        (Some c, Some s) \<Rightarrow>
          rbind (file_seekg 0 s) (\<lambda>s.
          rbind (file_get_line [] newline s) (\<lambda>(ret, s).
          let splits = split ret in
          rbind (enforce (length splits = 2)) (\<lambda>_.
          rbind (simple_atoi atoi (splits ! 0)) (\<lambda>ng.
          rbind (simple_atoi atoi (splits ! 1)) (\<lambda>nw.
          rbind (file_get_line ret newline s) (\<lambda>(ret, s).
          rbind (read_values_line atoi split ret (c_niw c)) (\<lambda>(niv, niw).
          rbind (file_get_line ret newline s) (\<lambda>(ret, s).
          rbind (read_values_line atoi split ret (c_now c)) (\<lambda>(nov, now).
          Inr (r\<lparr>rd_circ := Some (c\<lparr>c_ng := ng, c_nw := nw, c_niv := niv, c_niw := niw,
                                    c_nov := nov, c_now := now\<rparr>),
                 rd_in := Some s, rd_metadata_length := file_tellg s\<rparr>))))))))))
      | _ \<Rightarrow> Inl EnforceNotMet)"

text \<open>The operation of a gate and the check of its numbers of wires.\<close>

definition gate_op_of :: "string \<Rightarrow> u32 \<Rightarrow> u32 \<Rightarrow> gate_op result" where
  "gate_op_of op_str niw now =
     (if op_str = ''XOR'' then rbind (enforce (now = 1)) (\<lambda>_. rbind (enforce (niw = 2)) (\<lambda>_. Inr OpXOR))
      else if op_str = ''AND'' then rbind (enforce (now = 1)) (\<lambda>_. rbind (enforce (niw = 2)) (\<lambda>_. Inr OpAND))
      else if op_str = ''INV'' then rbind (enforce (now = 1)) (\<lambda>_. rbind (enforce (niw = 1)) (\<lambda>_. Inr OpINV))
      else if op_str = ''EQ'' then rbind (enforce (now = 1)) (\<lambda>_. rbind (enforce (niw = 1)) (\<lambda>_. Inr OpEQ))
      else if op_str = ''EQW'' then rbind (enforce (now = 1)) (\<lambda>_. rbind (enforce (niw = 1)) (\<lambda>_. Inr OpEQW))
      else if op_str = ''MAND'' then rbind (enforce (niw = now * 2)) (\<lambda>_. Inr OpMAND)
      else Inl RuntimeError)"

text \<open>One line of the gate list, read into the gate \<open>g\<close> of the vector.\<close>

definition read_gate ::
  "(string \<Rightarrow> u32 option) \<Rightarrow> (string \<Rightarrow> string list) \<Rightarrow> string \<Rightarrow> gate \<Rightarrow> gate result" where
  "read_gate atoi split ret g =
     (let splits = split ret in
      rbind (at_idx splits 0) (\<lambda>w.
      rbind (simple_atoi atoi w) (\<lambda>niw.
      rbind (at_idx splits 1) (\<lambda>w.
      rbind (simple_atoi atoi w) (\<lambda>now.
      rbind (enforce (unat (niw + now + 2) < length splits)) (\<lambda>_.
      rbind (read_numbers atoi splits 2 (unat niw) (vec_resize (unat niw) 0 (g_iw g))) (\<lambda>iw.
      rbind (read_numbers atoi splits (2 + unat niw) (unat now) (vec_resize (unat now) 0 (g_ow g))) (\<lambda>ow.
      rbind (at_idx splits (unat (niw + now + 2))) (\<lambda>op_str.
      rbind (gate_op_of op_str niw now) (\<lambda>op.
      Inr \<lparr>g_niw = niw, g_now = now, g_iw = iw, g_ow = ow, g_op = op\<rparr>))))))))))"

definition read_gates_loop ::
  "(string \<Rightarrow> u32 option) \<Rightarrow> (string \<Rightarrow> string list) \<Rightarrow> nat \<Rightarrow> string \<times> file_input_stream \<times> gate list \<Rightarrow>
    (string \<times> file_input_stream \<times> gate list) result" where
  "read_gates_loop atoi split ng =
     rfold (\<lambda>i (ret, s, gates).
       rbind (file_get_line ret newline s) (\<lambda>(ret, s).
       rbind (at_idx gates i) (\<lambda>g.
       rbind (read_gate atoi split ret g) (\<lambda>g.
       rbind (set_idx gates i g) (\<lambda>gates. Inr (ret, s, gates)))))) [0..<ng]"

definition read_all_gates ::
  "(string \<Rightarrow> u32 option) \<Rightarrow> (string \<Rightarrow> string list) \<Rightarrow> circuit_reader \<Rightarrow> circuit_reader result" where
  "read_all_gates atoi split r =
     rbind (enforce (rd_circ r \<noteq> None)) (\<lambda>_.
     rbind (enforce (rd_in r \<noteq> None)) (\<lambda>_.
     rbind (if rd_metadata_length r = 0 then read_meta atoi split r else Inr r) (\<lambda>r.
     case (rd_circ r, rd_in r) of
       (Some c, Some s) \<Rightarrow>
         rbind (file_seekg (rd_metadata_length r) s) (\<lambda>s.
         rbind (file_get_line [] newline s) (\<lambda>(ret, s).
         rbind (read_gates_loop atoi split (unat (c_ng c))
             (ret, s, vec_resize (unat (c_ng c)) gate_default (c_gates c))) (\<lambda>(ret, s, gates).
         Inr (r\<lparr>rd_circ := Some (c\<lparr>c_gates := gates\<rparr>), rd_in := Some s\<rparr>))))
     | _ \<Rightarrow> Inl Undefined)))"

definition steal_circ :: "circuit_reader \<Rightarrow> (bf_circuit \<times> circuit_reader) result" where
  "steal_circ r =
     (case rd_circ r of
        None \<Rightarrow> Inl EnforceNotMet
      | Some c \<Rightarrow> Inr (c, r\<lparr>rd_circ := None\<rparr>))"

definition reader_reset :: "circuit_reader \<Rightarrow> circuit_reader result" where
  "reader_reset r =
     rbind (case rd_in r of
              None \<Rightarrow> Inr r
            | Some s \<Rightarrow> rbind (file_close s) (\<lambda>s. Inr (r\<lparr>rd_in := Some s\<rparr>))) (\<lambda>r.
     Inr (r\<lparr>rd_circ := None\<rparr>))"

definition reader_init :: "file_system \<Rightarrow> string \<Rightarrow> circuit_reader \<Rightarrow> circuit_reader result" where
  "reader_init fs path r =
     rbind (file_ctor fs path) (\<lambda>s. Inr (r\<lparr>rd_in := Some s, rd_circ := Some circuit_default\<rparr>))"

definition reader_ctor :: "file_system \<Rightarrow> string \<Rightarrow> circuit_reader result" where
  "reader_ctor fs path =
     rbind (reader_reset \<lparr>rd_circ = None, rd_in = None, rd_metadata_length = 0\<rparr>) (reader_init fs path)"

subsection \<open>The input of the SHA-256 circuit\<close>

definition sha256_initial_hash_values :: bytes where
  "sha256_initial_hash_values =
     [0x19, 0xcd, 0xe0, 0x5b, 0xab, 0xd9, 0x83, 0x1f, 0x8c, 0x68, 0x05,
      0x9b, 0x7f, 0x52, 0x0e, 0x51, 0x3a, 0xf5, 0x4f, 0xa5, 0x72, 0xf3,
      0x6e, 0x3c, 0x85, 0xae, 0x67, 0xbb, 0x67, 0xe6, 0x09, 0x6a]"

text \<open>The memory of a word, on a little-endian machine.\<close>

definition word_bytes :: "'a :: len word \<Rightarrow> bytes" where
  "word_bytes w = map (\<lambda>k. ucast (drop_bit (8 * k) w)) [0..<LENGTH('a) div 8]"

definition prepare_sha256_input :: "bytes \<Rightarrow> bytes result" where
  "prepare_sha256_input input =
     (let input_size = of_nat (length input) :: u64;
          zero_padding_size = (if (input_size + 1 + 8) mod 64 = 0 then 0
                               else 64 - (input_size + 1 + 8) mod 64);
          message_size = input_size + 1 + zero_padding_size + 8;
          result_size = message_size + 32 in
      rbind (enforce (message_size = 64)) (\<lambda>_.
      let result = replicate (unat result_size) 0;
          input_bitnum = input_size * 8 in
      rbind (mem_copy result 0 (word_bytes input_bitnum)) (\<lambda>result.
      let offset = 8 + unat zero_padding_size in
      rbind (set_idx result offset 0x80) (\<lambda>result.
      let offset = offset + 1 in
      rbind (mem_copy result offset (rev input)) (\<lambda>result.
      mem_copy result (offset + unat input_size) sha256_initial_hash_values)))))"

subsection \<open>The executor\<close>

record plain_executor =
  ex_wires :: "8 bitset"
  ex_circ :: "bf_circuit option"

definition executor_default :: plain_executor where
  "executor_default = \<lparr>ex_wires = bitset_default, ex_circ = None\<rparr>"

text \<open>The circuit behind \<open>circ_\<close>; a null pointer is not checked.\<close>

definition circ_of :: "plain_executor \<Rightarrow> bf_circuit result" where
  "circ_of e = (case ex_circ e of None \<Rightarrow> Inl Undefined | Some c \<Rightarrow> Inr c)"

definition load_circuit_file ::
  "(string \<Rightarrow> u32 option) \<Rightarrow> (string \<Rightarrow> string list) \<Rightarrow> file_system \<Rightarrow> string \<Rightarrow> plain_executor \<Rightarrow> plain_executor result" where
  "load_circuit_file atoi split fs path e =
     rbind (reader_ctor fs path) (\<lambda>r.
     rbind (read_all_gates atoi split r) (\<lambda>r.
     rbind (steal_circ r) (\<lambda>(c, _). Inr (e\<lparr>ex_circ := Some c\<rparr>))))"

text \<open>\<open>memcpy\<close> into the blocks of a bitset of bytes.\<close>

definition copy_to_data :: "8 bitset \<Rightarrow> bytes \<Rightarrow> 8 bitset result" where
  "copy_to_data bs data = rbind (mem_copy (m_blocks bs) 0 data) (\<lambda>bl. Inr (bs\<lparr>m_blocks := bl\<rparr>))"

definition setup_inputs_bytes :: "bytes \<Rightarrow> plain_executor \<Rightarrow> plain_executor result" where
  "setup_inputs_bytes input e =
     rbind (circ_of e) (\<lambda>c.
     rbind (enforce (ucast (foldl (+) 0 (c_niw c)) = (of_nat (length input) * 8 :: u64))) (\<lambda>_.
     rbind (resize (ex_wires e) (unat (c_nw c)) False) (\<lambda>w.
     rbind (copy_to_data w input) (\<lambda>w. Inr (e\<lparr>ex_wires := w\<rparr>)))))"

definition setup_inputs :: "'a :: len word list \<Rightarrow> plain_executor \<Rightarrow> plain_executor result" where
  "setup_inputs inputs e =
     rbind (circ_of e) (\<lambda>c.
     rbind (enforce (length inputs = unat (c_niv c))) (\<lambda>_.
     rbind (resize bitset_default (LENGTH('a) div 8 * 8 * length inputs) False) (\<lambda>input_wires.
     rbind (copy_to_data input_wires (concat (map word_bytes inputs))) (\<lambda>input_wires.
     rbind (append_bitset (ex_wires e) input_wires) (\<lambda>w.
     rbind (resize w (unat (c_nw c)) False) (\<lambda>w. Inr (e\<lparr>ex_wires := w\<rparr>)))))))"

text \<open>A wire read through the \<open>reference\<close> of \<open>operator[]\<close>.\<close>

definition wire_at :: "8 bitset \<Rightarrow> nat \<Rightarrow> bool result" where
  "wire_at w i = rbind (op_index w i) (ref_bool w)"

definition exec_gate :: "gate \<Rightarrow> 8 bitset \<Rightarrow> 8 bitset result" where
  "exec_gate g w =
     (let set_out = (\<lambda>v. rbind (at_idx (g_ow g) 0) (\<lambda>o0. set_bit_at w (unat o0) v));
          iw = (\<lambda>k. rbind (at_idx (g_iw g) k) (\<lambda>i. wire_at w (unat i))) in
      case g_op g of
        OpXOR \<Rightarrow> rbind (iw 0) (\<lambda>x. rbind (iw 1) (\<lambda>y. set_out (x \<noteq> y)))
      | OpAND \<Rightarrow> rbind (iw 0) (\<lambda>x. rbind (iw 1) (\<lambda>y. set_out (x \<and> y)))
      | OpINV \<Rightarrow> rbind (iw 0) (\<lambda>x. set_out (\<not> x))
      | OpEQ \<Rightarrow> rbind (at_idx (g_iw g) 0) (\<lambda>i. set_out (i \<noteq> 0))
      | OpEQW \<Rightarrow> rbind (iw 0) set_out
      | OpMAND \<Rightarrow> Inl RuntimeError)"

definition exec :: "plain_executor \<Rightarrow> plain_executor result" where
  "exec e =
     rbind (circ_of e) (\<lambda>c.
     rbind (rfold exec_gate (c_gates c) (ex_wires e)) (\<lambda>w. Inr (e\<lparr>ex_wires := w\<rparr>)))"

text \<open>\<open>result[j] = wires_[index - n + j]\<close> for \<open>j < n\<close>, into a new bitset of \<open>n\<close> bits; its first block.\<close>

definition gather_wires :: "8 bitset \<Rightarrow> u64 \<Rightarrow> u32 \<Rightarrow> 'a :: len word result" where
  "gather_wires w index n =
     rbind (bitset_init (unat n) 0) (\<lambda>result :: 'a bitset.
     rbind (rfold (\<lambda>j result.
         rbind (wire_at w (unat (index - ucast n + of_nat j))) (\<lambda>v.
         rbind (op_index result j) (\<lambda>r. ref_op_assign result r v))) [0..<unat n] result) (\<lambda>result.
     at_idx (m_blocks result) 0))"

definition finalize_bytes :: "plain_executor \<Rightarrow> bytes result" where
  "finalize_bytes e =
     rbind (circ_of e) (\<lambda>c.
     rbind (rfold (\<lambda>i total. rbind (at_idx (c_now c) i) (\<lambda>n. Inr (total + ucast n))) [0..<unat (c_nov c)] (0 :: u64)) (\<lambda>total_out_bitnum.
     let out_size = unat ((total_out_bitnum + 7) div 8) in
     rbind (rfold (\<lambda>i (out, index).
         rbind (gather_wires (ex_wires e) index 8) (\<lambda>b.
         rbind (set_idx out (out_size - i - 1) b) (\<lambda>out. Inr (out, index - 8)))) [0..<out_size]
       (replicate out_size 0, of_nat (size_bits (ex_wires e)))) (\<lambda>(out, _).
     Inr (rev out))))"

definition finalize :: "'a :: len word list \<Rightarrow> plain_executor \<Rightarrow> 'a word list result" where
  "finalize outputs e =
     rbind (circ_of e) (\<lambda>c.
     rbind (enforce (unat (c_nov c) \<le> length outputs)) (\<lambda>_.
     rbind (enforce (list_all (\<lambda>n. unat n \<le> LENGTH('a) div 8 * 8) (c_now c))) (\<lambda>_.
     rbind (rfold (\<lambda>i (outputs, index).
         rbind (at_idx (c_now c) i) (\<lambda>n.
         rbind (gather_wires (ex_wires e) index n) (\<lambda>v.
         rbind (set_idx outputs (unat (c_nov c) - i - 1) v) (\<lambda>outputs. Inr (outputs, index - ucast n)))))
       [0..<unat (c_nov c)] (outputs, of_nat (size_bits (ex_wires e)))) (\<lambda>(outputs, _).
     Inr outputs))))"

end
