(* ===== verification/Circuits_Reader.thy ===== *)
theory Circuits_Reader
  imports Circuits
begin

text \<open>
  Reading a circuit back from its text: \<open>circuit_text\<close> writes a circuit in Bristol fashion, and
  \<open>CircuitReader\<close> returns the circuit that was written. The library functions satisfy \<open>atoi32_ok\<close> (a
  number printed in decimal is read back) and \<open>split_ok\<close> (words joined by single spaces are
  separated again).
\<close>

subsection \<open>The text of a circuit\<close>

fun join_words :: "string list \<Rightarrow> string" where
  "join_words [] = []"
| "join_words [w] = w"
| "join_words (w # ws) = w @ CHR '' '' # join_words ws"

definition show_u32 :: "u32 \<Rightarrow> string" where
  "show_u32 n = to_string (unat n)"

fun op_name :: "gate_op \<Rightarrow> string" where
  "op_name OpXOR = ''XOR''"
| "op_name OpAND = ''AND''"
| "op_name OpINV = ''INV''"
| "op_name OpEQ = ''EQ''"
| "op_name OpEQW = ''EQW''"
| "op_name OpMAND = ''MAND''"

definition gate_words :: "gate \<Rightarrow> string list" where
  "gate_words g = [show_u32 (g_niw g), show_u32 (g_now g)] @ map show_u32 (g_iw g) @ map show_u32 (g_ow g) @ [op_name (g_op g)]"

definition gate_line :: "gate \<Rightarrow> string" where
  "gate_line g = join_words (gate_words g)"

definition values_line :: "u32 \<Rightarrow> u32 list \<Rightarrow> string" where
  "values_line n v = join_words (map show_u32 (n # v))"

definition meta_lines :: "bf_circuit \<Rightarrow> string list" where
  "meta_lines c = [join_words [show_u32 (c_ng c), show_u32 (c_nw c)],
     values_line (c_niv c) (c_niw c), values_line (c_nov c) (c_now c)]"

definition circuit_text :: "bf_circuit \<Rightarrow> string" where
  "circuit_text c = join_lines newline (meta_lines c @ [[]] @ map gate_line (c_gates c))"

definition atoi32_ok :: "(string \<Rightarrow> u32 option) \<Rightarrow> bool" where
  "atoi32_ok atoi \<longleftrightarrow> (\<forall>n. atoi (to_string (unat n)) = Some n)"

definition split_ok :: "(string \<Rightarrow> string list) \<Rightarrow> bool" where
  "split_ok split \<longleftrightarrow> (\<forall>ws. ws \<noteq> [] \<and> (\<forall>w \<in> set ws. CHR '' '' \<notin> set w) \<longrightarrow> split (join_words ws) = ws)"

fun arity_ok :: "gate_op \<Rightarrow> nat \<Rightarrow> nat \<Rightarrow> bool" where
  "arity_ok OpXOR i out \<longleftrightarrow> i = 2 \<and> out = 1"
| "arity_ok OpAND i out \<longleftrightarrow> i = 2 \<and> out = 1"
| "arity_ok OpMAND i out \<longleftrightarrow> i = 2 * out"
| "arity_ok _ i out \<longleftrightarrow> i = 1 \<and> out = 1"

definition wf_gate :: "gate \<Rightarrow> bool" where
  "wf_gate g \<longleftrightarrow> unat (g_niw g) = length (g_iw g) \<and> unat (g_now g) = length (g_ow g) \<and>
     length (g_iw g) + length (g_ow g) + 2 < 2 ^ 32 \<and> arity_ok (g_op g) (length (g_iw g)) (length (g_ow g))"

definition wf_circuit :: "bf_circuit \<Rightarrow> bool" where
  "wf_circuit c \<longleftrightarrow> unat (c_ng c) = length (c_gates c) \<and>
     unat (c_niv c) = length (c_niw c) \<and> length (c_niw c) + 1 < 2 ^ 32 \<and>
     unat (c_nov c) = length (c_now c) \<and> length (c_now c) + 1 < 2 ^ 32 \<and>
     list_all wf_gate (c_gates c) \<and> length (circuit_text c) < 2 ^ 63"

subsection \<open>Words and lines\<close>

lemma show_u32_char: "c \<in> set (show_u32 n) \<Longrightarrow> c \<noteq> CHR '' '' \<and> c \<noteq> newline"
  using to_string_digits [of c "unat n"] by (auto simp: show_u32_def)

lemma op_name_char: "c \<in> set (op_name op) \<Longrightarrow> c \<noteq> CHR '' '' \<and> c \<noteq> newline"
  by (cases op) auto

lemma set_join_words: "set (join_words ws) \<subseteq> insert (CHR '' '') (\<Union> (set ` set ws))"
  by (induction ws rule: join_words.induct) auto

declare join_words.simps [simp del]

lemma gate_words_char: "w \<in> set (gate_words g) \<Longrightarrow> c \<in> set w \<Longrightarrow> c \<noteq> CHR '' '' \<and> c \<noteq> newline"
  by (auto simp: gate_words_def dest: show_u32_char op_name_char)

lemma newline_join:
  assumes "\<And>w c. w \<in> set ws \<Longrightarrow> c \<in> set w \<Longrightarrow> c \<noteq> newline"
  shows "newline \<notin> set (join_words ws)"
  using set_join_words [of ws] assms by auto

lemma newline_gate_line: "newline \<notin> set (gate_line g)"
  unfolding gate_line_def by (rule newline_join) (simp add: gate_words_char)

lemma newline_numbers: "newline \<notin> set (join_words (map show_u32 v))"
  by (rule newline_join) (auto dest: show_u32_char)

lemma newline_meta_lines: "l \<in> set (meta_lines c) \<Longrightarrow> newline \<notin> set l"
  using newline_numbers [of "[c_ng c, c_nw c]"] newline_numbers [of "c_niv c # c_niw c"]
    newline_numbers [of "c_nov c # c_now c"]
  by (auto simp: meta_lines_def values_line_def)

lemma split_gate_line:
  assumes "split_ok split"
  shows "split (gate_line g) = gate_words g"
proof -
  have "gate_words g \<noteq> []" "\<forall>w \<in> set (gate_words g). CHR '' '' \<notin> set w"
    using gate_words_char [of _ g] by (auto simp: gate_words_def)
  with assms show ?thesis by (simp add: split_ok_def gate_line_def)
qed

lemma split_numbers:
  assumes "split_ok split" "v \<noteq> []"
  shows "split (join_words (map show_u32 v)) = map show_u32 v"
proof -
  have "\<forall>w \<in> set (map show_u32 v). CHR '' '' \<notin> set w" by (auto dest: show_u32_char)
  with assms show ?thesis by (simp only: split_ok_def map_is_Nil_conv simp_thms)
qed

lemma simple_atoi_show [simp]: "atoi32_ok atoi \<Longrightarrow> simple_atoi atoi (show_u32 n) = Inr n"
  by (simp add: simple_atoi_def show_u32_def atoi32_ok_def)

subsection \<open>The parts of the reader\<close>

lemma read_numbers_ok:
  assumes "atoi32_ok atoi" "length v = n" "length xs = n" "off + n \<le> length splits"
    "\<And>i. i < n \<Longrightarrow> splits ! (off + i) = show_u32 (xs ! i)"
  shows "read_numbers atoi splits off n v = Inr xs"
proof -
  have step: "set_idx (take k xs @ drop k v) k (xs ! k) = Inr (take (Suc k) xs @ drop (Suc k) v)" if "k < n" for k
  proof -
    have "drop k v = v ! k # drop (Suc k) v" using that assms(2) by (simp add: Cons_nth_drop_Suc)
    with that assms(2,3) show ?thesis by (simp add: list_update_append take_Suc_conv_app_nth)
  qed
  have "returns (read_numbers atoi splits off n v) (\<lambda>v'. v' = take (length [0..<n]) xs @ drop (length [0..<n]) v)"
    unfolding read_numbers_def
    using assms by (intro returns_rfold [where I = "\<lambda>k v'. v' = take k xs @ drop k v"])
      (simp_all add: at_idx_in step del: set_idx_Inr)
  then show ?thesis using assms(2,3) by (simp add: returns_def)
qed

lemma read_values_line_ok:
  assumes "atoi32_ok atoi" "split_ok split" "unat n = length xs" "length xs + 1 < 2 ^ 32"
  shows "read_values_line atoi split (values_line n xs) v = Inr (n, xs)"
proof -
  let ?w = "map show_u32 (n # xs)"
  have n1: "unat (n + 1) = length xs + 1"
    using assms(3,4) unat_add_lem [of n 1] by simp
  have sp: "split (values_line n xs) = ?w"
    unfolding values_line_def using assms(2) by (rule split_numbers) simp
  have idx: "at_idx ?w 0 = Inr (show_u32 n)" by simp
  have nums: "read_numbers atoi ?w 1 (length xs) (vec_resize (length xs) 0 v) = Inr xs"
    by (rule read_numbers_ok [OF assms(1)]) simp_all
  show ?thesis
    unfolding read_values_line_def Let_def sp idx rbind_Inr simple_atoi_show [OF assms(1)] n1 assms(3) nums by simp
qed

lemma unat_u32_eq: "unat (w :: u32) = Suc 0 \<longleftrightarrow> w = 1" "unat (w :: u32) = 2 \<longleftrightarrow> w = 2"
  by (simp_all add: word_unat_eq_iff)

lemma unat_u32_double:
  fixes v w :: u32
  assumes "unat w = 2 * unat v" "unat w < 2 ^ 32"
  shows "w = v * 2"
proof -
  have "unat (v * 2) = (unat v * 2) mod 2 ^ 32" by (simp add: unat_word_ariths)
  with assms have "unat (v * 2) = unat w" by simp
  then show ?thesis by (simp add: word_unat_eq_iff)
qed

lemma gate_op_of_ok:
  "arity_ok op (unat niw) (unat now) \<Longrightarrow> gate_op_of (op_name op) niw now = Inr op"
  using unat_u32_double [of niw now] unsigned_less [of niw, where 'a = nat]
  by (cases op) (simp_all add: gate_op_of_def unat_u32_eq)

lemma read_gate_ok:
  assumes "atoi32_ok atoi" "split_ok split" "wf_gate g"
  shows "read_gate atoi split (gate_line g) g0 = Inr g"
proof -
  let ?i = "length (g_iw g)" and ?o = "length (g_ow g)"
  have n: "unat (g_niw g) = ?i" "unat (g_now g) = ?o" and len: "?i + ?o + 2 < 2 ^ 32"
    and ar: "arity_ok (g_op g) ?i ?o" using assms(3) unfolding wf_gate_def by blast+
  have sum: "unat (g_niw g + g_now g + 2) = ?i + ?o + 2"
    using n len unat_add_lem [of "g_niw g" "g_now g"] unat_add_lem [of "g_niw g + g_now g" 2] by simp
  have iw: "read_numbers atoi (gate_words g) 2 ?i (vec_resize ?i 0 (g_iw g0)) = Inr (g_iw g)"
    by (rule read_numbers_ok [OF assms(1)]) (simp_all add: gate_words_def nth_append)
  have ow: "read_numbers atoi (gate_words g) (2 + ?i) ?o (vec_resize ?o 0 (g_ow g0)) = Inr (g_ow g)"
    by (rule read_numbers_ok [OF assms(1)]) (simp_all add: gate_words_def nth_append)
  have op: "gate_words g ! (?i + ?o + 2) = op_name (g_op g)" and lw: "length (gate_words g) = ?i + ?o + 3"
    by (simp_all add: gate_words_def nth_append)
  have w: "gate_words g ! 0 = show_u32 (g_niw g)" "gate_words g ! Suc 0 = show_u32 (g_now g)"
    by (simp_all add: gate_words_def)
  have gop: "gate_op_of (op_name (g_op g)) (g_niw g) (g_now g) = Inr (g_op g)"
    using ar n by (intro gate_op_of_ok) simp
  have idx: "at_idx (gate_words g) 0 = Inr (show_u32 (g_niw g))" "at_idx (gate_words g) 1 = Inr (show_u32 (g_now g))"
    "at_idx (gate_words g) (?i + ?o + 2) = Inr (op_name (g_op g))"
    using op w lw by simp_all
  show ?thesis
    unfolding read_gate_def Let_def split_gate_line [OF assms(2)] idx rbind_Inr simple_atoi_show [OF assms(1)] sum n iw ow gop
    using lw by simp
qed

lemma get_line_step:
  assumes "file_at s text p" "drop p text = join_lines newline (l # ls) @ rest" "newline \<notin> set l"
  obtains s' where "file_get_line ret newline s = Inr (l, s')" "file_at s' text (p + length l + 1)"
    "drop (p + length l + 1) text = join_lines newline ls @ rest"
proof -
  have d: "drop p text = l @ newline # (join_lines newline ls @ rest)" using assms(2) by simp
  then have "drop (length l + 1) (drop p text) = join_lines newline ls @ rest" by simp
  then have n: "drop (p + length l + 1) text = join_lines newline ls @ rest" by (simp add: ac_simps)
  from file_stream.get_line_delim [OF assms(1) d assms(3), of ret] n that show thesis
    by (auto simp: returns_def)
qed

lemma read_meta_ok:
  assumes "atoi32_ok atoi" "split_ok split" "wf_circuit c" "file_holds s (circuit_text c)"
  shows "\<exists>s'. read_meta atoi split \<lparr>rd_circ = Some c0, rd_in = Some s, rd_metadata_length = n\<rparr> =
      Inr \<lparr>rd_circ = Some (c\<lparr>c_gates := c_gates c0\<rparr>), rd_in = Some s',
        rd_metadata_length = length (join_lines newline (meta_lines c))\<rparr> \<and> file_holds s' (circuit_text c)"
proof -
  let ?t = "circuit_text c"
  define l1 l2 l3 where "l1 = join_words (map show_u32 [c_ng c, c_nw c])"
    and "l2 = values_line (c_niv c) (c_niw c)" and "l3 = values_line (c_nov c) (c_now c)"
  have lines: "meta_lines c = [l1, l2, l3]" by (simp add: meta_lines_def l1_def l2_def l3_def)
  then have nl: "newline \<notin> set l1" "newline \<notin> set l2" "newline \<notin> set l3"
    using newline_meta_lines [of _ c] by auto
  obtain s0 where s0: "file_seekg 0 s = Inr s0" "file_at s0 ?t 0"
    using file_stream.seekg_at [OF assms(4), of 0] by (auto simp: returns_def)
  have "drop 0 ?t = join_lines newline (l1 # l2 # l3 # [] # map gate_line (c_gates c)) @ []"
    by (simp add: circuit_text_def lines)
  from get_line_step [OF s0(2) this nl(1), of "[]"] obtain s1 where s1: "file_get_line [] newline s0 = Inr (l1, s1)"
    "file_at s1 ?t (0 + length l1 + 1)"
    "drop (0 + length l1 + 1) ?t = join_lines newline (l2 # l3 # [] # map gate_line (c_gates c)) @ []" by blast
  from get_line_step [OF s1(2,3) nl(2), of l1] obtain s2 where s2: "file_get_line l1 newline s1 = Inr (l2, s2)"
    "file_at s2 ?t (0 + length l1 + 1 + length l2 + 1)"
    "drop (0 + length l1 + 1 + length l2 + 1) ?t = join_lines newline (l3 # [] # map gate_line (c_gates c)) @ []" by blast
  from get_line_step [OF s2(2,3) nl(3), of l2] obtain s3 where s3: "file_get_line l2 newline s2 = Inr (l3, s3)"
    "file_at s3 ?t (0 + length l1 + 1 + length l2 + 1 + length l3 + 1)" by blast
  have tell: "file_tellg s3 = length (join_lines newline (meta_lines c))"
    using file_stream.tellg_at [OF s3(2)] by (simp add: lines)
  have sp: "split l1 = [show_u32 (c_ng c), show_u32 (c_nw c)]"
    using split_numbers [OF assms(2), of "[c_ng c, c_nw c]"] by (simp add: l1_def)
  have v: "read_values_line atoi split l2 (c_niw c0) = Inr (c_niv c, c_niw c)"
      "read_values_line atoi split l3 (c_now c0) = Inr (c_nov c, c_now c)"
    unfolding l2_def l3_def using assms(3) by (intro read_values_line_ok [OF assms(1,2)]; simp add: wf_circuit_def)+
  show ?thesis
    using file_stream.at_holds [OF s3(2)] assms(1)
    by (simp add: read_meta_def s0 s1(1) s2(1) s3(1) sp v tell Let_def)
qed

lemma read_gates_loop_ok:
  assumes "atoi32_ok atoi" "split_ok split" "list_all wf_gate gs" "file_at s text p"
    "drop p text = join_lines newline (map gate_line gs)" "length gates = length gs"
  shows "returns (read_gates_loop atoi split (length gs) (ret, s, gates)) (\<lambda>(_, s', gates'). gates' = gs \<and> file_holds s' text)"
  using assms(3-)
proof -
  let ?pos = "\<lambda>k. p + length (join_lines newline (map gate_line (take k gs)))"
  let ?I = "\<lambda>k (ret, s, gates'). file_at s text (?pos k) \<and> gates' = take k gs @ drop k gates \<and>
    drop (?pos k) text = join_lines newline (map gate_line (drop k gs))"
  let ?f = "\<lambda>i (ret, s, gates). rbind (file_get_line ret newline s) (\<lambda>(ret, s). rbind (at_idx gates i) (\<lambda>g.
    rbind (read_gate atoi split ret g) (\<lambda>g. rbind (set_idx gates i g) (\<lambda>gates. Inr (ret, s, gates)))))"
  have "returns (rfold ?f [0..<length gs] (ret, s, gates)) (?I (length [0..<length gs]))"
  proof (rule returns_rfold [where I = ?I and f = ?f])
    show "?I 0 (ret, s, gates)" using assms(4,5) by simp
  next
    fix k and st :: "string \<times> file_input_stream \<times> gate list"
    assume k: "k < length [0..<length gs]" and I: "?I k st"
    obtain ret' s1 gates1 where st: "st = (ret', s1, gates1)" by (cases st)
    have g: "drop k gs = gs ! k # drop (Suc k) gs" and t: "take (Suc k) gs = take k gs @ [gs ! k]"
      using k by (simp_all add: Cons_nth_drop_Suc take_Suc_conv_app_nth)
    have at: "file_at s1 text (?pos k)"
      and d: "drop (?pos k) text = join_lines newline (gate_line (gs ! k) # map gate_line (drop (Suc k) gs)) @ []"
      using I st g by simp_all
    obtain s2 where s2: "file_get_line ret' newline s1 = Inr (gate_line (gs ! k), s2)"
      "file_at s2 text (?pos k + length (gate_line (gs ! k)) + 1)"
      "drop (?pos k + length (gate_line (gs ! k)) + 1) text = join_lines newline (map gate_line (drop (Suc k) gs)) @ []"
      by (rule get_line_step [OF at d newline_gate_line])
    have pos: "?pos (Suc k) = ?pos k + length (gate_line (gs ! k)) + 1" using t by simp
    have "gates1 = take k gs @ gates ! k # drop (Suc k) gates"
      using I st k assms(6) by (simp add: Cons_nth_drop_Suc)
    then have upd: "gates1[k := gs ! k] = take (Suc k) gs @ drop (Suc k) gates" and len: "k < length gates1"
      using k t by (simp_all add: list_update_append)
    have "wf_gate (gs ! k)" using assms(3) k by (simp add: list_all_length)
    with s2 upd len k show "returns (?f ([0..<length gs] ! k) st) (?I (Suc k))"
      by (simp add: st result_simps read_gate_ok [OF assms(1,2)] pos)
  qed
  then show ?thesis
    unfolding read_gates_loop_def using assms(6)
    by (auto simp: returns_def intro: file_stream.at_holds)
qed

lemma file_ctor_holds:
  "fs path = Some text \<Longrightarrow> length text < 2 ^ 63 \<Longrightarrow> returns (file_ctor fs path) (\<lambda>s. file_holds s text)"
  by (simp add: file_ctor_def file_seekg_def file_holds_def std_clear_def Let_def)

lemma read_circuit_ok:
  assumes "atoi32_ok atoi" "split_ok split" "wf_circuit c" "fs path = Some (circuit_text c)"
  shows "returns (rbind (reader_ctor fs path) (\<lambda>r. rbind (read_all_gates atoi split r) steal_circ)) (\<lambda>(c', r'). c' = c \<and> rd_circ r' = None)"
proof -
  let ?t = "circuit_text c" and ?m = "join_lines newline (meta_lines c)"
  have t: "?t = ?m @ newline # join_lines newline (map gate_line (c_gates c))" by (simp add: circuit_text_def)
  obtain s where s: "file_ctor fs path = Inr s" "file_holds s ?t"
    using file_ctor_holds [of fs path ?t] assms(3,4) by (auto simp: wf_circuit_def returns_def)
  obtain s1 where s1: "read_meta atoi split \<lparr>rd_circ = Some circuit_default, rd_in = Some s, rd_metadata_length = 0\<rparr> =
      Inr \<lparr>rd_circ = Some (c\<lparr>c_gates := []\<rparr>), rd_in = Some s1, rd_metadata_length = length ?m\<rparr>" "file_holds s1 ?t"
    using read_meta_ok [OF assms(1-3) s(2), of circuit_default 0] by (auto simp: circuit_default_def)
  obtain s2 where s2: "file_seekg (length ?m) s1 = Inr s2" "file_at s2 ?t (length ?m)"
    using file_stream.seekg_at [OF s1(2), of "length ?m"] t by (auto simp: returns_def)
  have "drop (length ?m) ?t = join_lines newline ([] # map gate_line (c_gates c)) @ []" by (simp add: t)
  from get_line_step [OF s2(2) this, of "[]"] obtain s3 where s3: "file_get_line [] newline s2 = Inr ([], s3)"
    "file_at s3 ?t (length ?m + length ([] :: string) + 1)"
    "drop (length ?m + length ([] :: string) + 1) ?t = join_lines newline (map gate_line (c_gates c)) @ []" by auto
  have gs: "list_all wf_gate (c_gates c)" and ng: "unat (c_ng c) = length (c_gates c)"
    using assms(3) by (simp_all add: wf_circuit_def)
  have "returns (read_gates_loop atoi split (length (c_gates c)) ([], s3, vec_resize (length (c_gates c)) gate_default []))
      (\<lambda>(_, s', gates'). gates' = c_gates c \<and> file_holds s' ?t)"
    using s3(3) by (intro read_gates_loop_ok [OF assms(1,2) gs s3(2)]) simp_all
  then show ?thesis
    using s s1 s2 s3 ng by (auto simp: reader_ctor_def reader_reset_def reader_init_def read_all_gates_def
      steal_circ_def returns_def)
qed

end
