(* ===== verification/Circuits_Properties.thy ===== *)
theory Circuits_Properties
  imports Circuits_Reader
begin

text \<open>
  The executor against the meaning of a circuit. \<open>eval_gate\<close> is the effect of a gate on a list of
  wire values, \<open>circuit_outputs\<close> the output values of a circuit on given inputs: the inputs on the
  first wires, the gates in order, the outputs on the last wires.
\<close>

subsection \<open>The meaning of a circuit\<close>

definition eval_gate :: "gate \<Rightarrow> bool list \<Rightarrow> bool list" where
  "eval_gate g ws =
     (let x = ws ! unat (g_iw g ! 0); y = ws ! unat (g_iw g ! 1) in
      ws[unat (g_ow g ! 0) :=
        (case g_op g of
           OpXOR \<Rightarrow> x \<noteq> y
         | OpAND \<Rightarrow> x \<and> y
         | OpINV \<Rightarrow> \<not> x
         | OpEQ \<Rightarrow> g_iw g ! 0 \<noteq> 0
         | OpEQW \<Rightarrow> x
         | OpMAND \<Rightarrow> undefined)])"

definition eval_gates :: "gate list \<Rightarrow> bool list \<Rightarrow> bool list" where
  "eval_gates gs ws = fold eval_gate gs ws"

text \<open>Value \<open>k\<close> of the inputs on the next \<open>ns ! k\<close> wires.\<close>

fun value_bits :: "nat list \<Rightarrow> 'a :: len word list \<Rightarrow> bool list" where
  "value_bits (n # ns) (x # xs) = map (bit x) [0..<n] @ value_bits ns xs"
| "value_bits _ _ = []"

definition input_wires :: "nat \<Rightarrow> nat list \<Rightarrow> 'a :: len word list \<Rightarrow> bool list" where
  "input_wires nw ns inputs = (let b = value_bits ns inputs in b @ replicate (nw - length b) False)"

definition bits_word :: "bool list \<Rightarrow> 'a :: len word" where
  "bits_word l = horner_sum of_bool 2 l"

text \<open>The values of consecutive groups of wires.\<close>

fun wire_values :: "nat list \<Rightarrow> bool list \<Rightarrow> 'a :: len word list" where
  "wire_values [] ws = []"
| "wire_values (n # ns) ws = bits_word (take n ws) # wire_values ns (drop n ws)"

definition circuit_outputs :: "bf_circuit \<Rightarrow> 'a :: len word list \<Rightarrow> 'a word list" where
  "circuit_outputs c inputs =
     (let ns = map unat (c_now c); ws = eval_gates (c_gates c) (input_wires (unat (c_nw c)) (map unat (c_niw c)) inputs) in
      wire_values ns (drop (unat (c_nw c) - sum_list ns) ws))"

text \<open>A gate the executor implements, with its wires among the first \<open>nw\<close>.\<close>

definition runnable_gate :: "nat \<Rightarrow> gate \<Rightarrow> bool" where
  "runnable_gate nw g \<longleftrightarrow> wf_gate g \<and> g_op g \<noteq> OpMAND \<and>
     (g_op g \<noteq> OpEQ \<longrightarrow> list_all (\<lambda>i. unat i < nw) (g_iw g)) \<and> list_all (\<lambda>i. unat i < nw) (g_ow g)"

text \<open>\<open>w\<close> is the width of an input or output value. The inputs have exactly \<open>w\<close> wires, the outputs at most \<open>w\<close>, and the
  sizes of the outputs read the same in both directions.\<close>

definition runnable :: "nat \<Rightarrow> bf_circuit \<Rightarrow> bool" where
  "runnable w c \<longleftrightarrow> list_all (runnable_gate (unat (c_nw c))) (c_gates c) \<and>
     list_all (\<lambda>n. unat n = w) (c_niw c) \<and> w * unat (c_niv c) \<le> unat (c_nw c) \<and>
     list_all (\<lambda>n. 0 < unat n \<and> unat n \<le> w) (c_now c) \<and> rev (c_now c) = c_now c \<and>
     sum_list (map unat (c_now c)) \<le> unat (c_nw c)"

subsection \<open>Gates\<close>

lemma wire_at_eq: "repr w l \<Longrightarrow> i < length l \<Longrightarrow> wire_at w i = Inr (l ! i)"
  using reference_eq [of w l i] by (auto simp: wire_at_def returns_def)

lemma length_eval_gate [simp]: "length (eval_gate g ws) = length ws"
  by (simp add: eval_gate_def Let_def)

lemma length_eval_gates [simp]: "length (eval_gates gs ws) = length ws"
  by (induction gs arbitrary: ws) (simp_all add: eval_gates_def)

lemma exec_gate_returns:
  assumes "repr w l" "runnable_gate (length l) g"
  shows "returns (exec_gate g w) (\<lambda>w'. repr w' (eval_gate g l))"
proof -
  have g: "wf_gate g" "g_op g \<noteq> OpMAND" and out: "list_all (\<lambda>i. unat i < length l) (g_ow g)"
    using assms(2) by (simp_all add: runnable_gate_def)
  then have len: "length (g_ow g) = 1" "0 < length (g_iw g)"
    by (cases "g_op g"; simp add: wf_gate_def)+
  have two: "1 < length (g_iw g)" if "g_op g = OpXOR \<or> g_op g = OpAND"
    using g(1) that by (auto simp: wf_gate_def)
  have iw: "unat (g_iw g ! k) < length l" if "k < length (g_iw g)" "g_op g \<noteq> OpEQ" for k
    using assms(2) that by (auto simp: runnable_gate_def list_all_length)
  have ow: "unat (g_ow g ! 0) < length l" using out len(1) by (simp add: list_all_length)
  have set_out: "returns (rbind (at_idx (g_ow g) 0) (\<lambda>o0. set_bit_at w (unat o0) v))
      (\<lambda>w'. repr w' (l[unat (g_ow g ! 0) := v]))" for v
    using set_bit_at_returns [OF assms(1) ow] len(1) by (simp add: at_idx_in)
  have rd: "rbind (at_idx (g_iw g) k) (\<lambda>i. wire_at w (unat i)) = Inr (l ! unat (g_iw g ! k))"
    if "k < length (g_iw g)" "g_op g \<noteq> OpEQ" for k
    using wire_at_eq [OF assms(1) iw [OF that]] that(1) by (simp add: at_idx_in)
  show ?thesis
    using g(2) rd [OF len(2)] rd [OF two] set_out len(2)
    by (cases "g_op g") (simp_all add: exec_gate_def eval_gate_def Let_def at_idx_in del: rbind_eq_Inr at_idx_Inr)
qed

lemma exec_gates_returns:
  "repr w l \<Longrightarrow> list_all (runnable_gate (length l)) gs \<Longrightarrow>
    returns (rfold exec_gate gs w) (\<lambda>w'. repr w' (eval_gates gs l))"
proof (induction gs arbitrary: w l)
  case (Cons g gs)
  then have "returns (exec_gate g w) (\<lambda>w'. repr w' (eval_gate g l))" by (intro exec_gate_returns) simp_all
  with Cons show ?case by (auto simp: eval_gates_def intro!: returns_bind)
qed (simp add: eval_gates_def)

subsection \<open>Inputs\<close>

lemma length_concat_bits: "length (concat (map word_bits (xs :: 'a :: len word list))) = LENGTH('a) * length xs"
  by (induction xs) simp_all

lemma length_word_bytes [simp]: "length (word_bytes (x :: 'a :: len word)) = LENGTH('a) div 8"
  by (simp add: word_bytes_def)

lemma nth_word_bytes: "k < LENGTH('a) div 8 \<Longrightarrow> word_bytes (x :: 'a :: len word) ! k = ucast (drop_bit (8 * k) x)"
  by (simp add: word_bytes_def)

lemma bits_word_bytes:
  fixes x :: "'a :: len word"
  assumes "8 dvd LENGTH('a)"
  shows "concat (map word_bits (word_bytes x)) = word_bits x"
proof (rule nth_equalityI)
  have len: "LENGTH('a) div 8 * 8 = LENGTH('a)" using assms by simp
  then show l: "length (concat (map word_bits (word_bytes x))) = length (word_bits x)"
    by (simp add: length_concat_bits mult.commute)
  fix i assume "i < length (concat (map word_bits (word_bytes x)))"
  with l have i: "i < LENGTH('a)" by simp
  then have "i div 8 < LENGTH('a) div 8" using len by (simp add: div_less_iff_less_mult)
  with i l len show "concat (map word_bits (word_bytes x)) ! i = word_bits x ! i"
    by (simp add: concat_word_bits nth_bit_def nth_word_bytes bit_unsigned_iff bit_drop_bit_eq)
qed

lemma bits_words_bytes:
  "8 dvd LENGTH('a) \<Longrightarrow> concat (map word_bits (concat (map word_bytes xs))) = concat (map word_bits (xs :: 'a :: len word list))"
  by (induction xs) (simp_all add: bits_word_bytes)

lemma resize_returns:
  assumes "repr bs l"
  shows "returns (resize bs n False) (\<lambda>bs'. repr bs' (take n l @ replicate (n - length l) False))"
  using resize_shrink [OF assms, of n False] resize_grow [OF assms, of n False] by (cases "n \<le> length l") simp_all

lemma copy_to_data_full:
  assumes "repr bs l" "length l = 8 * length data"
  shows "returns (copy_to_data bs data) (\<lambda>bs'. repr bs' (concat (map word_bits data)))"
proof -
  have len: "length (m_blocks bs) = length data"
    using repr_blocks [OF assms(1)] assms(2) by (simp add: blocks_required_def)
  have "repr (bs\<lparr>m_blocks := data\<rparr>) (concat (map word_bits data))"
    using repr_size [OF assms(1)] assms(2)
    by (intro reprI) (simp_all add: concat_word_bits blocks_required_def mult.commute)
  then show ?thesis using len by (simp add: copy_to_data_def mem_copy_def)
qed

lemma setup_inputs_returns:
  fixes inputs :: "'a :: len word list"
  assumes "8 dvd LENGTH('a)" "ex_circ e = Some c" "length inputs = unat (c_niv c)" "repr (ex_wires e) l"
  shows "returns (setup_inputs inputs e) (\<lambda>e'. ex_circ e' = Some c \<and>
    repr (ex_wires e') (let b = l @ concat (map word_bits inputs) in take (unat (c_nw c)) b @ replicate (unat (c_nw c) - length b) False))"
proof -
  let ?data = "concat (map word_bytes inputs)"
  have dl: "length ?data = LENGTH('a) div 8 * length inputs"
    by (induction inputs) simp_all
  obtain b0 :: "8 bitset" where b0: "resize bitset_default (LENGTH('a) div 8 * 8 * length inputs) False = Inr b0"
    "repr b0 (replicate (LENGTH('a) div 8 * 8 * length inputs) False)"
    using resize_returns [OF bitset_default_repr, of "LENGTH('a) div 8 * 8 * length inputs"] by (auto simp: returns_def)
  obtain b1 where b1: "copy_to_data b0 ?data = Inr b1" "repr b1 (concat (map word_bits inputs))"
    using copy_to_data_full [OF b0(2), of ?data] dl by (auto simp: returns_def bits_words_bytes [OF assms(1)])
  obtain b2 where b2: "append_bitset (ex_wires e) b1 = Inr b2" "repr b2 (l @ concat (map word_bits inputs))"
    using append_bitset_returns [OF assms(4) b1(2)] by (auto simp: returns_def)
  show ?thesis
    using resize_returns [OF b2(2), of "unat (c_nw c)"] assms(2,3) b0(1) b1(1) b2(1)
    by (auto simp: setup_inputs_def circ_of_def returns_def)
qed

subsection \<open>Outputs\<close>

lemma bit_bits_word: "bit (bits_word l :: 'a :: len word) i \<longleftrightarrow> i < LENGTH('a) \<and> i < length l \<and> l ! i"
  by (auto simp: bits_word_def bit_horner_sum_bit_word_iff)

lemma first_block_bits:
  assumes "repr (bs :: 'a :: len bitset) l" "l \<noteq> []" "length l \<le> LENGTH('a)"
  shows "at_idx (m_blocks bs) 0 = Inr (bits_word l)"
proof -
  have in0: "0 < length (m_blocks bs)" using repr_block_in [OF assms(1), of 0] assms(2) by simp
  have "m_blocks bs ! 0 = bits_word l"
  proof (rule bit_word_eqI)
    fix i assume "i < LENGTH('a)"
    then show "bit (m_blocks bs ! 0) i = bit (bits_word l :: 'a word) i"
      using repr_bit [OF assms(1), of i] in0 by (auto simp: nth_bit_def bit_bits_word)
  qed
  with in0 show ?thesis by simp
qed

lemma op_index_assign_returns:
  assumes "repr bs l" "j < length l"
  shows "returns (rbind (op_index bs j) (\<lambda>r. ref_op_assign bs r v)) (\<lambda>bs'. repr bs' (l[j := v]))"
  using reference_eq [OF assms, of v] set_bit_at_returns [OF assms, of v]
  by (auto simp: returns_def ref_op_assign_def)

lemma unat_of_u32 [simp]: "unat (ucast (n :: u32) :: u64) = unat n"
  by (simp add: unsigned_ucast_eq take_bit_nat_eq_self_iff) (rule order.strict_trans [OF unsigned_less], simp)

lemma gather_index:
  fixes index :: u64 and n :: u32
  assumes "unat n \<le> unat index" "j < unat n"
  shows "unat (index - ucast n + of_nat j) = unat index - unat n + j"
proof -
  have sub: "unat (index - ucast n) = unat index - unat n"
    using assms(1) by (simp add: unat_sub word_le_nat_alt)
  have "unat index < 2 ^ 64" using unsigned_less [of index, where 'a = nat] by simp
  then have j: "unat (of_nat j :: u64) = j" using assms by (intro unat_of_nat_small) simp
  have "unat (index - ucast n) + unat (of_nat j :: u64) < 2 ^ LENGTH(64)"
    using sub j assms \<open>unat index < 2 ^ 64\<close> by simp
  then show ?thesis using sub j unat_add_lem [of "index - ucast n" "of_nat j :: u64"] by simp
qed

lemma gather_wires_eq:
  assumes "repr w l" "unat n \<le> unat index" "unat index \<le> length l" "0 < unat n" "unat n \<le> LENGTH('a)"
    "LENGTH('a :: len) dvd 128"
  shows "gather_wires w index n = Inr (bits_word (take (unat n) (drop (unat index - unat n) l)) :: 'a word)"
proof -
  let ?src = "take (unat n) (drop (unat index - unat n) l)" and ?n = "unat n"
  have len: "length ?src = ?n" using assms(2,3) by simp
  have zeros: "map (bit (0 :: u128)) [0..<?n] = replicate ?n False" by (simp add: list_eq_iff_nth_eq)
  obtain b0 :: "'a bitset" where b0: "bitset_init ?n 0 = Inr b0" "repr b0 (replicate ?n False)"
    using bitset_init_returns [OF assms(6), of ?n 0] unfolding zeros returns_def by blast
  let ?f = "\<lambda>j result. rbind (wire_at w (unat (index - ucast n + of_nat j))) (\<lambda>v.
    rbind (op_index result j) (\<lambda>r. ref_op_assign result r v))"
  have "returns (rfold ?f [0..<?n] b0) (\<lambda>b :: 'a bitset. repr b (take (length [0..<?n]) ?src @ replicate (?n - length [0..<?n]) False))"
  proof (rule returns_rfold [where I = "\<lambda>k b. repr b (take k ?src @ replicate (?n - k) False)"])
    fix k and b :: "'a bitset"
    assume k: "k < length [0..<?n]" and b: "repr b (take k ?src @ replicate (?n - k) False)"
    have rd: "wire_at w (unat (index - ucast n + of_nat k)) = Inr (?src ! k)"
      using k assms(2,3) by (subst gather_index) (simp_all add: wire_at_eq [OF assms(1)])
    have "replicate (?n - k) False = False # replicate (?n - Suc k) False"
      using k by (simp flip: replicate_Suc add: Suc_diff_Suc)
    then have upd: "(take k ?src @ replicate (?n - k) False)[k := ?src ! k] = take (Suc k) ?src @ replicate (?n - Suc k) False"
      using k len by (simp add: list_update_append take_Suc_conv_app_nth min_absorb2 del: take_take nth_take)
    have "k < length (take k ?src @ replicate (?n - k) False)" using k len by simp
    from op_index_assign_returns [OF b this, of "?src ! k"] upd rd k
    show "returns (?f ([0..<?n] ! k) b) (\<lambda>b. repr b (take (Suc k) ?src @ replicate (?n - Suc k) False))"
      by (simp del: take_take nth_take)
  qed (use b0 in simp)
  then obtain b where b: "rfold ?f [0..<?n] b0 = Inr b" "repr b ?src"
    using len by (auto simp: returns_def)
  have "at_idx (m_blocks b) 0 = Inr (bits_word ?src)"
    using assms(4,5) len by (intro first_block_bits [OF b(2)]) (auto simp del: length_take simp flip: length_greater_0_conv)
  with b0(1) b(1) show ?thesis by (simp add: gather_wires_def)
qed

lemma length_wire_values [simp]: "length (wire_values ns ws) = length ns"
  by (induction ns arbitrary: ws) simp_all

lemma nth_wire_values:
  "k < length ns \<Longrightarrow> wire_values ns ws ! k = bits_word (take (ns ! k) (drop (sum_list (take k ns)) ws))"
proof (induction ns arbitrary: k ws)
  case (Cons n ns)
  then show ?case by (cases k) (simp_all add: add.commute)
qed simp

text \<open>The last group taken, counted from the end, when the sizes read the same in both directions.\<close>

lemma palindrome_offset:
  assumes "rev ns = (ns :: nat list)" "i < length ns" "sum_list ns \<le> m"
  shows "ns ! (length ns - i - 1) = ns ! i"
    and "m - sum_list (take (Suc i) ns) = m - sum_list ns + sum_list (take (length ns - i - 1) ns)"
proof -
  let ?k = "length ns - i - 1"
  show "ns ! ?k = ns ! i" using assms(1,2) rev_nth [of i ns] by simp
  have "take (Suc i) ns = take (Suc i) (rev ns)" using assms(1) by simp
  also have "\<dots> = rev (drop ?k ns)" using assms(2) by (simp add: take_rev)
  finally have "sum_list (take (Suc i) ns) = sum_list (drop ?k ns)" by (simp add: sum_list_rev)
  moreover have "sum_list ns = sum_list (take ?k ns) + sum_list (drop ?k ns)"
    by (metis append_take_drop_id sum_list_append)
  ultimately show "m - sum_list (take (Suc i) ns) = m - sum_list ns + sum_list (take ?k ns)"
    using assms(3) by simp
qed

text \<open>An array filled from its last element down.\<close>

lemma fill_from_end:
  assumes "i < m" "length vals = m" "m \<le> length outs"
  shows "set_idx (take (m - i) outs @ drop (m - i) vals @ rest) (m - Suc i) (vals ! (m - Suc i)) =
    Inr (take (m - Suc i) outs @ drop (m - Suc i) vals @ rest)"
proof -
  obtain j where j: "m - i = Suc j" "m - Suc i = j" "j < m"
  proof
    show "m - i = Suc (m - Suc i)" "m - Suc i = m - Suc i" "m - Suc i < m" using assms(1) by simp_all
  qed
  have "take (Suc j) outs = take j outs @ [outs ! j]" "drop j vals = vals ! j # drop (Suc j) vals"
    using j(3) assms(2,3) by (simp_all add: take_Suc_conv_app_nth Cons_nth_drop_Suc)
  with j assms show ?thesis by (simp add: list_update_append)
qed

lemma finalize_returns:
  fixes outs :: "'a :: len word list"
  assumes "LENGTH('a) dvd 128" "8 dvd LENGTH('a)" "ex_circ e = Some c" "repr (ex_wires e) l" "length l < 2 ^ 64"
    "unat (c_nov c) = length (c_now c)" "length (c_now c) \<le> length outs"
    "list_all (\<lambda>n. 0 < unat n \<and> unat n \<le> LENGTH('a)) (c_now c)" "rev (c_now c) = c_now c"
    "sum_list (map unat (c_now c)) \<le> length l"
  shows "finalize outs e = Inr (wire_values (map unat (c_now c)) (drop (length l - sum_list (map unat (c_now c))) l) @
    drop (length (c_now c)) outs)"
proof -
  let ?ns = "map unat (c_now c)" and ?m = "length (c_now c)"
  define vals :: "'a word list" where "vals = wire_values ?ns (drop (length l - sum_list ?ns) l)"
  have lv: "length vals = ?m" by (simp add: vals_def)
  let ?out = "\<lambda>i. take (?m - i) outs @ drop (?m - i) vals @ drop ?m outs"
  let ?I = "\<lambda>i (outputs, index :: u64). outputs = ?out i \<and> unat index = length l - sum_list (take i ?ns)"
  let ?f = "\<lambda>i (outputs, index). rbind (at_idx (c_now c) i) (\<lambda>n. rbind (gather_wires (ex_wires e) index n) (\<lambda>v.
    rbind (set_idx outputs (?m - i - 1) v) (\<lambda>outputs. Inr (outputs, index - ucast n))))"
  have rev_ns: "rev ?ns = ?ns" using assms(9) by (metis rev_map)
  have "returns (rfold ?f [0..<?m] (outs, of_nat (size_bits (ex_wires e)))) (?I (length [0..<?m]))"
  proof (rule returns_rfold [where I = ?I and f = ?f])
    show "?I 0 (outs, of_nat (size_bits (ex_wires e)))"
      using assms(5,7) lv repr_size [OF assms(4)] by (simp add: size_bits_def unat_of_nat_small)
  next
    fix i and st :: "'a word list \<times> u64" assume i': "i < length [0..<?m]" and I: "?I i st"
    obtain outputs index where st: "st = (outputs, index)" by (cases st)
    from i' have i: "i < ?m" by simp
    let ?n = "c_now c ! i"
    have n: "0 < unat ?n" "unat ?n \<le> LENGTH('a)" using assms(8) i by (simp_all add: list_all_length)
    have tk: "sum_list (take (Suc i) ?ns) = sum_list (take i ?ns) + unat ?n" using i by (simp add: take_Suc_conv_app_nth)
    have "sum_list ?ns = sum_list (take (Suc i) ?ns) + sum_list (drop (Suc i) ?ns)"
      by (metis append_take_drop_id sum_list_append)
    then have le: "sum_list (take i ?ns) + unat ?n \<le> length l" using assms(10) tk by simp
    have idx: "unat index = length l - sum_list (take i ?ns)" "unat ?n \<le> unat index" using I st le by auto
    have off: "unat index - unat ?n = length l - sum_list ?ns + sum_list (take (?m - i - 1) ?ns)"
      using palindrome_offset(2) [OF rev_ns, of i "length l"] i assms(10) tk idx(1) by simp
    have "vals ! (?m - i - 1) = bits_word (take (unat ?n) (drop (unat index - unat ?n) l))"
      using palindrome_offset(1) [OF rev_ns, of i "length l"] i assms(10) off by (simp add: vals_def nth_wire_values add.commute)
    then have g: "gather_wires (ex_wires e) index ?n = Inr (vals ! (?m - i - 1))"
      using gather_wires_eq [OF assms(4) idx(2) _ n assms(1)] idx(1) by simp
    note upd = fill_from_end [OF i lv assms(7), of "drop ?m outs"]
    have "unat (index - ucast ?n) = unat index - unat ?n"
      using idx(2) by (simp add: unat_sub word_le_nat_alt)
    with upd g I i tk idx(1) show "returns (?f ([0..<?m] ! i) st) (?I (Suc i))"
      by (simp add: st at_idx_in del: set_idx_Inr)
  qed
  then show ?thesis
    using assms(2,3,6-8) lv unfolding vals_def [symmetric]
    by (auto simp: finalize_def circ_of_def returns_def list_all_iff)
qed

subsection \<open>The whole run\<close>

lemma load_circuit_file_ok:
  assumes "atoi32_ok atoi" "split_ok split" "wf_circuit c" "fs path = Some (circuit_text c)"
  shows "load_circuit_file atoi split fs path e = Inr (e\<lparr>ex_circ := Some c\<rparr>)"
  using read_circuit_ok [of atoi split c fs path] assms
  by (auto simp: load_circuit_file_def returns_def)

lemma exec_returns:
  assumes "ex_circ e = Some c" "repr (ex_wires e) l" "list_all (runnable_gate (length l)) (c_gates c)"
  shows "returns (exec e) (\<lambda>e'. ex_circ e' = Some c \<and> repr (ex_wires e') (eval_gates (c_gates c) l))"
  using exec_gates_returns [OF assms(2,3)] assms(1) by (auto simp: exec_def circ_of_def returns_def)

lemma value_bits_full:
  "list_all (\<lambda>n. n = LENGTH('a)) ns \<Longrightarrow> length ns = length xs \<Longrightarrow>
    value_bits ns (xs :: 'a :: len word list) = concat (map word_bits xs)"
  by (induction ns xs rule: value_bits.induct) (simp_all add: word_bits_def)

lemma run_circuit_ok:
  fixes inputs outs :: "'a :: len word list"
  assumes "LENGTH('a) dvd 128" "8 dvd LENGTH('a)" "wf_circuit c" "runnable LENGTH('a) c"
    "ex_circ e = Some c" "repr (ex_wires e) []" "length inputs = unat (c_niv c)" "length outs = unat (c_nov c)"
  shows "rbind (setup_inputs inputs e) (\<lambda>e. rbind (exec e) (finalize outs)) = Inr (circuit_outputs c inputs)"
proof -
  let ?nw = "unat (c_nw c)" and ?b = "concat (map word_bits inputs)"
  let ?l = "input_wires ?nw (map unat (c_niw c)) inputs"
  have vb: "value_bits (map unat (c_niw c)) inputs = ?b"
    using assms(3,4,7) by (intro value_bits_full) (simp_all add: runnable_def wf_circuit_def list_all_iff)
  have lb: "length ?b \<le> ?nw" using assms(4,7) by (simp add: length_concat_bits runnable_def)
  have ll: "length ?l = ?nw" using lb by (simp add: input_wires_def Let_def vb)
  have "take ?nw ?b = ?b" using lb by simp
  then obtain e1 where e1: "setup_inputs inputs e = Inr e1" "ex_circ e1 = Some c" "repr (ex_wires e1) ?l"
    using setup_inputs_returns [OF assms(2,5,7,6)] by (auto simp: returns_def input_wires_def Let_def vb)
  obtain e2 where e2: "exec e1 = Inr e2" "ex_circ e2 = Some c" "repr (ex_wires e2) (eval_gates (c_gates c) ?l)"
    using exec_returns [OF e1(2,3)] assms(4) ll by (auto simp: runnable_def returns_def)
  have "unat (c_nw c) < 2 ^ 32" using unsigned_less [of "c_nw c", where 'a = nat] by simp
  then have small: "?nw < 2 ^ 64" by simp
  have "finalize outs e2 = Inr (circuit_outputs c inputs)"
    using finalize_returns [OF assms(1,2) e2(2,3), of outs] assms(3,4,8) ll small
    by (simp add: circuit_outputs_def wf_circuit_def runnable_def Let_def)
  then show ?thesis by (simp add: e1(1) e2(1))
qed

subsection \<open>The bytes of a run\<close>

text \<open>The general setup copies the bytes to the first wires; the general result reads the wires in bytes from
  the last byte on.\<close>

lemma zero_bytes_bits: "concat (replicate k (word_bits (0 :: u8))) = replicate (8 * k) False"
proof (induction k)
  case (Suc k)
  have "word_bits (0 :: u8) = replicate 8 False" by (simp add: list_eq_iff_nth_eq)
  then show ?case using Suc by (simp flip: replicate_add)
qed simp

lemma setup_inputs_bytes_returns:
  assumes "ex_circ e = Some c" "repr (ex_wires e) []" "unat (c_nw c) = 8 * m" "length input \<le> m"
    "ucast (foldl (+) 0 (c_niw c)) = (of_nat (length input) * 8 :: u64)"
  shows "returns (setup_inputs_bytes input e) (\<lambda>e'. ex_circ e' = Some c \<and> repr (ex_wires e') (input_wires (unat (c_nw c)) (replicate (length input) 8) input))"
proof -
  obtain w where w: "resize (ex_wires e) (unat (c_nw c)) False = Inr w" "repr w (replicate (8 * m) False)"
    using resize_returns [OF assms(2), of "unat (c_nw c)"] assms(3) by (auto simp: returns_def)
  have bl: "m_blocks w = replicate m 0"
    using w(2) repr_zeros [where 'a = 8, of "8 * m"] repr_unique [of w] by (force simp: blocks_required_def)
  let ?d = "input @ replicate (m - length input) 0"
  have "concat (map word_bits ?d) = input_wires (unat (c_nw c)) (replicate (length input) 8) input"
    by (simp add: input_wires_def Let_def value_bits_full list_all_iff length_concat_bits zero_bytes_bits assms(3) diff_mult_distrib2)
  moreover have "returns (copy_to_data w ?d) (\<lambda>w'. repr w' (concat (map word_bits ?d)))"
    using assms(4) by (intro copy_to_data_full [OF w(2)]) simp
  moreover have "copy_to_data w input = copy_to_data w ?d"
    using assms(4) by (simp add: copy_to_data_def mem_copy_def bl)
  ultimately show ?thesis
    using assms(1,5) w(1) by (auto simp: setup_inputs_bytes_def circ_of_def returns_def)
qed

lemma out_bits_total:
  assumes "unat nov = length ns" "sum_list (map unat ns) < 2 ^ 64"
  shows "\<exists>t :: u64. rfold (\<lambda>i total. rbind (at_idx ns i) (\<lambda>n. Inr (total + ucast n))) [0..<unat nov] 0 = Inr t \<and>
    unat t = sum_list (map unat (ns :: u32 list))"
proof -
  let ?f = "\<lambda>i (total :: u64). rbind (at_idx ns i) (\<lambda>n. Inr (total + ucast n))"
  have "returns (rfold ?f [0..<length ns] 0) (\<lambda>t. unat t = sum_list (map unat (take (length [0..<length ns]) ns)))"
  proof (rule returns_rfold [where I = "\<lambda>k t. unat t = sum_list (map unat (take k ns))"])
    fix k and t :: u64 assume k: "k < length [0..<length ns]" and t: "unat t = sum_list (map unat (take k ns))"
    have tk: "sum_list (map unat (take (Suc k) ns)) = unat t + unat (ns ! k)" using k t by (simp add: take_Suc_conv_app_nth)
    have "map unat ns = map unat (take (Suc k) ns) @ map unat (drop (Suc k) ns)" by (metis append_take_drop_id map_append)
    then have "unat t + unat (ns ! k) < 2 ^ LENGTH(64)" using assms(2) tk by simp
    then have "unat (t + ucast (ns ! k)) = unat t + unat (ns ! k)" using unat_add_lem [of t "ucast (ns ! k)"] by simp
    with tk k show "returns (?f ([0..<length ns] ! k) t) (\<lambda>t. unat t = sum_list (map unat (take (Suc k) ns)))"
      by (simp add: at_idx_in)
  qed simp
  then show ?thesis using assms(1) by (auto simp: returns_def)
qed

lemma finalize_bytes_returns:
  assumes "ex_circ e = Some c" "repr (ex_wires e) l" "length l < 2 ^ 64" "unat (c_nov c) = length (c_now c)"
    "sum_list (map unat (c_now c)) = 8 * m" "8 * m \<le> length l"
  shows "finalize_bytes e = Inr (rev (wire_values (replicate m 8) (drop (length l - 8 * m) l)))"
proof -
  define vals :: "bytes" where "vals = wire_values (replicate m 8) (drop (length l - 8 * m) l)"
  have lv: "length vals = m" by (simp add: vals_def)
  obtain t :: u64 where t: "rfold (\<lambda>i total. rbind (at_idx (c_now c) i) (\<lambda>n. Inr (total + ucast n))) [0..<unat (c_nov c)] 0 = Inr t"
    "unat t = 8 * m"
    using out_bits_total [OF assms(4)] assms(3,5,6) by auto
  have "unat (t + 7) = 8 * m + 7 \<or> 2 ^ 64 \<le> 8 * m + 7" using t(2) unat_add_lem [of t 7] by auto
  moreover have "8 * m + 7 < 2 ^ 64"
  proof -
    have "8 * m < 8 * 2 ^ 61" using assms(3,6) by simp
    then have "m < 2 ^ 61" by (rule mult_less_cancel1 [THEN iffD1, THEN conjunct2])
    then show ?thesis by simp
  qed
  ultimately have size: "unat ((t + 7) div 8) = m" by (simp add: unat_div)
  let ?out = "\<lambda>i. take (m - i) (replicate m 0) @ drop (m - i) vals"
  let ?I = "\<lambda>i (out, index :: u64). out = ?out i \<and> unat index = length l - 8 * i"
  let ?f = "\<lambda>i (out, index). rbind (gather_wires (ex_wires e) index 8) (\<lambda>b.
    rbind (set_idx out (m - i - 1) b) (\<lambda>out. Inr (out, index - 8)))"
  have "returns (rfold ?f [0..<m] (replicate m 0, of_nat (size_bits (ex_wires e)))) (?I (length [0..<m]))"
  proof (rule returns_rfold [where I = ?I and f = ?f])
    show "?I 0 (replicate m 0, of_nat (size_bits (ex_wires e)))"
      using assms(3) lv repr_size [OF assms(2)] by (simp add: size_bits_def unat_of_nat_small)
  next
    fix i and st :: "bytes \<times> u64" assume i': "i < length [0..<m]" and I: "?I i st"
    obtain out index where st: "st = (out, index)" by (cases st)
    from i' have i: "i < m" by simp
    have idx: "unat index = length l - 8 * i" "8 \<le> unat index" using I st i assms(6) by auto
    have "vals ! (m - Suc i) = bits_word (take 8 (drop (length l - 8 * i - 8) l))"
    proof -
      have "sum_list (take (m - Suc i) (replicate m 8)) = 8 * (m - Suc i)" using i by (simp add: sum_list_replicate)
      moreover have "8 * (m - Suc i) + (length l - 8 * m) = length l - 8 * i - 8" using i assms(6) by auto
      ultimately show ?thesis using i by (simp add: vals_def nth_wire_values add.commute)
    qed
    then have g: "gather_wires (ex_wires e) index 8 = Inr (vals ! (m - Suc i))"
      using gather_wires_eq [where 'a = 8, OF assms(2), of 8 index] idx by simp
    have upd: "set_idx (?out i) (m - Suc i) (vals ! (m - Suc i)) = Inr (?out (Suc i))"
      using fill_from_end [OF i lv, of "replicate m 0" "[]"] by (simp del: set_idx_Inr)
    have "unat (index - 8) = unat index - 8" using idx(2) by (simp add: unat_sub word_le_nat_alt)
    with upd g I idx(1) i show "returns (?f ([0..<m] ! i) st) (?I (Suc i))"
      by (simp add: st del: set_idx_Inr)
  qed
  then show ?thesis
    using assms(1) t(1) size unfolding vals_def [symmetric]
    by (auto simp: finalize_bytes_def circ_of_def returns_def Let_def)
qed

subsection \<open>The padded message of SHA-256\<close>

text \<open>The padding of the standard for a message of one block: the message, a bit 1, zeros, and the length in bits,
  most significant byte first.\<close>

definition sha256_block :: "bytes \<Rightarrow> bytes" where
  "sha256_block input = input @ [0x80] @ replicate (55 - length input) 0 @ rev (word_bytes (of_nat (8 * length input) :: u64))"

lemma of_nat_mod64: "k < 2 ^ 64 \<Longrightarrow> (of_nat k :: u64) mod 64 = of_nat (k mod 64)"
  by (simp add: word_unat_eq_iff unat_mod unat_of_nat_small)

lemma of_nat_u64_eq: "k < 2 ^ 64 \<Longrightarrow> m < 2 ^ 64 \<Longrightarrow> (of_nat k :: u64) = of_nat m \<longleftrightarrow> k = m"
  by (simp add: word_unat_eq_iff unat_of_nat_small)

lemma round_up_64:
  fixes k :: nat
  assumes "0 < k"
  shows "k + (if k mod 64 = 0 then 0 else 64 - k mod 64) = 64 \<longleftrightarrow> k \<le> 64"
proof -
  define q r where "q = k div 64" and "r = k mod 64"
  have k: "k = 64 * q + r" "r < 64" by (simp_all add: q_def r_def)
  then show ?thesis using assms unfolding r_def [symmetric] by (cases "r = 0") auto
qed

lemma sha256_sizes:
  fixes n :: nat
  assumes "n + 72 < 2 ^ 64"
  defines "w \<equiv> of_nat n :: u64"
  defines "z \<equiv> (if (w + 1 + 8) mod 64 = 0 then 0 else 64 - (w + 1 + 8) mod 64)"
  shows "w + 1 + z + 8 = 64 \<longleftrightarrow> n \<le> 55" and "n \<le> 55 \<Longrightarrow> unat z = 55 - n"
proof -
  define k where "k = n + 9"
  define y where "y = (if k mod 64 = 0 then 0 else 64 - k mod 64)"
  have k: "w + 1 + 8 = of_nat k" and small: "k < 2 ^ 64" using assms(1) by (simp_all add: k_def w_def)
  have m: "(of_nat k :: u64) mod 64 = of_nat (k mod 64)" using small by (rule of_nat_mod64)
  have m0: "(of_nat (k mod 64) :: u64) = 0 \<longleftrightarrow> k mod 64 = 0"
    using of_nat_u64_eq [of "k mod 64" 0] by simp
  have z: "z = of_nat y" unfolding z_def k m m0 y_def by simp
  have yl: "y < 64" by (simp add: y_def)
  have "w + 1 + z + 8 = of_nat (k + y)" using k z by (simp add: algebra_simps)
  moreover have "k + y < 2 ^ 64" using assms(1) yl by (simp add: k_def)
  ultimately have "w + 1 + z + 8 = 64 \<longleftrightarrow> k + y = 64" using of_nat_u64_eq [of "k + y" 64] by simp
  also have "\<dots> \<longleftrightarrow> k \<le> 64" using round_up_64 [of k] by (simp add: y_def k_def)
  finally show "w + 1 + z + 8 = 64 \<longleftrightarrow> n \<le> 55" by (simp add: k_def)
  show "unat z = 55 - n" if "n \<le> 55"
  proof -
    have "y = 55 - n"
    proof (cases "n = 55")
      case False
      with that have "k mod 64 = k" by (simp add: k_def)
      with False that show ?thesis by (simp add: y_def k_def)
    qed (simp add: y_def k_def)
    with z yl show ?thesis by (simp add: unat_of_nat_small)
  qed
qed

lemma mem_copy_at:
  "length p = off \<Longrightarrow> length q = length data \<Longrightarrow> mem_copy (p @ q @ r) off data = Inr (p @ data @ r)"
  by (simp add: mem_copy_def)

lemma prepare_sha256_eq:
  assumes "length input + 72 < 2 ^ 64"
  shows "prepare_sha256_input input =
    (if length input \<le> 55 then Inr (rev (sha256_block input) @ sha256_initial_hash_values) else Inl EnforceNotMet)"
proof (cases "length input \<le> 55")
  case True
  let ?n = "length input" and ?w = "of_nat (length input) :: u64"
  let ?bits = "word_bytes (?w * 8)"
  note sz = sha256_sizes [OF assms]
  have w: "unat ?w = ?n" using assms by (simp add: unat_of_nat_small)
  have lb: "length ?bits = 8" by simp
  have split0: "replicate 96 (0 :: u8) = [] @ replicate 8 0 @ (replicate (55 - ?n) 0 @ [0] @ replicate ?n 0 @ replicate 32 0)"
    using True by (simp flip: replicate_add replicate_Suc)
  have s1: "mem_copy (replicate 96 0) 0 ?bits = Inr (?bits @ replicate (55 - ?n) 0 @ [0] @ replicate ?n 0 @ replicate 32 0)"
    unfolding split0 by (subst mem_copy_at) simp_all
  have s2: "set_idx (?bits @ replicate (55 - ?n) 0 @ [0] @ replicate ?n 0 @ replicate 32 0) (8 + (55 - ?n)) 0x80 =
      Inr (?bits @ replicate (55 - ?n) 0 @ [0x80] @ replicate ?n 0 @ replicate 32 0)"
    by (simp add: set_idx_def list_update_append)
  let ?p = "?bits @ replicate (55 - ?n) 0 @ [0x80 :: u8]"
  have s3: "mem_copy (?p @ replicate ?n 0 @ replicate 32 0) (8 + (55 - ?n) + 1) (rev input) = Inr (?p @ rev input @ replicate 32 0)"
    by (rule mem_copy_at) simp_all
  have s4: "mem_copy ((?p @ rev input) @ replicate 32 0 @ []) (8 + (55 - ?n) + 1 + ?n) sha256_initial_hash_values =
      Inr ((?p @ rev input) @ sha256_initial_hash_values @ [])"
    by (rule mem_copy_at) (simp_all add: sha256_initial_hash_values_def)
  have size: "unat (64 + 32 :: u64) = 96" by simp
  show ?thesis
    using True unfolding prepare_sha256_input_def Let_def
    by (simp only: sz(1) [THEN iffD2, OF True] sz(2) [OF True] w size enforce_True rbind_Inr s1 s2 simp_thms if_True
        s3 [unfolded append_assoc] s4 [unfolded append_assoc append_Nil2] append_assoc)
      (simp add: sha256_block_def mult.commute)
next
  case False
  then show ?thesis using sha256_sizes(1) [OF assms] by (simp add: prepare_sha256_input_def Let_def enforce_def)
qed

subsection \<open>Properties\<close>

text \<open>Concrete library functions, and a circuit of one input value of 64 wires whose output is the
  negation of the conjunction of the first two.\<close>

fun words_of :: "string \<Rightarrow> string \<Rightarrow> string list" where
  "words_of [] acc = [acc]"
| "words_of (c # cs) acc = (if c = CHR '' '' then acc # words_of cs [] else words_of cs (acc @ [c]))"

definition demo_split :: "string \<Rightarrow> string list" where
  "demo_split s = words_of s []"

definition demo_atoi32 :: "string \<Rightarrow> u32 option" where
  "demo_atoi32 s = (if s = [] then None else
     case dec_value s 0 of None \<Rightarrow> None | Some n \<Rightarrow> if int n < 2 ^ 32 then Some (of_nat n) else None)"

definition demo_circuit :: bf_circuit where
  "demo_circuit = \<lparr>c_ng = 2, c_nw = 66, c_niv = 1, c_niw = [64], c_nov = 1, c_now = [1],
     c_gates = [\<lparr>g_niw = 2, g_now = 1, g_iw = [0, 1], g_ow = [64], g_op = OpAND\<rparr>,
                \<lparr>g_niw = 1, g_now = 1, g_iw = [64], g_ow = [65], g_op = OpINV\<rparr>]\<rparr>"

lemma words_of_word: "CHR '' '' \<notin> set w \<Longrightarrow> words_of (w @ cs) acc = words_of cs (acc @ w)"
  by (induction w arbitrary: acc) auto

lemma words_of_join:
  "ws \<noteq> [] \<Longrightarrow> \<forall>w \<in> set ws. CHR '' '' \<notin> set w \<Longrightarrow> words_of (join_words ws) acc = (acc @ hd ws) # tl ws"
proof (induction ws arbitrary: acc rule: join_words.induct)
  case (2 w)
  then show ?case using words_of_word [of w "[]" acc] by (simp add: join_words.simps)
next
  case (3 w v ws)
  then show ?case by (simp add: join_words.simps(3) words_of_word)
qed simp

lemma demo_split_ok: "split_ok demo_split"
  unfolding split_ok_def demo_split_def using words_of_join [of _ "[]"] by (metis append_Nil list.collapse)

lemma demo_atoi32_ok: "atoi32_ok demo_atoi32"
  unfolding atoi32_ok_def demo_atoi32_def
proof
  fix n :: u32
  have "int (unat n) < 2 ^ 32" using uint_lt2p [of n] by simp
  then show "(if to_string (unat n) = [] then None else case dec_value (to_string (unat n)) 0 of None \<Rightarrow> None
      | Some n \<Rightarrow> if int n < 2 ^ 32 then Some (word_of_nat n) else None) = Some n"
    by (simp add: dec_value_to_string)
qed

lemma demo_circuit_wf: "wf_circuit demo_circuit"
  by (simp add: wf_circuit_def demo_circuit_def wf_gate_def circuit_text_def meta_lines_def values_line_def gate_line_def
      gate_words_def show_u32_def to_string.simps join_words.simps)

lemma demo_circuit_runnable: "runnable 64 demo_circuit"
  by (simp add: runnable_def demo_circuit_def runnable_gate_def wf_gate_def)

text \<open>C16: reading a file that holds the text of a well-formed circuit returns that circuit, gate by gate and
  with its sizes, through the reader's own seeks and line reads; the circuit can be taken only once.\<close>

theorem circuit_reader_roundtrip:
  assumes "atoi32_ok atoi" "split_ok split" "wf_circuit c" "fs path = Some (circuit_text c)"
  shows "returns (rbind (reader_ctor fs path) (\<lambda>r. rbind (read_all_gates atoi split r) steal_circ))
    (\<lambda>(c', r'). c' = c \<and> steal_circ r' = Inl EnforceNotMet)"
  by (rule returns_mono [OF read_circuit_ok]) (use assms in \<open>auto simp: steal_circ_def\<close>)

theorem circuit_reader_roundtrip_witness:
  "returns (rbind (reader_ctor (\<lambda>_. Some (circuit_text demo_circuit)) ''c.txt'')
      (\<lambda>r. rbind (read_all_gates demo_atoi32 demo_split r) steal_circ))
    (\<lambda>(c', r'). c' = demo_circuit \<and> steal_circ r' = Inl EnforceNotMet)"
  using circuit_reader_roundtrip [OF demo_atoi32_ok demo_split_ok demo_circuit_wf,
    of "\<lambda>_. Some (circuit_text demo_circuit)" "''c.txt''"] by simp

text \<open>C14: a new executor that loads the file of a well-formed circuit, takes the input values, executes and
  finalizes returns the output values of the circuit. This is for circuits whose gates are XOR, AND, INV, EQ and EQW
  over their own wires (\<open>Exec\<close> throws at MAND), whose input values have exactly as many wires as the type of the values
  has bits (\<open>SetupInputs\<close> ignores the sizes), and whose output values have at most that many and sizes that read the
  same in both directions (\<open>Finalize\<close> takes them in the wrong order otherwise).\<close>

theorem plain_executor_evaluates:
  fixes inputs outs :: "'a :: len word list"
  assumes "LENGTH('a) dvd 128" "8 dvd LENGTH('a)" "atoi32_ok atoi" "split_ok split"
    "wf_circuit c" "runnable LENGTH('a) c" "fs path = Some (circuit_text c)"
    "length inputs = unat (c_niv c)" "length outs = unat (c_nov c)"
  shows "rbind (load_circuit_file atoi split fs path executor_default) (\<lambda>e.
    rbind (setup_inputs inputs e) (\<lambda>e. rbind (exec e) (finalize outs))) = Inr (circuit_outputs c inputs)"
proof -
  have "load_circuit_file atoi split fs path executor_default = Inr (executor_default\<lparr>ex_circ := Some c\<rparr>)"
    using assms(3-5,7) by (rule load_circuit_file_ok)
  then show ?thesis
    using run_circuit_ok [OF assms(1,2,5,6), of "executor_default\<lparr>ex_circ := Some c\<rparr>" inputs outs] assms(8,9) bitset_default_repr
    by (simp add: executor_default_def del: rbind_eq_Inr)
qed

theorem plain_executor_evaluates_witness:
  "rbind (load_circuit_file demo_atoi32 demo_split (\<lambda>_. Some (circuit_text demo_circuit)) ''c.txt'' executor_default) (\<lambda>e.
    rbind (setup_inputs [6 :: u64] e) (\<lambda>e. rbind (exec e) (finalize [0 :: u64]))) = Inr (circuit_outputs demo_circuit [6])"
  by (rule plain_executor_evaluates [OF _ _ demo_atoi32_ok demo_split_ok demo_circuit_wf])
    (simp_all add: demo_circuit_runnable, simp_all add: demo_circuit_def)

subsection \<open>Where the reader and the executor depart from their purpose\<close>

text \<open>At the end of the stream \<open>GetLine\<close> leaves the line it read before in place: in a file that ends without a
  newline and has fewer lines than gates, the last gate is read again for each missing one.\<close>

lemma get_line_repeats:
  "is_eof (fis_in s) \<Longrightarrow> file_get_line ret d s = Inr (ret, s\<lparr>fis_in := (fis_in s)\<lparr>is_fail := True\<rparr>\<rparr>)"
  by (simp add: file_get_line_def std_getline_def is_good_def)

text \<open>\<open>Reset\<close> keeps \<open>metadata_length_\<close>: a reader that has read a circuit, is reset and opened on another file skips
  the sizes of the new file and returns a circuit without gates.\<close>

lemma reopened_reader_reads_nothing:
  assumes "rd_in r = Some s" "fis_open s" "0 < rd_metadata_length r" "rd_metadata_length r < 2 ^ 63"
    "fs path = Some text"
  shows "returns (rbind (reader_reset r) (\<lambda>r. rbind (reader_init fs path r) (\<lambda>r. rbind (read_all_gates atoi split r) steal_circ)))
    (\<lambda>(c, _). c = circuit_default)"
  using assms
  by (auto simp: reader_reset_def file_close_def reader_init_def file_ctor_def file_seekg_def read_all_gates_def
      circuit_default_def file_get_line_def std_getline_def is_good_def std_clear_def Let_def read_gates_loop_def vec_resize_def
      steal_circ_def)

text \<open>A second \<open>SetupInputs\<close> on the same executor appends its values behind the wires and cuts them off again:
  the wires keep their values and the new inputs are ignored.\<close>

lemma setup_inputs_ignored:
  fixes inputs :: "'a :: len word list"
  assumes "8 dvd LENGTH('a)" "ex_circ e = Some c" "length inputs = unat (c_niv c)" "repr (ex_wires e) l"
    "length l = unat (c_nw c)"
  shows "returns (setup_inputs inputs e) (\<lambda>e'. repr (ex_wires e') l)"
  by (rule returns_mono [OF setup_inputs_returns [OF assms(1-4)]]) (simp add: Let_def assms(5))

text \<open>\<open>SetupInputs\<close> does not look at the sizes of the input values: in a circuit of two inputs of 32 wires, wire 32 is
  bit 32 of the first value and not bit 0 of the second.\<close>

lemma setup_inputs_ignores_sizes:
  assumes "ex_circ e = Some c" "repr (ex_wires e) []" "c_niv c = 2" "c_niw c = [32, 32]" "c_nw c = 96"
  shows "returns (setup_inputs [0, 1 :: u64] e) (\<lambda>e'. \<exists>l. repr (ex_wires e') l \<and> \<not> l ! 32) \<and>
    input_wires 96 (map unat (c_niw c)) [0, 1 :: u64] ! 32"
proof
  show "returns (setup_inputs [0, 1 :: u64] e) (\<lambda>e'. \<exists>l. repr (ex_wires e') l \<and> \<not> l ! 32)"
  proof (rule returns_mono [OF setup_inputs_returns [OF _ assms(1) _ assms(2)]])
    fix e' :: plain_executor
    assume "ex_circ e' = Some c \<and> repr (ex_wires e') (let b = [] @ concat (map word_bits [0, 1 :: u64]) in
      take (unat (c_nw c)) b @ replicate (unat (c_nw c) - length b) False)"
    then show "\<exists>l. repr (ex_wires e') l \<and> \<not> l ! 32"
      using assms(5) by (intro exI conjI) (auto simp: nth_append)
  qed (use assms(3) in simp_all)
  show "input_wires 96 (map unat (c_niw c)) [0, 1 :: u64] ! 32"
    using assms(4) by (simp add: input_wires_def nth_append)
qed

text \<open>\<open>Finalize\<close> takes the sizes of the output values from the first on but fills the values from the last: with
  outputs of one and two wires it returns the wires in groups of two and one.\<close>

lemma finalize_swaps_sizes:
  "finalize [0, 0 :: u64] \<lparr>ex_wires = \<lparr>m_blocks = [0b101], m_bits_number = 3\<rparr>,
      ex_circ = Some (circuit_default\<lparr>c_nw := 3, c_nov := 2, c_now := [1, 2]\<rparr>)\<rparr> = Inr [0b01, 0b1]"
  by code_simp

lemma finalize_sizes_expected: "wire_values [1, 2] [True, False, True] = [1, 0b10 :: u64]"
  by (simp add: bits_word_def)

end
