(* ===== verification/Gf_Intrinsic.thy ===== *)
theory Gf_Intrinsic
  imports Prelude
begin

text \<open>
  The fields GF(2^64) and GF(2^128) of \<open>math/galois_field/gf_intrinsic.{h,cc}\<close> and the integer helpers of
  \<open>math/gadget.h\<close>. A \<open>block\<close> is a 128-bit word. \<open>mm_clmulepi64\<close> is the processor's carry-less multiplication of two
  64-bit halves, chosen by the bits 0 and 4 of its immediate operand. The hash functions are templates over the field:
  the multiplication is their argument \<open>mul\<close>.
\<close>

subsection \<open>Vector instructions\<close>

definition clmul64 :: "u64 \<Rightarrow> u64 \<Rightarrow> u128" where
  "clmul64 x y = foldr (\<lambda>i acc. push_bit 1 acc XOR (if bit y i then ucast x else 0)) [0..<64] 0"

definition half64 :: "bool \<Rightarrow> u128 \<Rightarrow> u64" where
  "half64 high w = ucast (if high then drop_bit 64 w else w)"

definition mm_clmulepi64 :: "u128 \<Rightarrow> u128 \<Rightarrow> nat \<Rightarrow> u128" where
  "mm_clmulepi64 a b imm = clmul64 (half64 (odd imm) a) (half64 (odd (imm div 16)) b)"

definition mm_srli_si128 :: "u128 \<Rightarrow> nat \<Rightarrow> u128" where
  "mm_srli_si128 a n = drop_bit (8 * n) a"

definition mm_slli_si128 :: "u128 \<Rightarrow> nat \<Rightarrow> u128" where
  "mm_slli_si128 a n = push_bit (8 * n) a"

definition block2 :: "u64 \<Rightarrow> u64 \<Rightarrow> u128" where
  "block2 x1 x0 = push_bit 64 (ucast x1) OR ucast x0"

subsection \<open>GF(2^128)\<close>

definition kGfMod128 :: u64 where
  "kGfMod128 = push_bit 7 1 OR push_bit 2 1 OR push_bit 1 1 OR 1"

definition gf128_cl_mul :: "u128 \<Rightarrow> u128 \<Rightarrow> u128 \<times> u128" where
  "gf128_cl_mul x y =
     (let low = mm_clmulepi64 x y 0x00;
          high = mm_clmulepi64 x y 0x11;
          mid1 = mm_clmulepi64 x y 0x10;
          mid2 = mm_clmulepi64 x y 0x01;
          mid = mid1 XOR mid2;
          mid1 = mm_srli_si128 mid 8;
          mid2 = mm_slli_si128 mid 8 in
      (high XOR mid1, low XOR mid2))"

definition gf128_reduce :: "u128 \<Rightarrow> u128 \<Rightarrow> u128" where
  "gf128_reduce high low =
     (let modulo = ucast kGfMod128;
          (upper, carry0) = gf128_cl_mul high modulo;
          low = low XOR carry0;
          (zero, carry1) = gf128_cl_mul upper modulo in
      low XOR carry1)"

definition gf128_mul :: "u128 \<Rightarrow> u128 \<Rightarrow> u128" where
  "gf128_mul x y = (let (high, low) = gf128_cl_mul x y in gf128_reduce high low)"

definition gf128_cl_mul_span :: "u128 list \<Rightarrow> u128 list \<Rightarrow> (u128 \<times> u128) result" where
  "gf128_cl_mul_span x y =
     rbind (enforce (length x = length y)) (\<lambda>_.
     rfold (\<lambda>i (ret_high, ret_low).
       rbind (at_idx x i) (\<lambda>a. rbind (at_idx y i) (\<lambda>b.
       let (high, low) = gf128_cl_mul a b in Inr (ret_high XOR high, ret_low XOR low))))
       [0..<length x] (0, 0))"

definition gf128_mul_span :: "u128 list \<Rightarrow> u128 list \<Rightarrow> u128 result" where
  "gf128_mul_span x y =
     rbind (enforce (length x = length y)) (\<lambda>_.
     rbind (gf128_cl_mul_span x y) (\<lambda>(high, low). Inr (gf128_reduce high low)))"

definition kGf128Basis :: "u128 list" where
  "kGf128Basis = map (\<lambda>i. push_bit i 1) [0..<128]"

definition gf128_pack :: "u128 list \<Rightarrow> u128 result" where
  "gf128_pack data =
     rbind (enforce (length data \<le> 128)) (\<lambda>_. gf128_mul_span data (take (length data) kGf128Basis))"

subsection \<open>GF(2^64)\<close>

definition kGfMod64 :: u64 where
  "kGfMod64 = push_bit 4 1 OR push_bit 3 1 OR push_bit 1 1 OR 1"

definition gf64_cl_mul :: "u64 \<Rightarrow> u64 \<Rightarrow> u128" where
  "gf64_cl_mul x y = mm_clmulepi64 (ucast x) (ucast y) 0x00"

definition gf64_reduce :: "u128 \<Rightarrow> u64" where
  "gf64_reduce x =
     (let modulo = block2 0 kGfMod64;
          temp = mm_clmulepi64 modulo x 0x10;
          xb = x XOR temp;
          temp = mm_clmulepi64 modulo temp 0x10;
          xb = xb XOR temp in
      ucast xb)"

definition gf64_mul :: "u64 \<Rightarrow> u64 \<Rightarrow> u64" where
  "gf64_mul x y = gf64_reduce (gf64_cl_mul x y)"

text \<open>The two loops of the inner product: pairs packed in a block, then the element that is left.\<close>

fun gf64_cl_mul_loop :: "u64 list \<Rightarrow> u64 list \<Rightarrow> u128 \<Rightarrow> u128" where
  "gf64_cl_mul_loop (x0 # x1 # xs) (y0 # y1 # ys) ret =
     (let xb = block2 x1 x0; yb = block2 y1 y0;
          xy0 = mm_clmulepi64 xb yb 0x00;
          xy1 = mm_clmulepi64 xb yb 0x11;
          ret = ret XOR xy0;
          ret = ret XOR xy1 in
      gf64_cl_mul_loop xs ys ret)"
| "gf64_cl_mul_loop (x # xs) (y # ys) ret = ret XOR gf64_cl_mul x y"
| "gf64_cl_mul_loop _ _ ret = ret"

definition gf64_cl_mul_span :: "u64 list \<Rightarrow> u64 list \<Rightarrow> u128 result" where
  "gf64_cl_mul_span x y =
     rbind (enforce (length x = length y)) (\<lambda>_. Inr (gf64_cl_mul_loop x y 0))"

definition gf64_mul_span :: "u64 list \<Rightarrow> u64 list \<Rightarrow> u64 result" where
  "gf64_mul_span x y =
     rbind (enforce (length x = length y)) (\<lambda>_.
     rbind (gf64_cl_mul_span x y) (\<lambda>t. Inr (gf64_reduce t)))"

definition kGf64Basis :: "u64 list" where
  "kGf64Basis = map (\<lambda>i. push_bit i 1) [0..<64]"

definition gf64_pack :: "u64 list \<Rightarrow> u64 result" where
  "gf64_pack data =
     rbind (enforce (length data \<le> 64)) (\<lambda>_. gf64_mul_span data (take (length data) kGf64Basis))"

definition gf64_inv :: "u64 \<Rightarrow> u64" where
  "gf64_inv x =
     (let sqr = (\<lambda>t. gf64_mul t t);
          t0 = x;
          t1 = gf64_mul t0 t0;
          t2 = gf64_mul t1 t0;
          t0 = (sqr ^^ 2) t2;
          t1 = gf64_mul t1 t0;
          t2 = gf64_mul t2 t0;
          t0 = (sqr ^^ 4) t2;
          t1 = gf64_mul t1 t0;
          t2 = gf64_mul t2 t0;
          t0 = (sqr ^^ 8) t2;
          t1 = gf64_mul t1 t0;
          t2 = gf64_mul t2 t0;
          t0 = (sqr ^^ 16) t2;
          t1 = gf64_mul t1 t0;
          t0 = gf64_mul t0 t2;
          t0 = (sqr ^^ 32) t0 in
      gf64_mul t0 t1)"

subsection \<open>Products of elements of both fields\<close>

definition gf_mul_128_64 :: "u128 \<Rightarrow> u64 \<Rightarrow> u128" where
  "gf_mul_128_64 a b = gf128_mul a (ucast b)"

definition gf_mul_64_128 :: "u64 \<Rightarrow> u128 \<Rightarrow> u128" where
  "gf_mul_64_128 a b = gf128_mul (ucast a) b"

definition gf_mul_span_128_64 :: "u128 list \<Rightarrow> u64 list \<Rightarrow> u128 result" where
  "gf_mul_span_128_64 a b = gf128_mul_span a (map ucast b)"

definition gf_mul_span_64_128 :: "u64 list \<Rightarrow> u128 list \<Rightarrow> u128 result" where
  "gf_mul_span_64_128 a b = gf_mul_span_128_64 b a"

subsection \<open>Integer helpers\<close>

definition countl_zero :: "u64 \<Rightarrow> nat" where
  "countl_zero x = length (takeWhile (\<lambda>i. \<not> bit x (63 - i)) [0..<64])"

definition log2_floor :: "u64 \<Rightarrow> u64 result" where
  "log2_floor x = rbind (enforce (x \<noteq> 0)) (\<lambda>_. Inr (8 * 8 - of_nat (countl_zero x) - 1))"

definition log2_ceil :: "u64 \<Rightarrow> u64 result" where
  "log2_ceil x =
     rbind (enforce (x \<noteq> 0)) (\<lambda>_.
     if x = 1 then Inr 0 else rbind (log2_floor (x - 1)) (\<lambda>l. Inr (l + 1)))"

definition div_ceil :: "u64 \<Rightarrow> u64 \<Rightarrow> u64 result" where
  "div_ceil x y = (if x = 0 then Inr 0 else rbind (assert_that (y \<noteq> 0)) (\<lambda>_. Inr (1 + (x - 1) div y)))"

definition round_up_to :: "u64 \<Rightarrow> u64 \<Rightarrow> u64 result" where
  "round_up_to x y = rbind (div_ceil x y) (\<lambda>q. Inr (q * y))"

subsection \<open>Universal hashing\<close>

definition universal_hash :: "('a :: len word \<Rightarrow> 'a word \<Rightarrow> 'a word) \<Rightarrow> 'a word \<Rightarrow> 'a word list \<Rightarrow> 'a word" where
  "universal_hash mul seed data = fold (\<lambda>val ret. mul seed (ret XOR val)) (rev data) 0"

text \<open>The loop over the bits of \<open>index + 1\<close>; \<open>n\<close> iterations are left and \<open>i\<close> is the next bit.\<close>

fun coef_loop :: "('a :: len word \<Rightarrow> 'a word \<Rightarrow> 'a word) \<Rightarrow> 'a word list \<Rightarrow> u64 \<Rightarrow> nat \<Rightarrow> nat \<Rightarrow> u64 \<Rightarrow> 'a word \<Rightarrow> 'a word result" where
  "coef_loop mul buff index_plus_one 0 i m coef = Inr coef"
| "coef_loop mul buff index_plus_one (Suc n) i m coef =
     (if m \<le> index_plus_one then
        rbind (if m AND index_plus_one \<noteq> 0 then rbind (at_idx buff i) (\<lambda>b. Inr (mul coef b)) else Inr coef)
          (coef_loop mul buff index_plus_one n (Suc i) (push_bit 1 m))
      else Inr coef)"

definition seed_powers :: "('a :: len word \<Rightarrow> 'a word \<Rightarrow> 'a word) \<Rightarrow> 'a word \<Rightarrow> u64 \<Rightarrow> 'a word list result" where
  "seed_powers mul seed max_bits =
     rfold (\<lambda>i buff. rbind (at_idx buff (i - 1)) (\<lambda>b. set_idx buff i (mul b b)))
       [1..<Suc (unat max_bits)] ((replicate 64 0)[0 := seed])"

definition extract_hash_coef :: "('a :: len word \<Rightarrow> 'a word \<Rightarrow> 'a word) \<Rightarrow> 'a word \<Rightarrow> u64 list \<Rightarrow> 'a word list result" where
  "extract_hash_coef mul seed indexes =
     rbind (at_idx indexes (length indexes - 1)) (\<lambda>back.
     rbind (log2_ceil back) (\<lambda>max_bits.
     rbind (seed_powers mul seed max_bits) (\<lambda>buff.
     rfold (\<lambda>index ret. rbind (coef_loop mul buff (index + 1) 64 0 1 1) (\<lambda>coef. Inr (ret @ [coef]))) indexes [])))"

end
