(* ===== verification/Gf2_Poly.thy ===== *)
theory Gf2_Poly
  imports Prelude
begin

text \<open>
  Polynomials over the field of two elements, with the coefficients as the bits of a natural number:
  \<open>XOR\<close> adds and \<open>pmul\<close> multiplies. \<open>peq m a b\<close> is congruence modulo \<open>m\<close>; two polynomials of smaller degree
  than \<open>m\<close> are congruent only if they are equal. The reference the carry-less multiplications of the Galois fields are
  compared with.
\<close>

fun pmul :: "nat \<Rightarrow> nat \<Rightarrow> nat" where
  "pmul a b = (if b = 0 then 0 else (if odd b then a else 0) XOR 2 * pmul a (b div 2))"

declare pmul.simps [simp del]

lemma pmul_0 [simp]: "pmul a 0 = 0"
  by (simp add: pmul.simps)

lemma pmul_rec: "pmul a b = (if odd b then a else 0) XOR 2 * pmul a (b div 2)"
  by (cases "b = 0") (simp_all add: pmul.simps [of a b])

lemma double_xor: "2 * (a XOR b) = 2 * a XOR (2 * b :: nat)"
  using push_bit_xor [of 1 a b] by (simp add: push_bit_eq_mult mult.commute)

lemma half_xor: "(a XOR b) div 2 = a div 2 XOR (b div 2 :: nat)"
  using drop_bit_xor [of 1 a b] by (simp add: drop_bit_eq_div)

lemma odd_xor: "odd (a XOR b :: nat) \<longleftrightarrow> odd a \<noteq> odd b"
  using bit_xor_iff [of a b 0] by (simp add: bit_0)

lemma xor_nat_zero [simp]: "(a :: nat) XOR b = 0 \<longleftrightarrow> a = b"
proof
  assume "a XOR b = 0"
  then have "a XOR (a XOR b) = a XOR 0" by simp
  then show "a = b" by (simp add: xor.assoc [symmetric])
qed simp

lemma xor_nat_cancel [simp]: "(a :: nat) XOR (a XOR b) = b"
  by (simp add: xor.assoc [symmetric])

lemma pmul_0_left [simp]: "pmul 0 b = 0"
  by (induction b rule: less_induct) (subst pmul_rec, use pmul.simps in auto)

lemma pmul_xor_left: "pmul (a XOR b) c = pmul a c XOR pmul b c"
proof (induction c rule: less_induct)
  case (less c)
  show ?case
  proof (cases "c = 0")
    case False
    then have "c div 2 < c" by simp
    from less [OF this] show ?thesis
      by (simp add: pmul_rec [of _ c] double_xor xor_ac)
  qed simp
qed

lemma pmul_double_left: "pmul (2 * a) b = 2 * pmul a b"
proof (induction b rule: less_induct)
  case (less b)
  show ?case
  proof (cases "b = 0")
    case False
    then have "b div 2 < b" by simp
    from less [OF this] show ?thesis by (simp add: pmul_rec [of _ b] double_xor)
  qed simp
qed

lemma bit_split: "(a :: nat) = of_bool (odd a) XOR 2 * (a div 2)"
proof (rule bit_eqI)
  fix n
  show "bit a n = bit (of_bool (odd a) XOR 2 * (a div 2)) n"
    by (cases n) (simp_all add: bit_xor_iff bit_0 bit_Suc odd_xor half_xor)
qed

lemma pmul_1_left [simp]: "pmul 1 b = b"
proof (induction b rule: less_induct)
  case (less b)
  show ?case
  proof (cases "b = 0")
    case False
    then have "b div 2 < b" by simp
    from less [OF this] have "pmul 1 b = of_bool (odd b) XOR 2 * (b div 2)" by (subst pmul_rec) simp
    then show ?thesis using bit_split [of b] by simp
  qed simp
qed

lemma pmul_Suc_0_left [simp]: "pmul (Suc 0) b = b"
  using pmul_1_left [of b] by simp

lemma pmul_commute: "pmul a b = pmul b a"
proof (induction b rule: less_induct)
  case (less b)
  show ?case
  proof (cases "b = 0")
    case False
    then have "b div 2 < b" by simp
    note IH = less [OF this]
    have "pmul b a = pmul (of_bool (odd b) XOR 2 * (b div 2)) a" using bit_split [of b] by simp
    also have "\<dots> = (if odd b then a else 0) XOR 2 * pmul a (b div 2)"
      by (simp add: pmul_xor_left pmul_double_left IH)
    finally show ?thesis by (simp add: pmul_rec [of a b])
  qed simp
qed

lemma pmul_Suc_0 [simp]: "pmul a (Suc 0) = a"
  by (simp add: pmul_commute [of a])

lemma pmul_xor: "pmul a (b XOR c) = pmul a b XOR pmul a c"
  by (simp add: pmul_commute [of a] pmul_xor_left)

lemma pmul_double: "pmul a (2 * b) = 2 * pmul a b"
  by (simp add: pmul_commute [of a] pmul_double_left)

lemma pmul_assoc: "pmul (pmul a b) c = pmul a (pmul b c)"
proof (induction c rule: less_induct)
  case (less c)
  show ?case
  proof (cases "c = 0")
    case False
    then have "c div 2 < c" by simp
    from less [OF this] show ?thesis
      by (simp add: pmul_rec [of _ c] pmul_xor pmul_double)
  qed simp
qed

lemma pmul_left_commute: "pmul a (pmul b c) = pmul b (pmul a c)"
  by (metis pmul_assoc pmul_commute)

lemmas pmul_ac = pmul_assoc pmul_commute pmul_left_commute

lemma pmul_power2: "pmul a (2 ^ k) = 2 ^ k * a"
proof (induction k)
  case (Suc k)
  then show ?case using pmul_double [of a "2 ^ k"] by simp
qed simp

subsection \<open>Degrees\<close>

text \<open>\<open>x div 2 ^ k = 1\<close>: the polynomial has degree \<open>k\<close>.\<close>

lemma div_pow_xor: "(x XOR y) div 2 ^ k = x div 2 ^ k XOR (y div 2 ^ k :: nat)"
  using drop_bit_xor [of k x y] by (simp add: drop_bit_eq_div)

lemma xor_less_pow: "x < 2 ^ k \<Longrightarrow> y < 2 ^ k \<Longrightarrow> x XOR y < (2 ^ k :: nat)"
  using div_pow_xor [of x y k] by (simp add: div_eq_0_iff)

lemma pmul_degree:
  assumes "a div 2 ^ i = 1" "b div 2 ^ j = 1"
  shows "pmul a b div 2 ^ (i + j) = 1"
  using assms(2)
proof (induction b arbitrary: j rule: less_induct)
  case (less b)
  show ?case
  proof (cases j)
    case 0
    with less.prems assms(1) show ?thesis by simp
  next
    case (Suc k)
    from less.prems have "b \<noteq> 0" by (intro notI) simp
    then have "b div 2 < b" by simp
    moreover have "b div 2 div 2 ^ k = 1" using less.prems Suc by (simp add: div_mult2_eq [symmetric])
    ultimately have IH: "pmul a (b div 2) div 2 ^ (i + k) = 1" by (rule less.IH)
    have "a < 2 ^ Suc i" using assms(1) by (metis div_less_iff_less_mult lessI mult_2 one_add_one plus_1_eq_Suc power_Suc zero_less_numeral zero_less_power)
    also have "(2 :: nat) ^ Suc i \<le> 2 ^ (i + j)" using Suc by (intro power_increasing) auto
    finally have small: "(if odd b then a else 0) div 2 ^ (i + j) = 0" by simp
    have "2 * pmul a (b div 2) div 2 ^ (i + j) = 1" using IH Suc by (simp add: div_mult2_eq)
    with small show ?thesis unfolding pmul_rec [of a b] div_pow_xor by simp
  qed
qed

lemma degree_exists: "(a :: nat) \<noteq> 0 \<Longrightarrow> \<exists>i. a div 2 ^ i = 1"
proof (induction a rule: less_induct)
  case (less a)
  show ?case
  proof (cases "a = 1")
    case True
    then show ?thesis by (intro exI [of _ 0]) simp
  next
    case False
    with less.prems have "a div 2 < a" "a div 2 \<noteq> 0" by auto
    then obtain i where "a div 2 div 2 ^ i = 1" using less.IH by blast
    then show ?thesis by (intro exI [of _ "Suc i"]) (simp add: div_mult2_eq [symmetric])
  qed
qed

lemma pmul_multiple_small:
  assumes "m div 2 ^ n = 1" "pmul q m < 2 ^ n"
  shows "q = 0"
proof (rule ccontr)
  assume "q \<noteq> 0"
  then obtain i where "q div 2 ^ i = 1" using degree_exists by blast
  with assms(1) have "pmul q m div 2 ^ (i + n) = 1" by (rule pmul_degree [rotated -1])
  moreover have "pmul q m < 2 ^ (i + n)"
    using assms(2) by (rule less_le_trans) (simp add: power_increasing)
  ultimately show False by simp
qed

lemma pmul_less:
  assumes "a < 2 ^ i" "b < 2 ^ Suc j"
  shows "pmul a b < 2 ^ (i + j)"
proof (cases "a = 0 \<or> b = 0")
  case False
  then obtain d e where d: "a div 2 ^ d = 1" and e: "b div 2 ^ e = 1" using degree_exists by blast
  have "d < i" using d assms(1) by (metis One_nat_def div_eq_0_iff le_less_trans less_le_trans linorder_not_less one_le_numeral power_increasing zero_neq_one order_less_imp_le)
  moreover have "e \<le> j" using e assms(2) by (metis One_nat_def div_less less_le_trans linorder_not_less not_less_eq_eq one_le_numeral power_increasing zero_neq_one)
  ultimately have "(2 :: nat) ^ (Suc (d + e)) \<le> 2 ^ (i + j)" by (intro power_increasing) auto
  moreover have "pmul a b < 2 ^ Suc (d + e)"
    using pmul_degree [OF d e] by (metis div_less_iff_less_mult lessI mult_2 one_add_one plus_1_eq_Suc power_Suc zero_less_numeral zero_less_power)
  ultimately show ?thesis by simp
qed auto

subsection \<open>Congruence\<close>

definition peq :: "nat \<Rightarrow> nat \<Rightarrow> nat \<Rightarrow> bool" where
  "peq m a b \<longleftrightarrow> (\<exists>q. a XOR b = pmul q m)"

lemma peq_refl [simp]: "peq m a a"
  by (auto simp: peq_def intro: exI [of _ 0])

lemma peq_sym: "peq m a b \<Longrightarrow> peq m b a"
  by (simp add: peq_def xor.commute)

lemma peq_xor:
  assumes "peq m a b" "peq m c d"
  shows "peq m (a XOR c) (b XOR d)"
proof -
  obtain p q where "a XOR b = pmul p m" "c XOR d = pmul q m" using assms by (auto simp: peq_def)
  then have "(a XOR c) XOR (b XOR d) = pmul (p XOR q) m" by (simp add: pmul_xor_left xor_ac flip: \<open>a XOR b = pmul p m\<close> \<open>c XOR d = pmul q m\<close>)
  then show ?thesis by (auto simp: peq_def)
qed

lemma peq_trans: "peq m a b \<Longrightarrow> peq m b c \<Longrightarrow> peq m a c"
  using peq_xor [of m a b b c] by (simp add: peq_def xor_ac)

lemma peq_pmul:
  assumes "peq m a b" "peq m c d"
  shows "peq m (pmul a c) (pmul b d)"
proof -
  obtain p q where p: "a XOR b = pmul p m" and q: "c XOR d = pmul q m" using assms by (auto simp: peq_def)
  have "pmul a c XOR pmul b d = pmul (a XOR b) c XOR pmul b (c XOR d)"
    by (simp add: pmul_xor_left pmul_xor xor_ac)
  also have "\<dots> = pmul (pmul p c XOR pmul b q) m"
    unfolding p q by (simp add: pmul_xor_left pmul_assoc pmul_commute [of m c])
  finally show ?thesis by (auto simp: peq_def)
qed

lemma peq_unique:
  assumes "m div 2 ^ n = 1" "peq m a b" "a < 2 ^ n" "b < 2 ^ n"
  shows "a = b"
proof -
  obtain q where q: "a XOR b = pmul q m" using assms(2) by (auto simp: peq_def)
  then have "q = 0" using assms xor_less_pow [of a n b] by (intro pmul_multiple_small [of m n]) simp_all
  with q show ?thesis by simp
qed

text \<open>Reduction of a double-length polynomial: the high half is replaced by its product with the low part \<open>r\<close> of the
  modulus \<open>2 ^ n XOR r\<close>.\<close>

lemma peq_fold: "peq (2 ^ n XOR r) (2 ^ n * h XOR l) (pmul h r XOR l)"
proof -
  have "(2 ^ n * h XOR l) XOR (pmul h r XOR l) = pmul h (2 ^ n XOR r)"
    by (simp add: pmul_xor pmul_power2 xor_ac)
  then show ?thesis by (auto simp: peq_def)
qed

end
