(* ===== verification/Gf_Intrinsic_Field.thy ===== *)
theory Gf_Intrinsic_Field
  imports Gf_Intrinsic Gf2_Poly
begin

text \<open>
  The multiplications of \<open>gf_intrinsic.cc\<close> against polynomials over the field of two elements: the product of two elements is
  congruent to their polynomial product modulo \<open>x^64 + x^4 + x^3 + x + 1\<close> and \<open>x^128 + x^7 + x^2 + x + 1\<close>. As an element has
  a smaller degree than the modulus, the laws of a commutative ring follow, and the locale \<open>gf2_ring\<close> carries what the clients use.
\<close>

subsection \<open>Words as polynomials\<close>

lemma unat_xor: "unat (a XOR b :: 'a :: len word) = unat a XOR unat b"
  by (simp add: unsigned_xor_eq)

lemma unat_ucast_up: "unat (ucast (x :: u64) :: u128) = unat x"
  by (simp add: unsigned_ucast_eq take_bit_nat_eq_self_iff) (rule order.strict_trans [OF unsigned_less], simp)

lemma bit_odd: "bit (y :: 'a :: len word) i \<longleftrightarrow> odd (unat y div 2 ^ i)"
  by (metis bit_iff_odd bit_unsigned_iff bit_imp_le_length possible_bit_nat unsigned_less not_bit_length)

lemma unat_u64 [simp]: "unat (x :: u64) < 18446744073709551616"
  using unsigned_less [of x, where 'a = nat] by simp

lemma unat_u128 [simp]: "unat (x :: u128) < 340282366920938463463374607431768211456"
  using unsigned_less [of x, where 'a = nat] by simp

lemma clmul_step:
  assumes "unat w = pmul (unat x) (unat (y :: u64) div 2 ^ Suc i)"
  shows "unat (push_bit 1 w XOR (if bit y i then ucast x else 0) :: u128) = pmul (unat (x :: u64)) (unat y div 2 ^ i)"
proof -
  have "unat y div 2 ^ Suc i \<le> unat y div 2" by (simp add: div_mult2_eq)
  also have "\<dots> < 2 ^ Suc 62" by (simp add: div_less_iff_less_mult)
  finally have "unat w < 2 ^ (64 + 62)"
    unfolding assms by (intro pmul_less) (simp_all add: unat_u64)
  then have "unat (push_bit 1 w) = 2 * unat w"
    using unat_mult_lem [of w 2] by (simp add: mult.commute)
  then show ?thesis
    unfolding unat_xor pmul_rec [of "unat x" "unat y div 2 ^ i"] assms bit_odd
    by (simp add: unat_ucast_up xor.commute div_mult2_eq [symmetric] mult.commute)
qed

lemma unat_clmul64: "unat (clmul64 x y) = pmul (unat x) (unat y)"
proof -
  let ?F = "\<lambda>i. foldr (\<lambda>i acc. push_bit 1 acc XOR (if bit y i then ucast x else 0)) [i..<64] (0 :: u128)"
  have unfold: "?F i = push_bit 1 (?F (Suc i)) XOR (if bit y i then ucast x else 0)" if "i < 64" for i
    using that by (subst upt_rec) simp
  have "unat (?F (64 - k)) = pmul (unat x) (unat y div 2 ^ (64 - k))" if "k \<le> 64" for k
    using that
  proof (induction k)
    case (Suc k)
    define i where "i = 64 - Suc k"
    with Suc.prems have i: "64 - k = Suc i" "i < 64" by simp_all
    with Suc have "unat (?F (Suc i)) = pmul (unat x) (unat y div 2 ^ Suc i)" by simp
    from clmul_step [OF this] show ?case by (simp only: i_def [symmetric] unfold [OF i(2)])
  qed simp
  from this [of 64] show ?thesis by (simp add: clmul64_def)
qed

lemma unat_drop_bit: "unat (drop_bit k w) = unat (w :: 'a :: len word) div 2 ^ k"
proof -
  have "unat (drop_bit k w) = drop_bit k (unat w)"
    by (rule bit_eqI) (auto simp: bit_unsigned_iff bit_drop_bit_eq)
  then show ?thesis by (simp only: drop_bit_eq_div)
qed

lemma unat_push_bit: "unat (push_bit k w) = (2 ^ k * unat (w :: 'a :: len word)) mod 2 ^ LENGTH('a)"
  unfolding unsigned_push_bit_eq by (simp only: push_bit_eq_mult take_bit_eq_mod mult.commute)

lemma unat_half64: "unat (half64 high w) = (if high then unat w div 2 ^ 64 else unat w mod 2 ^ 64)"
proof -
  have "unat w div 2 ^ 64 < 2 ^ 64" by (simp add: div_less_iff_less_mult)
  then show ?thesis by (simp add: half64_def unsigned_ucast_eq take_bit_eq_mod unat_drop_bit)
qed

lemma split_power: "(a :: nat) = 2 ^ k * (a div 2 ^ k) XOR a mod 2 ^ k"
proof -
  have "push_bit k (drop_bit k a) XOR take_bit k a = a"
    by (rule bit_eqI) (auto simp: bit_xor_iff bit_push_bit_iff bit_drop_bit_eq bit_take_bit_iff)
  then show ?thesis by (simp add: push_bit_eq_mult drop_bit_eq_div take_bit_eq_mod mult.commute)
qed

lemma mult_power_xor: "2 ^ k * (a XOR b) = 2 ^ k * a XOR (2 ^ k * b :: nat)"
  using push_bit_xor [of k a b] by (simp add: push_bit_eq_mult mult.commute)

lemma pmul_mult_power: "pmul (2 ^ k * a) b = 2 ^ k * pmul a b" "pmul a (2 ^ k * b) = 2 ^ k * pmul a b"
  by (metis pmul_power2 pmul_assoc pmul_commute)+

lemma join_mod_div:
  fixes h l :: nat
  assumes "l < 2 ^ k"
  shows "(2 ^ k * h XOR l) div 2 ^ k = h" "(2 ^ k * h XOR l) mod 2 ^ k = l"
proof -
  show "(2 ^ k * h XOR l) div 2 ^ k = h" using assms by (simp add: div_pow_xor)
  have "(2 ^ k * h XOR l) mod 2 ^ k = (2 ^ k * h) mod 2 ^ k XOR l mod 2 ^ k"
    using take_bit_xor [of k "2 ^ k * h" l] by (simp add: take_bit_eq_mod)
  then show "(2 ^ k * h XOR l) mod 2 ^ k = l" using assms by simp
qed

subsection \<open>GF(2^128)\<close>

lemma gf128_cl_mul_eq:
  assumes "gf128_cl_mul x y = (h, l)"
  shows "2 ^ 128 * unat h XOR unat l = pmul (unat x) (unat y)"
proof -
  define xh xl yh yl where "xh = unat x div 2 ^ 64" and "xl = unat x mod 2 ^ 64"
    and "yh = unat y div 2 ^ 64" and "yl = unat y mod 2 ^ 64"
  let ?mid = "mm_clmulepi64 x y 0x10 XOR mm_clmulepi64 x y 0x01"
  define mid where "mid = pmul xl yh XOR pmul xh yl"
  have mid: "unat ?mid = mid"
    by (simp add: mm_clmulepi64_def unat_xor unat_clmul64 unat_half64 mid_def xh_def xl_def yh_def yl_def)
  have w: "h = mm_clmulepi64 x y 0x11 XOR drop_bit 64 ?mid" "l = mm_clmulepi64 x y 0x00 XOR push_bit 64 ?mid"
    using assms by (simp_all add: gf128_cl_mul_def Let_def mm_srli_si128_def mm_slli_si128_def)
  have ends: "unat (mm_clmulepi64 x y 0x11) = pmul xh yh" "unat (mm_clmulepi64 x y 0x00) = pmul xl yl"
    by (simp_all add: mm_clmulepi64_def unat_clmul64 unat_half64 xh_def yh_def xl_def yl_def)
  have h: "unat h = pmul xh yh XOR mid div 2 ^ 64"
    unfolding w(1) unat_xor ends unat_drop_bit mid [symmetric] by simp
  have "(2 ^ 64 * mid) mod 2 ^ 128 = 2 ^ 64 * (mid mod 2 ^ 64)"
    using mult_mod_right [of "2 ^ 64" mid "2 ^ 64"] by simp
  then have l: "unat l = pmul xl yl XOR 2 ^ 64 * (mid mod 2 ^ 64)"
    unfolding w(2) unat_xor [of _ "push_bit 64 _"] ends unat_push_bit mid by simp
  have "pmul (unat x) (unat y) = pmul (2 ^ 64 * xh XOR xl) (2 ^ 64 * yh XOR yl)"
    using split_power [of "unat x" 64] split_power [of "unat y" 64] by (simp only: xh_def xl_def yh_def yl_def)
  also have "\<dots> = 2 ^ 128 * pmul xh yh XOR 2 ^ 64 * mid XOR pmul xl yl"
    unfolding mid_def mult_power_xor by (simp only: pmul_xor_left pmul_xor pmul_mult_power mult_power_xor xor_ac mult.assoc [symmetric] power_add [symmetric])
      simp
  also have "2 ^ 64 * mid = 2 ^ 128 * (mid div 2 ^ 64) XOR 2 ^ 64 * (mid mod 2 ^ 64)"
    by (subst split_power [of mid 64]) (simp only: mult_power_xor mult.assoc [symmetric] power_add [symmetric], simp)
  finally show ?thesis unfolding h l mult_power_xor by (simp only: xor_ac)
qed

definition P128 :: nat where
  "P128 = 2 ^ 128 XOR 0x87"

definition P64 :: nat where
  "P64 = 2 ^ 64 XOR 0x1b"

lemma fold_twice:
  "peq (2 ^ n XOR r) (2 ^ n * h XOR l) (l XOR pmul h r mod 2 ^ n XOR pmul (pmul h r div 2 ^ n) r)"
proof -
  let ?t = "pmul h r"
  have "?t XOR l = 2 ^ n * (?t div 2 ^ n) XOR (?t mod 2 ^ n XOR l)"
    by (subst split_power [of ?t n]) (simp only: xor_ac)
  then have "peq (2 ^ n XOR r) (?t XOR l) (pmul (?t div 2 ^ n) r XOR (?t mod 2 ^ n XOR l))"
    by (simp only: peq_fold)
  with peq_fold [of n r h l] have "peq (2 ^ n XOR r) (2 ^ n * h XOR l) (pmul (?t div 2 ^ n) r XOR (?t mod 2 ^ n XOR l))"
    by (rule peq_trans)
  then show ?thesis by (simp only: xor_ac)
qed

lemma unat_mod128: "unat (ucast kGfMod128 :: u128) = 0x87"
  by (simp add: kGfMod128_def)

lemma fold_small:
  assumes "h < 2 ^ n" "r < 2 ^ Suc d"
  shows "pmul (pmul h r div 2 ^ n) r < 2 ^ (d + d)"
proof -
  have "pmul h r < 2 ^ (n + d)" using assms by (rule pmul_less)
  then have "pmul h r div 2 ^ n < 2 ^ d" by (simp add: div_less_iff_less_mult power_add mult.commute)
  then show ?thesis using assms(2) by (rule pmul_less)
qed

lemma gf128_reduce_eq: "peq P128 (2 ^ 128 * unat h XOR unat l) (unat (gf128_reduce h l))"
proof -
  let ?m = "ucast kGfMod128 :: u128"
  obtain u c0 where uc: "gf128_cl_mul h ?m = (u, c0)" by (cases "gf128_cl_mul h ?m")
  obtain z c1 where zc: "gf128_cl_mul u ?m = (z, c1)" by (cases "gf128_cl_mul u ?m")
  let ?t = "pmul (unat h) 0x87"
  have u: "unat u = ?t div 2 ^ 128" and c0: "unat c0 = ?t mod 2 ^ 128"
    using join_mod_div [of "unat c0" 128 "unat u"] gf128_cl_mul_eq [OF uc] by (simp_all add: unat_mod128)
  have "pmul (?t div 2 ^ 128) 0x87 < 2 ^ (7 + 7)"
    by (rule fold_small) simp_all
  then have c1: "unat c1 = pmul (?t div 2 ^ 128) 0x87"
    using join_mod_div(2) [of "unat c1" 128 "unat z"] gf128_cl_mul_eq [OF zc] u by (simp add: unat_mod128)
  have "unat (gf128_reduce h l) = unat l XOR ?t mod 2 ^ 128 XOR pmul (?t div 2 ^ 128) 0x87"
    by (simp only: gf128_reduce_def Let_def uc zc prod.case unat_xor c0 c1 xor.assoc)
  then show ?thesis unfolding P128_def by (simp only: fold_twice)
qed

lemma gf128_mul_eq: "peq P128 (pmul (unat x) (unat y)) (unat (gf128_mul x y))"
proof -
  obtain h l where hl: "gf128_cl_mul x y = (h, l)" by (cases "gf128_cl_mul x y")
  from gf128_reduce_eq [of h l] show ?thesis
    by (simp only: gf128_mul_def hl Let_def prod.case gf128_cl_mul_eq [OF hl])
qed

subsection \<open>GF(2^64)\<close>

lemma unat_block2: "unat (block2 x1 x0) = 2 ^ 64 * unat x1 XOR unat x0"
proof -
  have "block2 x1 x0 = push_bit 64 (ucast x1) XOR ucast x0"
    by (rule bit_word_eqI) (auto simp: block2_def bit_or_iff bit_xor_iff bit_push_bit_iff bit_unsigned_iff dest: bit_imp_le_length)
  moreover have "2 ^ 64 * unat x1 < 2 ^ 128" using unat_u64 [of x1] by simp
  ultimately show ?thesis by (simp add: unat_xor unat_push_bit unat_ucast_up)
qed

lemma unat_gf64_cl_mul: "unat (gf64_cl_mul x y) = pmul (unat x) (unat y)"
  by (simp add: gf64_cl_mul_def mm_clmulepi64_def unat_clmul64 unat_half64 unat_ucast_up)

lemma half64_block2 [simp]: "half64 True (block2 x1 x0) = x1" "half64 False (block2 x1 x0) = x0"
  using join_mod_div [of "unat x0" 64 "unat x1"] by (simp_all add: word_unat_eq_iff unat_half64 unat_block2)

text \<open>The reduction as a function of the number.\<close>

definition red64 :: "nat \<Rightarrow> nat" where
  "red64 n =
     (let t = pmul (n div 2 ^ 64) 27 in n mod 2 ^ 64 XOR t mod 2 ^ 64 XOR pmul (t div 2 ^ 64) 27)"

lemma unat_gf64_reduce: "unat (gf64_reduce x) = red64 (unat x)"
proof -
  define h where "h = unat x div 2 ^ 64"
  let ?t = "pmul h 0x1b" and ?temp = "mm_clmulepi64 (block2 0 kGfMod64) x 0x10"
  let ?temp2 = "mm_clmulepi64 (block2 0 kGfMod64) ?temp 0x10"
  have m: "unat kGfMod64 = 0x1b" by (simp add: kGfMod64_def)
  have t: "unat ?temp = ?t"
    by (simp add: mm_clmulepi64_def unat_clmul64 unat_half64 m h_def pmul_commute)
  have t2: "unat ?temp2 = pmul (?t div 2 ^ 64) 0x1b"
    unfolding mm_clmulepi64_def [of _ ?temp] by (simp add: unat_clmul64 unat_half64 m t pmul_commute)
  have "h < 2 ^ 64" by (simp add: h_def div_less_iff_less_mult)
  then have small: "pmul (?t div 2 ^ 64) 0x1b < 2 ^ (4 + 4)" by (rule fold_small) simp
  have "unat (gf64_reduce x) = unat (x XOR ?temp XOR ?temp2) mod 2 ^ 64"
    by (simp add: gf64_reduce_def Let_def unsigned_ucast_eq take_bit_eq_mod xor.assoc)
  also have "\<dots> = unat x mod 2 ^ 64 XOR ?t mod 2 ^ 64 XOR pmul (?t div 2 ^ 64) 0x1b mod 2 ^ 64"
    unfolding unat_xor t t2 by (simp only: take_bit_eq_mod [symmetric] take_bit_xor)
  also have "pmul (?t div 2 ^ 64) 0x1b mod 2 ^ 64 = pmul (?t div 2 ^ 64) 0x1b" using small by simp
  finally show ?thesis by (simp only: red64_def Let_def h_def)
qed

lemma gf64_reduce_eq: "peq P64 (unat x) (unat (gf64_reduce x))"
proof -
  have "unat x = 2 ^ 64 * (unat x div 2 ^ 64) XOR unat x mod 2 ^ 64" by (rule split_power)
  then show ?thesis
    unfolding unat_gf64_reduce red64_def Let_def P64_def
    using fold_twice [of 64 27 "unat x div 2 ^ 64" "unat x mod 2 ^ 64"] by simp
qed

lemma gf64_mul_eq: "peq P64 (pmul (unat x) (unat y)) (unat (gf64_mul x y))"
  using gf64_reduce_eq [of "gf64_cl_mul x y"] by (simp add: gf64_mul_def unat_gf64_cl_mul)

end
