(* ===== verification/Gf_Intrinsic_Ring.thy ===== *)
theory Gf_Intrinsic_Ring
  imports Gf_Intrinsic_Field
begin

text \<open>
  The interface of a field of characteristic two, as the locales \<open>gf2_ring\<close> and \<open>gf2_field\<close>, with what holds in every such field:
  powers, the additivity of squaring, and the two hash functions. \<open>gf2_ring\<close> is interpreted on both multiplications.
\<close>

definition gpow :: "('a :: len word \<Rightarrow> 'a word \<Rightarrow> 'a word) \<Rightarrow> 'a word \<Rightarrow> nat \<Rightarrow> 'a word" where
  "gpow mul x n = (mul x ^^ n) 1"

text \<open>Sums over finite sets with \<open>XOR\<close> as addition.\<close>

interpretation xor_set: comm_monoid_set "(XOR)" "0 :: 'a :: len word"
  by unfold_locales (simp_all add: xor_ac)

definition xor_sum :: "('i \<Rightarrow> 'a :: len word) \<Rightarrow> 'i set \<Rightarrow> 'a word" where
  "xor_sum f A = xor_set.F f A"

definition xor_list :: "'a :: len word list \<Rightarrow> 'a word" where
  "xor_list xs = foldr (XOR) xs 0"

lemma xor_list_simps [simp]: "xor_list [] = 0" "xor_list (x # xs) = x XOR xor_list xs"
  by (simp_all add: xor_list_def)

lemma xor_list_append: "xor_list (xs @ ys) = xor_list xs XOR xor_list ys"
  by (induction xs) (simp_all add: xor.assoc)

lemma xor_sum_distinct: "distinct xs \<Longrightarrow> xor_sum f (set xs) = xor_list (map f xs)"
  by (induction xs) (simp_all add: xor_sum_def)

lemma xor_sum_support:
  assumes "finite A" "set xs \<subseteq> A" "distinct xs" "\<And>i. i \<in> A - set xs \<Longrightarrow> f i = 0"
  shows "xor_sum f A = xor_list (map f xs)"
proof -
  have "xor_sum f A = xor_sum f (set xs)"
    unfolding xor_sum_def using assms by (intro xor_set.mono_neutral_right) auto
  then show ?thesis using assms(3) by (simp add: xor_sum_distinct)
qed

lemma xor_sum_Suc: "xor_sum f {..<Suc n} = f 0 XOR xor_sum (\<lambda>i. f (Suc i)) {..<n}"
  unfolding xor_sum_def by (rule xor_set.lessThan_Suc_shift)

subsection \<open>Rings of characteristic two\<close>

locale gf2_ring =
  fixes mul :: "'a :: len word \<Rightarrow> 'a word \<Rightarrow> 'a word"
  assumes mul_assoc: "mul (mul x y) z = mul x (mul y z)"
    and mul_commute: "mul x y = mul y x"
    and mul_one: "mul 1 x = x"
    and mul_xor: "mul x (y XOR z) = mul x y XOR mul x z"
begin

lemma mul_xor_left: "mul (y XOR z) x = mul y x XOR mul z x"
  by (simp add: mul_commute [of _ x] mul_xor)

lemma mul_zero: "mul x 0 = 0"
  using mul_xor [of x 0 0] by simp

lemma mul_left_commute: "mul x (mul y z) = mul y (mul x z)"
  by (metis mul_assoc mul_commute)

lemma gpow_0: "gpow mul x 0 = 1"
  by (simp add: gpow_def)

lemma gpow_Suc: "gpow mul x (Suc n) = mul x (gpow mul x n)"
  by (simp add: gpow_def)

lemma gpow_1: "gpow mul x 1 = x"
  by (simp add: gpow_def mul_commute [of x 1] mul_one)

lemma gpow_add: "mul (gpow mul x m) (gpow mul x n) = gpow mul x (m + n)"
  by (induction m) (simp_all add: gpow_0 mul_one gpow_Suc mul_assoc)

lemma gpow_sqr_iter: "((\<lambda>t. mul t t) ^^ k) (gpow mul x n) = gpow mul x (2 ^ k * n)"
  by (induction k) (simp_all add: gpow_add mult_2 add_mult_distrib)

lemma sqr_xor: "mul (x XOR y) (x XOR y) = mul x x XOR mul y y"
  by (simp add: mul_xor mul_xor_left mul_commute [of y x] xor_ac)

lemma sqr_iter_xor: "((\<lambda>t. mul t t) ^^ k) (x XOR y) = ((\<lambda>t. mul t t) ^^ k) x XOR ((\<lambda>t. mul t t) ^^ k) y"
  by (induction k) (simp_all add: sqr_xor)

lemma sqr_iter_mul: "((\<lambda>t. mul t t) ^^ k) (mul x y) = mul (((\<lambda>t. mul t t) ^^ k) x) (((\<lambda>t. mul t t) ^^ k) y)"
  by (induction k) (simp_all add: mul_assoc mul_left_commute)

lemma sqr_iter_zero: "((\<lambda>t. mul t t) ^^ k) 0 = 0"
  by (induction k) (simp_all add: mul_zero)

lemma sqr_iter_one: "((\<lambda>t. mul t t) ^^ k) 1 = 1"
  by (induction k) (simp_all add: mul_one)

lemma mul_xor_sum: "finite A \<Longrightarrow> mul x (xor_sum f A) = xor_sum (\<lambda>i. mul x (f i)) A"
  by (induction A rule: finite_induct) (simp_all add: xor_sum_def mul_zero mul_xor)

lemma universal_hash_poly:
  "universal_hash mul seed data = xor_sum (\<lambda>i. mul (data ! i) (gpow mul seed (Suc i))) {..<length data}"
proof (induction data)
  case (Cons d ds)
  have "universal_hash mul seed (d # ds) = mul seed (universal_hash mul seed ds XOR d)"
    by (simp add: universal_hash_def)
  also have "\<dots> = mul d (gpow mul seed 1) XOR xor_sum (\<lambda>i. mul (ds ! i) (gpow mul seed (Suc (Suc i)))) {..<length ds}"
    by (simp add: Cons mul_xor mul_xor_sum gpow_Suc [of _ "Suc _"] mul_left_commute xor.commute gpow_1 [simplified]
      mul_commute [of seed d])
  also have "\<dots> = xor_sum (\<lambda>i. mul ((d # ds) ! i) (gpow mul seed (Suc i))) {..<Suc (length ds)}"
    by (simp add: xor_sum_Suc)
  finally show ?case by simp
qed (simp add: universal_hash_def xor_sum_def)

end

locale gf2_field = gf2_ring mul for mul :: "'a :: len word \<Rightarrow> 'a word \<Rightarrow> 'a word" +
  fixes inv :: "'a :: len word \<Rightarrow> 'a word"
  assumes mul_inv: "x \<noteq> 0 \<Longrightarrow> mul x (inv x) = 1"
begin

lemma no_zero_divisors: "mul x y = 0 \<longleftrightarrow> x = 0 \<or> y = 0"
proof
  assume xy: "mul x y = 0"
  show "x = 0 \<or> y = 0"
  proof (cases "x = 0")
    case False
    have "y = mul (mul x (inv x)) y" using mul_inv [OF False] by (simp add: mul_one)
    also have "\<dots> = mul (inv x) (mul x y)" by (simp add: mul_assoc mul_left_commute)
    finally show ?thesis using xy by (simp add: mul_zero)
  qed simp
qed (auto simp: mul_zero mul_commute [of 0])

lemma inv_unique: "mul x y = 1 \<Longrightarrow> y = inv x"
  by (metis mul_assoc mul_commute mul_inv mul_one mul_zero)

end

subsection \<open>Residues of polynomials form a ring\<close>

lemma gf2_ring_of_residues:
  fixes mul :: "'a :: len word \<Rightarrow> 'a word \<Rightarrow> 'a word"
  assumes deg: "m div 2 ^ LENGTH('a) = 1"
    and spec: "\<And>x y. peq m (pmul (unat x) (unat y)) (unat (mul x y))"
  shows "gf2_ring mul"
proof -
  have eqI: "x = y" if "peq m (unat x) (unat y)" for x y :: "'a word"
    using peq_unique [OF deg that] by (simp add: word_unat_eq_iff unsigned_less)
  have spec': "peq m (unat (mul x y)) (pmul (unat x) (unat y))" for x y
    using spec by (rule peq_sym)
  show ?thesis
  proof
    fix x y z :: "'a word"
    have "peq m (unat (mul (mul x y) z)) (pmul (pmul (unat x) (unat y)) (unat z))"
      using spec' [of "mul x y" z] peq_pmul [OF spec' peq_refl] by (rule peq_trans)
    moreover have "peq m (pmul (unat x) (pmul (unat y) (unat z))) (unat (mul x (mul y z)))"
      using peq_pmul [OF peq_refl spec] spec [of x "mul y z"] by (rule peq_trans)
    ultimately have "peq m (unat (mul (mul x y) z)) (unat (mul x (mul y z)))"
      unfolding pmul_assoc by (rule peq_trans)
    then show "mul (mul x y) z = mul x (mul y z)" by (rule eqI)
    have "peq m (pmul (unat x) (unat y)) (unat (mul y x))" using spec [of y x] by (simp add: pmul_commute)
    with spec' [of x y] have "peq m (unat (mul x y)) (unat (mul y x))" by (rule peq_trans)
    then show "mul x y = mul y x" by (rule eqI)
    show "mul 1 x = x" using spec' [of 1 x] by (intro eqI) simp
    have "peq m (pmul (unat x) (unat (y XOR z))) (unat (mul x y XOR mul x z))"
      unfolding unat_xor pmul_xor by (intro peq_xor spec)
    with spec' [of x "y XOR z"] have "peq m (unat (mul x (y XOR z))) (unat (mul x y XOR mul x z))" by (rule peq_trans)
    then show "mul x (y XOR z) = mul x y XOR mul x z" by (rule eqI)
  qed
qed

lemma P64_degree: "P64 div 2 ^ 64 = 1"
  by (simp add: P64_def)

lemma P128_degree: "P128 div 2 ^ 128 = 1"
  by (simp add: P128_def)

interpretation gf64: gf2_ring gf64_mul
  using P64_degree by (intro gf2_ring_of_residues [where m = P64] gf64_mul_eq) simp

interpretation gf128: gf2_ring gf128_mul
  using P128_degree by (intro gf2_ring_of_residues [where m = P128] gf128_mul_eq) simp

subsection \<open>Inner products\<close>

definition inner_product :: "('a :: len word \<Rightarrow> 'a word \<Rightarrow> 'a word) \<Rightarrow> 'a word list \<Rightarrow> 'a word list \<Rightarrow> 'a word" where
  "inner_product mul x y = xor_list (map2 mul x y)"

text \<open>The product before reduction.\<close>

definition poly_inner :: "'a :: len word list \<Rightarrow> 'a word list \<Rightarrow> nat" where
  "poly_inner x y = foldr (XOR) (map2 (\<lambda>a b. pmul (unat a) (unat b)) x y) 0"

lemma poly_inner_simps [simp]:
  "poly_inner [] y = 0" "poly_inner (a # x) (b # y) = pmul (unat a) (unat b) XOR poly_inner x y"
  by (simp_all add: poly_inner_def)

lemma poly_inner_snoc:
  "length x = length y \<Longrightarrow> poly_inner (x @ [a]) (y @ [b]) = poly_inner x y XOR pmul (unat a) (unat b)"
  by (induction x y rule: list_induct2) (simp_all add: xor.assoc)

lemma poly_inner_eq:
  assumes "\<And>x y. peq m (pmul (unat x) (unat y)) (unat (mul x y))"
  shows "length x = length y \<Longrightarrow> peq m (poly_inner x y) (unat (inner_product mul x y))"
  by (induction x y rule: list_induct2) (simp_all add: inner_product_def unat_xor peq_xor assms)

lemma gf128_cl_mul_span_eq:
  assumes "length x = length y"
  shows "\<exists>h l. gf128_cl_mul_span x y = Inr (h, l) \<and> 2 ^ 128 * unat h XOR unat l = poly_inner x y"
proof -
  let ?f = "\<lambda>i (ret_high, ret_low). rbind (at_idx x i) (\<lambda>a. rbind (at_idx y i) (\<lambda>b.
    let (high, low) = gf128_cl_mul a b in Inr (ret_high XOR high, ret_low XOR low)))"
  let ?I = "\<lambda>k (h, l). 2 ^ 128 * unat h XOR unat l = poly_inner (take k x) (take k y)"
  have poly_Suc: "poly_inner (take (Suc k) x) (take (Suc k) y) = poly_inner (take k x) (take k y) XOR pmul (unat (x ! k)) (unat (y ! k))"
    if "k < length x" for k
    using that assms poly_inner_snoc [of "take k x" "take k y"] by (simp add: take_Suc_conv_app_nth)
  have "returns (rfold ?f [0..<length x] (0, 0)) (?I (length [0..<length x]))"
  proof (rule returns_rfold [where I = ?I and f = ?f])
    fix k and s :: "u128 \<times> u128" assume k: "k < length [0..<length x]" and I: "?I k s"
    obtain h l where s: "s = (h, l)" by (cases s)
    obtain h' l' where c: "gf128_cl_mul (x ! k) (y ! k) = (h', l')" by (cases "gf128_cl_mul (x ! k) (y ! k)")
    have "2 ^ 128 * unat (h XOR h') XOR unat (l XOR l') = (2 ^ 128 * unat h XOR unat l) XOR (2 ^ 128 * unat h' XOR unat l')"
      unfolding unat_xor mult_power_xor by (simp only: xor_ac)
    also have "\<dots> = poly_inner (take (Suc k) x) (take (Suc k) y)"
      using I k s poly_Suc [of k] gf128_cl_mul_eq [OF c] by simp
    finally show "returns (?f ([0..<length x] ! k) s) (?I (Suc k))"
      using k s c assms by (simp add: at_idx_in)
  qed simp
  then show ?thesis using assms by (auto simp: gf128_cl_mul_span_def returns_def)
qed

lemma u128_residue_eqI: "peq P128 (unat x) (unat y) \<Longrightarrow> x = (y :: u128)"
  using peq_unique [OF P128_degree] by (simp add: word_unat_eq_iff)

lemma u64_residue_eqI: "peq P64 (unat x) (unat y) \<Longrightarrow> x = (y :: u64)"
  using peq_unique [OF P64_degree] by (simp add: word_unat_eq_iff)

lemma gf128_mul_span_eq:
  "gf128_mul_span x y = (if length x = length y then Inr (inner_product gf128_mul x y) else Inl EnforceNotMet)"
proof (cases "length x = length y")
  case True
  then obtain h l where hl: "gf128_cl_mul_span x y = Inr (h, l)" "2 ^ 128 * unat h XOR unat l = poly_inner x y"
    using gf128_cl_mul_span_eq by blast
  have "peq P128 (unat (gf128_reduce h l)) (poly_inner x y)"
    using gf128_reduce_eq [of h l] hl(2) by (simp add: peq_sym)
  then have "peq P128 (unat (gf128_reduce h l)) (unat (inner_product gf128_mul x y))"
    using poly_inner_eq [OF gf128_mul_eq True] by (rule peq_trans)
  then have "gf128_reduce h l = inner_product gf128_mul x y" by (rule u128_residue_eqI)
  with True hl(1) show ?thesis by (simp add: gf128_mul_span_def)
qed (simp add: gf128_mul_span_def)

lemma gf64_cl_mul_loop_eq:
  "length x = length y \<Longrightarrow> unat (gf64_cl_mul_loop x y ret) = unat ret XOR poly_inner x y"
proof (induction x y ret rule: gf64_cl_mul_loop.induct)
  case (1 x0 x1 xs y0 y1 ys ret)
  let ?r = "ret XOR clmul64 x0 y0 XOR clmul64 x1 y1"
  have "gf64_cl_mul_loop (x0 # x1 # xs) (y0 # y1 # ys) ret = gf64_cl_mul_loop xs ys ?r"
    by (simp add: Let_def mm_clmulepi64_def xor.assoc)
  moreover have "unat (gf64_cl_mul_loop xs ys ?r) = unat ?r XOR poly_inner xs ys"
    using 1 by (simp add: Let_def mm_clmulepi64_def xor.assoc)
  ultimately show ?case by (simp only: unat_xor unat_clmul64 poly_inner_simps xor.assoc)
qed (auto simp: unat_xor unat_gf64_cl_mul)

lemma gf64_mul_span_eq:
  "gf64_mul_span x y = (if length x = length y then Inr (inner_product gf64_mul x y) else Inl EnforceNotMet)"
proof (cases "length x = length y")
  case True
  have "peq P64 (unat (gf64_reduce (gf64_cl_mul_loop x y 0))) (poly_inner x y)"
    using gf64_reduce_eq [of "gf64_cl_mul_loop x y 0"] gf64_cl_mul_loop_eq [OF True, of 0] by (simp add: peq_sym)
  then have "peq P64 (unat (gf64_reduce (gf64_cl_mul_loop x y 0))) (unat (inner_product gf64_mul x y))"
    using poly_inner_eq [OF gf64_mul_eq True] by (rule peq_trans)
  then have "gf64_reduce (gf64_cl_mul_loop x y 0) = inner_product gf64_mul x y" by (rule u64_residue_eqI)
  with True show ?thesis by (simp add: gf64_mul_span_def gf64_cl_mul_span_def)
qed (simp add: gf64_mul_span_def)

end
