(* ===== verification/Gf64_Inverse.thy ===== *)
theory Gf64_Inverse
  imports Gf_Intrinsic_Ring
begin

text \<open>
  \<open>Gf64Inv\<close> raises its argument to the power \<open>2^64 - 2\<close>. That this is the inverse rests on the polynomial being irreducible,
  which is shown by computation: iterating the square 64 times gives the identity, since it fixes the generator, and an element
  equal to its square is 0 or 1, since the linear map from \<open>a\<close> to the sum of \<open>a\<close> and its square has a left inverse away from the
  lowest bit. Both checks are made on numbers.
\<close>

subsection \<open>Squares as numbers\<close>

fun spread :: "nat \<Rightarrow> nat" where
  "spread a = (if a = 0 then 0 else a mod 2 + 4 * spread (a div 2))"

declare spread.simps [simp del]

definition sq64 :: "nat \<Rightarrow> nat" where
  "sq64 a = red64 (spread a)"

named_theorems eval64 \<open>evaluation of squares on numerals\<close>

lemma pmul_27 [eval64]: "pmul h 27 = h XOR 2 * h XOR 8 * h XOR 16 * h"
  by (simp add: pmul_rec [of h 27] pmul_rec [of h 13] pmul_rec [of h 6] pmul_rec [of h 3] double_xor)

lemma spread_0 [eval64]: "spread 0 = 0"
  by (simp add: spread.simps)

lemma spread_1 [eval64]: "spread (Suc 0) = Suc 0"
  by (subst spread.simps) (simp add: spread_0)

lemma spread_double: "spread (2 * a) = 4 * spread a"
  by (cases "a = 0") (simp_all add: spread_0 spread.simps [of "2 * a"])

lemma spread_Suc_double: "spread (Suc (2 * a)) = Suc (4 * spread a)"
  by (subst spread.simps) simp

lemma spread_numeral [eval64]:
  "spread (numeral (Num.Bit0 n)) = 4 * spread (numeral n)"
  "spread (numeral (Num.Bit1 n)) = Suc (4 * spread (numeral n))"
  using spread_double [of "numeral n"] spread_Suc_double [of "numeral n"]
  by (simp_all add: numeral_Bit0 numeral_Bit1 mult_2)

lemmas [eval64] = sq64_def red64_def Let_def

lemma spread_eq: "pmul a a = spread a"
proof (induction a rule: less_induct)
  case (less a)
  show ?case
  proof (cases "a = 0")
    case False
    then have "a div 2 < a" by simp
    note IH = less [OF this]
    have sq: "pmul (2 * b) (2 * b) = 4 * pmul b b" for b
      by (simp add: pmul_double pmul_double_left)
    show ?thesis
    proof (cases "odd a")
      case True
      then have a: "a = 1 XOR 2 * (a div 2)" using bit_split [of a] by simp
      have "pmul a a = 1 XOR 4 * spread (a div 2)"
        unfolding IH [symmetric] sq [symmetric]
        by (subst (1 2) a) (simp add: pmul_xor pmul_xor_left xor_ac)
      also have "\<dots> = Suc (4 * spread (a div 2))"
        using bit_split [of "Suc (4 * spread (a div 2))"] by simp
      finally show ?thesis using True spread_Suc_double [of "a div 2"] by simp
    next
      case False
      then have a: "a = 2 * (a div 2)" by simp
      then have "pmul a a = 4 * spread (a div 2)" using sq [of "a div 2"] IH by simp
      with a show ?thesis using spread_double [of "a div 2"] by simp
    qed
  qed (simp add: spread_0)
qed

lemma unat_sqr: "unat (gf64_mul x x) = sq64 (unat x)"
  by (simp add: gf64_mul_def unat_gf64_reduce unat_gf64_cl_mul spread_eq sq64_def)

subsection \<open>The generator is fixed by 64 squarings\<close>

fun sq64_iter :: "nat \<Rightarrow> nat \<Rightarrow> nat" where
  "sq64_iter 0 a = a"
| "sq64_iter (Suc n) a = sq64_iter n (sq64 a)"

lemma sq64_iter_numeral: "sq64_iter (numeral v) a = sq64_iter (pred_numeral v) (sq64 a)"
  by (simp add: numeral_eq_Suc)

lemma sq64_generator: "sq64_iter 64 2 = 2"
  by (simp add: eval64 sq64_iter_numeral)

lemma unat_sqr_iter: "unat (((\<lambda>t. gf64_mul t t) ^^ n) x) = sq64_iter n (unat x)"
  by (induction n arbitrary: x) (simp_all add: unat_sqr funpow_Suc_right del: funpow.simps)

subsection \<open>Elements equal to their square\<close>

fun linear_map :: "nat list \<Rightarrow> nat \<Rightarrow> nat" where
  "linear_map [] n = 0"
| "linear_map (c # cs) n = (if odd n then c else 0) XOR linear_map cs (n div 2)"

definition left_inverse :: "nat list" where
  "left_inverse =
     [0x19c9369f278adc02, 0x84b2b22ab2383ee4, 0x84b2b22ab2383ee6, 0x9d7b84b495b3e3f6,
      0x84b2b22ab2383ee2, 0x37c470b49213f790, 0x9d7b84b495b3e3fe, 0x1000a0105137c,
      0x84b2b22ab2383ef2, 0x368e964a8edce1fc, 0x37c470b49213f7b0, 0x19c9368e278fdf4c,
      0x9d7b84b495b3e3be, 0x2e4da23cbc7d4570, 0x1000a010513fc, 0x84f35772bac24232,
      0x84b2b22ab2383ff2, 0x37c570ba9314e4fc, 0x368e964a8edce3fc, 0xb377c390213cdb0e,
      0x37c470b49213f3b0, 0x85ed5a3aa99c24f2, 0x19c9368e278fd74c, 0xaabff0000780000e,
      0x9d7b84b495b3f3be, 0x84b6b3dab03038f2, 0x2e4da23cbc7d6570, 0x511ea03494ffc,
      0x1000a010553fc, 0xae0c0220343c6c0e, 0x84f35772bac2c232, 0x800000008000000e,
      0x84b2b22ab2393ff2, 0xb376c29c202bc97e, 0x37c570ba9316e4fc, 0x9c3062488879e6ce,
      0x368e964a8ed8e3fc, 0x41e42c08e47e70, 0xb377c3902134db0e, 0x85b9b108a60f56ce,
      0x37c470b49203f3b0, 0x19dd3b6e21f3cb4c, 0x85ed5a3aa9bc24f2, 0x198ddf682c428ac0,
      0x19c9368e27cfd74c, 0x4b7c68431ca84b0, 0xaabff0000700000e, 0x8040655489ffefbe,
      0x9d7b84b494b3f3be, 0x18c1354e32bfa74c, 0x84b6b3dab23038f2, 0xaaf613cc0f74627e,
      0x2e4da23cb87d6570, 0x3248b3d6b3342a8c, 0x511ea0b494ffc, 0xb60813c00e70700e,
      0x1000a110553fc, 0x1e0d022a05393ffc, 0xae0c0220143c6c0e, 0xe0c0220143c6c00,
      0x84f35772fac2c232, 0x0, 0x800000000000000e, 0xc041e55948fbfdce]"

fun left_inverse_on :: "nat list \<Rightarrow> bool" where
  "left_inverse_on [] \<longleftrightarrow> True"
| "left_inverse_on (k # ks) \<longleftrightarrow>
     linear_map left_inverse (sq64 (2 ^ k) XOR 2 ^ k) = (if k = 0 then 0 else 2 ^ k) \<and> left_inverse_on ks"

lemma left_inverse_check: "left_inverse_on [0..<64]"
  by (simp add: upt_conv_Cons left_inverse_def eval64)

lemma left_inverse_on_nth: "left_inverse_on ks \<Longrightarrow> k \<in> set ks \<Longrightarrow>
    linear_map left_inverse (sq64 (2 ^ k) XOR 2 ^ k) = (if k = 0 then 0 else 2 ^ k)"
  by (induction ks rule: left_inverse_on.induct) auto

lemma linear_map_xor: "linear_map cs (a XOR b) = linear_map cs a XOR linear_map cs b"
  by (induction cs arbitrary: a b) (simp_all add: odd_xor half_xor xor_ac)

lemma linear_map_0: "linear_map cs 0 = 0"
  by (induction cs) simp_all

lemma sq64_xor:
  assumes "a < 2 ^ 64" "b < 2 ^ 64"
  shows "sq64 (a XOR b) = sq64 a XOR sq64 b"
proof -
  define x y :: u64 where "x = of_nat a" and "y = of_nat b"
  have "unat x = a" "unat y = b" using assms by (simp_all add: x_def y_def unat_of_nat_small)
  then show ?thesis using gf64.sqr_xor [of x y] unat_sqr [of x] unat_sqr [of y] unat_sqr [of "x XOR y"] by (simp add: unat_xor)
qed

text \<open>Induction over the bits of an element: a number below \<open>2 ^ k\<close> is built from its highest bit and a smaller number.\<close>

lemma top_bit_induct [consumes 1, case_names zero top]:
  assumes "n < (2 :: nat) ^ k" "P 0"
    and "\<And>j n. j < k \<Longrightarrow> n < 2 ^ j \<Longrightarrow> P n \<Longrightarrow> P (2 ^ j XOR n)"
  shows "P n"
  using assms
proof (induction k arbitrary: n)
  case (Suc k)
  show ?case
  proof (cases "n < 2 ^ k")
    case True
    then show ?thesis using Suc by (metis less_SucI)
  next
    case False
    let ?m = "n mod 2 ^ k"
    have "n div 2 ^ k = 1" using False Suc.prems(1) by (simp add: div_nat_eqI)
    then have n: "n = 2 ^ k XOR ?m" using split_power [of n k] by simp
    have "P ?m" using Suc by (metis less_SucI mod_less_divisor zero_less_numeral zero_less_power)
    then show ?thesis using Suc.prems(3) [of k ?m] n by simp
  qed
qed simp

lemma square_plus_left_inverse:
  assumes "n < 2 ^ 64"
  shows "linear_map left_inverse (sq64 n XOR n) = n XOR of_bool (odd n)"
  using assms
proof (induction rule: top_bit_induct)
  case zero
  have "sq64 0 = 0" by (simp add: eval64)
  then show ?case by (simp add: linear_map_0)
next
  case (top j n)
  have j: "(2 :: nat) ^ j < 2 ^ 64" using top(1) by (intro power_strict_increasing) simp_all
  with top(2) have "n < 2 ^ 64" by (rule less_trans)
  with j have "sq64 (2 ^ j XOR n) XOR (2 ^ j XOR n) = (sq64 (2 ^ j) XOR 2 ^ j) XOR (sq64 n XOR n)"
    by (simp add: sq64_xor xor_ac)
  then have "linear_map left_inverse (sq64 (2 ^ j XOR n) XOR (2 ^ j XOR n)) =
      (if j = 0 then 0 else 2 ^ j) XOR (n XOR of_bool (odd n))"
    using left_inverse_on_nth [OF left_inverse_check, of j] top by (simp only: linear_map_xor set_upt) simp
  moreover have "n = 0" if "j = 0" using top(2) that by simp
  ultimately show ?case by (cases "j = 0") (simp_all add: odd_xor xor_ac)
qed

lemma idempotent_trivial:
  fixes e :: u64
  assumes "gf64_mul e e = e"
  shows "e = 0 \<or> e = 1"
proof -
  have sq: "sq64 (unat e) = unat e" using unat_sqr [of e] assms by simp
  have "linear_map left_inverse (sq64 (unat e) XOR unat e) = unat e XOR of_bool (odd (unat e))"
    by (rule square_plus_left_inverse) simp
  then have "unat e XOR of_bool (odd (unat e)) = 0" unfolding sq by (simp only: xor_self_eq linear_map_0)
  then have "unat e = of_bool (odd (unat e))" by (simp only: xor_nat_zero)
  then show ?thesis by (cases "odd (unat e)") (simp_all add: word_unat_eq_iff)
qed

subsection \<open>Every element is fixed by 64 squarings\<close>

lemma double_step:
  assumes "Suc i < 64"
  shows "gf64_mul 2 (of_nat (2 ^ i)) = of_nat (2 ^ Suc i)"
proof -
  have lt: "(2 :: nat) ^ Suc i < 2 ^ 64" using assms by (intro power_strict_increasing) simp_all
  then have u: "unat (of_nat (2 ^ i) :: u64) = 2 ^ i" "unat (of_nat (2 ^ Suc i) :: u64) = 2 ^ Suc i"
    by (intro unat_of_nat_small; simp)+
  have "peq P64 (pmul 2 (2 ^ i)) (unat (gf64_mul 2 (of_nat (2 ^ i))))"
    using gf64_mul_eq [of 2 "of_nat (2 ^ i)"] u(1) by simp
  then have "peq P64 (unat (of_nat (2 ^ Suc i) :: u64)) (unat (gf64_mul 2 (of_nat (2 ^ i))))"
    using pmul_power2 [of 2 i] by (simp only: u(2)) (simp add: mult.commute)
  then show ?thesis by (metis u64_residue_eqI)
qed

definition frobenius64 :: "u64 \<Rightarrow> u64" where
  "frobenius64 x = ((\<lambda>t. gf64_mul t t) ^^ 64) x"

lemma frobenius64_hom:
  "frobenius64 0 = 0" "frobenius64 1 = 1" "frobenius64 2 = 2"
  "frobenius64 (x XOR y) = frobenius64 x XOR frobenius64 y"
  "frobenius64 (gf64_mul x y) = gf64_mul (frobenius64 x) (frobenius64 y)"
proof -
  have "unat (frobenius64 2) = 2"
    unfolding frobenius64_def unat_sqr_iter using sq64_generator by simp
  then show "frobenius64 2 = 2" by (simp add: word_unat_eq_iff)
qed (simp_all only: frobenius64_def gf64.sqr_iter_zero gf64.sqr_iter_one gf64.sqr_iter_xor gf64.sqr_iter_mul)

lemma frobenius_power: "i < 64 \<Longrightarrow> frobenius64 (of_nat (2 ^ i)) = of_nat (2 ^ i)"
proof (induction i)
  case 0
  then show ?case by (simp add: frobenius64_hom)
next
  case (Suc i)
  then show ?case
    using frobenius64_hom(5) [of 2 "of_nat (2 ^ i)"] by (simp only: double_step [OF Suc.prems] frobenius64_hom(3) Suc_lessD)
qed

lemma frobenius_id: "frobenius64 x = x"
proof -
  have "frobenius64 (of_nat n) = of_nat n" if "n < 2 ^ 64" for n
    using that
  proof (induction rule: top_bit_induct)
    case zero
    then show ?case by (simp add: frobenius64_hom)
  next
    case (top j n)
    have "(of_nat (2 ^ j XOR n) :: u64) = of_nat (2 ^ j) XOR of_nat n"
      by (simp only: of_nat_xor_eq)
    then show ?case using top frobenius_power [OF top(1)] by (simp only: frobenius64_hom)
  qed
  from this [of "unat x"] show ?thesis by simp
qed

subsection \<open>The inverse\<close>

lemma gf64_inv_power: "gf64_inv x = gpow gf64_mul x (2 ^ 64 - 2)"
proof -
  let ?p = "gpow gf64_mul x"
  have x: "x = ?p 1" by (rule gf64.gpow_1 [symmetric])
  have t1: "gf64_mul x x = ?p 2" using gf64.gpow_add [of x 1 1] by (simp only: x [symmetric] one_add_one)
  have t2: "gf64_mul (?p 2) x = ?p 3" using gf64.gpow_add [of x 2 1] by (simp only: x [symmetric]) simp
  show ?thesis
    unfolding gf64_inv_def Let_def t1 t2 gf64.gpow_add gf64.gpow_sqr_iter by simp
qed

lemma gf64_inverse:
  assumes "x \<noteq> 0"
  shows "gf64_mul x (gf64_inv x) = 1"
proof -
  let ?p = "gpow gf64_mul x"
  have full: "?p (2 ^ 64) = x"
    using gf64.gpow_sqr_iter [of 64 x 1] frobenius_id [of x] by (simp only: frobenius64_def gf64.gpow_1 mult_1_right)
  have step: "gf64_mul x (?p n) = ?p (Suc n)" for n by (simp only: gf64.gpow_Suc)
  define m :: nat where "m = 2 ^ 64 - 2"
  have m: "Suc (Suc m) = 2 ^ 64" by (simp add: m_def)
  define e where "e = ?p (Suc m)"
  have xe: "gf64_mul x e = x" unfolding e_def step m by (rule full)
  have "gf64_mul e e = gf64_mul (?p (Suc (Suc m))) (?p m)"
    unfolding e_def gf64.gpow_add by simp
  also have "\<dots> = e" unfolding m full step e_def ..
  finally have "e = 0 \<or> e = 1" by (rule idempotent_trivial)
  with xe assms have "e = 1" by (auto simp: gf64.mul_zero)
  moreover have "gf64_mul x (gf64_inv x) = e"
    unfolding gf64_inv_power m_def [symmetric] step e_def ..
  ultimately show ?thesis by simp
qed

interpretation gf64_field: gf2_field gf64_mul gf64_inv
  by unfold_locales (rule gf64_inverse)

end
