(* ===== verification/Gf_Intrinsic_Properties.thy ===== *)
theory Gf_Intrinsic_Properties
  imports Gf64_Inverse
begin

text \<open>
  The properties of the Galois fields and of the universal hash. \<open>ExtractHashCoef\<close> gives the coefficients of the hash for a few
  positions, so that the hash of a vector that is zero elsewhere is an inner product with them.
\<close>

subsection \<open>Logarithms\<close>

lemma unat_less_power:
  assumes "\<And>j. k \<le> j \<Longrightarrow> \<not> bit (w :: 'a :: len word) j"
  shows "unat w < 2 ^ k"
proof -
  have "j < k" if "bit w j" for j using assms [of j] that by (cases "j < k") auto
  then have "unat w = take_bit k (unat w)"
    by (intro bit_eqI) (auto simp: bit_take_bit_iff bit_unsigned_iff)
  then show ?thesis by (metis take_bit_nat_less_exp)
qed

lemma countl_zero_bound:
  assumes "x \<noteq> 0"
  shows "countl_zero x < 64" "unat x < 2 ^ (64 - countl_zero x)"
proof -
  let ?P = "\<lambda>i. \<not> bit x (63 - i)"
  let ?c = "countl_zero x"
  have low: "?P i" if "i < ?c" for i
  proof -
    have "i < 64" using that length_takeWhile_le [of ?P "[0..<64]"] by (simp add: countl_zero_def)
    then have "takeWhile ?P [0..<64] ! i = i" using that by (simp add: countl_zero_def takeWhile_nth)
    then have "i \<in> set (takeWhile ?P [0..<64])" using that nth_mem [of i "takeWhile ?P [0..<64]"] by (simp add: countl_zero_def)
    then show ?thesis by (auto dest: set_takeWhileD)
  qed
  show lt: "?c < 64"
  proof (rule ccontr)
    assume "\<not> ?c < 64"
    then have "\<not> bit x j" if "j < 64" for j using low [of "63 - j"] that by simp
    then have "x = 0" by (intro bit_word_eqI) simp
    with assms show False by simp
  qed
  show "unat x < 2 ^ (64 - ?c)"
  proof (rule unat_less_power)
    fix j assume "64 - ?c \<le> j"
    then show "\<not> bit x j" using low [of "63 - j"] lt by (cases "j < 64") (auto dest: bit_imp_le_length)
  qed
qed

lemma log2_floor_bound:
  assumes "x \<noteq> 0"
  obtains l where "log2_floor x = Inr l" "unat x < 2 ^ Suc (unat l)" "unat l < 64"
    "unat x < 2 ^ 63 \<longrightarrow> unat l < 63"
proof -
  let ?c = "countl_zero x"
  note c = countl_zero_bound [OF assms]
  have u: "unat (8 * 8 - of_nat ?c - 1 :: u64) = 63 - ?c"
  proof -
    have "(8 * 8 - of_nat ?c - 1 :: u64) = of_nat (63 - ?c)" using c(1) by (simp add: of_nat_diff)
    moreover have "unat (of_nat (63 - ?c) :: u64) = 63 - ?c" by (rule unat_of_nat_small) simp
    ultimately show ?thesis by (simp only:)
  qed
  show thesis
  proof
    show "log2_floor x = Inr (8 * 8 - of_nat ?c - 1)" using assms by (simp add: log2_floor_def)
    have "Suc (63 - ?c) = 64 - ?c" using c(1) by simp
    then show "unat x < 2 ^ Suc (unat (8 * 8 - of_nat ?c - 1 :: u64))" unfolding u using c(2) by simp
    show "unat (8 * 8 - of_nat ?c - 1 :: u64) < 64" unfolding u by simp
    show "unat x < 2 ^ 63 \<longrightarrow> unat (8 * 8 - of_nat ?c - 1 :: u64) < 63"
    proof
      assume small: "unat x < 2 ^ 63"
      have "?c \<noteq> 0"
      proof
        assume "?c = 0"
        then have "bit x 63" using takeWhile_eq_Nil_iff [of "\<lambda>i. \<not> bit x (63 - i)" "[0..<64]"] by (simp add: countl_zero_def)
        then have "bit (unat x) 63" by (simp add: bit_unsigned_iff)
        then show False using small by (simp add: bit_iff_odd)
      qed
      then show "unat (8 * 8 - of_nat ?c - 1 :: u64) < 63" unfolding u by simp
    qed
  qed
qed

lemma log2_ceil_bound:
  assumes "2 \<le> unat x" "unat x \<le> 2 ^ 63"
  obtains l where "log2_ceil x = Inr l" "unat x \<le> 2 ^ unat l" "0 < unat l" "unat l < 64"
proof -
  have x: "x \<noteq> 0" "x \<noteq> 1" using assms(1) by auto
  have "1 \<le> x" using x(1) by simp
  then have d: "unat (x - 1) = unat x - 1" by (simp only: unat_sub unat_1)
  have "x - 1 \<noteq> 0" using x(2) by simp
  then obtain l where l: "log2_floor (x - 1) = Inr l" "unat (x - 1) < 2 ^ Suc (unat l)" "unat l < 64"
    "unat (x - 1) < 2 ^ 63 \<longrightarrow> unat l < 63" by (rule log2_floor_bound)
  have "unat l < 63" using l(4) d assms by simp
  then have l1: "unat (l + 1) = Suc (unat l)" using unat_add_lem [of l 1] by simp
  show thesis
  proof (rule that [of "l + 1"])
    show "log2_ceil x = Inr (l + 1)" using x l(1) by (simp add: log2_ceil_def)
    show "unat x \<le> 2 ^ unat (l + 1)" using l(2) d l1 assms(1) by simp
    show "0 < unat (l + 1)" "unat (l + 1) < 64" using l1 \<open>unat l < 63\<close> by simp_all
  qed
qed

subsection \<open>The coefficients of the hash\<close>

lemma mask_bit: "i < 64 \<Longrightarrow> push_bit i 1 AND (w :: u64) \<noteq> 0 \<longleftrightarrow> bit w i"
  using bit_eq_iff [of "push_bit i 1 AND w" 0] by (auto simp: bit_and_iff bit_exp_iff)

lemma le_last: "sorted xs \<Longrightarrow> x \<in> set xs \<Longrightarrow> x \<le> last (xs :: nat list)"
  by (induction xs) auto

lemma unat_mask: "i < 64 \<Longrightarrow> unat (push_bit i 1 :: u64) = 2 ^ i"
  by (subst unat_push_bit) (simp add: power_strict_increasing_iff flip: power_strict_increasing_iff [of "2 :: nat" i 64])

lemma mod_Suc_power: "(n :: nat) mod 2 ^ Suc i = n mod 2 ^ i + (if bit n i then 2 ^ i else 0)"
  using take_bit_Suc_from_most [of i n] by (simp add: take_bit_eq_mod)

context gf2_ring
begin

lemma seed_powers_ok:
  assumes "unat mb < 64"
  obtains buff where "seed_powers mul seed mb = Inr buff" "length buff = 64"
    "\<And>i. i \<le> unat mb \<Longrightarrow> buff ! i = gpow mul seed (2 ^ i)"
proof -
  let ?s = "(replicate 64 0)[0 := seed]" and ?is = "[1..<Suc (unat mb)]"
  let ?I = "\<lambda>k buff. length buff = 64 \<and> (\<forall>i \<le> k. buff ! i = gpow mul seed (2 ^ i))"
  let ?f = "\<lambda>i buff. rbind (at_idx buff (i - 1)) (\<lambda>b. set_idx buff i (mul b b))"
  have "returns (rfold ?f ?is ?s) (?I (length ?is))"
  proof (rule returns_rfold [where I = ?I and f = ?f])
    show "?I 0 ?s" by (simp add: gpow_Suc gpow_0 mul_commute [of seed 1] mul_one)
  next
    fix k buff assume k: "k < length ?is" and I: "?I k buff"
    have k': "?is ! k = Suc k" "Suc k < 64" using k assms by (simp_all del: upt_Suc)
    have "mul (buff ! k) (buff ! k) = gpow mul seed (2 ^ Suc k)" using I by (simp add: gpow_add mult_2)
    with I k' show "returns (?f (?is ! k) buff) (?I (Suc k))"
      by (auto simp: at_idx_in set_idx_in nth_list_update le_Suc_eq)
  qed
  then show thesis using that by (auto simp: seed_powers_def returns_def simp del: upt_Suc)
qed

lemma coef_loop_ok:
  assumes "length buff = 64" "\<And>i. bit ipo i \<Longrightarrow> buff ! i = gpow mul seed (2 ^ i)"
  shows "n + i = 64 \<Longrightarrow> coef_loop mul buff ipo n i (if i < 64 then push_bit i 1 else 0) (gpow mul seed (unat ipo mod 2 ^ i)) =
    Inr (gpow mul seed (unat ipo))"
proof (induction n arbitrary: i)
  case 0
  then show ?case using mod_less [of "unat ipo" "2 ^ 64"] by simp
next
  case (Suc n)
  then have i: "i < 64" by simp
  show ?case
  proof (cases "push_bit i 1 \<le> ipo")
    case False
    then have "unat ipo < 2 ^ i" using unat_mask [OF i] by (simp add: word_le_nat_alt not_le)
    with False i show ?thesis by simp
  next
    case True
    let ?c = "gpow mul seed (unat ipo mod 2 ^ i)"
    have next_c: "(if bit ipo i then mul ?c (buff ! i) else ?c) = gpow mul seed (unat ipo mod 2 ^ Suc i)"
      using assms(2) [of i] i by (simp add: mod_Suc_power bit_unsigned_iff gpow_add del: power_Suc)
    have next_m: "push_bit 1 (push_bit i 1 :: u64) = (if Suc i < 64 then push_bit (Suc i) 1 else 0)"
    proof (cases "Suc i < 64")
      case False
      then have "i = 63" using i by simp
      then show ?thesis by simp
    qed simp
    have "coef_loop mul buff ipo (Suc n) i (push_bit i 1) ?c =
        coef_loop mul buff ipo n (Suc i) (push_bit 1 (push_bit i 1)) (if bit ipo i then mul ?c (buff ! i) else ?c)"
      using True i assms(1) by (simp only: coef_loop.simps mask_bit if_True at_idx_in) (simp add: at_idx_in)
    also have "\<dots> = Inr (gpow mul seed (unat ipo))"
      unfolding next_c next_m using Suc.IH [of "Suc i"] Suc.prems by (simp only: add_Suc_right add_Suc)
    finally show ?thesis using i by simp
  qed
qed

lemma extract_hash_coef_ok:
  assumes "indexes \<noteq> []" "\<And>i. i \<in> set indexes \<Longrightarrow> unat i \<le> unat (last indexes)" "2 \<le> unat (last indexes)"
    "unat (last indexes) < 2 ^ 63"
  shows "extract_hash_coef mul seed indexes = Inr (map (\<lambda>i. gpow mul seed (Suc (unat i))) indexes)"
proof -
  let ?b = "last indexes"
  obtain mb where mb: "log2_ceil ?b = Inr mb" "unat ?b \<le> 2 ^ unat mb" "0 < unat mb" "unat mb < 64"
    using log2_ceil_bound [of ?b] assms(3,4) by auto
  obtain buff where buff: "seed_powers mul seed mb = Inr buff" "length buff = 64"
    "\<And>i. i \<le> unat mb \<Longrightarrow> buff ! i = gpow mul seed (2 ^ i)" using seed_powers_ok [OF mb(4)] by blast
  have coef: "coef_loop mul buff (i + 1) 64 0 1 1 = Inr (gpow mul seed (Suc (unat i)))" if "i \<in> set indexes" for i
  proof -
    have u: "unat (i + 1) = Suc (unat i)"
      using assms(2) [OF that] assms(4) unat_add_lem [of i 1] by simp
    have "Suc (unat i) < 2 ^ Suc (unat mb)"
    proof -
      have "(2 :: nat) ^ 1 \<le> 2 ^ unat mb" using mb(3) by (intro power_increasing) simp_all
      then show ?thesis using assms(2) [OF that] mb(2) by simp
    qed
    then have "\<not> bit (i + 1) j" if "unat mb < j" for j
    proof -
      have "(2 :: nat) ^ Suc (unat mb) \<le> 2 ^ j" using that by (intro power_increasing) simp_all
      with \<open>Suc (unat i) < 2 ^ Suc (unat mb)\<close> have "unat (i + 1) div 2 ^ j = 0" using u by simp
      then show ?thesis by (simp add: bit_odd)
    qed
    then have "buff ! j = gpow mul seed (2 ^ j)" if "bit (i + 1) j" for j
      using buff(3) [of j] that by (cases "j \<le> unat mb") auto
    then have "coef_loop mul buff (i + 1) 64 0 (if (0 :: nat) < 64 then push_bit 0 1 else 0)
        (gpow mul seed (unat (i + 1) mod 2 ^ 0)) = Inr (gpow mul seed (unat (i + 1)))"
      by (intro coef_loop_ok [OF buff(2)]) simp_all
    then show ?thesis by (simp add: gpow_0 u)
  qed
  have "rfold (\<lambda>index ret. rbind (coef_loop mul buff (index + 1) 64 0 1 1) (\<lambda>coef. Inr (ret @ [coef]))) is ret =
      Inr (ret @ map (\<lambda>i. gpow mul seed (Suc (unat i))) is)" if "set is \<subseteq> set indexes" for "is" ret
    using that by (induction "is" arbitrary: ret) (simp_all add: coef)
  then show ?thesis
    using assms(1) mb(1) buff(1) by (simp add: extract_hash_coef_def at_idx_in last_conv_nth del: rbind_eq_Inr)
qed

text \<open>The hash of a vector that is zero outside the given positions.\<close>

lemma sparse_hash:
  assumes "distinct indexes" "\<And>i. i \<in> set indexes \<Longrightarrow> unat i < length data"
    "\<And>j. j < length data \<Longrightarrow> j \<notin> unat ` set indexes \<Longrightarrow> data ! j = 0"
  shows "universal_hash mul seed data =
    inner_product mul (map (\<lambda>i. data ! unat i) indexes) (map (\<lambda>i. gpow mul seed (Suc (unat i))) indexes)"
proof -
  let ?f = "\<lambda>i. mul (data ! i) (gpow mul seed (Suc i))"
  have "universal_hash mul seed data = xor_list (map ?f (map unat indexes))"
    unfolding universal_hash_poly using assms
    by (intro xor_sum_support) (auto simp: distinct_map mul_commute [of 0] mul_zero intro!: inj_onI dest!: word_unat_eq_iff [THEN iffD2])
  also have "map ?f (map unat indexes) = map2 mul (map (\<lambda>i. data ! unat i) indexes) (map (\<lambda>i. gpow mul seed (Suc (unat i))) indexes)"
    by (induction indexes) simp_all
  finally show ?thesis by (simp add: inner_product_def)
qed

lemma sparse_extract:
  assumes "sorted (map unat indexes)" "distinct indexes" "indexes \<noteq> []" "2 \<le> unat (last indexes)" "unat (last indexes) < 2 ^ 63"
  shows "returns (extract_hash_coef mul seed indexes) (\<lambda>coef. \<forall>data.
      unat (last indexes) < length data \<and> (\<forall>j < length data. j \<notin> unat ` set indexes \<longrightarrow> data ! j = 0) \<longrightarrow>
      universal_hash mul seed data = inner_product mul (map (\<lambda>i. data ! unat i) indexes) coef)"
proof -
  have le: "unat i \<le> unat (last indexes)" if "i \<in> set indexes" for i
    using le_last [OF assms(1), of "unat i"] that assms(3) by (simp add: last_map)
  have "universal_hash mul seed data = inner_product mul (map (\<lambda>i. data ! unat i) indexes)
      (map (\<lambda>i. gpow mul seed (Suc (unat i))) indexes)"
    if "unat (last indexes) < length data" "\<forall>j < length data. j \<notin> unat ` set indexes \<longrightarrow> data ! j = 0" for data
    using that le_less_trans [OF le that(1)] by (intro sparse_hash [OF assms(2)]) blast+
  then show ?thesis by (simp only: extract_hash_coef_ok [OF assms(3) le assms(4,5)] returns_Inr) blast
qed

end

subsection \<open>Properties\<close>

text \<open>C13: the products computed with the carry-less multiplication instruction are the products of polynomials modulo
  \<open>x^64 + x^4 + x^3 + x + 1\<close> and \<open>x^128 + x^7 + x^2 + x + 1\<close>, and no other element is congruent to them; the products of two
  spans, which reduce only the sum of the unreduced products, are the inner products in the field, and spans of different
  lengths are refused.\<close>

theorem gf_products_correct:
  "peq P64 (unat (gf64_mul x y)) (pmul (unat x) (unat y)) \<and>
   (peq P64 (unat z) (pmul (unat x) (unat y)) \<longrightarrow> z = gf64_mul x y) \<and>
   peq P128 (unat (gf128_mul u v)) (pmul (unat u) (unat v)) \<and>
   (peq P128 (unat w) (pmul (unat u) (unat v)) \<longrightarrow> w = gf128_mul u v) \<and>
   gf64_mul_span xs ys = (if length xs = length ys then Inr (inner_product gf64_mul xs ys) else Inl EnforceNotMet) \<and>
   gf128_mul_span us vs = (if length us = length vs then Inr (inner_product gf128_mul us vs) else Inl EnforceNotMet)"
proof (intro conjI impI)
  show "peq P64 (unat (gf64_mul x y)) (pmul (unat x) (unat y))"
    by (rule peq_sym) (rule gf64_mul_eq)
  show "peq P128 (unat (gf128_mul u v)) (pmul (unat u) (unat v))"
    by (rule peq_sym) (rule gf128_mul_eq)
  show "z = gf64_mul x y" if "peq P64 (unat z) (pmul (unat x) (unat y))"
    by (rule u64_residue_eqI) (rule peq_trans [OF that gf64_mul_eq])
  show "w = gf128_mul u v" if "peq P128 (unat w) (pmul (unat u) (unat v))"
    by (rule u128_residue_eqI) (rule peq_trans [OF that gf128_mul_eq])
qed (rule gf64_mul_span_eq gf128_mul_span_eq)+

theorem gf_products_correct_witness:
  "peq P64 (unat (6 :: u64)) (pmul (unat (2 :: u64)) (unat (3 :: u64))) \<and> 6 = gf64_mul 2 3 \<and> 6 = gf128_mul 2 3"
proof -
  have "pmul 2 3 = 6" by (simp add: pmul_rec [of 2 3])
  then have p: "peq P64 (unat (6 :: u64)) (pmul (unat (2 :: u64)) (unat (3 :: u64)))"
    "peq P128 (unat (6 :: u128)) (pmul (unat (2 :: u128)) (unat (3 :: u128)))" by simp_all
  note c = gf_products_correct [where x = 2 and y = 3 and z = 6 and u = 2 and v = 3 and w = 6 and xs = "[]" and ys = "[]"
    and us = "[]" and vs = "[]"]
  from c p(1) have "6 = gf64_mul 2 3" by blast
  moreover from c p(2) have "6 = gf128_mul 2 3" by blast
  ultimately show ?thesis using p(1) by (intro conjI)
qed

text \<open>C11: \<open>Gf64Inv\<close> returns the inverse of every element except 0, and no other element is one; it maps 0 to 0.\<close>

theorem gf64_inv_correct:
  "(x \<noteq> 0 \<longrightarrow> gf64_mul x (gf64_inv x) = 1) \<and> (gf64_mul x y = 1 \<longrightarrow> y = gf64_inv x) \<and> gf64_inv 0 = 0"
proof (intro conjI impI)
  have "gpow gf64_mul 0 (Suc n) = 0" for n
    unfolding gf64.gpow_Suc by (subst gf64.mul_commute) (rule gf64.mul_zero)
  moreover have "(2 :: nat) ^ 64 - 2 = Suc (2 ^ 64 - 3)" by simp
  ultimately show "gf64_inv 0 = 0" by (simp only: gf64_inv_power)
qed (erule gf64_inverse gf64_field.inv_unique)+

theorem gf64_inv_correct_witness: "gf64_mul 5 (gf64_inv 5) = 1 \<and> 1 = gf64_inv 1"
  using gf64_inv_correct [of 5 0] gf64_inv_correct [of 1 1] by (simp add: gf64.mul_one)

text \<open>C17: in both fields, for a non-empty, strictly increasing list of positions whose last is at least 2 and below \<open>2 ^ 63\<close>,
  \<open>ExtractHashCoef\<close> returns the power of the seed that \<open>UniversalHash\<close> multiplies each position with: the hash of a vector
  that is zero elsewhere is the inner product of the values at the positions with the coefficients.\<close>

theorem sparse_universal_hash:
  assumes "sorted (map unat indexes)" "distinct indexes" "indexes \<noteq> []" "2 \<le> unat (last indexes)" "unat (last indexes) < 2 ^ 63"
  shows "returns (extract_hash_coef gf64_mul seed64 indexes) (\<lambda>coef. \<forall>data.
      unat (last indexes) < length data \<and> (\<forall>j < length data. j \<notin> unat ` set indexes \<longrightarrow> data ! j = 0) \<longrightarrow>
      universal_hash gf64_mul seed64 data = inner_product gf64_mul (map (\<lambda>i. data ! unat i) indexes) coef) \<and>
    returns (extract_hash_coef gf128_mul seed128 indexes) (\<lambda>coef. \<forall>data.
      unat (last indexes) < length data \<and> (\<forall>j < length data. j \<notin> unat ` set indexes \<longrightarrow> data ! j = 0) \<longrightarrow>
      universal_hash gf128_mul seed128 data = inner_product gf128_mul (map (\<lambda>i. data ! unat i) indexes) coef)"
  by (intro conjI gf64.sparse_extract gf128.sparse_extract assms)

theorem sparse_universal_hash_witness:
  "\<exists>coef. extract_hash_coef gf64_mul 7 [1, 3] = Inr coef \<and>
    universal_hash gf64_mul 7 [0, 5, 0, 9] = inner_product gf64_mul [5, 9] coef"
proof -
  have "returns (extract_hash_coef gf64_mul 7 [1, 3]) (\<lambda>coef. \<forall>data.
      unat (last [1 :: u64, 3]) < length data \<and> (\<forall>j < length data. j \<notin> unat ` set [1 :: u64, 3] \<longrightarrow> data ! j = 0) \<longrightarrow>
      universal_hash gf64_mul 7 data = inner_product gf64_mul (map (\<lambda>i. data ! unat i) [1 :: u64, 3]) coef)"
    using sparse_universal_hash [of "[1, 3]" 7 0] by simp
  moreover have "\<forall>j < length [0, 5, 0, 9 :: u64]. j \<notin> unat ` set [1 :: u64, 3] \<longrightarrow> [0, 5, 0, 9 :: u64] ! j = 0"
    by (auto simp: nth_Cons')
  ultimately show ?thesis unfolding returns_def by force
qed

subsection \<open>Small positions\<close>

text \<open>The number of squarings is the logarithm of the last index, where the exponent is one more: for the last index 1 the
  square of the seed is missing from the table and the coefficient is 0, and for the last index 0 the logarithm throws.\<close>

lemma extract_hash_coef_one: "extract_hash_coef gf64_mul seed [1] = Inr [0]"
proof -
  let ?buff = "(replicate 64 0)[0 := seed]"
  have buff: "seed_powers gf64_mul seed 0 = Inr ?buff" by (simp add: seed_powers_def)
  have "at_idx ?buff 1 = Inr 0" by (simp add: at_idx_in)
  then have "coef_loop gf64_mul ?buff 2 (Suc (Suc (Suc n))) 0 1 1 = Inr 0" for n
    by (simp add: gf64.mul_zero del: at_idx_Inr)
  from this [of 61] have "coef_loop gf64_mul ?buff 2 64 0 1 1 = Inr 0" by simp
  then show ?thesis
    by (simp add: extract_hash_coef_def log2_ceil_def at_idx_in buff del: rbind_eq_Inr)
qed

lemma extract_hash_coef_zero: "extract_hash_coef gf64_mul seed [0] = Inl EnforceNotMet"
  by (simp add: extract_hash_coef_def log2_ceil_def at_idx_in)

end
