(* ===== verification/Spec2Isabelle.thy ===== *)
theory Spec2Isabelle
  imports Channel_Properties Dynamic_Bitset_Properties Collectives_Properties Link_Context_Properties Dcf_Properties Pprf Cuckoo_Index_Properties Iknp_Ote_Properties Circuits_Properties Gf_Intrinsic_Properties
begin

text \<open>
  A verification development for yacl, a C++ library for secure multi-party computation. The paths below are under
  \<open>src/yacl\<close>.

  \<^bold>\<open>The program.\<close> Parties communicate through a link context (\<open>link\<close>), which has a channel to every other
  party. A channel numbers, splits, acknowledges and reorders messages over a transport; the collective algorithms and
  the protocols are programs over the context. The kernels (\<open>kernel\<close>) produce oblivious transfers, kept in stores,
  with the help of hashes and of bit-matrix transposition. The point and comparison functions (\<open>crypto/experimental/dpf\<close>),
  the Galois fields (\<open>math/galois_field\<close>), the circuits (\<open>io/circuit\<close>) with their executor, and the containers
  (\<open>base/dynamic_bitset.h\<close>, \<open>utils/segment_tree.h\<close>, \<open>utils/cuckoo_index.h\<close>) are single-party code.

  \<^bold>\<open>Conventions\<close> (theory \<open>Prelude\<close>). A fallible function returns \<open>result\<close>, the sum of an error and a value; every
  \<open>YACL_ENFORCE\<close>, \<open>YACL_THROW\<close> and subscript out of range is a branch of it, and \<open>Undefined\<close> stands for undefined behaviour.
  A method that changes its object is a \<open>proc\<close>, from the object to a result together with the object. Fixed-width
  integers are words where wrapping matters, and natural numbers where a theory says so. A loop is structural recursion
  or a function with a termination proof, so every model is total and none takes fuel. A method that waits on a
  condition variable takes the list of its wake-ups; the value \<open>None\<close> is a thread that still waits.

  \<^bold>\<open>Channels.\<close>
  \<^item> \<open>Segment_Tree\<close> (\<open>utils/segment_tree.h\<close>): the ids a channel has seen. It implements a set (locale \<open>id_set\<close>).
  \<^item> \<open>Channel_Keys\<close>, \<open>Retry\<close>, \<open>Chunking\<close> (\<open>link/transport/channel.cc\<close>, \<open>link/retry_options.h\<close>): transport keys and
    that packing them can be undone; the retry loop, its end and outcome; splitting and reassembling a long message, for
    every order and repetition of the chunks, and the window of chunks in flight.
  \<^item> \<open>Transport_Link\<close> (\<open>link/transport/interconnection_link.cc\<close>): packing of requests (locale \<open>transport_link\<close>).
  \<^item> \<open>Ordered_Map\<close>: \<open>std::map\<close> as an ordered list (locale \<open>std_map\<close>).
  \<^item> \<open>Channel\<close> (\<open>link/transport/channel.h\<close>, \<open>channel.cc\<close>): the record \<open>channel\<close> and one procedure per method.
  \<^item> \<open>Channel_System\<close>: two channels over a transport that may delay, reorder, repeat or lose requests, as the step
    relation \<open>sys_step\<close>, with its invariants. It has fewer than \<open>2\<^sup>6\<^sup>4 - 2\<close> messages per side, so that ids do not
    wrap, and messages shorter than \<open>2\<^sup>6\<^sup>3\<close> bytes. \<open>Recv\<close> is a call and a later return or exception. The invariants need
    requests of at least 20 bytes, the length of the longest id: with a smaller limit acknowledgements are split and
    chunks of two of them can mix (\<open>ack_chunks_mix\<close>).
  \<^item> \<open>Channel_Properties\<close>: exactly-once delivery, the meaning of an acknowledgement and of \<open>WaitLinkTaskFinish\<close>, the
    throttle window, \<open>Recv\<close>, and a write out of bounds that a faulty peer can cause.

  \<^bold>\<open>Contexts and collectives.\<close>
  \<^item> \<open>Party_Programs\<close>: programs of parties and the mesh that joins them, as the step relation \<open>mesh_step\<close>. The locale
    \<open>mesh_protocol\<close> shows once that parties whose messages fit together end in every interleaving, without deadlock,
    when no receive times out; with timeouts, that nothing else goes wrong. The channels of all parties live as long as
    the mesh: the exception of a send to a released peer is in \<open>Channel_Mem\<close> only.
  \<^item> \<open>Channel_Mem\<close>, \<open>Link_Context\<close>, \<open>Collectives\<close> (\<open>link/transport/channel_mem.cc\<close>, \<open>link/context.cc\<close>,
    \<open>link/factory_mem.cc\<close>, \<open>link/algorithm\<close>): memory channels, the context with its sub-contexts, and the collectives. The
    operation counter wraps at \<open>2^64\<close>, and the \<open>int\<close> counters of point-to-point messages overflow at \<open>2^31\<close>.
  \<^item> \<open>Message_Flows\<close>, \<open>Collectives_Correct\<close>, \<open>Collectives_Properties\<close>: any program of collective and point-to-point
    operations that stays within the counters ends with the specified results; the barrier synchronises.
  \<^item> \<open>Link_Context_Properties\<close>: the contexts \<open>SubWorld\<close> makes agree with each other, and its errors; the timeout guard;
    \<open>ConnectToMesh\<close>.

  \<^bold>\<open>Oblivious transfer.\<close>
  \<^item> \<open>Matrix_Transpose\<close> and its properties (\<open>utils/matrix_utils.cc\<close>): the three transpositions agree (locale
    \<open>bit_squares\<close>, for the exchange of squares of bits).
  \<^item> \<open>Ot_Store\<close> and its properties (\<open>kernel/type\<close>): stores and slices over a heap of shared buffers. The locale
    \<open>ot_slicing\<close> is the contract of \<open>NextSlice\<close> for both stores: slices share no transfer.
  \<^item> \<open>Cr_Hash\<close> (\<open>crypto/tools/crhash.cc\<close>): the correlation robust hashes.
  \<^item> \<open>Iknp_Ote\<close> and its properties (\<open>kernel/algorithms/iknp_ote.cc\<close>): both parties of the extension, and that in
    every interleaving the receiver ends with the messages of its choice.

  \<^bold>\<open>Function secret sharing\<close> (\<open>crypto/experimental/dpf\<close>). \<open>Ge2n\<close>: integers modulo \<open>2^n\<close>. \<open>Dpf\<close>, \<open>Dpf_Correct\<close>,
  \<open>Dpf_Properties\<close>, \<open>Dcf\<close>, \<open>Dcf_Properties\<close>: the two shares add up to the point or comparison function, also on
  the full domain of fewer than 32 bits, beyond which the code's shift is undefined. \<open>Pprf\<close>: a punctured key evaluates as the full key everywhere else. These are theorems of
  correctness; secrecy is a property of the generator and is not stated.

  \<^bold>\<open>Galois fields\<close> (\<open>math/galois_field/gf_intrinsic.cc\<close>, \<open>math/gadget.h\<close>). \<open>Gf_Intrinsic\<close> has the operations on words,
  \<open>Gf2_Poly\<close> polynomials over the field of two elements. \<open>Gf_Intrinsic_Field\<close> and \<open>Gf_Intrinsic_Ring\<close> show that the
  products are polynomial products modulo the two moduli (locale \<open>gf2_ring\<close>, for both), \<open>Gf64_Inverse\<close> that \<open>Gf64Inv\<close> inverts
  (locale \<open>gf2_field\<close>, for \<open>2^64\<close>, irreducibility by computation), and \<open>Gf_Intrinsic_Properties\<close> the
  universal hash and its coefficients. That the modulus of degree 128 is irreducible is not shown and not used.

  \<^bold>\<open>Circuits and containers.\<close>
  \<^item> \<open>Io_Streams\<close> (\<open>io/stream\<close>): input streams over a model of the standard stream (locale \<open>input_stream\<close>).
  \<^item> \<open>Circuits\<close>, \<open>Circuits_Reader\<close>, \<open>Circuits_Properties\<close> (\<open>io/circuit/bristol_fashion.cc\<close>,
    \<open>utils/circuit_executor.cc\<close>): the reader returns the circuit whose text the file holds; the executor computes the
    outputs the circuit defines, for circuits without MAND gates whose input sizes are the width of the values and whose
    output sizes are a palindrome; lemmas show how it departs from the definition for other sizes.
  \<^item> \<open>Dynamic_Bitset\<close>, \<open>Dynamic_Bitset_Refinement\<close>, \<open>Dynamic_Bitset_Queries\<close>, \<open>Dynamic_Bitset_Properties\<close>
    (\<open>base/dynamic_bitset.h\<close>): bits packed into blocks of any width refine a list of booleans, operation by operation.
  \<^item> \<open>Cuckoo_Index\<close> and its properties (\<open>utils/cuckoo_index.cc\<close>): every inserted input has exactly one place, and
    insertion throws only for too many inputs or a full stash.

  \<^bold>\<open>Parameters.\<close> Code outside the repository is an argument of the definitions that use it: \<open>prg\<close>, \<open>ggm\<close> and \<open>rp\<close> (block
  ciphers of OpenSSL or of the processor; no law is assumed), \<open>atoi\<close> and \<open>split\<close> (\<open>absl\<close>; they read back what was
  printed and separate what was joined), the msgpack serialiser (it round-trips), the file system, the transport, and random draws.
  \<open>scale_factor\<close> is the floating-point product of the cuckoo options. The processor's vector instructions are
  modelled by what their documentation says.

  \<^bold>\<open>Not modelled.\<close>
  \<^item> Calls of libraries: the brpc transports and their factories, base transfers (SimplestOT), ciphers, hashes, signatures,
    public-key encryption and random numbers (OpenSSL, BLAKE3), elliptic curves and pairings (OpenSSL, mcl, libsodium,
    lib25519, FourQlib), multi-precision integers (libtommath), LevelDB, msgpack.
  \<^item> Code over those libraries: the toy curves, the oblivious pseudo-random function, the experimental threshold and
    secret-sharing schemes, the dynamic field interface.
  \<^item> Protocols that could be modelled over the present theories and are not yet: the KOS, SoftSpoken, KKRT, SGRR, GYWZ and
    Ferret extensions, the VOLE protocols, their linear codes, and the kernels that choose between them.
  \<^item> Files, threads and logging: \<open>FileOutputStream\<close>, the CSV readers and writers, thread pools, timers, tracing, statistics
    output, and the registration of service providers.
  \<^item> Of modelled files: the AVX transposition (compiled only with \<open>YACL_ENABLE_BMI2\<close>), the methods of \<open>Context\<close> that
    only forward to every channel, \<open>PrintSummary\<close>, the allocation of the bitset's vector, \<open>GgmFullExpand\<close> (unused), the
    unused vector that \<open>DpfEvalAll\<close> allocates, and
    the error texts of rpc calls.
\<close>

end
